(* ===== verification/Prelude.thy ===== *)
theory Prelude
  imports Main "HOL-Library.Word" "HOL-Library.Product_Lexorder"
begin

text \<open>
  Shared material of the development: named collections of simplification rules, the
  ordered association list that stands for \<open>std::map\<close>, and generic lemmas on lists
  sorted by a strict order.
\<close>

named_theorems sched_simps "rewrite rules of the event schedulers"
named_theorems sim_simps "rewrite rules of the simulator state"

subsection \<open>Lists sorted by a strict order\<close>

text \<open>
  \<open>strict_before f\<close> relates two values by the strict order of a key \<open>f\<close>; two lists sorted
  by it and with the same elements are the same list.
\<close>

definition sorted_by :: "('a \<Rightarrow> 'b::linorder) \<Rightarrow> 'a list \<Rightarrow> bool" where
  "sorted_by f xs = sorted_wrt (\<lambda>a b. f a < f b) xs"

lemma sorted_by_Nil [simp]: "sorted_by f []"
  by (simp add: sorted_by_def)

lemma sorted_by_Cons [simp]:
  "sorted_by f (x # xs) \<longleftrightarrow> (\<forall>y\<in>set xs. f x < f y) \<and> sorted_by f xs"
  by (simp add: sorted_by_def)

lemma sorted_by_append:
  "sorted_by f (xs @ ys) \<longleftrightarrow>
     sorted_by f xs \<and> sorted_by f ys \<and> (\<forall>x\<in>set xs. \<forall>y\<in>set ys. f x < f y)"
  by (simp add: sorted_by_def sorted_wrt_append)

lemma sorted_by_distinct: "sorted_by f xs \<Longrightarrow> distinct (map f xs)"
  by (induction xs) auto

lemma sorted_by_distinct' [intro]: "sorted_by f xs \<Longrightarrow> distinct xs"
  by (induction xs) auto

lemma sorted_by_remove1: "sorted_by f xs \<Longrightarrow> sorted_by f (remove1 x xs)"
  by (induction xs) (auto dest: notin_set_remove1 [rotated] intro: in_set_remove1)

lemma sorted_by_unique:
  "sorted_by f xs \<Longrightarrow> sorted_by f ys \<Longrightarrow> set xs = set ys \<Longrightarrow> xs = ys"
proof (induction xs arbitrary: ys)
  case Nil
  then show ?case by simp
next
  case (Cons x xs)
  obtain y ys' where ys: "ys = y # ys'"
    using Cons.prems(3) by (cases ys) auto
  have "x = y"
  proof (rule ccontr)
    assume "x \<noteq> y"
    then have "x \<in> set ys'" and "y \<in> set xs"
      using Cons.prems(3) unfolding ys by auto
    then have "f y < f x" and "f x < f y"
      using Cons.prems(1,2) unfolding ys by auto
    then show False by simp
  qed
  moreover have "set xs = set ys'"
    using Cons.prems unfolding ys \<open>x = y\<close> by auto
  ultimately show ?case
    using Cons ys by simp
qed

lemma sorted_by_hd_least:
  "sorted_by f (x # xs) \<Longrightarrow> y \<in> set (x # xs) \<Longrightarrow> f x \<le> f y"
  by (auto intro: less_imp_le)

subsection \<open>The ordered associative container\<close>

text \<open>
  \<open>std::map<K, V, Compare>\<close> is an association list in the order of the comparator
  \<open>lt\<close>; two keys are equivalent when neither is less than the other. \<open>insert\<close> keeps the
  old entry when an equivalent key is there and reports that it did, \<open>operator[]\<close>
  followed by an assignment overwrites it.
\<close>

fun smap_insert :: "('k \<Rightarrow> 'k \<Rightarrow> bool) \<Rightarrow> 'k \<Rightarrow> 'v \<Rightarrow> ('k \<times> 'v) list \<Rightarrow> ('k \<times> 'v) list \<times> bool" where
  "smap_insert lt k v [] = ([(k, v)], True)"
| "smap_insert lt k v ((k', v') # m) =
     (if lt k k' then ((k, v) # (k', v') # m, True)
      else if lt k' k then (let (m', new) = smap_insert lt k v m in ((k', v') # m', new))
      else ((k', v') # m, False))"

fun smap_find :: "('k \<Rightarrow> 'k \<Rightarrow> bool) \<Rightarrow> 'k \<Rightarrow> ('k \<times> 'v) list \<Rightarrow> ('k \<times> 'v) option" where
  "smap_find lt k [] = None"
| "smap_find lt k ((k', v') # m) =
     (if \<not> lt k k' \<and> \<not> lt k' k then Some (k', v') else smap_find lt k m)"

fun smap_erase :: "('k \<Rightarrow> 'k \<Rightarrow> bool) \<Rightarrow> 'k \<Rightarrow> ('k \<times> 'v) list \<Rightarrow> ('k \<times> 'v) list" where
  "smap_erase lt k [] = []"
| "smap_erase lt k ((k', v') # m) =
     (if \<not> lt k k' \<and> \<not> lt k' k then m else (k', v') # smap_erase lt k m)"

fun smap_assign :: "('k \<Rightarrow> 'k \<Rightarrow> bool) \<Rightarrow> 'k \<Rightarrow> 'v \<Rightarrow> ('k \<times> 'v) list \<Rightarrow> ('k \<times> 'v) list" where
  "smap_assign lt k v [] = [(k, v)]"
| "smap_assign lt k v ((k', v') # m) =
     (if lt k k' then (k, v) # (k', v') # m
      else if lt k' k then (k', v') # smap_assign lt k v m
      else (k', v) # m)"

text \<open>When the comparator compares a key \<open>f\<close>, the container is the list sorted by it.\<close>

lemma smap_insert_sorted:
  assumes "\<And>a b. lt a b \<longleftrightarrow> f a < (f b :: 'b :: linorder)" and "sorted_by (\<lambda>e. f (fst e)) m"
  shows "sorted_by (\<lambda>e. f (fst e)) (fst (smap_insert lt k v m)) \<and>
    set (fst (smap_insert lt k v m)) = (if f k \<in> (\<lambda>e. f (fst e)) ` set m then set m else insert (k, v) (set m))"
  using assms(2)
proof (induction m)
  case Nil
  then show ?case by simp
next
  case (Cons e m)
  obtain k' v' where e: "e = (k', v')" by (cases e)
  show ?case
  proof (cases "f k < f k'")
    case True
    then have "f k \<notin> (\<lambda>e. f (fst e)) ` set (e # m)"
      using Cons.prems by (auto simp: e)
    then show ?thesis using True Cons.prems by (auto simp: e assms(1))
  next
    case False
    then show ?thesis
      using Cons by (auto simp: e assms(1) split: prod.splits if_splits)
  qed
qed

lemma smap_find_sorted:
  assumes "\<And>a b. lt a b \<longleftrightarrow> f a < (f b :: 'b :: linorder)" and "sorted_by (\<lambda>e. f (fst e)) m"
  shows "smap_find lt k m = Some e \<longleftrightarrow> e \<in> set m \<and> f (fst e) = f k"
  using assms(2) by (induction m) (auto simp: assms(1) split: if_splits)

lemma smap_erase_sorted:
  assumes "\<And>a b. lt a b \<longleftrightarrow> f a < (f b :: 'b :: linorder)" and "sorted_by (\<lambda>e. f (fst e)) m"
  shows "smap_erase lt k m = filter (\<lambda>e. f (fst e) \<noteq> f k) m"
  using assms(2)
proof (induction m)
  case (Cons e m)
  have "filter (\<lambda>e. f (fst e) \<noteq> f k) m = m" if "f (fst e) = f k"
    using Cons.prems that by (auto simp: filter_id_conv)
  then show ?case using Cons by (cases e) (auto simp: assms(1))
qed simp

text \<open>With a comparator that tells all keys apart it is a finite map.\<close>

lemma smap_assign_keys: "fst ` set (smap_assign (<) k v m) = insert (k :: 'k :: linorder) (fst ` set m)"
proof (induction m)
  case (Cons e m)
  obtain k' v' where "e = (k', v')" by (cases e)
  then show ?case
    using Cons by (cases k k' rule: linorder_cases) auto
qed simp

lemma fst_smap_insert:
  "fst (smap_insert lt k v ((k', v') # m)) =
     (if lt k k' then (k, v) # (k', v') # m
      else if lt k' k then (k', v') # fst (smap_insert lt k v m) else (k', v') # m)"
  by (simp split: prod.splits)

lemma smap_insert_keys: "fst ` set (fst (smap_insert (<) k v m)) = insert (k :: 'k :: linorder) (fst ` set m)"
proof (induction m)
  case (Cons e m)
  obtain k' v' where "e = (k', v')" by (cases e)
  then show ?case
    using Cons by (cases k k' rule: linorder_cases) (auto simp: fst_smap_insert simp del: smap_insert.simps(2))
qed simp

lemma sorted_by_fst_Cons: "sorted_by fst (e # m) \<longleftrightarrow> (\<forall>k\<in>fst ` set m. fst e < k) \<and> sorted_by fst m"
  by auto

lemma smap_sorted_keys:
  assumes "sorted_by fst m"
  shows "sorted_by fst (smap_assign (<) (k :: 'k :: linorder) v m)"
    and "map_of (smap_assign (<) k v m) = (map_of m)(k \<mapsto> v)"
    and "fst ` set (smap_assign (<) k v m) = insert k (fst ` set m)"
proof -
  show "sorted_by fst (smap_assign (<) k v m)"
    using assms
  proof (induction m)
    case (Cons e m)
    obtain k' v' where "e = (k', v')" by (cases e)
    then show ?case
      using Cons unfolding sorted_by_fst_Cons
      by (cases k k' rule: linorder_cases) (auto simp: sorted_by_fst_Cons smap_assign_keys simp del: sorted_by_Cons)
  qed simp
  show "map_of (smap_assign (<) k v m) = (map_of m)(k \<mapsto> v)"
    using assms
  proof (induction m)
    case (Cons e m)
    obtain k' v' where "e = (k', v')" by (cases e)
    then show ?case
      using Cons by (cases k k' rule: linorder_cases) auto
  qed simp
qed (rule smap_assign_keys)

lemma smap_keys_map_of:
  "smap_find (<) (k :: 'k :: linorder) m = map_option (\<lambda>v. (k, v)) (map_of m k)"
  by (induction m) auto

lemma smap_keys_erase:
  assumes "sorted_by fst m"
  shows "sorted_by fst (smap_erase (<) (k :: 'k :: linorder) m)" and "map_of (smap_erase (<) k m) = (map_of m)(k := None)"
    and "fst ` set (smap_erase (<) k m) = fst ` set m - {k}"
    and "length (smap_erase (<) k m) = length m - (if k \<in> fst ` set m then 1 else 0)"
proof -
  have eq: "smap_erase (<) k m = filter (\<lambda>e. fst e \<noteq> k) m"
    using smap_erase_sorted [of "(<)" "\<lambda>x. x" m k] assms by simp
  show "sorted_by fst (smap_erase (<) k m)"
    using assms by (simp add: eq sorted_by_def sorted_wrt_filter)
  show "map_of (smap_erase (<) k m) = (map_of m)(k := None)"
    unfolding eq by (induction m) (auto simp: fun_eq_iff)
  show "fst ` set (smap_erase (<) k m) = fst ` set m - {k}"
    unfolding eq by auto
  have d: "distinct (map fst m)" using assms by (rule sorted_by_distinct)
  show "length (smap_erase (<) k m) = length m - (if k \<in> fst ` set m then 1 else 0)"
    using d unfolding eq
  proof (induction m)
    case (Cons e m)
    then show ?case by (cases "fst e = k") (auto simp: length_greater_0_conv Suc_diff_le dest: length_pos_if_in_set)
  qed simp
qed

lemma smap_keys_insert:
  assumes "sorted_by fst m" and "k \<notin> fst ` set m"
  shows "sorted_by fst (fst (smap_insert (<) (k :: 'k :: linorder) v m))"
    and "map_of (fst (smap_insert (<) k v m)) = (map_of m)(k \<mapsto> v)"
    and "fst ` set (fst (smap_insert (<) k v m)) = insert k (fst ` set m)"
    and "length (fst (smap_insert (<) k v m)) = length m + 1"
proof -
  show "sorted_by fst (fst (smap_insert (<) k v m))"
    using assms
  proof (induction m)
    case (Cons e m)
    obtain k' v' where "e = (k', v')" by (cases e)
    then show ?case
      using Cons smap_insert_keys [of k v m]
      by (cases k k' rule: linorder_cases)
         (auto simp: fst_smap_insert sorted_by_fst_Cons simp del: sorted_by_Cons smap_insert.simps(2))
  qed simp
  show "map_of (fst (smap_insert (<) k v m)) = (map_of m)(k \<mapsto> v)"
    using assms
  proof (induction m)
    case (Cons e m)
    obtain k' v' where "e = (k', v')" by (cases e)
    then show ?case
      using Cons by (cases k k' rule: linorder_cases) (auto simp: fst_smap_insert simp del: smap_insert.simps(2))
  qed simp
  show "length (fst (smap_insert (<) k v m)) = length m + 1"
    using assms
  proof (induction m)
    case (Cons e m)
    obtain k' v' where "e = (k', v')" by (cases e)
    then show ?case
      using Cons by (cases k k' rule: linorder_cases) (auto simp: fst_smap_insert simp del: smap_insert.simps(2))
  qed simp
qed (rule smap_insert_keys)

subsection \<open>Words\<close>

lemma unat_lt32: "unat (x :: 32 word) < 2 ^ 32"
  by (rule order_less_le_trans [OF unsigned_less]) simp

subsection \<open>Positions on a circle\<close>

lemma mod_add_inj:
  "i < n \<Longrightarrow> j < n \<Longrightarrow> (h + i) mod n = (h + j) mod n \<longleftrightarrow> i = (j :: nat)"
proof -
  assume ij: "i < n" "j < n"
  have "(h + k) mod n = (if h mod n + k < n then h mod n + k else h mod n + k - n)" if "k < n" for k
  proof -
    have hn: "h mod n < n" using that by simp
    then have "h mod n + k - n < n" if "\<not> h mod n + k < n" using \<open>k < n\<close> by linarith
    then have "(h mod n + k) mod n = (if h mod n + k < n then h mod n + k else h mod n + k - n)"
      using that by (simp add: le_mod_geq)
    then show ?thesis by (simp add: mod_simps)
  qed
  moreover have "h mod n < n" using ij by simp
  ultimately show ?thesis using ij by auto
qed

subsection \<open>Loops that may fail\<close>

text \<open>A range-based \<open>for\<close> loop over \<open>xs\<close> whose body may abort.\<close>

fun for_each :: "('a \<Rightarrow> 's \<Rightarrow> 's option) \<Rightarrow> 'a list \<Rightarrow> 's \<Rightarrow> 's option" where
  "for_each f [] s = Some s"
| "for_each f (x # xs) s = Option.bind (f x s) (for_each f xs)"

lemma for_each_append: "for_each f (xs @ ys) s = Option.bind (for_each f xs s) (for_each f ys)"
  by (induction xs arbitrary: s) (auto split: bind_splits)

lemma for_each_Nil' [simp]: "for_each f [] = Some"
  by (rule ext) simp

lemma for_each_cong: "(\<And>x s. x \<in> set xs \<Longrightarrow> f x s = g x s) \<Longrightarrow> for_each f xs s = for_each g xs s"
  by (induction xs arbitrary: s) (auto split: bind_splits)

lemma for_each_induct:
  assumes "for_each f xs s = Some s'"
    and "P s" and "\<And>x s s'. x \<in> set xs \<Longrightarrow> P s \<Longrightarrow> f x s = Some s' \<Longrightarrow> P s'"
  shows "P s'"
  using assms
proof (induction xs arbitrary: s)
  case (Cons x xs)
  then obtain s1 where "f x s = Some s1" "for_each f xs s1 = Some s'"
    by (auto simp: Option.bind_eq_Some_conv)
  with Cons show ?case by (metis list.set_intros)
qed simp

end
