(* ===== verification/Events.thy ===== *)
theory Events
  imports Prelude
begin

text \<open>
  The vocabulary of the event schedulers (\<open>core/model/scheduler.h\<close>): event keys, events
  and their comparison operators, the virtual interface that every scheduler implements,
  and the contract \<open>event_queue\<close> a client relies on. The abstract view of a scheduler
  is the list of its events in the order of their keys.
\<close>

subsection \<open>Keys and events\<close>

record event_key =
  m_ts :: "64 word"
  m_uid :: "32 word"
  m_context :: "32 word"

text \<open>\<open>impl\<close> is the pointer to the event implementation, \<open>None\<close> for \<open>nullptr\<close>.\<close>

record event =
  impl :: "nat option"
  key :: event_key

definition key_eq :: "event_key \<Rightarrow> event_key \<Rightarrow> bool" where
  "key_eq a b = (m_uid a = m_uid b)"

definition key_less :: "event_key \<Rightarrow> event_key \<Rightarrow> bool" where
  "key_less a b =
     (if m_ts a < m_ts b then True
      else if m_ts a = m_ts b \<and> m_uid a < m_uid b then True
      else False)"

definition key_greater :: "event_key \<Rightarrow> event_key \<Rightarrow> bool" where
  "key_greater a b =
     (if m_ts b < m_ts a then True
      else if m_ts a = m_ts b \<and> m_uid b < m_uid a then True
      else False)"

definition event_eq :: "event \<Rightarrow> event \<Rightarrow> bool" where
  "event_eq a b = key_eq (key a) (key b)"

definition event_less :: "event \<Rightarrow> event \<Rightarrow> bool" where
  "event_less a b = key_less (key a) (key b)"

definition event_greater :: "event \<Rightarrow> event \<Rightarrow> bool" where
  "event_greater a b = key_greater (key a) (key b)"

text \<open>The order of the keys is the lexicographic order of time stamp and identifier.\<close>

definition rank :: "event \<Rightarrow> 64 word \<times> 32 word" where
  "rank e = (m_ts (key e), m_uid (key e))"

definition uid :: "event \<Rightarrow> 32 word" where
  "uid e = m_uid (key e)"

lemma key_less_rank: "key_less (key a) (key b) \<longleftrightarrow> rank a < rank b"
  by (auto simp: key_less_def rank_def)

lemma event_less_rank [sched_simps]: "event_less a b \<longleftrightarrow> rank a < rank b"
  by (simp add: event_less_def key_less_rank)

lemma key_greater_less: "key_greater a b \<longleftrightarrow> key_less b a"
  by (auto simp: key_greater_def key_less_def)

lemma event_greater_less [sched_simps]: "event_greater a b \<longleftrightarrow> event_less b a"
  by (simp add: event_greater_def event_less_def key_greater_less)

lemma event_eq_uid [sched_simps]: "event_eq a b \<longleftrightarrow> uid a = uid b"
  by (simp add: event_eq_def key_eq_def uid_def)

lemma rank_eqD: "rank a = rank b \<Longrightarrow> uid a = uid b"
  by (simp add: rank_def uid_def)

lemma rank_le_ts: "rank a \<le> rank b \<Longrightarrow> m_ts (key a) \<le> m_ts (key b)"
  by (auto simp: rank_def less_eq_prod_def)

subsection \<open>The virtual interface\<close>

text \<open>
  A scheduler is its table of virtual functions. \<open>None\<close> is a failed assertion or an access
  outside the container (undefined in the source).
\<close>

record 'q scheduler =
  Insert :: "event \<Rightarrow> 'q \<Rightarrow> 'q option"
  IsEmpty :: "'q \<Rightarrow> bool"
  PeekNext :: "'q \<Rightarrow> event option"
  RemoveNext :: "'q \<Rightarrow> (event \<times> 'q) option"
  Remove :: "event \<Rightarrow> 'q \<Rightarrow> 'q option"

subsection \<open>The abstract queue: the events in key order\<close>

fun insort_event :: "event \<Rightarrow> event list \<Rightarrow> event list" where
  "insort_event ev [] = [ev]"
| "insort_event ev (e # es) =
     (if rank ev < rank e then ev # e # es else e # insort_event ev es)"

definition queue_ok :: "event list \<Rightarrow> bool" where
  "queue_ok es = (sorted_by rank es \<and> distinct (map uid es))"

lemma set_insort_event [simp]: "set (insort_event ev es) = insert ev (set es)"
  by (induction es) auto

lemma length_insort_event [simp]: "length (insort_event ev es) = Suc (length es)"
  by (induction es) auto

lemma distinct_uid_insort_event:
  "distinct (map uid (insort_event ev es)) \<longleftrightarrow> distinct (map uid es) \<and> uid ev \<notin> uid ` set es"
  by (induction es) auto

lemma sorted_insort_event:
  "sorted_by rank es \<Longrightarrow> uid ev \<notin> uid ` set es \<Longrightarrow> sorted_by rank (insort_event ev es)"
proof (induction es)
  case Nil
  then show ?case by simp
next
  case (Cons e es)
  then have "rank ev \<noteq> rank e" by (auto dest: rank_eqD)
  with Cons show ?case by (auto dest: less_trans)
qed

lemma queue_ok_insort_event:
  "queue_ok es \<Longrightarrow> uid ev \<notin> uid ` set es \<Longrightarrow> queue_ok (insort_event ev es)"
  by (simp add: queue_ok_def sorted_insort_event distinct_uid_insort_event)

lemma queue_ok_Cons:
  "queue_ok (e # es) \<longleftrightarrow> queue_ok es \<and> uid e \<notin> uid ` set es \<and> (\<forall>x\<in>set es. rank e < rank x)"
  by (auto simp: queue_ok_def)

lemma queue_ok_Nil [simp]: "queue_ok []"
  by (simp add: queue_ok_def)

lemma queue_ok_remove1: "queue_ok es \<Longrightarrow> queue_ok (remove1 e es)"
  by (auto simp: queue_ok_def sorted_by_remove1 distinct_map distinct_remove1
      intro: inj_on_diff)

lemma queue_ok_distinct: "queue_ok es \<Longrightarrow> distinct es"
  by (auto simp: queue_ok_def)

lemma queue_ok_uid_eq:
  "queue_ok es \<Longrightarrow> a \<in> set es \<Longrightarrow> b \<in> set es \<Longrightarrow> uid a = uid b \<Longrightarrow> a = b"
  by (auto simp: queue_ok_def distinct_map inj_on_def)

lemma queue_ok_unique: "queue_ok xs \<Longrightarrow> queue_ok ys \<Longrightarrow> set xs = set ys \<Longrightarrow> xs = ys"
  by (auto simp: queue_ok_def intro: sorted_by_unique)

subsection \<open>The contract of a scheduler\<close>

text \<open>
  What a client may rely on: there is a well-formedness predicate \<open>invar\<close> and an
  abstraction \<open>events\<close> to the sorted list of pending events; an event with a fresh
  identifier can be inserted, and the next event is the least one. The second contract
  adds the removal of a pending event by its identifier.
\<close>

text \<open>Removing the events one by one, as long as the queue is not empty; \<open>n\<close> bounds the loop.\<close>

fun drain :: "'q scheduler \<Rightarrow> nat \<Rightarrow> 'q \<Rightarrow> event list option" where
  "drain sch n q =
     (if IsEmpty sch q then Some []
      else case n of 0 \<Rightarrow> None
           | Suc n' \<Rightarrow> Option.bind (RemoveNext sch q)
               (\<lambda>(e, q'). map_option ((#) e) (drain sch n' q')))"

declare drain.simps [simp del]

text \<open>Inserting a list of events.\<close>

fun insert_all :: "'q scheduler \<Rightarrow> event list \<Rightarrow> 'q \<Rightarrow> 'q option" where
  "insert_all sch [] q = Some q"
| "insert_all sch (e # es) q = Option.bind (Insert sch e q) (insert_all sch es)"

locale event_queue =
  fixes sch :: "'q scheduler"
    and invar :: "'q \<Rightarrow> bool"
    and events :: "'q \<Rightarrow> event list"
  assumes events_ok: "invar q \<Longrightarrow> queue_ok (events q)"
    and is_empty: "invar q \<Longrightarrow> IsEmpty sch q \<longleftrightarrow> events q = []"
    and insert_ok: "invar q \<Longrightarrow> uid ev \<notin> uid ` set (events q) \<Longrightarrow>
       \<exists>q'. Insert sch ev q = Some q' \<and> invar q' \<and> events q' = insort_event ev (events q)"
    and peek_ok: "invar q \<Longrightarrow> events q = e # es \<Longrightarrow> PeekNext sch q = Some e"
    and remove_next_ok: "invar q \<Longrightarrow> events q = e # es \<Longrightarrow>
       \<exists>q'. RemoveNext sch q = Some (e, q') \<and> invar q' \<and> events q' = es"
begin

text \<open>The next event has the least key of all pending events.\<close>

lemma remove_next_least:
  assumes "invar q" and "events q \<noteq> []"
  shows "\<exists>e q'. RemoveNext sch q = Some (e, q') \<and> PeekNext sch q = Some e \<and> invar q' \<and>
           set (events q) = insert e (set (events q')) \<and> e \<notin> set (events q') \<and>
           (\<forall>x\<in>set (events q'). rank e < rank x)"
proof -
  obtain e es where q: "events q = e # es"
    using assms(2) by (cases "events q") auto
  with remove_next_ok [OF assms(1) q] peek_ok [OF assms(1) q] events_ok [OF assms(1)]
  show ?thesis by (auto simp: queue_ok_Cons)
qed

lemma drain_events:
  "invar q \<Longrightarrow> length (events q) \<le> n \<Longrightarrow> drain sch n q = Some (events q)"
proof (induction n arbitrary: q)
  case 0
  then show ?case by (simp add: drain.simps is_empty)
next
  case (Suc n)
  show ?case
  proof (cases "events q")
    case Nil
    with Suc.prems show ?thesis by (simp add: drain.simps is_empty)
  next
    case (Cons e es)
    with remove_next_ok [OF Suc.prems(1) Cons] obtain q' where
      "RemoveNext sch q = Some (e, q')" "invar q'" "events q' = es" by blast
    with Suc Cons show ?thesis by (simp add: drain.simps [of sch "Suc n" q] is_empty)
  qed
qed

lemma insert_all_events:
  assumes "invar q" and "distinct (map uid es)" and "uid ` set es \<inter> uid ` set (events q) = {}"
  shows "\<exists>q'. insert_all sch es q = Some q' \<and> invar q' \<and>
              set (events q') = set es \<union> set (events q) \<and>
              length (events q') = length es + length (events q)"
  using assms
proof (induction es arbitrary: q)
  case Nil
  then show ?case by simp
next
  case (Cons e es)
  then obtain q1 where q1: "Insert sch e q = Some q1" "invar q1"
      "events q1 = insort_event e (events q)"
    using insert_ok [of q e] by auto
  with Cons.prems Cons.IH [of q1] show ?case by auto
qed

end

locale removable_event_queue = event_queue +
  assumes remove_ok: "invar q \<Longrightarrow> ev \<in> set (events q) \<Longrightarrow>
     \<exists>q'. Remove sch ev q = Some q' \<and> invar q' \<and> events q' = remove1 ev (events q)"

end
