(* ===== verification/Schedulers.thy ===== *)
theory Schedulers
  imports Events "HOL-Library.Multiset"
begin

text \<open>
  Three schedulers of \<open>core/model\<close>: the linked list (\<open>list-scheduler.cc\<close>), the ordered map
  that the simulator uses by default (\<open>map-scheduler.cc\<close>) and the standard priority queue
  (\<open>priority-queue-scheduler.cc\<close>). Each is shown to meet \<open>removable_event_queue\<close>.
\<close>

subsection \<open>Sorting a bag of events\<close>

definition sort_events :: "event list \<Rightarrow> event list" where
  "sort_events es = foldr insort_event es []"

lemma set_sort_events [simp]: "set (sort_events es) = set es"
  unfolding sort_events_def by (induction es) auto

lemma length_sort_events [simp]: "length (sort_events es) = length es"
  unfolding sort_events_def by (induction es) auto

lemma mset_insort_event: "mset (insort_event e es) = add_mset e (mset es)"
  by (induction es) auto

lemma mset_sort_events: "mset (sort_events es) = mset es"
  unfolding sort_events_def by (induction es) (simp_all add: mset_insort_event)

lemma queue_ok_sort_events: "distinct (map uid es) \<Longrightarrow> queue_ok (sort_events es)"
proof (induction es)
  case Nil
  then show ?case by (simp add: sort_events_def)
next
  case (Cons e es)
  then have "queue_ok (sort_events es)" and "uid e \<notin> uid ` set (sort_events es)"
    by auto
  then show ?case
    using queue_ok_insort_event [of "sort_events es" e] by (simp add: sort_events_def)
qed

lemma distinct_uid_mset: "mset xs = mset ys \<Longrightarrow> distinct (map uid xs) \<longleftrightarrow> distinct (map uid ys)"
  by (metis mset_eq_imp_distinct_iff mset_map)

lemma sort_events_unique:
  "distinct (map uid xs) \<Longrightarrow> queue_ok ys \<Longrightarrow> set xs = set ys \<Longrightarrow> sort_events xs = ys"
  by (rule queue_ok_unique) (auto intro: queue_ok_sort_events)

context event_queue
begin

text \<open>Inserting any events and removing them one by one sorts them.\<close>

lemma insert_drain:
  assumes "invar q" and "events q = []" and "distinct (map uid es)"
  shows "Option.bind (insert_all sch es q) (drain sch (length es)) = Some (sort_events es)"
proof -
  obtain q' where q': "insert_all sch es q = Some q'" "invar q'" "set (events q') = set es"
      "length (events q') = length es"
    using insert_all_events [OF assms(1,3)] assms(2) by auto
  have "sort_events es = events q'"
    by (rule sort_events_unique [OF assms(3) events_ok [OF q'(2)]]) (simp add: q'(3))
  with q' drain_events [OF q'(2)] show ?thesis by simp
qed

end

subsection \<open>ListScheduler\<close>

type_synonym list_scheduler = "event list"

definition ListScheduler_init :: list_scheduler where
  "ListScheduler_init = []"

fun ListScheduler_Insert :: "event \<Rightarrow> list_scheduler \<Rightarrow> list_scheduler" where
  "ListScheduler_Insert ev [] = [ev]"
| "ListScheduler_Insert ev (i # m_events) =
     (if key_less (key ev) (key i) then ev # i # m_events
      else i # ListScheduler_Insert ev m_events)"

definition ListScheduler_IsEmpty :: "list_scheduler \<Rightarrow> bool" where
  "ListScheduler_IsEmpty m_events = (m_events = [])"

definition ListScheduler_PeekNext :: "list_scheduler \<Rightarrow> event option" where
  "ListScheduler_PeekNext m_events = (case m_events of [] \<Rightarrow> None | e # _ \<Rightarrow> Some e)"

definition ListScheduler_RemoveNext :: "list_scheduler \<Rightarrow> (event \<times> list_scheduler) option" where
  "ListScheduler_RemoveNext m_events =
     (case m_events of [] \<Rightarrow> None | e # es \<Rightarrow> Some (e, es))"

fun ListScheduler_Remove :: "event \<Rightarrow> list_scheduler \<Rightarrow> list_scheduler option" where
  "ListScheduler_Remove ev [] = None"
| "ListScheduler_Remove ev (i # m_events) =
     (if m_uid (key i) = m_uid (key ev)
      then (if impl ev = impl i then Some m_events else None)
      else map_option ((#) i) (ListScheduler_Remove ev m_events))"

definition ListScheduler :: "list_scheduler scheduler" where
  "ListScheduler =
     \<lparr>Insert = (\<lambda>ev q. Some (ListScheduler_Insert ev q)),
      IsEmpty = ListScheduler_IsEmpty,
      PeekNext = ListScheduler_PeekNext,
      RemoveNext = ListScheduler_RemoveNext,
      Remove = ListScheduler_Remove\<rparr>"

lemma ListScheduler_sel [sched_simps]:
  "Insert ListScheduler ev q = Some (ListScheduler_Insert ev q)"
  "IsEmpty ListScheduler = ListScheduler_IsEmpty"
  "PeekNext ListScheduler = ListScheduler_PeekNext"
  "RemoveNext ListScheduler = ListScheduler_RemoveNext"
  "Remove ListScheduler = ListScheduler_Remove"
  by (simp_all add: ListScheduler_def)

lemma ListScheduler_Insert_eq: "ListScheduler_Insert ev es = insort_event ev es"
  by (induction es) (auto simp: key_less_rank)

lemma ListScheduler_Remove_eq:
  "distinct (map uid es) \<Longrightarrow> ev \<in> set es \<Longrightarrow> ListScheduler_Remove ev es = Some (remove1 ev es)"
  by (induction es) (auto simp: uid_def rev_image_eqI)

interpretation listq: removable_event_queue ListScheduler queue_ok "\<lambda>q. q"
proof unfold_locales
  fix q :: list_scheduler and ev
  assume "queue_ok q" and "ev \<in> set q"
  then show "\<exists>q'. Remove ListScheduler ev q = Some q' \<and> queue_ok q' \<and> q' = remove1 ev q"
    using ListScheduler_Remove_eq [of q ev] queue_ok_remove1 [of q ev]
    by (simp add: sched_simps queue_ok_def)
qed (auto simp: sched_simps ListScheduler_Insert_eq queue_ok_insort_event queue_ok_Cons
    ListScheduler_IsEmpty_def ListScheduler_PeekNext_def ListScheduler_RemoveNext_def)

subsection \<open>MapScheduler\<close>

text \<open>\<open>m_list\<close> is a \<open>std::map<EventKey, EventImpl*>\<close> in the order of \<open>operator<\<close>.\<close>

type_synonym map_scheduler = "(event_key \<times> nat option) list"

definition MapScheduler_init :: map_scheduler where
  "MapScheduler_init = []"

definition MapScheduler_Insert :: "event \<Rightarrow> map_scheduler \<Rightarrow> map_scheduler option" where
  "MapScheduler_Insert ev m_list =
     (let (m_list', inserted) = smap_insert key_less (key ev) (impl ev) m_list
      in if inserted then Some m_list' else None)"

definition MapScheduler_IsEmpty :: "map_scheduler \<Rightarrow> bool" where
  "MapScheduler_IsEmpty m_list = (m_list = [])"

definition MapScheduler_PeekNext :: "map_scheduler \<Rightarrow> event option" where
  "MapScheduler_PeekNext m_list =
     (case m_list of [] \<Rightarrow> None | (k, p) # _ \<Rightarrow> Some \<lparr>impl = p, key = k\<rparr>)"

definition MapScheduler_RemoveNext :: "map_scheduler \<Rightarrow> (event \<times> map_scheduler) option" where
  "MapScheduler_RemoveNext m_list =
     (case m_list of [] \<Rightarrow> None | (k, p) # m \<Rightarrow> Some (\<lparr>impl = p, key = k\<rparr>, m))"

definition MapScheduler_Remove :: "event \<Rightarrow> map_scheduler \<Rightarrow> map_scheduler option" where
  "MapScheduler_Remove ev m_list =
     (case smap_find key_less (key ev) m_list of
        None \<Rightarrow> None
      | Some (k, p) \<Rightarrow>
          if p = impl ev then Some (smap_erase key_less (key ev) m_list) else None)"

definition MapScheduler :: "map_scheduler scheduler" where
  "MapScheduler =
     \<lparr>Insert = MapScheduler_Insert,
      IsEmpty = MapScheduler_IsEmpty,
      PeekNext = MapScheduler_PeekNext,
      RemoveNext = MapScheduler_RemoveNext,
      Remove = MapScheduler_Remove\<rparr>"

lemma MapScheduler_sel [sched_simps]:
  "Insert MapScheduler = MapScheduler_Insert"
  "IsEmpty MapScheduler = MapScheduler_IsEmpty"
  "PeekNext MapScheduler = MapScheduler_PeekNext"
  "RemoveNext MapScheduler = MapScheduler_RemoveNext"
  "Remove MapScheduler = MapScheduler_Remove"
  by (simp_all add: MapScheduler_def)

definition map_events :: "map_scheduler \<Rightarrow> event list" where
  "map_events m = map (\<lambda>(k, p). \<lparr>impl = p, key = k\<rparr>) m"

definition map_invar :: "map_scheduler \<Rightarrow> bool" where
  "map_invar m = queue_ok (map_events m)"

lemma map_events_simps [simp]:
  "map_events [] = []"
  "map_events ((k, p) # m) = \<lparr>impl = p, key = k\<rparr> # map_events m"
  by (simp_all add: map_events_def)

lemma key_less_events: "key_less k k' \<longleftrightarrow> rank \<lparr>impl = p, key = k\<rparr> < rank \<lparr>impl = p', key = k'\<rparr>"
  using key_less_rank [of "\<lparr>impl = p, key = k\<rparr>" "\<lparr>impl = p', key = k'\<rparr>"] by simp

lemma smap_insert_events:
  "\<lparr>impl = p, key = k\<rparr> = ev \<Longrightarrow> uid ev \<notin> uid ` set (map_events m) \<Longrightarrow>
   \<exists>m'. smap_insert key_less k p m = (m', True) \<and> map_events m' = insort_event ev (map_events m)"
proof (induction m)
  case Nil
  then show ?case by simp
next
  case (Cons x m)
  obtain k' p' where x: "x = (k', p')" by (cases x)
  let ?e = "\<lparr>impl = p', key = k'\<rparr>"
  have "rank ev \<noteq> rank ?e"
    using Cons.prems by (auto simp: x dest: rank_eqD)
  moreover obtain m' where "smap_insert key_less k p m = (m', True)"
      "map_events m' = insort_event ev (map_events m)"
    using Cons by (auto simp: x)
  ultimately show ?case
    using Cons.prems(1) by (auto simp: x key_less_events [of k k' p p'] key_less_events [of k' k p' p])
qed

lemma smap_find_events:
  "queue_ok (map_events m) \<Longrightarrow> ev \<in> set (map_events m) \<Longrightarrow>
   smap_find key_less (key ev) m = Some (key ev, impl ev) \<and>
   map_events (smap_erase key_less (key ev) m) = remove1 ev (map_events m)"
proof (induction m)
  case Nil
  then show ?case by simp
next
  case (Cons x m)
  obtain k p where x: "x = (k, p)" by (cases x)
  let ?e = "\<lparr>impl = p, key = k\<rparr>"
  show ?case
  proof (cases "ev = ?e")
    case True
    then show ?thesis by (simp add: x key_less_def)
  next
    case False
    then have "rank ?e < rank ev"
      using Cons.prems by (auto simp: x queue_ok_Cons)
    then have "key_less k (key ev)"
      using key_less_rank [of ?e ev] by simp
    then show ?thesis
      using Cons False by (auto simp: x queue_ok_Cons)
  qed
qed

interpretation mapq: removable_event_queue MapScheduler map_invar map_events
proof unfold_locales
  fix q :: map_scheduler and ev
  assume "map_invar q" "uid ev \<notin> uid ` set (map_events q)"
  then show "\<exists>q'. Insert MapScheduler ev q = Some q' \<and> map_invar q' \<and>
                map_events q' = insort_event ev (map_events q)"
    using smap_insert_events [of "impl ev" "key ev" ev q] queue_ok_insort_event [of "map_events q" ev]
    by (auto simp: sched_simps MapScheduler_Insert_def map_invar_def)
next
  fix q :: map_scheduler and ev
  assume "map_invar q" "ev \<in> set (map_events q)"
  then show "\<exists>q'. Remove MapScheduler ev q = Some q' \<and> map_invar q' \<and>
                map_events q' = remove1 ev (map_events q)"
    using smap_find_events [of q ev] queue_ok_remove1 [of "map_events q" ev]
    by (auto simp: sched_simps MapScheduler_Remove_def map_invar_def)
qed (auto simp: sched_simps map_invar_def MapScheduler_IsEmpty_def MapScheduler_PeekNext_def
    MapScheduler_RemoveNext_def map_events_def queue_ok_Cons)

subsection \<open>PriorityQueueScheduler\<close>

text \<open>
  \<open>std::priority_queue\<close> with \<open>std::greater\<close>: the container \<open>c\<close> holds the events in an order
  the library chooses, and \<open>top\<close> is an element that compares greater than no other. Here
  \<open>c\<close> is a list in insertion order and \<open>top\<close> the first such element.
\<close>

type_synonym event_priority_queue = "event list"

definition PriorityQueueScheduler_init :: event_priority_queue where
  "PriorityQueueScheduler_init = []"

definition pq_top :: "event_priority_queue \<Rightarrow> event option" where
  "pq_top c = (case c of [] \<Rightarrow> None
     | e # es \<Rightarrow> Some (fold (\<lambda>x t. if event_greater t x then x else t) es e))"

definition PriorityQueueScheduler_Insert :: "event \<Rightarrow> event_priority_queue \<Rightarrow> event_priority_queue" where
  "PriorityQueueScheduler_Insert ev c = c @ [ev]"

definition PriorityQueueScheduler_IsEmpty :: "event_priority_queue \<Rightarrow> bool" where
  "PriorityQueueScheduler_IsEmpty c = (c = [])"

definition PriorityQueueScheduler_PeekNext :: "event_priority_queue \<Rightarrow> event option" where
  "PriorityQueueScheduler_PeekNext c = pq_top c"

definition PriorityQueueScheduler_RemoveNext ::
  "event_priority_queue \<Rightarrow> (event \<times> event_priority_queue) option" where
  "PriorityQueueScheduler_RemoveNext c =
     (case pq_top c of None \<Rightarrow> None | Some ev \<Rightarrow> Some (ev, remove1 ev c))"

text \<open>\<open>EventPriorityQueue::remove\<close>: the first event equal by identifier is erased.\<close>

fun EventPriorityQueue_remove :: "event \<Rightarrow> event_priority_queue \<Rightarrow> event_priority_queue \<times> bool" where
  "EventPriorityQueue_remove ev [] = ([], False)"
| "EventPriorityQueue_remove ev (x # c) =
     (if event_eq x ev then (c, True)
      else (let (c', found) = EventPriorityQueue_remove ev c in (x # c', found)))"

definition PriorityQueueScheduler_Remove :: "event \<Rightarrow> event_priority_queue \<Rightarrow> event_priority_queue" where
  "PriorityQueueScheduler_Remove ev c = fst (EventPriorityQueue_remove ev c)"

definition PriorityQueueScheduler :: "event_priority_queue scheduler" where
  "PriorityQueueScheduler =
     \<lparr>Insert = (\<lambda>ev c. Some (PriorityQueueScheduler_Insert ev c)),
      IsEmpty = PriorityQueueScheduler_IsEmpty,
      PeekNext = PriorityQueueScheduler_PeekNext,
      RemoveNext = PriorityQueueScheduler_RemoveNext,
      Remove = (\<lambda>ev c. Some (PriorityQueueScheduler_Remove ev c))\<rparr>"

lemma PriorityQueueScheduler_sel [sched_simps]:
  "Insert PriorityQueueScheduler ev c = Some (PriorityQueueScheduler_Insert ev c)"
  "IsEmpty PriorityQueueScheduler = PriorityQueueScheduler_IsEmpty"
  "PeekNext PriorityQueueScheduler = PriorityQueueScheduler_PeekNext"
  "RemoveNext PriorityQueueScheduler = PriorityQueueScheduler_RemoveNext"
  "Remove PriorityQueueScheduler ev c = Some (PriorityQueueScheduler_Remove ev c)"
  by (simp_all add: PriorityQueueScheduler_def)

definition pq_invar :: "event_priority_queue \<Rightarrow> bool" where
  "pq_invar c = distinct (map uid c)"

lemma fold_top_least:
  defines "f \<equiv> \<lambda>x t. if event_greater t x then x else t"
  shows "fold f es e \<in> set (e # es) \<and> (\<forall>x\<in>set (e # es). rank (fold f es e) \<le> rank x)"
proof (induction es arbitrary: e)
  case Nil
  then show ?case by simp
next
  case (Cons y es)
  have IH: "fold f es (f y e) \<in> set (f y e # es) \<and>
      (\<forall>x\<in>set (f y e # es). rank (fold f es (f y e)) \<le> rank x)"
    by (rule Cons.IH)
  have "f y e \<in> {y, e}" "rank (f y e) \<le> rank y" "rank (f y e) \<le> rank e"
    by (auto simp: f_def sched_simps)
  with IH show ?case by (auto intro: order_trans)
qed

lemma pq_top_events:
  assumes "pq_invar c" and "sort_events c = e # es"
  shows "pq_top c = Some e \<and> sort_events (remove1 e c) = es \<and> pq_invar (remove1 e c)"
proof -
  have ok: "queue_ok (e # es)"
    using assms queue_ok_sort_events [of c] by (simp add: pq_invar_def)
  have set_c: "set c = set (e # es)"
    using set_sort_events [of c] assms(2) by simp
  then obtain x xs where c: "c = x # xs" by (cases c) auto
  define t where "t = fold (\<lambda>x t. if event_greater t x then x else t) xs x"
  have t: "t \<in> set c" "\<forall>x\<in>set c. rank t \<le> rank x"
    using fold_top_least [of xs x] by (auto simp: t_def c)
  have "t = e"
    using t ok set_c by (auto simp: queue_ok_Cons dest: leD)
  moreover have d: "distinct (map uid (remove1 e c))"
    using assms(1) by (auto simp: pq_invar_def distinct_map distinct_remove1 intro: inj_on_diff)
  moreover have "set (remove1 e c) = set es"
    using assms(1) set_c ok by (auto simp: pq_invar_def distinct_map queue_ok_Cons)
  ultimately show ?thesis
    using ok by (auto simp: pq_top_def c t_def pq_invar_def queue_ok_Cons intro!: sort_events_unique)
qed

lemma EventPriorityQueue_remove_events:
  "distinct (map uid c) \<Longrightarrow> ev \<in> set c \<Longrightarrow> EventPriorityQueue_remove ev c = (remove1 ev c, True)"
  by (induction c) (auto simp: sched_simps rev_image_eqI)

interpretation pq: removable_event_queue PriorityQueueScheduler pq_invar sort_events
proof unfold_locales
  fix q :: event_priority_queue and ev
  assume a: "pq_invar q" "uid ev \<notin> uid ` set (sort_events q)"
  then have d: "distinct (map uid (q @ [ev]))" by (auto simp: pq_invar_def)
  have "queue_ok (insort_event ev (sort_events q))"
    using a by (auto simp: pq_invar_def intro: queue_ok_insort_event queue_ok_sort_events)
  with d have "sort_events (q @ [ev]) = insort_event ev (sort_events q)"
    by (intro sort_events_unique) auto
  with d show "\<exists>q'. Insert PriorityQueueScheduler ev q = Some q' \<and> pq_invar q' \<and>
      sort_events q' = insort_event ev (sort_events q)"
    by (simp add: sched_simps PriorityQueueScheduler_Insert_def pq_invar_def)
next
  fix q :: event_priority_queue and ev
  assume a: "pq_invar q" "ev \<in> set (sort_events q)"
  then have d: "distinct (map uid (remove1 ev q))"
    by (auto simp: pq_invar_def distinct_map distinct_remove1 intro: inj_on_diff)
  have ok: "queue_ok (sort_events q)"
    using a by (simp add: pq_invar_def queue_ok_sort_events)
  have "sort_events (remove1 ev q) = remove1 ev (sort_events q)"
    using d a(1) ok by (intro sort_events_unique queue_ok_remove1)
      (auto simp: pq_invar_def distinct_map dest: queue_ok_distinct)
  then show "\<exists>q'. Remove PriorityQueueScheduler ev q = Some q' \<and> pq_invar q' \<and>
      sort_events q' = remove1 ev (sort_events q)"
    using a d by (simp add: sched_simps PriorityQueueScheduler_Remove_def pq_invar_def
        EventPriorityQueue_remove_events)
next
  fix q :: event_priority_queue
  show "IsEmpty PriorityQueueScheduler q \<longleftrightarrow> sort_events q = []"
    using length_sort_events [of q]
    by (auto simp: sched_simps PriorityQueueScheduler_IsEmpty_def simp del: length_sort_events)
qed (auto simp: sched_simps pq_invar_def queue_ok_sort_events PriorityQueueScheduler_PeekNext_def
    PriorityQueueScheduler_RemoveNext_def dest: pq_top_events [unfolded pq_invar_def])

end
