(* ===== verification/Simulator.thy ===== *)
theory Simulator
  imports Schedulers
begin

text \<open>
  The event loop of \<open>core/model/default-simulator-impl.cc\<close> with \<open>event-impl.cc\<close> and
  \<open>event-id.cc\<close>. The simulator calls its scheduler through the virtual table of \<open>Events\<close>;
  what an event does (\<open>EventImpl::Notify\<close>) is the argument \<open>notify\<close>. A failed assertion is
  \<open>None\<close>. Times are the 64-bit words of \<open>Time\<close> and of the time stamps; a sum that leaves the
  signed range is taken modulo \<open>2 ^ 64\<close>.
\<close>

subsection \<open>EventImpl and EventId\<close>

text \<open>\<open>what\<close> is the call that \<open>Notify\<close> makes; the objects live in a store, by address.\<close>

record 'e event_impl =
  what :: 'e
  m_cancel :: bool

record event_id =
  id_impl :: "nat option"
  id_ts :: "64 word"
  id_context :: "32 word"
  id_uid :: "32 word"

definition EventId :: event_id where
  "EventId = \<lparr>id_impl = None, id_ts = 0, id_context = 0, id_uid = 0\<rparr>"

definition event_id_eq :: "event_id \<Rightarrow> event_id \<Rightarrow> bool" where
  "event_id_eq a b =
     (id_uid a = id_uid b \<and> id_context a = id_context b \<and> id_ts a = id_ts b \<and> id_impl a = id_impl b)"

text \<open>The special values of \<open>EventId::UID\<close>.\<close>

definition UID_INVALID :: "32 word" where "UID_INVALID = 0"
definition UID_DESTROY :: "32 word" where "UID_DESTROY = 2"
definition UID_VALID :: "32 word" where "UID_VALID = 4"

definition NO_CONTEXT :: "32 word" where "NO_CONTEXT = 0xffffffff"

subsection \<open>The state of the simulator\<close>

record event_with_context =
  ewc_context :: "32 word"
  ewc_timestamp :: "64 word"
  ewc_event :: nat

text \<open>
  \<open>impls\<close> and \<open>next_impl\<close> are the store of \<open>EventImpl\<close> objects, \<open>this_thread\<close> is the
  identity of the calling thread; the other fields are the members of \<open>DefaultSimulatorImpl\<close>
  (\<open>sim_uid\<close> for its \<open>m_uid\<close>).
\<close>

record ('q, 'e) sim =
  impls :: "nat \<Rightarrow> 'e event_impl option"
  next_impl :: nat
  this_thread :: nat
  m_eventsWithContext :: "event_with_context list"
  m_eventsWithContextEmpty :: bool
  m_destroyEvents :: "event_id list"
  m_stop :: bool
  m_events :: 'q
  sim_uid :: "32 word"
  m_currentUid :: "32 word"
  m_currentTs :: "64 word"
  m_currentContext :: "32 word"
  m_eventCount :: "64 word"
  m_unscheduledEvents :: int
  m_mainThreadId :: nat

definition DefaultSimulatorImpl :: "'q \<Rightarrow> nat \<Rightarrow> ('q, 'e) sim" where
  "DefaultSimulatorImpl q thread =
     \<lparr>impls = (\<lambda>_. None), next_impl = 0, this_thread = thread,
      m_eventsWithContext = [], m_eventsWithContextEmpty = True, m_destroyEvents = [],
      m_stop = False, m_events = q, sim_uid = UID_VALID, m_currentUid = UID_INVALID,
      m_currentTs = 0, m_currentContext = NO_CONTEXT, m_eventCount = 0,
      m_unscheduledEvents = 0, m_mainThreadId = thread\<rparr>"

subsection \<open>Event objects\<close>

text \<open>\<open>MakeEvent\<close>: allocate the object that a \<open>Schedule\<close> call with a function creates.\<close>

definition MakeEvent :: "'e \<Rightarrow> ('q, 'e, 'z) sim_scheme \<Rightarrow> nat \<times> ('q, 'e, 'z) sim_scheme" where
  "MakeEvent w s =
     (next_impl s,
      s\<lparr>impls := (impls s)(next_impl s \<mapsto> \<lparr>what = w, m_cancel = False\<rparr>), next_impl := next_impl s + 1\<rparr>)"

definition EventImpl_IsCancelled :: "nat \<Rightarrow> ('q, 'e, 'z) sim_scheme \<Rightarrow> bool" where
  "EventImpl_IsCancelled p s = (case impls s p of None \<Rightarrow> False | Some ei \<Rightarrow> m_cancel ei)"

definition EventImpl_Cancel :: "nat \<Rightarrow> ('q, 'e, 'z) sim_scheme \<Rightarrow> ('q, 'e, 'z) sim_scheme" where
  "EventImpl_Cancel p s =
     s\<lparr>impls := (impls s)(p := map_option (\<lambda>ei. ei\<lparr>m_cancel := True\<rparr>) (impls s p))\<rparr>"

text \<open>\<open>Invoke\<close>; a null or dangling pointer is \<open>None\<close>.\<close>

definition EventImpl_Invoke ::
  "('e \<Rightarrow> ('q, 'e, 'z) sim_scheme \<Rightarrow> ('q, 'e, 'z) sim_scheme option) \<Rightarrow> nat option \<Rightarrow>
   ('q, 'e, 'z) sim_scheme \<Rightarrow> ('q, 'e, 'z) sim_scheme option" where
  "EventImpl_Invoke notify ptr s =
     (case ptr of None \<Rightarrow> None
      | Some p \<Rightarrow> (case impls s p of None \<Rightarrow> None
          | Some ei \<Rightarrow> if \<not> m_cancel ei then notify (what ei) s else Some s))"

subsection \<open>Scheduling\<close>

definition Schedule ::
  "'q scheduler \<Rightarrow> 64 word \<Rightarrow> nat \<Rightarrow> ('q, 'e, 'z) sim_scheme \<Rightarrow>
   (event_id \<times> ('q, 'e, 'z) sim_scheme) option" where
  "Schedule sch delay event s =
     (if m_mainThreadId s \<noteq> this_thread s then None
      else let safeDelay = (if sint delay < 0 then 0 else delay);
               tAbsolute = safeDelay + m_currentTs s;
               ev = \<lparr>impl = Some event,
                     key = \<lparr>m_ts = tAbsolute, m_uid = sim_uid s, m_context = m_currentContext s\<rparr>\<rparr>
           in map_option (\<lambda>q.
                (\<lparr>id_impl = Some event, id_ts = m_ts (key ev),
                  id_context = m_context (key ev), id_uid = m_uid (key ev)\<rparr>,
                 s\<lparr>sim_uid := sim_uid s + 1, m_unscheduledEvents := m_unscheduledEvents s + 1,
                   m_events := q\<rparr>))
              (Insert sch ev (m_events s)))"

definition ScheduleWithContext ::
  "'q scheduler \<Rightarrow> 32 word \<Rightarrow> 64 word \<Rightarrow> nat \<Rightarrow> ('q, 'e, 'z) sim_scheme \<Rightarrow>
   ('q, 'e, 'z) sim_scheme option" where
  "ScheduleWithContext sch context delay event s =
     (if m_mainThreadId s = this_thread s
      then let tAbsolute = delay + m_currentTs s;
               ev = \<lparr>impl = Some event,
                     key = \<lparr>m_ts = tAbsolute, m_uid = sim_uid s, m_context = context\<rparr>\<rparr>
           in map_option (\<lambda>q.
                s\<lparr>sim_uid := sim_uid s + 1, m_unscheduledEvents := m_unscheduledEvents s + 1,
                  m_events := q\<rparr>)
              (Insert sch ev (m_events s))
      else Some (s\<lparr>m_eventsWithContext := m_eventsWithContext s @
                      [\<lparr>ewc_context = context, ewc_timestamp = delay, ewc_event = event\<rparr>],
                   m_eventsWithContextEmpty := False\<rparr>))"

definition ScheduleNow ::
  "'q scheduler \<Rightarrow> nat \<Rightarrow> ('q, 'e, 'z) sim_scheme \<Rightarrow>
   (event_id \<times> ('q, 'e, 'z) sim_scheme) option" where
  "ScheduleNow sch event s =
     (if m_mainThreadId s \<noteq> this_thread s then None else Schedule sch 0 event s)"

definition ScheduleDestroy ::
  "nat \<Rightarrow> ('q, 'e, 'z) sim_scheme \<Rightarrow> (event_id \<times> ('q, 'e, 'z) sim_scheme) option" where
  "ScheduleDestroy event s =
     (if m_mainThreadId s \<noteq> this_thread s then None
      else let i = \<lparr>id_impl = Some event, id_ts = m_currentTs s, id_context = 0xffffffff, id_uid = 2\<rparr>
           in Some (i, s\<lparr>m_destroyEvents := m_destroyEvents s @ [i], sim_uid := sim_uid s + 1\<rparr>))"

definition Stop :: "('q, 'e, 'z) sim_scheme \<Rightarrow> ('q, 'e, 'z) sim_scheme" where
  "Stop s = s\<lparr>m_stop := True\<rparr>"

text \<open>\<open>Simulator::Schedule(delay, f, ...)\<close> and \<open>ScheduleNow(f, ...)\<close>: make the event, schedule it.\<close>

definition ScheduleCall ::
  "'q scheduler \<Rightarrow> 64 word \<Rightarrow> 'e \<Rightarrow> ('q, 'e, 'z) sim_scheme \<Rightarrow>
   (event_id \<times> ('q, 'e, 'z) sim_scheme) option" where
  "ScheduleCall sch delay w s = (let (p, s') = MakeEvent w s in Schedule sch delay p s')"

definition ScheduleNowCall ::
  "'q scheduler \<Rightarrow> 'e \<Rightarrow> ('q, 'e, 'z) sim_scheme \<Rightarrow>
   (event_id \<times> ('q, 'e, 'z) sim_scheme) option" where
  "ScheduleNowCall sch w s = (let (p, s') = MakeEvent w s in ScheduleNow sch p s')"

text \<open>\<open>Stop(delay)\<close> schedules a call of \<open>Stop()\<close>; \<open>stop\<close> names that call.\<close>

definition Stop_at ::
  "'q scheduler \<Rightarrow> 'e \<Rightarrow> 64 word \<Rightarrow> ('q, 'e, 'z) sim_scheme \<Rightarrow>
   (event_id \<times> ('q, 'e, 'z) sim_scheme) option" where
  "Stop_at sch stop delay s = ScheduleCall sch delay stop s"

subsection \<open>Event identifiers\<close>

definition IsExpired :: "event_id \<Rightarrow> ('q, 'e, 'z) sim_scheme \<Rightarrow> bool" where
  "IsExpired i s =
     (if id_uid i = UID_DESTROY
      then (case id_impl i of None \<Rightarrow> True
            | Some p \<Rightarrow> if EventImpl_IsCancelled p s then True
                        else \<not> list_ex (\<lambda>d. event_id_eq d i) (m_destroyEvents s))
      else (case id_impl i of None \<Rightarrow> True
            | Some p \<Rightarrow> id_ts i < m_currentTs s \<or>
                (id_ts i = m_currentTs s \<and> id_uid i \<le> m_currentUid s) \<or>
                EventImpl_IsCancelled p s))"

definition IsRunning :: "event_id \<Rightarrow> ('q, 'e, 'z) sim_scheme \<Rightarrow> bool" where
  "IsRunning i s = (\<not> IsExpired i s)"

definition Now :: "('q, 'e, 'z) sim_scheme \<Rightarrow> 64 word" where
  "Now s = m_currentTs s"

definition GetDelayLeft :: "event_id \<Rightarrow> ('q, 'e, 'z) sim_scheme \<Rightarrow> 64 word" where
  "GetDelayLeft i s = (if IsExpired i s then 0 else id_ts i - m_currentTs s)"

definition Cancel :: "event_id \<Rightarrow> ('q, 'e, 'z) sim_scheme \<Rightarrow> ('q, 'e, 'z) sim_scheme" where
  "Cancel i s =
     (if \<not> IsExpired i s
      then (case id_impl i of None \<Rightarrow> s | Some p \<Rightarrow> EventImpl_Cancel p s)
      else s)"

fun erase_id :: "event_id \<Rightarrow> event_id list \<Rightarrow> event_id list" where
  "erase_id i [] = []"
| "erase_id i (d # ds) = (if event_id_eq d i then ds else d # erase_id i ds)"

definition event_of :: "event_id \<Rightarrow> event" where
  "event_of i =
     \<lparr>impl = id_impl i, key = \<lparr>m_ts = id_ts i, m_uid = id_uid i, m_context = id_context i\<rparr>\<rparr>"

definition RemoveId ::
  "'q scheduler \<Rightarrow> event_id \<Rightarrow> ('q, 'e, 'z) sim_scheme \<Rightarrow> ('q, 'e, 'z) sim_scheme option" where
  "RemoveId sch i s =
     (if id_uid i = UID_DESTROY
      then Some (s\<lparr>m_destroyEvents := erase_id i (m_destroyEvents s)\<rparr>)
      else if IsExpired i s then Some s
      else map_option (\<lambda>q.
             let s1 = (case id_impl i of None \<Rightarrow> s\<lparr>m_events := q\<rparr>
                       | Some p \<Rightarrow> EventImpl_Cancel p (s\<lparr>m_events := q\<rparr>))
             in s1\<lparr>m_unscheduledEvents := m_unscheduledEvents s1 - 1\<rparr>)
           (Remove sch (event_of i) (m_events s)))"

subsection \<open>The event loop\<close>

fun insert_with_context ::
  "'q scheduler \<Rightarrow> event_with_context list \<Rightarrow> ('q, 'e, 'z) sim_scheme \<Rightarrow>
   ('q, 'e, 'z) sim_scheme option" where
  "insert_with_context sch [] s = Some s"
| "insert_with_context sch (e # es) s =
     (let ev = \<lparr>impl = Some (ewc_event e),
                key = \<lparr>m_ts = m_currentTs s + ewc_timestamp e, m_uid = sim_uid s,
                       m_context = ewc_context e\<rparr>\<rparr>
      in Option.bind (Insert sch ev (m_events s)) (\<lambda>q.
           insert_with_context sch es
             (s\<lparr>sim_uid := sim_uid s + 1, m_unscheduledEvents := m_unscheduledEvents s + 1,
                m_events := q\<rparr>)))"

definition ProcessEventsWithContext ::
  "'q scheduler \<Rightarrow> ('q, 'e, 'z) sim_scheme \<Rightarrow> ('q, 'e, 'z) sim_scheme option" where
  "ProcessEventsWithContext sch s =
     (if m_eventsWithContextEmpty s then Some s
      else insert_with_context sch (m_eventsWithContext s)
             (s\<lparr>m_eventsWithContext := [], m_eventsWithContextEmpty := True\<rparr>))"

text \<open>The assignments of \<open>ProcessOneEvent\<close> before the event is invoked.\<close>

definition start_event :: "event \<Rightarrow> 'q \<Rightarrow> ('q, 'e, 'z) sim_scheme \<Rightarrow> ('q, 'e, 'z) sim_scheme" where
  "start_event nxt q s =
     s\<lparr>m_events := q,
       m_unscheduledEvents := m_unscheduledEvents s - 1,
       m_eventCount := m_eventCount s + 1,
       m_currentTs := m_ts (key nxt),
       m_currentContext := m_context (key nxt),
       m_currentUid := m_uid (key nxt)\<rparr>"

definition ProcessOneEvent ::
  "'q scheduler \<Rightarrow> ('e \<Rightarrow> ('q, 'e, 'z) sim_scheme \<Rightarrow> ('q, 'e, 'z) sim_scheme option) \<Rightarrow>
   ('q, 'e, 'z) sim_scheme \<Rightarrow> ('q, 'e, 'z) sim_scheme option" where
  "ProcessOneEvent sch notify s =
     Option.bind (RemoveNext sch (m_events s)) (\<lambda>(nxt, q).
       if m_ts (key nxt) < m_currentTs s then None
       else Option.bind (EventImpl_Invoke notify (impl nxt) (start_event nxt q s))
              (ProcessEventsWithContext sch))"

definition IsFinished :: "'q scheduler \<Rightarrow> ('q, 'e, 'z) sim_scheme \<Rightarrow> bool" where
  "IsFinished sch s = (IsEmpty sch (m_events s) \<or> m_stop s)"

text \<open>
  The loop of \<open>Run\<close> need not end, so it has a bound on the events it processes: running out
  of it is \<open>OutOfFuel\<close>, a failed assertion is \<open>Aborted\<close>.
\<close>

datatype 's run_result = Finished 's | Aborted | OutOfFuel

fun Run_loop ::
  "'q scheduler \<Rightarrow> ('e \<Rightarrow> ('q, 'e, 'z) sim_scheme \<Rightarrow> ('q, 'e, 'z) sim_scheme option) \<Rightarrow>
   nat \<Rightarrow> ('q, 'e, 'z) sim_scheme \<Rightarrow> ('q, 'e, 'z) sim_scheme run_result" where
  "Run_loop sch notify fuel s =
     (if \<not> IsEmpty sch (m_events s) \<and> \<not> m_stop s
      then (case fuel of 0 \<Rightarrow> OutOfFuel
            | Suc n \<Rightarrow> (case ProcessOneEvent sch notify s of
                None \<Rightarrow> Aborted | Some s' \<Rightarrow> Run_loop sch notify n s'))
      else if \<not> IsEmpty sch (m_events s) \<or> m_unscheduledEvents s = 0 then Finished s
      else Aborted)"

declare Run_loop.simps [simp del]

definition Run ::
  "'q scheduler \<Rightarrow> ('e \<Rightarrow> ('q, 'e, 'z) sim_scheme \<Rightarrow> ('q, 'e, 'z) sim_scheme option) \<Rightarrow>
   nat \<Rightarrow> ('q, 'e, 'z) sim_scheme \<Rightarrow> ('q, 'e, 'z) sim_scheme run_result" where
  "Run sch notify fuel s =
     (case ProcessEventsWithContext sch (s\<lparr>m_mainThreadId := this_thread s\<rparr>) of
        None \<Rightarrow> Aborted
      | Some s1 \<Rightarrow> Run_loop sch notify fuel (s1\<lparr>m_stop := False\<rparr>))"

fun Destroy ::
  "('e \<Rightarrow> ('q, 'e, 'z) sim_scheme \<Rightarrow> ('q, 'e, 'z) sim_scheme option) \<Rightarrow>
   nat \<Rightarrow> ('q, 'e, 'z) sim_scheme \<Rightarrow> ('q, 'e, 'z) sim_scheme run_result" where
  "Destroy notify fuel s =
     (case m_destroyEvents s of [] \<Rightarrow> Finished s
      | d # ds \<Rightarrow>
         (case fuel of 0 \<Rightarrow> OutOfFuel
          | Suc n \<Rightarrow>
             (let s1 = s\<lparr>m_destroyEvents := ds\<rparr> in
              case id_impl d of None \<Rightarrow> Aborted
              | Some p \<Rightarrow>
                  if \<not> EventImpl_IsCancelled p s1
                  then (case EventImpl_Invoke notify (Some p) s1 of
                          None \<Rightarrow> Aborted | Some s2 \<Rightarrow> Destroy notify n s2)
                  else Destroy notify n s1)))"

declare Destroy.simps [simp del]

text \<open>\<open>SetScheduler\<close> moves the pending events, in order, into the new scheduler.\<close>

definition SetScheduler ::
  "'q scheduler \<Rightarrow> 'r scheduler \<Rightarrow> 'r \<Rightarrow> nat \<Rightarrow> ('q, 'e) sim \<Rightarrow> ('r, 'e) sim option" where
  "SetScheduler old new new_events fuel s =
     Option.bind (drain old fuel (m_events s)) (\<lambda>es.
     map_option (\<lambda>q.
       \<lparr>impls = impls s, next_impl = next_impl s, this_thread = this_thread s,
        m_eventsWithContext = m_eventsWithContext s,
        m_eventsWithContextEmpty = m_eventsWithContextEmpty s,
        m_destroyEvents = m_destroyEvents s, m_stop = m_stop s, m_events = q,
        sim_uid = sim_uid s, m_currentUid = m_currentUid s, m_currentTs = m_currentTs s,
        m_currentContext = m_currentContext s, m_eventCount = m_eventCount s,
        m_unscheduledEvents = m_unscheduledEvents s, m_mainThreadId = m_mainThreadId s\<rparr>)
     (insert_all new es new_events))"

end
