(* ===== verification/Heap_Scheduler.thy ===== *)
theory Heap_Scheduler
  imports Schedulers "HOL-Library.Multiset"
begin

text \<open>
  The binary heap of \<open>core/model/heap-scheduler.cc\<close>: a vector whose element 0 is unused, so
  that the children of \<open>i\<close> are \<open>2 * i\<close> and \<open>2 * i + 1\<close>. The heap meets the contract
  \<open>event_queue\<close>; its \<open>Remove\<close> keeps the right events but not always the heap order.
\<close>

subsection \<open>The operations\<close>

type_synonym heap_scheduler = "event list"

definition HeapScheduler_init :: heap_scheduler where
  "HeapScheduler_init = [\<lparr>impl = None, key = \<lparr>m_ts = 0, m_uid = 0, m_context = 0\<rparr>\<rparr>]"

definition Parent :: "nat \<Rightarrow> nat" where
  "Parent i = i div 2"

definition LeftChild :: "nat \<Rightarrow> nat" where
  "LeftChild i = i * 2"

definition RightChild :: "nat \<Rightarrow> nat" where
  "RightChild i = i * 2 + 1"

definition Root :: nat where
  "Root = 1"

definition IsRoot :: "nat \<Rightarrow> bool" where
  "IsRoot i = (i = Root)"

definition Last :: "heap_scheduler \<Rightarrow> nat" where
  "Last m_heap = length m_heap - 1"

definition IsBottom :: "nat \<Rightarrow> heap_scheduler \<Rightarrow> bool" where
  "IsBottom i m_heap = (length m_heap \<le> i)"

definition Exch :: "nat \<Rightarrow> nat \<Rightarrow> heap_scheduler \<Rightarrow> heap_scheduler option" where
  "Exch a b m_heap =
     (if b < length m_heap \<and> a < length m_heap
      then Some (m_heap[a := m_heap ! b, b := m_heap ! a]) else None)"

definition IsLessStrictly :: "nat \<Rightarrow> nat \<Rightarrow> heap_scheduler \<Rightarrow> bool" where
  "IsLessStrictly a b m_heap = event_less (m_heap ! a) (m_heap ! b)"

definition Smallest :: "nat \<Rightarrow> nat \<Rightarrow> heap_scheduler \<Rightarrow> nat" where
  "Smallest a b m_heap = (if IsLessStrictly a b m_heap then a else b)"

definition HeapScheduler_IsEmpty :: "heap_scheduler \<Rightarrow> bool" where
  "HeapScheduler_IsEmpty m_heap = (length m_heap = 1)"

text \<open>The loops are written as recursions on the index; a loop that does not end is \<open>None\<close>.\<close>

partial_function (option) BottomUp_from :: "nat \<Rightarrow> heap_scheduler \<Rightarrow> heap_scheduler option" where
  "BottomUp_from index m_heap =
     (if \<not> IsRoot index \<and> IsLessStrictly index (Parent index) m_heap
      then Option.bind (Exch index (Parent index) m_heap) (BottomUp_from (Parent index))
      else Some m_heap)"

definition BottomUp :: "heap_scheduler \<Rightarrow> heap_scheduler option" where
  "BottomUp m_heap = BottomUp_from (Last m_heap) m_heap"

definition TopDown_end :: "nat \<Rightarrow> heap_scheduler \<Rightarrow> heap_scheduler option" where
  "TopDown_end index m_heap =
     (if IsBottom index m_heap then Some m_heap
      else if IsBottom (LeftChild index) m_heap then Some m_heap
      else if IsLessStrictly index (LeftChild index) m_heap then Some m_heap
      else Exch index (LeftChild index) m_heap)"

partial_function (option) TopDown :: "nat \<Rightarrow> heap_scheduler \<Rightarrow> heap_scheduler option" where
  "TopDown index m_heap =
     (if \<not> IsBottom (RightChild index) m_heap
      then (let tmp = Smallest (LeftChild index) (RightChild index) m_heap in
            if IsLessStrictly index tmp m_heap then Some m_heap
            else Option.bind (Exch index tmp m_heap) (TopDown tmp))
      else TopDown_end index m_heap)"

declare BottomUp_from.simps [code]
declare TopDown.simps [code]

definition HeapScheduler_Insert :: "event \<Rightarrow> heap_scheduler \<Rightarrow> heap_scheduler option" where
  "HeapScheduler_Insert ev m_heap = BottomUp (m_heap @ [ev])"

definition HeapScheduler_PeekNext :: "heap_scheduler \<Rightarrow> event option" where
  "HeapScheduler_PeekNext m_heap =
     (if Root < length m_heap then Some (m_heap ! Root) else None)"

definition HeapScheduler_RemoveNext :: "heap_scheduler \<Rightarrow> (event \<times> heap_scheduler) option" where
  "HeapScheduler_RemoveNext m_heap =
     (if Root < length m_heap
      then Option.bind (Exch Root (Last m_heap) m_heap) (\<lambda>h.
           map_option (\<lambda>h'. (m_heap ! Root, h')) (TopDown Root (butlast h)))
      else None)"

fun Remove_from :: "nat \<Rightarrow> nat \<Rightarrow> event \<Rightarrow> heap_scheduler \<Rightarrow> heap_scheduler option" where
  "Remove_from 0 i ev m_heap = None"
| "Remove_from (Suc n) i ev m_heap =
     (if m_uid (key ev) = m_uid (key (m_heap ! i))
      then (if impl (m_heap ! i) = impl ev
            then Option.bind (Exch i (Last m_heap) m_heap) (\<lambda>h. TopDown i (butlast h))
            else None)
      else Remove_from n (Suc i) ev m_heap)"

definition HeapScheduler_Remove :: "event \<Rightarrow> heap_scheduler \<Rightarrow> heap_scheduler option" where
  "HeapScheduler_Remove ev m_heap = Remove_from (length m_heap - 1) 1 ev m_heap"

definition HeapScheduler :: "heap_scheduler scheduler" where
  "HeapScheduler =
     \<lparr>Insert = HeapScheduler_Insert,
      IsEmpty = HeapScheduler_IsEmpty,
      PeekNext = HeapScheduler_PeekNext,
      RemoveNext = HeapScheduler_RemoveNext,
      Remove = HeapScheduler_Remove\<rparr>"

lemma HeapScheduler_sel [sched_simps]:
  "Insert HeapScheduler = HeapScheduler_Insert"
  "IsEmpty HeapScheduler = HeapScheduler_IsEmpty"
  "PeekNext HeapScheduler = HeapScheduler_PeekNext"
  "RemoveNext HeapScheduler = HeapScheduler_RemoveNext"
  "Remove HeapScheduler = HeapScheduler_Remove"
  by (simp_all add: HeapScheduler_def)

lemmas heap_index_defs =
  Parent_def LeftChild_def RightChild_def Root_def IsRoot_def Last_def IsBottom_def

subsection \<open>Heap order\<close>

definition rk :: "heap_scheduler \<Rightarrow> nat \<Rightarrow> 64 word \<times> 32 word" where
  "rk h i = rank (h ! i)"

definition heap_ok :: "heap_scheduler \<Rightarrow> bool" where
  "heap_ok h \<longleftrightarrow> h \<noteq> [] \<and> (\<forall>i. 2 \<le> i \<and> i < length h \<longrightarrow> rk h (i div 2) \<le> rk h i)"

text \<open>The heap order with a hole: above node \<open>k\<close> (while it rises) and below it (while it sinks).\<close>

definition above_ok :: "nat \<Rightarrow> heap_scheduler \<Rightarrow> bool" where
  "above_ok k h \<longleftrightarrow> 0 < k \<and> k < length h \<and>
     (\<forall>i. 2 \<le> i \<and> i < length h \<and> i \<noteq> k \<longrightarrow> rk h (i div 2) \<le> rk h i) \<and>
     (\<forall>i. 2 \<le> i \<and> i < length h \<and> i div 2 = k \<and> 2 \<le> k \<longrightarrow> rk h (k div 2) \<le> rk h i)"

definition below_ok :: "nat \<Rightarrow> heap_scheduler \<Rightarrow> bool" where
  "below_ok k h \<longleftrightarrow> 0 < k \<and> h \<noteq> [] \<and>
     (\<forall>i. 2 \<le> i \<and> i < length h \<and> i div 2 \<noteq> k \<longrightarrow> rk h (i div 2) \<le> rk h i) \<and>
     (\<forall>i. 2 \<le> i \<and> i < length h \<and> i div 2 = k \<and> 2 \<le> k \<longrightarrow> rk h (k div 2) \<le> rk h i)"

lemma less_rk [sched_simps]: "IsLessStrictly a b h \<longleftrightarrow> rk h a < rk h b"
  by (simp add: IsLessStrictly_def event_less_rank rk_def)

lemma Exch_Some: "a < length h \<Longrightarrow> b < length h \<Longrightarrow> \<exists>h'. Exch a b h = Some h'"
  by (simp add: Exch_def)

lemma Exch_props:
  assumes "Exch a b h = Some h'"
  shows "length h' = length h" "mset h' = mset h"
    "rk h' i = (if i = a then rk h b else if i = b then rk h a else rk h i)"
    "0 < a \<Longrightarrow> 0 < b \<Longrightarrow> h' ! 0 = h ! 0"
  using assms
  by (auto simp: Exch_def rk_def nth_list_update mset_swap split: if_splits)

lemma above_ok_step:
  assumes "above_ok k h" and "k \<noteq> 1" and "rk h k < rk h (k div 2)"
    and h': "Exch k (k div 2) h = Some h'"
  shows "above_ok (k div 2) h'"
proof -
  note r = Exch_props(3) [OF h'] and len = Exch_props(1) [OF h']
  have k: "2 \<le> k" "k < length h" "k div 2 \<noteq> k" "0 < k div 2" "k div 2 < length h"
    using assms(1,2) by (auto simp: above_ok_def)
  have up: "rk h (i div 2) \<le> rk h i" if "2 \<le> i" "i < length h" "i \<noteq> k" for i
    using assms(1) that by (auto simp: above_ok_def)
  have over: "rk h (k div 2) \<le> rk h i" if "2 \<le> i" "i < length h" "i div 2 = k" for i
    using assms(1) that k by (auto simp: above_ok_def)
  have "rk h' (i div 2) \<le> rk h' i" if i: "2 \<le> i" "i < length h" "i \<noteq> k div 2" for i
  proof (cases "i = k")
    case True
    then show ?thesis using assms(3) k(3) by (simp add: r)
  next
    case False
    consider "i div 2 = k" | "i div 2 = k div 2" | "i div 2 \<noteq> k" "i div 2 \<noteq> k div 2" by blast
    then show ?thesis
      using up [OF i(1,2) False] over [OF i(1,2)] False i(3) k(3) assms(3)
      by cases (auto simp: r)
  qed
  moreover have "rk h' (k div 2 div 2) \<le> rk h' i"
    if i: "2 \<le> i" "i < length h" "i div 2 = k div 2" "2 \<le> k div 2" for i
  proof -
    have p: "k div 2 div 2 \<noteq> k" "k div 2 div 2 \<noteq> k div 2" using i(4) by auto
    have top: "rk h (k div 2 div 2) \<le> rk h (k div 2)"
      using up [of "k div 2"] i(4) k by auto
    show ?thesis
    proof (cases "i = k")
      case True
      then show ?thesis using top p k(3) by (auto simp: r)
    next
      case False
      have "i \<noteq> k div 2" using i(1,3) by auto
      then show ?thesis using top p False up [OF i(1,2) False] i(3) by (auto simp: r)
    qed
  qed
  ultimately show ?thesis
    using k by (simp add: above_ok_def len)
qed

lemma BottomUp_from_ok:
  "above_ok k h \<Longrightarrow> \<exists>h'. BottomUp_from k h = Some h' \<and> heap_ok h' \<and> mset h' = mset h \<and> h' ! 0 = h ! 0"
proof (induction k arbitrary: h rule: less_induct)
  case (less k)
  show ?case
  proof (cases "k \<noteq> 1 \<and> rk h k < rk h (k div 2)")
    case True
    have k: "0 < k" "k < length h" using less.prems by (auto simp: above_ok_def)
    with True have k2: "0 < k div 2" "k div 2 < k" "k div 2 < length h" by auto
    then obtain h1 where h1: "Exch k (k div 2) h = Some h1"
      using Exch_Some [of k h "k div 2"] k by blast
    have "above_ok (k div 2) h1"
      using above_ok_step [OF less.prems] True h1 by blast
    moreover have "BottomUp_from k h = BottomUp_from (k div 2) h1"
      using True h1 by (subst BottomUp_from.simps) (simp add: sched_simps IsRoot_def Root_def Parent_def)
    ultimately show ?thesis
      using less.IH [OF k2(2), of h1] Exch_props(2,4) [OF h1] k k2 by simp
  next
    case False
    have "rk h (i div 2) \<le> rk h i" if "2 \<le> i" "i < length h" for i
      using less.prems False that by (cases "i = k") (auto simp: above_ok_def)
    then show ?thesis
      using False less.prems
      by (auto simp: BottomUp_from.simps [of k h] sched_simps heap_index_defs heap_ok_def above_ok_def)
  qed
qed

lemma below_ok_step:
  assumes "below_ok k h" and c: "c = 2 * k \<or> c = 2 * k + 1" and "c < length h"
    and "rk h c \<le> rk h k"
    and least: "2 * k < length h \<Longrightarrow> rk h c \<le> rk h (2 * k)"
      "2 * k + 1 < length h \<Longrightarrow> rk h c \<le> rk h (2 * k + 1)"
    and h': "Exch k c h = Some h'"
  shows "below_ok c h'"
proof -
  note r = Exch_props(3) [OF h'] and len = Exch_props(1) [OF h']
  have k: "0 < k" "c div 2 = k" "c \<noteq> k" "2 \<le> c" "k div 2 \<noteq> k" "k div 2 \<noteq> c"
    using assms(1) c by (auto simp: below_ok_def)
  have up: "rk h (i div 2) \<le> rk h i" if "2 \<le> i" "i < length h" "i div 2 \<noteq> k" for i
    using assms(1) that by (auto simp: below_ok_def)
  have over: "rk h (k div 2) \<le> rk h i" if "2 \<le> i" "i < length h" "i div 2 = k" "2 \<le> k" for i
    using assms(1) that by (auto simp: below_ok_def)
  have "rk h' (i div 2) \<le> rk h' i" if i: "2 \<le> i" "i < length h" "i div 2 \<noteq> c" for i
  proof -
    consider "i = c" | "i \<noteq> c" "i div 2 = k" | "i = k" | "i \<noteq> c" "i div 2 \<noteq> k" "i \<noteq> k" by blast
    then show ?thesis
    proof cases
      case 1
      then show ?thesis using k assms(4) by (auto simp: r)
    next
      case 2
      have "i \<noteq> k" using 2(2) i(1) by auto
      moreover have "i = 2 * k \<or> i = 2 * k + 1" using 2(2) by auto
      ultimately show ?thesis using 2 least i k(3) by (auto simp: r)
    next
      case 3
      then show ?thesis using over [of c] k i assms(3) by (auto simp: r)
    next
      case 4
      then show ?thesis using up [OF i(1,2)] i(3) by (auto simp: r)
    qed
  qed
  moreover have "rk h' (c div 2) \<le> rk h' i" if i: "2 \<le> i" "i < length h" "i div 2 = c" for i
  proof -
    have "i \<noteq> c" "i \<noteq> k" "i div 2 \<noteq> k" using i k by auto
    then show ?thesis using up [OF i(1,2)] i(3) k(2,3) by (auto simp: r)
  qed
  moreover have "h' \<noteq> []"
    using len assms(3) by auto
  ultimately show ?thesis
    using k by (simp add: below_ok_def len)
qed

lemma below_ok_done:
  assumes "below_ok k h" and "2 * k < length h \<Longrightarrow> rk h k \<le> rk h (2 * k)"
    and "2 * k + 1 < length h \<Longrightarrow> rk h k \<le> rk h (2 * k + 1)"
  shows "heap_ok h"
proof -
  have "rk h (i div 2) \<le> rk h i" if i: "2 \<le> i" "i < length h" for i
  proof (cases "i div 2 = k")
    case True
    then have "i = 2 * k \<or> i = 2 * k + 1" by auto
    with True assms(2,3) i show ?thesis by auto
  next
    case False
    with assms(1) i show ?thesis by (simp add: below_ok_def)
  qed
  then show ?thesis using assms(1) by (simp add: heap_ok_def below_ok_def)
qed

lemma TopDown_end_ok:
  assumes "0 < k" and "length h \<le> 2 * k + 1"
  shows "\<exists>h'. TopDown_end k h = Some h' \<and> mset h' = mset h \<and> h' ! 0 = h ! 0 \<and> (below_ok k h \<longrightarrow> heap_ok h')"
proof (cases "2 * k < length h \<and> \<not> rk h k < rk h (2 * k)")
  case True
  then obtain h1 where h1: "Exch k (2 * k) h = Some h1"
    using Exch_Some [of k h "2 * k"] by auto
  have "heap_ok h1" if b: "below_ok k h"
  proof -
    have "below_ok (2 * k) h1"
      using True assms b by (intro below_ok_step [OF b _ _ _ _ _ h1]) auto
    then show ?thesis
      by (rule below_ok_done) (use assms Exch_props(1) [OF h1] in auto)
  qed
  then show ?thesis
    using True h1 Exch_props(2,4) [OF h1] assms
    by (auto simp: TopDown_end_def sched_simps heap_index_defs mult.commute)
next
  case False
  have "heap_ok h" if b: "below_ok k h"
    using b by (rule below_ok_done) (use assms False in auto)
  then show ?thesis
    using False by (auto simp: TopDown_end_def sched_simps heap_index_defs mult.commute)
qed

lemma TopDown_ok:
  "0 < k \<Longrightarrow> \<exists>h'. TopDown k h = Some h' \<and> mset h' = mset h \<and> h' ! 0 = h ! 0 \<and> (below_ok k h \<longrightarrow> heap_ok h')"
proof (induction "length h - k" arbitrary: k h rule: less_induct)
  case less
  note simps = TopDown.simps [of k h] sched_simps heap_index_defs mult.commute [of k 2]
  define c where "c = Smallest (2 * k) (2 * k + 1) h"
  show ?case
  proof (cases "2 * k + 1 < length h")
    case False
    with less.prems TopDown_end_ok [of k h] show ?thesis by (simp add: simps)
  next
    case True
    have c: "c = 2 * k \<or> c = 2 * k + 1" "c < length h" "0 < c" "k < c"
      "rk h c \<le> rk h (2 * k)" "rk h c \<le> rk h (2 * k + 1)"
      using True less.prems by (auto simp: c_def Smallest_def sched_simps)
    show ?thesis
    proof (cases "rk h k < rk h c")
      case less: True
      have "heap_ok h" if "below_ok k h"
        using that by (rule below_ok_done) (use less c in auto)
      with True less show ?thesis by (auto simp: simps c_def Let_def)
    next
      case ge: False
      obtain h1 where h1: "Exch k c h = Some h1"
        using Exch_Some [of k h c] c by auto
      have IH: "\<exists>h'. TopDown c h1 = Some h' \<and> mset h' = mset h1 \<and> h' ! 0 = h1 ! 0 \<and>
          (below_ok c h1 \<longrightarrow> heap_ok h')"
        using c Exch_props(1) [OF h1] by (intro less.hyps) auto
      have "below_ok k h \<Longrightarrow> below_ok c h1"
        using c ge less.prems by (intro below_ok_step [OF _ _ _ _ _ _ h1]) auto
      with IH True ge h1 Exch_props(2,4) [OF h1] less.prems c(3) show ?thesis
        by (auto simp: simps c_def Let_def)
    qed
  qed
qed

lemma heap_root_least:
  assumes "heap_ok h" and "1 \<le> i" and "i < length h"
  shows "rk h 1 \<le> rk h i"
  using assms(2,3)
proof (induction i rule: less_induct)
  case (less i)
  show ?case
  proof (cases "i = 1")
    case False
    with less.prems have i: "1 \<le> i div 2" "i div 2 < i" "2 \<le> i" by auto
    with less.prems less.IH [OF i(2,1)] assms(1) show ?thesis
      by (fastforce simp: heap_ok_def intro: order_trans)
  qed simp
qed

subsection \<open>The heap is a queue\<close>

definition heap_invar :: "heap_scheduler \<Rightarrow> bool" where
  "heap_invar h \<longleftrightarrow> heap_ok h \<and> distinct (map uid (tl h))"

definition heap_events :: "heap_scheduler \<Rightarrow> event list" where
  "heap_events h = sort_events (tl h)"

lemma mset_tl_eq: "mset h' = mset h \<Longrightarrow> h \<noteq> [] \<Longrightarrow> h' ! 0 = h ! 0 \<Longrightarrow> mset (tl h') = mset (tl h)"
  by (cases h; cases h') auto

lemma mset_tl_add:
  "add_mset x (mset h1) = mset h \<Longrightarrow> h1 \<noteq> [] \<Longrightarrow> h \<noteq> [] \<Longrightarrow> h1 ! 0 = h ! 0 \<Longrightarrow>
   add_mset x (mset (tl h1)) = mset (tl h)"
  by (cases h; cases h1) (auto simp: add_mset_commute)

lemma HeapScheduler_Insert_ok:
  assumes "heap_ok h"
  shows "\<exists>h'. HeapScheduler_Insert ev h = Some h' \<and> heap_ok h' \<and> mset (tl h') = add_mset ev (mset (tl h))"
proof -
  have h: "h \<noteq> []" using assms by (simp add: heap_ok_def)
  have "above_ok (length h) (h @ [ev])"
    using assms h by (auto simp: above_ok_def heap_ok_def rk_def nth_append)
  then obtain h' where h': "BottomUp_from (length h) (h @ [ev]) = Some h'" "heap_ok h'"
      "mset h' = mset (h @ [ev])" "h' ! 0 = (h @ [ev]) ! 0"
    using BottomUp_from_ok by blast
  with h have "mset (tl h') = mset (tl (h @ [ev]))"
    by (intro mset_tl_eq) auto
  with h h' show ?thesis
    by (simp add: HeapScheduler_Insert_def BottomUp_def Last_def)
qed

text \<open>Moving the last event to place \<open>i\<close>, popping the end and sinking it.\<close>

lemma exch_pop_props:
  assumes "h1 = butlast (h[i := h ! Last h, Last h := h ! i])" and "1 \<le> i" and "i < length h"
  shows "length h1 = length h - 1" "mset (tl h1) = mset (tl h) - {#h ! i#}" "h ! i \<in> set (tl h)"
    "h1 \<noteq> []" "\<And>j. j < length h1 \<Longrightarrow> rk h1 j = (if j = i then rk h (Last h) else rk h j)"
proof -
  let ?h = "h[i := h ! Last h, Last h := h ! i]"
  show len: "length h1 = length h - 1" and ne: "h1 \<noteq> []"
    using assms by (auto simp: simp flip: length_greater_0_conv)
  show "rk h1 j = (if j = i then rk h (Last h) else rk h j)" if "j < length h1" for j
    using that assms by (auto simp: nth_butlast Last_def rk_def nth_list_update)
  have "mset ?h = mset h"
    using assms by (intro mset_swap) (auto simp: Last_def)
  moreover have "?h = h1 @ [h ! i]"
  proof -
    have ne': "?h \<noteq> []" using assms by auto
    then have "last ?h = ?h ! (length h - 1)"
      by (subst last_conv_nth) simp_all
    also have "\<dots> = h ! i"
      using assms by (simp add: Last_def)
    finally have "last ?h = h ! i" .
    with ne' append_butlast_last_id [of ?h] assms(1) show ?thesis by simp
  qed
  ultimately have m: "add_mset (h ! i) (mset h1) = mset h" by simp
  have "h1 ! 0 = h ! 0"
    using assms ne by (auto simp: nth_butlast nth_list_update Last_def)
  with m ne have "add_mset (h ! i) (mset (tl h1)) = mset (tl h)"
    using assms(3) by (intro mset_tl_add) auto
  then have e: "mset (tl h) = add_mset (h ! i) (mset (tl h1))" ..
  then show "mset (tl h1) = mset (tl h) - {#h ! i#}" by simp
  show "h ! i \<in> set (tl h)" using mset_eq_setD [of "tl h" "h ! i # tl h1"] e by simp
qed

lemma HeapScheduler_RemoveNext_ok:
  assumes "heap_ok h" and "1 < length h"
  shows "\<exists>h'. HeapScheduler_RemoveNext h = Some (h ! 1, h') \<and> heap_ok h' \<and>
              mset (tl h') = mset (tl h) - {#h ! 1#} \<and> h ! 1 \<in> set (tl h)"
proof -
  define h1 where "h1 = butlast (h[1 := h ! Last h, Last h := h ! 1])"
  note p = exch_pop_props [OF h1_def]
  have ex: "Exch 1 (Last h) h = Some (h[1 := h ! Last h, Last h := h ! 1])"
    using assms(2) by (simp add: Exch_def Last_def)
  have "below_ok 1 h1"
    unfolding below_ok_def
  proof (intro conjI allI impI)
    fix i assume i: "2 \<le> i \<and> i < length h1 \<and> i div 2 \<noteq> 1"
    then have "i \<noteq> 1" "i div 2 < length h1" "i < length h"
      using p(1) assms(2) by auto
    then show "rk h1 (i div 2) \<le> rk h1 i"
      using i assms p(5) by (auto simp: heap_ok_def)
  qed (use p(4) assms(2) in auto)
  moreover obtain h' where h': "TopDown 1 h1 = Some h'" "mset h' = mset h1" "h' ! 0 = h1 ! 0"
      "below_ok 1 h1 \<longrightarrow> heap_ok h'"
    using TopDown_ok [of 1 h1] by auto
  moreover have "mset (tl h') = mset (tl h) - {#h ! 1#}"
    using mset_tl_eq [OF h'(2) _ h'(3)] p(2,4) assms(2) by simp
  ultimately show ?thesis
    using ex assms(2) p(3) by (simp add: HeapScheduler_RemoveNext_def Root_def h1_def)
qed

lemma set_tl_nth: "set (tl h) = {h ! i | i. 1 \<le> i \<and> i < length h}"
proof (cases h)
  case (Cons x xs)
  have "{h ! i | i. 1 \<le> i \<and> i < length h} = {xs ! i | i. i < length xs}"
    unfolding Cons by (force simp: nth_Cons' intro: exI [of _ "Suc _"])
  then show ?thesis by (simp add: Cons set_conv_nth)
qed simp

lemma heap_events_Cons:
  assumes "heap_invar h" and "heap_events h = e # es"
  shows "1 < length h \<and> h ! 1 = e"
proof -
  have ok: "queue_ok (e # es)" and s: "set (tl h) = insert e (set es)"
    using assms queue_ok_sort_events [of "tl h"] set_sort_events [of "tl h"]
    by (auto simp: heap_invar_def heap_events_def)
  have len: "1 < length h" using s by (cases h; cases "tl h") auto
  have "rk h 1 \<le> rank x" if "x \<in> set (tl h)" for x
    using that heap_root_least [of h] assms(1) by (auto simp: set_tl_nth heap_invar_def rk_def)
  moreover have "h ! 1 \<in> set (tl h)"
    using len by (auto simp: set_tl_nth)
  ultimately have "h ! 1 = e"
    using ok s by (fastforce simp: queue_ok_Cons rk_def dest: leD)
  with len show ?thesis ..
qed

interpretation heapq: event_queue HeapScheduler heap_invar heap_events
proof unfold_locales
  fix q :: heap_scheduler and ev
  assume a: "heap_invar q" "uid ev \<notin> uid ` set (heap_events q)"
  then obtain q' where q': "HeapScheduler_Insert ev q = Some q'" "heap_ok q'"
      "mset (tl q') = mset (ev # tl q)"
    using HeapScheduler_Insert_ok [of q ev] by (auto simp: heap_invar_def)
  have d: "distinct (map uid (tl q'))"
    using a distinct_uid_mset [OF q'(3)] by (auto simp: heap_invar_def heap_events_def)
  have "queue_ok (insort_event ev (heap_events q))"
    using a by (auto simp: heap_invar_def heap_events_def intro: queue_ok_insort_event queue_ok_sort_events)
  moreover have "set (tl q') = insert ev (set (tl q))"
    using mset_eq_setD [OF q'(3)] by simp
  ultimately have "heap_events q' = insort_event ev (heap_events q)"
    unfolding heap_events_def by (intro sort_events_unique [OF d]) simp_all
  with q' d show "\<exists>q'. Insert HeapScheduler ev q = Some q' \<and> heap_invar q' \<and>
      heap_events q' = insort_event ev (heap_events q)"
    by (auto simp: sched_simps heap_invar_def)
next
  fix q :: heap_scheduler and e es
  assume a: "heap_invar q" "heap_events q = e # es"
  note e = heap_events_Cons [OF a]
  then show "PeekNext HeapScheduler q = Some e"
    by (simp add: sched_simps HeapScheduler_PeekNext_def Root_def)
  obtain q' where q': "HeapScheduler_RemoveNext q = Some (e, q')" "heap_ok q'"
      "mset (tl q') = mset (remove1 e (tl q))"
    using HeapScheduler_RemoveNext_ok [of q] a e by (auto simp: heap_invar_def)
  have d: "distinct (map uid (tl q'))" and s: "set (tl q') = set (tl q) - {e}"
    using a distinct_uid_mset [OF q'(3)] mset_eq_setD [OF q'(3)]
    by (auto simp: heap_invar_def distinct_map distinct_remove1 intro: inj_on_diff)
  have "queue_ok (e # es)" "set (tl q) = set (e # es)"
    using a queue_ok_sort_events [of "tl q"] set_sort_events [of "tl q"]
    by (auto simp: heap_invar_def heap_events_def)
  then have "heap_events q' = es"
    unfolding heap_events_def using s by (intro sort_events_unique [OF d]) (auto simp: queue_ok_Cons)
  with q' d show "\<exists>q'. RemoveNext HeapScheduler q = Some (e, q') \<and> heap_invar q' \<and> heap_events q' = es"
    by (auto simp: sched_simps heap_invar_def)
next
  fix q :: heap_scheduler
  assume "heap_invar q"
  then show "IsEmpty HeapScheduler q \<longleftrightarrow> heap_events q = []"
    using length_sort_events [of "tl q"]
    by (cases q) (auto simp: sched_simps HeapScheduler_IsEmpty_def heap_events_def heap_invar_def heap_ok_def
        simp del: length_sort_events)
qed (auto simp: heap_invar_def heap_events_def queue_ok_sort_events)

subsection \<open>Removal from the middle\<close>

text \<open>\<open>Remove\<close> always takes out the right event; the order survives when the event that is moved
  into the hole is not below its new parent.\<close>

lemma Remove_from_at:
  "i + n = length h \<Longrightarrow> i \<le> j \<Longrightarrow> j < length h \<Longrightarrow> \<forall>l. i \<le> l \<and> l < j \<longrightarrow> uid (h ! l) \<noteq> uid (h ! j) \<Longrightarrow>
   Remove_from n i (h ! j) h = Option.bind (Exch j (Last h) h) (\<lambda>h. TopDown j (butlast h))"
proof (induction n arbitrary: i)
  case 0
  then show ?case by simp
next
  case (Suc n)
  then show ?case by (cases "i = j") (auto simp: uid_def)
qed

lemma HeapScheduler_Remove_at:
  assumes "distinct (map uid (tl h))" and "1 \<le> j" and "j < length h"
  shows "\<exists>h'. HeapScheduler_Remove (h ! j) h = Some h' \<and> mset (tl h') = mset (tl h) - {#h ! j#} \<and>
           (heap_ok h \<and> (2 \<le> j \<longrightarrow> rk h (j div 2) \<le> rk h (Last h)) \<longrightarrow> heap_ok h')"
proof -
  define h1 where "h1 = butlast (h[j := h ! Last h, Last h := h ! j])"
  note p = exch_pop_props [OF h1_def assms(2,3)]
  have neq: "uid (h ! l) \<noteq> uid (h ! j)" if "1 \<le> l" "l < j" for l
    using assms that nth_eq_iff_index_eq [OF assms(1), of "l - 1" "j - 1"]
    by (auto simp: nth_tl)
  have rem: "HeapScheduler_Remove (h ! j) h = TopDown j h1"
    using Remove_from_at [of 1 "length h - 1" h j] assms neq
    by (simp add: HeapScheduler_Remove_def Exch_def Last_def h1_def)
  obtain h' where h': "TopDown j h1 = Some h'" "mset h' = mset h1" "h' ! 0 = h1 ! 0"
      "below_ok j h1 \<longrightarrow> heap_ok h'"
    using TopDown_ok [of j h1] assms(2) by auto
  have "below_ok j h1" if ok: "heap_ok h" "2 \<le> j \<longrightarrow> rk h (j div 2) \<le> rk h (Last h)"
  proof -
    have up: "rk h (i div 2) \<le> rk h i" if "2 \<le> i" "i < length h" for i
      using ok(1) that by (simp add: heap_ok_def)
    have r: "rk h1 i = (if i = j then rk h (Last h) else rk h i)" if "i < length h1" for i
      using p(5) that by blast
    show ?thesis
      unfolding below_ok_def
    proof (intro conjI allI impI)
      fix i assume i: "2 \<le> i \<and> i < length h1 \<and> i div 2 \<noteq> j"
      then show "rk h1 (i div 2) \<le> rk h1 i"
        using up [of i] ok(2) r [of i] r [of "i div 2"] p(1) by (cases "i = j") auto
    next
      fix i assume i: "2 \<le> i \<and> i < length h1 \<and> i div 2 = j \<and> 2 \<le> j"
      then have "i \<noteq> j" "j div 2 \<noteq> j" "j div 2 < length h1" "j < length h" "i < length h"
        using p(1) by auto
      then have "rk h (j div 2) \<le> rk h j" and "rk h j \<le> rk h i"
        using up [of j] up [of i] i by auto
      then have "rk h (j div 2) \<le> rk h i"
        by (rule order_trans)
      with \<open>i \<noteq> j\<close> \<open>j div 2 \<noteq> j\<close> \<open>j div 2 < length h1\<close> show "rk h1 (j div 2) \<le> rk h1 i"
        using i r [of i] r [of "j div 2"] by simp
    qed (use p(4) assms(2) in auto)
  qed
  with h' p rem mset_tl_eq [OF h'(2) p(4) h'(3)] show ?thesis by auto
qed

end
