(* ===== verification/Simulator_Inv.thy ===== *)
theory Simulator_Inv
  imports Simulator Heap_Scheduler
begin

text \<open>
  The invariant of the event loop and its consequences, proved once for every scheduler that
  meets \<open>removable_event_queue\<close> and every event handler that uses the simulator only through
  its public operations: virtual time never goes back, events run in the order of their keys,
  the internal assertions hold, and \<open>IsExpired\<close> tells exactly whether an event is pending.
\<close>

subsection \<open>The steps of a client\<close>

text \<open>
  \<open>room\<close> of a call: the 32-bit identifier does not wrap and the time sum does not leave 64 bits.
\<close>

definition uid_room :: "('q, 'e, 'z) sim_scheme \<Rightarrow> bool" where
  "uid_room s \<longleftrightarrow> unat (sim_uid s) + 1 < 2 ^ 32"

definition time_room :: "64 word \<Rightarrow> ('q, 'e, 'z) sim_scheme \<Rightarrow> bool" where
  "time_room d s \<longleftrightarrow> unat d + unat (m_currentTs s) < 2 ^ 64"

text \<open>
  The calls an event handler (or the main program between runs, on the main thread) can make;
  \<open>issued\<close> says that an identifier came from the simulator: its event is pending or it expired.
\<close>

definition issued :: "('q \<Rightarrow> event list) \<Rightarrow> event_id \<Rightarrow> ('q, 'e, 'z) sim_scheme \<Rightarrow> bool" where
  "issued evs i s \<longleftrightarrow> IsExpired i s \<or> event_of i \<in> set (evs (m_events s))"

inductive client_call ::
  "'q scheduler \<Rightarrow> ('q \<Rightarrow> event list) \<Rightarrow> ('q, 'e, 'z) sim_scheme \<Rightarrow> ('q, 'e, 'z) sim_scheme \<Rightarrow> bool"
  for sch :: "'q scheduler" and evs :: "'q \<Rightarrow> event list" where
  call_new: "MakeEvent w s = (p, s') \<Longrightarrow> client_call sch evs s s'"
| call_schedule: "Schedule sch d p s = Some (i, s') \<Longrightarrow> impls s p \<noteq> None \<Longrightarrow> uid_room s \<Longrightarrow>
    (0 \<le> sint d \<Longrightarrow> time_room d s) \<Longrightarrow> client_call sch evs s s'"
| call_with_context: "ScheduleWithContext sch c d p s = Some s' \<Longrightarrow> this_thread s = m_mainThreadId s \<Longrightarrow>
    impls s p \<noteq> None \<Longrightarrow> uid_room s \<Longrightarrow> time_room d s \<Longrightarrow> client_call sch evs s s'"
| call_destroy: "ScheduleDestroy p s = Some (i, s') \<Longrightarrow> uid_room s \<Longrightarrow> client_call sch evs s s'"
| call_remove: "RemoveId sch i s = Some s' \<Longrightarrow> issued evs i s \<Longrightarrow> client_call sch evs s s'"
| call_cancel: "client_call sch evs s (Cancel i s)"
| call_stop: "client_call sch evs s (Stop s)"
| call_user: "client_call sch evs s (sim.more_update f s)"

subsection \<open>The invariant\<close>

definition now_key :: "('q, 'e, 'z) sim_scheme \<Rightarrow> 64 word \<times> 32 word" where
  "now_key s = (m_currentTs s, m_currentUid s)"

definition pending_ok :: "('q, 'e, 'z) sim_scheme \<Rightarrow> event \<Rightarrow> bool" where
  "pending_ok s e \<longleftrightarrow> now_key s < rank e \<and> uid e < sim_uid s \<and> 4 \<le> uid e \<and>
     (\<exists>p. impl e = Some p \<and> impls s p \<noteq> None)"

definition sim_ok :: "('q \<Rightarrow> bool) \<Rightarrow> ('q \<Rightarrow> event list) \<Rightarrow> ('q, 'e, 'z) sim_scheme \<Rightarrow> bool" where
  "sim_ok ivr evs s \<longleftrightarrow> ivr (m_events s) \<and> (\<forall>e\<in>set (evs (m_events s)). pending_ok s e) \<and>
     m_currentUid s < sim_uid s \<and> 4 \<le> sim_uid s \<and>
     m_unscheduledEvents s = int (length (evs (m_events s))) \<and>
     m_eventsWithContext s = [] \<and> m_eventsWithContextEmpty s \<and>
     (\<forall>p. next_impl s \<le> p \<longrightarrow> impls s p = None)"

lemma sim_okD:
  assumes "sim_ok ivr evs s"
  shows "ivr (m_events s)" "\<And>e. e \<in> set (evs (m_events s)) \<Longrightarrow> pending_ok s e"
    "m_currentUid s < sim_uid s" "4 \<le> sim_uid s"
    "m_unscheduledEvents s = int (length (evs (m_events s)))"
    "m_eventsWithContext s = []" "m_eventsWithContextEmpty s"
    "\<And>p. next_impl s \<le> p \<Longrightarrow> impls s p = None"
  using assms by (simp_all add: sim_ok_def)

lemma sim_okI:
  "ivr (m_events s) \<Longrightarrow> (\<And>e. e \<in> set (evs (m_events s)) \<Longrightarrow> pending_ok s e) \<Longrightarrow>
   m_currentUid s < sim_uid s \<Longrightarrow> 4 \<le> sim_uid s \<Longrightarrow>
   m_unscheduledEvents s = int (length (evs (m_events s))) \<Longrightarrow>
   m_eventsWithContext s = [] \<Longrightarrow> m_eventsWithContextEmpty s \<Longrightarrow>
   (\<And>p. next_impl s \<le> p \<Longrightarrow> impls s p = None) \<Longrightarrow> sim_ok ivr evs s"
  by (simp add: sim_ok_def)

lemma less_Suc_uid: "uid_room s \<Longrightarrow> sim_uid s < sim_uid s + 1"
  by (simp add: uid_room_def word_less_nat_alt unat_word_ariths)

lemma time_room_le: "time_room d s \<Longrightarrow> m_currentTs s \<le> d + m_currentTs s"
  by (simp add: time_room_def word_le_nat_alt unat_word_ariths)

lemma pending_ok_mono:
  "pending_ok s e \<Longrightarrow> now_key s' = now_key s \<Longrightarrow> sim_uid s \<le> sim_uid s' \<Longrightarrow>
   (\<And>p. impls s p \<noteq> None \<Longrightarrow> impls s' p \<noteq> None) \<Longrightarrow> pending_ok s' e"
  by (auto simp: pending_ok_def)

text \<open>Which fields the operations leave alone.\<close>

lemma Cancel_frame [simp]:
  "m_events (Cancel i s) = m_events s" "sim_uid (Cancel i s) = sim_uid s"
  "m_currentTs (Cancel i s) = m_currentTs s" "m_currentUid (Cancel i s) = m_currentUid s"
  "m_unscheduledEvents (Cancel i s) = m_unscheduledEvents s"
  "m_eventsWithContext (Cancel i s) = m_eventsWithContext s"
  "m_eventsWithContextEmpty (Cancel i s) = m_eventsWithContextEmpty s"
  "next_impl (Cancel i s) = next_impl s"
  "impls (Cancel i s) p = None \<longleftrightarrow> impls s p = None"
  by (auto simp: Cancel_def EventImpl_Cancel_def split: option.splits)

lemma EventImpl_Cancel_frame [simp]:
  "m_events (EventImpl_Cancel p s) = m_events s" "sim_uid (EventImpl_Cancel p s) = sim_uid s"
  "m_currentTs (EventImpl_Cancel p s) = m_currentTs s"
  "m_currentUid (EventImpl_Cancel p s) = m_currentUid s"
  "m_unscheduledEvents (EventImpl_Cancel p s) = m_unscheduledEvents s"
  "m_eventsWithContext (EventImpl_Cancel p s) = m_eventsWithContext s"
  "m_eventsWithContextEmpty (EventImpl_Cancel p s) = m_eventsWithContextEmpty s"
  "m_destroyEvents (EventImpl_Cancel p s) = m_destroyEvents s"
  "next_impl (EventImpl_Cancel p s) = next_impl s"
  "impls (EventImpl_Cancel p s) q = None \<longleftrightarrow> impls s q = None"
  by (auto simp: EventImpl_Cancel_def)

lemma event_of_sel [simp]:
  "impl (event_of i) = id_impl i" "uid (event_of i) = id_uid i"
  "rank (event_of i) = (id_ts i, id_uid i)"
  by (simp_all add: event_of_def uid_def rank_def)

subsection \<open>Preservation, for every scheduler\<close>

context removable_event_queue
begin

lemma sim_ok_insert:
  assumes ok: "sim_ok invar events s" and room: "uid_room s"
    and ev: "uid ev = sim_uid s" "m_currentTs s \<le> m_ts (key ev)" "impl ev = Some p" "impls s p \<noteq> None"
  shows "\<exists>q. Insert sch ev (m_events s) = Some q \<and> events q = insort_event ev (events (m_events s)) \<and>
    sim_ok invar events (s\<lparr>sim_uid := sim_uid s + 1, m_unscheduledEvents := m_unscheduledEvents s + 1, m_events := q\<rparr>)"
proof -
  have fresh: "uid ev \<notin> uid ` set (events (m_events s))"
    using ok ev(1) by (auto simp: sim_ok_def pending_ok_def)
  then obtain q where q: "Insert sch ev (m_events s) = Some q" "invar q"
      "events q = insort_event ev (events (m_events s))"
    using insert_ok [OF _ fresh] ok by (auto simp: sim_ok_def)
  let ?s' = "s\<lparr>sim_uid := sim_uid s + 1, m_unscheduledEvents := m_unscheduledEvents s + 1, m_events := q\<rparr>"
  note up = less_Suc_uid [OF room]
  have su: "sim_uid ?s' = sim_uid s + 1" "m_currentUid ?s' = m_currentUid s" by simp_all
  note okD = sim_okD [OF ok]
  have "m_currentTs s < m_ts (key ev) \<or> m_currentTs s = m_ts (key ev)"
    using ev(2) by (simp add: order.order_iff_strict)
  moreover have r: "rank ev = (m_ts (key ev), sim_uid s)"
    using ev(1) by (simp add: rank_def uid_def)
  ultimately have later: "(m_currentTs s, m_currentUid s) < rank ev"
    using okD(3) by (elim disjE) simp_all
  have new: "pending_ok ?s' ev"
    unfolding pending_ok_def now_key_def
  proof (intro conjI exI [of _ p])
    show "uid ev < sim_uid ?s'" using up ev(1) by (simp only: su)
    show "4 \<le> uid ev" using okD(4) ev(1) by (simp only:)

    show "(m_currentTs ?s', m_currentUid ?s') < rank ev" using later by simp
    show "impl ev = Some p" using ev(3) .
    show "impls ?s' p \<noteq> None" using ev(4) by simp
  qed

  have old: "pending_ok ?s' e" if "e \<in> set (events (m_events s))" for e
  proof (rule pending_ok_mono [OF okD(2) [OF that]])
    show "sim_uid s \<le> sim_uid ?s'" using less_imp_le [OF up] by (simp only: su)
  qed (simp_all add: now_key_def)
  have "sim_ok invar events ?s'"
  proof (rule sim_okI)
    show "m_currentUid ?s' < sim_uid ?s'" "4 \<le> sim_uid ?s'"
      using less_trans [OF okD(3) up] order_trans [OF okD(4) less_imp_le [OF up]] by (simp_all only: su)
    show "pending_ok ?s' e" if "e \<in> set (events (m_events ?s'))" for e
      using that q(3) new old by auto
  qed (use q okD in simp_all)
  with q show ?thesis by blast
qed

lemma sim_ok_fresh:
  assumes "invar q" and "events q = []"
  shows "sim_ok invar events (sim.extend (DefaultSimulatorImpl q t) z)"
  using assms by (intro sim_okI) (simp_all add: sim.defs DefaultSimulatorImpl_def UID_INVALID_def UID_VALID_def)

lemma sim_ok_frame:
  assumes "sim_ok invar events s"
    and "m_events s' = m_events s" "now_key s' = now_key s" "sim_uid s \<le> sim_uid s'"
    "m_unscheduledEvents s' = m_unscheduledEvents s" "m_eventsWithContext s' = m_eventsWithContext s"
    "m_eventsWithContextEmpty s' = m_eventsWithContextEmpty s"
    "\<And>p. impls s p \<noteq> None \<Longrightarrow> impls s' p \<noteq> None"
    "\<And>p. next_impl s' \<le> p \<Longrightarrow> impls s' p = None"
  shows "sim_ok invar events s'"
proof -
  note okD = sim_okD [OF assms(1)]
  have cu: "m_currentUid s' = m_currentUid s"
    using assms(3) by (simp add: now_key_def)
  show ?thesis
  proof (rule sim_okI)
    show "pending_ok s' e" if "e \<in> set (events (m_events s'))" for e
      using that assms(2) by (intro pending_ok_mono [OF okD(2) assms(3,4) assms(8)]) simp_all
    show "m_currentUid s' < sim_uid s'" "4 \<le> sim_uid s'"
      using less_le_trans [OF okD(3) assms(4)] order_trans [OF okD(4) assms(4)] cu by simp_all
  qed (use okD assms(2,5,6,7,9) in simp_all)
qed

lemma Schedule_ok:
  assumes ok: "sim_ok invar events s" and room: "uid_room s" "0 \<le> sint d \<Longrightarrow> time_room d s"
    and "m_mainThreadId s = this_thread s" and "impls s p \<noteq> None"
  shows "\<exists>i s'. Schedule sch d p s = Some (i, s') \<and> sim_ok invar events s' \<and> now_key s' = now_key s \<and>
     events (m_events s') = insort_event (event_of i) (events (m_events s)) \<and>
     i = \<lparr>id_impl = Some p, id_ts = (if sint d < 0 then 0 else d) + m_currentTs s,
          id_context = m_currentContext s, id_uid = sim_uid s\<rparr> \<and>
     impls s' = impls s \<and> sim_uid s' = sim_uid s + 1 \<and> sim.more s' = sim.more s"
proof -
  define t where "t = (if sint d < 0 then 0 else d) + m_currentTs s"
  define ev where "ev = \<lparr>impl = Some p, key = \<lparr>m_ts = t, m_uid = sim_uid s, m_context = m_currentContext s\<rparr>\<rparr>"
  have "m_currentTs s \<le> t"
    using room(2) time_room_le by (auto simp: t_def)
  then obtain q where "Insert sch ev (m_events s) = Some q"
      "events q = insort_event ev (events (m_events s))"
      "sim_ok invar events (s\<lparr>sim_uid := sim_uid s + 1, m_unscheduledEvents := m_unscheduledEvents s + 1, m_events := q\<rparr>)"
    using sim_ok_insert [OF ok room(1), of ev p] assms(5) by (auto simp: ev_def uid_def)
  then show ?thesis
    using assms(4) by (auto simp: Schedule_def Let_def ev_def t_def event_of_def now_key_def)
qed

lemma ScheduleCall_pending:
  assumes ok: "sim_ok invar events s" and room: "uid_room s \<and> (0 \<le> sint d \<longrightarrow> time_room d s)"
    and call: "ScheduleCall sch d w s = Some (i, s')"
  shows "event_of i \<in> set (events (m_events s'))"
proof -
  obtain p s1 where p: "MakeEvent w s = (p, s1)" "Schedule sch d p s1 = Some (i, s')"
    using call by (auto simp: ScheduleCall_def split: prod.splits)
  have s1: "impls s1 p \<noteq> None" "sim_uid s1 = sim_uid s" "m_currentTs s1 = m_currentTs s"
    using p(1) by (auto simp: MakeEvent_def)
  have ok1: "sim_ok invar events s1"
    using p(1) by (intro sim_ok_frame [OF ok]) (auto simp: MakeEvent_def now_key_def sim_okD(8) [OF ok])
  have "m_mainThreadId s1 = this_thread s1"
    using p(2) by (auto simp: Schedule_def split: if_splits)
  from Schedule_ok [OF ok1 _ _ this s1(1), of d] p(2) room s1 show ?thesis
    by (auto simp: uid_room_def time_room_def)
qed

lemma ScheduleWithContext_ok:
  assumes ok: "sim_ok invar events s" and room: "uid_room s" "time_room d s"
    and "m_mainThreadId s = this_thread s" and "impls s p \<noteq> None"
  shows "\<exists>s' ev. ScheduleWithContext sch c d p s = Some s' \<and> sim_ok invar events s' \<and> now_key s' = now_key s \<and>
     events (m_events s') = insort_event ev (events (m_events s)) \<and>
     ev = \<lparr>impl = Some p, key = \<lparr>m_ts = d + m_currentTs s, m_uid = sim_uid s, m_context = c\<rparr>\<rparr> \<and>
     impls s' = impls s"
proof -
  define ev where "ev = \<lparr>impl = Some p, key = \<lparr>m_ts = d + m_currentTs s, m_uid = sim_uid s, m_context = c\<rparr>\<rparr>"
  obtain q where "Insert sch ev (m_events s) = Some q"
      "events q = insort_event ev (events (m_events s))"
      "sim_ok invar events (s\<lparr>sim_uid := sim_uid s + 1, m_unscheduledEvents := m_unscheduledEvents s + 1, m_events := q\<rparr>)"
    using sim_ok_insert [OF ok room(1), of ev p] time_room_le [OF room(2)] assms(5)
    by (auto simp: ev_def uid_def)
  then show ?thesis
    using assms(4) by (auto simp: ScheduleWithContext_def Let_def ev_def now_key_def)
qed

lemma RemoveId_ok:
  assumes ok: "sim_ok invar events s" and "issued events i s"
  shows "\<exists>s'. RemoveId sch i s = Some s' \<and> sim_ok invar events s' \<and> now_key s' = now_key s \<and>
     (id_uid i \<noteq> UID_DESTROY \<longrightarrow> IsExpired i s' \<and> event_of i \<notin> set (events (m_events s')) \<or> IsExpired i s) \<and>
     set (events (m_events s')) \<subseteq> set (events (m_events s)) \<and>
     set (events (m_events s)) - {event_of i} \<subseteq> set (events (m_events s'))"
proof (cases "id_uid i = UID_DESTROY \<or> IsExpired i s")
  case True
  have "sim_ok invar events (s\<lparr>m_destroyEvents := ds\<rparr>)" for ds
    using ok by (rule sim_ok_frame) (auto simp: now_key_def sim_okD(8) [OF ok])
  with True ok show ?thesis by (auto simp: RemoveId_def now_key_def)
next
  case False
  let ?e = "event_of i"
  have pend: "?e \<in> set (events (m_events s))"
    using assms(2) False by (auto simp: issued_def)
  then obtain p where p: "id_impl i = Some p" "impls s p \<noteq> None"
    using ok by (auto simp: sim_ok_def pending_ok_def)
  obtain q where q: "Remove sch ?e (m_events s) = Some q" "invar q" "events q = remove1 ?e (events (m_events s))"
    using remove_ok [OF _ pend] ok by (auto simp: sim_ok_def)
  define s' where "s' = (EventImpl_Cancel p (s\<lparr>m_events := q\<rparr>))\<lparr>m_unscheduledEvents := m_unscheduledEvents s - 1\<rparr>"
  have rem: "RemoveId sch i s = Some s'"
    using False p q by (simp add: RemoveId_def s'_def Let_def EventImpl_Cancel_def)
  have dist: "distinct (events (m_events s))"
    using ok events_ok by (auto simp: sim_ok_def intro: queue_ok_distinct)
  have sub: "set (events q) = set (events (m_events s)) - {?e}"
    using q(3) dist by simp
  note okD = sim_okD [OF ok]
  have "pending_ok s' e" if "e \<in> set (events q)" for e
  proof -
    have "pending_ok s e" using okD(2) that sub by simp
    then show ?thesis by (rule pending_ok_mono) (simp_all add: s'_def now_key_def)
  qed
  moreover have "length (events (m_events s)) = Suc (length (events q))"
    using q(3) pend by (simp add: length_remove1) (metis length_pos_if_in_set Suc_pred)
  ultimately have "sim_ok invar events s'"
    using q(2) okD by (intro sim_okI) (simp_all add: s'_def)
  moreover have "IsExpired i s'"
    using False p by (auto simp: IsExpired_def s'_def EventImpl_IsCancelled_def EventImpl_Cancel_def)
  ultimately show ?thesis
    using rem sub by (auto simp: s'_def now_key_def)
qed

lemma client_call_ok:
  assumes "client_call sch events s s'" and ok: "sim_ok invar events s"
  shows "sim_ok invar events s' \<and> now_key s' = now_key s \<and> sim_uid s \<le> sim_uid s'"
  using assms
proof cases
  case (call_new w p)
  then have "sim_ok invar events s'"
    by (intro sim_ok_frame [OF ok]) (auto simp: MakeEvent_def now_key_def sim_okD(8) [OF ok])
  with call_new show ?thesis by (auto simp: MakeEvent_def now_key_def)
next
  case (call_schedule d p i)
  then have "m_mainThreadId s = this_thread s"
    by (auto simp: Schedule_def split: if_splits)
  with call_schedule Schedule_ok [OF ok, of d p] less_Suc_uid [of s] show ?thesis by auto
next
  case (call_with_context c d p)
  then show ?thesis
    using ScheduleWithContext_ok [OF ok, of d p c] less_Suc_uid [of s]
    by (auto simp: ScheduleWithContext_def)
next
  case (call_destroy p i)
  then have s': "s' = s\<lparr>m_destroyEvents := m_destroyEvents s @ [i], sim_uid := sim_uid s + 1\<rparr>"
    by (auto simp: ScheduleDestroy_def Let_def split: if_splits)
  have le: "sim_uid s \<le> sim_uid s'"
    using less_imp_le [OF less_Suc_uid [OF call_destroy(2)]] by (simp add: s')
  have "sim_ok invar events s'"
    by (rule sim_ok_frame [OF ok _ _ le]) (simp_all add: s' now_key_def sim_okD(8) [OF ok])
  with le show ?thesis
    by (simp add: s' now_key_def)
next
  case (call_remove i)
  then have "sim_uid s' = sim_uid s"
    by (auto simp: RemoveId_def Let_def split: if_splits option.splits)
  with call_remove RemoveId_ok [OF ok, of i] show ?thesis by auto
next
  case (call_cancel i)
  have "sim_ok invar events (Cancel i s)"
    by (rule sim_ok_frame [OF ok]) (simp_all add: now_key_def sim_okD(8) [OF ok])
  with call_cancel show ?thesis
    by (simp add: now_key_def)
next
  case call_stop
  have "sim_ok invar events s'"
    by (rule sim_ok_frame [OF ok]) (simp_all add: call_stop Stop_def now_key_def sim_okD(8) [OF ok])
  with call_stop show ?thesis by (simp add: Stop_def now_key_def)
next
  case (call_user f)
  have "sim_ok invar events s'"
    by (rule sim_ok_frame [OF ok]) (simp_all add: call_user now_key_def sim_okD(8) [OF ok])
  with call_user show ?thesis by (simp add: now_key_def)
qed

lemma client_calls_ok:
  assumes "(client_call sch events)\<^sup>*\<^sup>* s s'" and "sim_ok invar events s"
  shows "sim_ok invar events s' \<and> now_key s' = now_key s \<and> sim_uid s \<le> sim_uid s'"
  using assms(1)
proof (induction rule: rtranclp_induct)
  case base
  with assms(2) show ?case by simp
next
  case (step t u)
  then show ?case using client_call_ok [of t u] by auto
qed

text \<open>Expiry is permanent, and an issued identifier stays issued.\<close>

lemma cancelled_call:
  assumes "client_call sch events s s'" and ok: "sim_ok invar events s" and "EventImpl_IsCancelled p s"
  shows "EventImpl_IsCancelled p s'"
  using assms(1)
proof cases
  case (call_new w q)
  moreover have "p \<noteq> next_impl s"
    using assms(3) sim_okD(8) [OF ok, of p] by (auto simp: EventImpl_IsCancelled_def)
  ultimately show ?thesis
    using assms(3) by (auto simp: MakeEvent_def EventImpl_IsCancelled_def)
next
  case (call_schedule d q i)
  then have "impls s' = impls s"
    by (auto simp: Schedule_def Let_def split: if_splits)
  with assms(3) show ?thesis by (simp add: EventImpl_IsCancelled_def)
next
  case (call_remove i)
  with assms(3) show ?thesis
    by (auto simp: RemoveId_def Let_def EventImpl_IsCancelled_def EventImpl_Cancel_def
        split: if_splits option.splits)
qed (use assms(3) in \<open>auto simp: EventImpl_IsCancelled_def ScheduleWithContext_def ScheduleDestroy_def
      Cancel_def EventImpl_Cancel_def Stop_def Let_def split: if_splits option.splits\<close>)

lemma expired_call:
  assumes call: "client_call sch events s s'" and ok: "sim_ok invar events s"
    and i: "id_uid i \<noteq> UID_DESTROY" and "IsExpired i s"
  shows "IsExpired i s'"
  using client_call_ok [OF call ok] cancelled_call [OF call ok] assms(3,4)
  by (auto simp: IsExpired_def now_key_def split: option.splits)

lemma pending_not_destroy:
  "sim_ok invar events s \<Longrightarrow> event_of i \<in> set (events (m_events s)) \<Longrightarrow> id_uid i \<noteq> UID_DESTROY"
  using sim_okD(2) [of invar events s "event_of i"] by (auto simp: pending_ok_def UID_DESTROY_def)

lemma pending_call:
  assumes call: "client_call sch events s s'" and ok: "sim_ok invar events s"
    and i: "event_of i \<in> set (events (m_events s))"
  shows "event_of i \<in> set (events (m_events s')) \<or> IsExpired i s'"
  using call
proof cases
  case (call_schedule d p j)
  then have "m_mainThreadId s = this_thread s"
    by (auto simp: Schedule_def split: if_splits)
  with call_schedule Schedule_ok [OF ok, of d p] i show ?thesis by auto
next
  case (call_with_context c d p)
  with ScheduleWithContext_ok [OF ok, of d p c] i show ?thesis by auto
next
  case (call_remove j)
  show ?thesis
  proof (cases "event_of j = event_of i")
    case True
    then have "j = i" by (cases i; cases j) (simp add: event_of_def)
    then show ?thesis
      using RemoveId_ok [OF ok call_remove(2)] call_remove(1) pending_not_destroy [OF ok i]
        expired_call [OF call ok] by auto
  next
    case False
    then show ?thesis
      using RemoveId_ok [OF ok call_remove(2)] call_remove(1) i by auto
  qed
qed (use i in \<open>auto simp: MakeEvent_def ScheduleDestroy_def Stop_def Let_def split: if_splits\<close>)

lemma issued_calls:
  assumes "(client_call sch events)\<^sup>*\<^sup>* s s'" and ok: "sim_ok invar events s"
    and "id_uid i \<noteq> UID_DESTROY" and "issued events i s"
  shows "issued events i s'"
  using assms(1)
proof (induction rule: rtranclp_induct)
  case base
  show ?case by fact
next
  case (step t u)
  then show ?case
    using client_calls_ok [OF step(1) ok] pending_call [of t u i] expired_call [of t u i] assms(3)
    by (auto simp: issued_def)
qed

subsection \<open>Processing one event\<close>

lemma start_event_ok:
  assumes ok: "sim_ok invar events s" and es: "events (m_events s) = e # es"
    and q: "invar q" "events q = es"
  shows "sim_ok invar events (start_event e q s)"
proof -
  note okD = sim_okD [OF ok]
  have qok: "queue_ok (e # es)" using events_ok [OF okD(1)] es by simp
  have "pending_ok (start_event e q s) x" if "x \<in> set es" for x
  proof -
    have "pending_ok s x" "rank e < rank x" using okD(2) that es qok by (auto simp: queue_ok_Cons)
    then show ?thesis by (simp add: pending_ok_def start_event_def now_key_def rank_def)
  qed
  moreover have "uid e < sim_uid s" using okD(2) [of e] es by (simp add: pending_ok_def)
  ultimately show ?thesis
    using okD q es by (intro sim_okI) (auto simp: start_event_def uid_def)
qed

lemma start_event_now:
  assumes ok: "sim_ok invar events s" and es: "events (m_events s) = e # es"
  shows "now_key (start_event e q s) = rank e" "now_key s < rank e"
  using sim_okD(2) [OF ok, of e] es by (simp_all add: start_event_def now_key_def rank_def pending_ok_def)

text \<open>The assertion on the time stamp holds and the next event in key order is invoked.\<close>

lemma ProcessOneEvent_eq:
  assumes ok: "sim_ok invar events s" and es: "events (m_events s) = e # es"
  shows "\<exists>q. RemoveNext sch (m_events s) = Some (e, q) \<and> sim_ok invar events (start_event e q s) \<and>
    events q = es \<and>
    ProcessOneEvent sch notify s =
      Option.bind (EventImpl_Invoke notify (impl e) (start_event e q s)) (ProcessEventsWithContext sch)"
proof -
  obtain q where q: "RemoveNext sch (m_events s) = Some (e, q)" "invar q" "events q = es"
    using remove_next_ok [OF sim_okD(1) [OF ok] es] by blast
  have "now_key s < rank e" by (rule start_event_now(2) [OF ok es])
  then have "\<not> m_ts (key e) < m_currentTs s"
    by (auto simp: now_key_def rank_def)
  with q start_event_ok [OF ok es] show ?thesis
    by (simp add: ProcessOneEvent_def)
qed

end

subsection \<open>Event handlers\<close>

text \<open>
  A handler reaches the simulator through its public operations only. \<open>room\<close> is the client's
  own bound on the states in which it runs (time and identifiers far from the word size).
\<close>

locale simulation = removable_event_queue sch invar events
  for sch :: "'q scheduler" and invar and events +
  fixes notify :: "'e \<Rightarrow> ('q, 'e, 'z) sim_scheme \<Rightarrow> ('q, 'e, 'z) sim_scheme option"
    and room :: "'e \<Rightarrow> ('q, 'e, 'z) sim_scheme \<Rightarrow> bool"
  assumes notify_calls: "sim_ok invar events s \<Longrightarrow> room w s \<Longrightarrow> notify w s = Some s' \<Longrightarrow>
     (client_call sch events)\<^sup>*\<^sup>* s s'"

definition room_for ::
  "('e \<Rightarrow> ('q, 'e, 'z) sim_scheme \<Rightarrow> bool) \<Rightarrow> event \<Rightarrow> ('q, 'e, 'z) sim_scheme \<Rightarrow> bool" where
  "room_for room e s \<longleftrightarrow>
     (case impl e of None \<Rightarrow> True
      | Some p \<Rightarrow> (case impls s p of None \<Rightarrow> True | Some ei \<Rightarrow> room (what ei) s))"

text \<open>A run, with the list of the events processed: events and client calls in any order.\<close>

inductive sim_run ::
  "'q scheduler \<Rightarrow> ('q \<Rightarrow> event list) \<Rightarrow>
   ('e \<Rightarrow> ('q, 'e, 'z) sim_scheme \<Rightarrow> ('q, 'e, 'z) sim_scheme option) \<Rightarrow>
   ('e \<Rightarrow> ('q, 'e, 'z) sim_scheme \<Rightarrow> bool) \<Rightarrow>
   ('q, 'e, 'z) sim_scheme \<Rightarrow> event list \<Rightarrow> ('q, 'e, 'z) sim_scheme \<Rightarrow> bool"
  for sch evs notify room where
  run_end: "sim_run sch evs notify room s [] s"
| run_call: "client_call sch evs s s1 \<Longrightarrow> sim_run sch evs notify room s1 es s' \<Longrightarrow>
    sim_run sch evs notify room s es s'"
| run_event: "\<not> IsEmpty sch (m_events s) \<Longrightarrow> RemoveNext sch (m_events s) = Some (e, q) \<Longrightarrow> room_for room e (start_event e q s) \<Longrightarrow>
    ProcessOneEvent sch notify s = Some s1 \<Longrightarrow> sim_run sch evs notify room s1 es s' \<Longrightarrow>
    sim_run sch evs notify room s (e # es) s'"

lemma sim_run_calls:
  assumes "(client_call sch evs)\<^sup>*\<^sup>* s s1" and "sim_run sch evs notify room s1 es s'"
  shows "sim_run sch evs notify room s es s'"
  using assms by (induction rule: converse_rtranclp_induct) (auto intro: run_call)

context simulation
begin

lemma ProcessOneEvent_ok:
  assumes ok: "sim_ok invar events s" and "RemoveNext sch (m_events s) = Some (e, q)"
    and ne: "events (m_events s) \<noteq> []" and room: "room_for room e (start_event e q s)"
    and step: "ProcessOneEvent sch notify s = Some s'"
  shows "sim_ok invar events s' \<and> now_key s' = rank e \<and> now_key s < rank e \<and>
     (\<exists>es. events (m_events s) = e # es) \<and>
     (client_call sch events)\<^sup>*\<^sup>* (start_event e q s) s'"
proof -
  obtain e' es where es: "events (m_events s) = e' # es"
    using ne by (cases "events (m_events s)") auto
  then have [simp]: "e' = e" and q: "sim_ok invar events (start_event e q s)"
    and eq: "ProcessOneEvent sch notify s =
      Option.bind (EventImpl_Invoke notify (impl e) (start_event e q s)) (ProcessEventsWithContext sch)"
    using ProcessOneEvent_eq [OF ok es, of notify] assms(2) by auto
  obtain s2 where s2: "EventImpl_Invoke notify (impl e) (start_event e q s) = Some s2"
      "ProcessEventsWithContext sch s2 = Some s'"
    using step eq by (auto simp: Option.bind_eq_Some_conv)
  then have "s2 = start_event e q s \<or>
      (\<exists>w. notify w (start_event e q s) = Some s2 \<and> room w (start_event e q s))"
    using room by (auto simp: EventImpl_Invoke_def room_for_def split: option.splits if_splits)
  then have calls: "(client_call sch events)\<^sup>*\<^sup>* (start_event e q s) s2"
    using notify_calls [OF q] by auto
  have ok2: "sim_ok invar events s2" "now_key s2 = rank e"
    using client_calls_ok [OF calls q] start_event_now(1) [OF ok es, of q] by auto
  moreover have "s' = s2"
    using s2(2) sim_okD(7) [OF ok2(1)] by (simp add: ProcessEventsWithContext_def)
  ultimately show ?thesis
    using start_event_now(2) [OF ok es] es calls by auto
qed

text \<open>Along a run the invariant holds and events are processed in strictly increasing key order.\<close>

lemma sim_run_ordered:
  "sim_run sch events notify room s es s' \<Longrightarrow> sim_ok invar events s \<Longrightarrow>
   sim_ok invar events s' \<and> now_key s \<le> now_key s' \<and> sorted_by rank es \<and>
   (\<forall>e\<in>set es. now_key s < rank e \<and> rank e \<le> now_key s')"
proof (induction rule: sim_run.induct)
  case (run_end s)
  then show ?case by simp
next
  case (run_call s s1 es s')
  then show ?case using client_call_ok [of s s1] by auto
next
  case (run_event s e q s1 es s')
  then have "events (m_events s) \<noteq> []"
    using is_empty [OF sim_okD(1) [OF run_event.prems]] by simp
  with run_event have "sim_ok invar events s1" "now_key s1 = rank e" "now_key s < rank e"
    using ProcessOneEvent_ok [of s e q s1] by auto
  then show ?case
    using run_event.IH by (auto intro: order_less_imp_le less_trans order_trans)
qed

text \<open>An identifier that the simulator issued: its event stays pending until it is processed or
  the identifier has expired; expiry is permanent.\<close>

lemma ProcessOneEvent_cases:
  assumes ok: "sim_ok invar events s" and ne: "\<not> IsEmpty sch (m_events s)"
    and rem: "RemoveNext sch (m_events s) = Some (e, q)"
    and room: "room_for room e (start_event e q s)" and step: "ProcessOneEvent sch notify s = Some s'"
  shows "sim_ok invar events s'" "now_key s' = rank e" "now_key s < rank e"
    "events (m_events s) = e # events q" "sim_ok invar events (start_event e q s)"
    "(client_call sch events)\<^sup>*\<^sup>* (start_event e q s) s'"
proof -
  have "events (m_events s) \<noteq> []"
    using is_empty [OF sim_okD(1) [OF ok]] ne by simp
  note p = ProcessOneEvent_ok [OF ok rem this room step]
  then obtain es where es: "events (m_events s) = e # es" by blast
  obtain q' where "RemoveNext sch (m_events s) = Some (e, q')" "sim_ok invar events (start_event e q' s)"
      "events q' = es"
    using ProcessOneEvent_eq [OF ok es] by blast
  with p es rem show "sim_ok invar events s'" "now_key s' = rank e" "now_key s < rank e"
    "events (m_events s) = e # events q" "sim_ok invar events (start_event e q s)"
    "(client_call sch events)\<^sup>*\<^sup>* (start_event e q s) s'"
    by auto
qed

lemma issued_start_event:
  assumes "now_key s < rank e" and "events (m_events s) = e # events q"
    and i: "id_uid i \<noteq> UID_DESTROY" and "issued events i s"
  shows "issued events i (start_event e q s) \<and> (IsExpired i s \<longrightarrow> IsExpired i (start_event e q s))"
proof -
  have exp: "IsExpired i s \<Longrightarrow> IsExpired i (start_event e q s)"
    using assms(1) i by (auto simp: IsExpired_def start_event_def now_key_def rank_def
        EventImpl_IsCancelled_def split: option.splits)
  moreover have "issued events i (start_event e q s)" if "event_of i \<in> set (events (m_events s))"
    using that assms(2) i
    by (auto simp: issued_def IsExpired_def start_event_def event_of_def split: option.splits)
  ultimately show ?thesis
    using assms(4) by (auto simp: issued_def)
qed

lemma expired_calls:
  assumes "(client_call sch events)\<^sup>*\<^sup>* s s'" and ok: "sim_ok invar events s"
    and "id_uid i \<noteq> UID_DESTROY" and "IsExpired i s"
  shows "IsExpired i s'"
  using assms(1)
proof (induction rule: rtranclp_induct)
  case base
  show ?case by fact
next
  case (step t u)
  then show ?case
    using client_calls_ok [OF step(1) ok] expired_call [of t u i] assms(3) by auto
qed

lemma expired_run:
  assumes i: "id_uid i \<noteq> UID_DESTROY"
  shows "sim_run sch events notify room s es s' \<Longrightarrow> sim_ok invar events s \<Longrightarrow> IsExpired i s \<Longrightarrow>
    IsExpired i s'"
proof (induction rule: sim_run.induct)
  case (run_end s)
  then show ?case by simp
next
  case (run_call s s1 es s')
  then show ?case
    using client_call_ok [of s s1] expired_call [of s s1 i] i by auto
next
  case (run_event s e q s1 es s')
  note p = ProcessOneEvent_cases [OF run_event.prems(1) run_event.hyps(1,2,3,4)]
  have "issued events i s" using run_event.prems(2) by (simp add: issued_def)
  then have "IsExpired i (start_event e q s)"
    using issued_start_event [OF p(3,4) i] run_event.prems(2) by blast
  then have "IsExpired i s1"
    by (rule expired_calls [OF p(6,5) i])
  with p(1) show ?case by (rule run_event.IH)
qed

lemma issued_run:
  assumes i: "id_uid i \<noteq> UID_DESTROY"
  shows "sim_run sch events notify room s es s' \<Longrightarrow> sim_ok invar events s \<Longrightarrow> issued events i s \<Longrightarrow>
    issued events i s' \<and> (event_of i \<in> set es \<longrightarrow> IsExpired i s')"
proof (induction rule: sim_run.induct)
  case (run_end s)
  then show ?case by simp
next
  case (run_call s s1 es s')
  then show ?case
    using client_call_ok [of s s1] issued_calls [of s s1 i] i by auto
next
  case (run_event s e q s1 es s')
  note p = ProcessOneEvent_cases [OF run_event.prems(1) run_event.hyps(1,2,3,4)]
  have "issued events i (start_event e q s)"
    using issued_start_event [OF p(3,4) i run_event.prems(2)] by blast
  then have i1: "issued events i s1"
    by (rule issued_calls [OF p(6,5) i])
  have "IsExpired i s1" if "event_of i = e"
    using that p(2) i
    by (auto simp: IsExpired_def now_key_def split: option.splits)
  then have "IsExpired i s'" if "event_of i = e"
    using that expired_run [OF i run_event.hyps(5) p(1)] by blast
  then show ?case
    using run_event.IH [OF p(1) i1] by auto
qed

text \<open>So an identifier runs exactly while its event is pending and not cancelled.\<close>

lemma running_iff_pending:
  assumes "sim_ok invar events s" and "id_uid i \<noteq> UID_DESTROY" and "issued events i s"
    and "id_impl i = Some p"
  shows "IsRunning i s \<longleftrightarrow> event_of i \<in> set (events (m_events s)) \<and> \<not> EventImpl_IsCancelled p s"
proof -
  have "now_key s < rank (event_of i)" if "event_of i \<in> set (events (m_events s))"
    using sim_okD(2) [OF assms(1) that] by (simp add: pending_ok_def)
  then show ?thesis
    using assms(2,3,4) by (auto simp: IsRunning_def issued_def IsExpired_def now_key_def)
qed

end

end
