(* ===== verification/Phy_State.thy ===== *)
theory Phy_State
  imports Prelude
begin

text \<open>
  The PHY state machine of \<open>wifi/model/wifi-phy-state-helper.cc\<close>. The state is not stored: it is
  computed from the two flags and from the end times of the last transmission, reception,
  channel switch and busy period. \<open>Simulator::Now()\<close> is the argument \<open>now\<close>; a \<open>Time\<close> is an
  integer; \<open>m_log\<close> collects the calls of the state logger. A failed assertion and
  \<open>NS_FATAL_ERROR\<close> are \<open>None\<close>. The notifications to the PHY listeners are not modelled.
\<close>

type_synonym ns3_time = int

datatype WifiPhyState = IDLE | CCA_BUSY | TX | RX | SWITCHING | SLEEP | OFF

datatype WifiChannelListType = WIFI_CHANLIST_PRIMARY | WIFI_CHANLIST_SECONDARY |
  WIFI_CHANLIST_SECONDARY40 | WIFI_CHANLIST_SECONDARY80

record phy_state =
  m_sleeping :: bool
  m_isOff :: bool
  m_endTx :: ns3_time
  m_endRx :: ns3_time
  m_endCcaBusy :: ns3_time
  m_endSwitching :: ns3_time
  m_endSleep :: ns3_time
  m_startTx :: ns3_time
  m_startRx :: ns3_time
  m_startCcaBusy :: ns3_time
  m_startSwitching :: ns3_time
  m_startSleep :: ns3_time
  m_previousStateChangeTime :: ns3_time
  m_log :: "(ns3_time \<times> ns3_time \<times> WifiPhyState) list"

definition WifiPhyStateHelper :: phy_state where
  "WifiPhyStateHelper =
     \<lparr>m_sleeping = False, m_isOff = False, m_endTx = 0, m_endRx = 0, m_endCcaBusy = 0,
      m_endSwitching = 0, m_endSleep = 0, m_startTx = 0, m_startRx = 0, m_startCcaBusy = 0,
      m_startSwitching = 0, m_startSleep = 0, m_previousStateChangeTime = 0, m_log = []\<rparr>"

subsection \<open>Reading the state\<close>

definition GetState :: "ns3_time \<Rightarrow> phy_state \<Rightarrow> WifiPhyState" where
  "GetState now s =
     (if m_isOff s then OFF
      else if m_sleeping s then SLEEP
      else if m_endTx s > now then TX
      else if m_endRx s > now then RX
      else if m_endSwitching s > now then SWITCHING
      else if m_endCcaBusy s > now then CCA_BUSY
      else IDLE)"

definition GetDelayUntilIdle :: "ns3_time \<Rightarrow> phy_state \<Rightarrow> ns3_time" where
  "GetDelayUntilIdle now s =
     (let retval = (case GetState now s of
          RX \<Rightarrow> m_endRx s - now
        | TX \<Rightarrow> m_endTx s - now
        | CCA_BUSY \<Rightarrow> m_endCcaBusy s - now
        | SWITCHING \<Rightarrow> m_endSwitching s - now
        | IDLE \<Rightarrow> 0
        | SLEEP \<Rightarrow> 0
        | OFF \<Rightarrow> 0)
      in max retval 0)"

subsection \<open>Transitions\<close>

definition stateLogger :: "ns3_time \<Rightarrow> ns3_time \<Rightarrow> WifiPhyState \<Rightarrow> phy_state \<Rightarrow> phy_state" where
  "stateLogger start duration st s = s\<lparr>m_log := m_log s @ [(start, duration, st)]\<rparr>"

definition LogPreviousIdleAndCcaBusyStates :: "ns3_time \<Rightarrow> phy_state \<Rightarrow> phy_state option" where
  "LogPreviousIdleAndCcaBusyStates now s =
     (case GetState now s of
        CCA_BUSY \<Rightarrow>
          (let ccaStart = Max {m_endRx s, m_endTx s, m_startCcaBusy s, m_endSwitching s, m_endSleep s}
           in Some (stateLogger ccaStart (now - ccaStart) CCA_BUSY s))
      | IDLE \<Rightarrow>
          (let idleStart = Max {m_endCcaBusy s, m_endRx s, m_endTx s, m_endSwitching s, m_endSleep s}
           in if \<not> idleStart \<le> now then None
              else
                let s1 = (if m_endCcaBusy s > m_endRx s \<and> m_endCcaBusy s > m_endSwitching s \<and>
                             m_endCcaBusy s > m_endTx s \<and> m_endCcaBusy s > m_endSleep s
                          then let ccaBusyStart = Max {m_endTx s, m_endRx s, m_startCcaBusy s, m_endSwitching s};
                                   ccaBusyDuration = idleStart - ccaBusyStart
                               in if ccaBusyDuration > 0 then stateLogger ccaBusyStart ccaBusyDuration CCA_BUSY s
                                  else s
                          else s);
                    idleDuration = now - idleStart
                in Some (if idleDuration > 0 then stateLogger idleStart idleDuration IDLE s1 else s1))
      | _ \<Rightarrow> Some s)"

definition SwitchToTx :: "ns3_time \<Rightarrow> ns3_time \<Rightarrow> phy_state \<Rightarrow> phy_state option" where
  "SwitchToTx now txDuration s =
     map_option (\<lambda>s1. (stateLogger now txDuration TX s1)
         \<lparr>m_previousStateChangeTime := now, m_endTx := now + txDuration, m_startTx := now\<rparr>)
       (case GetState now s of
          RX \<Rightarrow> Some ((stateLogger (m_startRx s) (now - m_startRx s) RX s)\<lparr>m_endRx := now\<rparr>)
        | CCA_BUSY \<Rightarrow> LogPreviousIdleAndCcaBusyStates now s
        | IDLE \<Rightarrow> LogPreviousIdleAndCcaBusyStates now s
        | _ \<Rightarrow> None)"

definition SwitchToRx :: "ns3_time \<Rightarrow> ns3_time \<Rightarrow> phy_state \<Rightarrow> phy_state option" where
  "SwitchToRx now rxDuration s =
     (if \<not> (GetState now s = IDLE \<or> GetState now s = CCA_BUSY) then None
      else Option.bind
        (case GetState now s of
           IDLE \<Rightarrow> LogPreviousIdleAndCcaBusyStates now s
         | CCA_BUSY \<Rightarrow> LogPreviousIdleAndCcaBusyStates now s
         | _ \<Rightarrow> None)
        (\<lambda>s1. let s2 = s1\<lparr>m_previousStateChangeTime := now, m_startRx := now, m_endRx := now + rxDuration\<rparr>
              in if GetState now s2 = RX then Some s2 else None))"

definition SwitchToChannelSwitching :: "ns3_time \<Rightarrow> ns3_time \<Rightarrow> phy_state \<Rightarrow> phy_state option" where
  "SwitchToChannelSwitching now switchingDuration s =
     Option.bind
       (case GetState now s of
          RX \<Rightarrow> Some ((stateLogger (m_startRx s) (now - m_startRx s) RX s)\<lparr>m_endRx := now\<rparr>)
        | CCA_BUSY \<Rightarrow> LogPreviousIdleAndCcaBusyStates now s
        | IDLE \<Rightarrow> LogPreviousIdleAndCcaBusyStates now s
        | _ \<Rightarrow> None)
       (\<lambda>s1. let s2 = (stateLogger now switchingDuration SWITCHING (s1\<lparr>m_endCcaBusy := min now (m_endCcaBusy s1)\<rparr>))
                 \<lparr>m_previousStateChangeTime := now, m_startSwitching := now,
                  m_endSwitching := now + switchingDuration\<rparr>
             in if switchingDuration = 0 \<or> GetState now s2 = SWITCHING then Some s2 else None)"

definition DoSwitchFromRx :: "ns3_time \<Rightarrow> phy_state \<Rightarrow> phy_state option" where
  "DoSwitchFromRx now s =
     (let s1 = (stateLogger (m_startRx s) (now - m_startRx s) RX s)
                 \<lparr>m_previousStateChangeTime := now, m_endRx := now\<rparr>
      in if GetState now s1 = IDLE \<or> GetState now s1 = CCA_BUSY \<or> GetState now s1 = SLEEP
         then Some s1 else None)"

definition SwitchFromRxEndOk :: "ns3_time \<Rightarrow> phy_state \<Rightarrow> phy_state option" where
  "SwitchFromRxEndOk now s = (if m_endRx s = now then DoSwitchFromRx now s else None)"

definition SwitchFromRxEndError :: "ns3_time \<Rightarrow> phy_state \<Rightarrow> phy_state option" where
  "SwitchFromRxEndError now s = (if m_endRx s = now then DoSwitchFromRx now s else None)"

definition SwitchMaybeToCcaBusy ::
  "ns3_time \<Rightarrow> ns3_time \<Rightarrow> WifiChannelListType \<Rightarrow> phy_state \<Rightarrow> phy_state option" where
  "SwitchMaybeToCcaBusy now duration channelType s =
     (if GetState now s = RX then Some s
      else if channelType \<noteq> WIFI_CHANLIST_PRIMARY then Some s
      else map_option (\<lambda>s1.
             let s2 = (if GetState now s1 \<noteq> CCA_BUSY then s1\<lparr>m_startCcaBusy := now\<rparr> else s1)
             in s2\<lparr>m_endCcaBusy := max (m_endCcaBusy s2) (now + duration)\<rparr>)
           (if GetState now s = IDLE then LogPreviousIdleAndCcaBusyStates now s else Some s))"

definition SwitchToSleep :: "ns3_time \<Rightarrow> phy_state \<Rightarrow> phy_state option" where
  "SwitchToSleep now s =
     Option.bind
       (case GetState now s of
          IDLE \<Rightarrow> LogPreviousIdleAndCcaBusyStates now s
        | CCA_BUSY \<Rightarrow> LogPreviousIdleAndCcaBusyStates now s
        | _ \<Rightarrow> None)
       (\<lambda>s1. let s2 = s1\<lparr>m_previousStateChangeTime := now, m_sleeping := True, m_startSleep := now\<rparr>
             in if GetState now s2 = SLEEP then Some s2 else None)"

definition SwitchFromSleep :: "ns3_time \<Rightarrow> phy_state \<Rightarrow> phy_state option" where
  "SwitchFromSleep now s =
     (if GetState now s \<noteq> SLEEP then None
      else Some ((stateLogger (m_startSleep s) (now - m_startSleep s) SLEEP s)
             \<lparr>m_previousStateChangeTime := now, m_sleeping := False, m_endSleep := now\<rparr>))"

definition SwitchFromRxAbort :: "ns3_time \<Rightarrow> phy_state \<Rightarrow> phy_state option" where
  "SwitchFromRxAbort now s =
     (if GetState now s \<noteq> CCA_BUSY then None
      else Option.bind (DoSwitchFromRx now s) (\<lambda>s1.
             let s2 = s1\<lparr>m_endCcaBusy := now\<rparr>
             in if GetState now s2 = IDLE then Some s2 else None))"

definition SwitchToOff :: "ns3_time \<Rightarrow> phy_state \<Rightarrow> phy_state option" where
  "SwitchToOff now s =
     Option.bind
       (case GetState now s of
          RX \<Rightarrow> Some ((stateLogger (m_startRx s) (now - m_startRx s) RX s)\<lparr>m_endRx := now\<rparr>)
        | TX \<Rightarrow> Some ((stateLogger (m_startTx s) (now - m_startTx s) TX s)\<lparr>m_endTx := now\<rparr>)
        | IDLE \<Rightarrow> LogPreviousIdleAndCcaBusyStates now s
        | CCA_BUSY \<Rightarrow> LogPreviousIdleAndCcaBusyStates now s
        | _ \<Rightarrow> None)
       (\<lambda>s1. let s2 = s1\<lparr>m_previousStateChangeTime := now, m_isOff := True\<rparr>
             in if GetState now s2 = OFF then Some s2 else None)"

definition SwitchFromOff :: "ns3_time \<Rightarrow> phy_state \<Rightarrow> phy_state option" where
  "SwitchFromOff now s =
     (if GetState now s \<noteq> OFF then None
      else Some (s\<lparr>m_previousStateChangeTime := now, m_isOff := False\<rparr>))"

subsection \<open>Well-formed states\<close>

text \<open>
  What the transitions keep at time \<open>now\<close>: at most one of transmission, reception and channel
  switch is in progress, periods in the past started in the past, and the log only has entries
  that ended.
\<close>

definition log_ok :: "ns3_time \<Rightarrow> (ns3_time \<times> ns3_time \<times> WifiPhyState) list \<Rightarrow> bool" where
  "log_ok now l \<longleftrightarrow>
     list_all (\<lambda>(start, duration, st). 0 \<le> duration \<and> (st \<noteq> TX \<and> st \<noteq> SWITCHING \<longrightarrow> start + duration \<le> now)) l"

lemma log_ok_simps [simp]:
  "log_ok now []"
  "log_ok now ((start, duration, st) # l) \<longleftrightarrow>
     0 \<le> duration \<and> (st \<noteq> TX \<and> st \<noteq> SWITCHING \<longrightarrow> start + duration \<le> now) \<and> log_ok now l"
  "log_ok now (l1 @ l2) \<longleftrightarrow> log_ok now l1 \<and> log_ok now l2"
  by (simp_all add: log_ok_def)

lemma log_ok_later: "log_ok now l \<Longrightarrow> now \<le> t \<Longrightarrow> log_ok t l"
  by (fastforce simp: log_ok_def list_all_iff)

definition phy_ok :: "ns3_time \<Rightarrow> phy_state \<Rightarrow> bool" where
  "phy_ok now s \<longleftrightarrow> m_endSleep s \<le> now \<and>
     (m_endTx s > now \<longrightarrow> m_endRx s \<le> now \<and> m_endSwitching s \<le> now) \<and>
     (m_endRx s > now \<longrightarrow> m_endSwitching s \<le> now) \<and>
     m_startTx s \<le> now \<and> m_startRx s \<le> now \<and> m_startSwitching s \<le> now \<and>
     m_startCcaBusy s \<le> now \<and> m_startSleep s \<le> now \<and>
     log_ok now (m_log s)"

lemmas phy_defs = GetState_def stateLogger_def phy_ok_def

lemma phy_ok_later: "phy_ok now s \<Longrightarrow> now \<le> t \<Longrightarrow> phy_ok t s"
  by (auto simp: phy_ok_def elim: log_ok_later)

lemma Max5: "Max {a, b, c, d, e :: int} = max a (max b (max c (max d e)))"
  by simp

lemma Max4: "Max {a, b, c, d :: int} = max a (max b (max c d))"
  by simp

lemma stateLogger_frame [simp]:
  "GetState now (stateLogger a b st s) = GetState now s"
  "m_endTx (stateLogger a b st s) = m_endTx s" "m_endRx (stateLogger a b st s) = m_endRx s"
  "m_endSwitching (stateLogger a b st s) = m_endSwitching s"
  "m_endCcaBusy (stateLogger a b st s) = m_endCcaBusy s" "m_endSleep (stateLogger a b st s) = m_endSleep s"
  "m_startTx (stateLogger a b st s) = m_startTx s" "m_startRx (stateLogger a b st s) = m_startRx s"
  "m_startSwitching (stateLogger a b st s) = m_startSwitching s"
  "m_startCcaBusy (stateLogger a b st s) = m_startCcaBusy s" "m_startSleep (stateLogger a b st s) = m_startSleep s"
  "m_isOff (stateLogger a b st s) = m_isOff s" "m_sleeping (stateLogger a b st s) = m_sleeping s"
  "m_log (stateLogger a b st s) = m_log s @ [(a, b, st)]"
  by (auto simp: stateLogger_def GetState_def)

text \<open>Logging never fails in a well-formed state and changes nothing but the log.\<close>

lemma Log_busy_ok:
  assumes "cs \<le> i" "i \<le> now"
  shows "\<exists>l. (let s1 = (if c then (let d = i - cs in if d > 0 then stateLogger cs d CCA_BUSY s else s) else s);
                  d = now - i
              in if d > 0 then stateLogger i d IDLE s1 else s1) = s\<lparr>m_log := m_log s @ l\<rparr> \<and>
    log_ok now l"
  by (rule exI [of _ "(if c \<and> i - cs > 0 then [(cs, i - cs, CCA_BUSY)] else []) @
                      (if now - i > 0 then [(i, now - i, IDLE)] else [])"])
     (use assms in \<open>auto simp: stateLogger_def Let_def\<close>)

lemma Log_ok:
  assumes "phy_ok now s"
  shows "\<exists>l. LogPreviousIdleAndCcaBusyStates now s = Some (s\<lparr>m_log := m_log s @ l\<rparr>) \<and>
    log_ok now l"
proof (cases "GetState now s")
  case IDLE
  define i where "i = Max {m_endCcaBusy s, m_endRx s, m_endTx s, m_endSwitching s, m_endSleep s}"
  define c where "c \<longleftrightarrow> m_endCcaBusy s > m_endRx s \<and> m_endCcaBusy s > m_endSwitching s \<and>
    m_endCcaBusy s > m_endTx s \<and> m_endCcaBusy s > m_endSleep s"
  define cs where "cs = Max {m_endTx s, m_endRx s, m_startCcaBusy s, m_endSwitching s}"
  have i: "i \<le> now"
    using IDLE assms by (simp add: i_def GetState_def phy_ok_def split: if_splits)
  have "cs \<le> i \<or> \<not> i - cs > 0"
    by linarith
  define cs' where "cs' = min cs i"
  have eq: "(let d = i - cs in if d > 0 then stateLogger cs d CCA_BUSY s else s) =
      (let d = i - cs' in if d > 0 then stateLogger cs' d CCA_BUSY s else s)"
    by (simp add: cs'_def min_def Let_def)
  have "cs' \<le> i" by (simp add: cs'_def)
  from Log_busy_ok [OF this i, of c s] show ?thesis
    unfolding LogPreviousIdleAndCcaBusyStates_def IDLE
    by (simp only: WifiPhyState.case Let_def i_def [symmetric] c_def [symmetric] cs_def [symmetric]
        eq [unfolded Let_def] i not_True_eq_False if_False option.inject)
next
  case CCA_BUSY
  then have "m_endTx s \<le> now" "m_endRx s \<le> now" "m_endSwitching s \<le> now"
    by (auto simp: GetState_def split: if_splits)
  with CCA_BUSY assms show ?thesis
    unfolding LogPreviousIdleAndCcaBusyStates_def
    by (simp add: stateLogger_def Let_def phy_ok_def) (rule exI, rule conjI, rule refl, simp)
qed (auto simp: LogPreviousIdleAndCcaBusyStates_def intro: exI [of _ "[]"])

lemma phy_ok_log:
  "phy_ok now s \<Longrightarrow> log_ok now l \<Longrightarrow>
   phy_ok now (s\<lparr>m_log := m_log s @ l\<rparr>)"
  by (simp add: phy_ok_def)

lemma GetState_log [simp]: "GetState now (s\<lparr>m_log := l\<rparr>) = GetState now s"
  by (simp add: GetState_def)

lemma Log_SomeD:
  assumes "LogPreviousIdleAndCcaBusyStates now s = Some s1" and "phy_ok now s"
  shows "\<exists>l. s1 = s\<lparr>m_log := m_log s @ l\<rparr> \<and> phy_ok now s1"
  using Log_ok [OF assms(2)] phy_ok_log [OF assms(2)] assms(1) by fastforce

lemma phy_ok_init: "0 \<le> now \<Longrightarrow> phy_ok now WifiPhyStateHelper"
  by (simp add: phy_ok_def WifiPhyStateHelper_def)

text \<open>What the two states in which the medium can be entered say about the end times.\<close>

lemma GetState_simps:
  "GetState now s = IDLE \<longleftrightarrow> \<not> m_isOff s \<and> \<not> m_sleeping s \<and> m_endTx s \<le> now \<and> m_endRx s \<le> now \<and>
     m_endSwitching s \<le> now \<and> m_endCcaBusy s \<le> now"
  "GetState now s = CCA_BUSY \<longleftrightarrow> \<not> m_isOff s \<and> \<not> m_sleeping s \<and> m_endTx s \<le> now \<and> m_endRx s \<le> now \<and>
     m_endSwitching s \<le> now \<and> now < m_endCcaBusy s"
  "GetState now s = SWITCHING \<longleftrightarrow> \<not> m_isOff s \<and> \<not> m_sleeping s \<and> m_endTx s \<le> now \<and> m_endRx s \<le> now \<and>
     now < m_endSwitching s"
  "GetState now s = RX \<longleftrightarrow> \<not> m_isOff s \<and> \<not> m_sleeping s \<and> m_endTx s \<le> now \<and> now < m_endRx s"
  "GetState now s = TX \<longleftrightarrow> \<not> m_isOff s \<and> \<not> m_sleeping s \<and> now < m_endTx s"
  "GetState now s = SLEEP \<longleftrightarrow> \<not> m_isOff s \<and> m_sleeping s"
  "GetState now s = OFF \<longleftrightarrow> m_isOff s"
  by (auto simp: GetState_def)

definition leaves_medium :: "WifiPhyState \<Rightarrow> bool" where
  "leaves_medium st \<longleftrightarrow> st = IDLE \<or> st = CCA_BUSY"

text \<open>Sleeping is possible exactly in the two states without an activity, and always succeeds there.\<close>

lemma SwitchToSleep_iff:
  assumes "phy_ok now s"
  shows "(\<exists>s'. SwitchToSleep now s = Some s') \<longleftrightarrow> leaves_medium (GetState now s)"
    and "SwitchToSleep now s = Some s' \<Longrightarrow> GetState now s' = SLEEP \<and> phy_ok now s'"
proof -
  obtain l where l: "LogPreviousIdleAndCcaBusyStates now s = Some (s\<lparr>m_log := m_log s @ l\<rparr>)"
    "log_ok now l"
    using Log_ok [OF assms] by blast
  show "(\<exists>s'. SwitchToSleep now s = Some s') \<longleftrightarrow> leaves_medium (GetState now s)"
    by (cases "GetState now s"; simp add: SwitchToSleep_def leaves_medium_def l(1) Let_def; simp add: GetState_simps)
  assume "SwitchToSleep now s = Some s'"
  moreover note ok = phy_ok_log [OF assms l(2)]
  ultimately show "GetState now s' = SLEEP \<and> phy_ok now s'"
    by (cases "GetState now s"; simp add: SwitchToSleep_def l(1) Let_def split: if_splits;
        clarsimp simp: GetState_simps phy_ok_def)
qed

lemma SwitchFromSleep_ok:
  assumes "phy_ok now s" and "SwitchFromSleep now s = Some s'"
  shows "phy_ok now s' \<and> GetState now s' \<noteq> SLEEP \<and>
    GetState now s' = GetState now (s\<lparr>m_sleeping := False\<rparr>)"
  using assms by (auto simp: SwitchFromSleep_def GetState_def phy_ok_def stateLogger_def split: if_splits)

lemma SwitchToTx_ok:
  assumes "phy_ok now s" and "0 < d" and "SwitchToTx now d s = Some s'"
  shows "phy_ok now s' \<and> GetState now s' = TX \<and> m_endTx s' = now + d"
proof -
  obtain l where l: "LogPreviousIdleAndCcaBusyStates now s = Some (s\<lparr>m_log := m_log s @ l\<rparr>)"
    "log_ok now l"
    using Log_ok [OF assms(1)] by blast
  with assms phy_ok_log [OF assms(1) l(2)] show ?thesis
    by (cases "GetState now s"; simp add: SwitchToTx_def l(1) Let_def split: if_splits;
        auto simp: GetState_simps phy_ok_def)
qed

lemma SwitchToRx_ok:
  assumes "phy_ok now s" and "0 < d" and "leaves_medium (GetState now s)"
  shows "\<exists>s'. SwitchToRx now d s = Some s' \<and> phy_ok now s' \<and> GetState now s' = RX \<and> m_endRx s' = now + d"
proof -
  obtain l where l: "LogPreviousIdleAndCcaBusyStates now s = Some (s\<lparr>m_log := m_log s @ l\<rparr>)"
    "log_ok now l"
    using Log_ok [OF assms(1)] by blast
  with assms phy_ok_log [OF assms(1) l(2)] show ?thesis
    by (cases "GetState now s"; simp add: SwitchToRx_def l(1) Let_def leaves_medium_def split: if_splits;
        auto simp: GetState_simps phy_ok_def)
qed

lemma SwitchMaybeToCcaBusy_ok:
  assumes "phy_ok now s" and "SwitchMaybeToCcaBusy now d ch s = Some s'"
  shows "phy_ok now s' \<and> m_endCcaBusy s \<le> m_endCcaBusy s'"
proof -
  obtain l where l: "LogPreviousIdleAndCcaBusyStates now s = Some (s\<lparr>m_log := m_log s @ l\<rparr>)"
    "log_ok now l"
    using Log_ok [OF assms(1)] by blast
  with assms phy_ok_log [OF assms(1) l(2)] show ?thesis
    by (cases "GetState now s = IDLE")
       (auto simp: SwitchMaybeToCcaBusy_def l(1) Let_def phy_ok_def split: if_splits)
qed

lemma DoSwitchFromRx_ok:
  assumes "phy_ok now s" and "DoSwitchFromRx now s = Some s'"
  shows "phy_ok now s' \<and> m_endRx s' = now"
  using assms by (auto simp: DoSwitchFromRx_def Let_def phy_ok_def split: if_splits)

lemma SwitchToChannelSwitching_ok:
  assumes "phy_ok now s" and "0 \<le> d" and "SwitchToChannelSwitching now d s = Some s'"
  shows "phy_ok now s' \<and> (0 < d \<longrightarrow> GetState now s' = SWITCHING)"
proof -
  obtain l where l: "LogPreviousIdleAndCcaBusyStates now s = Some (s\<lparr>m_log := m_log s @ l\<rparr>)"
    "log_ok now l"
    using Log_ok [OF assms(1)] by blast
  with assms phy_ok_log [OF assms(1) l(2)] show ?thesis
    by (cases "GetState now s"; simp add: SwitchToChannelSwitching_def l(1) Let_def split: if_splits;
        auto simp: GetState_simps phy_ok_def)
qed

lemma SwitchToOff_ok:
  assumes "phy_ok now s" and "SwitchToOff now s = Some s'"
  shows "phy_ok now s' \<and> GetState now s' = OFF"
proof -
  obtain l where l: "LogPreviousIdleAndCcaBusyStates now s = Some (s\<lparr>m_log := m_log s @ l\<rparr>)"
    "log_ok now l"
    using Log_ok [OF assms(1)] by blast
  with assms phy_ok_log [OF assms(1) l(2)] show ?thesis
    by (cases "GetState now s"; simp add: SwitchToOff_def l(1) Let_def split: if_splits;
        auto simp: GetState_simps phy_ok_def)
qed

lemma SwitchFromOff_ok:
  assumes "phy_ok now s" and "SwitchFromOff now s = Some s'"
  shows "phy_ok now s' \<and> GetState now s' \<noteq> OFF"
  using assms by (auto simp: SwitchFromOff_def GetState_def phy_ok_def split: if_splits)

text \<open>The delay the postponed sleep waits for is enough: no activity is left after it.\<close>

lemma GetDelayUntilIdle_enough:
  assumes "phy_ok now s" and "\<not> m_isOff s" and "\<not> m_sleeping s"
  shows "leaves_medium (GetState (now + GetDelayUntilIdle now s) s)"
  using assms by (auto simp: leaves_medium_def GetDelayUntilIdle_def GetState_def phy_ok_def Let_def split: if_splits)

lemma GetDelayUntilIdle_nonneg: "0 \<le> GetDelayUntilIdle now s"
  by (simp add: GetDelayUntilIdle_def Let_def)

lemma SwitchFromRxAbort_ok:
  assumes "phy_ok now s" and "SwitchFromRxAbort now s = Some s'"
  shows "phy_ok now s' \<and> GetState now s' = IDLE"
proof -
  obtain s1 where s1: "DoSwitchFromRx now s = Some s1" "s' = s1\<lparr>m_endCcaBusy := now\<rparr>" "GetState now s' = IDLE"
    using assms(2) by (auto simp: SwitchFromRxAbort_def Option.bind_eq_Some_conv Let_def split: if_splits)
  have "phy_ok now s1" using DoSwitchFromRx_ok [OF assms(1) s1(1)] by blast
  then show ?thesis using s1(2,3) by (simp add: phy_ok_def)
qed

subsection \<open>Reachable states\<close>

text \<open>The states of a PHY from its construction, by transitions and by the passing of time.\<close>

inductive phy_reach :: "ns3_time \<Rightarrow> phy_state \<Rightarrow> bool" where
  reach_init: "phy_reach 0 WifiPhyStateHelper"
| reach_time: "phy_reach now s \<Longrightarrow> now \<le> t \<Longrightarrow> phy_reach t s"
| reach_tx: "phy_reach now s \<Longrightarrow> 0 < d \<Longrightarrow> SwitchToTx now d s = Some s' \<Longrightarrow> phy_reach now s'"
| reach_rx: "phy_reach now s \<Longrightarrow> 0 < d \<Longrightarrow> SwitchToRx now d s = Some s' \<Longrightarrow> phy_reach now s'"
| reach_switching: "phy_reach now s \<Longrightarrow> 0 \<le> d \<Longrightarrow> SwitchToChannelSwitching now d s = Some s' \<Longrightarrow> phy_reach now s'"
| reach_cca: "phy_reach now s \<Longrightarrow> SwitchMaybeToCcaBusy now d ch s = Some s' \<Longrightarrow> phy_reach now s'"
| reach_rx_ok: "phy_reach now s \<Longrightarrow> SwitchFromRxEndOk now s = Some s' \<Longrightarrow> phy_reach now s'"
| reach_rx_error: "phy_reach now s \<Longrightarrow> SwitchFromRxEndError now s = Some s' \<Longrightarrow> phy_reach now s'"
| reach_abort: "phy_reach now s \<Longrightarrow> SwitchFromRxAbort now s = Some s' \<Longrightarrow> phy_reach now s'"
| reach_sleep: "phy_reach now s \<Longrightarrow> SwitchToSleep now s = Some s' \<Longrightarrow> phy_reach now s'"
| reach_wake: "phy_reach now s \<Longrightarrow> SwitchFromSleep now s = Some s' \<Longrightarrow> phy_reach now s'"
| reach_off: "phy_reach now s \<Longrightarrow> SwitchToOff now s = Some s' \<Longrightarrow> phy_reach now s'"
| reach_on: "phy_reach now s \<Longrightarrow> SwitchFromOff now s = Some s' \<Longrightarrow> phy_reach now s'"

lemma phy_reach_ok: "phy_reach now s \<Longrightarrow> phy_ok now s"
proof (induction rule: phy_reach.induct)
  case reach_init
  show ?case by (rule phy_ok_init) simp
next
  case (reach_time now s t)
  then show ?case using phy_ok_later by blast
next
  case (reach_rx now s d s')
  have "leaves_medium (GetState now s)"
    using reach_rx.hyps(3) by (auto simp: SwitchToRx_def leaves_medium_def split: if_splits)
  from SwitchToRx_ok [OF reach_rx.IH reach_rx.hyps(2) this] reach_rx.hyps(3) show ?case by auto
next
  case (reach_rx_ok now s s')
  from DoSwitchFromRx_ok [OF reach_rx_ok.IH] reach_rx_ok.hyps(2) show ?case
    by (auto simp: SwitchFromRxEndOk_def split: if_splits)
next
  case (reach_rx_error now s s')
  from DoSwitchFromRx_ok [OF reach_rx_error.IH] reach_rx_error.hyps(2) show ?case
    by (auto simp: SwitchFromRxEndError_def split: if_splits)
next
  case (reach_tx now s d s')
  then show ?case using SwitchToTx_ok by blast
next
  case (reach_switching now s d s')
  then show ?case using SwitchToChannelSwitching_ok by blast
next
  case (reach_cca now s d ch s')
  then show ?case using SwitchMaybeToCcaBusy_ok by blast
next
  case (reach_abort now s s')
  then show ?case using SwitchFromRxAbort_ok by blast
next
  case (reach_sleep now s s')
  then show ?case using SwitchToSleep_iff(2) by blast
next
  case (reach_wake now s s')
  then show ?case using SwitchFromSleep_ok by blast
next
  case (reach_off now s s')
  then show ?case using SwitchToOff_ok by blast
next
  case (reach_on now s s')
  then show ?case using SwitchFromOff_ok by blast
qed

subsection \<open>Properties\<close>

text \<open>C8: in every reachable state of the PHY at most one of transmission, reception and channel
  switch is in progress, and every logged period other than the announced transmissions and channel
  switches has a duration that is not negative and has ended.\<close>

theorem phy_exclusive:
  assumes "phy_reach now s"
  shows "\<not> (m_endTx s > now \<and> m_endRx s > now) \<and> \<not> (m_endTx s > now \<and> m_endSwitching s > now) \<and>
    \<not> (m_endRx s > now \<and> m_endSwitching s > now) \<and>
    list_all (\<lambda>(start, d, st). 0 \<le> d \<and> (st = TX \<or> st = SWITCHING \<or> start + d \<le> now)) (m_log s)"
  using phy_reach_ok [OF assms] by (auto simp: phy_ok_def log_ok_def list_all_iff)

text \<open>A PHY that transmitted at time 10 for 5 units.\<close>

definition sent_phy :: phy_state where
  "sent_phy = WifiPhyStateHelper\<lparr>m_log := [(0, 10, IDLE), (10, 5, TX)], m_previousStateChangeTime := 10,
     m_endTx := 15, m_startTx := 10\<rparr>"

lemma sent_phy_reach: "phy_reach 10 sent_phy"
proof (rule reach_tx)
  show "phy_reach 10 WifiPhyStateHelper" by (rule reach_time [OF reach_init]) simp
  show "SwitchToTx 10 5 WifiPhyStateHelper = Some sent_phy"
    by (simp add: SwitchToTx_def GetState_def LogPreviousIdleAndCcaBusyStates_def WifiPhyStateHelper_def
        Let_def stateLogger_def sent_phy_def)
qed simp

theorem phy_exclusive_witness:
  "m_endTx sent_phy > 10 \<and> \<not> m_endRx sent_phy > 10 \<and> \<not> m_endSwitching sent_phy > 10"
  using phy_exclusive [OF sent_phy_reach] by (simp add: sent_phy_def WifiPhyStateHelper_def)

text \<open>C9: in a reachable state the PHY can be put to sleep exactly when it is idle or its medium is
  busy; then it sleeps, and waking it restores the state it would have had without sleeping.\<close>

theorem sleep_and_wake:
  assumes "phy_reach now s"
  shows "((\<exists>s'. SwitchToSleep now s = Some s') \<longleftrightarrow> GetState now s = IDLE \<or> GetState now s = CCA_BUSY) \<and>
    (\<forall>s'. SwitchToSleep now s = Some s' \<longrightarrow> GetState now s' = SLEEP \<and>
       (\<forall>t\<ge>now. \<exists>s''. SwitchFromSleep t s' = Some s'' \<and> GetState t s'' = GetState t s))"
proof (intro conjI allI impI)
  note ok = phy_reach_ok [OF assms]
  show "(\<exists>s'. SwitchToSleep now s = Some s') \<longleftrightarrow> GetState now s = IDLE \<or> GetState now s = CCA_BUSY"
    using SwitchToSleep_iff(1) [OF ok] by (simp add: leaves_medium_def)
  fix s' assume s': "SwitchToSleep now s = Some s'"
  show "GetState now s' = SLEEP" using SwitchToSleep_iff(2) [OF ok s'] by blast
  obtain l where l: "LogPreviousIdleAndCcaBusyStates now s = Some (s\<lparr>m_log := m_log s @ l\<rparr>)"
    using Log_ok [OF ok] by blast
  have eq: "s' = s\<lparr>m_log := m_log s @ l, m_previousStateChangeTime := now, m_sleeping := True, m_startSleep := now\<rparr>"
    and st: "\<not> m_isOff s" "\<not> m_sleeping s"
    using s' by (auto simp: SwitchToSleep_def l Let_def GetState_simps split: WifiPhyState.splits if_splits)
  fix t assume "now \<le> t"
  show "\<exists>s''. SwitchFromSleep t s' = Some s'' \<and> GetState t s'' = GetState t s"
    using st by (simp add: SwitchFromSleep_def eq GetState_def stateLogger_def)
qed

theorem sleep_and_wake_witness:
  "\<exists>s'. SwitchToSleep 20 sent_phy = Some s' \<and> GetState 20 s' = SLEEP \<and>
    (\<exists>s''. SwitchFromSleep 30 s' = Some s'' \<and> GetState 30 s'' = IDLE)"
proof -
  have r: "phy_reach 20 sent_phy" by (rule reach_time [OF sent_phy_reach]) simp
  have "GetState 20 sent_phy = IDLE" "GetState 30 sent_phy = IDLE"
    by (simp_all add: GetState_def sent_phy_def WifiPhyStateHelper_def)
  then obtain s' where s': "SwitchToSleep 20 sent_phy = Some s'"
    using sleep_and_wake [OF r] by blast
  with sleep_and_wake [OF r] have "GetState 20 s' = SLEEP"
    and all: "\<forall>t\<ge>20. \<exists>s''. SwitchFromSleep t s' = Some s'' \<and> GetState t s'' = GetState t sent_phy"
    by blast+
  moreover have "\<exists>s''. SwitchFromSleep 30 s' = Some s'' \<and> GetState 30 s'' = GetState 30 sent_phy"
    using all by simp
  ultimately show ?thesis using s' \<open>GetState 30 sent_phy = IDLE\<close> by auto
qed

text \<open>C10: the delay after which \<open>SetSleepMode\<close> tries again is enough: unless something else happens,
  the PHY can then be put to sleep, so a sleep is postponed once.\<close>

theorem postponed_sleep_succeeds:
  assumes "phy_reach now s" and "\<not> m_isOff s" and "\<not> m_sleeping s"
  shows "\<exists>s'. SwitchToSleep (now + GetDelayUntilIdle now s) s = Some s' \<and>
    GetState (now + GetDelayUntilIdle now s) s' = SLEEP"
proof -
  have ok: "phy_ok (now + GetDelayUntilIdle now s) s"
    using phy_ok_later [OF phy_reach_ok [OF assms(1)]] GetDelayUntilIdle_nonneg by simp
  from GetDelayUntilIdle_enough [OF phy_reach_ok [OF assms(1)] assms(2,3)]
  obtain s' where "SwitchToSleep (now + GetDelayUntilIdle now s) s = Some s'"
    using SwitchToSleep_iff(1) [OF ok] by blast
  with SwitchToSleep_iff(2) [OF ok] show ?thesis by blast
qed

theorem postponed_sleep_succeeds_witness:
  "GetState 10 sent_phy = TX \<and> SwitchToSleep 10 sent_phy = None \<and>
   (\<exists>s'. SwitchToSleep 15 sent_phy = Some s' \<and> GetState 15 s' = SLEEP)"
proof -
  have st: "\<not> m_isOff sent_phy" "\<not> m_sleeping sent_phy" and tx: "GetState 10 sent_phy = TX"
    by (simp_all add: GetState_def sent_phy_def WifiPhyStateHelper_def)
  moreover have "GetDelayUntilIdle 10 sent_phy = 5"
    using tx by (simp add: GetDelayUntilIdle_def sent_phy_def WifiPhyStateHelper_def)
  ultimately show ?thesis
    using postponed_sleep_succeeds [OF sent_phy_reach st] by (simp add: SwitchToSleep_def)
qed

end
