(* ===== verification/Twt.thy ===== *)
theory Twt
  imports Simulator_Inv Phy_State "HOL-Library.Monad_Syntax"
begin

text \<open>
  The Target Wake Time additions to the Wi-Fi module: \<open>WifiTwtAgreement\<close>, the TWT part of
  \<open>WifiRemoteStationManager\<close>, \<open>WifiMac::SetTwtSchedule\<close> and the sleep control in
  \<open>StaWifiMac\<close> and \<open>WifiPhy\<close>. One node is the user part of the simulator state; what it
  schedules is a \<open>twt_call\<close>. An assertion that fails, \<open>NS_ABORT_MSG\<close> and the use of an
  \<open>end()\<close> iterator are \<open>None\<close>.
\<close>

type_synonym mac48 = "48 word"
type_synonym flow_id = "8 word"

subsection \<open>WifiTwtAgreement\<close>

record wifi_twt_agreement =
  m_flowId :: flow_id
  m_peerMacAddress :: mac48
  m_isRequestingNode :: bool
  m_isImplicitAgreement :: bool
  m_flowType :: bool
  m_isTriggerBasedAgreement :: bool
  m_isIndividualAgreement :: bool
  m_twtChannel :: "16 word"
  m_wakeInterval :: "64 word"
  m_nominalWakeDuration :: "64 word"
  m_nextTwt :: "64 word"
  m_isSpActiveNow :: bool
  m_isAgreementSuspended :: bool
  m_nextServicePeriodStartEvent :: event_id
  m_nextServicePeriodEndEvent :: event_id

definition WifiTwtAgreement ::
  "flow_id \<Rightarrow> mac48 \<Rightarrow> bool \<Rightarrow> bool \<Rightarrow> bool \<Rightarrow> bool \<Rightarrow> bool \<Rightarrow> 16 word \<Rightarrow>
   64 word \<Rightarrow> 64 word \<Rightarrow> 64 word \<Rightarrow> bool \<Rightarrow> bool \<Rightarrow> wifi_twt_agreement" where
  "WifiTwtAgreement flowId peer isRequestingNode isImplicit flowType isTriggerBased isIndividual
     twtChannel wakeInterval nominalWakeDuration nextTwt isSpActiveNow isAgreementSuspended =
     \<lparr>m_flowId = flowId, m_peerMacAddress = peer, m_isRequestingNode = isRequestingNode,
      m_isImplicitAgreement = isImplicit, m_flowType = flowType,
      m_isTriggerBasedAgreement = isTriggerBased, m_isIndividualAgreement = isIndividual,
      m_twtChannel = twtChannel, m_wakeInterval = wakeInterval,
      m_nominalWakeDuration = nominalWakeDuration, m_nextTwt = nextTwt,
      m_isSpActiveNow = isSpActiveNow, m_isAgreementSuspended = isAgreementSuspended,
      m_nextServicePeriodStartEvent = EventId, m_nextServicePeriodEndEvent = EventId\<rparr>"

subsection \<open>The node\<close>

datatype TypeOfStation = STA | AP | ADHOC_STA | MESH | OCB

datatype AcIndex = AC_BE | AC_BK | AC_VI | AC_VO

text \<open>A \<open>std::map\<close> in the order of \<open>operator<\<close> on access categories, in which background is least.\<close>

definition wifiAcList :: "(AcIndex \<times> (8 word \<times> 8 word)) list" where
  "wifiAcList = [(AC_BK, (1, 2)), (AC_BE, (0, 3)), (AC_VI, (4, 5)), (AC_VO, (6, 7))]"

text \<open>A container queue of the MAC queue scheduler, the receiver address and the TID in its identifier.\<close>

datatype WifiContainerQueueType = WIFI_CTL_QUEUE | WIFI_MGT_QUEUE | WIFI_QOSDATA_QUEUE "8 word"

type_synonym queue_link = "AcIndex \<times> WifiContainerQueueType \<times> mac48 \<times> 8 word"

record wifi_station_state =
  m_address :: mac48
  m_mleCommonInfo :: "mac48 option"
  m_isInPsMode :: bool
  m_twtAgreementMap :: "(flow_id \<times> wifi_twt_agreement) list"
  m_twtAgreementCount :: "32 word"

record wifi_phy =
  m_phyState :: phy_state
  m_endPhyRxEvent :: event_id
  m_powerRestricted :: bool
  m_channelAccessRequested :: bool
  m_delayUntilCcaEnd :: ns3_time

text \<open>
  \<open>m_delayUntilCcaEnd\<close> is what the interference helper (not modelled) reports;
  \<open>m_accessRequests\<close> records the calls of \<open>Txop::StartAccessIfNeeded\<close>; \<open>m_blockedPs\<close> are the
  queues and links blocked with the reason \<open>POWER_SAVE_MODE\<close>; \<open>m_beaconEvent\<close> is the beacon
  event of an AP and \<open>m_nextExpectedBeaconGenerationEvent\<close> of a station.
\<close>

record twt_node =
  m_typeOfStation :: TypeOfStation
  m_heSupported :: bool
  m_links :: "(8 word \<times> wifi_phy) list"
  m_states :: "mac48 \<Rightarrow> wifi_station_state option"
  m_blockedPs :: "queue_link list"
  m_txTimeoutEvent :: event_id
  m_txTimerEnd :: "64 word"
  m_navEnd :: "64 word"
  m_beaconEvent :: event_id
  m_accessRequests :: "(AcIndex \<times> 8 word) list"

datatype twt_call =
    BeginTwtSp flow_id mac48 "64 word" "64 word"
  | EndTwtSp flow_id mac48 "64 word" "64 word"
  | SetPhySleepStateCall bool
  | SetSleepModeCall "8 word"
  | StartAccessIfNeeded AcIndex "8 word"
  | NextExpectedBeaconGeneration

type_synonym 'q twt_sim = "('q, twt_call, twt_node) sim_scheme"

abbreviation nd :: "'q twt_sim \<Rightarrow> twt_node" where
  "nd s \<equiv> sim.more s"

definition GetNLinks :: "'q twt_sim \<Rightarrow> nat" where
  "GetNLinks s = length (m_links (nd s))"

subsection \<open>The states of the remote stations\<close>

definition brand_new :: "mac48 \<Rightarrow> wifi_station_state" where
  "brand_new a = \<lparr>m_address = a, m_mleCommonInfo = None, m_isInPsMode = False,
                  m_twtAgreementMap = [], m_twtAgreementCount = 0\<rparr>"

text \<open>\<open>LookupState\<close> returns the state of a station, made on the first use; \<open>upd_station\<close> is
  an assignment through the pointer it returns.\<close>

definition station :: "mac48 \<Rightarrow> 'q twt_sim \<Rightarrow> wifi_station_state" where
  "station a s = (case m_states (nd s) a of Some st \<Rightarrow> st | None \<Rightarrow> brand_new a)"

definition LookupState :: "mac48 \<Rightarrow> 'q twt_sim \<Rightarrow> wifi_station_state \<times> 'q twt_sim" where
  "LookupState a s = (station a s,
     (case m_states (nd s) a of Some st \<Rightarrow> s
      | None \<Rightarrow> sim.more_update (\<lambda>n. n\<lparr>m_states := (m_states n)(a \<mapsto> brand_new a)\<rparr>) s))"

definition upd_station ::
  "mac48 \<Rightarrow> (wifi_station_state \<Rightarrow> wifi_station_state) \<Rightarrow> 'q twt_sim \<Rightarrow> 'q twt_sim" where
  "upd_station a f s = (let (st, s1) = LookupState a s
     in sim.more_update (\<lambda>n. n\<lparr>m_states := (m_states n)(a \<mapsto> f st)\<rparr>) s1)"

abbreviation lt_flow :: "flow_id \<Rightarrow> flow_id \<Rightarrow> bool" where
  "lt_flow \<equiv> (<)"

definition find_agreement :: "mac48 \<Rightarrow> flow_id \<Rightarrow> 'q twt_sim \<Rightarrow> wifi_twt_agreement option" where
  "find_agreement a f s = map_option snd (smap_find lt_flow f (m_twtAgreementMap (station a s)))"

text \<open>\<open>m_twtAgreementMap.find(flowId)->second.member = value\<close>\<close>

definition upd_agreement ::
  "mac48 \<Rightarrow> flow_id \<Rightarrow> (wifi_twt_agreement \<Rightarrow> wifi_twt_agreement) \<Rightarrow> 'q twt_sim \<Rightarrow> 'q twt_sim option" where
  "upd_agreement a f g s =
     (case find_agreement a f s of None \<Rightarrow> None
      | Some ag \<Rightarrow> Some (upd_station a
          (\<lambda>st. st\<lparr>m_twtAgreementMap := smap_assign lt_flow f (g ag) (m_twtAgreementMap st)\<rparr>) s))"

definition GetMldAddress :: "mac48 \<Rightarrow> 'q twt_sim \<Rightarrow> mac48 option" where
  "GetMldAddress a s = Option.bind (m_states (nd s) a) m_mleCommonInfo"

definition GetAffiliatedStaAddress :: "mac48 \<Rightarrow> 'q twt_sim \<Rightarrow> mac48 option" where
  "GetAffiliatedStaAddress mld s =
     (case m_states (nd s) mld of None \<Rightarrow> None
      | Some st \<Rightarrow> (case m_mleCommonInfo st of None \<Rightarrow> None | Some _ \<Rightarrow> Some (m_address st)))"

subsection \<open>Blocking the queues of a peer\<close>

definition queues_of ::
  "AcIndex \<Rightarrow> WifiContainerQueueType list \<Rightarrow> mac48 \<Rightarrow> 8 word \<Rightarrow> queue_link list" where
  "queues_of ac types rxAddress linkId = map (\<lambda>t. (ac, t, rxAddress, linkId)) types"

definition BlockQueues :: "queue_link list \<Rightarrow> 'q twt_sim \<Rightarrow> 'q twt_sim" where
  "BlockQueues qs s = sim.more_update (\<lambda>n. n\<lparr>m_blockedPs := fold List.insert qs (m_blockedPs n)\<rparr>) s"

definition UnblockQueues :: "queue_link list \<Rightarrow> 'q twt_sim \<Rightarrow> 'q twt_sim" where
  "UnblockQueues qs s = sim.more_update (\<lambda>n. n\<lparr>m_blockedPs := filter (\<lambda>q. q \<notin> set qs) (m_blockedPs n)\<rparr>) s"

definition skip_link :: "mac48 \<Rightarrow> 'q twt_sim \<Rightarrow> mac48 \<Rightarrow> bool" where
  "skip_link address s linkAddr \<longleftrightarrow> GetMldAddress address s = Some address \<and> linkAddr = address"

definition link_address :: "mac48 \<Rightarrow> 'q twt_sim \<Rightarrow> mac48" where
  "link_address address s =
     (case GetAffiliatedStaAddress address s of Some a \<Rightarrow> a | None \<Rightarrow> address)"

definition BlockUnicastTxOnLinks :: "mac48 \<Rightarrow> 8 word list \<Rightarrow> 'q twt_sim \<Rightarrow> 'q twt_sim" where
  "BlockUnicastTxOnLinks address linkIds s =
     fold (\<lambda>linkId s.
       let linkAddr = link_address address s in
       if skip_link address s linkAddr then s
       else fold (\<lambda>(ac, lowTid, highTid) s.
              BlockQueues (queues_of ac [WIFI_MGT_QUEUE, WIFI_CTL_QUEUE] linkAddr linkId)
                (BlockQueues (queues_of ac [WIFI_QOSDATA_QUEUE lowTid, WIFI_QOSDATA_QUEUE highTid,
                                            WIFI_CTL_QUEUE] address linkId) s))
            wifiAcList s) linkIds s"

definition UnblockUnicastTxOnLinks ::
  "'q scheduler \<Rightarrow> mac48 \<Rightarrow> 8 word list \<Rightarrow> 'q twt_sim \<Rightarrow> 'q twt_sim option" where
  "UnblockUnicastTxOnLinks sch address linkIds s =
     for_each (\<lambda>linkId s.
       let linkAddr = link_address address s in
       if skip_link address s linkAddr then Some s
       else for_each (\<lambda>(ac, lowTid, highTid) s.
              map_option snd (ScheduleNowCall sch (StartAccessIfNeeded ac linkId)
                (UnblockQueues (queues_of ac [WIFI_MGT_QUEUE, WIFI_CTL_QUEUE] linkAddr linkId)
                  (UnblockQueues (queues_of ac [WIFI_QOSDATA_QUEUE lowTid, WIFI_QOSDATA_QUEUE highTid,
                                                WIFI_CTL_QUEUE] address linkId) s))))
            wifiAcList s) linkIds s"

subsection \<open>Sleep control\<close>

definition now_time :: "'q twt_sim \<Rightarrow> ns3_time" where
  "now_time s = sint (m_currentTs s)"

definition upd_phy :: "8 word \<Rightarrow> (wifi_phy \<Rightarrow> wifi_phy) \<Rightarrow> 'q twt_sim \<Rightarrow> 'q twt_sim" where
  "upd_phy l f s = sim.more_update
     (\<lambda>n. n\<lparr>m_links := map (\<lambda>(i, p). if i = l then (i, f p) else (i, p)) (m_links n)\<rparr>) s"

definition phy_of :: "8 word \<Rightarrow> 'q twt_sim \<Rightarrow> wifi_phy option" where
  "phy_of l s = map_of (m_links (nd s)) l"

definition upd_phy_state ::
  "8 word \<Rightarrow> (phy_state \<Rightarrow> phy_state option) \<Rightarrow> 'q twt_sim \<Rightarrow> 'q twt_sim option" where
  "upd_phy_state l f s =
     (case phy_of l s of None \<Rightarrow> None
      | Some p \<Rightarrow> map_option (\<lambda>ps. upd_phy l (\<lambda>p. p\<lparr>m_phyState := ps\<rparr>) s) (f (m_phyState p)))"

text \<open>\<open>AbortCurrentReception(SLEEPING)\<close>: the reception of the header is dropped, the state
  helper is not told.\<close>

definition AbortCurrentReception_SLEEPING :: "8 word \<Rightarrow> 'q twt_sim \<Rightarrow> 'q twt_sim" where
  "AbortCurrentReception_SLEEPING l s =
     (case phy_of l s of None \<Rightarrow> s | Some p \<Rightarrow> Cancel (m_endPhyRxEvent p) s)"

definition SetSleepMode :: "'q scheduler \<Rightarrow> 8 word \<Rightarrow> 'q twt_sim \<Rightarrow> 'q twt_sim option" where
  "SetSleepMode sch l s0 =
     (case phy_of l s0 of None \<Rightarrow> None
      | Some p \<Rightarrow>
        let s1 = upd_phy l (\<lambda>p. p\<lparr>m_powerRestricted := False, m_channelAccessRequested := False\<rparr>) s0;
            s = (if IsRunning (m_endPhyRxEvent p) s1 then AbortCurrentReception_SLEEPING l s1 else s1);
            now = now_time s;
            postpone = map_option snd (ScheduleCall sch
              (word_of_int (GetDelayUntilIdle now (m_phyState p))) (SetSleepModeCall l) s)
        in case GetState now (m_phyState p) of
             TX \<Rightarrow> postpone
           | RX \<Rightarrow> postpone
           | SWITCHING \<Rightarrow> postpone
           | CCA_BUSY \<Rightarrow> upd_phy_state l (SwitchToSleep now) s
           | IDLE \<Rightarrow> upd_phy_state l (SwitchToSleep now) s
           | SLEEP \<Rightarrow> Some s
           | OFF \<Rightarrow> None)"

definition PhyEntity_SwitchMaybeToCcaBusy :: "8 word \<Rightarrow> 'q twt_sim \<Rightarrow> 'q twt_sim option" where
  "PhyEntity_SwitchMaybeToCcaBusy l s =
     (case phy_of l s of None \<Rightarrow> None
      | Some p \<Rightarrow>
        if m_delayUntilCcaEnd p > 0
        then upd_phy_state l (SwitchMaybeToCcaBusy (now_time s) (m_delayUntilCcaEnd p) WIFI_CHANLIST_PRIMARY) s
        else Some s)"

definition ResumeFromSleep :: "8 word \<Rightarrow> 'q twt_sim \<Rightarrow> 'q twt_sim option" where
  "ResumeFromSleep l s =
     (case phy_of l s of None \<Rightarrow> None
      | Some p \<Rightarrow>
        (case GetState (now_time s) (m_phyState p) of
           SLEEP \<Rightarrow> Option.bind (upd_phy_state l (SwitchFromSleep (now_time s)) s)
                      (PhyEntity_SwitchMaybeToCcaBusy l)
         | OFF \<Rightarrow> None
         | _ \<Rightarrow> Some s))"

definition WifiTxTimer_IsRunning :: "'q twt_sim \<Rightarrow> bool" where
  "WifiTxTimer_IsRunning s = IsRunning (m_txTimeoutEvent (nd s)) s"

definition WifiTxTimer_GetDelayLeft :: "'q twt_sim \<Rightarrow> 64 word" where
  "WifiTxTimer_GetDelayLeft s = m_txTimerEnd (nd s) - Now s"

definition GetNavDurationLeft :: "'q twt_sim \<Rightarrow> 64 word" where
  "GetNavDurationLeft s =
     (if sint (m_navEnd (nd s)) > sint (Now s) then m_navEnd (nd s) - Now s else 0)"

definition SetPhySleepState :: "'q scheduler \<Rightarrow> bool \<Rightarrow> 'q twt_sim \<Rightarrow> 'q twt_sim option" where
  "SetPhySleepState sch enable s =
     (if WifiTxTimer_IsRunning s
      then map_option snd (ScheduleCall sch (WifiTxTimer_GetDelayLeft s) (SetPhySleepStateCall enable) s)
      else if sint (GetNavDurationLeft s) > 0
      then map_option snd (ScheduleCall sch (GetNavDurationLeft s) (SetPhySleepStateCall enable) s)
      else for_each (\<lambda>(l, _). if enable then SetSleepMode sch l else ResumeFromSleep l) (m_links (nd s)) s)"

subsection \<open>Service periods\<close>

definition first_link :: "'q twt_sim \<Rightarrow> 8 word option" where
  "first_link s = (if GetNLinks s \<noteq> 1 then None else Some (fst (hd (m_links (nd s)))))"

definition sleep_if_STA :: "'q scheduler \<Rightarrow> bool \<Rightarrow> 'q twt_sim \<Rightarrow> 'q twt_sim option" where
  "sleep_if_STA sch enable s =
     (if m_typeOfStation (nd s) = STA then SetPhySleepState sch enable s else Some s)"

definition BeginTwtSpNow ::
  "'q scheduler \<Rightarrow> flow_id \<Rightarrow> mac48 \<Rightarrow> 64 word \<Rightarrow> 64 word \<Rightarrow> 'q twt_sim \<Rightarrow> 'q twt_sim option" where
  "BeginTwtSpNow sch flowId peer twtWakeInterval twtNominalWakeDuration s =
     (if \<not> flowId < 8 then None
      else if find_agreement peer flowId s = None then None
      else do {
        s \<leftarrow> upd_agreement peer flowId (m_isSpActiveNow_update (\<lambda>_. True)) s;
        s \<leftarrow> sleep_if_STA sch False s;
        (i, s) \<leftarrow> ScheduleCall sch twtWakeInterval
                    (BeginTwtSp flowId peer twtWakeInterval twtNominalWakeDuration) s;
        s \<leftarrow> upd_agreement peer flowId (m_nextServicePeriodStartEvent_update (\<lambda>_. i)) s;
        linkIdToEnable \<leftarrow> first_link s;
        s \<leftarrow> UnblockUnicastTxOnLinks sch peer [linkIdToEnable] s;
        (j, s) \<leftarrow> ScheduleCall sch twtNominalWakeDuration
                    (EndTwtSp flowId peer twtWakeInterval twtNominalWakeDuration) s;
        upd_agreement peer flowId (m_nextServicePeriodEndEvent_update (\<lambda>_. j)) s
      })"

definition EndTwtSpNow ::
  "'q scheduler \<Rightarrow> flow_id \<Rightarrow> mac48 \<Rightarrow> 'q twt_sim \<Rightarrow> 'q twt_sim option" where
  "EndTwtSpNow sch flowId peer s =
     do {
       s \<leftarrow> upd_agreement peer flowId (m_isSpActiveNow_update (\<lambda>_. False)) s;
       linkIdToDisable \<leftarrow> first_link s;
       sleep_if_STA sch True (BlockUnicastTxOnLinks peer [linkIdToDisable] s)
     }"

subsection \<open>Agreements\<close>

definition CreateTwtAgreement ::
  "'q scheduler \<Rightarrow> flow_id \<Rightarrow> mac48 \<Rightarrow> bool \<Rightarrow> bool \<Rightarrow> bool \<Rightarrow> bool \<Rightarrow> bool \<Rightarrow> 16 word \<Rightarrow>
   64 word \<Rightarrow> 64 word \<Rightarrow> 64 word \<Rightarrow> 64 word \<Rightarrow> 'q twt_sim \<Rightarrow> 'q twt_sim option" where
  "CreateTwtAgreement sch flowId peer isRequestingNode isImplicit flowType isTriggerBased isIndividual
     twtChannel wakeInterval nominalWakeDuration nextTwt timeLeftTillNextBeacon s =
     (if \<not> flowId < 8 \<or> \<not> isIndividual then None
      else if (case m_typeOfStation (nd s) of
                 AP \<Rightarrow> isRequestingNode
               | STA \<Rightarrow> \<not> isRequestingNode
               | _ \<Rightarrow> True) then None
      else
        let agreement = WifiTwtAgreement flowId peer isRequestingNode isImplicit flowType isTriggerBased
              isIndividual twtChannel wakeInterval nominalWakeDuration nextTwt False False;
            s1 = (case find_agreement peer flowId s of
                    None \<Rightarrow> s
                  | Some old \<Rightarrow>
                      upd_station peer (\<lambda>st. st\<lparr>
                          m_twtAgreementMap := smap_erase lt_flow flowId (m_twtAgreementMap st),
                          m_twtAgreementCount := m_twtAgreementCount st - 1\<rparr>)
                        (Cancel (m_nextServicePeriodEndEvent old)
                          (Cancel (m_nextServicePeriodStartEvent old) s)));
            s2 = upd_station peer (\<lambda>st. st\<lparr>
                   m_twtAgreementMap := fst (smap_insert lt_flow flowId agreement (m_twtAgreementMap st)),
                   m_twtAgreementCount := m_twtAgreementCount st + 1\<rparr>) s1
        in do {
          (i, s) \<leftarrow> ScheduleCall sch (nextTwt + timeLeftTillNextBeacon)
                      (BeginTwtSp flowId peer wakeInterval nominalWakeDuration) s2;
          upd_agreement peer flowId (m_nextServicePeriodStartEvent_update (\<lambda>_. i)) s
        })"

definition GetTwtAgreementCount :: "mac48 \<Rightarrow> 'q twt_sim \<Rightarrow> 8 word" where
  "GetTwtAgreementCount peer s = ucast (m_twtAgreementCount (station peer s))"

definition GetTimeTillEndOfOngoingTwtSPs :: "mac48 \<Rightarrow> 'q twt_sim \<Rightarrow> 64 word option" where
  "GetTimeTillEndOfOngoingTwtSPs peer s =
     (if \<not> GetTwtAgreementCount peer s > 0 then None
      else Some (fold (\<lambda>(_, ag) t.
             if IsRunning (m_nextServicePeriodEndEvent ag) s
             then let d = GetDelayLeft (m_nextServicePeriodEndEvent ag) s
                  in if sint d > sint t then d else t
             else t) (m_twtAgreementMap (station peer s)) 0))"

text \<open>
  The time a node may use for a frame exchange (\<open>HeFrameExchangeManager::StartFrameExchange\<close>):
  \<open>to\<close> is the receiver of the next MPDU when it is a unicast QoS data frame.
\<close>

definition clampAvailableTime :: "mac48 option \<Rightarrow> 64 word \<Rightarrow> 'q twt_sim \<Rightarrow> 64 word option" where
  "clampAvailableTime to availableTime s =
     (case to of None \<Rightarrow> Some availableTime
      | Some recipient \<Rightarrow>
          if GetTwtAgreementCount recipient s > 0
          then map_option (\<lambda>endSpTime.
                 if sint availableTime > 0
                 then (if sint endSpTime < sint availableTime then endSpTime else availableTime)
                 else endSpTime) (GetTimeTillEndOfOngoingTwtSPs recipient s)
          else Some availableTime)"

definition GetTimeTillNextBeacon :: "'q twt_sim \<Rightarrow> 64 word option" where
  "GetTimeTillNextBeacon s =
     (case m_typeOfStation (nd s) of
        STA \<Rightarrow> if GetNLinks s \<noteq> 1 \<or> \<not> IsRunning (m_beaconEvent (nd s)) s then None
               else Some (GetDelayLeft (m_beaconEvent (nd s)) s)
      | AP \<Rightarrow> if GetNLinks s \<noteq> 1 then None else Some (GetDelayLeft (m_beaconEvent (nd s)) s)
      | _ \<Rightarrow> Some 0)"

definition SetTwtSchedule ::
  "'q scheduler \<Rightarrow> flow_id \<Rightarrow> mac48 \<Rightarrow> bool \<Rightarrow> bool \<Rightarrow> bool \<Rightarrow> bool \<Rightarrow> bool \<Rightarrow> 16 word \<Rightarrow>
   64 word \<Rightarrow> 64 word \<Rightarrow> 64 word \<Rightarrow> 'q twt_sim \<Rightarrow> 'q twt_sim option" where
  "SetTwtSchedule sch flowId peer isRequestingNode isImplicit flowType isTriggerBased isIndividual
     twtChannel wakeInterval nominalWakeDuration nextTwt s =
     (if \<not> m_heSupported (nd s) then None
      else if sint wakeInterval < sint nominalWakeDuration then None
      else if GetNLinks s \<noteq> 1 then None
      else do {
        timeLeftTillNextBeacon \<leftarrow> GetTimeTillNextBeacon s;
        CreateTwtAgreement sch flowId peer isRequestingNode isImplicit flowType isTriggerBased
          isIndividual twtChannel wakeInterval nominalWakeDuration nextTwt timeLeftTillNextBeacon s
      })"

subsection \<open>The events of the node\<close>

definition twt_notify :: "'q scheduler \<Rightarrow> twt_call \<Rightarrow> 'q twt_sim \<Rightarrow> 'q twt_sim option" where
  "twt_notify sch c s =
     (case c of
        BeginTwtSp f a w d \<Rightarrow> BeginTwtSpNow sch f a w d s
      | EndTwtSp f a w d \<Rightarrow> EndTwtSpNow sch f a s
      | SetPhySleepStateCall enable \<Rightarrow> SetPhySleepState sch enable s
      | SetSleepModeCall l \<Rightarrow> SetSleepMode sch l s
      | StartAccessIfNeeded ac l \<Rightarrow>
          Some (sim.more_update (\<lambda>n. n\<lparr>m_accessRequests := m_accessRequests n @ [(ac, l)]\<rparr>) s)
      | NextExpectedBeaconGeneration \<Rightarrow> Some s)"

subsection \<open>Taking the operations apart\<close>

lemma BeginTwtSpNowE:
  assumes "BeginTwtSpNow sch f a w d s = Some s'"
  obtains ag s1 s2 i s3 s4 l s5 j s6 where
    "f < 8" "find_agreement a f s = Some ag"
    "upd_agreement a f (m_isSpActiveNow_update (\<lambda>_. True)) s = Some s1"
    "sleep_if_STA sch False s1 = Some s2"
    "ScheduleCall sch w (BeginTwtSp f a w d) s2 = Some (i, s3)"
    "upd_agreement a f (m_nextServicePeriodStartEvent_update (\<lambda>_. i)) s3 = Some s4"
    "first_link s4 = Some l"
    "UnblockUnicastTxOnLinks sch a [l] s4 = Some s5"
    "ScheduleCall sch d (EndTwtSp f a w d) s5 = Some (j, s6)"
    "upd_agreement a f (m_nextServicePeriodEndEvent_update (\<lambda>_. j)) s6 = Some s'"
  using assms by (auto simp: BeginTwtSpNow_def Option.bind_eq_Some_conv split: if_split_asm)

lemma EndTwtSpNowE:
  assumes "EndTwtSpNow sch f a s = Some s'"
  obtains s1 l where
    "upd_agreement a f (m_isSpActiveNow_update (\<lambda>_. False)) s = Some s1"
    "first_link s1 = Some l"
    "sleep_if_STA sch True (BlockUnicastTxOnLinks a [l] s1) = Some s'"
  using assms by (auto simp: EndTwtSpNow_def Option.bind_eq_Some_conv)

end
