(* ===== verification/Twt_Sim.thy ===== *)
theory Twt_Sim
  imports Twt
begin

text \<open>
  The TWT node as a client of the simulator: every event it schedules uses the simulator through
  its public operations only, so the facts of the locale \<open>simulation\<close> hold for a node that runs
  on any removable event queue; instances are given for the map and the priority queue scheduler.
\<close>

subsection \<open>Chains of client calls with a bound on the identifiers they use\<close>

definition calls ::
  "'q scheduler \<Rightarrow> ('q \<Rightarrow> event list) \<Rightarrow> nat \<Rightarrow> 'q twt_sim \<Rightarrow> 'q twt_sim \<Rightarrow> bool" where
  "calls sch evs n s s' \<longleftrightarrow> (client_call sch evs)\<^sup>*\<^sup>* s s' \<and>
     unat (sim_uid s') \<le> unat (sim_uid s) + n \<and> m_currentTs s' = m_currentTs s \<and>
     length (m_links (nd s')) = length (m_links (nd s))"

definition enough :: "nat \<Rightarrow> 'q twt_sim \<Rightarrow> bool" where
  "enough n s \<longleftrightarrow> unat (sim_uid s) + n < 2 ^ 32 \<and> 0 \<le> sint (m_currentTs s)"

lemma calls_refl: "calls sch evs n s s"
  by (simp add: calls_def)

lemma calls_trans: "calls sch evs n s s1 \<Longrightarrow> calls sch evs m s1 s2 \<Longrightarrow> calls sch evs (n + m) s s2"
  by (auto simp: calls_def)

lemma calls_mono: "calls sch evs n s s1 \<Longrightarrow> n \<le> m \<Longrightarrow> calls sch evs m s s1"
  by (auto simp: calls_def)

lemma enough_calls: "enough (n + m) s \<Longrightarrow> calls sch evs n s s1 \<Longrightarrow> enough m s1"
  by (auto simp: enough_def calls_def)

lemma enough_mono: "enough n s \<Longrightarrow> m \<le> n \<Longrightarrow> enough m s"
  by (auto simp: enough_def)

lemma sint_nonneg_unat: "0 \<le> sint (w :: 64 word) \<longleftrightarrow> unat w < 2 ^ 63"
proof -
  have u: "0 \<le> uint w" "uint w < 2 ^ 64"
    using uint_lt2p [of w] by simp_all
  have "0 \<le> sint w \<longleftrightarrow> even (uint w div 2 ^ 63)"
    by (simp add: sint_uint bit_iff_odd)
  also have "\<dots> \<longleftrightarrow> uint w < 2 ^ 63"
  proof -
    have "even x \<longleftrightarrow> x = 0" if "x < 2" "0 \<le> x" for x :: int
      using that by presburger
    then have "even (uint w div 2 ^ 63) \<longleftrightarrow> uint w div 2 ^ 63 = 0"
      using u by (simp add: pos_imp_zdiv_nonneg_iff)
    moreover have "x div 2 ^ 63 = 0 \<longleftrightarrow> x < 2 ^ 63" if "0 \<le> x" for x :: int
      using that pos_imp_zdiv_pos_iff [of "2 ^ 63" x] pos_imp_zdiv_nonneg_iff [of "2 ^ 63" x]
      by (simp add: order.order_iff_strict) linarith
    ultimately show ?thesis using u by blast
  qed
  also have "\<dots> \<longleftrightarrow> unat w < 2 ^ 63"
  proof -
    have "uint w = int (unat w)" and "(2 :: int) ^ 63 = int (2 ^ 63)" by simp_all
    then show ?thesis by (simp only: of_nat_less_iff)
  qed
  finally show ?thesis .
qed

lemma time_room_nonneg:
  "0 \<le> sint (m_currentTs s) \<Longrightarrow> 0 \<le> sint d \<Longrightarrow> time_room d s"
  by (simp add: time_room_def sint_nonneg_unat)

lemma calls_user: "length (m_links (f (nd s))) = length (m_links (nd s)) \<Longrightarrow>
    calls sch evs n s (sim.more_update f s)"
  using call_user [of sch evs s f] by (auto simp: calls_def)

lemma calls_Cancel: "calls sch evs n s (Cancel i s)"
  using call_cancel [of sch evs s i]
  by (auto simp: calls_def Cancel_def EventImpl_Cancel_def split: option.splits)

lemma ScheduleCall_calls:
  assumes "ScheduleCall sch d w s = Some (i, s')" and "enough 1 s"
  shows "calls sch evs 1 s s'"
proof -
  obtain p s1 where p: "MakeEvent w s = (p, s1)" "Schedule sch d p s1 = Some (i, s')"
    using assms(1) by (auto simp: ScheduleCall_def split: prod.splits)
  have s1: "impls s1 p \<noteq> None" "sim_uid s1 = sim_uid s" "m_currentTs s1 = m_currentTs s"
    using p(1) by (auto simp: MakeEvent_def)
  have "client_call sch evs s s1"
    using p(1) by (rule call_new)
  moreover have "client_call sch evs s1 s'"
    using p(2) s1 assms(2)
    by (intro call_schedule) (auto simp: uid_room_def enough_def intro: time_room_nonneg)
  ultimately have "(client_call sch evs)\<^sup>*\<^sup>* s s'" by simp
  moreover have "unat (sim_uid s') \<le> unat (sim_uid s) + 1"
    using p(2) s1 by (auto simp: Schedule_def Let_def unat_word_ariths split: if_splits)
  ultimately show ?thesis
    using p by (auto simp: calls_def Schedule_def Let_def MakeEvent_def split: if_splits)
qed

lemma ScheduleNowCall_calls:
  assumes "ScheduleNowCall sch w s = Some (i, s')" and "enough 1 s"
  shows "calls sch evs 1 s s'"
proof -
  have "ScheduleCall sch 0 w s = Some (i, s')"
    using assms(1) by (auto simp: ScheduleNowCall_def ScheduleNow_def ScheduleCall_def
        split: prod.splits if_splits)
  then show ?thesis using assms(2) by (rule ScheduleCall_calls)
qed

lemma for_each_calls:
  assumes "\<And>x s s'. x \<in> set xs \<Longrightarrow> f x s = Some s' \<Longrightarrow> enough k s \<Longrightarrow> calls sch evs k s s'"
  shows "for_each f xs s = Some s' \<Longrightarrow> enough (k * length xs) s \<Longrightarrow> calls sch evs (k * length xs) s s'"
  using assms
proof (induction xs arbitrary: s)
  case Nil
  then show ?case by (simp add: calls_refl)
next
  case (Cons x xs)
  obtain s1 where s1: "f x s = Some s1" "for_each f xs s1 = Some s'"
    using Cons.prems(1) by (auto simp: Option.bind_eq_Some_conv)
  have en: "enough (k + k * length xs) s" using Cons.prems(2) by simp
  have c1: "calls sch evs k s s1"
    using Cons.prems(3) [OF _ s1(1)] enough_mono [OF en] by simp
  have "calls sch evs (k * length xs) s1 s'"
    by (rule Cons.IH [OF s1(2) enough_calls [OF en c1]]) (rule Cons.prems(3), simp_all)
  with c1 show ?case using calls_trans [of sch evs k s s1] by fastforce
qed

subsection \<open>The operations of the node\<close>

lemma upd_station_calls: "calls sch evs n s (upd_station a f s)"
proof -
  have eq: "upd_station a f s = sim.more_update (\<lambda>n. n\<lparr>m_states := (m_states n)(a \<mapsto> f (station a s))\<rparr>) s"
    by (cases s) (simp add: upd_station_def LookupState_def Let_def split: option.splits)
  show ?thesis unfolding eq by (rule calls_user) simp
qed

lemma upd_agreement_calls: "upd_agreement a f g s = Some s' \<Longrightarrow> calls sch evs n s s'"
  using upd_station_calls [of sch evs n s] by (auto simp: upd_agreement_def split: option.splits)

lemma upd_phy_calls: "calls sch evs n s (upd_phy l f s)"
  unfolding upd_phy_def by (rule calls_user) simp

lemma upd_phy_state_calls: "upd_phy_state l f s = Some s' \<Longrightarrow> calls sch evs n s s'"
  using upd_phy_calls by (auto simp: upd_phy_state_def split: option.splits)

lemma SetSleepMode_calls:
  assumes "SetSleepMode sch l s = Some s'" and en: "enough 1 s"
  shows "calls sch evs 1 s s'"
proof -
  obtain p where p: "phy_of l s = Some p"
    using assms(1) by (auto simp: SetSleepMode_def split: option.splits)
  define s1 where "s1 = upd_phy l (\<lambda>p. p\<lparr>m_powerRestricted := False, m_channelAccessRequested := False\<rparr>) s"
  define s2 where "s2 = (if IsRunning (m_endPhyRxEvent p) s1 then AbortCurrentReception_SLEEPING l s1 else s1)"
  have "calls sch evs 0 s s1" by (simp add: s1_def upd_phy_calls)
  moreover have "calls sch evs 0 s1 s2"
    by (auto simp: s2_def AbortCurrentReception_SLEEPING_def calls_refl calls_Cancel split: option.splits)
  ultimately have c: "calls sch evs 0 s s2" using calls_trans by fastforce
  have "calls sch evs 1 s2 s'"
    using assms(1) p ScheduleCall_calls [of sch _ _ s2 _ s' evs] enough_calls [OF _ c, of 1] en
      upd_phy_state_calls [of l _ s2 s' sch evs 1] calls_refl [of sch evs 1 s2]
    by (auto simp: SetSleepMode_def Let_def s1_def [symmetric] s2_def [symmetric]
        split: WifiPhyState.splits)
  with c show ?thesis using calls_trans by fastforce
qed

lemma ResumeFromSleep_calls:
  assumes "ResumeFromSleep l s = Some s'"
  shows "calls sch evs n s s'"
proof -
  have "calls sch evs n t t'" if "PhyEntity_SwitchMaybeToCcaBusy l t = Some t'" for t t'
    using that upd_phy_state_calls calls_refl
    by (fastforce simp: PhyEntity_SwitchMaybeToCcaBusy_def split: option.splits if_splits)
  moreover have "calls sch evs 0 s s1"
    if "upd_phy_state l (SwitchFromSleep (now_time s)) s = Some s1" for s1
    using that by (rule upd_phy_state_calls)
  ultimately show ?thesis
    using assms calls_refl calls_trans [of sch evs 0 s _ n s']
    by (fastforce simp: ResumeFromSleep_def Option.bind_eq_Some_conv split: option.splits WifiPhyState.splits)
qed

lemma SetPhySleepState_calls:
  assumes "SetPhySleepState sch enable s = Some s'" and en: "enough (1 + length (m_links (nd s))) s"
  shows "calls sch evs (1 + length (m_links (nd s))) s s'"
proof -
  have "calls sch evs 1 s s'" if "ScheduleCall sch d w s = Some (i, s')" for d w i
    using that ScheduleCall_calls [of sch d w s i s' evs] enough_mono [OF en] by simp
  moreover have "calls sch evs (1 * length (m_links (nd s))) s s'"
    if "for_each (\<lambda>(l, _). if enable then SetSleepMode sch l else ResumeFromSleep l) (m_links (nd s)) s = Some s'"
    by (rule for_each_calls [OF _ that])
       (use enough_mono [OF en] SetSleepMode_calls [of sch _ _ _ evs] ResumeFromSleep_calls [of _ _ _ sch evs 1]
        in \<open>auto split: if_splits\<close>)
  ultimately show ?thesis
    using assms(1) calls_mono by (fastforce simp: SetPhySleepState_def split: if_splits)
qed

lemma sleep_if_STA_calls:
  assumes "sleep_if_STA sch enable s = Some s'" and en: "enough (1 + length (m_links (nd s))) s"
  shows "calls sch evs (1 + length (m_links (nd s))) s s'"
  using assms SetPhySleepState_calls [of sch enable s s' evs] calls_refl
  by (auto simp: sleep_if_STA_def split: if_splits)

lemma BlockQueues_calls: "calls sch evs n s (BlockQueues qs s)"
  unfolding BlockQueues_def by (rule calls_user) simp

lemma UnblockQueues_calls: "calls sch evs n s (UnblockQueues qs s)"
  unfolding UnblockQueues_def by (rule calls_user) simp

lemma fold_calls:
  "(\<And>x s. x \<in> set xs \<Longrightarrow> calls sch evs 0 s (f x s)) \<Longrightarrow> calls sch evs 0 s (fold f xs s)"
proof (induction xs arbitrary: s)
  case (Cons x xs)
  then show ?case using calls_trans [of sch evs 0 s "f x s" 0] by simp
qed (simp add: calls_refl)

lemma BlockUnicastTxOnLinks_calls: "calls sch evs 0 s (BlockUnicastTxOnLinks a ls s)"
proof -
  have "calls sch evs 0 s (BlockQueues q1 (BlockQueues q2 s))" for q1 q2 and s :: "'a twt_sim"
    using calls_trans [OF BlockQueues_calls [of sch evs 0 s q2] BlockQueues_calls [of sch evs 0 _ q1]] by simp
  then show ?thesis
    unfolding BlockUnicastTxOnLinks_def
    by (auto intro!: fold_calls simp: Let_def calls_refl split: prod.splits)
qed

lemma UnblockUnicastTxOnLinks_calls:
  assumes "UnblockUnicastTxOnLinks sch a ls s = Some s'" and "enough (4 * length ls) s"
  shows "calls sch evs (4 * length ls) s s'"
proof -
  have body: "calls sch evs 1 s s'"
    if call: "ScheduleNowCall sch w (UnblockQueues q1 (UnblockQueues q2 s)) = Some (i, s')"
      and en: "enough 1 s" for w q1 q2 i and s s' :: "'a twt_sim"
  proof -
    have c: "calls sch evs 0 s (UnblockQueues q1 (UnblockQueues q2 s))"
      using calls_trans [OF UnblockQueues_calls [of sch evs 0 s q2] UnblockQueues_calls [of sch evs 0 _ q1]] by simp
    have "calls sch evs 1 (UnblockQueues q1 (UnblockQueues q2 s)) s'"
      using call enough_calls [OF _ c, of 1] en ScheduleNowCall_calls by fastforce
    with c show ?thesis using calls_trans by fastforce
  qed
  have inner: "calls sch evs 4 s s'"
    if "for_each (\<lambda>(ac, lowTid, highTid) s. map_option snd (ScheduleNowCall sch (w ac)
         (UnblockQueues (q1 ac) (UnblockQueues (q2 ac lowTid highTid) s)))) wifiAcList s = Some s'"
      and "enough 4 s" for w q1 q2 and s s' :: "'a twt_sim"
  proof -
    have "calls sch evs (1 * length wifiAcList) s s'"
      using that(2) by (intro for_each_calls [OF _ that(1)]) (auto dest: body simp: wifiAcList_def numeral_eq_Suc)
    then show ?thesis by (simp add: wifiAcList_def numeral_eq_Suc)
  qed
  show ?thesis
    using assms unfolding UnblockUnicastTxOnLinks_def
    by (intro for_each_calls) (auto simp: Let_def calls_refl split: if_splits intro: inner)
qed

lemma BeginTwtSpNow_calls:
  assumes "BeginTwtSpNow sch f a w d s = Some s'" and en: "enough (7 + length (m_links (nd s))) s"
  shows "calls sch evs (7 + length (m_links (nd s))) s s'"
proof -
  obtain s1 s2 i s3 s4 l s5 j s6 where
    st: "upd_agreement a f (m_isSpActiveNow_update (\<lambda>_. True)) s = Some s1"
      "sleep_if_STA sch False s1 = Some s2"
      "ScheduleCall sch w (BeginTwtSp f a w d) s2 = Some (i, s3)"
      "upd_agreement a f (m_nextServicePeriodStartEvent_update (\<lambda>_. i)) s3 = Some s4"
      "UnblockUnicastTxOnLinks sch a [l] s4 = Some s5"
      "ScheduleCall sch d (EndTwtSp f a w d) s5 = Some (j, s6)"
      "upd_agreement a f (m_nextServicePeriodEndEvent_update (\<lambda>_. j)) s6 = Some s'"
    using assms(1) by (rule BeginTwtSpNowE)
  let ?n = "length (m_links (nd s))"
  have c1: "calls sch evs 0 s s1" using st(1) by (rule upd_agreement_calls)
  have n1: "length (m_links (nd s1)) = ?n" using c1 by (simp add: calls_def)
  have e1: "enough ((1 + ?n) + 6) s1" using enough_calls [OF _ c1, of "7 + ?n"] en by (simp add: algebra_simps)
  have c2: "calls sch evs (1 + ?n) s1 s2"
    using sleep_if_STA_calls [OF st(2), of evs] enough_mono [OF e1] by (simp add: n1)
  have e2: "enough (1 + 5) s2" using enough_calls [OF e1 c2] by simp
  have c3: "calls sch evs 1 s2 s3" using ScheduleCall_calls [OF st(3)] enough_mono [OF e2] by simp
  have e3: "enough 5 s3" using enough_calls [OF e2 c3] .
  have c4: "calls sch evs 0 s3 s4" using st(4) by (rule upd_agreement_calls)
  have e4: "enough (4 + 1) s4" using enough_calls [OF _ c4, of 5] e3 by simp
  have c5: "calls sch evs 4 s4 s5"
    using UnblockUnicastTxOnLinks_calls [OF st(5), of evs] enough_mono [OF e4] by simp
  have e5: "enough 1 s5" using enough_calls [OF e4 c5] .
  have c6: "calls sch evs 1 s5 s6" using ScheduleCall_calls [OF st(6) e5] .
  have c7: "calls sch evs 0 s6 s'" using st(7) by (rule upd_agreement_calls)
  show ?thesis
    using calls_trans [OF calls_trans [OF calls_trans [OF calls_trans [OF calls_trans [OF calls_trans
      [OF c1 c2] c3] c4] c5] c6] c7] by (simp add: algebra_simps numeral_eq_Suc)
qed

lemma EndTwtSpNow_calls:
  assumes "EndTwtSpNow sch f a s = Some s'" and en: "enough (1 + length (m_links (nd s))) s"
  shows "calls sch evs (1 + length (m_links (nd s))) s s'"
proof -
  obtain s1 l where
    st: "upd_agreement a f (m_isSpActiveNow_update (\<lambda>_. False)) s = Some s1"
      "sleep_if_STA sch True (BlockUnicastTxOnLinks a [l] s1) = Some s'"
    using assms(1) by (rule EndTwtSpNowE)
  define s2 where "s2 = BlockUnicastTxOnLinks a [l] s1"
  have c: "calls sch evs 0 s s2"
    using calls_trans [OF upd_agreement_calls [OF st(1), of sch evs 0] BlockUnicastTxOnLinks_calls]
    by (simp add: s2_def)
  then have n: "length (m_links (nd s2)) = length (m_links (nd s))" by (simp add: calls_def)
  have "calls sch evs (1 + length (m_links (nd s))) s2 s'"
    using sleep_if_STA_calls [of sch True s2 s' evs] st(2) enough_calls [OF _ c, of "1 + length (m_links (nd s))"] en
    by (simp add: s2_def [symmetric] n)
  with c show ?thesis using calls_trans by fastforce
qed

definition twt_room :: "twt_call \<Rightarrow> 'q twt_sim \<Rightarrow> bool" where
  "twt_room w s \<longleftrightarrow> enough (7 + length (m_links (nd s))) s"

lemma twt_notify_calls:
  assumes "twt_room w s" and "twt_notify sch w s = Some s'"
  shows "(client_call sch evs)\<^sup>*\<^sup>* s s'"
proof -
  have en: "enough n s" if "n \<le> 7 + length (m_links (nd s))" for n
    using assms(1) that by (auto simp: twt_room_def intro: enough_mono)
  have "\<exists>n. calls sch evs n s s'"
  proof (cases w)
    case (SetSleepModeCall l)
    then show ?thesis using assms(2) SetSleepMode_calls [of sch l s s' evs] en [of 1] by (auto simp: twt_notify_def)
  next
    case (StartAccessIfNeeded ac l)
    then show ?thesis using assms(2) by (auto simp: twt_notify_def intro!: exI calls_user)
  next
    case NextExpectedBeaconGeneration
    then show ?thesis using assms(2) calls_refl [of sch evs 0 s] by (auto simp: twt_notify_def)
  qed (use assms(2) en in \<open>auto simp: twt_notify_def intro!: exI
        elim: BeginTwtSpNow_calls EndTwtSpNow_calls SetPhySleepState_calls\<close>)
  then show ?thesis by (auto simp: calls_def)
qed

interpretation twt_mapq: simulation MapScheduler map_invar map_events "twt_notify MapScheduler" twt_room
  by unfold_locales (rule twt_notify_calls)

interpretation twt_pq: simulation PriorityQueueScheduler pq_invar sort_events
    "twt_notify PriorityQueueScheduler" twt_room
  by unfold_locales (rule twt_notify_calls)

subsection \<open>A node to start with\<close>

text \<open>A node with one link whose PHY was just made, on a simulator with an empty map scheduler.\<close>

definition fresh_phy :: wifi_phy where
  "fresh_phy = \<lparr>m_phyState = WifiPhyStateHelper, m_endPhyRxEvent = EventId, m_powerRestricted = False,
     m_channelAccessRequested = False, m_delayUntilCcaEnd = 0\<rparr>"

definition fresh_node :: "TypeOfStation \<Rightarrow> twt_node" where
  "fresh_node ty = \<lparr>m_typeOfStation = ty, m_heSupported = True, m_links = [(0, fresh_phy)],
     m_states = (\<lambda>_. None), m_blockedPs = [], m_txTimeoutEvent = EventId, m_txTimerEnd = 0,
     m_navEnd = 0, m_beaconEvent = EventId, m_accessRequests = []\<rparr>"

definition fresh_sim :: "twt_node \<Rightarrow> map_scheduler twt_sim" where
  "fresh_sim n = sim.extend (DefaultSimulatorImpl MapScheduler_init 0) n"

lemma fresh_sim_ok: "sim_ok map_invar map_events (fresh_sim n)"
  unfolding fresh_sim_def
  by (rule mapq.sim_ok_fresh) (simp_all add: MapScheduler_init_def map_invar_def map_events_def)

lemma fresh_sim_sel [simp]:
  "impls (fresh_sim n) = (\<lambda>_. None)" "next_impl (fresh_sim n) = 0" "this_thread (fresh_sim n) = 0"
  "m_mainThreadId (fresh_sim n) = 0" "m_events (fresh_sim n) = []" "sim_uid (fresh_sim n) = 4"
  "m_currentTs (fresh_sim n) = 0" "m_currentUid (fresh_sim n) = 0" "sim.more (fresh_sim n) = n"
  "m_eventsWithContextEmpty (fresh_sim n)" "m_unscheduledEvents (fresh_sim n) = 0"
  by (simp_all add: fresh_sim_def sim.defs DefaultSimulatorImpl_def MapScheduler_init_def UID_VALID_def
      UID_INVALID_def)

abbreviation twt_run :: "map_scheduler twt_sim \<Rightarrow> event list \<Rightarrow> map_scheduler twt_sim \<Rightarrow> bool" where
  "twt_run \<equiv> sim_run MapScheduler map_events (twt_notify MapScheduler) twt_room"

text \<open>A run in which one event is scheduled for now and processed.\<close>

definition one_event :: event where
  "one_event = \<lparr>impl = Some 0, key = \<lparr>m_ts = 0, m_uid = 4, m_context = NO_CONTEXT\<rparr>\<rparr>"

definition one_event_sim :: "twt_node \<Rightarrow> map_scheduler twt_sim" where
  "one_event_sim n = (fresh_sim n)
     \<lparr>impls := [0 \<mapsto> \<lparr>what = NextExpectedBeaconGeneration, m_cancel = False\<rparr>], next_impl := 1,
      sim_uid := 5, m_unscheduledEvents := 1, m_events := [(key one_event, Some 0)]\<rparr>"

definition one_event_id :: event_id where
  "one_event_id = \<lparr>id_impl = Some 0, id_ts = 0, id_context = NO_CONTEXT, id_uid = 4\<rparr>"

lemma one_event_scheduled:
  "ScheduleCall MapScheduler 0 NextExpectedBeaconGeneration (fresh_sim n) = Some (one_event_id, one_event_sim n)"
  by (simp add: ScheduleCall_def MakeEvent_def Schedule_def sched_simps MapScheduler_Insert_def
      one_event_sim_def one_event_id_def one_event_def fresh_sim_def sim.defs DefaultSimulatorImpl_def
      MapScheduler_init_def UID_VALID_def UID_INVALID_def)

definition one_event_done :: "twt_node \<Rightarrow> map_scheduler twt_sim" where
  "one_event_done n = start_event one_event [] (one_event_sim n)"

lemma one_event_processed:
  "ProcessOneEvent MapScheduler (twt_notify MapScheduler) (one_event_sim n) = Some (one_event_done n)"
  by (simp add: ProcessOneEvent_def sched_simps MapScheduler_RemoveNext_def EventImpl_Invoke_def
      one_event_sim_def one_event_done_def one_event_def start_event_def twt_notify_def
      ProcessEventsWithContext_def)

lemma one_event_run1:
  assumes "length (m_links n) < 1000"
  shows "twt_run (one_event_sim n) [one_event] (one_event_done n)"
proof (rule run_event [OF _ _ _ one_event_processed run_end])
  show "\<not> IsEmpty MapScheduler (m_events (one_event_sim n))"
    by (simp add: sched_simps MapScheduler_IsEmpty_def one_event_sim_def)
  show "RemoveNext MapScheduler (m_events (one_event_sim n)) = Some (one_event, [])"
    by (simp add: sched_simps MapScheduler_RemoveNext_def one_event_sim_def one_event_def)
  show "room_for twt_room one_event (start_event one_event [] (one_event_sim n))"
    using assms by (simp add: room_for_def twt_room_def enough_def one_event_sim_def one_event_def start_event_def)
qed

lemma one_event_run:
  assumes "length (m_links n) < 1000"
  shows "twt_run (fresh_sim n) [one_event] (one_event_done n)"
proof (rule sim_run_calls)
  have "enough 1 (fresh_sim n)" by (simp add: enough_def)
  then show "(client_call MapScheduler map_events)\<^sup>*\<^sup>* (fresh_sim n) (one_event_sim n)"
    using ScheduleCall_calls [OF one_event_scheduled] by (simp add: calls_def)
qed (rule one_event_run1 [OF assms])

end
