(* ===== verification/Simulator_Runs.thy ===== *)
theory Simulator_Runs
  imports Twt_Sim
begin

text \<open>
  What becomes of one event along a run of the simulator, for every scheduler and handler of the locale
  \<open>simulation\<close>, and of an event that is scheduled for a time before the clock.
\<close>

text \<open>A cancelled event stays cancelled, and a pending event stays pending until it is processed.\<close>

context simulation
begin

lemma cancelled_calls:
  "(client_call sch events)\<^sup>*\<^sup>* s s' \<Longrightarrow> sim_ok invar events s \<Longrightarrow> EventImpl_IsCancelled p s \<Longrightarrow> EventImpl_IsCancelled p s'"
proof (induction rule: rtranclp_induct)
  case (step t u)
  then show ?case using client_calls_ok [OF step(1)] cancelled_call [of t u p] by blast
qed simp

lemma cancelled_run:
  "sim_run sch events notify room s es s' \<Longrightarrow> sim_ok invar events s \<Longrightarrow> EventImpl_IsCancelled p s \<Longrightarrow> EventImpl_IsCancelled p s'"
proof (induction rule: sim_run.induct)
  case (run_call s s1 es s')
  then show ?case using client_call_ok [of s s1] cancelled_call [of s s1 p] by blast
next
  case (run_event s e q s1 es s')
  note c = ProcessOneEvent_cases [OF run_event.prems(1) run_event.hyps(1,2,3,4)]
  have "EventImpl_IsCancelled p (start_event e q s)"
    using run_event.prems(2) by (simp add: EventImpl_IsCancelled_def start_event_def)
  then show ?case using run_event.IH [OF c(1)] cancelled_calls [OF c(6,5)] by blast
qed simp

lemma pending_run:
  assumes p: "id_impl i = Some p"
  shows "sim_run sch events notify room s es s' \<Longrightarrow> sim_ok invar events s \<Longrightarrow> event_of i \<in> set (events (m_events s)) \<Longrightarrow>
    \<not> EventImpl_IsCancelled p s' \<Longrightarrow> event_of i \<in> set es \<or> event_of i \<in> set (events (m_events s'))"
proof (induction rule: sim_run.induct)
  case (run_call s s1 es s')
  note ok1 = client_call_ok [OF run_call.hyps(1) run_call.prems(1)]
  have later: "now_key s < rank (event_of i)" using sim_okD(2) [OF run_call.prems(1,2)] by (simp add: pending_ok_def)
  have "event_of i \<in> set (events (m_events s1)) \<or> IsExpired i s1"
    by (rule pending_call [OF run_call.hyps(1) run_call.prems(1,2)])
  moreover have "EventImpl_IsCancelled p s1" if "IsExpired i s1"
    using that later ok1 pending_not_destroy [OF run_call.prems(1,2)] p
    by (auto simp: IsExpired_def now_key_def)
  ultimately show ?case
    using run_call.IH run_call.prems(3) ok1 cancelled_run [OF run_call.hyps(2)] by blast
next
  case (run_event s e q s1 es s')
  note c = ProcessOneEvent_cases [OF run_event.prems(1) run_event.hyps(1,2,3,4)]
  show ?case
  proof (cases "event_of i = e")
    case False
    have nd: "id_uid i \<noteq> UID_DESTROY" by (rule pending_not_destroy [OF run_event.prems(1,2)])
    have pend: "event_of i \<in> set (events (m_events (start_event e q s)))"
      using run_event.prems(2) c(4) False by (simp add: start_event_def)
    have later: "now_key s1 < rank (event_of i)"
      using sim_okD(2) [OF c(5) pend] c(2) by (simp add: pending_ok_def now_key_def start_event_def rank_def)
    have "issued events i s1" using issued_calls [OF c(6,5) nd] pend by (simp add: issued_def)
    moreover have "EventImpl_IsCancelled p s1" if "IsExpired i s1"
      using that later nd p by (auto simp: IsExpired_def now_key_def)
    ultimately have "event_of i \<in> set (events (m_events s1))"
      using run_event.prems(3) cancelled_run [OF run_event.hyps(5) c(1)] by (auto simp: issued_def)
    then show ?thesis using run_event.IH [OF c(1)] run_event.prems(3) by auto
  qed simp
qed simp

text \<open>An event for a time before the clock.\<close>

lemma ScheduleWithContext_past:
  assumes ok: "sim_ok invar events s" and room: "uid_room s" and thread: "m_mainThreadId s = this_thread s"
    and past: "d + m_currentTs s < m_currentTs s"
  shows "\<exists>s'. ScheduleWithContext sch c d p s = Some s' \<and> ProcessOneEvent sch any s' = None"
proof -
  note okD = sim_okD [OF ok]
  define x where "x = \<lparr>impl = Some p, key = \<lparr>m_ts = d + m_currentTs s, m_uid = sim_uid s, m_context = c\<rparr>\<rparr>"
  have "uid e < sim_uid s" if "e \<in> set (events (m_events s))" for e using okD(2) [OF that] by (simp add: pending_ok_def)
  moreover have "uid x = sim_uid s" by (simp add: x_def uid_def)
  ultimately have fresh: "uid x \<notin> uid ` set (events (m_events s))" by force
  obtain q where q: "Insert sch x (m_events s) = Some q" "invar q" "events q = insort_event x (events (m_events s))"
    using insert_ok [OF okD(1) fresh] by blast
  have least: "rank x < rank e" if "e \<in> set (events (m_events s))" for e
  proof -
    have "rank x < now_key s" using past by (simp add: rank_def x_def now_key_def)
    also have "now_key s < rank e" using okD(2) [OF that] by (simp add: pending_ok_def)
    finally show ?thesis .
  qed
  have "events q = x # events (m_events s)"
    unfolding q(3) using least by (cases "events (m_events s)") (auto simp: event_less_rank)
  then obtain q' where "RemoveNext sch q = Some (x, q')" using remove_next_ok [OF q(2)] by blast
  then show ?thesis using q(1) thread past by (simp add: ScheduleWithContext_def Let_def x_def ProcessOneEvent_def)
qed

end

end
