(* ===== verification/Heap_Remove.thy ===== *)
theory Heap_Remove
  imports Heap_Scheduler
begin

text \<open>
  What \<open>HeapScheduler::Remove\<close> does to the order of the heap when the last event, which takes the place
  of the removed one, should rise and not sink.
\<close>

text \<open>When the last event is earlier than the parent of the removed one, it stays in the free place.\<close>

lemma TopDown_stays:
  assumes "0 < k" and "\<And>i. i < length h \<Longrightarrow> i div 2 = k \<Longrightarrow> rk h k < rk h i"
  shows "TopDown k h = Some h"
proof -
  have "2 * k < length h \<Longrightarrow> rk h k < rk h (2 * k)" "2 * k + 1 < length h \<Longrightarrow> rk h k < rk h (2 * k + 1)"
    using assms(2) [of "2 * k"] assms(2) [of "2 * k + 1"] by simp_all
  then show ?thesis
    by (auto simp: TopDown.simps [of k h] TopDown_end_def sched_simps heap_index_defs mult.commute [of k 2] Smallest_def Let_def)
qed

lemma HeapScheduler_Remove_stays:
  assumes ok: "heap_ok h" and "distinct (map uid (tl h))" and j: "2 \<le> j" "j < length h"
    and early: "rk h (Last h) < rk h (j div 2)"
  shows "\<exists>h'. HeapScheduler_Remove (h ! j) h = Some h' \<and> h' ! j = h ! Last h \<and> h' ! Parent j = h ! Parent j \<and> \<not> heap_ok h'"
proof -
  have up: "rk h (i div 2) \<le> rk h i" if "2 \<le> i" "i < length h" for i using ok that by (simp add: heap_ok_def)
  have "j \<noteq> Last h" using up [of j] early j by (auto simp: not_less)
  then have jl: "j < length h - 1" using j by (simp add: Last_def)
  define h1 where "h1 = butlast (h[j := h ! Last h, Last h := h ! j])"
  have j1: "1 \<le> j" using j by simp
  note p = exch_pop_props [OF h1_def j1 j(2)]
  have neq: "uid (h ! l) \<noteq> uid (h ! j)" if "1 \<le> l" "l < j" for l
    using assms(2) that j nth_eq_iff_index_eq [OF assms(2), of "l - 1" "j - 1"] by (auto simp: nth_tl)
  have rem: "HeapScheduler_Remove (h ! j) h = TopDown j h1"
    using Remove_from_at [of 1 "length h - 1" h j] j neq
    by (simp add: HeapScheduler_Remove_def Exch_def Last_def h1_def)
  have "rk h1 j < rk h1 i" if i: "i < length h1" "i div 2 = j" for i
  proof -
    have "i \<noteq> j" "2 \<le> i" "i < length h" using i j p(1) by auto
    then have "rk h j \<le> rk h i" "rk h (j div 2) \<le> rk h j" using up [of i] up [of j] i j by auto
    then show ?thesis using early p(5) [of i] p(5) [of j] i \<open>i \<noteq> j\<close> jl p(1) by auto
  qed
  then have h': "HeapScheduler_Remove (h ! j) h = Some h1" unfolding rem using j by (intro TopDown_stays) auto
  have at: "h1 ! j = h ! Last h" "h1 ! Parent j = h ! Parent j"
    using jl j by (auto simp: h1_def nth_butlast nth_list_update Last_def Parent_def)
  then have "\<not> rk h1 (j div 2) \<le> rk h1 j" using early by (simp add: rk_def Parent_def)
  then have "\<not> heap_ok h1" using jl p(1) j by (auto simp: heap_ok_def)
  with h' at show ?thesis by blast
qed

end
