(* ===== verification/Simulator_Props.thy ===== *)
theory Simulator_Props
  imports Simulator_Runs Heap_Remove
begin

text \<open>
  The properties of the event schedulers and of the event loop: every scheduler sorts, the heap
  loses the order when an event is removed from its middle, and the facts of the locales
  \<open>event_queue\<close> and \<open>simulation\<close> on the schedulers and the handler of the model.
\<close>

subsection \<open>Schedulers\<close>

text \<open>C1: whichever of the list, map, priority queue and heap scheduler holds the events, inserting
  any events with distinct identifiers and removing them one by one returns exactly these events,
  in strictly increasing order of time stamp and identifier.\<close>

theorem schedulers_agree:
  assumes "distinct (map uid es)"
  shows "\<exists>xs. mset xs = mset es \<and> sorted_by rank xs \<and>
    Option.bind (insert_all ListScheduler es ListScheduler_init) (drain ListScheduler (length es)) = Some xs \<and>
    Option.bind (insert_all MapScheduler es MapScheduler_init) (drain MapScheduler (length es)) = Some xs \<and>
    Option.bind (insert_all PriorityQueueScheduler es PriorityQueueScheduler_init)
      (drain PriorityQueueScheduler (length es)) = Some xs \<and>
    Option.bind (insert_all HeapScheduler es HeapScheduler_init) (drain HeapScheduler (length es)) = Some xs"
proof (intro exI conjI)
  have ok: "queue_ok (sort_events es)" using assms by (rule queue_ok_sort_events)
  show "mset (sort_events es) = mset es"
    by (rule mset_sort_events)
  show "sorted_by rank (sort_events es)" using ok by (simp add: queue_ok_def)
  show "Option.bind (insert_all ListScheduler es ListScheduler_init) (drain ListScheduler (length es)) =
      Some (sort_events es)"
    by (rule listq.insert_drain) (simp_all add: ListScheduler_init_def assms)
  show "Option.bind (insert_all MapScheduler es MapScheduler_init) (drain MapScheduler (length es)) =
      Some (sort_events es)"
    by (rule mapq.insert_drain) (simp_all add: MapScheduler_init_def map_invar_def map_events_def assms)
  show "Option.bind (insert_all PriorityQueueScheduler es PriorityQueueScheduler_init)
      (drain PriorityQueueScheduler (length es)) = Some (sort_events es)"
    by (rule pq.insert_drain) (simp_all add: PriorityQueueScheduler_init_def pq_invar_def sort_events_def assms)
  show "Option.bind (insert_all HeapScheduler es HeapScheduler_init) (drain HeapScheduler (length es)) =
      Some (sort_events es)"
    by (rule heapq.insert_drain)
      (simp_all add: HeapScheduler_init_def heap_invar_def heap_ok_def heap_events_def sort_events_def assms)
qed

definition ev :: "nat \<Rightarrow> event" where
  "ev t = \<lparr>impl = Some t, key = \<lparr>m_ts = of_nat t, m_uid = of_nat t + 4, m_context = 0\<rparr>\<rparr>"

theorem schedulers_agree_witness:
  "\<exists>xs. mset xs = mset [ev 3, ev 1, ev 2] \<and> sorted_by rank xs \<and>
    Option.bind (insert_all HeapScheduler [ev 3, ev 1, ev 2] HeapScheduler_init)
      (drain HeapScheduler (length [ev 3, ev 1, ev 2])) = Some xs"
proof -
  have "distinct (map uid [ev 3, ev 1, ev 2])" by (simp add: uid_def ev_def)
  from schedulers_agree [OF this] show ?thesis by blast
qed

text \<open>C2: \<open>Remove\<close> of a heap scheduler takes any pending event out and keeps all others, but it keeps the
  heap order exactly when the event in the last place is not earlier than the parent of the event that is
  removed: otherwise the last event, which takes the free place, stays below a later event.\<close>

theorem heap_Remove_disorders:
  assumes "heap_invar h" and "1 \<le> j" and "j < length h"
  shows "\<exists>h'. HeapScheduler_Remove (h ! j) h = Some h' \<and> mset (tl h') = mset (tl h) - {#h ! j#} \<and>
    (heap_invar h' \<longleftrightarrow> (2 \<le> j \<longrightarrow> \<not> event_less (h ! Last h) (h ! Parent j))) \<and>
    (2 \<le> j \<and> event_less (h ! Last h) (h ! Parent j) \<longrightarrow>
       h' ! j = h ! Last h \<and> h' ! Parent j = h ! Parent j)"
proof -
  have ok: "heap_ok h" and dist: "distinct (map uid (tl h))" using assms(1) by (simp_all add: heap_invar_def)
  obtain h' where h': "HeapScheduler_Remove (h ! j) h = Some h'" "mset (tl h') = mset (tl h) - {#h ! j#}"
    "2 \<le> j \<longrightarrow> rk h (j div 2) \<le> rk h (Last h) \<Longrightarrow> heap_ok h'"
    using HeapScheduler_Remove_at [OF dist assms(2,3)] ok by blast
  have "tl h ! (j - 1) = h ! j" "j - 1 < length (tl h)" using assms(2,3) by (simp_all add: nth_tl)
  then have "h ! j \<in> set (tl h)" by (metis nth_mem)
  then have "mset (tl h) = mset (h ! j # tl h')" using h'(2) by simp
  from distinct_uid_mset [OF this] dist have dist': "distinct (map uid (tl h'))" by simp
  have less: "event_less (h ! Last h) (h ! Parent j) \<longleftrightarrow> rk h (Last h) < rk h (j div 2)"
    by (simp add: event_less_rank rk_def Parent_def)
  have broken: "h' ! j = h ! Last h \<and> h' ! Parent j = h ! Parent j \<and> \<not> heap_ok h'"
    if j2: "2 \<le> j" and early: "rk h (Last h) < rk h (j div 2)"
    using HeapScheduler_Remove_stays [OF ok dist j2 assms(3) early] h'(1) by simp
  show ?thesis
  proof (cases "2 \<le> j \<and> rk h (Last h) < rk h (j div 2)")
    case True
    with h'(1,2) broken show ?thesis unfolding less heap_invar_def by blast
  next
    case False
    then have "heap_ok h'" by (intro h'(3)) (simp add: not_less)
    with h'(1,2) dist' False show ?thesis unfolding less heap_invar_def by blast
  qed
qed

text \<open>Here event 30 is removed, event 4 stays below event 20, and event 10 comes out before event 4.\<close>

definition fifteen :: "heap_scheduler" where
  "fifteen = the (insert_all HeapScheduler
     [ev 1, ev 10, ev 2, ev 20, ev 21, ev 40, ev 3, ev 30, ev 31, ev 32, ev 33, ev 41, ev 42, ev 43, ev 4]
     HeapScheduler_init)"

lemma fifteen_drained:
  "Option.bind (HeapScheduler_Remove (ev 30) fifteen) (drain HeapScheduler 14) =
   Some [ev 1, ev 2, ev 3, ev 10, ev 20, ev 4, ev 21, ev 31, ev 32, ev 33, ev 40, ev 41, ev 42, ev 43]"
  by code_simp

theorem heap_Remove_disorders_witness:
  "\<exists>h'. HeapScheduler_Remove (fifteen ! 8) fifteen = Some h' \<and> \<not> heap_invar h' \<and> h' ! 8 = ev 4 \<and> h' ! 4 = ev 20"
proof -
  have e: "Last fifteen = 15" "Parent 8 = 4" "fifteen ! 15 = ev 4" "fifteen ! 4 = ev 20" "event_less (ev 4) (ev 20)"
    "length fifteen = 16" "list_all (\<lambda>i. event_less (fifteen ! Parent i) (fifteen ! i)) [2..<16]"
    "distinct (map uid (tl fifteen))"
    by code_simp+
  have "rk fifteen (i div 2) \<le> rk fifteen i" if "2 \<le> i" "i < 16" for i
    using e(7) [unfolded list_all_iff set_upt, THEN bspec, of i] that
    by (simp add: event_less_rank rk_def Parent_def less_imp_le)
  then have "heap_invar fifteen" using e(6,8) by (auto simp: heap_invar_def heap_ok_def)
  from heap_Remove_disorders [OF this, of 8] e show ?thesis by auto
qed

subsection \<open>The event loop\<close>

text \<open>C3: in every run of a TWT node on the default (map) scheduler, from a fresh simulator, events
  are processed in strictly increasing order of time stamp and identifier, virtual time never goes
  back, everything still pending lies in the future, and the count of unscheduled events that the
  assertion at the end of \<open>Run\<close> checks is exact.\<close>

theorem events_in_order:
  assumes "twt_run (fresh_sim n) es s"
  shows "sorted_by rank es \<and> (\<forall>e\<in>set es. rank e \<le> now_key s) \<and>
    (\<forall>e\<in>set (map_events (m_events s)). now_key s < rank e) \<and>
    m_unscheduledEvents s = int (length (map_events (m_events s)))"
proof -
  note r = twt_mapq.sim_run_ordered [OF assms fresh_sim_ok]
  then show ?thesis
    using sim_okD(2,5) [of map_invar map_events s] by (auto simp: pending_ok_def)
qed

theorem events_in_order_witness:
  "sorted_by rank [one_event] \<and> now_key (fresh_sim (fresh_node STA)) < rank one_event \<and>
   m_unscheduledEvents (one_event_done (fresh_node STA)) = 0"
proof -
  have "twt_run (fresh_sim (fresh_node STA)) [one_event] (one_event_done (fresh_node STA))"
    by (rule one_event_run) (simp add: fresh_node_def)
  from events_in_order [OF this] show ?thesis
    by (simp add: now_key_def rank_def one_event_def one_event_done_def start_event_def one_event_sim_def map_events_def)
qed

text \<open>C4: an event that was scheduled is reported as running exactly while it is pending and not
  cancelled, in every later state of the run.\<close>

theorem running_iff_pending_uncancelled:
  assumes "twt_run (fresh_sim n) es0 s0" and "twt_room w s0"
    and "ScheduleCall MapScheduler d w s0 = Some (i, s1)" and "twt_run s1 es s"
    and "id_uid i \<noteq> UID_DESTROY" and "id_impl i = Some p"
  shows "IsRunning i s \<longleftrightarrow> event_of i \<in> set (map_events (m_events s)) \<and> \<not> EventImpl_IsCancelled p s"
proof -
  have ok0: "sim_ok map_invar map_events s0"
    using twt_mapq.sim_run_ordered [OF assms(1) fresh_sim_ok] by blast
  have en: "enough 1 s0" using assms(2) by (auto simp: twt_room_def intro: enough_mono)
  have "(client_call MapScheduler map_events)\<^sup>*\<^sup>* s0 s1"
    using ScheduleCall_calls [OF assms(3) en] by (simp add: calls_def)
  then have ok1: "sim_ok map_invar map_events s1"
    using mapq.client_calls_ok ok0 by blast
  have "event_of i \<in> set (map_events (m_events s1))"
    by (rule mapq.ScheduleCall_pending [OF ok0 _ assms(3)])
       (use en in \<open>auto simp: uid_room_def enough_def intro: time_room_nonneg\<close>)
  then have "issued map_events i s1" by (simp add: issued_def)
  then have "issued map_events i s"
    using twt_mapq.issued_run [OF assms(5,4) ok1] by blast
  moreover have "sim_ok map_invar map_events s"
    using twt_mapq.sim_run_ordered [OF assms(4) ok1] by blast
  ultimately show ?thesis
    using twt_mapq.running_iff_pending assms(5,6) by blast
qed

theorem running_iff_pending_uncancelled_witness:
  "IsRunning one_event_id (one_event_sim (fresh_node STA)) \<and>
   \<not> IsRunning one_event_id (one_event_done (fresh_node STA))"
proof -
  let ?n = "fresh_node STA"
  have room: "twt_room NextExpectedBeaconGeneration (fresh_sim ?n)"
    by (simp add: twt_room_def enough_def fresh_node_def)
  have i: "id_uid one_event_id \<noteq> UID_DESTROY" "id_impl one_event_id = Some 0"
    by (simp_all add: one_event_id_def UID_DESTROY_def)
  have e: "event_of one_event_id = one_event"
    by (simp add: event_of_def one_event_id_def one_event_def)
  have run: "twt_run (one_event_sim ?n) [one_event] (one_event_done ?n)"
    by (rule one_event_run1) (simp add: fresh_node_def)
  note r = running_iff_pending_uncancelled [OF run_end room one_event_scheduled _ i]
  show ?thesis
    using r [OF run_end] r [OF run] unfolding e
    by (simp add: one_event_sim_def one_event_done_def start_event_def map_events_def
        EventImpl_IsCancelled_def one_event_def)
qed

text \<open>C5: no event is lost and none is processed twice. An event that is pending at some point of a run
  and is not cancelled is, at every later point, processed if and only if virtual time has reached its key,
  and still pending otherwise; whatever the handlers and the main program schedule, cancel and remove in
  between.\<close>

theorem no_event_lost:
  assumes "twt_run (fresh_sim n) es0 s" and "event_of i \<in> set (map_events (m_events s))"
    and "id_impl i = Some p" and "twt_run s es s'" and "\<not> EventImpl_IsCancelled p s'"
  shows "distinct es \<and> (event_of i \<in> set es \<longleftrightarrow> rank (event_of i) \<le> now_key s') \<and>
    (event_of i \<in> set (map_events (m_events s')) \<longleftrightarrow> now_key s' < rank (event_of i))"
proof -
  have ok: "sim_ok map_invar map_events s"
    using twt_mapq.sim_run_ordered [OF assms(1) fresh_sim_ok] by blast
  note o = twt_mapq.sim_run_ordered [OF assms(4) ok]
  have "now_key s' < rank (event_of i)" if "event_of i \<in> set (map_events (m_events s'))"
    using sim_okD(2) [OF conjunct1 [OF o] that] by (simp add: pending_ok_def)
  moreover have "distinct es" using o sorted_by_distinct' by blast
  ultimately show ?thesis
    using twt_mapq.pending_run [OF assms(3,4) ok assms(2,5)] o by (auto simp: not_less [symmetric])
qed

theorem no_event_lost_witness:
  "one_event \<in> set (map_events (m_events (one_event_sim (fresh_node STA)))) \<and>
   one_event \<notin> set (map_events (m_events (one_event_done (fresh_node STA))))"
proof -
  let ?n = "fresh_node STA"
  have e: "event_of one_event_id = one_event" by (simp add: event_of_def one_event_id_def one_event_def)
  have pend: "event_of one_event_id \<in> set (map_events (m_events (one_event_sim ?n)))"
    by (simp add: e one_event_sim_def map_events_def one_event_def)
  have "enough 1 (fresh_sim ?n)" by (simp add: enough_def)
  then have "(client_call MapScheduler map_events)\<^sup>*\<^sup>* (fresh_sim ?n) (one_event_sim ?n)"
    using ScheduleCall_calls [OF one_event_scheduled] by (simp add: calls_def)
  then have run0: "twt_run (fresh_sim ?n) [] (one_event_sim ?n)" by (rule sim_run_calls) (rule run_end)
  have i: "id_impl one_event_id = Some 0" by (simp add: one_event_id_def)
  have run: "twt_run (one_event_sim ?n) [one_event] (one_event_done ?n)"
    by (rule one_event_run1) (simp add: fresh_node_def)
  have "\<not> EventImpl_IsCancelled 0 (one_event_done ?n)"
    by (simp add: EventImpl_IsCancelled_def one_event_done_def start_event_def one_event_sim_def)
  from no_event_lost [OF run0 pend i run this] pend show ?thesis by (auto simp: e not_less)
qed

text \<open>C6: \<open>Schedule\<close> with a negative delay schedules for the current time, whatever the scheduler.\<close>

theorem Schedule_negative_is_now:
  assumes "sint delay < 0"
  shows "Schedule sch delay p s = Schedule sch 0 p s \<and>
    (Schedule sch delay p s = Some (i, s') \<longrightarrow> id_ts i = m_currentTs s)"
  using assms by (auto simp: Schedule_def Let_def)

theorem Schedule_negative_is_now_witness:
  "Schedule MapScheduler (-5) 0 (one_event_sim (fresh_node STA)) =
   Schedule MapScheduler 0 0 (one_event_sim (fresh_node STA))"
proof -
  have "sint (-5 :: 64 word) < 0" by simp
  from Schedule_negative_is_now [OF this] show ?thesis by blast
qed

text \<open>A negative delay that stays above time zero.\<close>

lemma negative_sum:
  assumes "sint (d :: 64 word) < 0" and "- sint d \<le> uint t"
  shows "d + t < t"
proof -
  have "d + t = word_of_int (sint d + uint t)" by simp
  then have "uint (d + t) = take_bit 64 (sint d + uint t)" by (simp only: uint_word_of_int_eq) simp
  also have "\<dots> = sint d + uint t"
    using assms uint_lt2p [of t] by (intro take_bit_int_eq_self) simp_all
  finally show ?thesis using assms(1) by (simp add: word_less_def)
qed

text \<open>C7: \<open>ScheduleWithContext\<close> has no such guard. In every reachable state of the simulator a call from the main
  thread with a negative delay that does not reach back behind time zero is accepted and puts the event
  before the current time; the assertion of the next \<open>ProcessOneEvent\<close> then fails, whatever else is pending.\<close>

theorem ScheduleWithContext_negative_aborts:
  assumes "twt_run (fresh_sim n) es s" and "uid_room s" and "m_mainThreadId s = this_thread s"
    and "sint delay < 0" and "- sint delay \<le> uint (m_currentTs s)"
  shows "\<exists>s'. ScheduleWithContext MapScheduler context delay p s = Some s' \<and>
    ProcessOneEvent MapScheduler (twt_notify MapScheduler) s' = None"
proof -
  have ok: "sim_ok map_invar map_events s"
    using twt_mapq.sim_run_ordered [OF assms(1) fresh_sim_ok] by blast
  show ?thesis by (rule twt_mapq.ScheduleWithContext_past [OF ok assms(2,3) negative_sum [OF assms(4,5)]])
qed

text \<open>A simulator whose clock is at 10, with an event that is still pending then.\<close>

definition late_run :: "(map_scheduler twt_sim \<times> map_scheduler twt_sim) option" where
  "late_run = Option.bind (ScheduleCall MapScheduler 10 NextExpectedBeaconGeneration (fresh_sim (fresh_node AP)))
     (\<lambda>(_, s). map_option (\<lambda>s'. (s, s')) (ProcessOneEvent MapScheduler (twt_notify MapScheduler) s))"

theorem ScheduleWithContext_negative_aborts_witness:
  "\<exists>s s'. late_run = Some (s, s') \<and> (\<exists>s''. ScheduleWithContext MapScheduler 0 (-1) 0 s' = Some s'' \<and>
     ProcessOneEvent MapScheduler (twt_notify MapScheduler) s'' = None)"
proof -
  let ?s0 = "fresh_sim (fresh_node AP)"
  have ev: "(case late_run of None \<Rightarrow> False | Some (s, s') \<Rightarrow>
      unat (sim_uid s') < 100 \<and> m_mainThreadId s' = this_thread s' \<and> m_currentTs s' = 10 \<and> length (m_links (nd s)) = 1 \<and>
      \<not> IsEmpty MapScheduler (m_events s) \<and>
      (case RemoveNext MapScheduler (m_events s) of None \<Rightarrow> False
       | Some (e, q) \<Rightarrow> unat (sim_uid (start_event e q s)) < 100 \<and> 0 \<le> sint (m_currentTs (start_event e q s))))"
    by code_simp
  then obtain s s' e q where l: "late_run = Some (s, s')" and u: "unat (sim_uid s') < 100" "m_mainThreadId s' = this_thread s'"
      "m_currentTs s' = 10" "length (m_links (nd s)) = 1" "\<not> IsEmpty MapScheduler (m_events s)"
    and r: "RemoveNext MapScheduler (m_events s) = Some (e, q)" "unat (sim_uid (start_event e q s)) < 100"
      "0 \<le> sint (m_currentTs (start_event e q s))"
    by (auto split: option.splits)
  obtain i where c: "ScheduleCall MapScheduler 10 NextExpectedBeaconGeneration ?s0 = Some (i, s)"
      "ProcessOneEvent MapScheduler (twt_notify MapScheduler) s = Some s'"
    using l by (auto simp: late_run_def Option.bind_eq_Some_conv)
  have "enough 1 ?s0" by (simp add: enough_def)
  then have calls: "(client_call MapScheduler map_events)\<^sup>*\<^sup>* ?s0 s"
    using ScheduleCall_calls [OF c(1)] by (simp add: calls_def)
  have "length (m_links (nd (start_event e q s))) = 1" using u(4) by (simp add: start_event_def)
  then have "room_for twt_room e (start_event e q s)"
    using r(2,3) by (simp add: room_for_def twt_room_def enough_def split: option.split)
  then have "twt_run s [e] s'" by (rule run_event [OF u(5) r(1) _ c(2) run_end])
  then have run: "twt_run ?s0 [e] s'" by (rule sim_run_calls [OF calls])
  have room: "uid_room s'" using u(1) by (simp add: uid_room_def)
  have neg: "sint (-1 :: 64 word) < 0" "- sint (-1 :: 64 word) \<le> uint (m_currentTs s')" using u(3) by simp_all
  from ScheduleWithContext_negative_aborts [OF run room u(2) neg] l show ?thesis by blast
qed

end
