(* ===== verification/Twt_Inv.thy ===== *)
theory Twt_Inv
  imports Twt_Sim
begin

text \<open>
  Invariants of the TWT node. A run of the node interleaves new schedules, events of the simulator
  and whatever else the MAC does; in all its states the agreements of a station are a finite map
  from flows below 8, their number is the counter the manager keeps, and the events of an
  agreement are events the simulator knows.
\<close>

subsection \<open>Operations that leave the agreements alone\<close>

lemma station_cong: "m_states (nd s') = m_states (nd s) \<Longrightarrow> station a s' = station a s"
  by (simp add: station_def)

lemma find_agreement_cong: "m_states (nd s') = m_states (nd s) \<Longrightarrow> find_agreement a f s' = find_agreement a f s"
  by (simp add: find_agreement_def station_def)

lemma ScheduleCall_sel:
  assumes "ScheduleCall sch d w s = Some (i, s')"
  shows "sim.more s' = sim.more s" "impls s' = (impls s)(next_impl s \<mapsto> \<lparr>what = w, m_cancel = False\<rparr>)"
    "next_impl s' = next_impl s + 1" "m_currentTs s' = m_currentTs s" "m_currentUid s' = m_currentUid s"
    "id_impl i = Some (next_impl s)" "id_ts i = (if sint d < 0 then 0 else d) + m_currentTs s"
    "id_uid i = sim_uid s"
  using assms by (auto simp: ScheduleCall_def MakeEvent_def Schedule_def Let_def split: if_splits)

lemma ScheduleNowCall_is: "ScheduleNowCall sch w s = Some r \<Longrightarrow> ScheduleCall sch 0 w s = Some r"
  by (auto simp: ScheduleNowCall_def ScheduleNow_def ScheduleCall_def split: prod.splits if_splits)

lemma upd_phy_states [simp]: "m_states (nd (upd_phy l f s)) = m_states (nd s)"
  by (simp add: upd_phy_def)

lemma upd_phy_state_states: "upd_phy_state l f s = Some s' \<Longrightarrow> m_states (nd s') = m_states (nd s)"
  by (auto simp: upd_phy_state_def split: option.splits)

lemma Cancel_more [simp]: "sim.more (Cancel i s) = sim.more s"
  by (simp add: Cancel_def EventImpl_Cancel_def split: option.splits)

lemma SetSleepMode_states:
  assumes "SetSleepMode sch l s = Some s'"
  shows "m_states (nd s') = m_states (nd s)"
proof -
  obtain p where p: "phy_of l s = Some p"
    using assms by (auto simp: SetSleepMode_def split: option.splits)
  define s1 where "s1 = upd_phy l (\<lambda>p. p\<lparr>m_powerRestricted := False, m_channelAccessRequested := False\<rparr>) s"
  define s2 where "s2 = (if IsRunning (m_endPhyRxEvent p) s1 then AbortCurrentReception_SLEEPING l s1 else s1)"
  have "m_states (nd s2) = m_states (nd s)"
    by (simp add: s2_def s1_def AbortCurrentReception_SLEEPING_def split: option.splits)
  moreover have "m_states (nd s') = m_states (nd s2)"
    using assms p by (auto simp: SetSleepMode_def Let_def s1_def [symmetric] s2_def [symmetric]
        ScheduleCall_sel dest: upd_phy_state_states split: WifiPhyState.splits)
  ultimately show ?thesis by simp
qed

lemma ResumeFromSleep_states:
  assumes "ResumeFromSleep l s = Some s'"
  shows "m_states (nd s') = m_states (nd s)"
proof -
  have "m_states (nd t') = m_states (nd t)" if "PhyEntity_SwitchMaybeToCcaBusy l t = Some t'" for t t' :: "'a twt_sim"
    using that by (auto simp: PhyEntity_SwitchMaybeToCcaBusy_def dest: upd_phy_state_states split: option.splits if_splits)
  then show ?thesis
    using assms by (auto simp: ResumeFromSleep_def Option.bind_eq_Some_conv
        dest!: upd_phy_state_states split: option.splits WifiPhyState.splits)
qed

lemma SetPhySleepState_states:
  assumes "SetPhySleepState sch enable s = Some s'"
  shows "m_states (nd s') = m_states (nd s)"
proof -
  have "m_states (nd t) = m_states (nd s)"
    if "for_each (\<lambda>(l, _). if enable then SetSleepMode sch l else ResumeFromSleep l) (m_links (nd s)) s = Some t" for t
    by (rule for_each_induct [OF that])
       (auto dest!: SetSleepMode_states ResumeFromSleep_states split: if_splits)
  then show ?thesis
    using assms by (auto simp: SetPhySleepState_def ScheduleCall_sel split: if_splits)
qed

lemma sleep_if_STA_states: "sleep_if_STA sch enable s = Some s' \<Longrightarrow> m_states (nd s') = m_states (nd s)"
  by (auto simp: sleep_if_STA_def dest: SetPhySleepState_states split: if_splits)

lemma BlockQueues_states [simp]:
  "m_states (nd (BlockQueues qs s)) = m_states (nd s)" "m_links (nd (BlockQueues qs s)) = m_links (nd s)"
  "m_typeOfStation (nd (BlockQueues qs s)) = m_typeOfStation (nd s)"
  "m_txTimeoutEvent (nd (BlockQueues qs s)) = m_txTimeoutEvent (nd s)"
  "m_navEnd (nd (BlockQueues qs s)) = m_navEnd (nd s)"
  "impls (BlockQueues qs s) = impls s" "m_currentTs (BlockQueues qs s) = m_currentTs s"
  "m_currentUid (BlockQueues qs s) = m_currentUid s" "m_destroyEvents (BlockQueues qs s) = m_destroyEvents s"
  by (simp_all add: BlockQueues_def)

lemma UnblockQueues_states [simp]:
  "m_states (nd (UnblockQueues qs s)) = m_states (nd s)" "m_links (nd (UnblockQueues qs s)) = m_links (nd s)"
  by (simp_all add: UnblockQueues_def)

text \<open>\<open>P\<close> holds after a loop that cannot fail when the body keeps it.\<close>

lemma fold_keeps: "P s \<Longrightarrow> (\<And>x s. P s \<Longrightarrow> P (f x s)) \<Longrightarrow> P (fold f xs s)"
  by (induction xs arbitrary: s) auto

text \<open>What blocking leaves alone, in one relation.\<close>

definition same_but_blocked :: "'q twt_sim \<Rightarrow> 'q twt_sim \<Rightarrow> bool" where
  "same_but_blocked s t \<longleftrightarrow> m_states (nd t) = m_states (nd s) \<and> m_links (nd t) = m_links (nd s) \<and>
     m_typeOfStation (nd t) = m_typeOfStation (nd s) \<and> m_txTimeoutEvent (nd t) = m_txTimeoutEvent (nd s) \<and>
     m_navEnd (nd t) = m_navEnd (nd s) \<and> impls t = impls s \<and> m_currentTs t = m_currentTs s \<and>
     m_currentUid t = m_currentUid s \<and> m_destroyEvents t = m_destroyEvents s"

lemma same_but_blocked_Block: "same_but_blocked s t \<Longrightarrow> same_but_blocked s (BlockQueues qs t)"
  by (simp add: same_but_blocked_def)

lemma BlockUnicastTxOnLinks_same: "same_but_blocked s (BlockUnicastTxOnLinks a ls s)"
  unfolding BlockUnicastTxOnLinks_def
proof (rule fold_keeps [where P = "same_but_blocked s"])
  show "same_but_blocked s s" by (simp add: same_but_blocked_def)
qed (auto simp: Let_def intro!: fold_keeps [where P = "same_but_blocked s"] same_but_blocked_Block split: prod.splits)

lemma BlockUnicastTxOnLinks_states [simp]: "m_states (nd (BlockUnicastTxOnLinks a ls s)) = m_states (nd s)"
  using BlockUnicastTxOnLinks_same [of s a ls] by (simp add: same_but_blocked_def)

text \<open>What only adds objects and events: the objects there are keep their contents.\<close>

definition adds :: "'q twt_sim \<Rightarrow> 'q twt_sim \<Rightarrow> bool" where
  "adds s s' \<longleftrightarrow> next_impl s \<le> next_impl s' \<and> (\<forall>p<next_impl s. impls s' p = impls s p) \<and>
     now_key s' = now_key s"

lemma adds_refl [simp]: "adds s s"
  by (simp add: adds_def)

lemma adds_trans: "adds s s1 \<Longrightarrow> adds s1 s2 \<Longrightarrow> adds s s2"
  by (auto simp: adds_def)

lemma adds_user [simp]: "adds s (sim.more_update f s)"
  by (simp add: adds_def now_key_def)

lemma ScheduleCall_adds: "ScheduleCall sch d w s = Some (i, s') \<Longrightarrow> adds s s'"
  by (auto simp: adds_def now_key_def ScheduleCall_sel)

lemma UnblockUnicastTxOnLinks_adds:
  assumes "UnblockUnicastTxOnLinks sch a ls s = Some s'"
  shows "adds s s' \<and> m_states (nd s') = m_states (nd s) \<and> m_links (nd s') = m_links (nd s)"
proof -
  let ?P = "\<lambda>t. adds s t \<and> m_states (nd t) = m_states (nd s) \<and> m_links (nd t) = m_links (nd s)"
  have body: "?P t'" if P: "?P t"
    and call: "map_option snd (ScheduleNowCall sch w (UnblockQueues q1 (UnblockQueues q2 t))) = Some t'"
    for t t' w q1 q2
  proof -
    obtain i where i: "ScheduleCall sch 0 w (UnblockQueues q1 (UnblockQueues q2 t)) = Some (i, t')"
      using call by (auto dest: ScheduleNowCall_is)
    have "adds t (UnblockQueues q1 (UnblockQueues q2 t))"
      unfolding UnblockQueues_def by (rule adds_trans [OF adds_user adds_user])
    from adds_trans [OF conjunct1 [OF P] adds_trans [OF this ScheduleCall_adds [OF i]]]
    have "adds s t'" .
    moreover have "m_states (nd t') = m_states (nd s) \<and> m_links (nd t') = m_links (nd s)"
      using P ScheduleCall_sel(1) [OF i] by simp
    ultimately show ?thesis by blast
  qed
  have loop: "?P t'" if "?P t" and "for_each (\<lambda>(ac, lowTid, highTid) s. map_option snd (ScheduleNowCall sch (w ac)
         (UnblockQueues (q1 ac) (UnblockQueues (q2 ac lowTid highTid) s)))) xs t = Some t'"
    for t t' w q1 q2 and xs :: "(AcIndex \<times> 8 word \<times> 8 word) list"
    by (rule for_each_induct [where P = ?P, OF that(2,1)])
       (simp only: split_def, erule body, assumption)
  show ?thesis
  proof (rule for_each_induct [where P = ?P, OF assms [unfolded UnblockUnicastTxOnLinks_def]])
    fix l t t'
    assume P: "?P t" and step: "(let linkAddr = link_address a t in
       if skip_link a t linkAddr then Some t
       else for_each (\<lambda>(ac, lowTid, highTid) s.
              map_option snd (ScheduleNowCall sch (StartAccessIfNeeded ac l)
                (UnblockQueues (queues_of ac [WIFI_MGT_QUEUE, WIFI_CTL_QUEUE] linkAddr l)
                  (UnblockQueues (queues_of ac [WIFI_QOSDATA_QUEUE lowTid, WIFI_QOSDATA_QUEUE highTid,
                                                WIFI_CTL_QUEUE] a l) s))))
            wifiAcList t) = Some t'"
    show "?P t'"
    proof (cases "skip_link a t (link_address a t)")
      case True
      then show ?thesis using step P by (simp add: Let_def)
    next
      case False
      then show ?thesis using step loop [OF P] by (simp add: Let_def)
    qed
  qed simp
qed

subsection \<open>The agreements of a station\<close>

definition station_ok :: "wifi_station_state \<Rightarrow> bool" where
  "station_ok st \<longleftrightarrow> sorted_by fst (m_twtAgreementMap st) \<and>
     (\<forall>f\<in>fst ` set (m_twtAgreementMap st). f < 8) \<and>
     m_twtAgreementCount st = of_nat (length (m_twtAgreementMap st))"

definition agreements_ok :: "'q twt_sim \<Rightarrow> bool" where
  "agreements_ok s \<longleftrightarrow> (\<forall>a st. m_states (nd s) a = Some st \<longrightarrow> station_ok st)"

lemma station_ok_brand_new [simp]: "station_ok (brand_new a)"
  by (simp add: station_ok_def brand_new_def)

lemma agreements_okD: "agreements_ok s \<Longrightarrow> station_ok (station a s)"
  by (auto simp: agreements_ok_def station_def split: option.splits)

lemma agreements_ok_cong: "m_states (nd s') = m_states (nd s) \<Longrightarrow> agreements_ok s' = agreements_ok s"
  by (simp add: agreements_ok_def)

lemma find_agreement_map: "find_agreement a f s = map_of (m_twtAgreementMap (station a s)) f"
  by (simp add: find_agreement_def smap_keys_map_of option.map_comp comp_def option.map_ident)

lemma upd_station_eq:
  "upd_station a g s = sim.more_update (\<lambda>n. n\<lparr>m_states := (m_states n)(a \<mapsto> g (station a s))\<rparr>) s"
  by (cases s) (simp add: upd_station_def LookupState_def station_def Let_def split: option.splits)

lemma station_upd [simp]:
  "station b (upd_station a g s) = (if b = a then g (station a s) else station b s)"
  by (simp add: upd_station_eq station_def)

lemma upd_station_ok:
  assumes "agreements_ok s" and "station_ok (g (station a s))"
  shows "agreements_ok (upd_station a g s)"
  using assms by (auto simp: agreements_ok_def upd_station_eq)

lemma upd_station_sel [simp]:
  "impls (upd_station a g s) = impls s" "next_impl (upd_station a g s) = next_impl s"
  "m_events (upd_station a g s) = m_events s" "now_key (upd_station a g s) = now_key s"
  "m_currentTs (upd_station a g s) = m_currentTs s" "m_currentUid (upd_station a g s) = m_currentUid s"
  "m_links (nd (upd_station a g s)) = m_links (nd s)" "m_blockedPs (nd (upd_station a g s)) = m_blockedPs (nd s)"
  "m_destroyEvents (upd_station a g s) = m_destroyEvents s"
  "m_typeOfStation (nd (upd_station a g s)) = m_typeOfStation (nd s)"
  by (simp_all add: upd_station_eq now_key_def)

lemma upd_agreementE:
  assumes "upd_agreement a f g s = Some s'"
  obtains ag where "find_agreement a f s = Some ag"
    "s' = upd_station a (\<lambda>st. st\<lparr>m_twtAgreementMap := smap_assign lt_flow f (g ag) (m_twtAgreementMap st)\<rparr>) s"
  using assms by (auto simp: upd_agreement_def split: option.splits)

lemma smap_assign_length:
  "sorted_by fst m \<Longrightarrow> k \<in> fst ` set m \<Longrightarrow> length (smap_assign (<) (k :: 'k :: linorder) v m) = length m"
proof (induction m)
  case (Cons e m)
  obtain k' v' where "e = (k', v')" by (cases e)
  then show ?case
    using Cons by (cases k k' rule: linorder_cases) auto
qed simp

text \<open>An assignment to a member of an agreement changes that agreement and nothing else.\<close>

lemma upd_agreement_ok:
  assumes upd: "upd_agreement a f g s = Some s'" and ok: "agreements_ok s"
  shows "agreements_ok s'" and "find_agreement b h s' =
      (if b = a \<and> h = f then map_option g (find_agreement a f s) else find_agreement b h s)"
    and "adds s s'"
proof -
  obtain ag where ag: "find_agreement a f s = Some ag"
    and s': "s' = upd_station a (\<lambda>st. st\<lparr>m_twtAgreementMap := smap_assign lt_flow f (g ag) (m_twtAgreementMap st)\<rparr>) s"
    using upd by (rule upd_agreementE)
  have st: "sorted_by fst (m_twtAgreementMap (station a s))"
    "\<forall>f\<in>fst ` set (m_twtAgreementMap (station a s)). f < 8"
    "m_twtAgreementCount (station a s) = of_nat (length (m_twtAgreementMap (station a s)))"
    using agreements_okD [OF ok, of a] by (auto simp: station_ok_def)
  have dom: "f \<in> fst ` set (m_twtAgreementMap (station a s))"
    using ag map_of_SomeD [of "m_twtAgreementMap (station a s)" f ag]
    by (auto simp: find_agreement_map rev_image_eqI)
  note keys = smap_sorted_keys [OF st(1), of f "g ag"]
  show "agreements_ok s'"
    unfolding s' using st dom keys(1,3) smap_assign_length [OF st(1) dom]
    by (intro upd_station_ok [OF ok]) (auto simp: station_ok_def)
  show "find_agreement b h s' = (if b = a \<and> h = f then map_option g (find_agreement a f s) else find_agreement b h s)"
    using ag by (simp add: s' find_agreement_map keys(2))
  show "adds s s'" by (simp add: s' adds_def)
qed

subsection \<open>Making an agreement\<close>

lemma CreateTwtAgreementE:
  assumes "CreateTwtAgreement sch f a rq im ty tr ind ch w d t b s = Some s'"
  obtains s1 s2 i s3 where "f < 8" "ind"
    "s1 = (case find_agreement a f s of None \<Rightarrow> s | Some old \<Rightarrow>
        upd_station a (\<lambda>st. st\<lparr>m_twtAgreementMap := smap_erase lt_flow f (m_twtAgreementMap st),
                               m_twtAgreementCount := m_twtAgreementCount st - 1\<rparr>)
          (Cancel (m_nextServicePeriodEndEvent old) (Cancel (m_nextServicePeriodStartEvent old) s)))"
    "s2 = upd_station a (\<lambda>st. st\<lparr>
        m_twtAgreementMap := fst (smap_insert lt_flow f (WifiTwtAgreement f a rq im ty tr ind ch w d t False False)
                                    (m_twtAgreementMap st)),
        m_twtAgreementCount := m_twtAgreementCount st + 1\<rparr>) s1"
    "ScheduleCall sch (t + b) (BeginTwtSp f a w d) s2 = Some (i, s3)"
    "upd_agreement a f (m_nextServicePeriodStartEvent_update (\<lambda>_. i)) s3 = Some s'"
proof -
  have "f < 8 \<and> ind \<and> (\<exists>s1 s2 i s3.
      s1 = (case find_agreement a f s of None \<Rightarrow> s | Some old \<Rightarrow>
        upd_station a (\<lambda>st. st\<lparr>m_twtAgreementMap := smap_erase lt_flow f (m_twtAgreementMap st),
                               m_twtAgreementCount := m_twtAgreementCount st - 1\<rparr>)
          (Cancel (m_nextServicePeriodEndEvent old) (Cancel (m_nextServicePeriodStartEvent old) s))) \<and>
      s2 = upd_station a (\<lambda>st. st\<lparr>
        m_twtAgreementMap := fst (smap_insert lt_flow f (WifiTwtAgreement f a rq im ty tr ind ch w d t False False)
                                    (m_twtAgreementMap st)),
        m_twtAgreementCount := m_twtAgreementCount st + 1\<rparr>) s1 \<and>
      ScheduleCall sch (t + b) (BeginTwtSp f a w d) s2 = Some (i, s3) \<and>
      upd_agreement a f (m_nextServicePeriodStartEvent_update (\<lambda>_. i)) s3 = Some s')"
    using assms unfolding CreateTwtAgreement_def Let_def
    by (simp only: split: if_split_asm) (auto simp: Option.bind_eq_Some_conv)
  with that show thesis by blast
qed

lemma station_more: "sim.more s = sim.more s' \<Longrightarrow> station a s = station a s'"
  by (simp add: station_def)

text \<open>The old agreement of the flow, if any, is gone and its events are cancelled.\<close>

lemma drop_agreement:
  assumes ok: "agreements_ok s"
    and s1: "s1 = (case find_agreement a f s of None \<Rightarrow> s | Some old \<Rightarrow>
        upd_station a (\<lambda>st. st\<lparr>m_twtAgreementMap := smap_erase lt_flow f (m_twtAgreementMap st),
                               m_twtAgreementCount := m_twtAgreementCount st - 1\<rparr>)
          (Cancel (m_nextServicePeriodEndEvent old) (Cancel (m_nextServicePeriodStartEvent old) s)))"
  shows "agreements_ok s1" and "find_agreement c h s1 = (if c = a \<and> h = f then None else find_agreement c h s)"
    and "next_impl s1 = next_impl s" "now_key s1 = now_key s"
    and "m_twtAgreementCount (station a s1) = of_nat (length (m_twtAgreementMap (station a s1)))"
proof -
  note st = agreements_okD [OF ok, of a, unfolded station_ok_def]
  note keys = smap_keys_erase [OF conjunct1 [OF st], of f]
  have len: "of_nat (length (m_twtAgreementMap (station a s)) - 1) = m_twtAgreementCount (station a s) - 1"
    if "f \<in> fst ` set (m_twtAgreementMap (station a s))"
  proof -
    have pos: "length (m_twtAgreementMap (station a s)) > 0" using that by (auto intro: length_pos_if_in_set)
    have "(of_nat (length (m_twtAgreementMap (station a s)) - 1) :: 32 word) =
        of_nat (length (m_twtAgreementMap (station a s))) - of_nat 1"
      using pos by (intro of_nat_diff) linarith
    then show ?thesis using st by simp
  qed
  show ok1: "agreements_ok s1"
  proof (cases "find_agreement a f s")
    case (Some old)
    define sc where "sc = Cancel (m_nextServicePeriodEndEvent old) (Cancel (m_nextServicePeriodStartEvent old) s)"
    have m: "sim.more sc = sim.more s" by (simp add: sc_def)
    have dom: "f \<in> fst ` set (m_twtAgreementMap (station a s))"
      using Some by (auto simp: find_agreement_map rev_image_eqI dest!: map_of_SomeD)
    have "agreements_ok sc" using ok by (simp add: agreements_ok_def m)
    then have "agreements_ok (upd_station a (\<lambda>st. st\<lparr>m_twtAgreementMap := smap_erase lt_flow f (m_twtAgreementMap st),
        m_twtAgreementCount := m_twtAgreementCount st - 1\<rparr>) sc)"
      by (rule upd_station_ok) (use st keys dom len in \<open>auto simp: station_ok_def station_more [OF m]\<close>)
    then show ?thesis by (simp add: s1 Some sc_def)
  qed (simp add: s1 ok)
  show "find_agreement c h s1 = (if c = a \<and> h = f then None else find_agreement c h s)"
  proof (cases "find_agreement a f s")
    case (Some old)
    have "station b (Cancel i t) = station b t" for b i and t :: "'a twt_sim"
      by (rule station_more) simp
    then show ?thesis using keys(2) Some by (simp add: s1 find_agreement_map)
  qed (simp add: s1)
  show "next_impl s1 = next_impl s" "now_key s1 = now_key s"
    by (simp_all add: s1 now_key_def split: option.splits)
  show "m_twtAgreementCount (station a s1) = of_nat (length (m_twtAgreementMap (station a s1)))"
    using agreements_okD [OF ok1, of a] by (simp add: station_ok_def)
qed

lemma insert_agreement:
  assumes ok: "agreements_ok s1" and none: "find_agreement a f s1 = None" and f: "f < 8"
    and s2: "s2 = upd_station a (\<lambda>st. st\<lparr>
        m_twtAgreementMap := fst (smap_insert lt_flow f ag (m_twtAgreementMap st)),
        m_twtAgreementCount := m_twtAgreementCount st + 1\<rparr>) s1"
  shows "agreements_ok s2" and "find_agreement c h s2 = (if c = a \<and> h = f then Some ag else find_agreement c h s1)"
proof -
  note st = agreements_okD [OF ok, of a, unfolded station_ok_def]
  have "f \<notin> fst ` set (m_twtAgreementMap (station a s1))"
    using none by (simp add: find_agreement_map map_of_eq_None_iff)
  note keys = smap_keys_insert [OF conjunct1 [OF st] this, of ag]
  show "agreements_ok s2"
    unfolding s2 by (rule upd_station_ok [OF ok]) (use st keys f in \<open>simp add: station_ok_def\<close>)
  show "find_agreement c h s2 = (if c = a \<and> h = f then Some ag else find_agreement c h s1)"
    by (simp add: s2 find_agreement_map keys(2))
qed

lemma CreateTwtAgreement_ok:
  assumes call: "CreateTwtAgreement sch f a rq im ty tr ind ch w d t b s = Some s'"
    and ok: "agreements_ok s"
  shows "agreements_ok s'" and "f < 8"
    and "c \<noteq> a \<or> h \<noteq> f \<Longrightarrow> find_agreement c h s' = find_agreement c h s"
    and "\<exists>i s2 s3. ScheduleCall sch (t + b) (BeginTwtSp f a w d) s2 = Some (i, s3) \<and> adds s3 s' \<and> now_key s2 = now_key s \<and>
      find_agreement a f s' = Some ((WifiTwtAgreement f a rq im ty tr ind ch w d t False False)
        \<lparr>m_nextServicePeriodStartEvent := i\<rparr>)"
proof -
  let ?new = "WifiTwtAgreement f a rq im ty tr ind ch w d t False False"
  obtain s1 s2 i s3 where f: "f < 8" and
    s1: "s1 = (case find_agreement a f s of None \<Rightarrow> s | Some old \<Rightarrow>
        upd_station a (\<lambda>st. st\<lparr>m_twtAgreementMap := smap_erase lt_flow f (m_twtAgreementMap st),
                               m_twtAgreementCount := m_twtAgreementCount st - 1\<rparr>)
          (Cancel (m_nextServicePeriodEndEvent old) (Cancel (m_nextServicePeriodStartEvent old) s)))" and
    s2: "s2 = upd_station a (\<lambda>st. st\<lparr>
        m_twtAgreementMap := fst (smap_insert lt_flow f ?new (m_twtAgreementMap st)),
        m_twtAgreementCount := m_twtAgreementCount st + 1\<rparr>) s1" and
    i: "ScheduleCall sch (t + b) (BeginTwtSp f a w d) s2 = Some (i, s3)" and
    s': "upd_agreement a f (m_nextServicePeriodStartEvent_update (\<lambda>_. i)) s3 = Some s'"
    using call by (rule CreateTwtAgreementE) blast
  note d = drop_agreement [OF ok s1]
  have "find_agreement a f s1 = None" using d(2) by simp
  note n = insert_agreement [OF d(1) this f s2]
  have st: "m_states (nd s3) = m_states (nd s2)" using ScheduleCall_sel(1) [OF i] by simp
  have ok3: "agreements_ok s3" using n(1) agreements_ok_cong [OF st] by simp
  note u = upd_agreement_ok [OF s' ok3]
  show "f < 8" by (rule f)
  show "agreements_ok s'" by (rule u(1))
  show "find_agreement c h s' = find_agreement c h s" if "c \<noteq> a \<or> h \<noteq> f"
    using that u(2) [of c h] n(2) [of c h] d(2) [of c h] find_agreement_cong [OF st] by auto
  have "find_agreement a f s' = Some (?new\<lparr>m_nextServicePeriodStartEvent := i\<rparr>)"
    using u(2) [of a f] n(2) [of a f] find_agreement_cong [OF st] by simp
  moreover have "now_key s2 = now_key s" using d(4) by (simp add: s2)
  ultimately show "\<exists>i s2 s3. ScheduleCall sch (t + b) (BeginTwtSp f a w d) s2 = Some (i, s3) \<and> adds s3 s' \<and>
      now_key s2 = now_key s \<and> find_agreement a f s' = Some (?new\<lparr>m_nextServicePeriodStartEvent := i\<rparr>)"
    using i u(3) by blast
qed

lemma drop_calls: "calls sch evs 0 s (case find_agreement a f s of None \<Rightarrow> s | Some old \<Rightarrow>
        upd_station a g (Cancel (m_nextServicePeriodEndEvent old) (Cancel (m_nextServicePeriodStartEvent old) s)))"
  using calls_trans [OF calls_trans [OF calls_Cancel [of sch evs 0] calls_Cancel [of sch evs 0]] upd_station_calls [of sch evs 0]]
  by (auto simp: calls_refl split: option.splits)

lemma CreateTwtAgreement_calls:
  assumes "CreateTwtAgreement sch f a rq im ty tr ind ch w d t b s = Some s'" and en: "enough 1 s"
  shows "calls sch evs 1 s s'"
proof -
  obtain s1 s2 i s3 where
    s1: "s1 = (case find_agreement a f s of None \<Rightarrow> s | Some old \<Rightarrow>
        upd_station a (\<lambda>st. st\<lparr>m_twtAgreementMap := smap_erase lt_flow f (m_twtAgreementMap st),
                               m_twtAgreementCount := m_twtAgreementCount st - 1\<rparr>)
          (Cancel (m_nextServicePeriodEndEvent old) (Cancel (m_nextServicePeriodStartEvent old) s)))" and
    s2: "s2 = upd_station a (\<lambda>st. st\<lparr>
        m_twtAgreementMap := fst (smap_insert lt_flow f (WifiTwtAgreement f a rq im ty tr ind ch w d t False False)
                                    (m_twtAgreementMap st)),
        m_twtAgreementCount := m_twtAgreementCount st + 1\<rparr>) s1" and
    i: "ScheduleCall sch (t + b) (BeginTwtSp f a w d) s2 = Some (i, s3)" and
    s': "upd_agreement a f (m_nextServicePeriodStartEvent_update (\<lambda>_. i)) s3 = Some s'"
    using assms(1) by (rule CreateTwtAgreementE) blast
  have c1: "calls sch evs 0 s s1"
    unfolding s1 by (rule drop_calls)
  have c2: "calls sch evs 0 s s2"
    using calls_trans [OF c1 upd_station_calls [of sch evs 0]] by (simp add: s2)
  have c3: "calls sch evs 1 s s3"
    using calls_trans [OF c2 ScheduleCall_calls [OF i]] enough_calls [OF _ c2, of 1] en by simp
  show ?thesis
    using calls_trans [OF c3 upd_agreement_calls [OF s', of _ _ 0]] by simp
qed

subsection \<open>The events of the agreements\<close>

text \<open>An event identifier that \<open>Schedule\<close> returned, or the default one.\<close>

definition id_known :: "map_scheduler twt_sim \<Rightarrow> event_id \<Rightarrow> bool" where
  "id_known s i \<longleftrightarrow> id_uid i \<noteq> UID_DESTROY \<and> issued map_events i s"

definition events_known :: "map_scheduler twt_sim \<Rightarrow> bool" where
  "events_known s \<longleftrightarrow> (\<forall>a f ag. find_agreement a f s = Some ag \<longrightarrow>
     id_known s (m_nextServicePeriodStartEvent ag) \<and> id_known s (m_nextServicePeriodEndEvent ag))"

definition twt_inv :: "map_scheduler twt_sim \<Rightarrow> bool" where
  "twt_inv s \<longleftrightarrow> sim_ok map_invar map_events s \<and> agreements_ok s \<and> events_known s"

lemma id_known_EventId [simp]: "id_known s EventId"
  by (simp add: id_known_def EventId_def UID_DESTROY_def issued_def IsExpired_def)

lemma id_known_calls:
  assumes "calls MapScheduler map_events n s s'" and "sim_ok map_invar map_events s" and "id_known s i"
  shows "id_known s' i"
  using assms mapq.issued_calls by (auto simp: id_known_def calls_def)

lemma sim_ok_calls:
  "calls MapScheduler map_events n s s' \<Longrightarrow> sim_ok map_invar map_events s \<Longrightarrow> sim_ok map_invar map_events s'"
  using mapq.client_calls_ok by (auto simp: calls_def)

lemma ScheduleCall_known:
  assumes "ScheduleCall MapScheduler d w s = Some (i, s')" and "enough 1 s" and "sim_ok map_invar map_events s"
  shows "event_of i \<in> set (map_events (m_events s'))" and "id_known s' i"
proof -
  have room: "uid_room s \<and> (0 \<le> sint d \<longrightarrow> time_room d s)"
    using assms(2) by (auto simp: uid_room_def enough_def intro: time_room_nonneg)
  show p: "event_of i \<in> set (map_events (m_events s'))"
    using mapq.ScheduleCall_pending [OF assms(3) room assms(1)] .
  have "sim_ok map_invar map_events s'"
    using sim_ok_calls [OF ScheduleCall_calls [OF assms(1,2)] assms(3)] .
  from mapq.pending_not_destroy [OF this p] p show "id_known s' i"
    by (simp add: id_known_def issued_def)
qed

text \<open>The invariant is kept by what leaves the agreements alone and by assignments of known events.\<close>

lemma twt_inv_quiet:
  assumes "twt_inv s" and "calls MapScheduler map_events n s s'" and "m_states (nd s') = m_states (nd s)"
  shows "twt_inv s'"
  using assms sim_ok_calls [OF assms(2)] agreements_ok_cong [OF assms(3)] id_known_calls [OF assms(2)]
    find_agreement_cong [OF assms(3)]
  by (auto simp: twt_inv_def events_known_def)

lemma twt_inv_change:
  assumes inv: "twt_inv s" and c: "calls MapScheduler map_events n s s'" and ok: "agreements_ok s'"
    and ags: "\<And>b h ag. find_agreement b h s' = Some ag \<Longrightarrow> find_agreement b h s \<noteq> Some ag \<Longrightarrow>
      id_known s (m_nextServicePeriodStartEvent ag) \<and> id_known s (m_nextServicePeriodEndEvent ag)"
  shows "twt_inv s'"
proof -
  have s: "sim_ok map_invar map_events s" using inv by (simp add: twt_inv_def)
  have "id_known s (m_nextServicePeriodStartEvent ag) \<and> id_known s (m_nextServicePeriodEndEvent ag)"
    if "find_agreement b h s' = Some ag" for b h ag
    using ags [OF that] that inv
    by (cases "find_agreement b h s = Some ag") (simp_all add: twt_inv_def events_known_def)
  then have "events_known s'"
    using id_known_calls [OF c s] by (auto simp: events_known_def)
  then show ?thesis using ok sim_ok_calls [OF c s] by (simp add: twt_inv_def)
qed

lemma twt_inv_upd:
  assumes inv: "twt_inv s" and upd: "upd_agreement a f g s = Some s'"
    and g: "\<And>ag. find_agreement a f s = Some ag \<Longrightarrow>
      id_known s (m_nextServicePeriodStartEvent (g ag)) \<and> id_known s (m_nextServicePeriodEndEvent (g ag))"
  shows "twt_inv s'"
proof -
  have ok: "agreements_ok s" using inv by (simp add: twt_inv_def)
  show ?thesis
    by (rule twt_inv_change [OF inv upd_agreement_calls [OF upd, of _ _ 0] upd_agreement_ok(1) [OF upd ok]])
       (use g in \<open>auto simp: upd_agreement_ok(2) [OF upd ok] split: if_splits\<close>)
qed

lemma twt_inv_known: "twt_inv s \<Longrightarrow> find_agreement a f s = Some ag \<Longrightarrow>
    id_known s (m_nextServicePeriodStartEvent ag) \<and> id_known s (m_nextServicePeriodEndEvent ag)"
  by (auto simp: twt_inv_def events_known_def)

lemma twt_inv_start_upd:
  assumes "twt_inv s" and "upd_agreement a f (m_nextServicePeriodStartEvent_update (\<lambda>_. i)) s = Some s'" and "id_known s i"
  shows "twt_inv s'"
  using assms(3) twt_inv_known [OF assms(1)] by (intro twt_inv_upd [OF assms(1,2)]) simp

lemma twt_inv_end_upd:
  assumes "twt_inv s" and "upd_agreement a f (m_nextServicePeriodEndEvent_update (\<lambda>_. i)) s = Some s'" and "id_known s i"
  shows "twt_inv s'"
  using assms(3) twt_inv_known [OF assms(1)] by (intro twt_inv_upd [OF assms(1,2)]) simp

lemma twt_inv_active_upd:
  assumes "twt_inv s" and "upd_agreement a f (m_isSpActiveNow_update (\<lambda>_. b)) s = Some s'"
  shows "twt_inv s'"
  using twt_inv_known [OF assms(1)] by (intro twt_inv_upd [OF assms]) simp

lemma twt_inv_schedule:
  assumes "twt_inv s" and "ScheduleCall MapScheduler d w s = Some (i, s')" and "enough 1 s"
  shows "twt_inv s'" and "id_known s' i"
proof -
  show "twt_inv s'"
    using twt_inv_quiet [OF assms(1) ScheduleCall_calls [OF assms(2,3)]] ScheduleCall_sel(1) [OF assms(2)] by simp
  show "id_known s' i"
    using ScheduleCall_known [OF assms(2,3)] assms(1) by (simp add: twt_inv_def)
qed

text \<open>The steps of \<open>CreateTwtAgreement\<close>, with what holds between them.\<close>

lemma CreateTwtAgreement_chain:
  assumes inv: "twt_inv s" and call: "CreateTwtAgreement MapScheduler f a rq im ty tr ind ch w d t b s = Some s'"
    and en: "enough 1 s"
  obtains s1 s2 i s3 where
    "s1 = (case find_agreement a f s of None \<Rightarrow> s | Some old \<Rightarrow>
        upd_station a (\<lambda>st. st\<lparr>m_twtAgreementMap := smap_erase lt_flow f (m_twtAgreementMap st),
                               m_twtAgreementCount := m_twtAgreementCount st - 1\<rparr>)
          (Cancel (m_nextServicePeriodEndEvent old) (Cancel (m_nextServicePeriodStartEvent old) s)))"
    "ScheduleCall MapScheduler (t + b) (BeginTwtSp f a w d) s2 = Some (i, s3)"
    "upd_agreement a f (m_nextServicePeriodStartEvent_update (\<lambda>_. i)) s3 = Some s'"
    "find_agreement a f s2 = Some (WifiTwtAgreement f a rq im ty tr ind ch w d t False False)"
    "twt_inv s1" "twt_inv s2" "enough 1 s2" "twt_inv s3" "twt_inv s'"
    "calls MapScheduler map_events 0 s s1" "calls MapScheduler map_events 0 s1 s2"
proof -
  let ?new = "WifiTwtAgreement f a rq im ty tr ind ch w d t False False"
  have ok: "agreements_ok s" using inv by (simp add: twt_inv_def)
  obtain s1 s2 i s3 where f: "f < 8" and
    s1: "s1 = (case find_agreement a f s of None \<Rightarrow> s | Some old \<Rightarrow>
        upd_station a (\<lambda>st. st\<lparr>m_twtAgreementMap := smap_erase lt_flow f (m_twtAgreementMap st),
                               m_twtAgreementCount := m_twtAgreementCount st - 1\<rparr>)
          (Cancel (m_nextServicePeriodEndEvent old) (Cancel (m_nextServicePeriodStartEvent old) s)))" and
    s2: "s2 = upd_station a (\<lambda>st. st\<lparr>
        m_twtAgreementMap := fst (smap_insert lt_flow f ?new (m_twtAgreementMap st)),
        m_twtAgreementCount := m_twtAgreementCount st + 1\<rparr>) s1" and
    i: "ScheduleCall MapScheduler (t + b) (BeginTwtSp f a w d) s2 = Some (i, s3)" and
    s': "upd_agreement a f (m_nextServicePeriodStartEvent_update (\<lambda>_. i)) s3 = Some s'"
    using call by (rule CreateTwtAgreementE) blast
  note d = drop_agreement [OF ok s1]
  have c1: "calls MapScheduler map_events 0 s s1" unfolding s1 by (rule drop_calls)
  have i1: "twt_inv s1" by (rule twt_inv_change [OF inv c1 d(1)]) (simp add: d(2) split: if_splits)
  have "find_agreement a f s1 = None" using d(2) by simp
  note n = insert_agreement [OF d(1) this f s2]
  have c2: "calls MapScheduler map_events 0 s1 s2" unfolding s2 by (rule upd_station_calls)
  have i2: "twt_inv s2"
    by (rule twt_inv_change [OF i1 c2 n(1)]) (auto simp: n(2) WifiTwtAgreement_def split: if_splits)
  have e2: "enough 1 s2" using enough_calls [of 0 1, OF _ c1] enough_calls [of 0 1, OF _ c2] en by simp
  note i3 = twt_inv_schedule [OF i2 i e2]
  have i4: "twt_inv s'" by (rule twt_inv_start_upd [OF i3(1) s' i3(2)])
  have "find_agreement a f s2 = Some ?new" using n(2) by simp
  from that [OF s1 i s' this i1 i2 e2 i3(1) i4 c1 c2] show thesis .
qed

lemma CreateTwtAgreement_inv:
  assumes "twt_inv s" and "CreateTwtAgreement MapScheduler f a rq im ty tr ind ch w d t b s = Some s'"
    and "enough 1 s"
  shows "twt_inv s'"
  using assms by (rule CreateTwtAgreement_chain)

subsection \<open>Runs of the node\<close>

text \<open>The steps of \<open>BeginTwtSpNow\<close>, with what holds between them.\<close>

lemma BeginTwtSpNow_chain:
  assumes inv: "twt_inv s" and call: "BeginTwtSpNow MapScheduler f a w d s = Some s'"
    and en: "enough (7 + length (m_links (nd s))) s"
  obtains s1 s2 i s3 s4 l s5 j s6 where
    "upd_agreement a f (m_isSpActiveNow_update (\<lambda>_. True)) s = Some s1"
    "sleep_if_STA MapScheduler False s1 = Some s2"
    "ScheduleCall MapScheduler w (BeginTwtSp f a w d) s2 = Some (i, s3)"
    "upd_agreement a f (m_nextServicePeriodStartEvent_update (\<lambda>_. i)) s3 = Some s4"
    "first_link s4 = Some l"
    "UnblockUnicastTxOnLinks MapScheduler a [l] s4 = Some s5"
    "ScheduleCall MapScheduler d (EndTwtSp f a w d) s5 = Some (j, s6)"
    "upd_agreement a f (m_nextServicePeriodEndEvent_update (\<lambda>_. j)) s6 = Some s'"
    "twt_inv s1" "twt_inv s2" "enough 1 s2" "twt_inv s3" "twt_inv s4" "twt_inv s5" "enough 1 s5" "twt_inv s6" "twt_inv s'"
    "calls MapScheduler map_events (1 + length (m_links (nd s))) s s2" "calls MapScheduler map_events 4 s3 s5"
proof -
  obtain s1 s2 i s3 s4 l s5 j s6 where
    st: "upd_agreement a f (m_isSpActiveNow_update (\<lambda>_. True)) s = Some s1"
      "sleep_if_STA MapScheduler False s1 = Some s2"
      "ScheduleCall MapScheduler w (BeginTwtSp f a w d) s2 = Some (i, s3)"
      "upd_agreement a f (m_nextServicePeriodStartEvent_update (\<lambda>_. i)) s3 = Some s4"
      "first_link s4 = Some l"
      "UnblockUnicastTxOnLinks MapScheduler a [l] s4 = Some s5"
      "ScheduleCall MapScheduler d (EndTwtSp f a w d) s5 = Some (j, s6)"
      "upd_agreement a f (m_nextServicePeriodEndEvent_update (\<lambda>_. j)) s6 = Some s'"
    using call by (rule BeginTwtSpNowE)
  let ?n = "length (m_links (nd s))"
  have c1: "calls MapScheduler map_events 0 s s1" using st(1) by (rule upd_agreement_calls)
  then have n1: "length (m_links (nd s1)) = ?n" by (simp add: calls_def)
  have e1: "enough ((1 + ?n) + 6) s1" using enough_calls [OF _ c1, of "7 + ?n"] en by (simp add: algebra_simps)
  have i1: "twt_inv s1" using inv st(1) by (rule twt_inv_active_upd)
  have c2: "calls MapScheduler map_events (1 + ?n) s1 s2"
    using sleep_if_STA_calls [OF st(2)] enough_mono [OF e1] by (simp add: n1)
  have i2: "twt_inv s2" using i1 c2 sleep_if_STA_states [OF st(2)] by (rule twt_inv_quiet)
  have e2: "enough (1 + 5) s2" using enough_calls [OF e1 c2] by simp
  have i3: "twt_inv s3" "id_known s3 i" using twt_inv_schedule [OF i2 st(3)] enough_mono [OF e2] by simp_all
  have e3: "enough 5 s3" using enough_calls [OF e2 ScheduleCall_calls [OF st(3)]] enough_mono [OF e2] by simp
  have i4: "twt_inv s4" using i3(1) st(4) i3(2) by (rule twt_inv_start_upd)
  have c4: "calls MapScheduler map_events 0 s3 s4" using st(4) by (rule upd_agreement_calls)
  have e4: "enough (4 + 1) s4" using enough_calls [OF _ c4, of 5] e3 by simp
  have c5: "calls MapScheduler map_events 4 s4 s5"
    using UnblockUnicastTxOnLinks_calls [OF st(6)] enough_mono [OF e4] by simp
  have i5: "twt_inv s5" using i4 c5 UnblockUnicastTxOnLinks_adds [OF st(6)] by (blast intro: twt_inv_quiet)
  have e5: "enough 1 s5" using enough_calls [OF e4 c5] .
  note i6 = twt_inv_schedule [OF i5 st(7) e5]
  have i7: "twt_inv s'" using i6(1) st(8) i6(2) by (rule twt_inv_end_upd)
  have c12: "calls MapScheduler map_events (1 + ?n) s s2" using calls_trans [OF c1 c2] by simp
  have c35: "calls MapScheduler map_events 4 s3 s5" using calls_trans [OF c4 c5] by simp
  show thesis
    by (rule that [OF st i1 i2 enough_mono [OF e2] i3(1) i4 i5 e5 i6(1) i7 c12 c35]) simp
qed

lemma BeginTwtSpNow_inv:
  assumes "twt_inv s" and "BeginTwtSpNow MapScheduler f a w d s = Some s'"
    and "enough (7 + length (m_links (nd s))) s"
  shows "twt_inv s'"
  using assms by (rule BeginTwtSpNow_chain)

lemma EndTwtSpNow_inv:
  assumes inv: "twt_inv s" and call: "EndTwtSpNow MapScheduler f a s = Some s'"
    and en: "enough (1 + length (m_links (nd s))) s"
  shows "twt_inv s'"
proof -
  obtain s1 l where
    st: "upd_agreement a f (m_isSpActiveNow_update (\<lambda>_. False)) s = Some s1"
      "sleep_if_STA MapScheduler True (BlockUnicastTxOnLinks a [l] s1) = Some s'"
    using call by (rule EndTwtSpNowE)
  have i1: "twt_inv s1" using inv st(1) by (rule twt_inv_active_upd)
  have c1: "calls MapScheduler map_events 0 s s1" using st(1) by (rule upd_agreement_calls)
  have b: "calls MapScheduler map_events 0 s1 (BlockUnicastTxOnLinks a [l] s1)" by (rule BlockUnicastTxOnLinks_calls)
  have i2: "twt_inv (BlockUnicastTxOnLinks a [l] s1)" by (rule twt_inv_quiet [OF i1 b]) simp
  have "enough (1 + length (m_links (nd (BlockUnicastTxOnLinks a [l] s1)))) (BlockUnicastTxOnLinks a [l] s1)"
    using enough_calls [OF _ calls_trans [OF c1 b], of "1 + length (m_links (nd s))"] en c1 b
    by (simp add: calls_def)
  then show ?thesis
    using twt_inv_quiet [OF i2 sleep_if_STA_calls [OF st(2)] sleep_if_STA_states [OF st(2)]] by blast
qed

lemma twt_notify_inv:
  assumes inv: "twt_inv s" and step: "twt_notify MapScheduler c s = Some s'" and room: "twt_room c s"
  shows "twt_inv s'"
proof -
  have en: "enough n s" if "n \<le> 7 + length (m_links (nd s))" for n
    using room that by (auto simp: twt_room_def intro: enough_mono)
  show ?thesis
  proof (cases c)
    case (BeginTwtSp f a w d)
    then show ?thesis using step BeginTwtSpNow_inv [OF inv] en by (simp add: twt_notify_def)
  next
    case (EndTwtSp f a w d)
    then show ?thesis using step EndTwtSpNow_inv [OF inv] en by (simp add: twt_notify_def)
  next
    case (SetPhySleepStateCall b)
    then have "SetPhySleepState MapScheduler b s = Some s'" using step by (simp add: twt_notify_def)
    from twt_inv_quiet [OF inv SetPhySleepState_calls [OF this en] SetPhySleepState_states [OF this]]
    show ?thesis by simp
  next
    case (SetSleepModeCall l)
    then have "SetSleepMode MapScheduler l s = Some s'" using step by (simp add: twt_notify_def)
    from twt_inv_quiet [OF inv SetSleepMode_calls [OF this en] SetSleepMode_states [OF this]]
    show ?thesis by simp
  next
    case (StartAccessIfNeeded ac l)
    have "calls MapScheduler map_events 0 s
        (sim.more_update (\<lambda>n. n\<lparr>m_accessRequests := m_accessRequests n @ [(ac, l)]\<rparr>) s)"
      by (rule calls_user) simp
    from twt_inv_quiet [OF inv this] show ?thesis
      using step StartAccessIfNeeded by (auto simp: twt_notify_def)
  next
    case NextExpectedBeaconGeneration
    then show ?thesis using step inv by (simp add: twt_notify_def)
  qed
qed

text \<open>The states a node can be in: \<open>other\<close> is whatever else the node does, which uses the simulator
  through its interface and leaves the agreements alone.\<close>

inductive twt_reach :: "map_scheduler twt_sim \<Rightarrow> bool" where
  fresh: "m_states n = (\<lambda>_. None) \<Longrightarrow> twt_reach (fresh_sim n)"
| schedule: "twt_reach s \<Longrightarrow> enough 1 s \<Longrightarrow>
    SetTwtSchedule MapScheduler f a rq im ty tr ind ch w d t s = Some s' \<Longrightarrow> twt_reach s'"
| other: "twt_reach s \<Longrightarrow> (client_call MapScheduler map_events)\<^sup>*\<^sup>* s s' \<Longrightarrow>
    m_states (nd s') = m_states (nd s) \<Longrightarrow> twt_reach s'"
| event: "twt_reach s \<Longrightarrow> RemoveNext MapScheduler (m_events s) = Some (e, q) \<Longrightarrow>
    room_for twt_room e (start_event e q s) \<Longrightarrow>
    ProcessOneEvent MapScheduler (twt_notify MapScheduler) s = Some s' \<Longrightarrow> twt_reach s'"

lemma ProcessOneEvent_twt:
  assumes ok: "sim_ok map_invar map_events s" and rem: "RemoveNext MapScheduler (m_events s) = Some (e, q)"
    and room: "room_for twt_room e (start_event e q s)"
    and step: "ProcessOneEvent MapScheduler (twt_notify MapScheduler) s = Some s'"
  shows "map_events (m_events s) = e # map_events q" and "now_key s < rank e"
    and "sim_ok map_invar map_events (start_event e q s)"
    and "s' = start_event e q s \<or> (\<exists>p c. impl e = Some p \<and> impls s p = Some \<lparr>what = c, m_cancel = False\<rparr> \<and>
      twt_room c (start_event e q s) \<and> twt_notify MapScheduler c (start_event e q s) = Some s')"
proof -
  have ne: "\<not> IsEmpty MapScheduler (m_events s)"
    using rem by (auto simp: sched_simps MapScheduler_IsEmpty_def MapScheduler_RemoveNext_def split: list.splits)
  note c = twt_mapq.ProcessOneEvent_cases [OF ok ne rem room step]
  show "map_events (m_events s) = e # map_events q" "now_key s < rank e"
    "sim_ok map_invar map_events (start_event e q s)"
    using c by auto
  let ?t = "start_event e q s"
  have e: "\<not> m_ts (key e) < m_currentTs s"
    using c(3) by (auto simp: now_key_def rank_def less_prod_def)
  then obtain s1 where s1: "EventImpl_Invoke (twt_notify MapScheduler) (impl e) ?t = Some s1"
    "ProcessEventsWithContext MapScheduler s1 = Some s'"
    using step rem by (auto simp: ProcessOneEvent_def Option.bind_eq_Some_conv)
  obtain p ei where p: "impl e = Some p" "impls s p = Some ei"
    "if \<not> m_cancel ei then twt_notify MapScheduler (what ei) ?t = Some s1 else s1 = ?t"
    using s1(1) by (auto simp: EventImpl_Invoke_def start_event_def split: option.splits if_splits)
  have "twt_room (what ei) ?t" using room p(1,2) by (simp add: room_for_def start_event_def)
  then have "(client_call MapScheduler map_events)\<^sup>*\<^sup>* ?t s1"
    using p(3) twt_notify_calls by (auto split: if_splits)
  then have "m_eventsWithContextEmpty s1"
    using mapq.client_calls_ok [OF _ c(5)] sim_okD(7) by blast
  then have "s' = s1" using s1(2) by (simp add: ProcessEventsWithContext_def)
  then show "s' = ?t \<or> (\<exists>p c. impl e = Some p \<and> impls s p = Some \<lparr>what = c, m_cancel = False\<rparr> \<and>
      twt_room c ?t \<and> twt_notify MapScheduler c ?t = Some s')"
    using p \<open>twt_room (what ei) ?t\<close> by (cases ei) (auto split: if_splits)
qed

lemma start_event_inv:
  assumes inv: "twt_inv s" and e: "map_events (m_events s) = e # map_events q" "now_key s < rank e"
    and ok: "sim_ok map_invar map_events (start_event e q s)"
  shows "twt_inv (start_event e q s)"
proof -
  have m: "m_states (nd (start_event e q s)) = m_states (nd s)" by (simp add: start_event_def)
  have "id_known (start_event e q s) i" if "id_known s i" for i
    using twt_mapq.issued_start_event [OF e(2,1)] that by (simp add: id_known_def)
  then show ?thesis
    using inv ok agreements_ok_cong [OF m] find_agreement_cong [OF m]
    by (auto simp: twt_inv_def events_known_def)
qed

theorem twt_reach_inv: "twt_reach s \<Longrightarrow> twt_inv s"
proof (induction rule: twt_reach.induct)
  case (fresh n)
  then show ?case
    by (simp add: twt_inv_def fresh_sim_ok agreements_ok_def events_known_def find_agreement_map station_def brand_new_def)
next
  case (schedule s f a rq im ty tr ind ch w d t s')
  then show ?case
    by (auto simp: SetTwtSchedule_def Option.bind_eq_Some_conv split: if_splits intro: CreateTwtAgreement_inv)
next
  case (other s s')
  have "sim_ok map_invar map_events s" using other.IH by (simp add: twt_inv_def)
  then have "sim_ok map_invar map_events s'" "\<And>i. id_known s i \<Longrightarrow> id_known s' i"
    using mapq.client_calls_ok [OF other.hyps(2)]
      mapq.issued_calls [OF other.hyps(2)]
    by (auto simp: id_known_def)
  then show ?case
    using other.IH agreements_ok_cong [OF other.hyps(3)] find_agreement_cong [OF other.hyps(3)]
    by (auto simp: twt_inv_def events_known_def)
next
  case (event s e q s')
  have ok: "sim_ok map_invar map_events s" using event.IH by (simp add: twt_inv_def)
  note p = ProcessOneEvent_twt [OF ok event.hyps(2-4)]
  have "twt_inv (start_event e q s)" by (rule start_event_inv [OF event.IH p(1-3)])
  then show ?case using p(4) twt_notify_inv by blast
qed

end
