(* ===== verification/Twt_Effects.thy ===== *)
theory Twt_Effects
  imports Twt_Inv
begin

text \<open>
  What the operations of the TWT node do to the events, the queues and the PHY, on top of the
  invariant \<open>twt_inv\<close>.
\<close>

subsection \<open>Scheduled calls\<close>

text \<open>The event \<open>i\<close> is pending for time \<open>t\<close>, not cancelled, and calls \<open>c\<close>.\<close>

definition scheduled :: "map_scheduler twt_sim \<Rightarrow> event_id \<Rightarrow> 64 word \<Rightarrow> twt_call \<Rightarrow> bool" where
  "scheduled s i t c \<longleftrightarrow> id_ts i = t \<and> event_of i \<in> set (map_events (m_events s)) \<and> IsRunning i s \<and>
     (\<exists>p. id_impl i = Some p \<and> impls s p = Some \<lparr>what = c, m_cancel = False\<rparr>)"

lemma scheduledI:
  assumes call: "ScheduleCall MapScheduler d c s = Some (i, s1)" and en: "enough 1 s"
    and ok: "sim_ok map_invar map_events s" and more: "adds s1 s'" "calls MapScheduler map_events n s1 s'"
    and d: "0 \<le> sint d"
  shows "scheduled s' i (d + m_currentTs s) c"
proof -
  note k = ScheduleCall_known [OF call en ok] and sel = ScheduleCall_sel [OF call]
  have ok1: "sim_ok map_invar map_events s1" using sim_ok_calls [OF ScheduleCall_calls [OF call en] ok] .
  have ki: "id_known s' i" using id_known_calls [OF more(2) ok1 k(2)] .
  have "next_impl s < next_impl s1" using sel(3) by simp
  then have p: "impls s' (next_impl s) = Some \<lparr>what = c, m_cancel = False\<rparr>"
    using more(1) sel(2) by (simp add: adds_def)
  have "now_key s1 < rank (event_of i)" using sim_okD(2) [OF ok1 k(1)] by (simp add: pending_ok_def)
  then have "now_key s' < (id_ts i, id_uid i)" using more(1) by (simp add: adds_def)
  then have "\<not> IsExpired i s'"
    using ki p sel(6) by (auto simp: IsExpired_def EventImpl_IsCancelled_def id_known_def now_key_def less_prod_def)
  then show ?thesis
    using ki p sel(6,7) d by (auto simp: scheduled_def id_known_def issued_def IsRunning_def)
qed

lemma Cancel_expired:
  assumes "sim_ok map_invar map_events s" and "id_known s i"
  shows "IsExpired i (Cancel i s)"
proof (cases "IsExpired i s")
  case True
  then show ?thesis by (simp add: Cancel_def)
next
  case False
  then have "event_of i \<in> set (map_events (m_events s))" using assms(2) by (simp add: id_known_def issued_def)
  from sim_okD(2) [OF assms(1) this] obtain p where "id_impl i = Some p" "impls s p \<noteq> None"
    by (auto simp: pending_ok_def)
  then show ?thesis
    using False assms(2) by (auto simp: Cancel_def IsExpired_def EventImpl_IsCancelled_def EventImpl_Cancel_def id_known_def)
qed

lemma expired_kept:
  assumes "calls MapScheduler map_events n s s'" and "sim_ok map_invar map_events s" and "id_known s i" and "IsExpired i s"
  shows "IsExpired i s'"
  using twt_mapq.expired_calls assms by (auto simp: calls_def id_known_def)

subsection \<open>Blocked queues\<close>

definition peer_queues :: "mac48 \<Rightarrow> 8 word \<Rightarrow> queue_link list" where
  "peer_queues a l = concat (map (\<lambda>(ac, low, high).
     queues_of ac [WIFI_MGT_QUEUE, WIFI_CTL_QUEUE, WIFI_QOSDATA_QUEUE low, WIFI_QOSDATA_QUEUE high] a l) wifiAcList)"

lemma not_mld:
  assumes "GetMldAddress a s = None"
  shows "link_address a s = a" "\<not> skip_link a s b"
proof -
  have "GetAffiliatedStaAddress a s = None"
    using assms by (auto simp: GetMldAddress_def GetAffiliatedStaAddress_def Option.bind_eq_None_conv split: option.splits)
  then show "link_address a s = a" by (simp add: link_address_def)
  show "\<not> skip_link a s b" using assms by (simp add: skip_link_def)
qed

lemma set_fold_insert: "set (fold List.insert qs xs) = set qs \<union> set xs"
  by (induction qs arbitrary: xs) auto

lemma BlockQueues_blocked: "set (m_blockedPs (nd (BlockQueues qs s))) = set qs \<union> set (m_blockedPs (nd s))"
  by (simp add: BlockQueues_def set_fold_insert)

lemma queues_of_split:
  "set (queues_of ac [WIFI_MGT_QUEUE, WIFI_CTL_QUEUE] a l) \<union>
     set (queues_of ac [WIFI_QOSDATA_QUEUE low, WIFI_QOSDATA_QUEUE high, WIFI_CTL_QUEUE] a l) =
   set (queues_of ac [WIFI_MGT_QUEUE, WIFI_CTL_QUEUE, WIFI_QOSDATA_QUEUE low, WIFI_QOSDATA_QUEUE high] a l)"
  by (auto simp: queues_of_def)

lemma set_peer_queues:
  "set (peer_queues a l) = (\<Union>(ac, low, high)\<in>set wifiAcList.
     set (queues_of ac [WIFI_MGT_QUEUE, WIFI_CTL_QUEUE] a l) \<union>
     set (queues_of ac [WIFI_QOSDATA_QUEUE low, WIFI_QOSDATA_QUEUE high, WIFI_CTL_QUEUE] a l))"
  unfolding queues_of_split peer_queues_def by (simp add: split_def)

lemma BlockUnicastTxOnLinks_blocked:
  assumes "GetMldAddress a s = None"
  shows "set (m_blockedPs (nd (BlockUnicastTxOnLinks a [l] s))) = set (peer_queues a l) \<union> set (m_blockedPs (nd s))"
proof -
  have loop: "set (m_blockedPs (nd (fold (\<lambda>(ac, low, high) s. BlockQueues (q1 ac) (BlockQueues (q2 ac low high) s)) xs t))) =
      (\<Union>(ac, low, high)\<in>set xs. set (q1 ac) \<union> set (q2 ac low high)) \<union> set (m_blockedPs (nd t))"
    for q1 q2 and xs :: "(AcIndex \<times> 8 word \<times> 8 word) list" and t :: "'a twt_sim"
    by (induction xs arbitrary: t) (auto simp: BlockQueues_blocked)
  show ?thesis
    by (simp add: BlockUnicastTxOnLinks_def not_mld [OF assms] loop set_peer_queues)
qed

lemma UnblockUnicastTxOnLinks_blocked:
  assumes call: "UnblockUnicastTxOnLinks sch a [l] s = Some s'" and mld: "GetMldAddress a s = None"
  shows "set (m_blockedPs (nd s')) = set (m_blockedPs (nd s)) - set (peer_queues a l)"
proof -
  have loop: "set (m_blockedPs (nd t')) = set (m_blockedPs (nd t)) -
      (\<Union>(ac, low, high)\<in>set xs. set (q1 ac) \<union> set (q2 ac low high))"
    if "for_each (\<lambda>(ac, low, high) s. map_option snd (ScheduleNowCall sch (c ac)
         (UnblockQueues (q1 ac) (UnblockQueues (q2 ac low high) s)))) xs t = Some t'"
    for c q1 q2 and xs :: "(AcIndex \<times> 8 word \<times> 8 word) list" and t t' :: "'a twt_sim"
    using that
  proof (induction xs arbitrary: t)
    case (Cons x xs)
    obtain ac low high where x: "x = (ac, low, high)" by (cases x)
    obtain i t1 where t1: "ScheduleNowCall sch (c ac) (UnblockQueues (q1 ac) (UnblockQueues (q2 ac low high) t)) = Some (i, t1)"
      "for_each (\<lambda>(ac, low, high) s. map_option snd (ScheduleNowCall sch (c ac)
         (UnblockQueues (q1 ac) (UnblockQueues (q2 ac low high) s)))) xs t1 = Some t'"
      using Cons.prems by (auto simp: x Option.bind_eq_Some_conv)
    have "set (m_blockedPs (nd t1)) = set (m_blockedPs (nd t)) - set (q1 ac) - set (q2 ac low high)"
      using ScheduleCall_sel(1) [OF ScheduleNowCall_is [OF t1(1)]] by (auto simp: UnblockQueues_def)
    then show ?case using Cons.IH [OF t1(2)] by (auto simp: x)
  qed simp
  have "set (m_blockedPs (nd s')) = set (m_blockedPs (nd s)) - (\<Union>(ac, low, high)\<in>set wifiAcList.
      set (queues_of ac [WIFI_MGT_QUEUE, WIFI_CTL_QUEUE] a l) \<union>
      set (queues_of ac [WIFI_QOSDATA_QUEUE low, WIFI_QOSDATA_QUEUE high, WIFI_CTL_QUEUE] a l))"
    by (rule loop [where c = "\<lambda>ac. StartAccessIfNeeded ac l"])
       (use call in \<open>auto simp: UnblockUnicastTxOnLinks_def not_mld [OF mld] Option.bind_eq_Some_conv\<close>)
  also have "\<dots> = set (m_blockedPs (nd s)) - set (peer_queues a l)"
    by (simp only: set_peer_queues)
  finally show ?thesis .
qed

subsection \<open>The PHY of a station with one link\<close>

lemma upd_phy_state_one:
  assumes "m_links (nd s) = [(l, p)]" and "upd_phy_state l f s = Some s'"
  obtains ps where "f (m_phyState p) = Some ps" "s' = upd_phy l (\<lambda>p. p\<lparr>m_phyState := ps\<rparr>) s"
    "m_links (nd s') = [(l, p\<lparr>m_phyState := ps\<rparr>)]" "m_currentTs s' = m_currentTs s"
  using assms by (auto simp: upd_phy_state_def phy_of_def upd_phy_def split: option.splits)

lemma SwitchMaybeToCcaBusy_awake:
  assumes "SwitchMaybeToCcaBusy now d ch ps = Some ps'"
  shows "m_sleeping ps' = m_sleeping ps" "m_isOff ps' = m_isOff ps"
proof -
  have "m_sleeping q = m_sleeping ps \<and> m_isOff q = m_isOff ps" if "LogPreviousIdleAndCcaBusyStates now ps = Some q" for q
    using that by (auto simp: LogPreviousIdleAndCcaBusyStates_def Let_def split: WifiPhyState.splits if_splits)
  moreover have "\<exists>q. (q = ps \<or> LogPreviousIdleAndCcaBusyStates now ps = Some q) \<and>
      m_sleeping ps' = m_sleeping q \<and> m_isOff ps' = m_isOff q"
  proof (cases "GetState now ps = RX \<or> ch \<noteq> WIFI_CHANLIST_PRIMARY")
    case True
    then show ?thesis using assms by (auto simp: SwitchMaybeToCcaBusy_def split: if_splits)
  next
    case False
    then show ?thesis
      using assms by (cases "GetState now ps = IDLE") (auto simp: SwitchMaybeToCcaBusy_def Let_def)
  qed
  ultimately show "m_sleeping ps' = m_sleeping ps" "m_isOff ps' = m_isOff ps" by blast+
qed

lemma ResumeFromSleep_one:
  assumes links: "m_links (nd s) = [(l, p)]" and call: "ResumeFromSleep l s = Some s'"
  shows "\<exists>p'. m_links (nd s') = [(l, p')] \<and> GetState (now_time s) (m_phyState p') \<noteq> SLEEP"
proof (cases "GetState (now_time s) (m_phyState p) = SLEEP")
  case False
  then show ?thesis
    using assms by (auto simp: ResumeFromSleep_def phy_of_def split: WifiPhyState.splits)
next
  case True
  then obtain s1 where s1: "upd_phy_state l (SwitchFromSleep (now_time s)) s = Some s1"
    "PhyEntity_SwitchMaybeToCcaBusy l s1 = Some s'"
    using assms by (auto simp: ResumeFromSleep_def phy_of_def Option.bind_eq_Some_conv)
  obtain ps where ps: "SwitchFromSleep (now_time s) (m_phyState p) = Some ps"
    "m_links (nd s1) = [(l, p\<lparr>m_phyState := ps\<rparr>)]"
    using links s1(1) by (rule upd_phy_state_one)
  have awake: "\<not> m_sleeping ps"
    using ps(1) by (auto simp: SwitchFromSleep_def split: if_splits)
  show ?thesis
  proof (cases "m_delayUntilCcaEnd p > 0")
    case False
    then show ?thesis
      using s1(2) ps(2) awake by (auto simp: PhyEntity_SwitchMaybeToCcaBusy_def phy_of_def GetState_def)
  next
    case True
    then have "upd_phy_state l (SwitchMaybeToCcaBusy (now_time s1) (m_delayUntilCcaEnd p) WIFI_CHANLIST_PRIMARY) s1 = Some s'"
      using s1(2) ps(2) by (simp add: PhyEntity_SwitchMaybeToCcaBusy_def phy_of_def)
    from upd_phy_state_one [OF ps(2) this] obtain ps' where
      ps': "SwitchMaybeToCcaBusy (now_time s1) (m_delayUntilCcaEnd p) WIFI_CHANLIST_PRIMARY ps = Some ps'"
      "m_links (nd s') = [(l, p\<lparr>m_phyState := ps'\<rparr>)]"
      by auto
    have "\<not> m_sleeping ps'" using SwitchMaybeToCcaBusy_awake(1) [OF ps'(1)] awake by simp
    then show ?thesis using ps'(2) by (auto simp: GetState_def)
  qed
qed

text \<open>What putting the PHY to sleep does in each of its states.\<close>

lemma SetSleepMode_one:
  assumes links: "m_links (nd s) = [(l, p)]" and call: "SetSleepMode MapScheduler l s = Some s'"
  shows "\<exists>p'. m_links (nd s') = [(l, p')] \<and> m_blockedPs (nd s') = m_blockedPs (nd s) \<and>
    (if GetState (now_time s) (m_phyState p) \<in> {TX, RX, SWITCHING}
     then m_phyState p' = m_phyState p \<and> (\<exists>i t. ScheduleCall MapScheduler
            (word_of_int (GetDelayUntilIdle (now_time s) (m_phyState p))) (SetSleepModeCall l) t = Some (i, s'))
     else GetState (now_time s) (m_phyState p') = SLEEP)"
proof -
  define s1 where "s1 = upd_phy l (\<lambda>p. p\<lparr>m_powerRestricted := False, m_channelAccessRequested := False\<rparr>) s"
  define s2 where "s2 = (if IsRunning (m_endPhyRxEvent p) s1 then AbortCurrentReception_SLEEPING l s1 else s1)"
  let ?p = "p\<lparr>m_powerRestricted := False, m_channelAccessRequested := False\<rparr>"
  have l2: "m_links (nd s2) = [(l, ?p)]"
    using links by (simp add: s2_def s1_def upd_phy_def AbortCurrentReception_SLEEPING_def phy_of_def)
  have n2: "now_time s2 = now_time s"
    by (simp add: s2_def s1_def upd_phy_def AbortCurrentReception_SLEEPING_def now_time_def split: option.splits)
  have b2: "m_blockedPs (nd s2) = m_blockedPs (nd s)"
    by (simp add: s2_def s1_def upd_phy_def AbortCurrentReception_SLEEPING_def split: option.splits)
  let ?post = "map_option snd (ScheduleCall MapScheduler
      (word_of_int (GetDelayUntilIdle (now_time s) (m_phyState p))) (SetSleepModeCall l) s2)"
  have c: "(case GetState (now_time s) (m_phyState p) of
      TX \<Rightarrow> ?post | RX \<Rightarrow> ?post | SWITCHING \<Rightarrow> ?post
      | CCA_BUSY \<Rightarrow> upd_phy_state l (SwitchToSleep (now_time s)) s2
      | IDLE \<Rightarrow> upd_phy_state l (SwitchToSleep (now_time s)) s2
      | SLEEP \<Rightarrow> Some s2 | OFF \<Rightarrow> None) = Some s'"
  proof -
    have p: "phy_of l s = Some p" using links by (simp add: phy_of_def)
    show ?thesis
      using call unfolding SetSleepMode_def p option.case Let_def s1_def [symmetric] s2_def [symmetric] n2 .
  qed
  have sleep: "\<exists>p'. m_links (nd s') = [(l, p')] \<and> m_blockedPs (nd s') = m_blockedPs (nd s) \<and>
      GetState (now_time s) (m_phyState p') = SLEEP"
    if up: "upd_phy_state l (SwitchToSleep (now_time s)) s2 = Some s'"
  proof -
    obtain ps where "SwitchToSleep (now_time s) (m_phyState ?p) = Some ps" "m_links (nd s') = [(l, ?p\<lparr>m_phyState := ps\<rparr>)]"
      "s' = upd_phy l (\<lambda>p. p\<lparr>m_phyState := ps\<rparr>) s2"
      by (rule upd_phy_state_one [OF l2 up])
    then show ?thesis
      using b2 by (auto simp: SwitchToSleep_def upd_phy_def Let_def Option.bind_eq_Some_conv split: if_splits)
  qed
  have post: "\<exists>p'. m_links (nd s') = [(l, p')] \<and> m_blockedPs (nd s') = m_blockedPs (nd s) \<and> m_phyState p' = m_phyState p \<and> (\<exists>i t. ScheduleCall MapScheduler
            (word_of_int (GetDelayUntilIdle (now_time s) (m_phyState p))) (SetSleepModeCall l) t = Some (i, s'))"
    if post: "?post = Some s'"
  proof -
    obtain i where i: "ScheduleCall MapScheduler
        (word_of_int (GetDelayUntilIdle (now_time s) (m_phyState p))) (SetSleepModeCall l) s2 = Some (i, s')"
      using post by auto
    have "m_links (nd s') = [(l, ?p)]" "m_blockedPs (nd s') = m_blockedPs (nd s)"
      using ScheduleCall_sel(1) [OF i] l2 b2 by simp_all
    moreover have "m_phyState ?p = m_phyState p" by simp
    ultimately show ?thesis using i by blast
  qed
  show ?thesis
  proof (cases "GetState (now_time s) (m_phyState p)")
    case IDLE
    then show ?thesis using sleep c by simp
  next
    case CCA_BUSY
    then show ?thesis using sleep c by simp
  next
    case TX
    then show ?thesis using post c by simp
  next
    case RX
    then show ?thesis using post c by simp
  next
    case SWITCHING
    then show ?thesis using post c by simp
  next
    case SLEEP
    then show ?thesis using c l2 b2 by auto
  next
    case OFF
    then show ?thesis using c by simp
  qed
qed

text \<open>Nothing postpones the change of the sleep state: no frame is being answered, no NAV is set.\<close>

definition sleep_allowed :: "'q twt_sim \<Rightarrow> bool" where
  "sleep_allowed s \<longleftrightarrow> \<not> WifiTxTimer_IsRunning s \<and> \<not> 0 < sint (GetNavDurationLeft s)"

lemma SetPhySleepState_one:
  assumes "m_links (nd s) = [(l, p)]" and "sleep_allowed s" and "SetPhySleepState sch enable s = Some s'"
  shows "(if enable then SetSleepMode sch l s else ResumeFromSleep l s) = Some s'"
  using assms by (auto simp: SetPhySleepState_def sleep_allowed_def Option.bind_eq_Some_conv split: if_splits)

lemma sleep_allowed_cong:
  "nd t = (nd s)\<lparr>m_states := ms\<rparr> \<Longrightarrow> impls t = impls s \<Longrightarrow> now_key t = now_key s \<Longrightarrow>
   m_destroyEvents t = m_destroyEvents s \<Longrightarrow> sleep_allowed t = sleep_allowed s"
  by (simp add: sleep_allowed_def WifiTxTimer_IsRunning_def GetNavDurationLeft_def IsRunning_def IsExpired_def
      EventImpl_IsCancelled_def now_key_def Now_def split: option.splits)

lemma sleep_allowed_blocked: "same_but_blocked s t \<Longrightarrow> sleep_allowed t = sleep_allowed s"
  by (simp add: same_but_blocked_def sleep_allowed_def WifiTxTimer_IsRunning_def GetNavDurationLeft_def IsRunning_def
      IsExpired_def EventImpl_IsCancelled_def Now_def split: option.splits)

lemma upd_agreement_node:
  assumes "upd_agreement a f g s = Some s'"
  shows "\<exists>ms. nd s' = (nd s)\<lparr>m_states := ms\<rparr>" "impls s' = impls s" "now_key s' = now_key s"
    "m_destroyEvents s' = m_destroyEvents s" "m_links (nd s') = m_links (nd s)" "m_currentTs s' = m_currentTs s"
    "m_typeOfStation (nd s') = m_typeOfStation (nd s)" "m_blockedPs (nd s') = m_blockedPs (nd s)"
    "now_time s' = now_time s"
  using assms by (auto simp: upd_agreement_def upd_station_eq now_key_def now_time_def split: option.splits)

subsection \<open>The effect of a service period event\<close>

text \<open>The MLD address of a station does not depend on its agreements.\<close>

lemma GetMldAddress_upd:
  assumes "upd_agreement a f g s = Some s'" and "GetMldAddress b s = None"
  shows "GetMldAddress b s' = None"
  using assms by (auto simp: upd_agreement_def upd_station_eq GetMldAddress_def station_def brand_new_def
      Option.bind_eq_None_conv split: option.splits if_splits)

lemma GetMldAddress_cong: "m_states (nd s') = m_states (nd s) \<Longrightarrow> GetMldAddress b s' = GetMldAddress b s"
  by (simp add: GetMldAddress_def)

lemma sleep_wakes:
  assumes links: "m_links (nd s) = [(l, p)]"
    and upd: "upd_agreement a f g s = Some s1" and call: "sleep_if_STA sch False s1 = Some s2"
  shows "\<exists>p'. m_links (nd s2) = [(l, p')] \<and>
    (m_typeOfStation (nd s) = STA \<and> sleep_allowed s \<longrightarrow> GetState (now_time s) (m_phyState p') \<noteq> SLEEP)"
proof -
  note n = upd_agreement_node [OF upd]
  have links1: "m_links (nd s1) = [(l, p)]" using links n(5) by simp
  have allowed: "sleep_allowed s1 = sleep_allowed s" using n(1-4) sleep_allowed_cong by blast
  show ?thesis
  proof (cases "m_typeOfStation (nd s) = STA")
    case False
    then show ?thesis using call links1 n(7) by (auto simp: sleep_if_STA_def)
  next
    case True
    then have p: "SetPhySleepState sch False s1 = Some s2" using call n(7) by (simp add: sleep_if_STA_def)
    show ?thesis
    proof (cases "sleep_allowed s1")
      case True
      have "ResumeFromSleep l s1 = Some s2" using SetPhySleepState_one [OF links1 True p] by simp
      from ResumeFromSleep_one [OF links1 this] n(9) show ?thesis by auto
    next
      case False
      then have "sim.more s2 = sim.more s1"
        using p by (auto simp: SetPhySleepState_def sleep_allowed_def ScheduleCall_sel split: if_splits)
      then show ?thesis using links1 False allowed by auto
    qed
  qed
qed

lemma ScheduleCall_uid:
  "ScheduleCall sch d c s = Some (i, s') \<Longrightarrow> id_uid i = sim_uid s \<and> sim_uid s' = sim_uid s + 1"
  by (auto simp: ScheduleCall_def MakeEvent_def Schedule_def Let_def split: if_splits)

lemma BeginTwtSpNow_effect:
  assumes inv: "twt_inv s" and room: "enough (7 + length (m_links (nd s))) s"
    and call: "BeginTwtSpNow MapScheduler f a w d s = Some s'"
    and w: "0 \<le> sint w" "0 \<le> sint d" and mld: "GetMldAddress a s = None"
  shows "\<exists>ag l p p'. find_agreement a f s' = Some ag \<and> m_isSpActiveNow ag \<and>
    scheduled s' (m_nextServicePeriodStartEvent ag) (w + m_currentTs s) (BeginTwtSp f a w d) \<and>
    scheduled s' (m_nextServicePeriodEndEvent ag) (d + m_currentTs s) (EndTwtSp f a w d) \<and>
    (\<forall>b h. b \<noteq> a \<or> h \<noteq> f \<longrightarrow> find_agreement b h s' = find_agreement b h s) \<and>
    m_links (nd s) = [(l, p)] \<and> m_links (nd s') = [(l, p')] \<and>
    set (m_blockedPs (nd s')) \<inter> set (peer_queues a l) = {} \<and>
    (m_typeOfStation (nd s) = STA \<and> sleep_allowed s \<longrightarrow> GetState (now_time s) (m_phyState p') \<noteq> SLEEP) \<and>
    id_uid (m_nextServicePeriodStartEvent ag) < id_uid (m_nextServicePeriodEndEvent ag)"
proof -
  obtain s1 s2 i s3 s4 l s5 j s6 where
    st: "upd_agreement a f (m_isSpActiveNow_update (\<lambda>_. True)) s = Some s1"
      "sleep_if_STA MapScheduler False s1 = Some s2"
      "ScheduleCall MapScheduler w (BeginTwtSp f a w d) s2 = Some (i, s3)"
      "upd_agreement a f (m_nextServicePeriodStartEvent_update (\<lambda>_. i)) s3 = Some s4"
      "first_link s4 = Some l"
      "UnblockUnicastTxOnLinks MapScheduler a [l] s4 = Some s5"
      "ScheduleCall MapScheduler d (EndTwtSp f a w d) s5 = Some (j, s6)"
      "upd_agreement a f (m_nextServicePeriodEndEvent_update (\<lambda>_. j)) s6 = Some s'"
    and i: "twt_inv s1" "twt_inv s2" "enough 1 s2" "twt_inv s3" "twt_inv s4" "twt_inv s5" "enough 1 s5" "twt_inv s6"
      "twt_inv s'"
    and c: "calls MapScheduler map_events (1 + length (m_links (nd s))) s s2" "calls MapScheduler map_events 4 s3 s5"
    by (rule BeginTwtSpNow_chain [OF inv call room])
  note ok = i [unfolded twt_inv_def]
  have oks: "agreements_ok s" using inv by (simp add: twt_inv_def)
  note u1 = upd_agreement_ok [OF st(1) oks] and n1 = upd_agreement_node [OF st(1)]
  note u4 = upd_agreement_ok [OF st(4) conjunct1 [OF conjunct2 [OF ok(4)]]] and n4 = upd_agreement_node [OF st(4)]
  note u7 = upd_agreement_ok [OF st(8) conjunct1 [OF conjunct2 [OF ok(8)]]] and n7 = upd_agreement_node [OF st(8)]
  note sl2 = sleep_if_STA_states [OF st(2)] and sl3 = ScheduleCall_sel(1) [OF st(3)]
    and sl5 = UnblockUnicastTxOnLinks_adds [OF st(6)] and sl6 = ScheduleCall_sel(1) [OF st(7)]
  have find: "find_agreement b h s' = (if b = a \<and> h = f
      then map_option (\<lambda>ag. ag\<lparr>m_isSpActiveNow := True, m_nextServicePeriodStartEvent := i,
        m_nextServicePeriodEndEvent := j\<rparr>) (find_agreement a f s)
      else find_agreement b h s)" for b h
    using u1(2) [of b h] u4(2) [of b h] u7(2) [of b h] find_agreement_cong [OF sl2] find_agreement_cong [of s3 s2]
      find_agreement_cong [of s5 s4] find_agreement_cong [of s6 s5] sl3 sl5 sl6
    by (cases "b = a \<and> h = f") (auto simp: option.map_comp comp_def)
  obtain ag0 where ag0: "find_agreement a f s = Some ag0"
    using st(1) by (rule upd_agreementE)
  have a36: "adds s3 s'"
    using adds_trans [OF adds_trans [OF adds_trans [OF u4(3) conjunct1 [OF sl5]] ScheduleCall_adds [OF st(7)]] u7(3)] .
  have c6: "calls MapScheduler map_events 1 s5 s6" using ScheduleCall_calls [OF st(7) i(7)] .
  have c7: "calls MapScheduler map_events 0 s6 s'" using st(8) by (rule upd_agreement_calls)
  have now2: "m_currentTs s2 = m_currentTs s" using c(1) by (simp add: calls_def)
  have now5: "m_currentTs s5 = m_currentTs s"
    using c(2) ScheduleCall_sel(4) [OF st(3)] now2 by (simp add: calls_def)
  have begin': "scheduled s' i (w + m_currentTs s) (BeginTwtSp f a w d)"
    using scheduledI [OF st(3) i(3) _ a36 calls_trans [OF calls_trans [OF c(2) c6] c7] w(1)] ok(2) now2 by simp
  have end': "scheduled s' j (d + m_currentTs s) (EndTwtSp f a w d)"
    using scheduledI [OF st(7) i(7) _ u7(3) c7 w(2)] ok(6) now5 by simp
  have uids: "id_uid i < id_uid j"
  proof -
    have "uid_room s2" using i(3) by (simp add: uid_room_def enough_def)
    then have "id_uid i < sim_uid s3" using ScheduleCall_uid [OF st(3)] less_Suc_uid by simp
    also have "sim_uid s3 \<le> sim_uid s5"
      using mapq.client_calls_ok [of s3 s5] c(2) ok(4) by (simp add: calls_def)
    also have "sim_uid s5 = id_uid j" using ScheduleCall_uid [OF st(7)] by simp
    finally show ?thesis .
  qed
  have "length (m_links (nd s4)) = 1" using st(5) by (simp add: first_link_def GetNLinks_def split: if_splits)
  then obtain p' where p': "m_links (nd s4) = [(l, p')]"
    using st(5) by (cases "m_links (nd s4)") (auto simp: first_link_def GetNLinks_def)
  have l2: "m_links (nd s2) = [(l, p')]" using p' n4(5) sl3 by simp
  have l': "m_links (nd s') = [(l, p')]" using p' n7(5) sl5 sl6 by simp
  have "length (m_links (nd s)) = 1" using l2 c(1) by (simp add: calls_def)
  then obtain l0 p where l0: "m_links (nd s) = [(l0, p)]"
    by (cases "m_links (nd s)") auto
  note wake = sleep_wakes [OF l0 st(1,2)]
  have ll: "l0 = l" using wake l2 by auto
  have awake: "GetState (now_time s) (m_phyState p') \<noteq> SLEEP" if "m_typeOfStation (nd s) = STA" "sleep_allowed s"
    using wake that l2 by auto
  have "GetMldAddress a s4 = None"
    using GetMldAddress_upd [OF st(1) mld] GetMldAddress_upd [OF st(4)] GetMldAddress_cong [OF sl2] sl3
    by (simp add: GetMldAddress_def)
  from UnblockUnicastTxOnLinks_blocked [OF st(6) this]
  have bl: "set (m_blockedPs (nd s')) \<inter> set (peer_queues a l) = {}"
    using n7(8) sl6 by auto
  show ?thesis
    using find [of a f] find ag0 begin' end' l0 l' ll bl awake uids by (intro exI conjI) (auto intro: sym)
qed

lemma sleep_sleeps:
  assumes links: "m_links (nd s) = [(l, p)]" and call: "sleep_if_STA MapScheduler True s = Some s'"
  shows "\<exists>p'. m_links (nd s') = [(l, p')] \<and> m_blockedPs (nd s') = m_blockedPs (nd s) \<and>
    (m_typeOfStation (nd s) = STA \<and> sleep_allowed s \<and> GetState (now_time s) (m_phyState p) \<notin> {TX, RX, SWITCHING} \<longrightarrow>
     GetState (now_time s) (m_phyState p') = SLEEP)"
proof (cases "m_typeOfStation (nd s) = STA")
  case False
  then show ?thesis using call links by (simp add: sleep_if_STA_def)
next
  case True
  then have p: "SetPhySleepState MapScheduler True s = Some s'" using call by (simp add: sleep_if_STA_def)
  show ?thesis
  proof (cases "sleep_allowed s")
    case True
    have "SetSleepMode MapScheduler l s = Some s'" using SetPhySleepState_one [OF links True p] by simp
    from SetSleepMode_one [OF links this] show ?thesis by (auto split: if_splits)
  next
    case False
    then have "sim.more s' = sim.more s"
      using p by (auto simp: SetPhySleepState_def sleep_allowed_def ScheduleCall_sel split: if_splits)
    then show ?thesis using links False by auto
  qed
qed

lemma EndTwtSpNow_effect:
  assumes inv: "twt_inv s" and call: "EndTwtSpNow MapScheduler f a s = Some s'" and mld: "GetMldAddress a s = None"
  shows "\<exists>ag l p p'. find_agreement a f s' = Some ag \<and> \<not> m_isSpActiveNow ag \<and>
    (\<forall>b h. b \<noteq> a \<or> h \<noteq> f \<longrightarrow> find_agreement b h s' = find_agreement b h s) \<and>
    m_links (nd s) = [(l, p)] \<and> m_links (nd s') = [(l, p')] \<and>
    set (peer_queues a l) \<subseteq> set (m_blockedPs (nd s')) \<and>
    (m_typeOfStation (nd s) = STA \<and> sleep_allowed s \<and> GetState (now_time s) (m_phyState p) \<notin> {TX, RX, SWITCHING} \<longrightarrow>
     GetState (now_time s) (m_phyState p') = SLEEP)"
proof -
  obtain s1 l where
    st: "upd_agreement a f (m_isSpActiveNow_update (\<lambda>_. False)) s = Some s1"
      "first_link s1 = Some l"
      "sleep_if_STA MapScheduler True (BlockUnicastTxOnLinks a [l] s1) = Some s'"
    using call by (rule EndTwtSpNowE)
  have oks: "agreements_ok s" using inv by (simp add: twt_inv_def)
  note u = upd_agreement_ok [OF st(1) oks] and n = upd_agreement_node [OF st(1)]
  let ?s2 = "BlockUnicastTxOnLinks a [l] s1"
  note same = BlockUnicastTxOnLinks_same [of s1 a "[l]", unfolded same_but_blocked_def]
  have "length (m_links (nd s1)) = 1" using st(2) by (simp add: first_link_def GetNLinks_def split: if_splits)
  then obtain p where p1: "m_links (nd s1) = [(l, p)]"
    using st(2) by (cases "m_links (nd s1)") (auto simp: first_link_def GetNLinks_def)
  have p2: "m_links (nd ?s2) = [(l, p)]" using p1 same by simp
  have p0: "m_links (nd s) = [(l, p)]" using p1 n(5) by simp
  have bl: "set (peer_queues a l) \<subseteq> set (m_blockedPs (nd ?s2))"
    using BlockUnicastTxOnLinks_blocked [OF GetMldAddress_upd [OF st(1) mld]] by blast
  have al: "sleep_allowed ?s2 = sleep_allowed s"
    using sleep_allowed_blocked [OF BlockUnicastTxOnLinks_same [of s1 a "[l]"]] n(1-4) sleep_allowed_cong by blast
  have ty: "m_typeOfStation (nd ?s2) = m_typeOfStation (nd s)" "now_time ?s2 = now_time s"
    using same n(7,9) by (simp_all add: now_time_def)
  obtain p' where p': "m_links (nd s') = [(l, p')]" "m_blockedPs (nd s') = m_blockedPs (nd ?s2)"
    "m_typeOfStation (nd s) = STA \<and> sleep_allowed s \<and> GetState (now_time s) (m_phyState p) \<notin> {TX, RX, SWITCHING} \<longrightarrow>
     GetState (now_time s) (m_phyState p') = SLEEP"
    using sleep_sleeps [OF p2 st(3)] unfolding al ty by blast
  have m: "m_states (nd s') = m_states (nd s1)" using sleep_if_STA_states [OF st(3)] same by simp
  obtain ag0 where ag0: "find_agreement a f s = Some ag0"
    using st(1) by (rule upd_agreementE)
  have ag: "find_agreement a f s' = Some (ag0\<lparr>m_isSpActiveNow := False\<rparr>)"
    using u(2) [of a f] find_agreement_cong [OF m] ag0 by simp
  have others: "\<forall>b h. b \<noteq> a \<or> h \<noteq> f \<longrightarrow> find_agreement b h s' = find_agreement b h s"
    using u(2) find_agreement_cong [OF m] by auto
  show ?thesis
    using ag others p0 p' bl by (intro exI conjI) (auto simp: p'(2))
qed

lemma CreateTwtAgreement_effect:
  assumes inv: "twt_inv s" and call: "CreateTwtAgreement MapScheduler f a rq im ty tr ind ch w d t b s = Some s'"
    and en: "enough 1 s" and pos: "0 \<le> sint (t + b)"
  shows "\<exists>ag. find_agreement a f s' = Some ag \<and> \<not> m_isSpActiveNow ag \<and>
    scheduled s' (m_nextServicePeriodStartEvent ag) (t + b + m_currentTs s) (BeginTwtSp f a w d) \<and>
    (\<forall>c h. c \<noteq> a \<or> h \<noteq> f \<longrightarrow> find_agreement c h s' = find_agreement c h s) \<and>
    (\<forall>old. find_agreement a f s = Some old \<longrightarrow>
       IsExpired (m_nextServicePeriodStartEvent old) s' \<and> IsExpired (m_nextServicePeriodEndEvent old) s')"
proof -
  obtain s1 s2 i s3 where
    s1: "s1 = (case find_agreement a f s of None \<Rightarrow> s | Some old \<Rightarrow>
        upd_station a (\<lambda>st. st\<lparr>m_twtAgreementMap := smap_erase lt_flow f (m_twtAgreementMap st),
                               m_twtAgreementCount := m_twtAgreementCount st - 1\<rparr>)
          (Cancel (m_nextServicePeriodEndEvent old) (Cancel (m_nextServicePeriodStartEvent old) s)))"
    and st: "ScheduleCall MapScheduler (t + b) (BeginTwtSp f a w d) s2 = Some (i, s3)"
    "upd_agreement a f (m_nextServicePeriodStartEvent_update (\<lambda>_. i)) s3 = Some s'"
    and new: "find_agreement a f s2 = Some (WifiTwtAgreement f a rq im ty tr ind ch w d t False False)"
    and inv': "twt_inv s1" "twt_inv s2" "enough 1 s2" "twt_inv s3" "twt_inv s'"
    and c: "calls MapScheduler map_events 0 s s1" "calls MapScheduler map_events 0 s1 s2"
    by (rule CreateTwtAgreement_chain [OF inv call en])
  have ok3: "agreements_ok s3" using inv'(4) by (simp add: twt_inv_def)
  note u = upd_agreement_ok [OF st(2) ok3]
  have "find_agreement a f s' = Some ((WifiTwtAgreement f a rq im ty tr ind ch w d t False False)
      \<lparr>m_nextServicePeriodStartEvent := i\<rparr>)"
    using u(2) [of a f] new find_agreement_cong [of s3 s2] ScheduleCall_sel(1) [OF st(1)] by simp
  moreover have "scheduled s' i (t + b + m_currentTs s) (BeginTwtSp f a w d)"
  proof -
    have ok: "sim_ok map_invar map_events s2" using inv'(2) by (simp add: twt_inv_def)
    have "m_currentTs s2 = m_currentTs s" using c by (simp add: calls_def)
    then show ?thesis
      using scheduledI [OF st(1) inv'(3) ok u(3) upd_agreement_calls [OF st(2), of _ _ 0] pos] by simp
  qed
  moreover have "find_agreement c' h s' = find_agreement c' h s" if "c' \<noteq> a \<or> h \<noteq> f" for c' h
    using CreateTwtAgreement_ok(3) [OF call _ that] inv by (simp add: twt_inv_def)
  moreover have "IsExpired (m_nextServicePeriodStartEvent old) s' \<and> IsExpired (m_nextServicePeriodEndEvent old) s'"
    if old: "find_agreement a f s = Some old" for old
  proof -
    let ?i = "m_nextServicePeriodStartEvent old" and ?j = "m_nextServicePeriodEndEvent old"
    note k = twt_inv_known [OF inv old]
    have ok: "sim_ok map_invar map_events s" using inv by (simp add: twt_inv_def)
    let ?t = "Cancel ?i s"
    have ct: "calls MapScheduler map_events 0 s ?t" by (rule calls_Cancel)
    have okt: "sim_ok map_invar map_events ?t" using sim_ok_calls [OF ct ok] .
    have ei: "IsExpired ?i ?t" using Cancel_expired [OF ok] k by blast
    let ?u = "Cancel ?j ?t"
    have cu: "calls MapScheduler map_events 0 ?t ?u" by (rule calls_Cancel)
    have oku: "sim_ok map_invar map_events ?u" using sim_ok_calls [OF cu okt] .
    have kt: "id_known ?t ?i" "id_known ?t ?j" using id_known_calls [OF ct ok] k by blast+
    have ku: "id_known ?u ?i" "id_known ?u ?j" using id_known_calls [OF cu okt] kt by blast+
    have eu: "IsExpired ?i ?u" "IsExpired ?j ?u"
      using expired_kept [OF cu okt kt(1) ei] Cancel_expired [OF okt kt(2)] by blast+
    have c1: "calls MapScheduler map_events 0 ?u s1" unfolding s1 old option.case by (rule upd_station_calls)
    have c': "calls MapScheduler map_events 1 ?u s'"
      using calls_trans [OF calls_trans [OF calls_trans [OF c1 c(2)] ScheduleCall_calls [OF st(1) inv'(3)]]
          upd_agreement_calls [OF st(2), of _ _ 0]] by simp
    show ?thesis using expired_kept [OF c' oku] ku eu by blast
  qed
  ultimately show ?thesis by (intro exI conjI) (auto simp: WifiTwtAgreement_def)
qed

end
