(* ===== verification/Twt_Props.thy ===== *)
theory Twt_Props
  imports Twt_Effects Simulator_Runs
begin

text \<open>
  The properties of the TWT node: the invariant of its agreements, what the two service period
  events and the set-up of an agreement do, the time a frame exchange may take, and the two ways in
  which a station comes to sleep during an active service period.
\<close>

subsection \<open>Runs to evaluate\<close>

definition room_ok :: "map_scheduler twt_sim \<Rightarrow> bool" where
  "room_ok s \<longleftrightarrow> uint (sim_uid s) < 4294960000 \<and> length (m_links (nd s)) < 100 \<and> 0 \<le> sint (m_currentTs s)"

lemma room_ok_room: "room_ok s \<Longrightarrow> room_for twt_room e s"
proof -
  assume s: "room_ok s"
  have "int (unat (sim_uid s)) < 4294960000" using s by (simp add: room_ok_def)
  then have "unat (sim_uid s) < 4294960000" by linarith
  then have "enough (7 + length (m_links (nd s))) s" using s by (simp add: enough_def room_ok_def)
  then show ?thesis by (simp add: room_for_def twt_room_def split: option.splits)
qed

text \<open>\<open>n\<close> rounds of the event loop, each within the bounds on identifiers and time.\<close>

fun rounds :: "nat \<Rightarrow> map_scheduler twt_sim \<Rightarrow> map_scheduler twt_sim option" where
  "rounds 0 s = Some s"
| "rounds (Suc n) s =
     (case RemoveNext MapScheduler (m_events s) of None \<Rightarrow> None
      | Some (e, q) \<Rightarrow> if room_ok (start_event e q s)
          then Option.bind (ProcessOneEvent MapScheduler (twt_notify MapScheduler) s) (rounds n) else None)"

lemma rounds_reach: "twt_reach s \<Longrightarrow> rounds n s = Some s' \<Longrightarrow> twt_reach s'"
proof (induction n arbitrary: s)
  case (Suc n)
  obtain e q s1 where "RemoveNext MapScheduler (m_events s) = Some (e, q)"
    "room_for twt_room e (start_event e q s)"
    "ProcessOneEvent MapScheduler (twt_notify MapScheduler) s = Some s1" "rounds n s1 = Some s'"
    using Suc.prems(2) room_ok_room by (auto simp: Option.bind_eq_Some_conv split: option.splits if_splits)
  then show ?case using Suc.IH [of s1] twt_reach.event [OF Suc.prems(1)] by blast
qed simp

text \<open>A station that expects a beacon, and sets up one flow with wake interval 100, duration 50
  and first service period at 10.\<close>

definition beacon_sta :: "map_scheduler twt_sim" where
  "beacon_sta = sim.more_update (\<lambda>n. n\<lparr>m_beaconEvent := one_event_id\<rparr>) (one_event_sim (fresh_node STA))"

lemma beacon_sta_reach: "twt_reach beacon_sta"
proof (rule twt_reach.other)
  show "twt_reach (fresh_sim (fresh_node STA))" by (rule twt_reach.fresh) (simp add: fresh_node_def)
  have "enough 1 (fresh_sim (fresh_node STA))" by (simp add: enough_def)
  from ScheduleCall_calls [OF one_event_scheduled this, of map_events]
  have "(client_call MapScheduler map_events)\<^sup>*\<^sup>* (fresh_sim (fresh_node STA)) (one_event_sim (fresh_node STA))"
    by (simp add: calls_def)
  then show "(client_call MapScheduler map_events)\<^sup>*\<^sup>* (fresh_sim (fresh_node STA)) beacon_sta"
    unfolding beacon_sta_def by (rule rtranclp.rtrancl_into_rtrancl) (rule call_user)
  show "m_states (nd beacon_sta) = m_states (nd (fresh_sim (fresh_node STA)))"
    by (simp add: beacon_sta_def one_event_sim_def)
qed

definition one_flow :: "map_scheduler twt_sim" where
  "one_flow = the (SetTwtSchedule MapScheduler 0 7 True True True False True 0 100 50 10 beacon_sta)"

definition one_flow_at :: "nat \<Rightarrow> map_scheduler twt_sim" where
  "one_flow_at n = the (rounds n one_flow)"

lemma the_Some: "x \<noteq> None \<Longrightarrow> x = Some (the x)"
  by simp

lemma one_flow_set: "SetTwtSchedule MapScheduler 0 7 True True True False True 0 100 50 10 beacon_sta = Some one_flow"
proof -
  have "(case SetTwtSchedule MapScheduler 0 7 True True True False True 0 100 50 10 beacon_sta of
      None \<Rightarrow> False | Some _ \<Rightarrow> True)"
    by code_simp
  then show ?thesis by (simp add: one_flow_def split: option.splits)
qed

lemma one_flow_reach: "twt_reach one_flow"
  by (rule twt_reach.schedule [OF beacon_sta_reach _ one_flow_set])
     (simp add: enough_def beacon_sta_def one_event_sim_def)

text \<open>The next event is the uncancelled call \<open>c\<close> at time \<open>t\<close>, and processing it succeeds.\<close>

definition next_call :: "map_scheduler twt_sim \<Rightarrow> twt_call \<Rightarrow> 64 word \<Rightarrow> bool" where
  "next_call s c t \<longleftrightarrow> (case RemoveNext MapScheduler (m_events s) of None \<Rightarrow> False
     | Some (e, q) \<Rightarrow> m_ts (key e) = t \<and> room_ok (start_event e q s) \<and>
         (case impl e of None \<Rightarrow> False
          | Some p \<Rightarrow> impls s p = Some \<lparr>what = c, m_cancel = False\<rparr>) \<and>
         (case ProcessOneEvent MapScheduler (twt_notify MapScheduler) s of None \<Rightarrow> False | Some _ \<Rightarrow> True))"

lemma next_callE:
  assumes "next_call s c t"
  obtains e q p s' where "RemoveNext MapScheduler (m_events s) = Some (e, q)" "m_ts (key e) = t"
    "room_for twt_room e (start_event e q s)" "impl e = Some p" "impls s p = Some \<lparr>what = c, m_cancel = False\<rparr>"
    "ProcessOneEvent MapScheduler (twt_notify MapScheduler) s = Some s'"
  using assms room_ok_room by (auto simp: next_call_def split: option.splits)

lemma one_flow_round:
  assumes "(case rounds n one_flow of None \<Rightarrow> False | Some s \<Rightarrow> P s)"
  shows "twt_reach (one_flow_at n)" "P (one_flow_at n)"
  using assms rounds_reach [OF one_flow_reach] by (auto simp: one_flow_at_def split: option.splits)

subsection \<open>The agreements\<close>

lemma flows_below_8: "card {f :: flow_id. f < 8} = 8" "finite {f :: flow_id. f < 8}"
proof -
  have eq: "{f :: flow_id. f < 8} = set [0, 1, 2, 3, 4, 5, 6, 7]"
  proof -
    have "f \<in> set [0, 1, 2, 3, 4, 5, 6, 7]" if "f < 8" for f :: flow_id
    proof -
      have "unat f < 8" using that by (simp add: word_less_nat_alt)
      then have "unat f \<in> set [0, 1, 2, 3, 4, 5, 6, 7]" by auto
      then have "(of_nat (unat f) :: flow_id) \<in> of_nat ` set [0, 1, 2, 3, 4, 5, 6, 7]" by (rule imageI)
      then show ?thesis by simp
    qed
    then show ?thesis by auto
  qed
  show "finite {f :: flow_id. f < 8}" unfolding eq by simp
  show "card {f :: flow_id. f < 8} = 8" unfolding eq by simp
qed

lemma agreements_count:
  assumes "agreements_ok s"
  shows "{f. find_agreement a f s \<noteq> None} \<subseteq> {f. f < 8}"
    and "unat (GetTwtAgreementCount a s) = card {f. find_agreement a f s \<noteq> None}"
    and "card {f. find_agreement a f s \<noteq> None} \<le> 8"
proof -
  let ?m = "m_twtAgreementMap (station a s)"
  note st = agreements_okD [OF assms, of a, unfolded station_ok_def]
  have dom: "{f. find_agreement a f s \<noteq> None} = fst ` set ?m"
    by (auto simp: find_agreement_map map_of_eq_None_iff)
  show sub: "{f. find_agreement a f s \<noteq> None} \<subseteq> {f. f < 8}"
    unfolding dom using st by auto
  show le: "card {f. find_agreement a f s \<noteq> None} \<le> 8"
    using card_mono [OF flows_below_8(2) sub] flows_below_8(1) by simp
  have "card (fst ` set ?m) = length ?m"
    using distinct_card [OF sorted_by_distinct [OF conjunct1 [OF st]]] by simp
  moreover have "unat (ucast (of_nat n :: 32 word) :: 8 word) = n" if "n \<le> 8" for n
  proof -
    have "n mod 2 ^ 32 = n" "n mod 2 ^ 8 = n" using that by simp_all
    then show ?thesis by (simp add: unsigned_ucast_eq unsigned_of_nat take_bit_eq_mod)
  qed
  ultimately show "unat (GetTwtAgreementCount a s) = card {f. find_agreement a f s \<noteq> None}"
    using st le unfolding dom by (simp add: GetTwtAgreementCount_def)
qed

text \<open>C11: in every reachable state of the node a peer has at most eight agreements, their flows are
  below 8, and the counter the manager keeps, read as an 8-bit number, is exactly their number.\<close>

theorem agreement_counter_exact:
  assumes "twt_reach s"
  shows "unat (GetTwtAgreementCount a s) = card {f. find_agreement a f s \<noteq> None} \<and>
    card {f. find_agreement a f s \<noteq> None} \<le> 8 \<and> (\<forall>f. find_agreement a f s \<noteq> None \<longrightarrow> f < 8)"
  using agreements_count [of s a] twt_reach_inv [OF assms] by (auto simp: twt_inv_def)

theorem agreement_counter_exact_witness:
  "unat (GetTwtAgreementCount 7 one_flow) = card {f. find_agreement 7 f one_flow \<noteq> None} \<and>
   GetTwtAgreementCount 7 one_flow = 1"
proof -
  have "GetTwtAgreementCount 7 one_flow = 1" by code_simp
  then show ?thesis using agreement_counter_exact [OF one_flow_reach, of 7] by simp
qed

subsection \<open>The service periods\<close>

lemma event_step:
  assumes "twt_reach s" and rem: "RemoveNext MapScheduler (m_events s) = Some (e, q)"
    and room: "room_for twt_room e (start_event e q s)"
    and ev: "impl e = Some p" "impls s p = Some \<lparr>what = c, m_cancel = False\<rparr>"
    and step: "ProcessOneEvent MapScheduler (twt_notify MapScheduler) s = Some s'"
  shows "twt_inv (start_event e q s)" "twt_notify MapScheduler c (start_event e q s) = Some s'"
    "enough (7 + length (m_links (nd s))) (start_event e q s)"
proof -
  have inv: "twt_inv s" using assms(1) by (rule twt_reach_inv)
  then have ok: "sim_ok map_invar map_events s" by (simp add: twt_inv_def)
  note p = ProcessOneEvent_twt [OF ok rem room step]
  show inv1: "twt_inv (start_event e q s)" by (rule start_event_inv [OF inv p(1-3)])
  show "enough (7 + length (m_links (nd s))) (start_event e q s)"
    using room ev by (simp add: room_for_def twt_room_def start_event_def)
  have "\<not> m_ts (key e) < m_currentTs s"
    using p(2) by (auto simp: now_key_def rank_def less_prod_def)
  then obtain s1 where s1: "twt_notify MapScheduler c (start_event e q s) = Some s1"
    "ProcessEventsWithContext MapScheduler s1 = Some s'"
    using step rem ev by (auto simp: ProcessOneEvent_def EventImpl_Invoke_def Option.bind_eq_Some_conv start_event_def)
  have "twt_inv s1"
    using twt_notify_inv [OF inv1 s1(1)] room ev by (simp add: room_for_def start_event_def)
  then have "m_eventsWithContextEmpty s1" using sim_okD(7) by (auto simp: twt_inv_def)
  then show "twt_notify MapScheduler c (start_event e q s) = Some s'"
    using s1 by (simp add: ProcessEventsWithContext_def)
qed

lemma start_event_sel [simp]:
  "find_agreement a f (start_event e q s) = find_agreement a f s" "m_currentTs (start_event e q s) = m_ts (key e)"
  "nd (start_event e q s) = nd s" "GetMldAddress a (start_event e q s) = GetMldAddress a s"
  "now_time (start_event e q s) = sint (m_ts (key e))"
  by (simp_all add: start_event_def find_agreement_def station_def GetMldAddress_def now_time_def)

text \<open>C12: when the event that begins a service period is processed, the agreement becomes active, its
  end is scheduled after the nominal wake duration and its next beginning after the wake interval,
  counted from the time of the event; no other agreement changes; the peer's queues are unblocked on
  the link; and the PHY of a station is awake unless a frame timer or the NAV postpones it.\<close>

theorem service_period_begins:
  assumes "twt_reach s" and "RemoveNext MapScheduler (m_events s) = Some (e, q)"
    and "room_for twt_room e (start_event e q s)"
    and "impl e = Some p" and "impls s p = Some \<lparr>what = BeginTwtSp f a w d, m_cancel = False\<rparr>"
    and "ProcessOneEvent MapScheduler (twt_notify MapScheduler) s = Some s'"
    and "0 \<le> sint w" and "0 \<le> sint d" and "GetMldAddress a s = None"
  shows "\<exists>ag l ph. find_agreement a f s' = Some ag \<and> m_isSpActiveNow ag \<and>
    scheduled s' (m_nextServicePeriodStartEvent ag) (w + m_ts (key e)) (BeginTwtSp f a w d) \<and>
    scheduled s' (m_nextServicePeriodEndEvent ag) (d + m_ts (key e)) (EndTwtSp f a w d) \<and>
    (\<forall>b h. b \<noteq> a \<or> h \<noteq> f \<longrightarrow> find_agreement b h s' = find_agreement b h s) \<and>
    m_links (nd s') = [(l, ph)] \<and> set (m_blockedPs (nd s')) \<inter> set (peer_queues a l) = {} \<and>
    (m_typeOfStation (nd s) = STA \<and> sleep_allowed (start_event e q s) \<longrightarrow>
     GetState (sint (m_ts (key e))) (m_phyState ph) \<noteq> SLEEP)"
proof -
  note st = event_step [OF assms(1-6)]
  have call: "BeginTwtSpNow MapScheduler f a w d (start_event e q s) = Some s'"
    using st(2) by (simp add: twt_notify_def)
  from BeginTwtSpNow_effect [OF st(1) _ call assms(7,8)] st(3) assms(9) show ?thesis
    by simp blast
qed

theorem service_period_begins_witness:
  "\<exists>s' ag. rounds 1 (one_flow_at 1) = Some s' \<and> find_agreement 7 0 s' = Some ag \<and> m_isSpActiveNow ag \<and>
    scheduled s' (m_nextServicePeriodStartEvent ag) 110 (BeginTwtSp 0 7 100 50) \<and>
    scheduled s' (m_nextServicePeriodEndEvent ag) 60 (EndTwtSp 0 7 100 50)"
proof -
  have "(case rounds 1 one_flow of None \<Rightarrow> False
    | Some s \<Rightarrow> next_call s (BeginTwtSp 0 7 100 50) 10 \<and> GetMldAddress 7 s = None)"
    by code_simp
  note r = one_flow_round [OF this]
  then obtain e q p s' where n: "RemoveNext MapScheduler (m_events (one_flow_at 1)) = Some (e, q)" "m_ts (key e) = 10"
    "room_for twt_room e (start_event e q (one_flow_at 1))" "impl e = Some p"
    "impls (one_flow_at 1) p = Some \<lparr>what = BeginTwtSp 0 7 100 50, m_cancel = False\<rparr>"
    "ProcessOneEvent MapScheduler (twt_notify MapScheduler) (one_flow_at 1) = Some s'"
    "room_ok (start_event e q (one_flow_at 1))"
    by (auto simp: next_call_def room_ok_room split: option.splits)
  have "rounds 1 (one_flow_at 1) = Some s'"
    using n by (simp add: One_nat_def)
  moreover from service_period_begins [OF r(1) n(1,3-6)] r(2) n(2)
  obtain ag where "find_agreement 7 0 s' = Some ag" "m_isSpActiveNow ag"
    "scheduled s' (m_nextServicePeriodStartEvent ag) 110 (BeginTwtSp 0 7 100 50)"
    "scheduled s' (m_nextServicePeriodEndEvent ag) 60 (EndTwtSp 0 7 100 50)"
    by auto
  ultimately show ?thesis by blast
qed

text \<open>C13: when the event that ends a service period is processed, the agreement becomes inactive and
  the peer's queues are blocked on the link; no other agreement changes; and the PHY of a station
  sleeps, unless it is sending, receiving or switching or a frame timer or the NAV postpones it.\<close>

theorem service_period_ends:
  assumes "twt_reach s" and "RemoveNext MapScheduler (m_events s) = Some (e, q)"
    and "room_for twt_room e (start_event e q s)"
    and "impl e = Some p" and "impls s p = Some \<lparr>what = EndTwtSp f a w d, m_cancel = False\<rparr>"
    and "ProcessOneEvent MapScheduler (twt_notify MapScheduler) s = Some s'" and "GetMldAddress a s = None"
  shows "\<exists>ag l ph ph'. find_agreement a f s' = Some ag \<and> \<not> m_isSpActiveNow ag \<and>
    (\<forall>b h. b \<noteq> a \<or> h \<noteq> f \<longrightarrow> find_agreement b h s' = find_agreement b h s) \<and>
    m_links (nd s) = [(l, ph)] \<and> m_links (nd s') = [(l, ph')] \<and>
    set (peer_queues a l) \<subseteq> set (m_blockedPs (nd s')) \<and>
    (m_typeOfStation (nd s) = STA \<and> sleep_allowed (start_event e q s) \<and>
     GetState (sint (m_ts (key e))) (m_phyState ph) \<notin> {TX, RX, SWITCHING} \<longrightarrow>
     GetState (sint (m_ts (key e))) (m_phyState ph') = SLEEP)"
proof -
  note st = event_step [OF assms(1-6)]
  have call: "EndTwtSpNow MapScheduler f a (start_event e q s) = Some s'"
    using st(2) by (simp add: twt_notify_def)
  from EndTwtSpNow_effect [OF st(1) call] assms(7) show ?thesis by simp
qed

theorem service_period_ends_witness:
  "\<exists>s' ag l ph. rounds 1 (one_flow_at 6) = Some s' \<and> find_agreement 7 0 s' = Some ag \<and> \<not> m_isSpActiveNow ag \<and>
    m_links (nd s') = [(l, ph)] \<and> GetState 60 (m_phyState ph) = SLEEP"
proof -
  have "(case rounds 6 one_flow of None \<Rightarrow> False
    | Some s \<Rightarrow> next_call s (EndTwtSp 0 7 100 50) 60 \<and> GetMldAddress 7 s = None \<and> m_typeOfStation (nd s) = STA \<and>
        (case RemoveNext MapScheduler (m_events s) of None \<Rightarrow> False
         | Some (e, q) \<Rightarrow> sleep_allowed (start_event e q s)) \<and>
        list_all (\<lambda>(l, ph). GetState 60 (m_phyState ph) = IDLE) (m_links (nd s)))"
    by code_simp
  note r = one_flow_round [OF this]
  then obtain e q p s' where n: "RemoveNext MapScheduler (m_events (one_flow_at 6)) = Some (e, q)" "m_ts (key e) = 60"
    "room_for twt_room e (start_event e q (one_flow_at 6))" "impl e = Some p"
    "impls (one_flow_at 6) p = Some \<lparr>what = EndTwtSp 0 7 100 50, m_cancel = False\<rparr>"
    "ProcessOneEvent MapScheduler (twt_notify MapScheduler) (one_flow_at 6) = Some s'"
    "room_ok (start_event e q (one_flow_at 6))"
    by (auto simp: next_call_def room_ok_room split: option.splits)
  have "rounds 1 (one_flow_at 6) = Some s'"
    using n by (simp add: One_nat_def)
  moreover from service_period_ends [OF r(1) n(1,3-6)] r(2) n(1,2)
  obtain ag l ph where "find_agreement 7 0 s' = Some ag" "\<not> m_isSpActiveNow ag" "m_links (nd s') = [(l, ph)]"
    "GetState 60 (m_phyState ph) = SLEEP"
    by auto
  ultimately show ?thesis by blast
qed

subsection \<open>Setting up an agreement\<close>

text \<open>C14: a schedule that is accepted makes an inactive agreement whose first service period is
  scheduled after the requested time and the time left to the next beacon; the other agreements stay;
  and of a former agreement of the flow the two events that it has recorded, the next beginning and the end
  that was scheduled last, can no longer run. (With a wake duration equal to the wake interval an earlier end
  may still be pending, which the agreement no longer records.)\<close>

theorem SetTwtSchedule_effect:
  assumes "twt_reach s" and "enough 1 s"
    and "SetTwtSchedule MapScheduler f a rq im ty tr ind ch w d t s = Some s'"
    and "\<And>b. GetTimeTillNextBeacon s = Some b \<Longrightarrow> 0 \<le> sint (t + b)"
  shows "\<exists>ag b. find_agreement a f s' = Some ag \<and> \<not> m_isSpActiveNow ag \<and> GetTimeTillNextBeacon s = Some b \<and>
    scheduled s' (m_nextServicePeriodStartEvent ag) (t + b + m_currentTs s) (BeginTwtSp f a w d) \<and>
    (\<forall>c h. c \<noteq> a \<or> h \<noteq> f \<longrightarrow> find_agreement c h s' = find_agreement c h s) \<and>
    (\<forall>old. find_agreement a f s = Some old \<longrightarrow>
       \<not> IsRunning (m_nextServicePeriodStartEvent old) s' \<and> \<not> IsRunning (m_nextServicePeriodEndEvent old) s')"
proof -
  have inv: "twt_inv s" using assms(1) by (rule twt_reach_inv)
  obtain b where b: "GetTimeTillNextBeacon s = Some b"
    "CreateTwtAgreement MapScheduler f a rq im ty tr ind ch w d t b s = Some s'"
    using assms(3) by (auto simp: SetTwtSchedule_def Option.bind_eq_Some_conv split: if_splits)
  show ?thesis
    using CreateTwtAgreement_effect [OF inv b(2) assms(2) assms(4) [OF b(1)]] b(1) unfolding IsRunning_def by blast
qed

text \<open>The same flow set up again with a new schedule.\<close>

definition new_flow :: "map_scheduler twt_sim" where
  "new_flow = the (SetTwtSchedule MapScheduler 0 7 True True True False True 0 200 20 30 one_flow)"

theorem SetTwtSchedule_effect_witness:
  "\<exists>ag old. find_agreement 7 0 new_flow = Some ag \<and> find_agreement 7 0 one_flow = Some old \<and>
    scheduled new_flow (m_nextServicePeriodStartEvent ag) 30 (BeginTwtSp 0 7 200 20) \<and>
    \<not> IsRunning (m_nextServicePeriodStartEvent old) new_flow"
proof -
  have ev: "(case SetTwtSchedule MapScheduler 0 7 True True True False True 0 200 20 30 one_flow of None \<Rightarrow> False
      | Some _ \<Rightarrow> GetTimeTillNextBeacon one_flow = Some 0 \<and> m_currentTs one_flow = 0 \<and> room_ok one_flow \<and>
          find_agreement 7 0 one_flow \<noteq> None)"
    by code_simp
  then have set: "SetTwtSchedule MapScheduler 0 7 True True True False True 0 200 20 30 one_flow = Some new_flow"
    by (simp add: new_flow_def split: option.splits)
  obtain old where old: "find_agreement 7 0 one_flow = Some old" using ev by (auto split: option.splits)
  have b: "GetTimeTillNextBeacon one_flow = Some 0" "m_currentTs one_flow = 0" "room_ok one_flow"
    using ev by (auto split: option.splits)
  have en: "enough 1 one_flow"
  proof -
    have "int (unat (sim_uid one_flow)) < 4294960000" using b(3) by (simp add: room_ok_def)
    then have "unat (sim_uid one_flow) < 4294960000" by linarith
    then show ?thesis using b(2) by (simp add: enough_def)
  qed
  show ?thesis
    using SetTwtSchedule_effect [OF one_flow_reach en set] b(1,2) old by fastforce
qed

lemma ScheduleCall_succeeds:
  assumes ok: "sim_ok map_invar map_events s" and en: "enough 1 s" and thread: "this_thread s = m_mainThreadId s"
  shows "\<exists>i s'. ScheduleCall MapScheduler d c s = Some (i, s')"
proof -
  obtain p s1 where p: "MakeEvent c s = (p, s1)" by fastforce
  have s1: "impls s1 p \<noteq> None" "sim_uid s1 = sim_uid s" "m_currentTs s1 = m_currentTs s"
    "m_mainThreadId s1 = this_thread s1"
    using p thread by (auto simp: MakeEvent_def)
  have "sim_ok map_invar map_events s1"
    using mapq.client_call_ok [OF call_new [OF p] ok] by blast
  moreover have "uid_room s1" and "0 \<le> sint d \<Longrightarrow> time_room d s1"
    using en s1 by (auto simp: uid_room_def enough_def intro: time_room_nonneg)
  ultimately obtain i s' where "Schedule MapScheduler d p s1 = Some (i, s')"
    using mapq.Schedule_ok [of s1 d p] s1 by blast
  then show ?thesis using p by (simp add: ScheduleCall_def)
qed

lemma CreateTwtAgreement_succeeds:
  assumes inv: "twt_inv s" and en: "enough 1 s" and thread: "this_thread s = m_mainThreadId s"
    and f: "f < 8" and ty: "m_typeOfStation (nd s) = AP \<and> \<not> rq \<or> m_typeOfStation (nd s) = STA \<and> rq"
  shows "\<exists>s'. CreateTwtAgreement MapScheduler f a rq im fl tr True ch w d t b s = Some s'"
proof -
  have ok: "agreements_ok s" using inv by (simp add: twt_inv_def)
  let ?new = "WifiTwtAgreement f a rq im fl tr True ch w d t False False"
  define s1 where s1: "s1 = (case find_agreement a f s of None \<Rightarrow> s | Some old \<Rightarrow>
        upd_station a (\<lambda>st. st\<lparr>m_twtAgreementMap := smap_erase lt_flow f (m_twtAgreementMap st),
                               m_twtAgreementCount := m_twtAgreementCount st - 1\<rparr>)
          (Cancel (m_nextServicePeriodEndEvent old) (Cancel (m_nextServicePeriodStartEvent old) s)))"
  define s2 where s2: "s2 = upd_station a (\<lambda>st. st\<lparr>
        m_twtAgreementMap := fst (smap_insert lt_flow f ?new (m_twtAgreementMap st)),
        m_twtAgreementCount := m_twtAgreementCount st + 1\<rparr>) s1"
  note dr = drop_agreement [OF ok s1]
  have c1: "calls MapScheduler map_events 0 s s1" unfolding s1 by (rule drop_calls)
  have "find_agreement a f s1 = None" using dr(2) by simp
  note n = insert_agreement [OF dr(1) this f s2]
  have c2: "calls MapScheduler map_events 0 s1 s2" unfolding s2 by (rule upd_station_calls)
  have "sim_ok map_invar map_events s2"
    using sim_ok_calls [OF c2 sim_ok_calls [OF c1]] inv by (simp add: twt_inv_def)
  moreover have "enough 1 s2" using enough_calls [of 0 1, OF _ c1] enough_calls [of 0 1, OF _ c2] en by simp
  moreover have "this_thread s2 = m_mainThreadId s2"
    using thread by (simp add: s1 s2 upd_station_eq Cancel_def EventImpl_Cancel_def split: option.splits)
  ultimately obtain i s3 where i: "ScheduleCall MapScheduler (t + b) (BeginTwtSp f a w d) s2 = Some (i, s3)"
    using ScheduleCall_succeeds by blast
  have "find_agreement a f s3 = Some ?new"
    using n(2) [of a f] find_agreement_cong [of s3 s2] ScheduleCall_sel(1) [OF i] by simp
  then have "\<exists>s'. upd_agreement a f (m_nextServicePeriodStartEvent_update (\<lambda>_. i)) s3 = Some s'"
    by (simp add: upd_agreement_def)
  moreover have "(case m_typeOfStation (nd s) of AP \<Rightarrow> rq | STA \<Rightarrow> \<not> rq | _ \<Rightarrow> True) = False"
    using ty by auto
  then have "CreateTwtAgreement MapScheduler f a rq im fl tr True ch w d t b s =
      upd_agreement a f (m_nextServicePeriodStartEvent_update (\<lambda>_. i)) s3"
    using f i unfolding CreateTwtAgreement_def Let_def s1 [symmetric] s2 [symmetric] by simp
  ultimately show ?thesis by simp
qed

text \<open>C15: a schedule is refused (the simulation stops) exactly when the node is not an HE node, the wake
  interval is shorter than the wake duration, there is not exactly one link, a station expects no
  beacon, the flow is above 7, the agreement is not individual, or the role of the node does not fit.\<close>

theorem SetTwtSchedule_fails_iff:
  assumes "twt_reach s" and "enough 1 s" and "this_thread s = m_mainThreadId s"
  shows "SetTwtSchedule MapScheduler f a rq im fl tr ind ch w d t s = None \<longleftrightarrow>
    \<not> m_heSupported (nd s) \<or> sint w < sint d \<or> length (m_links (nd s)) \<noteq> 1 \<or>
    (m_typeOfStation (nd s) = STA \<and> \<not> IsRunning (m_beaconEvent (nd s)) s) \<or>
    \<not> f < 8 \<or> \<not> ind \<or> \<not> (m_typeOfStation (nd s) = AP \<and> \<not> rq \<or> m_typeOfStation (nd s) = STA \<and> rq)"
    (is "?l \<longleftrightarrow> ?r")
proof
  assume ?l
  show ?r
  proof (rule ccontr)
    assume n: "\<not> ?r"
    then obtain b where "GetTimeTillNextBeacon s = Some b"
      by (auto simp: GetTimeTillNextBeacon_def GetNLinks_def)
    with n CreateTwtAgreement_succeeds [OF twt_reach_inv [OF assms(1)] assms(2,3), of f rq a im fl tr ch w d t b] \<open>?l\<close>
    show False by (auto simp: SetTwtSchedule_def GetNLinks_def)
  qed
next
  assume ?r
  then show ?l
    by (auto simp: SetTwtSchedule_def CreateTwtAgreement_def GetTimeTillNextBeacon_def GetNLinks_def
        Option.bind_eq_None_conv split: TypeOfStation.splits)
qed

theorem SetTwtSchedule_fails_iff_witness:
  "SetTwtSchedule MapScheduler 0 7 True True True False True 0 100 101 10 beacon_sta = None \<and>
   SetTwtSchedule MapScheduler 7 7 True True True False True 0 100 100 10 beacon_sta \<noteq> None"
proof -
  have en: "enough 1 beacon_sta" and th: "this_thread beacon_sta = m_mainThreadId beacon_sta"
    by (simp_all add: enough_def beacon_sta_def one_event_sim_def)
  have "m_heSupported (nd beacon_sta) \<and> length (m_links (nd beacon_sta)) = 1 \<and>
    m_typeOfStation (nd beacon_sta) = STA \<and> IsRunning (m_beaconEvent (nd beacon_sta)) beacon_sta"
    by code_simp
  then show ?thesis by (simp add: SetTwtSchedule_fails_iff [OF beacon_sta_reach en th])
qed

subsection \<open>The time of a frame exchange\<close>

text \<open>The greatest of what is left of the active service periods.\<close>

lemma latest_end:
  "let r = fold (\<lambda>(_, ag) t. if IsRunning (m_nextServicePeriodEndEvent ag) s
             then let d = GetDelayLeft (m_nextServicePeriodEndEvent ag) s in if sint d > sint t then d else t
             else t) m t0
   in sint t0 \<le> sint r \<and> (r = t0 \<or> (\<exists>(h, ag)\<in>set m. IsRunning (m_nextServicePeriodEndEvent ag) s \<and>
         r = GetDelayLeft (m_nextServicePeriodEndEvent ag) s)) \<and>
      (\<forall>(h, ag)\<in>set m. IsRunning (m_nextServicePeriodEndEvent ag) s \<longrightarrow>
         sint (GetDelayLeft (m_nextServicePeriodEndEvent ag) s) \<le> sint r)"
proof (induction m arbitrary: t0)
  case (Cons x m)
  obtain h ag where x: "x = (h, ag)" by (cases x)
  let ?d = "GetDelayLeft (m_nextServicePeriodEndEvent ag) s"
  show ?case
  proof (cases "IsRunning (m_nextServicePeriodEndEvent ag) s \<and> sint ?d > sint t0")
    case True
    then show ?thesis using Cons.IH [of ?d] by (auto simp: x Let_def)
  next
    case False
    then show ?thesis using Cons.IH [of t0]
      by (cases "IsRunning (m_nextServicePeriodEndEvent ag) s") (auto simp: x Let_def not_less)
  qed
qed simp

lemma agreement_counted:
  assumes "agreements_ok s" and "find_agreement a f s = Some ag"
  shows "GetTwtAgreementCount a s > 0"
proof -
  have "finite {f. find_agreement a f s \<noteq> None}"
    using agreements_count(1) [OF assms(1)] flows_below_8(2) by (rule finite_subset)
  moreover have "f \<in> {f. find_agreement a f s \<noteq> None}" using assms(2) by simp
  ultimately have "card {f. find_agreement a f s \<noteq> None} > 0" by (auto simp: card_gt_0_iff)
  then have "unat (GetTwtAgreementCount a s) > 0" using agreements_count(2) [OF assms(1), of a] by simp
  then show ?thesis by (simp add: word_less_nat_alt)
qed

text \<open>C16: the time of a frame exchange with a peer that has an agreement ends no later than the last of the
  service periods of the peer that are active: with \<open>e\<close> the greatest of what is left of them, and zero when
  none is active, the exchange gets the time that is available or \<open>e\<close>, whichever is less, and when the time
  available is not limited (\<open>Time::Min()\<close>, or any other value that is not positive) it gets \<open>e\<close>.\<close>

theorem exchange_within_service_period:
  assumes "twt_reach s" and "find_agreement a f s = Some ag" and "clampAvailableTime (Some a) avail s = Some r"
  shows "\<exists>e. 0 \<le> e \<and> sint r = (if 0 < sint avail then min (sint avail) e else e) \<and>
    (e = 0 \<or> (\<exists>h ag'. find_agreement a h s = Some ag' \<and> IsRunning (m_nextServicePeriodEndEvent ag') s \<and>
       e = sint (GetDelayLeft (m_nextServicePeriodEndEvent ag') s))) \<and>
    (\<forall>h ag'. find_agreement a h s = Some ag' \<and> IsRunning (m_nextServicePeriodEndEvent ag') s \<longrightarrow>
       sint (GetDelayLeft (m_nextServicePeriodEndEvent ag') s) \<le> e)"
proof -
  have ok: "agreements_ok s" using twt_reach_inv [OF assms(1)] by (simp add: twt_inv_def)
  note st = agreements_okD [OF ok, of a, unfolded station_ok_def]
  note pos = agreement_counted [OF ok assms(2)]
  let ?m = "m_twtAgreementMap (station a s)"
  let ?e = "fold (\<lambda>(_, ag) t. if IsRunning (m_nextServicePeriodEndEvent ag) s
             then let d = GetDelayLeft (m_nextServicePeriodEndEvent ag) s in if sint d > sint t then d else t
             else t) ?m 0"
  have r: "sint r = (if 0 < sint avail then min (sint avail) (sint ?e) else sint ?e)"
    using assms(3) pos by (auto simp: clampAvailableTime_def GetTimeTillEndOfOngoingTwtSPs_def min_def split: if_splits)
  have known: "find_agreement a h s = Some ag' \<longleftrightarrow> (h, ag') \<in> set ?m" for h ag'
    using sorted_by_distinct [OF conjunct1 [OF st]] by (simp add: find_agreement_map)
  note l = latest_end [of s ?m 0, unfolded Let_def]
  have "?e = 0 \<or> (\<exists>h ag'. find_agreement a h s = Some ag' \<and> IsRunning (m_nextServicePeriodEndEvent ag') s \<and>
       ?e = GetDelayLeft (m_nextServicePeriodEndEvent ag') s)"
    using l unfolding known Let_def by blast
  then have "sint ?e = 0 \<or> (\<exists>h ag'. find_agreement a h s = Some ag' \<and> IsRunning (m_nextServicePeriodEndEvent ag') s \<and>
       sint ?e = sint (GetDelayLeft (m_nextServicePeriodEndEvent ag') s))"
  proof (elim disjE)
    assume "?e = 0"
    then show ?thesis by (simp only: sint_0 simp_thms)
  next
    assume "\<exists>h ag'. find_agreement a h s = Some ag' \<and> IsRunning (m_nextServicePeriodEndEvent ag') s \<and>
       ?e = GetDelayLeft (m_nextServicePeriodEndEvent ag') s"
    then obtain h ag' where x: "find_agreement a h s = Some ag'" "IsRunning (m_nextServicePeriodEndEvent ag') s"
      "?e = GetDelayLeft (m_nextServicePeriodEndEvent ag') s" by blast
    from x(1,2) arg_cong [OF x(3), of sint] show ?thesis by blast
  qed
  moreover have "0 \<le> sint ?e" using l unfolding Let_def by simp
  moreover have "\<forall>h ag'. find_agreement a h s = Some ag' \<and> IsRunning (m_nextServicePeriodEndEvent ag') s \<longrightarrow>
       sint (GetDelayLeft (m_nextServicePeriodEndEvent ag') s) \<le> sint ?e"
    using l unfolding known Let_def by blast
  ultimately show ?thesis using r by blast
qed

text \<open>At the beginning of a service period of fifty: unlimited time becomes fifty.\<close>

theorem exchange_within_service_period_witness:
  "\<exists>r. clampAvailableTime (Some 7) (- (2 ^ 63)) (one_flow_at 6) = Some r \<and> sint r \<le> 50 \<and> 50 \<le> sint r"
proof -
  have "(case rounds 6 one_flow of None \<Rightarrow> False
    | Some s \<Rightarrow> clampAvailableTime (Some 7) (- (2 ^ 63)) s = Some 50 \<and>
        (case find_agreement 7 0 s of None \<Rightarrow> False | Some ag \<Rightarrow> IsRunning (m_nextServicePeriodEndEvent ag) s \<and>
           GetDelayLeft (m_nextServicePeriodEndEvent ag) s = 50))"
    by code_simp
  note r = one_flow_round [OF this]
  then obtain ag where ag: "find_agreement 7 0 (one_flow_at 6) = Some ag" "IsRunning (m_nextServicePeriodEndEvent ag) (one_flow_at 6)"
      "GetDelayLeft (m_nextServicePeriodEndEvent ag) (one_flow_at 6) = 50"
    by (auto split: option.splits)
  have c: "clampAvailableTime (Some 7) (- (2 ^ 63)) (one_flow_at 6) = Some 50" using r(2) by blast
  from exchange_within_service_period [OF r(1) ag(1) c] show ?thesis using c ag by auto
qed

subsection \<open>Service periods that overlap\<close>

text \<open>Two flows with the same peer, the second with service periods inside those of the first.\<close>

definition start_flow ::
  "flow_id \<Rightarrow> 64 word \<Rightarrow> 64 word \<Rightarrow> 64 word \<Rightarrow> map_scheduler twt_sim \<Rightarrow> map_scheduler twt_sim option" where
  "start_flow f w d t = SetTwtSchedule MapScheduler f 7 True True True False True 0 w d t"





text \<open>Rounds of the event loop are a run.\<close>

lemma rounds_run:
  "rounds n s = Some s' \<Longrightarrow> \<exists>es. twt_run s es s'"
proof (induction n arbitrary: s)
  case 0
  then show ?case using run_end [of MapScheduler map_events "twt_notify MapScheduler" twt_room s] by auto
next
  case (Suc n)
  obtain e q s1 where r: "RemoveNext MapScheduler (m_events s) = Some (e, q)"
    "room_for twt_room e (start_event e q s)"
    "ProcessOneEvent MapScheduler (twt_notify MapScheduler) s = Some s1" "rounds n s1 = Some s'"
    using Suc.prems room_ok_room by (auto simp: Option.bind_eq_Some_conv split: option.splits if_splits)
  have "\<not> IsEmpty MapScheduler (m_events s)"
    using r(1) by (auto simp: sched_simps MapScheduler_IsEmpty_def MapScheduler_RemoveNext_def split: list.splits)
  then show ?case using Suc.IH [OF r(4)] run_event [OF _ r(1,2,3)] by blast
qed

text \<open>An event that is pending while a later one is the next was processed or cancelled in between.\<close>

lemma earlier_was_processed:
  assumes "twt_reach s1" and "scheduled s1 i t c" and "id_impl i = Some p" and "rounds n s1 = Some s2"
    and "\<not> EventImpl_IsCancelled p s2" and "RemoveNext MapScheduler (m_events s2) = Some (e, q)" and "rank (event_of i) < rank e"
  shows "\<exists>es. twt_run s1 es s2 \<and> event_of i \<in> set es"
proof -
  have ok1: "sim_ok map_invar map_events s1" using twt_reach_inv [OF assms(1)] by (simp add: twt_inv_def)
  obtain es where run: "twt_run s1 es s2" using rounds_run [OF assms(4)] by blast
  have ok2: "sim_ok map_invar map_events s2" using twt_mapq.sim_run_ordered [OF run ok1] by blast
  have es: "map_events (m_events s2) = e # map_events q"
    using assms(6) by (auto simp: sched_simps MapScheduler_RemoveNext_def map_events_def split: list.splits)
  have "queue_ok (e # map_events q)" using mapq.events_ok [OF sim_okD(1) [OF ok2]] es by simp
  then have "event_of i \<notin> set (map_events (m_events s2))"
    using assms(7) unfolding es by (auto simp: queue_ok_Cons dest: less_asym)
  then show ?thesis
    using twt_mapq.pending_run [OF assms(3) run ok1 _ assms(5)] assms(2) run by (auto simp: scheduled_def)
qed

text \<open>C18: with a wake duration equal to the wake interval, which \<open>SetTwtSchedule\<close> accepts, every service period is
  ended right after the next one has begun. In every reachable state, when the event that begins a service
  period at time \<open>t\<close> is processed, the next beginning and the end of this period are both scheduled for
  \<open>t + w\<close>, and when later on that end is the next event and the beginning has not been cancelled, then the
  beginning has been processed already; the end makes the agreement inactive, blocks the queues of the peer and
  puts the PHY of a station to sleep, at the time at which the next service period has begun.\<close>

theorem back_to_back_periods_sleep:
  assumes begins: "twt_reach s" "RemoveNext MapScheduler (m_events s) = Some (e, q)"
      "room_for twt_room e (start_event e q s)"
      "impl e = Some p" "impls s p = Some \<lparr>what = BeginTwtSp f a w w, m_cancel = False\<rparr>"
      "ProcessOneEvent MapScheduler (twt_notify MapScheduler) s = Some s1"
      "0 \<le> sint w" "GetMldAddress a s = None" "find_agreement a f s1 = Some ag"
    and later: "rounds n s1 = Some s2" "id_impl (m_nextServicePeriodStartEvent ag) = Some pb" "\<not> EventImpl_IsCancelled pb s2"
    and ends: "RemoveNext MapScheduler (m_events s2) = Some (event_of (m_nextServicePeriodEndEvent ag), q2)"
      "room_for twt_room (event_of (m_nextServicePeriodEndEvent ag)) (start_event (event_of (m_nextServicePeriodEndEvent ag)) q2 s2)"
      "id_impl (m_nextServicePeriodEndEvent ag) = Some pe" "impls s2 pe = Some \<lparr>what = EndTwtSp f a w w, m_cancel = False\<rparr>"
      "ProcessOneEvent MapScheduler (twt_notify MapScheduler) s2 = Some s3" "GetMldAddress a s2 = None"
  shows "scheduled s1 (m_nextServicePeriodStartEvent ag) (w + m_ts (key e)) (BeginTwtSp f a w w) \<and>
    scheduled s1 (m_nextServicePeriodEndEvent ag) (w + m_ts (key e)) (EndTwtSp f a w w) \<and>
    (\<exists>es. twt_run s1 es s2 \<and> event_of (m_nextServicePeriodStartEvent ag) \<in> set es) \<and>
    m_currentTs s3 = w + m_ts (key e) \<and>
    (\<exists>ag' l ph ph'. find_agreement a f s3 = Some ag' \<and> \<not> m_isSpActiveNow ag' \<and>
       m_links (nd s2) = [(l, ph)] \<and> m_links (nd s3) = [(l, ph')] \<and> set (peer_queues a l) \<subseteq> set (m_blockedPs (nd s3)) \<and>
       (m_typeOfStation (nd s2) = STA \<and> sleep_allowed (start_event (event_of (m_nextServicePeriodEndEvent ag)) q2 s2) \<and>
        GetState (sint (w + m_ts (key e))) (m_phyState ph) \<notin> {TX, RX, SWITCHING} \<longrightarrow>
        GetState (sint (w + m_ts (key e))) (m_phyState ph') = SLEEP))"
proof -
  let ?b = "m_nextServicePeriodStartEvent ag" and ?e = "m_nextServicePeriodEndEvent ag"
  note st = event_step [OF begins(1-6)]
  have call: "BeginTwtSpNow MapScheduler f a w w (start_event e q s) = Some s1"
    using st(2) by (simp add: twt_notify_def)
  have eff: "scheduled s1 ?b (w + m_ts (key e)) (BeginTwtSp f a w w)" "scheduled s1 ?e (w + m_ts (key e)) (EndTwtSp f a w w)"
    "id_uid ?b < id_uid ?e"
    using BeginTwtSpNow_effect [OF st(1) _ call begins(7,7)] st(3) begins(8,9) by auto
  have r1: "twt_reach s1" by (rule twt_reach.event [OF begins(1,2,3,6)])
  have r2: "twt_reach s2" by (rule rounds_reach [OF r1 later(1)])
  have ts: "id_ts ?b = w + m_ts (key e)" "id_ts ?e = w + m_ts (key e)" using eff(1,2) by (simp_all add: scheduled_def)
  then have "rank (event_of ?b) < rank (event_of ?e)" using eff(3) by simp
  from earlier_was_processed [OF r1 eff(1) later(2,1,3) ends(1) this]
  have run: "\<exists>es. twt_run s1 es s2 \<and> event_of ?b \<in> set es" .
  have "impl (event_of ?e) = Some pe" using ends(3) by simp
  note st2 = event_step [OF r2 ends(1,2) this ends(4,5)]
  have call2: "EndTwtSpNow MapScheduler f a (start_event (event_of ?e) q2 s2) = Some s3"
    using st2(2) by (simp add: twt_notify_def)
  have ok2: "sim_ok map_invar map_events s2" using twt_reach_inv [OF r2] by (simp add: twt_inv_def)
  have ne: "\<not> IsEmpty MapScheduler (m_events s2)"
    using ends(1) by (auto simp: sched_simps MapScheduler_IsEmpty_def MapScheduler_RemoveNext_def split: list.splits)
  have "now_key s3 = rank (event_of ?e)" by (rule twt_mapq.ProcessOneEvent_cases(2) [OF ok2 ne ends(1,2,5)])
  then have now: "m_currentTs s3 = w + m_ts (key e)" by (simp add: now_key_def ts)
  have kts: "m_ts (key (event_of ?e)) = w + m_ts (key e)" by (simp add: event_of_def ts)
  from EndTwtSpNow_effect [OF st2(1) call2] ends(6)
  have "\<exists>ag' l ph ph'. find_agreement a f s3 = Some ag' \<and> \<not> m_isSpActiveNow ag' \<and>
       m_links (nd s2) = [(l, ph)] \<and> m_links (nd s3) = [(l, ph')] \<and> set (peer_queues a l) \<subseteq> set (m_blockedPs (nd s3)) \<and>
       (m_typeOfStation (nd s2) = STA \<and> sleep_allowed (start_event (event_of ?e) q2 s2) \<and>
        GetState (sint (w + m_ts (key e))) (m_phyState ph) \<notin> {TX, RX, SWITCHING} \<longrightarrow>
        GetState (sint (w + m_ts (key e))) (m_phyState ph') = SLEEP)"
    by (simp add: kts) blast
  then show ?thesis using eff(1,2) run now by blast
qed

text \<open>Service periods [10, 110), [110, 210) and so on: the second has begun at 110 and is ended at 110.\<close>

definition back_to_back :: "nat \<Rightarrow> map_scheduler twt_sim" where
  "back_to_back n = the (Option.bind (start_flow 0 100 100 10 beacon_sta) (rounds n))"

lemma back_to_back_reach:
  assumes "(case Option.bind (start_flow 0 100 100 10 beacon_sta) (rounds n) of None \<Rightarrow> False | Some s \<Rightarrow> P s)"
  shows "twt_reach (back_to_back n)" "P (back_to_back n)"
proof -
  obtain s1 s2 where s: "start_flow 0 100 100 10 beacon_sta = Some s1" "rounds n s1 = Some s2" "P s2"
    using assms by (auto simp: Option.bind_eq_Some_conv split: option.splits)
  have e0: "enough 1 beacon_sta" by (simp add: enough_def beacon_sta_def one_event_sim_def)
  from twt_reach.schedule [OF beacon_sta_reach e0 s(1) [unfolded start_flow_def]] have "twt_reach s1" .
  from rounds_reach [OF this s(2)] show "twt_reach (back_to_back n)" using s by (simp add: back_to_back_def)
  show "P (back_to_back n)" using s by (simp add: back_to_back_def)
qed

theorem back_to_back_periods_sleep_witness:
  "\<exists>s1 s2 s3 ag es ag'. find_agreement 7 0 s1 = Some ag \<and> m_isSpActiveNow ag \<and> twt_run s1 es s2 \<and>
    event_of (m_nextServicePeriodStartEvent ag) \<in> set es \<and>
    ProcessOneEvent MapScheduler (twt_notify MapScheduler) s2 = Some s3 \<and> m_currentTs s3 = 110 \<and>
    find_agreement 7 0 s3 = Some ag' \<and> \<not> m_isSpActiveNow ag'"
proof -
  have "(case Option.bind (start_flow 0 100 100 10 beacon_sta) (rounds 1) of None \<Rightarrow> False
    | Some s \<Rightarrow> next_call s (BeginTwtSp 0 7 100 100) 10 \<and> GetMldAddress 7 s = None \<and>
       (case ProcessOneEvent MapScheduler (twt_notify MapScheduler) s of None \<Rightarrow> False
        | Some s1 \<Rightarrow> (case find_agreement 7 0 s1 of None \<Rightarrow> False
          | Some ag \<Rightarrow> m_isSpActiveNow ag \<and> (case rounds 5 s1 of None \<Rightarrow> False
            | Some s2 \<Rightarrow> GetMldAddress 7 s2 = None \<and> next_call s2 (EndTwtSp 0 7 100 100) 110 \<and>
               (case id_impl (m_nextServicePeriodStartEvent ag) of None \<Rightarrow> False
                | Some p \<Rightarrow> \<not> EventImpl_IsCancelled p s2) \<and>
               map_option fst (RemoveNext MapScheduler (m_events s2)) = Some (event_of (m_nextServicePeriodEndEvent ag))))))"
    by code_simp
  note r = back_to_back_reach [OF this]
  let ?s = "back_to_back 1"
  obtain s1 ag s2 pb where n: "next_call ?s (BeginTwtSp 0 7 100 100) 10" "GetMldAddress 7 ?s = None"
      "ProcessOneEvent MapScheduler (twt_notify MapScheduler) ?s = Some s1"
      "find_agreement 7 0 s1 = Some ag" "m_isSpActiveNow ag" "rounds 5 s1 = Some s2" "GetMldAddress 7 s2 = None"
      "next_call s2 (EndTwtSp 0 7 100 100) 110" "id_impl (m_nextServicePeriodStartEvent ag) = Some pb"
      "\<not> EventImpl_IsCancelled pb s2"
      "map_option fst (RemoveNext MapScheduler (m_events s2)) = Some (event_of (m_nextServicePeriodEndEvent ag))"
    using r(2) by (auto split: option.splits)
  obtain e q p s1' where b: "RemoveNext MapScheduler (m_events ?s) = Some (e, q)" "m_ts (key e) = 10"
      "room_for twt_room e (start_event e q ?s)" "impl e = Some p"
      "impls ?s p = Some \<lparr>what = BeginTwtSp 0 7 100 100, m_cancel = False\<rparr>"
      "ProcessOneEvent MapScheduler (twt_notify MapScheduler) ?s = Some s1'"
    using n(1) by (rule next_callE)
  obtain e2 q2 p2 s3 where c: "RemoveNext MapScheduler (m_events s2) = Some (e2, q2)" "m_ts (key e2) = 110"
      "room_for twt_room e2 (start_event e2 q2 s2)" "impl e2 = Some p2"
      "impls s2 p2 = Some \<lparr>what = EndTwtSp 0 7 100 100, m_cancel = False\<rparr>"
      "ProcessOneEvent MapScheduler (twt_notify MapScheduler) s2 = Some s3"
    using n(8) by (rule next_callE)
  have e2: "e2 = event_of (m_nextServicePeriodEndEvent ag)" using n(11) c(1) by simp
  have pe: "id_impl (m_nextServicePeriodEndEvent ag) = Some p2" using c(4) e2 by simp
  have w: "0 \<le> sint (100 :: 64 word)" by simp
  note x = back_to_back_periods_sleep [OF r(1) b(1,3-5) n(3) w n(2,4,6,9,10) c(1,3) [unfolded e2] pe c(5,6) n(7)]
  from x obtain es where es: "twt_run s1 es s2" "event_of (m_nextServicePeriodStartEvent ag) \<in> set es" by blast
  from x obtain ag' where ag': "find_agreement 7 0 s3 = Some ag'" "\<not> m_isSpActiveNow ag'" by blast
  from x have "m_currentTs s3 = 100 + 10" unfolding b(2) by blast
  then have "m_currentTs s3 = 110" by simp
  with es ag' n(4,5) c(6) show ?thesis by blast
qed

end
