(* ===== verification/Block_Ack_Window.thy ===== *)
theory Block_Ack_Window
  imports Prelude
begin

text \<open>
  The circular bitmap of \<open>wifi/model/block-ack-window.cc\<close> and its refinement: read from the head
  onwards it is the list of the flags of the sequence numbers of the window, in order. An
  assertion that fails is \<open>None\<close>.
\<close>

type_synonym seqno = "16 word"

definition SEQNO_SPACE_SIZE :: nat where "SEQNO_SPACE_SIZE = 4096"
definition SEQNO_SPACE_HALF_SIZE :: nat where "SEQNO_SPACE_HALF_SIZE = 2048"

record block_ack_window =
  m_winStart :: seqno
  m_window :: "bool list"
  m_head :: nat

definition BlockAckWindow :: block_ack_window where
  "BlockAckWindow = \<lparr>m_winStart = 0, m_window = [], m_head = 0\<rparr>"

definition Window_Init :: "seqno \<Rightarrow> nat \<Rightarrow> block_ack_window \<Rightarrow> block_ack_window" where
  "Window_Init winStart winSize w =
     w\<lparr>m_winStart := winStart, m_window := replicate winSize False, m_head := 0\<rparr>"

definition Window_Reset :: "seqno \<Rightarrow> block_ack_window \<Rightarrow> block_ack_window" where
  "Window_Reset winStart w = Window_Init winStart (length (m_window w)) w"

definition Window_GetWinSize :: "block_ack_window \<Rightarrow> nat" where
  "Window_GetWinSize w = length (m_window w)"

text \<open>The sum is of type \<open>size_t\<close>; the result is cut to 16 bits.\<close>

definition Window_GetWinEnd :: "block_ack_window \<Rightarrow> seqno" where
  "Window_GetWinEnd w =
     of_nat (((unat (m_winStart w) + length (m_window w) + (2 ^ 64 - 1)) mod 2 ^ 64) mod SEQNO_SPACE_SIZE)"

text \<open>Reading and assigning through the reference that \<open>At\<close> returns.\<close>

definition Window_At :: "nat \<Rightarrow> block_ack_window \<Rightarrow> bool option" where
  "Window_At distance w =
     (if distance < length (m_window w)
      then Some (m_window w ! ((m_head w + distance) mod length (m_window w))) else None)"

definition Window_set_At :: "nat \<Rightarrow> bool \<Rightarrow> block_ack_window \<Rightarrow> block_ack_window option" where
  "Window_set_At distance v w =
     (if distance < length (m_window w)
      then Some (w\<lparr>m_window := (m_window w)[(m_head w + distance) mod length (m_window w) := v]\<rparr>)
      else None)"

fun Advance_loop :: "nat \<Rightarrow> block_ack_window \<Rightarrow> block_ack_window" where
  "Advance_loop 0 w = w"
| "Advance_loop (Suc n) w =
     Advance_loop n (w\<lparr>m_window := (m_window w)[m_head w := False],
                      m_head := (m_head w + 1) mod length (m_window w)\<rparr>)"

definition Window_Advance :: "nat \<Rightarrow> block_ack_window \<Rightarrow> block_ack_window" where
  "Window_Advance count w =
     (if count \<ge> length (m_window w)
      then Window_Reset (of_nat ((unat (m_winStart w) + count) mod SEQNO_SPACE_SIZE)) w
      else (Advance_loop count w)
             \<lparr>m_winStart := of_nat ((unat (m_winStart w) + count) mod SEQNO_SPACE_SIZE)\<rparr>)"

subsection \<open>The abstraction\<close>

definition flags :: "block_ack_window \<Rightarrow> bool list" where
  "flags w = rotate (m_head w) (m_window w)"

definition window_ok :: "block_ack_window \<Rightarrow> bool" where
  "window_ok w \<longleftrightarrow> unat (m_winStart w) < SEQNO_SPACE_SIZE \<and> m_head w < length (m_window w)"

lemma length_flags [simp]: "length (flags w) = length (m_window w)"
  by (simp add: flags_def)

lemma flags_nth: "i < length (m_window w) \<Longrightarrow> flags w ! i = m_window w ! ((m_head w + i) mod length (m_window w))"
  by (simp add: flags_def nth_rotate)

lemma Window_At_flags: "Window_At d w = (if d < length (flags w) then Some (flags w ! d) else None)"
  by (simp add: Window_At_def flags_nth)

lemma Window_Init_flags [simp]: "flags (Window_Init s n w) = replicate n False"
  by (simp add: flags_def Window_Init_def)

lemma Window_Init_ok: "unat s < SEQNO_SPACE_SIZE \<Longrightarrow> 0 < n \<Longrightarrow> window_ok (Window_Init s n w)"
  by (simp add: window_ok_def Window_Init_def)

lemma mod_lt_len: "d < length xs \<Longrightarrow> (h + d) mod length xs < length xs"
  by (metis length_0_conv less_nat_zero_code mod_less_divisor neq0_conv)

lemma Window_set_At_flags:
  assumes "Window_set_At d v w = Some w'"
  shows "flags w' = (flags w)[d := v] \<and> m_winStart w' = m_winStart w \<and> m_head w' = m_head w \<and>
    d < length (flags w)"
proof -
  have d: "d < length (m_window w)"
    and w': "w' = w\<lparr>m_window := (m_window w)[(m_head w + d) mod length (m_window w) := v]\<rparr>"
    using assms by (auto simp: Window_set_At_def split: if_splits)
  have "flags w' = (flags w)[d := v]"
  proof (rule nth_equalityI)
    fix i assume "i < length (flags w')"
    then have i: "i < length (m_window w)" by (simp add: w')
    then show "flags w' ! i = (flags w)[d := v] ! i"
      using d mod_add_inj [OF i d, of "m_head w"]
      by (cases "i = d") (simp_all add: w' flags_nth mod_lt_len [OF d])
  qed (simp add: w')
  then show ?thesis using d by (simp add: w')
qed

lemma Advance_loop_flags:
  assumes "n \<le> length (m_window w)" and "m_head w < length (m_window w)"
  shows "flags (Advance_loop n w) = drop n (flags w) @ replicate n False \<and>
    m_winStart (Advance_loop n w) = m_winStart w \<and>
    m_head (Advance_loop n w) < length (m_window (Advance_loop n w))"
  using assms
proof (induction n arbitrary: w)
  case 0
  then show ?case by simp
next
  case (Suc n)
  let ?w = "w\<lparr>m_window := (m_window w)[m_head w := False], m_head := (m_head w + 1) mod length (m_window w)\<rparr>"
  have len: "0 < length (m_window w)" using Suc.prems(2) by linarith
  have "flags ?w = drop 1 (flags w) @ [False]"
  proof (rule nth_equalityI)
    fix i assume "i < length (flags ?w)"
    then have i: "i < length (m_window w)" by simp
    have h: "m_head w = (m_head w + 0) mod length (m_window w)" using Suc.prems by simp
    show "flags ?w ! i = (drop 1 (flags w) @ [False]) ! i"
    proof (cases "i + 1 < length (m_window w)")
      case True
      then have "(m_head w + (i + 1)) mod length (m_window w) \<noteq> (m_head w + 0) mod length (m_window w)"
        using mod_add_inj [of "i + 1" "length (m_window w)" 0 "m_head w"] len by simp
      then have "(m_head w + (i + 1)) mod length (m_window w) \<noteq> m_head w"
        using h by simp
      moreover have "i < length (m_window w) - Suc 0" using True by simp
      ultimately show ?thesis
        using True i Suc.prems by (simp add: flags_nth nth_append mod_simps ac_simps)
    next
      case False
      then have last: "i = length (m_window w) - 1" using i by simp
      have "((m_head w + 1) mod length (m_window w) + i) mod length (m_window w) =
          (m_head w + 1 + i) mod length (m_window w)"
        by (rule mod_add_left_eq)
      also have "m_head w + 1 + i = m_head w + length (m_window w)"
        using last len by simp
      finally have e: "((m_head w + 1) mod length (m_window w) + i) mod length (m_window w) = m_head w"
        using Suc.prems by simp
      have "flags ?w ! i = (m_window ?w) ! ((m_head ?w + i) mod length (m_window w))"
        using i by (subst flags_nth) simp_all
      also have "\<dots> = False"
        using e Suc.prems by simp
      finally show ?thesis
        using last by (simp add: nth_append)
    qed
  qed (use len in simp)
  moreover have "m_head ?w < length (m_window ?w)" "n \<le> length (m_window ?w)" "m_winStart ?w = m_winStart w"
    using len Suc.prems by simp_all
  ultimately show ?case
    using Suc.IH [of ?w] Suc.prems
    by (simp add: replicate_append_same [symmetric])
qed

text \<open>Advancing the window drops its first flags and clears as many at the end.\<close>

lemma Window_Advance_flags:
  assumes "window_ok w"
  shows "flags (Window_Advance n w) = drop n (flags w) @ replicate (min n (length (flags w))) False"
    and "unat (m_winStart (Window_Advance n w)) = (unat (m_winStart w) + n) mod SEQNO_SPACE_SIZE"
    and "window_ok (Window_Advance n w)"
proof -
  have h: "m_head w < length (m_window w)" using assms by (simp add: window_ok_def)
  have lt: "unat (of_nat (k mod SEQNO_SPACE_SIZE) :: seqno) = k mod SEQNO_SPACE_SIZE" for k
    by (simp add: unat_of_nat SEQNO_SPACE_SIZE_def)
  note lp = Advance_loop_flags [of n w, OF _ h]
  have len: "length (m_window (Advance_loop n w)) = length (m_window w)"
    by (induction n arbitrary: w) simp_all
  show "flags (Window_Advance n w) = drop n (flags w) @ replicate (min n (length (flags w))) False"
  proof (cases "n \<ge> length (m_window w)")
    case True
    then show ?thesis by (simp add: Window_Advance_def Window_Reset_def min_def)
  next
    case False
    then have "flags (Window_Advance n w) = flags (Advance_loop n w)"
      by (simp add: Window_Advance_def flags_def)
    with lp False show ?thesis by (simp add: min_def)
  qed
  show "unat (m_winStart (Window_Advance n w)) = (unat (m_winStart w) + n) mod SEQNO_SPACE_SIZE"
    by (simp add: Window_Advance_def Window_Reset_def Window_Init_def lt)
  then have "unat (m_winStart (Window_Advance n w)) < SEQNO_SPACE_SIZE"
    by (simp add: SEQNO_SPACE_SIZE_def)
  then show "window_ok (Window_Advance n w)"
    using lp h len by (auto simp: window_ok_def Window_Advance_def Window_Reset_def Window_Init_def)
qed

end
