(* ===== verification/Block_Ack.thy ===== *)
theory Block_Ack
  imports Block_Ack_Window "HOL-Library.Signed_Division"
begin

text \<open>
  Block Ack agreements: \<open>wifi/model/block-ack-agreement.cc\<close>, its two ends
  \<open>originator-block-ack-agreement.cc\<close> and \<open>recipient-block-ack-agreement.cc\<close>, and the bitmap of
  the response header in \<open>ctrl-headers.cc\<close>. An assertion that fails and \<open>NS_FATAL_ERROR\<close> are
  \<open>None\<close>.
\<close>

subsection \<open>BlockAckAgreement\<close>

datatype ba_variant = BASIC | COMPRESSED | EXTENDED_COMPRESSED | MULTI_TID | MULTI_STA

record block_ack_agreement =
  m_peer :: "48 word"
  m_amsduSupported :: "8 word"
  m_blockAckPolicy :: "8 word"
  m_tid :: "8 word"
  m_bufferSize :: "16 word"
  m_timeout :: "16 word"
  m_startingSeq :: seqno
  m_htSupported :: "8 word"

definition SetStartingSequence ::
  "seqno \<Rightarrow> ('a) block_ack_agreement_scheme \<Rightarrow> 'a block_ack_agreement_scheme option" where
  "SetStartingSequence seq a = (if seq < 4096 then Some (a\<lparr>m_startingSeq := seq\<rparr>) else None)"

definition SetStartingSequenceControl ::
  "seqno \<Rightarrow> ('a) block_ack_agreement_scheme \<Rightarrow> 'a block_ack_agreement_scheme option" where
  "SetStartingSequenceControl seq a =
     (if and (drop_bit 4 seq) 0x0fff < 4096
      then Some (a\<lparr>m_startingSeq := and (drop_bit 4 seq) 0x0fff\<rparr>) else None)"

definition GetStartingSequenceControl :: "'a block_ack_agreement_scheme \<Rightarrow> 16 word" where
  "GetStartingSequenceControl a = and (push_bit 4 (m_startingSeq a)) 0xfff0"

text \<open>\<open>GetWinEnd\<close> for a starting sequence (the virtual \<open>GetStartingSequence()\<close>); the sum is an \<open>int\<close>.\<close>

definition GetWinEnd :: "seqno \<Rightarrow> 'a block_ack_agreement_scheme \<Rightarrow> seqno" where
  "GetWinEnd start a =
     word_of_int ((uint start + uint (m_bufferSize a) - 1) smod int SEQNO_SPACE_SIZE)"

definition GetBlockAckType :: "'a block_ack_agreement_scheme \<Rightarrow> (ba_variant \<times> 8 word list) option" where
  "GetBlockAckType a =
     (if m_htSupported a = 0 then Some (BASIC, [128])
      else (case find (\<lambda>l. l \<ge> m_bufferSize a) [64, 256, 512, 1024] of
              None \<Rightarrow> None
            | Some l \<Rightarrow> Some (COMPRESSED, [ucast (l div 8)])))"

text \<open>\<open>GetDistance\<close>, with its assertion, and the distance itself.\<close>

definition dist :: "seqno \<Rightarrow> seqno \<Rightarrow> nat" where
  "dist seqNumber startingSeqNumber =
     (unat seqNumber + SEQNO_SPACE_SIZE - unat startingSeqNumber) mod SEQNO_SPACE_SIZE"

definition GetDistance :: "seqno \<Rightarrow> seqno \<Rightarrow> nat option" where
  "GetDistance seqNumber startingSeqNumber =
     (if unat seqNumber < SEQNO_SPACE_SIZE \<and> unat startingSeqNumber < SEQNO_SPACE_SIZE
      then Some (dist seqNumber startingSeqNumber) else None)"

subsection \<open>OriginatorBlockAckAgreement\<close>

datatype originator_state = PENDING | ESTABLISHED | NO_REPLY | RESET | REJECTED

record originator = block_ack_agreement +
  m_state :: originator_state
  m_txWindow :: block_ack_window

definition Originator_GetStartingSequence :: "originator \<Rightarrow> seqno" where
  "Originator_GetStartingSequence a =
     (if Window_GetWinSize (m_txWindow a) = 0 then m_startingSeq a else m_winStart (m_txWindow a))"

definition Originator_GetDistance :: "seqno \<Rightarrow> originator \<Rightarrow> nat option" where
  "Originator_GetDistance seqNumber a = GetDistance seqNumber (m_winStart (m_txWindow a))"

definition InitTxWindow :: "originator \<Rightarrow> originator" where
  "InitTxWindow a = a\<lparr>m_txWindow := Window_Init (m_startingSeq a) (unat (m_bufferSize a)) (m_txWindow a)\<rparr>"

text \<open>Each round clears the flag at the head, so the loop ends; the second summand of the measure
  is for a head outside the window, which no operation makes.\<close>

definition set_flags :: "block_ack_window \<Rightarrow> nat" where
  "set_flags w = length (filter (\<lambda>b. b) (m_window w)) +
     (if m_head w < length (m_window w) then 0 else 1)"

lemma Advance_1:
  "Window_Advance 1 w =
     (if length (m_window w) \<le> 1
      then w\<lparr>m_winStart := of_nat ((unat (m_winStart w) + 1) mod SEQNO_SPACE_SIZE),
             m_window := replicate (length (m_window w)) False, m_head := 0\<rparr>
      else w\<lparr>m_window := (m_window w)[m_head w := False],
             m_head := (m_head w + 1) mod length (m_window w),
             m_winStart := of_nat ((unat (m_winStart w) + 1) mod SEQNO_SPACE_SIZE)\<rparr>)"
  by (simp add: Window_Advance_def Window_Reset_def Window_Init_def)

lemma set_flags_Advance:
  assumes "0 < length (m_window w)"
  shows "set_flags (Window_Advance 1 w) =
    (if length (m_window w) \<le> 1 then 0 else length (filter (\<lambda>b. b) ((m_window w)[m_head w := False])))"
proof -
  have "(m_head w + 1) mod length (m_window w) < length (m_window w)"
    using assms by (rule mod_less_divisor)
  then show ?thesis
    unfolding Advance_1 set_flags_def using assms by (cases "length (m_window w) \<le> 1") simp_all
qed

lemma filter_clear:
  assumes "h < length xs" and "xs ! h"
  shows "length (filter (\<lambda>b. b) xs) = Suc (length (filter (\<lambda>b. b) (xs[h := False])))"
  using assms by (induction xs arbitrary: h) (auto split: nat.splits)

lemma Advance_clears:
  assumes "Window_At 0 w = Some True"
  shows "set_flags (Window_Advance 1 w) < set_flags w"
proof -
  have len: "0 < length (m_window w)" and hd: "m_window w ! (m_head w mod length (m_window w))"
    using assms by (auto simp: Window_At_def split: if_splits)
  show ?thesis
  proof (cases "m_head w < length (m_window w)")
    case True
    then have "m_window w ! m_head w" using hd by simp
    from filter_clear [OF True this] show ?thesis
      unfolding set_flags_Advance [OF len] by (simp add: set_flags_def True)
  next
    case False
    then show ?thesis
      unfolding set_flags_Advance [OF len] by (simp add: set_flags_def list_update_beyond)
  qed
qed

function AdvanceTxWindow_loop :: "block_ack_window \<Rightarrow> block_ack_window option" where
  "AdvanceTxWindow_loop w =
     (case Window_At 0 w of None \<Rightarrow> None
      | Some b \<Rightarrow> if b then AdvanceTxWindow_loop (Window_Advance 1 w) else Some w)"
  by pat_completeness auto
termination
  by (relation "measure set_flags") (use Advance_clears in simp_all)

declare AdvanceTxWindow_loop.simps [simp del]

definition AdvanceTxWindow :: "originator \<Rightarrow> originator option" where
  "AdvanceTxWindow a = map_option (\<lambda>w. a\<lparr>m_txWindow := w\<rparr>) (AdvanceTxWindow_loop (m_txWindow a))"

text \<open>The MPDU of a notification is known by its sequence number.\<close>

definition NotifyTransmittedMpdu :: "seqno \<Rightarrow> originator \<Rightarrow> originator option" where
  "NotifyTransmittedMpdu mpduSeqNumber a =
     Option.bind (Originator_GetDistance mpduSeqNumber a) (\<lambda>distance.
       if distance \<ge> SEQNO_SPACE_HALF_SIZE then Some a
       else if distance \<ge> Window_GetWinSize (m_txWindow a)
       then let count = distance - Window_GetWinSize (m_txWindow a) + 1
            in AdvanceTxWindow (a\<lparr>m_txWindow := Window_Advance count (m_txWindow a)\<rparr>)
       else Some a)"

definition NotifyAckedMpdu :: "seqno \<Rightarrow> originator \<Rightarrow> originator option" where
  "NotifyAckedMpdu mpduSeqNumber a =
     Option.bind (Originator_GetDistance mpduSeqNumber a) (\<lambda>distance.
       if distance \<ge> SEQNO_SPACE_HALF_SIZE then Some a
       else Option.bind (Window_set_At distance True (m_txWindow a)) (\<lambda>w.
              AdvanceTxWindow (a\<lparr>m_txWindow := w\<rparr>)))"

definition NotifyDiscardedMpdu :: "seqno \<Rightarrow> originator \<Rightarrow> originator option" where
  "NotifyDiscardedMpdu mpduSeqNumber a =
     Option.bind (Originator_GetDistance mpduSeqNumber a) (\<lambda>distance.
       if distance \<ge> SEQNO_SPACE_HALF_SIZE then Some a
       else AdvanceTxWindow (a\<lparr>m_txWindow := Window_Advance (distance + 1) (m_txWindow a)\<rparr>))"

subsection \<open>RecipientBlockAckAgreement\<close>

record wifi_mpdu =
  mpdu_seq :: seqno
  mpdu_uid :: nat

text \<open>
  \<open>m_bufferedMpdus\<close> is a \<open>std::map\<close> whose comparator reads \<open>m_winStartB\<close>; \<open>m_forwarded\<close> are the
  MPDUs given to \<open>m_rxMiddle->Receive\<close>, in order.
\<close>

record recipient = block_ack_agreement +
  m_scoreboard :: block_ack_window
  m_winStartB :: seqno
  m_winSizeB :: nat
  m_bufferedMpdus :: "(seqno \<times> wifi_mpdu) list"
  m_forwarded :: "wifi_mpdu list"

definition Compare :: "seqno \<Rightarrow> seqno \<Rightarrow> seqno \<Rightarrow> bool" where
  "Compare winStartB a b \<longleftrightarrow>
     ((uint a - uint winStartB + int SEQNO_SPACE_SIZE) smod int SEQNO_SPACE_SIZE) <
     ((uint b - uint winStartB + int SEQNO_SPACE_SIZE) smod int SEQNO_SPACE_SIZE)"

definition RecipientBlockAckAgreement ::
  "48 word \<Rightarrow> bool \<Rightarrow> 8 word \<Rightarrow> 16 word \<Rightarrow> 16 word \<Rightarrow> seqno \<Rightarrow> bool \<Rightarrow> recipient" where
  "RecipientBlockAckAgreement originatr amsduSupported tid bufferSize timeout startingSeq htSupported =
     \<lparr>m_peer = originatr, m_amsduSupported = of_bool amsduSupported, m_blockAckPolicy = 1, m_tid = tid,
      m_bufferSize = bufferSize, m_timeout = timeout, m_startingSeq = startingSeq,
      m_htSupported = of_bool htSupported,
      m_scoreboard = Window_Init startingSeq (unat bufferSize) BlockAckWindow,
      m_winStartB = startingSeq, m_winSizeB = unat bufferSize, m_bufferedMpdus = [], m_forwarded = []\<rparr>"

definition next_seq :: "seqno \<Rightarrow> seqno" where
  "next_seq n = of_nat ((unat n + 1) mod SEQNO_SPACE_SIZE)"

fun PassUntil_loop ::
  "(seqno \<times> wifi_mpdu) list \<Rightarrow> seqno \<Rightarrow> wifi_mpdu list \<Rightarrow> (seqno \<times> wifi_mpdu) list \<times> seqno \<times> wifi_mpdu list" where
  "PassUntil_loop [] winStartB out = ([], winStartB, out)"
| "PassUntil_loop ((sn, m) # bs) winStartB out =
     (if sn = winStartB then PassUntil_loop bs (next_seq winStartB) (out @ [m])
      else ((sn, m) # bs, winStartB, out))"

text \<open>The assertion that the buffer has no old MPDU: its last one is less than half the space away.\<close>

definition no_old_mpdu :: "recipient \<Rightarrow> bool" where
  "no_old_mpdu r \<longleftrightarrow>
     (if m_bufferedMpdus r = [] then True
      else (case GetDistance (fst (last (m_bufferedMpdus r))) (m_winStartB r) of
              None \<Rightarrow> False | Some d \<Rightarrow> d < SEQNO_SPACE_HALF_SIZE))"

definition PassBufferedMpdusUntilFirstLost :: "recipient \<Rightarrow> recipient option" where
  "PassBufferedMpdusUntilFirstLost r =
     (if \<not> no_old_mpdu r then None
      else let (bs, ws, out) = PassUntil_loop (m_bufferedMpdus r) (m_winStartB r) (m_forwarded r)
           in Some (r\<lparr>m_bufferedMpdus := bs, m_winStartB := ws, m_forwarded := out\<rparr>))"

fun PassLess_loop ::
  "seqno \<Rightarrow> seqno \<Rightarrow> (seqno \<times> wifi_mpdu) list \<Rightarrow> wifi_mpdu list \<Rightarrow>
   ((seqno \<times> wifi_mpdu) list \<times> wifi_mpdu list) option" where
  "PassLess_loop newStart winStartB [] out = Some ([], out)"
| "PassLess_loop newStart winStartB ((sn, m) # bs) out =
     (case (GetDistance sn winStartB, GetDistance newStart winStartB) of
        (Some a, Some b) \<Rightarrow>
          if a < b then PassLess_loop newStart winStartB bs (out @ [m]) else Some ((sn, m) # bs, out)
      | _ \<Rightarrow> None)"

definition PassBufferedMpdusWithSeqNumberLessThan :: "seqno \<Rightarrow> recipient \<Rightarrow> recipient option" where
  "PassBufferedMpdusWithSeqNumberLessThan newWinStartB r =
     (if \<not> no_old_mpdu r then None
      else map_option (\<lambda>(bs, out).
             r\<lparr>m_bufferedMpdus := bs, m_forwarded := out, m_winStartB := newWinStartB\<rparr>)
           (PassLess_loop newWinStartB (m_winStartB r) (m_bufferedMpdus r) (m_forwarded r)))"

definition buffer_mpdu :: "wifi_mpdu \<Rightarrow> recipient \<Rightarrow> recipient" where
  "buffer_mpdu mpdu r = r\<lparr>m_bufferedMpdus :=
     fst (smap_insert (Compare (m_winStartB r)) (mpdu_seq mpdu) mpdu (m_bufferedMpdus r))\<rparr>"

text \<open>The scoreboard part and the reordering part of \<open>NotifyReceivedMpdu\<close>.\<close>

definition receive_scoreboard :: "seqno \<Rightarrow> recipient \<Rightarrow> recipient option" where
  "receive_scoreboard sn r =
     Option.bind (GetDistance sn (m_winStart (m_scoreboard r))) (\<lambda>distance.
       if distance < Window_GetWinSize (m_scoreboard r)
       then map_option (\<lambda>w. r\<lparr>m_scoreboard := w\<rparr>) (Window_set_At distance True (m_scoreboard r))
       else if distance < SEQNO_SPACE_HALF_SIZE
       then let w = Window_Advance (distance - Window_GetWinSize (m_scoreboard r) + 1) (m_scoreboard r)
            in map_option (\<lambda>w. r\<lparr>m_scoreboard := w\<rparr>) (Window_set_At (Window_GetWinSize w - 1) True w)
       else Some r)"

definition NotifyReceivedMpdu :: "wifi_mpdu \<Rightarrow> recipient \<Rightarrow> recipient option" where
  "NotifyReceivedMpdu mpdu r0 =
     Option.bind (receive_scoreboard (mpdu_seq mpdu) r0) (\<lambda>r.
     Option.bind (GetDistance (mpdu_seq mpdu) (m_winStartB r)) (\<lambda>distance.
       if distance < m_winSizeB r
       then PassBufferedMpdusUntilFirstLost (buffer_mpdu mpdu r)
       else if distance < SEQNO_SPACE_HALF_SIZE
       then Option.bind (PassBufferedMpdusWithSeqNumberLessThan
               (mpdu_seq mpdu - of_nat (m_winSizeB r) + 1) (buffer_mpdu mpdu r))
             PassBufferedMpdusUntilFirstLost
       else Some r))"

definition Flush :: "recipient \<Rightarrow> recipient option" where
  "Flush r =
     Option.bind (PassBufferedMpdusWithSeqNumberLessThan (m_winStart (m_scoreboard r)) r)
       PassBufferedMpdusUntilFirstLost"

definition bar_scoreboard :: "seqno \<Rightarrow> recipient \<Rightarrow> recipient option" where
  "bar_scoreboard ssn r =
     Option.bind (GetDistance ssn (m_winStart (m_scoreboard r))) (\<lambda>distance.
       if distance > 0 \<and> distance < Window_GetWinSize (m_scoreboard r)
       then let w = Window_Advance distance (m_scoreboard r)
            in if m_winStart w = ssn then Some (r\<lparr>m_scoreboard := w\<rparr>) else None
       else if distance > 0 \<and> distance < SEQNO_SPACE_HALF_SIZE
       then Some (r\<lparr>m_scoreboard := Window_Reset ssn (m_scoreboard r)\<rparr>)
       else Some r)"

definition NotifyReceivedBar :: "seqno \<Rightarrow> recipient \<Rightarrow> recipient option" where
  "NotifyReceivedBar startingSequenceNumber r0 =
     Option.bind (bar_scoreboard startingSequenceNumber r0) (\<lambda>r.
     Option.bind (GetDistance startingSequenceNumber (m_winStartB r)) (\<lambda>distance.
       if distance > 0 \<and> distance < SEQNO_SPACE_HALF_SIZE
       then Option.bind (PassBufferedMpdusWithSeqNumberLessThan startingSequenceNumber r)
              PassBufferedMpdusUntilFirstLost
       else Some r))"

subsection \<open>The bitmap of the Block Ack response\<close>

record ba_info =
  m_aidTidInfo :: "16 word"
  bi_startingSeq :: seqno
  m_bitmap :: "8 word list"

text \<open>\<open>m_bitmapLen\<close> are the lengths of the bitmaps, in bytes.\<close>

record ba_response =
  m_variant :: ba_variant
  m_bitmapLen :: "8 word list"
  m_baInfo :: "ba_info list"

definition index_ok :: "nat \<Rightarrow> ba_response \<Rightarrow> bool" where
  "index_ok index h \<longleftrightarrow> (m_variant h = MULTI_STA \<or> index = 0) \<and> index < length (m_baInfo h)"

definition Response_SetStartingSequence :: "seqno \<Rightarrow> nat \<Rightarrow> ba_response \<Rightarrow> ba_response option" where
  "Response_SetStartingSequence seq index h =
     (if \<not> index_ok index h then None
      else Some (h\<lparr>m_baInfo := (m_baInfo h)[index := (m_baInfo h ! index)\<lparr>bi_startingSeq := seq\<rparr>]\<rparr>))"

definition ResetBitmap :: "nat \<Rightarrow> ba_response \<Rightarrow> ba_response option" where
  "ResetBitmap index h =
     (if \<not> index_ok index h \<or> \<not> index < length (m_bitmapLen h) then None
      else Some (h\<lparr>m_baInfo := (m_baInfo h)[index :=
             (m_baInfo h ! index)\<lparr>m_bitmap := replicate (unat (m_bitmapLen h ! index)) 0\<rparr>]\<rparr>))"

text \<open>The number of MPDUs the bitmap covers.\<close>

definition nAckedMpdus :: "nat \<Rightarrow> ba_response \<Rightarrow> 16 word" where
  "nAckedMpdus index h =
     (let n = ucast (m_bitmapLen h ! index) * 8 :: 16 word in if m_variant h = BASIC then n div 16 else n)"

definition IsInBitmap :: "seqno \<Rightarrow> nat \<Rightarrow> ba_response \<Rightarrow> bool option" where
  "IsInBitmap seq index h =
     (if \<not> (m_variant h = MULTI_STA \<or> index = 0) \<or> \<not> index < length (m_bitmapLen h) \<or>
         \<not> index < length (m_baInfo h) then None
      else Some ((uint seq - uint (bi_startingSeq (m_baInfo h ! index)) + int SEQNO_SPACE_SIZE)
                   smod int SEQNO_SPACE_SIZE < uint (nAckedMpdus index h)))"

definition IndexInBitmap :: "seqno \<Rightarrow> nat \<Rightarrow> ba_response \<Rightarrow> nat option" where
  "IndexInBitmap seq index h =
     (if \<not> index < length (m_baInfo h) \<or> \<not> index < length (m_bitmapLen h) then None
      else let start = bi_startingSeq (m_baInfo h ! index);
               i = (if seq \<ge> start then seq - start else of_nat SEQNO_SPACE_SIZE - start + seq)
           in if i < nAckedMpdus index h then Some (unat i) else None)"

definition or_bitmap :: "nat \<Rightarrow> nat \<Rightarrow> 8 word \<Rightarrow> ba_response \<Rightarrow> ba_response option" where
  "or_bitmap index byte bits h =
     (let info = m_baInfo h ! index in
      if byte < length (m_bitmap info)
      then Some (h\<lparr>m_baInfo := (m_baInfo h)[index :=
             info\<lparr>m_bitmap := (m_bitmap info)[byte := or (m_bitmap info ! byte) bits]\<rparr>]\<rparr>)
      else None)"

definition SetReceivedPacket :: "seqno \<Rightarrow> nat \<Rightarrow> ba_response \<Rightarrow> ba_response option" where
  "SetReceivedPacket seq index h =
     (if \<not> index_ok index h then None
      else Option.bind (IsInBitmap seq index h) (\<lambda>inside.
        if \<not> inside then Some h
        else (case m_variant h of
                BASIC \<Rightarrow> Option.bind (IndexInBitmap seq 0 h) (\<lambda>i. or_bitmap index (i * 2) 1 h)
              | MULTI_TID \<Rightarrow> None
              | _ \<Rightarrow> Option.bind (IndexInBitmap seq index h) (\<lambda>i.
                       or_bitmap index (i div 8) (push_bit (i mod 8) 1) h))))"

definition SetReceivedFragment :: "seqno \<Rightarrow> 8 word \<Rightarrow> ba_response \<Rightarrow> ba_response option" where
  "SetReceivedFragment seq frag h =
     (if \<not> frag < 16 then None
      else Option.bind (IsInBitmap seq 0 h) (\<lambda>inside.
        if \<not> inside then Some h
        else (case m_variant h of
                BASIC \<Rightarrow> Option.bind (IndexInBitmap seq 0 h) (\<lambda>i.
                  or_bitmap 0 (i * 2 + unat frag div 8) (push_bit (unat frag mod 8) 1) h)
              | MULTI_TID \<Rightarrow> None
              | _ \<Rightarrow> Some h)))"

text \<open>\<open>GetAckType\<close> and \<open>GetTidInfo\<close> of a Multi-STA response.\<close>

definition all_ack :: "nat \<Rightarrow> ba_response \<Rightarrow> bool" where
  "all_ack index h \<longleftrightarrow> m_variant h = MULTI_STA \<and>
     and (drop_bit 11 (m_aidTidInfo (m_baInfo h ! index))) 1 \<noteq> 0 \<and>
     and (drop_bit 12 (m_aidTidInfo (m_baInfo h ! index))) 0x000f = 14"

definition IsPacketReceived :: "seqno \<Rightarrow> nat \<Rightarrow> ba_response \<Rightarrow> bool option" where
  "IsPacketReceived seq index h =
     (if \<not> index_ok index h then None
      else if all_ack index h then Some True
      else Option.bind (IsInBitmap seq index h) (\<lambda>inside.
        if \<not> inside then Some False
        else (case m_variant h of
                BASIC \<Rightarrow> Some False
              | MULTI_TID \<Rightarrow> None
              | _ \<Rightarrow> Option.bind (IndexInBitmap seq index h) (\<lambda>i.
                       if i div 8 < length (m_bitmap (m_baInfo h ! index))
                       then Some (and (m_bitmap (m_baInfo h ! index) ! (i div 8)) (push_bit (i mod 8) 1) \<noteq> 0)
                       else None))))"

definition IsFragmentReceived :: "seqno \<Rightarrow> 8 word \<Rightarrow> ba_response \<Rightarrow> bool option" where
  "IsFragmentReceived seq frag h =
     (if \<not> frag < 16 then None
      else Option.bind (IsInBitmap seq 0 h) (\<lambda>inside.
        if \<not> inside then Some False
        else (case m_variant h of
                BASIC \<Rightarrow> Option.bind (IndexInBitmap seq 0 h) (\<lambda>i.
                  let byte = i * 2 + unat frag div 8 in
                  if byte < length (m_bitmap (m_baInfo h ! 0))
                  then Some (and (m_bitmap (m_baInfo h ! 0) ! byte) (push_bit (unat frag mod 8) 1) \<noteq> 0)
                  else None)
              | MULTI_TID \<Rightarrow> None
              | _ \<Rightarrow> Some False)))"

definition FillBlockAckBitmap :: "nat \<Rightarrow> recipient \<Rightarrow> ba_response \<Rightarrow> ba_response option" where
  "FillBlockAckBitmap index r h =
     (if m_variant h = BASIC \<or> m_variant h = MULTI_TID then None
      else let ssn = m_winStart (m_scoreboard r) in
        Option.bind (Response_SetStartingSequence ssn index h) (\<lambda>h.
        Option.bind (ResetBitmap index h)
          (for_each (\<lambda>i h.
             if Window_At i (m_scoreboard r) = Some True
             then SetReceivedPacket (of_nat ((unat ssn + i) mod SEQNO_SPACE_SIZE)) index h
             else Some h) [0..<Window_GetWinSize (m_scoreboard r)])))"

end
