(* ===== verification/Block_Ack_Inv.thy ===== *)
theory Block_Ack_Inv
  imports Block_Ack
begin

text \<open>
  Facts about the Block Ack agreements: distances on the circle of sequence numbers, the
  transmit window of the originator, the reordering buffer and the scoreboard of the recipient.
\<close>

subsection \<open>Distances\<close>

lemma dist_lt [simp]: "dist a b < SEQNO_SPACE_SIZE"
  by (simp add: dist_def SEQNO_SPACE_SIZE_def)

lemma dist_if:
  "unat a < SEQNO_SPACE_SIZE \<Longrightarrow> unat b < SEQNO_SPACE_SIZE \<Longrightarrow>
   dist a b = (if unat b \<le> unat a then unat a - unat b else unat a + SEQNO_SPACE_SIZE - unat b)"
  by (auto simp: dist_def SEQNO_SPACE_SIZE_def le_mod_geq)

lemma dist_self [simp]: "unat a < SEQNO_SPACE_SIZE \<Longrightarrow> dist a a = 0"
  by (simp add: dist_if)

lemma dist_inj:
  "unat a < SEQNO_SPACE_SIZE \<Longrightarrow> unat b < SEQNO_SPACE_SIZE \<Longrightarrow> unat s < SEQNO_SPACE_SIZE \<Longrightarrow>
   dist a s = dist b s \<longleftrightarrow> a = b"
  by (auto simp: dist_if word_unat_eq_iff split: if_splits)

lemma dist_0: "unat a < SEQNO_SPACE_SIZE \<Longrightarrow> unat s < SEQNO_SPACE_SIZE \<Longrightarrow> dist a s = 0 \<longleftrightarrow> a = s"
  by (auto simp: dist_if word_unat_eq_iff split: if_splits)

text \<open>Moving the origin forward by the distance \<open>dist t s\<close>, less than that of \<open>a\<close>.\<close>

lemma dist_shift:
  assumes "unat a < SEQNO_SPACE_SIZE" "unat s < SEQNO_SPACE_SIZE" "unat t < SEQNO_SPACE_SIZE"
    and "dist t s \<le> dist a s"
  shows "dist a t = dist a s - dist t s"
  using assms by (simp add: dist_if split: if_splits)

lemma next_seq: "unat (next_seq s) = (unat s + 1) mod SEQNO_SPACE_SIZE"
  by (simp add: next_seq_def unat_of_nat SEQNO_SPACE_SIZE_def)

lemma next_seq_lt [simp]: "unat (next_seq s) < SEQNO_SPACE_SIZE"
  by (simp add: next_seq SEQNO_SPACE_SIZE_def)

lemma dist_next_seq: "unat s < SEQNO_SPACE_SIZE \<Longrightarrow> dist (next_seq s) s = 1"
  by (cases "unat s + 1 = SEQNO_SPACE_SIZE") (simp_all add: dist_if next_seq, simp_all add: SEQNO_SPACE_SIZE_def)

lemma smod_of_nat: "int a smod int b = int (a mod b)"
  by (cases "a = 0") (simp_all add: signed_modulo_int_def zmod_int)

lemma smod_dist:
  assumes "unat s < SEQNO_SPACE_SIZE"
  shows "(uint x - uint s + int SEQNO_SPACE_SIZE) smod int SEQNO_SPACE_SIZE = int (dist x s)"
proof -
  have "uint x - uint s + int SEQNO_SPACE_SIZE = int (unat x + SEQNO_SPACE_SIZE - unat s)"
    using assms by (simp add: of_nat_diff)
  then show ?thesis
    unfolding dist_def by (simp only: smod_of_nat)
qed

lemma Compare_dist: "unat s < SEQNO_SPACE_SIZE \<Longrightarrow> Compare s a b \<longleftrightarrow> dist a s < dist b s"
  by (simp add: Compare_def smod_dist)

lemma GetDistance_eq:
  "unat a < SEQNO_SPACE_SIZE \<Longrightarrow> unat b < SEQNO_SPACE_SIZE \<Longrightarrow> GetDistance a b = Some (dist a b)"
  by (simp add: GetDistance_def)

subsection \<open>The originator\<close>

text \<open>\<open>AdvanceTxWindow\<close> slides the window over the acknowledged MPDUs at its start.\<close>

definition clear_run :: "bool list \<Rightarrow> bool list" where
  "clear_run bs = dropWhile (\<lambda>b. b) bs @ replicate (length (takeWhile (\<lambda>b. b) bs)) False"

lemma takeWhile_snoc_False: "takeWhile (\<lambda>b. b) (bs @ [False]) = takeWhile (\<lambda>b. b) bs"
  by (induction bs) auto

lemma dropWhile_snoc_False: "dropWhile (\<lambda>b. b) (bs @ [False]) = dropWhile (\<lambda>b. b) bs @ [False]"
  by (induction bs) auto

lemma clear_run_Cons_True: "clear_run (bs @ [False]) = clear_run (True # bs)"
  by (simp add: clear_run_def takeWhile_snoc_False dropWhile_snoc_False)

lemma AdvanceTxWindow_loop_flags:
  assumes "window_ok w"
  shows "\<exists>w'. AdvanceTxWindow_loop w = Some w' \<and> window_ok w' \<and> flags w' = clear_run (flags w) \<and>
    unat (m_winStart w') = (unat (m_winStart w) + length (takeWhile (\<lambda>b. b) (flags w))) mod SEQNO_SPACE_SIZE"
  using assms
proof (induction w rule: AdvanceTxWindow_loop.induct)
  case (1 w)
  have len: "0 < length (flags w)"
    using 1(2) unfolding window_ok_def length_flags by linarith
  then obtain b bs where bs: "flags w = b # bs" by (cases "flags w") auto
  have at: "Window_At 0 w = Some b" using len bs by (simp add: Window_At_flags)
  note start = 1(2)
  show ?case
  proof (cases b)
    case False
    then show ?thesis
      using at bs start by (subst AdvanceTxWindow_loop.simps) (simp add: clear_run_def window_ok_def)
  next
    case True
    note adv = Window_Advance_flags [OF 1(2), of 1]
    have fl: "flags (Window_Advance 1 w) = bs @ [False]"
      using adv(1) bs by simp
    obtain w' where w': "AdvanceTxWindow_loop (Window_Advance 1 w) = Some w'" "window_ok w'"
        "flags w' = clear_run (bs @ [False])"
        "unat (m_winStart w') = (unat (m_winStart (Window_Advance 1 w)) +
           length (takeWhile (\<lambda>b. b) (bs @ [False]))) mod SEQNO_SPACE_SIZE"
      using 1(1) [OF at True adv(3)] fl by auto
    then show ?thesis
      using at True bs adv(2)
      by (subst AdvanceTxWindow_loop.simps) (simp add: mod_simps clear_run_Cons_True takeWhile_snoc_False)
  qed
qed

definition originator_ok :: "originator \<Rightarrow> bool" where
  "originator_ok a \<longleftrightarrow> window_ok (m_txWindow a)"

lemma AdvanceTxWindow_ok:
  assumes "originator_ok a"
  shows "\<exists>a'. AdvanceTxWindow a = Some a' \<and> originator_ok a' \<and>
    flags (m_txWindow a') = clear_run (flags (m_txWindow a)) \<and>
    unat (m_winStart (m_txWindow a')) =
      (unat (m_winStart (m_txWindow a)) + length (takeWhile (\<lambda>b. b) (flags (m_txWindow a)))) mod SEQNO_SPACE_SIZE"
  using AdvanceTxWindow_loop_flags [of "m_txWindow a"] assms
  by (auto simp: AdvanceTxWindow_def originator_ok_def)

lemma length_clear_run [simp]: "length (clear_run bs) = length bs"
  unfolding clear_run_def by (metis length_append length_replicate add.commute takeWhile_dropWhile_id)

lemma originator_ok_window:
  "originator_ok a \<Longrightarrow> unat (m_winStart (m_txWindow a)) < SEQNO_SPACE_SIZE \<and> 0 < Window_GetWinSize (m_txWindow a)"
  unfolding originator_ok_def window_ok_def Window_GetWinSize_def by linarith

text \<open>Distance to a window start that moved forward by \<open>k\<close>, not beyond the sequence number.\<close>

lemma dist_moved:
  assumes "unat sn < SEQNO_SPACE_SIZE" "unat s < SEQNO_SPACE_SIZE"
    and "unat s' = (unat s + k) mod SEQNO_SPACE_SIZE" and "k \<le> dist sn s"
  shows "dist sn s' = dist sn s - k"
proof -
  have k: "k < SEQNO_SPACE_SIZE" using assms(4) dist_lt [of sn s] by linarith
  have s': "unat s' < SEQNO_SPACE_SIZE" using assms(3) by (simp add: SEQNO_SPACE_SIZE_def)
  have "dist s' s = k"
  proof (cases "unat s + k < SEQNO_SPACE_SIZE")
    case True
    then show ?thesis using assms(2,3) s' by (simp add: dist_if)
  next
    case False
    then have "unat s' = unat s + k - SEQNO_SPACE_SIZE"
      using assms(2,3) k by (simp add: le_mod_geq)
    then show ?thesis using assms(2) s' k False by (simp add: dist_if)
  qed
  then show ?thesis
    using dist_shift [OF assms(1,2) s'] assms(4) by simp
qed

lemma takeWhile_snoc_le: "length (takeWhile (\<lambda>b. b) (bs @ [False])) \<le> length bs"
  by (simp add: takeWhile_snoc_False length_takeWhile_le)

text \<open>After the transmission of an MPDU that is not old, the MPDU is inside the window.\<close>

lemma NotifyTransmittedMpdu_ok:
  assumes ok: "originator_ok a" and sn: "unat sn < SEQNO_SPACE_SIZE"
  shows "\<exists>a'. NotifyTransmittedMpdu sn a = Some a' \<and> originator_ok a' \<and>
    Window_GetWinSize (m_txWindow a') = Window_GetWinSize (m_txWindow a) \<and>
    (dist sn (m_winStart (m_txWindow a)) < SEQNO_SPACE_HALF_SIZE \<longrightarrow>
     dist sn (m_winStart (m_txWindow a')) < Window_GetWinSize (m_txWindow a'))"
proof -
  let ?w = "m_txWindow a"
  let ?d = "dist sn (m_winStart ?w)" and ?n = "Window_GetWinSize ?w"
  note win = originator_ok_window [OF ok]
  have gd: "Originator_GetDistance sn a = Some ?d"
    using sn win by (simp add: Originator_GetDistance_def GetDistance_eq)
  show ?thesis
  proof (cases "?d < SEQNO_SPACE_HALF_SIZE \<and> ?n \<le> ?d")
    case False
    then have "NotifyTransmittedMpdu sn a = Some a"
      by (auto simp: NotifyTransmittedMpdu_def gd)
    with ok False show ?thesis by auto
  next
    case True
    define c where "c = ?d - ?n + 1"
    define b where "b = a\<lparr>m_txWindow := Window_Advance c ?w\<rparr>"
    have w: "window_ok ?w" using ok by (simp add: originator_ok_def)
    note adv = Window_Advance_flags [OF w, of c]
    have "originator_ok b" using adv(3) by (simp add: b_def originator_ok_def)
    from AdvanceTxWindow_ok [OF this] obtain a' where a': "AdvanceTxWindow b = Some a'" "originator_ok a'"
      "flags (m_txWindow a') = clear_run (flags (m_txWindow b))"
      "unat (m_winStart (m_txWindow a')) = (unat (m_winStart (m_txWindow b)) +
         length (takeWhile (\<lambda>b. b) (flags (m_txWindow b)))) mod SEQNO_SPACE_SIZE"
      by blast
    have eq: "NotifyTransmittedMpdu sn a = Some a'"
      using True a'(1) by (simp add: NotifyTransmittedMpdu_def gd b_def c_def)
    have size: "Window_GetWinSize (m_txWindow a') = ?n"
      using a'(3) adv(1) length_flags [of "m_txWindow a'"] length_flags [of ?w]
      by (simp add: Window_GetWinSize_def b_def del: length_flags)
    have "0 < min c (length (flags ?w))" using win by (simp add: c_def Window_GetWinSize_def)
    then obtain m where m: "min c (length (flags ?w)) = Suc m" by (cases "min c (length (flags ?w))") auto
    have fl: "flags (m_txWindow b) = (drop c (flags ?w) @ replicate m False) @ [False]"
      using adv(1) unfolding m by (simp add: b_def replicate_append_same)
    define k where "k = length (takeWhile (\<lambda>b. b) (flags (m_txWindow b)))"
    have "k \<le> length (drop c (flags ?w) @ replicate m False)"
      unfolding k_def fl by (rule takeWhile_snoc_le)
    also have "\<dots> < length (flags ?w)" using m win by (simp add: Window_GetWinSize_def)
    finally have k: "k < ?n" by (simp add: Window_GetWinSize_def)
    have "unat (m_winStart (m_txWindow a')) = (unat (m_winStart ?w) + (c + k)) mod SEQNO_SPACE_SIZE"
      using a'(4) adv(2) by (simp add: b_def k_def mod_simps add.assoc)
    moreover have "c + k \<le> ?d" using k True unfolding c_def by linarith
    ultimately have "dist sn (m_winStart (m_txWindow a')) = ?d - (c + k)"
      using dist_moved sn win by blast
    also have "\<dots> < ?n" using True win by (simp add: c_def)
    finally show ?thesis using eq a'(2) size by auto
  qed
qed

text \<open>The acknowledgment of an MPDU in the window marks it and slides the window.\<close>

lemma NotifyAckedMpdu_ok:
  assumes ok: "originator_ok a" and sn: "unat sn < SEQNO_SPACE_SIZE"
    and inw: "dist sn (m_winStart (m_txWindow a)) < Window_GetWinSize (m_txWindow a)"
    and half: "Window_GetWinSize (m_txWindow a) \<le> SEQNO_SPACE_HALF_SIZE"
  shows "\<exists>a'. NotifyAckedMpdu sn a = Some a' \<and> originator_ok a' \<and>
    (let fs = (flags (m_txWindow a))[dist sn (m_winStart (m_txWindow a)) := True] in
     flags (m_txWindow a') = clear_run fs \<and>
     unat (m_winStart (m_txWindow a')) =
       (unat (m_winStart (m_txWindow a)) + length (takeWhile (\<lambda>b. b) fs)) mod SEQNO_SPACE_SIZE)"
proof -
  let ?d = "dist sn (m_winStart (m_txWindow a))"
  have gd: "Originator_GetDistance sn a = Some ?d"
    using sn originator_ok_window [OF ok] by (simp add: Originator_GetDistance_def GetDistance_eq)
  obtain w where w: "Window_set_At ?d True (m_txWindow a) = Some w"
    using inw by (auto simp: Window_set_At_def Window_GetWinSize_def)
  note fl = Window_set_At_flags [OF w]
  have "length (m_window w) = length (m_window (m_txWindow a))"
    using fl by (metis length_flags length_list_update)
  then have "originator_ok (a\<lparr>m_txWindow := w\<rparr>)"
    using ok fl by (simp add: originator_ok_def window_ok_def)
  from AdvanceTxWindow_ok [OF this] fl inw half show ?thesis
    by (auto simp: NotifyAckedMpdu_def gd w Let_def)
qed

subsection \<open>The recipient\<close>

text \<open>
  Invariant of the reordering buffer: its MPDUs are filed under their sequence numbers, in order
  of distance from \<open>m_winStartB\<close>, all inside the window and none of them the first expected one.
\<close>

definition buffer_ok :: "nat \<Rightarrow> seqno \<Rightarrow> nat \<Rightarrow> (seqno \<times> wifi_mpdu) list \<Rightarrow> bool" where
  "buffer_ok low s high bs \<longleftrightarrow> unat s < SEQNO_SPACE_SIZE \<and> sorted_by (\<lambda>e. dist (fst e) s) bs \<and>
     (\<forall>e\<in>set bs. unat (fst e) < SEQNO_SPACE_SIZE \<and> fst e = mpdu_seq (snd e) \<and>
        low \<le> dist (fst e) s \<and> dist (fst e) s < high)"

definition recipient_ok :: "recipient \<Rightarrow> bool" where
  "recipient_ok r \<longleftrightarrow> window_ok (m_scoreboard r) \<and> 0 < m_winSizeB r \<and> m_winSizeB r \<le> SEQNO_SPACE_HALF_SIZE \<and>
     buffer_ok 1 (m_winStartB r) (m_winSizeB r) (m_bufferedMpdus r)"

lemma RecipientBlockAckAgreement_ok:
  assumes "unat startingSeq < SEQNO_SPACE_SIZE" "0 < bufferSize" "unat bufferSize \<le> SEQNO_SPACE_HALF_SIZE"
  shows "recipient_ok (RecipientBlockAckAgreement o' amsdu tid bufferSize timeout startingSeq ht)"
  using assms Window_Init_ok
  by (simp add: recipient_ok_def RecipientBlockAckAgreement_def buffer_ok_def unat_gt_0)

lemma buffer_ok_Cons:
  "buffer_ok low s high (e # bs) \<longleftrightarrow> unat (fst e) < SEQNO_SPACE_SIZE \<and> fst e = mpdu_seq (snd e) \<and>
     low \<le> dist (fst e) s \<and> dist (fst e) s < high \<and> (\<forall>x\<in>set bs. dist (fst e) s < dist (fst x) s) \<and>
     buffer_ok low s high bs"
  by (auto simp: buffer_ok_def)

text \<open>Moving the origin by \<open>k\<close>, not beyond the first MPDU.\<close>

lemma buffer_ok_shift:
  assumes "buffer_ok low s high bs" and "unat s' = (unat s + k) mod SEQNO_SPACE_SIZE" and "k \<le> low"
  shows "buffer_ok (low - k) s' (high - k) bs"
proof -
  have s': "unat s' < SEQNO_SPACE_SIZE" using assms(2) by (simp add: SEQNO_SPACE_SIZE_def)
  have d: "dist (fst e) s' = dist (fst e) s - k" "k \<le> dist (fst e) s" if "e \<in> set bs" for e
    using that assms dist_moved [of "fst e" s s' k] by (force simp: buffer_ok_def)+
  have "sorted_by (\<lambda>e. dist (fst e) s') bs"
    unfolding sorted_by_def
  proof (rule sorted_wrt_mono_rel)
    show "sorted_wrt (\<lambda>a b. dist (fst a) s < dist (fst b) s) bs"
      using assms(1) by (simp add: buffer_ok_def sorted_by_def)
    fix x y assume "x \<in> set bs" "y \<in> set bs" "dist (fst x) s < dist (fst y) s"
    then show "dist (fst x) s' < dist (fst y) s'" using d [of x] d [of y] by linarith
  qed
  then show ?thesis
    using assms(1) d s' by (fastforce simp: buffer_ok_def)
qed

text \<open>The MPDUs that are in sequence from the start of the window are passed up.\<close>

lemma PassUntil_loop_ok:
  assumes "buffer_ok 0 s high bs" and "high \<le> SEQNO_SPACE_SIZE"
    and "PassUntil_loop bs s out = (bs', s', out')"
  shows "\<exists>n. n \<le> length bs \<and> bs' = drop n bs \<and> out' = out @ map snd (take n bs) \<and>
    unat s' = (unat s + n) mod SEQNO_SPACE_SIZE \<and> map (\<lambda>e. dist (fst e) s) (take n bs) = [0..<n] \<and>
    buffer_ok 1 s' (high - n) bs' \<and> (\<forall>e\<in>set bs'. n < dist (fst e) s) \<and> (bs = [] \<or> n \<le> high)"
  using assms
proof (induction bs arbitrary: s high out)
  case Nil
  then show ?case by (auto simp: buffer_ok_def intro!: exI [of _ 0])
next
  case (Cons e bs)
  obtain sn m where e: "e = (sn, m)" by (cases e)
  have s: "unat s < SEQNO_SPACE_SIZE" using Cons.prems(1) by (simp add: buffer_ok_def)
  have sn: "unat sn < SEQNO_SPACE_SIZE" using Cons.prems(1) unfolding buffer_ok_Cons e fst_conv by blast
  show ?case
  proof (cases "sn = s")
    case False
    then have pos: "0 < dist sn s" using dist_0 [OF sn s] by simp
    have ok: "buffer_ok 1 s high (e # bs)"
      using Cons.prems(1) pos by (fastforce simp: buffer_ok_def e)
    then have "\<forall>x\<in>set (e # bs). 0 < dist (fst x) s"
      by (auto simp: buffer_ok_def)
    moreover have "bs' = e # bs" "s' = s" "out' = out"
      using False Cons.prems(3) by (simp_all add: e)
    ultimately show ?thesis
      using ok s by (intro exI [of _ 0]) simp
  next
    case True
    have d0: "dist sn s = 0" using True s by simp
    have "buffer_ok 1 s high bs"
      using Cons.prems(1) d0 by (fastforce simp: buffer_ok_def e)
    then have ok: "buffer_ok 0 (next_seq s) (high - 1) bs"
      using buffer_ok_shift [of 1 s high bs "next_seq s" 1] next_seq [of s] by simp
    have high: "0 < high" using Cons.prems(1) by (auto simp: buffer_ok_Cons)
    have lp: "PassUntil_loop bs (next_seq s) (out @ [m]) = (bs', s', out')"
      using Cons.prems(3) True by (simp add: e)
    have le: "high - 1 \<le> SEQNO_SPACE_SIZE" using Cons.prems(2) by simp
    from Cons.IH [OF ok le lp] obtain n where n:
      "n \<le> length bs" "bs' = drop n bs" "out' = (out @ [m]) @ map snd (take n bs)"
      "unat s' = (unat (next_seq s) + n) mod SEQNO_SPACE_SIZE"
      "map (\<lambda>e. dist (fst e) (next_seq s)) (take n bs) = [0..<n]"
      "buffer_ok 1 s' (high - 1 - n) bs'" "\<forall>e\<in>set bs'. n < dist (fst e) (next_seq s)" "bs = [] \<or> n \<le> high - 1"
      by blast
    have shift: "dist (fst x) s = dist (fst x) (next_seq s) + 1" if "x \<in> set bs" for x
    proof -
      have "unat (fst x) < SEQNO_SPACE_SIZE" "1 \<le> dist (fst x) s"
        using that \<open>buffer_ok 1 s high bs\<close> by (auto simp: buffer_ok_def)
      then show ?thesis
        using dist_moved [of "fst x" s "next_seq s" 1] s next_seq [of s] by simp
    qed
    have "map (\<lambda>e. dist (fst e) s) (take n bs) = map Suc (map (\<lambda>e. dist (fst e) (next_seq s)) (take n bs))"
      using shift by (auto dest: in_set_takeD)
    also have "\<dots> = [1..<Suc n]" unfolding n(5) by (simp add: map_Suc_upt)
    finally have "map (\<lambda>e. dist (fst e) s) (take (Suc n) (e # bs)) = [0..<Suc n]"
      using d0 by (simp add: e upt_conv_Cons)
    moreover have "\<forall>x\<in>set bs'. Suc n < dist (fst x) s"
      using n(2,7) shift by (metis Suc_eq_plus1 Suc_less_eq in_set_dropD)
    moreover have "unat s' = (unat s + Suc n) mod SEQNO_SPACE_SIZE"
      using n(4) next_seq [of s] by (simp add: mod_simps)
    ultimately show ?thesis
      using n high by (intro exI [of _ "Suc n"]) (auto simp: e)
  qed
qed

text \<open>The MPDUs before the new start of the window are passed up, gaps or not.\<close>

lemma PassLess_loop_ok:
  assumes "buffer_ok low s high bs" and new: "unat new < SEQNO_SPACE_SIZE"
  shows "PassLess_loop new s bs out =
    Some (dropWhile (\<lambda>e. dist (fst e) s < dist new s) bs,
          out @ map snd (takeWhile (\<lambda>e. dist (fst e) s < dist new s) bs))"
  using assms(1)
proof (induction bs arbitrary: out)
  case (Cons e bs)
  obtain sn m where e: "e = (sn, m)" by (cases e)
  have "unat sn < SEQNO_SPACE_SIZE" "unat s < SEQNO_SPACE_SIZE"
    using Cons.prems unfolding e buffer_ok_Cons buffer_ok_def by auto
  then have "GetDistance sn s = Some (dist sn s)" "GetDistance new s = Some (dist new s)"
    using new by (simp_all add: GetDistance_eq)
  then show ?case
    using Cons by (simp add: e buffer_ok_Cons)
qed simp

lemma dropWhile_sorted:
  "sorted_by f bs \<Longrightarrow> dropWhile (\<lambda>e. f e < k) bs = filter (\<lambda>e. k \<le> f e) bs \<and>
     takeWhile (\<lambda>e. f e < k) bs = filter (\<lambda>e. f e < k) bs" for f :: "_ \<Rightarrow> nat"
proof (induction bs)
  case (Cons e bs)
  have "filter (\<lambda>e. k \<le> f e) bs = bs \<and> filter (\<lambda>e. f e < k) bs = []" if "k \<le> f e"
    using Cons.prems that by (fastforce simp: filter_id_conv filter_empty_conv)
  then show ?case using Cons by auto
qed simp

lemma no_old_mpdu_ok:
  "buffer_ok low (m_winStartB r) high (m_bufferedMpdus r) \<Longrightarrow> high \<le> SEQNO_SPACE_HALF_SIZE \<Longrightarrow> no_old_mpdu r"
  using last_in_set [of "m_bufferedMpdus r"]
  by (fastforce simp: no_old_mpdu_def buffer_ok_def GetDistance_eq)

text \<open>
  Delivery: \<open>r'\<close> results from \<open>r\<close> by forwarding \<open>out\<close>, a part of the MPDUs \<open>ms\<close> in strictly
  increasing order of distance, and moving the start of the window by \<open>k\<close>, beyond all that was
  forwarded and not beyond what is kept.
\<close>

definition delivers :: "wifi_mpdu set \<Rightarrow> recipient \<Rightarrow> nat \<Rightarrow> wifi_mpdu list \<Rightarrow> recipient \<Rightarrow> bool" where
  "delivers ms r k out r' \<longleftrightarrow> m_forwarded r' = m_forwarded r @ out \<and>
     unat (m_winStartB r') = (unat (m_winStartB r) + k) mod SEQNO_SPACE_SIZE \<and>
     sorted_by (\<lambda>m. dist (mpdu_seq m) (m_winStartB r)) out \<and>
     (\<forall>m\<in>set out. dist (mpdu_seq m) (m_winStartB r) < k) \<and>
     (\<forall>m\<in>snd ` set (m_bufferedMpdus r'). k \<le> dist (mpdu_seq m) (m_winStartB r)) \<and>
     ms = set out \<union> snd ` set (m_bufferedMpdus r') \<and> m_winSizeB r' = m_winSizeB r"

definition passed :: "recipient \<Rightarrow> nat \<Rightarrow> wifi_mpdu list \<Rightarrow> recipient \<Rightarrow> bool" where
  "passed r k out r' \<longleftrightarrow>
     delivers (snd ` set (m_bufferedMpdus r)) r k out r' \<and> m_scoreboard r' = m_scoreboard r"

lemma sorted_by_map: "sorted_by f (map g xs) = sorted_by (\<lambda>x. f (g x)) xs"
  by (induction xs) auto

lemma sorted_by_cong: "(\<And>x. x \<in> set xs \<Longrightarrow> f x = g x) \<Longrightarrow> sorted_by f xs = sorted_by g xs"
  by (induction xs) auto

lemma sorted_by_take: "sorted_by f xs \<Longrightarrow> sorted_by f (take n xs)"
  unfolding sorted_by_def by (rule sorted_wrt_take)

lemma PassBufferedMpdusUntilFirstLost_ok:
  assumes "buffer_ok 0 (m_winStartB r) high (m_bufferedMpdus r)" and "high \<le> SEQNO_SPACE_HALF_SIZE"
  shows "\<exists>r' n. PassBufferedMpdusUntilFirstLost r = Some r' \<and> n \<le> length (m_bufferedMpdus r) \<and>
    passed r n (map snd (take n (m_bufferedMpdus r))) r' \<and>
    map (\<lambda>e. dist (fst e) (m_winStartB r)) (take n (m_bufferedMpdus r)) = [0..<n] \<and>
    buffer_ok 1 (m_winStartB r') (high - n) (m_bufferedMpdus r') \<and>
    (\<forall>e\<in>set (m_bufferedMpdus r'). n < dist (fst e) (m_winStartB r))"
proof -
  let ?s = "m_winStartB r" and ?bs = "m_bufferedMpdus r"
  obtain bs' s' out' where lp: "PassUntil_loop ?bs ?s (m_forwarded r) = (bs', s', out')"
    by (cases "PassUntil_loop ?bs ?s (m_forwarded r)")
  have high: "high \<le> SEQNO_SPACE_SIZE"
    using assms(2) by (simp add: SEQNO_SPACE_SIZE_def SEQNO_SPACE_HALF_SIZE_def)
  from PassUntil_loop_ok [OF assms(1) high lp] obtain n where n:
    "n \<le> length ?bs" "bs' = drop n ?bs" "out' = m_forwarded r @ map snd (take n ?bs)"
    "unat s' = (unat ?s + n) mod SEQNO_SPACE_SIZE"
    "map (\<lambda>e. dist (fst e) ?s) (take n ?bs) = [0..<n]" "buffer_ok 1 s' (high - n) bs'"
    "\<forall>e\<in>set bs'. n < dist (fst e) ?s"
    by blast
  have key': "fst e = mpdu_seq (snd e)" if "e \<in> set ?bs" for e
    using assms(1) that by (simp add: buffer_ok_def)
  then have key: "fst e = mpdu_seq (snd e)" if "e \<in> set (take n ?bs)" for e
    using in_set_takeD [OF that] by blast
  have keep: "n \<le> dist (mpdu_seq m) ?s" if "m \<in> snd ` set bs'" for m
    using that n(2,7) key' by (force dest: in_set_dropD)
  have srt: "sorted_by (\<lambda>m. dist (mpdu_seq m) ?s) (map snd (take n ?bs))"
    using assms(1) key sorted_by_take [of "\<lambda>e. dist (fst e) ?s" ?bs n]
      sorted_by_cong [of "take n ?bs" "\<lambda>e. dist (fst e) ?s" "\<lambda>e. dist (mpdu_seq (snd e)) ?s"]
    by (simp add: buffer_ok_def sorted_by_map)
  have small: "dist (fst e) ?s < n" if "e \<in> set (take n ?bs)" for e
  proof -
    have "dist (fst e) ?s \<in> set (map (\<lambda>e. dist (fst e) ?s) (take n ?bs))" using that by simp
    then show ?thesis unfolding n(5) by simp
  qed
  have parts: "snd ` set ?bs = set (map snd (take n ?bs)) \<union> snd ` set (drop n ?bs)"
    by (metis append_take_drop_id image_Un set_append set_map)
  let ?r' = "r\<lparr>m_bufferedMpdus := bs', m_winStartB := s', m_forwarded := out'\<rparr>"
  have "PassBufferedMpdusUntilFirstLost r = Some ?r'"
    using no_old_mpdu_ok [OF assms] lp by (simp add: PassBufferedMpdusUntilFirstLost_def)
  moreover have "passed r n (map snd (take n ?bs)) ?r'"
    using n(2,3,4) srt small key parts keep by (auto simp: passed_def delivers_def)
  ultimately show ?thesis using n(1,5,6,7) by (intro exI [of _ ?r'] exI [of _ n]) simp
qed

lemma PassBufferedMpdusWithSeqNumberLessThan_ok:
  assumes "buffer_ok 0 (m_winStartB r) high (m_bufferedMpdus r)" and "high \<le> SEQNO_SPACE_HALF_SIZE"
    and new: "unat new < SEQNO_SPACE_SIZE"
  defines "b \<equiv> dist new (m_winStartB r)"
  shows "\<exists>r'. PassBufferedMpdusWithSeqNumberLessThan new r = Some r' \<and>
    passed r b (map snd (filter (\<lambda>e. dist (fst e) (m_winStartB r) < b) (m_bufferedMpdus r))) r' \<and>
    m_winStartB r' = new \<and> buffer_ok 0 new (high - b) (m_bufferedMpdus r')"
proof -
  let ?s = "m_winStartB r" and ?bs = "m_bufferedMpdus r"
  let ?lo = "filter (\<lambda>e. dist (fst e) ?s < b) ?bs" and ?hi = "filter (\<lambda>e. b \<le> dist (fst e) ?s) ?bs"
  have s: "unat ?s < SEQNO_SPACE_SIZE" and srt: "sorted_by (\<lambda>e. dist (fst e) ?s) ?bs"
    using assms(1) by (simp_all add: buffer_ok_def)
  have key: "fst e = mpdu_seq (snd e)" if "e \<in> set ?bs" for e
    using assms(1) that by (simp add: buffer_ok_def)
  let ?r' = "r\<lparr>m_bufferedMpdus := ?hi, m_forwarded := m_forwarded r @ map snd ?lo, m_winStartB := new\<rparr>"
  have "PassBufferedMpdusWithSeqNumberLessThan new r = Some ?r'"
    using no_old_mpdu_ok [OF assms(1,2)] PassLess_loop_ok [OF assms(1) new]
      dropWhile_sorted [OF srt, of b]
    by (simp add: PassBufferedMpdusWithSeqNumberLessThan_def b_def)
  moreover have newb: "unat new = (unat ?s + b) mod SEQNO_SPACE_SIZE"
    using new s by (auto simp: b_def dist_if le_mod_geq)
  moreover have "sorted_by (\<lambda>m. dist (mpdu_seq m) ?s) (map snd ?lo)"
  proof -
    have "sorted_by (\<lambda>e. dist (fst e) ?s) ?lo"
      using srt by (simp add: sorted_by_def sorted_wrt_filter)
    then show ?thesis
      using key sorted_by_cong [of ?lo "\<lambda>e. dist (fst e) ?s" "\<lambda>e. dist (mpdu_seq (snd e)) ?s"]
      by (simp add: sorted_by_map)
  qed
  moreover have "snd ` set ?bs = set (map snd ?lo) \<union> snd ` set ?hi"
    by (auto simp: image_iff not_less)
  ultimately have "PassBufferedMpdusWithSeqNumberLessThan new r = Some ?r' \<and> passed r b (map snd ?lo) ?r'"
    using key by (auto simp: passed_def delivers_def)
  moreover have "buffer_ok b ?s high ?hi"
    using assms(1) by (auto simp: buffer_ok_def sorted_by_def sorted_wrt_filter)
  then have "buffer_ok 0 new (high - b) ?hi"
    using buffer_ok_shift [of b ?s high ?hi new b] newb by simp
  ultimately show ?thesis by (intro exI [of _ ?r']) simp
qed

text \<open>Two deliveries in a row are one.\<close>

lemma delivers_trans:
  assumes "delivers ms r k out r1" and "delivers (snd ` set (m_bufferedMpdus r1)) r1 n out1 r2"
    and "buffer_ok 0 (m_winStartB r1) high (m_bufferedMpdus r1)" and s: "unat (m_winStartB r) < SEQNO_SPACE_SIZE"
    and bs: "\<forall>m\<in>ms. unat (mpdu_seq m) < SEQNO_SPACE_SIZE"
  shows "delivers ms r (k + n) (out @ out1) r2"
proof -
  let ?s = "m_winStartB r" and ?s1 = "m_winStartB r1"
  note d1 = assms(1) [unfolded delivers_def] and d2 = assms(2) [unfolded delivers_def]
  have mv: "dist (fst e) ?s = k + dist (fst e) ?s1" if "e \<in> set (m_bufferedMpdus r1)" for e
  proof -
    have "unat (fst e) < SEQNO_SPACE_SIZE" "k \<le> dist (fst e) ?s"
      using assms(3) d1 that by (auto simp: buffer_ok_def)
    then show ?thesis using dist_moved [of "fst e" ?s ?s1 k] s d1 by simp
  qed
  have key: "fst e = mpdu_seq (snd e)" if "e \<in> set (m_bufferedMpdus r1)" for e
    using assms(3) that by (simp add: buffer_ok_def)
  have mv': "dist (mpdu_seq m) ?s = k + dist (mpdu_seq m) ?s1" if "m \<in> snd ` set (m_bufferedMpdus r1)" for m
    using that mv key by auto
  have sub: "set out1 \<subseteq> snd ` set (m_bufferedMpdus r1)" "snd ` set (m_bufferedMpdus r2) \<subseteq> snd ` set (m_bufferedMpdus r1)"
    using d2 by auto
  have "sorted_by (\<lambda>m. dist (mpdu_seq m) ?s) out1"
    using d2 sub mv' sorted_by_cong [of out1 "\<lambda>m. dist (mpdu_seq m) ?s" "\<lambda>m. k + dist (mpdu_seq m) ?s1"]
    by (auto simp: sorted_by_def)
  then have "sorted_by (\<lambda>m. dist (mpdu_seq m) ?s) (out @ out1)"
    using d1 sub mv' by (fastforce simp: sorted_by_append)
  moreover have "\<forall>m\<in>set (out @ out1). dist (mpdu_seq m) ?s < k + n"
    using d1 d2 sub mv' by fastforce
  moreover have "unat (m_winStartB r2) = (unat ?s + (k + n)) mod SEQNO_SPACE_SIZE"
    using d1 d2 by (simp add: mod_simps add.assoc)
  ultimately show ?thesis
    using d1 d2 sub mv' by (auto simp: delivers_def subset_iff)
qed

text \<open>The scoreboard records the MPDU and leaves the rest alone.\<close>

lemma receive_scoreboard_ok:
  assumes "window_ok (m_scoreboard r)" and "unat sn < SEQNO_SPACE_SIZE"
  shows "\<exists>w. receive_scoreboard sn r = Some (r\<lparr>m_scoreboard := w\<rparr>) \<and> window_ok w \<and>
    length (flags w) = length (flags (m_scoreboard r))"
proof -
  let ?w = "m_scoreboard r"
  let ?d = "dist sn (m_winStart ?w)" and ?n = "Window_GetWinSize ?w"
  have gd: "GetDistance sn (m_winStart ?w) = Some ?d"
    using assms by (simp add: GetDistance_eq window_ok_def)
  have n: "?n = length (m_window ?w)" by (simp add: Window_GetWinSize_def)
  have pos: "0 < ?n" using assms(1) unfolding window_ok_def n by linarith
  have setat: "\<exists>v'. Window_set_At i True v = Some v' \<and> window_ok v' \<and> length (flags v') = length (flags v)"
    if "window_ok v" "i < length (m_window v)" for v i
    using that by (auto simp: Window_set_At_def window_ok_def)
  consider "?d < ?n" | "?n \<le> ?d" "?d < SEQNO_SPACE_HALF_SIZE" | "?n \<le> ?d" "\<not> ?d < SEQNO_SPACE_HALF_SIZE"
    by linarith
  then show ?thesis
  proof cases
    case 1
    then show ?thesis
      using setat [OF assms(1), of ?d] n by (auto simp: receive_scoreboard_def gd)
  next
    case 2
    let ?v = "Window_Advance (?d - ?n + 1) ?w"
    note adv = Window_Advance_flags [OF assms(1), of "?d - ?n + 1"]
    have "length (flags ?v) = length (flags ?w)" unfolding adv(1) by simp
    then have len: "length (m_window ?v) = length (m_window ?w)" by simp
    have "Window_GetWinSize ?v - 1 < length (m_window ?v)"
      using pos n len by (simp add: Window_GetWinSize_def)
    from setat [OF adv(3) this] show ?thesis
      using 2 len by (auto simp: receive_scoreboard_def gd Let_def)
  next
    case 3
    then show ?thesis
      using assms(1) by (auto simp: receive_scoreboard_def gd intro!: exI [of _ ?w])
  qed
qed

text \<open>Filing an MPDU that is not old: the buffer stays in order.\<close>

lemma buffer_mpdu_ok:
  assumes "buffer_ok 1 (m_winStartB r) high (m_bufferedMpdus r)" and "unat (mpdu_seq m) < SEQNO_SPACE_SIZE"
    and "dist (mpdu_seq m) (m_winStartB r) < high'" and "high \<le> high'"
  shows "buffer_ok 0 (m_winStartB r) high' (m_bufferedMpdus (buffer_mpdu m r)) \<and>
    snd ` set (m_bufferedMpdus (buffer_mpdu m r)) =
      (if mpdu_seq m \<in> fst ` set (m_bufferedMpdus r) then snd ` set (m_bufferedMpdus r)
       else insert m (snd ` set (m_bufferedMpdus r))) \<and>
    (\<exists>e\<in>set (m_bufferedMpdus (buffer_mpdu m r)). fst e = mpdu_seq m)"
proof -
  let ?s = "m_winStartB r" and ?bs = "m_bufferedMpdus r"
  let ?lt = "\<lambda>a b. dist a ?s < dist b ?s"
  have s: "unat ?s < SEQNO_SPACE_SIZE" using assms(1) by (simp add: buffer_ok_def)
  have keys: "unat (fst e) < SEQNO_SPACE_SIZE" if "e \<in> set ?bs" for e
    using assms(1) that unfolding buffer_ok_def by blast
  have "smap_insert (Compare ?s) (mpdu_seq m) m bs = smap_insert ?lt (mpdu_seq m) m bs"
    if "\<forall>e\<in>set bs. unat (fst e) < SEQNO_SPACE_SIZE" for bs
    using that by (induction bs) (auto simp: Compare_dist [OF s] assms(2))
  then have eq: "m_bufferedMpdus (buffer_mpdu m r) = fst (smap_insert ?lt (mpdu_seq m) m ?bs)"
    using keys by (simp add: buffer_mpdu_def)
  have "sorted_by (\<lambda>e. dist (fst e) ?s) ?bs" using assms(1) by (simp add: buffer_ok_def)
  note ins = smap_insert_sorted [of ?lt "\<lambda>x. dist x ?s" ?bs "mpdu_seq m" m, OF refl this]
  have same: "dist (mpdu_seq m) ?s \<in> (\<lambda>e. dist (fst e) ?s) ` set ?bs \<longleftrightarrow> mpdu_seq m \<in> fst ` set ?bs"
    using dist_inj [OF assms(2) _ s] keys by (auto simp: image_iff)
  have "buffer_ok 0 ?s high' (fst (smap_insert ?lt (mpdu_seq m) m ?bs))"
    using ins assms by (fastforce simp: buffer_ok_def split: if_splits)
  then show ?thesis
    using ins unfolding eq same by (auto split: if_splits intro: rev_bexI)
qed

lemma delivers_sel:
  "delivers ms r k out r' \<Longrightarrow> m_winStartB r0 = m_winStartB r \<Longrightarrow> m_forwarded r0 = m_forwarded r \<Longrightarrow>
   m_winSizeB r0 = m_winSizeB r \<Longrightarrow> delivers ms r0 k out r'"
  by (simp add: delivers_def)

lemma receive_in_window:
  assumes "window_ok (m_scoreboard r)" "0 < m_winSizeB r" "m_winSizeB r \<le> SEQNO_SPACE_HALF_SIZE"
    and ok: "buffer_ok 0 (m_winStartB r) (m_winSizeB r) (m_bufferedMpdus r)"
  shows "\<exists>r' n out. PassBufferedMpdusUntilFirstLost r = Some r' \<and> recipient_ok r' \<and>
    delivers (snd ` set (m_bufferedMpdus r)) r n out r'"
proof -
  obtain r' n where r': "PassBufferedMpdusUntilFirstLost r = Some r'"
      "passed r n (map snd (take n (m_bufferedMpdus r))) r'"
      "buffer_ok 1 (m_winStartB r') (m_winSizeB r - n) (m_bufferedMpdus r')"
    using PassBufferedMpdusUntilFirstLost_ok [OF ok assms(3)] by blast
  have "buffer_ok 1 (m_winStartB r') (m_winSizeB r) (m_bufferedMpdus r')"
    using r'(3) by (auto simp: buffer_ok_def)
  then have "recipient_ok r'"
    using r'(2) assms(1,2,3) by (simp add: recipient_ok_def passed_def delivers_def)
  with r' show ?thesis by (auto simp: passed_def)
qed

text \<open>The new start of the window, when it is computed without wrapping below zero.\<close>

lemma unat_seqno: "n < 2 ^ 16 \<Longrightarrow> unat (of_nat n :: seqno) = n"
  by (simp add: unat_of_nat)

lemma new_start:
  assumes "unat sn < SEQNO_SPACE_SIZE" "unat s < SEQNO_SPACE_SIZE" "z \<le> dist sn s" "0 < z"
    and "z \<le> unat sn + 1"
  shows "unat (sn - of_nat z + 1 :: seqno) = unat sn + 1 - z"
    and "dist (sn - of_nat z + 1) s = dist sn s + 1 - z"
proof -
  have "z \<le> SEQNO_SPACE_SIZE" using assms(3) dist_lt [of sn s] by linarith
  then have "(sn - of_nat z + 1 :: seqno) = of_nat (unat sn + 1 - z)"
    using assms(5) by (simp add: of_nat_diff)
  moreover have "unat sn + 1 - z < 2 ^ 16"
    using assms(1,4) by (simp add: SEQNO_SPACE_SIZE_def) 
  ultimately show u: "unat (sn - of_nat z + 1 :: seqno) = unat sn + 1 - z"
    by (simp only: unat_seqno)
  show "dist (sn - of_nat z + 1) s = dist sn s + 1 - z"
    using assms u by (simp add: dist_if split: if_splits) (safe, linarith+)
qed

lemma receive_beyond:
  assumes "window_ok (m_scoreboard r)" "0 < m_winSizeB r" "m_winSizeB r \<le> SEQNO_SPACE_HALF_SIZE"
    and ok: "buffer_ok 0 (m_winStartB r) (Suc d) (m_bufferedMpdus r)"
    and d: "d = dist sn (m_winStartB r)" "unat sn < SEQNO_SPACE_SIZE"
    and beyond: "m_winSizeB r \<le> d" "d < SEQNO_SPACE_HALF_SIZE" and wrap: "m_winSizeB r \<le> unat sn + 1"
  shows "\<exists>r' k out. Option.bind (PassBufferedMpdusWithSeqNumberLessThan (sn - of_nat (m_winSizeB r) + 1) r)
      PassBufferedMpdusUntilFirstLost = Some r' \<and> recipient_ok r' \<and>
    delivers (snd ` set (m_bufferedMpdus r)) r k out r'"
proof -
  let ?new = "sn - of_nat (m_winSizeB r) + 1"
  have s: "unat (m_winStartB r) < SEQNO_SPACE_SIZE" using ok by (simp add: buffer_ok_def)
  have new: "unat ?new < SEQNO_SPACE_SIZE" "dist ?new (m_winStartB r) = d + 1 - m_winSizeB r"
    using new_start [OF d(2) s _ assms(2) wrap] beyond d assms(2) by simp_all
  have "Suc d \<le> SEQNO_SPACE_HALF_SIZE" using beyond by simp
  from PassBufferedMpdusWithSeqNumberLessThan_ok [OF ok this new(1)] obtain r1 out where r1:
    "PassBufferedMpdusWithSeqNumberLessThan ?new r = Some r1"
    "passed r (d + 1 - m_winSizeB r) out r1" "m_winStartB r1 = ?new"
    "buffer_ok 0 ?new (Suc d - (d + 1 - m_winSizeB r)) (m_bufferedMpdus r1)"
    unfolding new(2) by blast
  have size: "m_winSizeB r1 = m_winSizeB r" "m_scoreboard r1 = m_scoreboard r"
    using r1(2) by (simp_all add: passed_def delivers_def)
  have "Suc d - (d + 1 - m_winSizeB r) = m_winSizeB r" using beyond by simp
  then have ok1: "buffer_ok 0 (m_winStartB r1) (m_winSizeB r1) (m_bufferedMpdus r1)"
    using r1(3,4) size by simp
  obtain r' n out1 where r': "PassBufferedMpdusUntilFirstLost r1 = Some r'" "recipient_ok r'"
      "delivers (snd ` set (m_bufferedMpdus r1)) r1 n out1 r'"
    using receive_in_window [OF _ _ _ ok1] assms(1,2,3) size by auto
  have "delivers (snd ` set (m_bufferedMpdus r)) r (d + 1 - m_winSizeB r + n) (out @ out1) r'"
    by (rule delivers_trans [OF _ r'(3) ok1 s])
       (use r1(2) ok in \<open>auto simp: passed_def buffer_ok_def\<close>)
  with r1(1) r'(1,2) show ?thesis by auto
qed

text \<open>The whole of \<open>NotifyReceivedMpdu\<close>: it fails exactly when the new start of the window wraps.\<close>

definition start_wraps :: "wifi_mpdu \<Rightarrow> recipient \<Rightarrow> bool" where
  "start_wraps m r \<longleftrightarrow> (let d = dist (mpdu_seq m) (m_winStartB r) in
     m_winSizeB r \<le> d \<and> d < SEQNO_SPACE_HALF_SIZE \<and> unat (mpdu_seq m) + 1 < m_winSizeB r)"

definition available :: "wifi_mpdu \<Rightarrow> recipient \<Rightarrow> wifi_mpdu set" where
  "available m r =
     (if dist (mpdu_seq m) (m_winStartB r) < SEQNO_SPACE_HALF_SIZE \<and>
         mpdu_seq m \<notin> fst ` set (m_bufferedMpdus r)
      then insert m (snd ` set (m_bufferedMpdus r)) else snd ` set (m_bufferedMpdus r))"

lemma buffer_mpdu_sel [simp]:
  "m_winStartB (buffer_mpdu m r) = m_winStartB r" "m_winSizeB (buffer_mpdu m r) = m_winSizeB r"
  "m_forwarded (buffer_mpdu m r) = m_forwarded r" "m_scoreboard (buffer_mpdu m r) = m_scoreboard r"
  by (simp_all add: buffer_mpdu_def)

lemma buffer_mpdu_cong:
  "m_bufferedMpdus r = m_bufferedMpdus r1 \<Longrightarrow> m_winStartB r = m_winStartB r1 \<Longrightarrow>
   m_bufferedMpdus (buffer_mpdu m r) = m_bufferedMpdus (buffer_mpdu m r1)"
  by (simp add: buffer_mpdu_def)

lemma NotifyReceivedMpdu_ok:
  assumes ok: "recipient_ok r" and sn: "unat (mpdu_seq m) < SEQNO_SPACE_SIZE" and "\<not> start_wraps m r"
  shows "\<exists>r' k out. NotifyReceivedMpdu m r = Some r' \<and> recipient_ok r' \<and> delivers (available m r) r k out r'"
proof -
  note okD = ok [unfolded recipient_ok_def]
  let ?d = "dist (mpdu_seq m) (m_winStartB r)"
  obtain w where w: "receive_scoreboard (mpdu_seq m) r = Some (r\<lparr>m_scoreboard := w\<rparr>)" "window_ok w"
    using receive_scoreboard_ok [of r "mpdu_seq m"] okD sn by blast
  let ?r = "r\<lparr>m_scoreboard := w\<rparr>"
  have s: "unat (m_winStartB r) < SEQNO_SPACE_SIZE" using okD by (simp add: buffer_ok_def)
  have gd: "GetDistance (mpdu_seq m) (m_winStartB r) = Some ?d" by (simp add: GetDistance_eq sn s)
  have bok: "buffer_ok 1 (m_winStartB ?r) (m_winSizeB r) (m_bufferedMpdus ?r)" using okD by simp
  consider "?d < m_winSizeB r" | "m_winSizeB r \<le> ?d" "?d < SEQNO_SPACE_HALF_SIZE"
    | "m_winSizeB r \<le> ?d" "\<not> ?d < SEQNO_SPACE_HALF_SIZE" by linarith
  then show ?thesis
  proof cases
    case 1
    note buf = buffer_mpdu_ok [OF bok sn, of "m_winSizeB r"]
    have av: "available m r = snd ` set (m_bufferedMpdus (buffer_mpdu m ?r))"
      using buf 1 okD by (auto simp: available_def)
    obtain r' n out where r': "PassBufferedMpdusUntilFirstLost (buffer_mpdu m ?r) = Some r'" "recipient_ok r'"
        "delivers (available m r) (buffer_mpdu m ?r) n out r'"
      using receive_in_window [of "buffer_mpdu m ?r"] buf 1 okD w(2) unfolding av by auto
    have "delivers (available m r) r n out r'" using r'(3) by (rule delivers_sel) simp_all
    then show ?thesis using r' 1 w(1) gd by (auto simp: NotifyReceivedMpdu_def)
  next
    case 2
    note buf = buffer_mpdu_ok [OF bok sn, of "Suc ?d"]
    have av: "available m r = snd ` set (m_bufferedMpdus (buffer_mpdu m ?r))"
      using buf 2 by (auto simp: available_def)
    have wrap: "m_winSizeB r \<le> unat (mpdu_seq m) + 1"
      using assms(3) 2 by (simp add: start_wraps_def Let_def)
    obtain r' k out where r': "Option.bind (PassBufferedMpdusWithSeqNumberLessThan
          (mpdu_seq m - of_nat (m_winSizeB r) + 1) (buffer_mpdu m ?r)) PassBufferedMpdusUntilFirstLost = Some r'"
        "recipient_ok r'" "delivers (available m r) (buffer_mpdu m ?r) k out r'"
    proof -
      have sz: "m_winSizeB ?r = m_winSizeB r" by simp
      have ok': "window_ok (m_scoreboard (buffer_mpdu m ?r))" "0 < m_winSizeB (buffer_mpdu m ?r)"
        "m_winSizeB (buffer_mpdu m ?r) \<le> SEQNO_SPACE_HALF_SIZE" "m_winSizeB (buffer_mpdu m ?r) \<le> ?d"
        "m_winSizeB (buffer_mpdu m ?r) \<le> unat (mpdu_seq m) + 1"
        using okD w(2) 2 wrap by simp_all
      have "buffer_ok 0 (m_winStartB (buffer_mpdu m ?r)) (Suc ?d) (m_bufferedMpdus (buffer_mpdu m ?r))"
        "?d = dist (mpdu_seq m) (m_winStartB (buffer_mpdu m ?r))"
        using buf 2 by simp_all
      from receive_beyond [OF ok'(1-3) this sn ok'(4) 2(2) ok'(5)] show thesis
        using that unfolding av buffer_mpdu_sel sz by blast
    qed
    have "delivers (available m r) r k out r'" using r'(3) by (rule delivers_sel) simp_all
    then show ?thesis using r' 2 w(1) gd by (auto simp: NotifyReceivedMpdu_def)
  next
    case 3
    have "delivers (available m r) r 0 [] ?r"
      using 3 s by (simp add: delivers_def available_def)
    moreover have "recipient_ok ?r" using okD w(2) by (simp add: recipient_ok_def)
    moreover have "NotifyReceivedMpdu m r = Some ?r" using 3 w(1) gd by (simp add: NotifyReceivedMpdu_def)
    ultimately show ?thesis by blast
  qed
qed

lemma NotifyReceivedMpdu_fails:
  assumes ok: "recipient_ok r" and sn: "unat (mpdu_seq m) < SEQNO_SPACE_SIZE" and wraps: "start_wraps m r"
  shows "NotifyReceivedMpdu m r = None"
proof -
  note okD = ok [unfolded recipient_ok_def]
  let ?d = "dist (mpdu_seq m) (m_winStartB r)"
  obtain w where w: "receive_scoreboard (mpdu_seq m) r = Some (r\<lparr>m_scoreboard := w\<rparr>)" "window_ok w"
    using receive_scoreboard_ok [of r "mpdu_seq m"] okD sn by blast
  let ?r = "r\<lparr>m_scoreboard := w\<rparr>" and ?new = "mpdu_seq m - of_nat (m_winSizeB r) + 1"
  have s: "unat (m_winStartB r) < SEQNO_SPACE_SIZE" using okD by (simp add: buffer_ok_def)
  have gd: "GetDistance (mpdu_seq m) (m_winStartB r) = Some ?d" by (simp add: GetDistance_eq sn s)
  have bok: "buffer_ok 1 (m_winStartB ?r) (m_winSizeB r) (m_bufferedMpdus ?r)" using okD by simp
  have d: "m_winSizeB r \<le> ?d" "?d < SEQNO_SPACE_HALF_SIZE" "unat (mpdu_seq m) + 1 < m_winSizeB r"
    using wraps by (simp_all add: start_wraps_def Let_def)
  obtain e es where e: "m_bufferedMpdus (buffer_mpdu m ?r) = e # es"
    using buffer_mpdu_ok [OF bok sn, of "Suc ?d"] d by (cases "m_bufferedMpdus (buffer_mpdu m ?r)") auto
  have "unat ?new = unat (mpdu_seq m) + 2 ^ 16 + 1 - m_winSizeB r"
  proof -
    have "?new = of_nat (unat (mpdu_seq m) + 2 ^ 16 + 1 - m_winSizeB r)"
      using okD by (simp add: of_nat_diff SEQNO_SPACE_HALF_SIZE_def)
    moreover have "unat (mpdu_seq m) + 2 ^ 16 + 1 - m_winSizeB r < 2 ^ 16" using d(3) by simp
    ultimately show ?thesis by (simp only: unat_seqno)
  qed
  then have "\<not> unat ?new < SEQNO_SPACE_SIZE"
  proof -
    have "m_winSizeB r \<le> 2048" using okD by (simp add: SEQNO_SPACE_HALF_SIZE_def)
    then have "4096 \<le> unat (mpdu_seq m) + 65536 + 1 - m_winSizeB r" by linarith
    with \<open>unat ?new = _\<close> show ?thesis by (simp add: SEQNO_SPACE_SIZE_def)
  qed
  then have "GetDistance ?new (m_winStartB r) = None" by (simp add: GetDistance_def)
  then have "PassLess_loop ?new (m_winStartB r) (e # es) out = None" for out
    by (cases e) (simp split: option.splits)
  then have "PassBufferedMpdusWithSeqNumberLessThan ?new (buffer_mpdu m ?r) = None"
    by (simp add: PassBufferedMpdusWithSeqNumberLessThan_def e)
  then show ?thesis using w(1) gd d by (simp add: NotifyReceivedMpdu_def)
qed

end
