(* ===== verification/Block_Ack_Props.thy ===== *)
theory Block_Ack_Props
  imports Block_Ack_Inv
begin

text \<open>
  Properties of the two ends of a Block Ack agreement over all runs, and of the bitmap in which the
  recipient reports its scoreboard.
\<close>

subsection \<open>The originator\<close>

text \<open>The states of the originator's window: MPDUs are handed over, acknowledged and discarded in any order.\<close>

inductive tx_reach :: "originator \<Rightarrow> bool" where
  tx_init: "unat (m_startingSeq a) < SEQNO_SPACE_SIZE \<Longrightarrow> 0 < m_bufferSize a \<Longrightarrow>
    unat (m_bufferSize a) \<le> SEQNO_SPACE_HALF_SIZE \<Longrightarrow> tx_reach (InitTxWindow a)"
| tx_transmitted: "tx_reach a \<Longrightarrow> unat sn < SEQNO_SPACE_SIZE \<Longrightarrow> NotifyTransmittedMpdu sn a = Some a' \<Longrightarrow> tx_reach a'"
| tx_acked: "tx_reach a \<Longrightarrow> unat sn < SEQNO_SPACE_SIZE \<Longrightarrow> NotifyAckedMpdu sn a = Some a' \<Longrightarrow> tx_reach a'"
| tx_discarded: "tx_reach a \<Longrightarrow> unat sn < SEQNO_SPACE_SIZE \<Longrightarrow> NotifyDiscardedMpdu sn a = Some a' \<Longrightarrow> tx_reach a'"

text \<open>The first MPDU of the window is not acknowledged.\<close>

definition tx_inv :: "originator \<Rightarrow> bool" where
  "tx_inv a \<longleftrightarrow> originator_ok a \<and> 0 < Window_GetWinSize (m_txWindow a) \<and>
     Window_GetWinSize (m_txWindow a) \<le> SEQNO_SPACE_HALF_SIZE \<and> \<not> flags (m_txWindow a) ! 0"

lemma clear_run_head:
  assumes "bs \<noteq> []"
  shows "\<not> clear_run bs ! 0"
proof (cases "dropWhile (\<lambda>b. b) bs")
  case Nil
  then have t: "takeWhile (\<lambda>b. b) bs = bs" by (metis append_Nil2 takeWhile_dropWhile_id)
  show ?thesis unfolding clear_run_def Nil t using assms by simp
next
  case (Cons x xs)
  then have "\<not> x" using hd_dropWhile [of "\<lambda>b. b" bs] by simp
  then show ?thesis by (simp add: clear_run_def Cons)
qed

lemma Advance_size: "window_ok w \<Longrightarrow> length (m_window (Window_Advance n w)) = length (m_window w)"
  using arg_cong [OF Window_Advance_flags(1), of w length n] by simp

lemma AdvanceTxWindow_inv:
  assumes "originator_ok a" and "Window_GetWinSize (m_txWindow a) \<le> SEQNO_SPACE_HALF_SIZE"
    and "AdvanceTxWindow a = Some a'"
  shows "tx_inv a'"
proof -
  have a': "originator_ok a'" "flags (m_txWindow a') = clear_run (flags (m_txWindow a))"
    using AdvanceTxWindow_ok [OF assms(1)] assms(3) by auto
  have pos: "0 < length (m_window (m_txWindow a))"
    using assms(1) by (auto simp: originator_ok_def window_ok_def)
  then have ne: "flags (m_txWindow a) \<noteq> []" by (metis length_flags length_greater_0_conv)
  have "length (m_window (m_txWindow a')) = length (m_window (m_txWindow a))"
    using arg_cong [OF a'(2), of length] by simp
  then show ?thesis
    using a' clear_run_head [OF ne] assms(2) pos by (simp add: tx_inv_def Window_GetWinSize_def)
qed

lemma tx_reach_inv: "tx_reach a \<Longrightarrow> tx_inv a"
proof (induction rule: tx_reach.induct)
  case (tx_init a)
  then show ?case
    using Window_Init_ok [of "m_startingSeq a" "unat (m_bufferSize a)" "m_txWindow a"]
    by (simp add: tx_inv_def originator_ok_def InitTxWindow_def Window_GetWinSize_def word_less_nat_alt)
      (simp add: Window_Init_def)
next
  case (tx_transmitted a sn a')
  have inv: "tx_inv a" by fact
  let ?w = "m_txWindow a"
  consider "a' = a" | n where "AdvanceTxWindow (a\<lparr>m_txWindow := Window_Advance n ?w\<rparr>) = Some a'"
    using tx_transmitted.hyps(3) by (auto simp: NotifyTransmittedMpdu_def Option.bind_eq_Some_conv split: if_splits)
  then show ?case
  proof cases
    case 2
    then show ?thesis
      using AdvanceTxWindow_inv [OF _ _ 2] inv Window_Advance_flags [of ?w n]
        Advance_size [of ?w n]
      by (simp add: tx_inv_def originator_ok_def Window_GetWinSize_def)
  qed (use inv in simp)
next
  case (tx_acked a sn a')
  have inv: "tx_inv a" by fact
  consider "a' = a" | d w where "Window_set_At d True (m_txWindow a) = Some w"
    "AdvanceTxWindow (a\<lparr>m_txWindow := w\<rparr>) = Some a'"
    using tx_acked.hyps(3) by (auto simp: NotifyAckedMpdu_def Option.bind_eq_Some_conv split: if_splits)
  then show ?case
  proof cases
    case 2
    have "length (m_window w) = length (m_window (m_txWindow a))" "m_winStart w = m_winStart (m_txWindow a)"
      "m_head w = m_head (m_txWindow a)"
      using 2(1) by (auto simp: Window_set_At_def split: if_splits)
    then show ?thesis
      using AdvanceTxWindow_inv [OF _ _ 2(2)] inv
      by (simp add: tx_inv_def originator_ok_def Window_GetWinSize_def window_ok_def)
  qed (use inv in simp)
next
  case (tx_discarded a sn a')
  have inv: "tx_inv a" by fact
  let ?w = "m_txWindow a"
  consider "a' = a" | n where "AdvanceTxWindow (a\<lparr>m_txWindow := Window_Advance n ?w\<rparr>) = Some a'"
    using tx_discarded.hyps(3) by (auto simp: NotifyDiscardedMpdu_def Option.bind_eq_Some_conv split: if_splits)
  then show ?case
  proof cases
    case 2
    then show ?thesis
      using AdvanceTxWindow_inv [OF _ _ 2] inv Window_Advance_flags [of ?w n]
        Advance_size [of ?w n]
      by (simp add: tx_inv_def originator_ok_def Window_GetWinSize_def)
  qed (use inv in simp)
qed

text \<open>C19: whatever is transmitted, acknowledged and discarded, the originator's window starts at an MPDU
  that is not acknowledged; transmitting an MPDU never fails, and unless it is older than the window, it
  is then inside the window, so that its acknowledgment never fails either.\<close>

theorem transmitted_can_be_acked:
  assumes "tx_reach a" and "unat sn < SEQNO_SPACE_SIZE"
  shows "\<not> flags (m_txWindow a) ! 0 \<and> (\<exists>a'. NotifyTransmittedMpdu sn a = Some a' \<and>
    (dist sn (m_winStart (m_txWindow a)) < SEQNO_SPACE_HALF_SIZE \<longrightarrow>
       dist sn (m_winStart (m_txWindow a')) < Window_GetWinSize (m_txWindow a') \<and>
       (\<exists>a''. NotifyAckedMpdu sn a' = Some a'')))"
proof -
  have inv: "tx_inv a" by (rule tx_reach_inv [OF assms(1)])
  then have ok: "originator_ok a" by (simp add: tx_inv_def)
  obtain a' where a': "NotifyTransmittedMpdu sn a = Some a'"
    "dist sn (m_winStart (m_txWindow a)) < SEQNO_SPACE_HALF_SIZE \<longrightarrow>
     dist sn (m_winStart (m_txWindow a')) < Window_GetWinSize (m_txWindow a')"
    using NotifyTransmittedMpdu_ok [OF ok assms(2)] by blast
  have inv': "tx_inv a'" by (rule tx_reach_inv [OF tx_transmitted [OF assms a'(1)]])
  have "\<exists>a''. NotifyAckedMpdu sn a' = Some a''"
    if "dist sn (m_winStart (m_txWindow a')) < Window_GetWinSize (m_txWindow a')"
    using NotifyAckedMpdu_ok [OF _ assms(2) that] inv' by (auto simp: tx_inv_def)
  then show ?thesis using a' inv by (auto simp: tx_inv_def)
qed

definition tx0 :: originator where
  "tx0 = InitTxWindow \<lparr>m_peer = 1, m_amsduSupported = 1, m_blockAckPolicy = 1, m_tid = 0, m_bufferSize = 4,
     m_timeout = 0, m_startingSeq = 4094, m_htSupported = 1, m_state = ESTABLISHED, m_txWindow = BlockAckWindow\<rparr>"

lemma tx0_reach: "tx_reach tx0"
  unfolding tx0_def by (rule tx_init) (simp_all add: SEQNO_SPACE_SIZE_def SEQNO_SPACE_HALF_SIZE_def)

theorem transmitted_can_be_acked_witness:
  "(\<exists>a' a''. NotifyTransmittedMpdu 4 tx0 = Some a' \<and> NotifyAckedMpdu 4 a' = Some a'') \<and>
   dist 4 (m_winStart (m_txWindow tx0)) = 6"
proof -
  have "unat (4 :: seqno) < SEQNO_SPACE_SIZE" by (simp add: SEQNO_SPACE_SIZE_def)
  moreover have d: "dist 4 (m_winStart (m_txWindow tx0)) = 6"
    by (simp add: tx0_def InitTxWindow_def Window_Init_def dist_def SEQNO_SPACE_SIZE_def)
  ultimately show ?thesis
    using transmitted_can_be_acked [OF tx0_reach, of 4] by (auto simp: SEQNO_SPACE_HALF_SIZE_def)
qed

text \<open>C20: an acknowledgment inside the window sets the flag of the MPDU and moves the start of the window
  over the leading acknowledged MPDUs: the flags of the rest stay in order behind it.\<close>

theorem ack_moves_to_first_unacked:
  assumes "tx_reach a" and "unat sn < SEQNO_SPACE_SIZE"
    and "dist sn (m_winStart (m_txWindow a)) < Window_GetWinSize (m_txWindow a)"
  shows "\<exists>a'. NotifyAckedMpdu sn a = Some a' \<and>
    (let fs = (flags (m_txWindow a))[dist sn (m_winStart (m_txWindow a)) := True];
         n = length (takeWhile (\<lambda>b. b) fs)
     in flags (m_txWindow a') = drop n fs @ replicate n False \<and>
        unat (m_winStart (m_txWindow a')) = (unat (m_winStart (m_txWindow a)) + n) mod SEQNO_SPACE_SIZE)"
proof -
  have "tx_inv a" by (rule tx_reach_inv [OF assms(1)])
  then obtain a' where "NotifyAckedMpdu sn a = Some a'"
    "flags (m_txWindow a') = clear_run ((flags (m_txWindow a))[dist sn (m_winStart (m_txWindow a)) := True])"
    "unat (m_winStart (m_txWindow a')) = (unat (m_winStart (m_txWindow a)) +
       length (takeWhile (\<lambda>b. b) ((flags (m_txWindow a))[dist sn (m_winStart (m_txWindow a)) := True]))) mod SEQNO_SPACE_SIZE"
    using NotifyAckedMpdu_ok [OF _ assms(2,3)] by (auto simp: tx_inv_def Let_def)
  then show ?thesis
    by (auto simp: Let_def clear_run_def dropWhile_eq_drop)
qed

theorem ack_moves_to_first_unacked_witness:
  "\<exists>a'. NotifyAckedMpdu 4094 tx0 = Some a' \<and> unat (m_winStart (m_txWindow a')) = 4095"
proof -
  have "unat (4094 :: seqno) < SEQNO_SPACE_SIZE" by (simp add: SEQNO_SPACE_SIZE_def)
  moreover have d: "dist 4094 (m_winStart (m_txWindow tx0)) = 0" "m_winStart (m_txWindow tx0) = 4094"
    "Window_GetWinSize (m_txWindow tx0) = 4" "flags (m_txWindow tx0) = replicate 4 False"
    by (simp_all add: tx0_def InitTxWindow_def Window_Init_def dist_def SEQNO_SPACE_SIZE_def Window_GetWinSize_def
        flags_def)
  moreover have "length (takeWhile (\<lambda>b. b) ((replicate 4 False)[0 := True])) = 1" by code_simp
  ultimately show ?thesis
    using ack_moves_to_first_unacked [OF tx0_reach, of 4094]
    by (auto simp: SEQNO_SPACE_SIZE_def Let_def)
qed

subsection \<open>The recipient\<close>

lemma dist_start: "unat a < SEQNO_SPACE_SIZE \<Longrightarrow> unat s < SEQNO_SPACE_SIZE \<Longrightarrow>
    (unat s + dist a s) mod SEQNO_SPACE_SIZE = unat a"
  by (auto simp: dist_if le_mod_geq)

lemma bar_scoreboard_ok:
  assumes ok: "window_ok (m_scoreboard r)" and ssn: "unat ssn < SEQNO_SPACE_SIZE"
  shows "\<exists>w. bar_scoreboard ssn r = Some (r\<lparr>m_scoreboard := w\<rparr>) \<and> window_ok w"
proof -
  let ?w = "m_scoreboard r" and ?d = "dist ssn (m_winStart (m_scoreboard r))"
  have s: "unat (m_winStart ?w) < SEQNO_SPACE_SIZE" using ok by (simp add: window_ok_def)
  have gd: "GetDistance ssn (m_winStart ?w) = Some ?d" by (simp add: GetDistance_eq ssn s)
  have "unat (m_winStart (Window_Advance ?d ?w)) = unat ssn"
    using Window_Advance_flags(2) [OF ok] dist_start [OF ssn s] by simp
  then have start: "m_winStart (Window_Advance ?d ?w) = ssn" by (simp add: word_unat_eq_iff)
  have "0 < length (m_window ?w)" using ok by (auto simp: window_ok_def)
  then have reset: "window_ok (Window_Reset ssn ?w)" using ssn by (simp add: Window_Reset_def Window_Init_ok)
  have "r = r\<lparr>m_scoreboard := ?w\<rparr>" by simp
  then have keep: "window_ok ?w \<and> Some r = Some (r\<lparr>m_scoreboard := ?w\<rparr>)" using ok by simp
  consider (advance) "0 < ?d" "?d < Window_GetWinSize ?w"
    | (reset) "0 < ?d" "\<not> ?d < Window_GetWinSize ?w" "?d < SEQNO_SPACE_HALF_SIZE"
    | (keep) "?d = 0 \<or> \<not> ?d < Window_GetWinSize ?w \<and> \<not> ?d < SEQNO_SPACE_HALF_SIZE"
    by linarith
  then show ?thesis
  proof cases
    case advance
    then show ?thesis
      using gd start Window_Advance_flags(3) [OF ok] by (auto simp: bar_scoreboard_def Let_def)
  next
    case reset
    then show ?thesis using gd \<open>window_ok (Window_Reset ssn ?w)\<close> by (auto simp: bar_scoreboard_def)
  next
    case keep
    then have "bar_scoreboard ssn r = Some r" using gd by (auto simp: bar_scoreboard_def)
    then show ?thesis using \<open>window_ok ?w \<and> Some r = Some (r\<lparr>m_scoreboard := ?w\<rparr>)\<close> by metis
  qed
qed

lemma NotifyReceivedBar_ok:
  assumes ok: "recipient_ok r" and ssn: "unat ssn < SEQNO_SPACE_SIZE"
  shows "\<exists>r' k out. NotifyReceivedBar ssn r = Some r' \<and> recipient_ok r' \<and>
    delivers (snd ` set (m_bufferedMpdus r)) r k out r' \<and>
    (dist ssn (m_winStartB r) < SEQNO_SPACE_HALF_SIZE \<longrightarrow> dist ssn (m_winStartB r) \<le> k)"
proof -
  note okD = ok [unfolded recipient_ok_def]
  let ?d = "dist ssn (m_winStartB r)"
  have s: "unat (m_winStartB r) < SEQNO_SPACE_SIZE" using okD by (simp add: buffer_ok_def)
  obtain w where w: "bar_scoreboard ssn r = Some (r\<lparr>m_scoreboard := w\<rparr>)" "window_ok w"
    using bar_scoreboard_ok [of r ssn] okD ssn by blast
  let ?r = "r\<lparr>m_scoreboard := w\<rparr>"
  have gd: "GetDistance ssn (m_winStartB r) = Some ?d" by (simp add: GetDistance_eq ssn s)
  show ?thesis
  proof (cases "0 < ?d \<and> ?d < SEQNO_SPACE_HALF_SIZE")
    case False
    have "delivers (snd ` set (m_bufferedMpdus r)) r 0 [] ?r" using s by (simp add: delivers_def)
    moreover have "recipient_ok ?r" using okD w(2) by (simp add: recipient_ok_def)
    moreover have "NotifyReceivedBar ssn r = Some ?r" using w(1) gd False by (auto simp: NotifyReceivedBar_def)
    ultimately show ?thesis using False by fastforce
  next
    case True
    have b0: "buffer_ok 0 (m_winStartB ?r) (m_winSizeB r) (m_bufferedMpdus ?r)"
      using okD by (auto simp: buffer_ok_def)
    have half: "m_winSizeB r \<le> SEQNO_SPACE_HALF_SIZE" using okD by simp
    from PassBufferedMpdusWithSeqNumberLessThan_ok [OF b0 half ssn] obtain r1 out where r1:
      "PassBufferedMpdusWithSeqNumberLessThan ssn ?r = Some r1" "passed ?r ?d out r1" "m_winStartB r1 = ssn"
      "buffer_ok 0 ssn (m_winSizeB r - ?d) (m_bufferedMpdus r1)"
      by auto
    have size: "m_winSizeB r1 = m_winSizeB r" "m_scoreboard r1 = w"
      using r1(2) by (simp_all add: passed_def delivers_def)
    have b1: "buffer_ok 0 (m_winStartB r1) (m_winSizeB r1) (m_bufferedMpdus r1)"
      using r1(3,4) size by (auto simp: buffer_ok_def)
    obtain r' n out1 where r': "PassBufferedMpdusUntilFirstLost r1 = Some r'" "recipient_ok r'"
        "delivers (snd ` set (m_bufferedMpdus r1)) r1 n out1 r'"
      using receive_in_window [OF _ _ _ b1] okD w(2) size by auto
    have "delivers (snd ` set (m_bufferedMpdus r)) ?r (?d + n) (out @ out1) r'"
      by (rule delivers_trans [OF _ r'(3) b1]) (use r1(2) b0 s in \<open>auto simp: passed_def buffer_ok_def\<close>)
    then have "delivers (snd ` set (m_bufferedMpdus r)) r (?d + n) (out @ out1) r'"
      by (rule delivers_sel) simp_all
    moreover have "NotifyReceivedBar ssn r = Some r'"
      using w(1) gd True r1(1) r'(1) by (simp add: NotifyReceivedBar_def)
    ultimately show ?thesis using r'(2) by (intro exI conjI) auto
  qed
qed

text \<open>The states of the recipient.\<close>

inductive rx_reach :: "recipient \<Rightarrow> bool" where
  rx_init: "unat ssn < SEQNO_SPACE_SIZE \<Longrightarrow> 0 < bufferSize \<Longrightarrow> unat bufferSize \<le> SEQNO_SPACE_HALF_SIZE \<Longrightarrow>
    rx_reach (RecipientBlockAckAgreement o' amsdu tid bufferSize timeout ssn ht)"
| rx_mpdu: "rx_reach r \<Longrightarrow> unat (mpdu_seq m) < SEQNO_SPACE_SIZE \<Longrightarrow> NotifyReceivedMpdu m r = Some r' \<Longrightarrow> rx_reach r'"
| rx_bar: "rx_reach r \<Longrightarrow> unat ssn < SEQNO_SPACE_SIZE \<Longrightarrow> NotifyReceivedBar ssn r = Some r' \<Longrightarrow> rx_reach r'"

lemma rx_reach_ok: "rx_reach r \<Longrightarrow> recipient_ok r"
proof (induction rule: rx_reach.induct)
  case (rx_init ssn bufferSize o' amsdu tid timeout ht)
  then show ?case by (intro RecipientBlockAckAgreement_ok)
next
  case (rx_mpdu r m r')
  have "\<not> start_wraps m r"
    using NotifyReceivedMpdu_fails [OF rx_mpdu.IH rx_mpdu.hyps(2)] rx_mpdu.hyps(3) by auto
  then show ?case using NotifyReceivedMpdu_ok [OF rx_mpdu.IH rx_mpdu.hyps(2)] rx_mpdu.hyps(3) by auto
next
  case (rx_bar r ssn r')
  then show ?case using NotifyReceivedBar_ok [OF rx_bar.IH rx_bar.hyps(2)] by auto
qed

text \<open>C21: receiving an MPDU forwards MPDUs of the buffer (with the new one, unless it is old or a
  duplicate) in strictly increasing order of sequence number from the start of the window, moves the start
  beyond all of them and not beyond what is kept, and loses and repeats none.\<close>

theorem mpdus_delivered_in_order:
  assumes "rx_reach r" and "unat (mpdu_seq m) < SEQNO_SPACE_SIZE" and "NotifyReceivedMpdu m r = Some r'"
  shows "\<exists>k out. m_forwarded r' = m_forwarded r @ out \<and>
    sorted_by (\<lambda>m. dist (mpdu_seq m) (m_winStartB r)) out \<and>
    unat (m_winStartB r') = (unat (m_winStartB r) + k) mod SEQNO_SPACE_SIZE \<and>
    (\<forall>x\<in>set out. dist (mpdu_seq x) (m_winStartB r) < k) \<and>
    (\<forall>x\<in>snd ` set (m_bufferedMpdus r'). k \<le> dist (mpdu_seq x) (m_winStartB r)) \<and>
    available m r = set out \<union> snd ` set (m_bufferedMpdus r')"
proof -
  have ok: "recipient_ok r" by (rule rx_reach_ok [OF assms(1)])
  have "\<not> start_wraps m r" using NotifyReceivedMpdu_fails [OF ok assms(2)] assms(3) by auto
  then show ?thesis
    using NotifyReceivedMpdu_ok [OF ok assms(2)] assms(3) by (auto simp: delivers_def)
qed

definition rx0 :: recipient where
  "rx0 = RecipientBlockAckAgreement 1 True 0 8 0 4094 True"

definition mpdu :: "seqno \<Rightarrow> wifi_mpdu" where
  "mpdu sn = \<lparr>mpdu_seq = sn, mpdu_uid = unat sn\<rparr>"

lemma rx0_reach: "rx_reach rx0"
  unfolding rx0_def by (rule rx_init) (simp_all add: SEQNO_SPACE_SIZE_def SEQNO_SPACE_HALF_SIZE_def)

lemma rx0_mpdu: "NotifyReceivedMpdu (mpdu 4095) rx0 = Some (the (NotifyReceivedMpdu (mpdu 4095) rx0))"
proof -
  have "\<not> start_wraps (mpdu 4095) rx0"
    by (simp add: start_wraps_def mpdu_def rx0_def RecipientBlockAckAgreement_def dist_def SEQNO_SPACE_SIZE_def)
  then show ?thesis
    using NotifyReceivedMpdu_ok [OF rx_reach_ok [OF rx0_reach], of "mpdu 4095"]
    by (auto simp: mpdu_def SEQNO_SPACE_SIZE_def)
qed

theorem mpdus_delivered_in_order_witness:
  "\<exists>k out. m_forwarded (the (NotifyReceivedMpdu (mpdu 4095) rx0)) = out \<and>
    (\<forall>x\<in>set out. dist (mpdu_seq x) 4094 < k) \<and>
    {mpdu 4095} = set out \<union> snd ` set (m_bufferedMpdus (the (NotifyReceivedMpdu (mpdu 4095) rx0)))"
proof -
  have "unat (mpdu_seq (mpdu 4095)) < SEQNO_SPACE_SIZE" by (simp add: mpdu_def SEQNO_SPACE_SIZE_def)
  from mpdus_delivered_in_order [OF rx0_reach this rx0_mpdu]
  have "\<exists>k out. m_forwarded (the (NotifyReceivedMpdu (mpdu 4095) rx0)) = out \<and>
    (\<forall>x\<in>set out. dist (mpdu_seq x) (m_winStartB rx0) < k) \<and>
    available (mpdu 4095) rx0 = set out \<union> snd ` set (m_bufferedMpdus (the (NotifyReceivedMpdu (mpdu 4095) rx0)))"
    by (auto simp: rx0_def RecipientBlockAckAgreement_def)
  moreover have "available (mpdu 4095) rx0 = {mpdu 4095}" "m_winStartB rx0 = 4094"
    by (simp_all add: available_def mpdu_def rx0_def RecipientBlockAckAgreement_def dist_def SEQNO_SPACE_SIZE_def
        SEQNO_SPACE_HALF_SIZE_def)
  ultimately show ?thesis by simp
qed

text \<open>C22: receiving an MPDU stops the simulation exactly when the MPDU is ahead of the window and its
  sequence number is less than the window size minus one: the new start of the window, computed as a
  16-bit difference, is then not reduced to the sequence number space.\<close>

theorem receive_fails_iff_start_wraps:
  assumes "rx_reach r" and "unat (mpdu_seq m) < SEQNO_SPACE_SIZE"
  shows "NotifyReceivedMpdu m r = None \<longleftrightarrow>
    m_winSizeB r \<le> dist (mpdu_seq m) (m_winStartB r) \<and>
    dist (mpdu_seq m) (m_winStartB r) < SEQNO_SPACE_HALF_SIZE \<and> unat (mpdu_seq m) + 1 < m_winSizeB r"
proof (cases "start_wraps m r")
  case True
  then show ?thesis
    using NotifyReceivedMpdu_fails [OF rx_reach_ok [OF assms(1)] assms(2)] by (auto simp: start_wraps_def Let_def)
next
  case False
  then have "NotifyReceivedMpdu m r \<noteq> None"
    using NotifyReceivedMpdu_ok [OF rx_reach_ok [OF assms(1)] assms(2)] by auto
  then show ?thesis using False by (auto simp: start_wraps_def Let_def)
qed

theorem receive_fails_iff_start_wraps_witness:
  "NotifyReceivedMpdu (mpdu 6) rx0 = None \<and> NotifyReceivedMpdu (mpdu 7) rx0 \<noteq> None"
proof -
  have "unat (mpdu_seq (mpdu 6)) < SEQNO_SPACE_SIZE" "unat (mpdu_seq (mpdu 7)) < SEQNO_SPACE_SIZE"
    by (simp_all add: mpdu_def SEQNO_SPACE_SIZE_def)
  note f = this [THEN receive_fails_iff_start_wraps [OF rx0_reach]]
  show ?thesis unfolding f
    by (simp add: mpdu_def rx0_def RecipientBlockAckAgreement_def dist_def SEQNO_SPACE_SIZE_def SEQNO_SPACE_HALF_SIZE_def)
qed

text \<open>C27: a Block Ack Request never fails; it forwards the buffered MPDUs in order, none twice and none
  lost, and when the requested sequence number is ahead of the window, the window starts at or beyond it
  afterwards, with only later MPDUs kept.\<close>

theorem block_ack_request:
  assumes "rx_reach r" and "unat ssn < SEQNO_SPACE_SIZE"
  shows "\<exists>r' k out. NotifyReceivedBar ssn r = Some r' \<and> m_forwarded r' = m_forwarded r @ out \<and>
    sorted_by (\<lambda>m. dist (mpdu_seq m) (m_winStartB r)) out \<and>
    unat (m_winStartB r') = (unat (m_winStartB r) + k) mod SEQNO_SPACE_SIZE \<and>
    (dist ssn (m_winStartB r) < SEQNO_SPACE_HALF_SIZE \<longrightarrow> dist ssn (m_winStartB r) \<le> k) \<and>
    (\<forall>x\<in>set out. dist (mpdu_seq x) (m_winStartB r) < k) \<and>
    (\<forall>x\<in>snd ` set (m_bufferedMpdus r'). k \<le> dist (mpdu_seq x) (m_winStartB r)) \<and>
    snd ` set (m_bufferedMpdus r) = set out \<union> snd ` set (m_bufferedMpdus r')"
proof -
  obtain r' k out where "NotifyReceivedBar ssn r = Some r'" "delivers (snd ` set (m_bufferedMpdus r)) r k out r'"
    "dist ssn (m_winStartB r) < SEQNO_SPACE_HALF_SIZE \<longrightarrow> dist ssn (m_winStartB r) \<le> k"
    using NotifyReceivedBar_ok [OF rx_reach_ok [OF assms(1)] assms(2)] by blast
  then show ?thesis by (intro exI [of _ r'] exI [of _ k] exI [of _ out]) (simp add: delivers_def)
qed

theorem block_ack_request_witness:
  "\<exists>r' k. NotifyReceivedBar 3 rx0 = Some r' \<and> 5 \<le> k \<and> unat (m_winStartB r') = (4094 + k) mod SEQNO_SPACE_SIZE"
proof -
  have "unat (3 :: seqno) < SEQNO_SPACE_SIZE" by (simp add: SEQNO_SPACE_SIZE_def)
  note b = block_ack_request [OF rx0_reach this]
  have "m_winStartB rx0 = 4094" "dist 3 (m_winStartB rx0) = 5"
    by (simp_all add: rx0_def RecipientBlockAckAgreement_def dist_def SEQNO_SPACE_SIZE_def)
  then show ?thesis using b by (auto simp: SEQNO_SPACE_HALF_SIZE_def)
qed

text \<open>The two passes of \<open>Flush\<close>, as lists.\<close>

lemma Flush_passes:
  assumes ok: "recipient_ok r"
  defines "b \<equiv> dist (m_winStart (m_scoreboard r)) (m_winStartB r)"
  shows "\<exists>r' n. Flush r = Some r' \<and> n \<le> length (filter (\<lambda>e. b \<le> dist (fst e) (m_winStartB r)) (m_bufferedMpdus r)) \<and>
    m_bufferedMpdus r = filter (\<lambda>e. dist (fst e) (m_winStartB r) < b) (m_bufferedMpdus r) @
      filter (\<lambda>e. b \<le> dist (fst e) (m_winStartB r)) (m_bufferedMpdus r) \<and>
    m_forwarded r' = m_forwarded r @ map snd (filter (\<lambda>e. dist (fst e) (m_winStartB r) < b) (m_bufferedMpdus r) @
      take n (filter (\<lambda>e. b \<le> dist (fst e) (m_winStartB r)) (m_bufferedMpdus r))) \<and>
    m_bufferedMpdus r' = drop n (filter (\<lambda>e. b \<le> dist (fst e) (m_winStartB r)) (m_bufferedMpdus r)) \<and>
    map (\<lambda>e. dist (fst e) (m_winStartB r)) (take n (filter (\<lambda>e. b \<le> dist (fst e) (m_winStartB r)) (m_bufferedMpdus r))) = [b..<b + n] \<and>
    (\<forall>e\<in>set (drop n (filter (\<lambda>e. b \<le> dist (fst e) (m_winStartB r)) (m_bufferedMpdus r))). b + n < dist (fst e) (m_winStartB r))"
proof -
  let ?s = "m_winStartB r" and ?bs = "m_bufferedMpdus r" and ?t = "m_winStart (m_scoreboard r)"
  let ?lo = "filter (\<lambda>e. dist (fst e) ?s < b) ?bs" and ?hi = "filter (\<lambda>e. b \<le> dist (fst e) ?s) ?bs"
  have buf: "buffer_ok 0 ?s (m_winSizeB r) ?bs" and high: "m_winSizeB r \<le> SEQNO_SPACE_HALF_SIZE"
    and t: "unat ?t < SEQNO_SPACE_SIZE"
    using ok by (auto simp: recipient_ok_def buffer_ok_def window_ok_def)
  have s: "unat ?s < SEQNO_SPACE_SIZE" and srt: "sorted_by (\<lambda>e. dist (fst e) ?s) ?bs"
    using buf by (simp_all add: buffer_ok_def)
  note dw = dropWhile_sorted [OF srt, of b]
  have split: "?bs = ?lo @ ?hi" using dw takeWhile_dropWhile_id [of "\<lambda>e. dist (fst e) ?s < b" ?bs] by simp
  define r1 where "r1 = r\<lparr>m_bufferedMpdus := ?hi, m_forwarded := m_forwarded r @ map snd ?lo, m_winStartB := ?t\<rparr>"
  have 1: "PassBufferedMpdusWithSeqNumberLessThan ?t r = Some r1"
    using no_old_mpdu_ok [OF buf high] PassLess_loop_ok [OF buf t] dw
    by (simp add: PassBufferedMpdusWithSeqNumberLessThan_def b_def r1_def)
  have shift: "dist (fst e) ?t = dist (fst e) ?s - b" if "e \<in> set ?hi" for e
    using that buf s t unfolding b_def by (intro dist_shift) (auto simp: buffer_ok_def)
  have newb: "unat ?t = (unat ?s + b) mod SEQNO_SPACE_SIZE"
    using t s by (auto simp: b_def dist_if le_mod_geq)
  have "buffer_ok b ?s (m_winSizeB r) ?hi" using buf by (auto simp: buffer_ok_def sorted_by_def sorted_wrt_filter)
  from buffer_ok_shift [OF this newb] have buf1: "buffer_ok 0 ?t (m_winSizeB r - b) ?hi" by simp
  obtain bs' s' out' where lp: "PassUntil_loop ?hi ?t (m_forwarded r1) = (bs', s', out')"
    by (cases "PassUntil_loop ?hi ?t (m_forwarded r1)")
  have "m_winSizeB r - b \<le> SEQNO_SPACE_SIZE" using high by (simp add: SEQNO_SPACE_SIZE_def SEQNO_SPACE_HALF_SIZE_def)
  from PassUntil_loop_ok [OF buf1 this lp] obtain n where n:
    "n \<le> length ?hi" "bs' = drop n ?hi" "out' = m_forwarded r1 @ map snd (take n ?hi)"
    "map (\<lambda>e. dist (fst e) ?t) (take n ?hi) = [0..<n]" "\<forall>e\<in>set bs'. n < dist (fst e) ?t"
    by blast
  have "no_old_mpdu r1" using no_old_mpdu_ok [of 0 r1 "m_winSizeB r - b"] buf1 high by (simp add: r1_def)
  then have 2: "Flush r = Some (r1\<lparr>m_bufferedMpdus := bs', m_winStartB := s', m_forwarded := out'\<rparr>)"
    using 1 lp by (simp add: Flush_def PassBufferedMpdusUntilFirstLost_def r1_def)
  have "map (\<lambda>e. dist (fst e) ?s) (take n ?hi) = map (\<lambda>e. b + dist (fst e) ?t) (take n ?hi)"
    using shift by (auto dest!: in_set_takeD)
  also have "\<dots> = map (\<lambda>i. i + b) [0..<n]" unfolding n(4) [symmetric] by (simp add: add.commute)
  finally have seq: "map (\<lambda>e. dist (fst e) ?s) (take n ?hi) = [b..<b + n]" by (simp only: map_add_upt add.commute [of n b])
  have "b + n < dist (fst e) ?s" if "e \<in> set (drop n ?hi)" for e
    using n(2,5) that shift [OF in_set_dropD [OF that]] by auto
  then show ?thesis using 2 n(1-3) split seq by (intro exI conjI) (auto simp: r1_def)
qed

text \<open>C28: \<open>Flush\<close>, which is called before an agreement is destroyed, does not forward all that is buffered. In every
  reachable state it forwards, in order, exactly the buffered MPDUs that are older than the start of the
  scoreboard or follow it without a gap; every buffered MPDU with a missing sequence number between the start of
  the scoreboard and its own stays behind and is lost.\<close>

theorem flush_loses_buffered:
  assumes "rx_reach r"
  defines "missing_before e \<equiv> \<exists>i. dist (m_winStart (m_scoreboard r)) (m_winStartB r) \<le> i \<and> i < dist (fst e) (m_winStartB r) \<and>
      i \<notin> (\<lambda>x. dist (fst x) (m_winStartB r)) ` set (m_bufferedMpdus r)"
  shows "\<exists>r'. Flush r = Some r' \<and>
    m_forwarded r' = m_forwarded r @ map snd (filter (\<lambda>e. \<not> missing_before e) (m_bufferedMpdus r)) \<and>
    m_bufferedMpdus r' = filter missing_before (m_bufferedMpdus r)"
proof -
  let ?D = "\<lambda>e. dist (fst e) (m_winStartB r)" and ?b = "dist (m_winStart (m_scoreboard r)) (m_winStartB r)"
  let ?bs = "m_bufferedMpdus r"
  let ?lo = "filter (\<lambda>e. ?D e < ?b) ?bs" and ?hi = "filter (\<lambda>e. ?b \<le> ?D e) ?bs"
  obtain r' n where r': "Flush r = Some r'" "n \<le> length ?hi" "?bs = ?lo @ ?hi"
    "m_forwarded r' = m_forwarded r @ map snd (?lo @ take n ?hi)" "m_bufferedMpdus r' = drop n ?hi"
    "map ?D (take n ?hi) = [?b..<?b + n]" "\<forall>e\<in>set (drop n ?hi). ?b + n < ?D e"
    using Flush_passes [OF rx_reach_ok [OF assms(1)]] by blast
  have taken: "?D ` set (take n ?hi) = {?b..<?b + n}" using arg_cong [OF r'(6), of set] by simp
  have parts: "?bs = ?lo @ take n ?hi @ drop n ?hi" using r'(3) by simp
  have low: "\<not> missing_before e" if "e \<in> set ?lo" for e using that by (auto simp: missing_before_def)
  have mid: "\<not> missing_before e" if e: "e \<in> set (take n ?hi)" for e
  proof
    assume "missing_before e"
    then obtain i where i: "?b \<le> i" "i < ?D e" "i \<notin> ?D ` set ?bs" unfolding missing_before_def by blast
    have "?D e < ?b + n" using e taken by fastforce
    then have "i \<in> ?D ` set (take n ?hi)" unfolding taken using i by simp
    moreover have "set (take n ?hi) \<subseteq> set ?bs" using set_take_subset [of n ?hi] by auto
    ultimately show False using i(3) by blast
  qed
  have high: "missing_before e" if e: "e \<in> set (drop n ?hi)" for e
  proof -
    have "?b + n \<notin> ?D ` set ?bs"
    proof
      assume "?b + n \<in> ?D ` set ?bs"
      then have "?b + n \<in> ?D ` (set ?lo \<union> set (take n ?hi) \<union> set (drop n ?hi))"
        using arg_cong [OF parts, of set] by (simp only: set_append Un_assoc)
      then show False using taken r'(7) by (auto simp: image_Un)
    qed
    then show ?thesis using r'(7) e unfolding missing_before_def by (metis le_add1)
  qed
  have "filter missing_before (lo @ mi @ hi) = hi" "filter (\<lambda>e. \<not> missing_before e) (lo @ mi @ hi) = lo @ mi"
    if "\<forall>e\<in>set lo. \<not> missing_before e" "\<forall>e\<in>set mi. \<not> missing_before e" "\<forall>e\<in>set hi. missing_before e"
    for lo mi hi :: "(seqno \<times> wifi_mpdu) list"
    using that by (simp_all add: filter_empty_conv filter_id_conv)
  from this [of ?lo "take n ?hi" "drop n ?hi", folded parts]
  have "filter missing_before ?bs = drop n ?hi" "filter (\<lambda>e. \<not> missing_before e) ?bs = ?lo @ take n ?hi"
    using low mid high by blast+
  then show ?thesis using r'(1,4,5) by simp
qed

text \<open>MPDUs 1 and 2 have been received and wait for MPDU 0: \<open>Flush\<close> forwards neither.\<close>

definition rx12 :: "recipient" where
  "rx12 = the (Option.bind (NotifyReceivedMpdu (mpdu 1) (RecipientBlockAckAgreement 1 True 0 8 0 0 True)) (NotifyReceivedMpdu (mpdu 2)))"

lemma rx12_reach: "rx_reach rx12" "map fst (m_bufferedMpdus rx12) = [1, 2]" "m_winStartB rx12 = 0"
  "m_winStart (m_scoreboard rx12) = 0" "m_forwarded rx12 = []"
proof -
  let ?r0 = "RecipientBlockAckAgreement 1 True 0 8 0 0 True"
  have ev: "(case NotifyReceivedMpdu (mpdu 1) ?r0 of None \<Rightarrow> False | Some r1 \<Rightarrow> (case NotifyReceivedMpdu (mpdu 2) r1 of None \<Rightarrow> False
      | Some r2 \<Rightarrow> map fst (m_bufferedMpdus r2) = [1, 2] \<and> m_winStartB r2 = 0 \<and> m_winStart (m_scoreboard r2) = 0 \<and> m_forwarded r2 = []))"
    by code_simp
  then obtain r1 r2 where r: "NotifyReceivedMpdu (mpdu 1) ?r0 = Some r1" "NotifyReceivedMpdu (mpdu 2) r1 = Some r2"
      "map fst (m_bufferedMpdus r2) = [1, 2]" "m_winStartB r2 = 0" "m_winStart (m_scoreboard r2) = 0" "m_forwarded r2 = []"
    by (auto split: option.splits)
  have "rx_reach ?r0" by (rule rx_init) (simp_all add: SEQNO_SPACE_SIZE_def SEQNO_SPACE_HALF_SIZE_def)
  from rx_mpdu [OF this _ r(1)] have "rx_reach r1" by (simp add: mpdu_def SEQNO_SPACE_SIZE_def)
  from rx_mpdu [OF this _ r(2)] have "rx_reach r2" by (simp add: mpdu_def SEQNO_SPACE_SIZE_def)
  moreover have "rx12 = r2" using r by (simp add: rx12_def)
  ultimately show "rx_reach rx12" "map fst (m_bufferedMpdus rx12) = [1, 2]" "m_winStartB rx12 = 0"
    "m_winStart (m_scoreboard rx12) = 0" "m_forwarded rx12 = []" using r by simp_all
qed

theorem flush_loses_buffered_witness:
  "\<exists>r'. Flush rx12 = Some r' \<and> m_forwarded r' = [] \<and> map fst (m_bufferedMpdus r') = [1, 2]"
proof -
  obtain x y where b: "m_bufferedMpdus rx12 = [(1, x), (2, y)]" using rx12_reach(2) by (auto simp: map_eq_Cons_conv)
  have "dist 0 0 = 0" "dist 1 0 = 1" "dist 2 0 = 2" by (simp_all add: dist_def SEQNO_SPACE_SIZE_def)
  then have m: "\<exists>i. dist (m_winStart (m_scoreboard rx12)) (m_winStartB rx12) \<le> i \<and> i < dist (fst e) (m_winStartB rx12) \<and>
      i \<notin> (\<lambda>x. dist (fst x) (m_winStartB rx12)) ` set (m_bufferedMpdus rx12)" if "e \<in> set (m_bufferedMpdus rx12)" for e
    using that by (intro exI [of _ 0]) (auto simp: b rx12_reach)
  from flush_loses_buffered [OF rx12_reach(1)] obtain r' where r': "Flush rx12 = Some r'"
    "m_forwarded r' = map snd (filter (\<lambda>e. False) (m_bufferedMpdus rx12))" "m_bufferedMpdus r' = filter (\<lambda>e. True) (m_bufferedMpdus rx12)"
    using m by (auto simp: rx12_reach(5) cong: filter_cong)
  then show ?thesis using rx12_reach(2) by simp
qed

end
