(* ===== verification/Block_Ack_Bitmap.thy ===== *)
theory Block_Ack_Bitmap
  imports Block_Ack_Props
begin

text \<open>
  The bitmap of a Block Ack response: writing the recipient's scoreboard into the header and reading
  the header back as the originator does gives the scoreboard.
\<close>

lemma IsInBitmap_dist:
  assumes "index_ok index h" "index < length (m_bitmapLen h)" "unat (bi_startingSeq (m_baInfo h ! index)) < SEQNO_SPACE_SIZE"
  shows "IsInBitmap sn index h =
    Some (dist sn (bi_startingSeq (m_baInfo h ! index)) < unat (nAckedMpdus index h))"
  using assms by (simp add: IsInBitmap_def index_ok_def smod_dist of_nat_less_iff [symmetric, where 'a = int] del: of_nat_less_iff)

lemma IndexInBitmap_dist:
  assumes "index < length (m_baInfo h)" "index < length (m_bitmapLen h)"
    and "unat (bi_startingSeq (m_baInfo h ! index)) < SEQNO_SPACE_SIZE" "unat sn < SEQNO_SPACE_SIZE"
    and "dist sn (bi_startingSeq (m_baInfo h ! index)) < unat (nAckedMpdus index h)"
  shows "IndexInBitmap sn index h = Some (dist sn (bi_startingSeq (m_baInfo h ! index)))"
proof -
  let ?s = "bi_startingSeq (m_baInfo h ! index)"
  have "unat (if sn \<ge> ?s then sn - ?s else of_nat SEQNO_SPACE_SIZE - ?s + sn) = dist sn ?s"
  proof (cases "?s \<le> sn")
    case True
    then show ?thesis using assms(3,4) by (simp add: dist_if unat_sub word_le_nat_alt)
  next
    case False
    then have lt: "unat sn < unat ?s" by (simp add: word_less_nat_alt not_le)
    have "of_nat SEQNO_SPACE_SIZE - ?s + sn = of_nat (SEQNO_SPACE_SIZE - unat ?s + unat sn)"
      using assms(3) by (simp add: of_nat_diff)
    moreover have "SEQNO_SPACE_SIZE - unat ?s + unat sn < 2 ^ 16"
      using lt assms(3) by (simp add: SEQNO_SPACE_SIZE_def)
    ultimately have "unat (of_nat SEQNO_SPACE_SIZE - ?s + sn) = SEQNO_SPACE_SIZE - unat ?s + unat sn"
      by (simp only: unat_seqno)
    then show ?thesis using False lt assms(3,4) by (simp add: dist_if)
  qed
  then show ?thesis
    using assms(1,2,5) by (simp add: IndexInBitmap_def Let_def word_less_nat_alt)
qed

definition ba_bit :: "nat \<Rightarrow> nat \<Rightarrow> ba_response \<Rightarrow> bool" where
  "ba_bit index i h \<longleftrightarrow> bit (m_bitmap (m_baInfo h ! index) ! (i div 8)) (i mod 8)"

lemma and_mask_bit: "and b (2 ^ k) \<noteq> (0 :: 8 word) \<longleftrightarrow> bit b k"
  by (simp add: and_exp_eq_0_iff_not_bit)

lemma or_mask_bit: "k < 8 \<Longrightarrow> bit (or b (2 ^ k) :: 8 word) j \<longleftrightarrow> bit b j \<or> j = k"
  by (auto simp: bit_or_iff bit_exp_iff)

text \<open>The header while the bitmap is filled.\<close>

definition filling :: "seqno \<Rightarrow> nat \<Rightarrow> ba_response \<Rightarrow> bool" where
  "filling ssn index h \<longleftrightarrow> index_ok index h \<and> index < length (m_bitmapLen h) \<and> m_variant h \<noteq> BASIC \<and>
     m_variant h \<noteq> MULTI_TID \<and> bi_startingSeq (m_baInfo h ! index) = ssn \<and> unat ssn < SEQNO_SPACE_SIZE \<and>
     length (m_bitmap (m_baInfo h ! index)) = unat (m_bitmapLen h ! index)"

lemma nAcked: "m_variant h \<noteq> BASIC \<Longrightarrow> unat (nAckedMpdus index h) = 8 * unat (m_bitmapLen h ! index)"
proof -
  assume v: "m_variant h \<noteq> BASIC"
  have "unat (m_bitmapLen h ! index) < 256" using unsigned_less [of "m_bitmapLen h ! index", where 'a = nat] by simp
  then show ?thesis using v
    by (simp add: nAckedMpdus_def unat_word_ariths unsigned_ucast_eq take_bit_eq_mod)
qed

lemma SetReceivedPacket_bits:
  assumes f: "filling ssn index h" and sn: "unat sn < SEQNO_SPACE_SIZE"
    and d: "dist sn ssn < 8 * unat (m_bitmapLen h ! index)"
  shows "\<exists>h'. SetReceivedPacket sn index h = Some h' \<and> filling ssn index h' \<and> m_bitmapLen h' = m_bitmapLen h \<and>
    m_variant h' = m_variant h \<and> m_aidTidInfo (m_baInfo h' ! index) = m_aidTidInfo (m_baInfo h ! index) \<and>
    (\<forall>i < 8 * unat (m_bitmapLen h ! index). ba_bit index i h' \<longleftrightarrow> ba_bit index i h \<or> i = dist sn ssn)"
proof -
  note fD = f [unfolded filling_def]
  let ?d = "dist sn ssn" and ?i = "m_baInfo h ! index"
  let ?h = "h\<lparr>m_baInfo := (m_baInfo h)[index :=
      ?i\<lparr>m_bitmap := (m_bitmap ?i)[?d div 8 := or (m_bitmap ?i ! (?d div 8)) (push_bit (?d mod 8) 1)]\<rparr>]\<rparr>"
  have v: "m_variant h \<noteq> BASIC" "m_variant h \<noteq> MULTI_TID" using fD by blast+
  have idx: "index < length (m_baInfo h)" using fD by (simp add: index_ok_def)
  have "IsInBitmap sn index h = Some True"
    using IsInBitmap_dist [of index h sn] fD d nAcked [OF v(1)] by simp
  moreover have "IndexInBitmap sn index h = Some ?d"
    using IndexInBitmap_dist [of index h sn] fD d nAcked [OF v(1), of index] sn idx by simp
  moreover have "?d div 8 < length (m_bitmap ?i)" using fD d by simp
  ultimately have "SetReceivedPacket sn index h = Some ?h"
    using fD v by (cases "m_variant h") (simp_all add: SetReceivedPacket_def or_bitmap_def Let_def)
  moreover have "filling ssn index ?h" using fD idx by (simp add: filling_def index_ok_def)
  moreover have "ba_bit index i ?h \<longleftrightarrow> ba_bit index i h \<or> i = ?d"
    if "i < 8 * unat (m_bitmapLen h ! index)" for i
  proof (cases "i div 8 = ?d div 8")
    case True
    then have "i mod 8 = ?d mod 8 \<longleftrightarrow> i = ?d" by (metis mult_div_mod_eq)
    then show ?thesis
      using True idx \<open>?d div 8 < length _\<close> by (simp add: ba_bit_def or_mask_bit)
  next
    case False
    then show ?thesis using idx by (auto simp: ba_bit_def)
  qed
  ultimately show ?thesis using idx by (intro exI [of _ ?h]) simp
qed

lemma fill_bits:
  assumes f: "filling ssn index h" and n: "n \<le> length fs" "length fs \<le> 8 * unat (m_bitmapLen h ! index)"
    and zero: "\<And>i. i < 8 * unat (m_bitmapLen h ! index) \<Longrightarrow> \<not> ba_bit index i h"
  shows "\<exists>h'. for_each (\<lambda>i h. if fs ! i then SetReceivedPacket (of_nat ((unat ssn + i) mod SEQNO_SPACE_SIZE)) index h
        else Some h) [0..<n] h = Some h' \<and> filling ssn index h' \<and> m_bitmapLen h' = m_bitmapLen h \<and>
    m_variant h' = m_variant h \<and> m_aidTidInfo (m_baInfo h' ! index) = m_aidTidInfo (m_baInfo h ! index) \<and>
    (\<forall>i < 8 * unat (m_bitmapLen h ! index). ba_bit index i h' \<longleftrightarrow> i < n \<and> fs ! i)"
  using n(1)
proof (induction n)
  case 0
  then show ?case using f zero by simp
next
  case (Suc n)
  let ?body = "\<lambda>i h. if fs ! i then SetReceivedPacket (of_nat ((unat ssn + i) mod SEQNO_SPACE_SIZE)) index h else Some h"
  obtain h1 where h1: "for_each ?body [0..<n] h = Some h1" "filling ssn index h1" "m_bitmapLen h1 = m_bitmapLen h"
    "m_variant h1 = m_variant h" "m_aidTidInfo (m_baInfo h1 ! index) = m_aidTidInfo (m_baInfo h ! index)"
    "\<forall>i < 8 * unat (m_bitmapLen h ! index). ba_bit index i h1 \<longleftrightarrow> i < n \<and> fs ! i"
    using Suc by auto
  have step: "for_each ?body [0..<Suc n] h = ?body n h1"
    using h1(1) by (simp add: for_each_append)
  show ?case
  proof (cases "fs ! n")
    case True
    let ?sn = "of_nat ((unat ssn + n) mod SEQNO_SPACE_SIZE) :: seqno"
    have len: "unat (m_bitmapLen h ! index) < 256" using unsigned_less [of "m_bitmapLen h ! index", where 'a = nat] by simp
    then have n: "n < SEQNO_SPACE_SIZE" "n < 8 * unat (m_bitmapLen h ! index)"
      using Suc.prems n(2) by (simp_all add: SEQNO_SPACE_SIZE_def)
    have ssn: "unat ssn < SEQNO_SPACE_SIZE" using f by (simp add: filling_def)
    have sn: "unat ?sn = (unat ssn + n) mod SEQNO_SPACE_SIZE"
      by (rule unat_seqno) (simp add: SEQNO_SPACE_SIZE_def)
    then have "unat ?sn < SEQNO_SPACE_SIZE" by (simp add: SEQNO_SPACE_SIZE_def)
    moreover have "dist ?sn ssn = n"
      unfolding dist_def sn using ssn n(1) by (cases "unat ssn + n < SEQNO_SPACE_SIZE") (simp_all add: le_mod_geq)
    ultimately show ?thesis
      unfolding step using SetReceivedPacket_bits [OF h1(2), of ?sn] h1(3-6) n(2) True by (auto simp: less_Suc_eq)
  next
    case False
    then show ?thesis unfolding step using h1(2-6) by (auto simp: less_Suc_eq)
  qed
qed

text \<open>What the originator reads from a response that is filled from \<open>ssn\<close>.\<close>

lemma IsPacketReceived_bit:
  assumes "filling ssn index h" and "m_variant h \<notin> {BASIC, MULTI_TID}" and "\<not> all_ack index h"
    and "index < length (m_bitmapLen h)" and "unat sn < SEQNO_SPACE_SIZE"
  shows "IsPacketReceived sn index h =
    Some (dist sn ssn < 8 * unat (m_bitmapLen h ! index) \<and> ba_bit index (dist sn ssn) h)"
proof -
  note fD = assms(1) [unfolded filling_def]
  have idx: "index < length (m_baInfo h)" using fD by (simp add: index_ok_def)
  have n: "unat (nAckedMpdus index h) = 8 * unat (m_bitmapLen h ! index)" using nAcked [of h index] fD by simp
  have b: "IsInBitmap sn index h = Some (dist sn ssn < 8 * unat (m_bitmapLen h ! index))"
    using IsInBitmap_dist [of index h sn] fD n by simp
  show ?thesis
  proof (cases "dist sn ssn < 8 * unat (m_bitmapLen h ! index)")
    case True
    have "IndexInBitmap sn index h = Some (dist sn ssn)"
      using IndexInBitmap_dist [of index h sn] fD n idx assms(5) True by simp
    moreover have "dist sn ssn div 8 < length (m_bitmap (m_baInfo h ! index))" using fD True by simp
    ultimately show ?thesis
      using fD b True assms(2,3)
      by (cases "m_variant h") (simp_all add: IsPacketReceived_def ba_bit_def and_mask_bit)
  next
    case False
    then show ?thesis using fD b assms(3) by (simp add: IsPacketReceived_def)
  qed
qed

text \<open>C29: a recipient writes its scoreboard into a compressed, extended or multi-station response whose bitmap
  is at least as long as its window, without failing; the originator that reads the response finds
  exactly the sequence numbers that the scoreboard has marked.\<close>

theorem block_ack_bitmap_roundtrip:
  assumes "window_ok (m_scoreboard r)" and "index_ok index h" and "index < length (m_bitmapLen h)"
    and "m_variant h \<notin> {BASIC, MULTI_TID}" and "\<not> all_ack index h"
    and "Window_GetWinSize (m_scoreboard r) \<le> 8 * unat (m_bitmapLen h ! index)"
  shows "\<exists>h'. FillBlockAckBitmap index r h = Some h' \<and> (\<forall>sn. unat sn < SEQNO_SPACE_SIZE \<longrightarrow>
    IsPacketReceived sn index h' =
      Some (let d = dist sn (m_winStart (m_scoreboard r))
            in d < Window_GetWinSize (m_scoreboard r) \<and> flags (m_scoreboard r) ! d))"
proof -
  let ?w = "m_scoreboard r" let ?ssn = "m_winStart ?w" let ?len = "unat (m_bitmapLen h ! index)"
  let ?h0 = "h\<lparr>m_baInfo := (m_baInfo h)[index := (m_baInfo h ! index)
      \<lparr>bi_startingSeq := ?ssn, m_bitmap := replicate ?len 0\<rparr>]\<rparr>"
  have idx: "index < length (m_baInfo h)" using assms(2) by (simp add: index_ok_def)
  have v: "m_variant h \<noteq> BASIC" "m_variant h \<noteq> MULTI_TID" using assms(4) by simp_all
  have size: "Window_GetWinSize ?w = length (flags ?w)" by (simp add: Window_GetWinSize_def)
  have f: "filling ?ssn index ?h0"
    using assms(1-4) idx by (simp add: filling_def index_ok_def window_ok_def)
  have zero: "\<not> ba_bit index i ?h0" if "i < 8 * ?len" for i
    using that idx by (simp add: ba_bit_def)
  obtain h' where h': "for_each (\<lambda>i h. if flags ?w ! i
        then SetReceivedPacket (of_nat ((unat ?ssn + i) mod SEQNO_SPACE_SIZE)) index h else Some h)
        [0..<length (flags ?w)] ?h0 = Some h'" "filling ?ssn index h'" "m_bitmapLen h' = m_bitmapLen h"
      "m_variant h' = m_variant h" "m_aidTidInfo (m_baInfo h' ! index) = m_aidTidInfo (m_baInfo h ! index)"
      "\<forall>i < 8 * ?len. ba_bit index i h' \<longleftrightarrow> i < length (flags ?w) \<and> flags ?w ! i"
    using fill_bits [OF f order_refl, of "flags ?w"] zero assms(6) size idx by auto
  have fill: "FillBlockAckBitmap index r h = Some h'"
  proof -
    have "for_each (\<lambda>i h. if Window_At i ?w = Some True
        then SetReceivedPacket (of_nat ((unat ?ssn + i) mod SEQNO_SPACE_SIZE)) index h else Some h)
        [0..<length (flags ?w)] ?h0 = Some h'"
      unfolding h'(1) [symmetric] by (rule for_each_cong) (simp add: Window_At_flags)
    then show ?thesis
      using assms(2,3) v idx size
      by (simp add: FillBlockAckBitmap_def Response_SetStartingSequence_def ResetBitmap_def index_ok_def Let_def)
  qed
  have "\<not> all_ack index h'" using assms(5) h'(4,5) by (simp add: all_ack_def)
  with h'(2) have "IsPacketReceived sn index h' =
      Some (let d = dist sn ?ssn in d < Window_GetWinSize ?w \<and> flags ?w ! d)" if sn: "unat sn < SEQNO_SPACE_SIZE" for sn
    using IsPacketReceived_bit [of ?ssn index h' sn] that assms(3,4,6) h'(3,4,6) size by (auto simp: Let_def)
  then show ?thesis using fill by blast
qed

text \<open>A compressed response of 8 bytes and the scoreboard of a recipient that has MPDU 1 only.\<close>

definition response8 :: ba_response where
  "response8 = \<lparr>m_variant = COMPRESSED, m_bitmapLen = [8],
     m_baInfo = [\<lparr>m_aidTidInfo = 0, bi_startingSeq = 9, m_bitmap = [1, 2, 3]\<rparr>]\<rparr>"

definition rx1 :: recipient where
  "rx1 = rx0\<lparr>m_scoreboard := \<lparr>m_winStart = 4095, m_window = [False, False, True, False], m_head = 0\<rparr>\<rparr>"

theorem block_ack_bitmap_roundtrip_witness:
  "\<exists>h'. FillBlockAckBitmap 0 rx1 response8 = Some h' \<and> IsPacketReceived 1 0 h' = Some True \<and>
     IsPacketReceived 0 0 h' = Some False"
proof -
  have w: "window_ok (m_scoreboard rx1)" "index_ok 0 response8" "0 < length (m_bitmapLen response8)"
    "m_variant response8 \<notin> {BASIC, MULTI_TID}" "\<not> all_ack 0 response8"
    "Window_GetWinSize (m_scoreboard rx1) \<le> 8 * unat (m_bitmapLen response8 ! 0)"
    by (simp_all add: rx1_def response8_def window_ok_def index_ok_def all_ack_def Window_GetWinSize_def SEQNO_SPACE_SIZE_def)
  have d: "dist 1 4095 = 2" "dist 0 4095 = 1" by (simp_all add: dist_def SEQNO_SPACE_SIZE_def)
  have f: "flags (m_scoreboard rx1) = [False, False, True, False]" "m_winStart (m_scoreboard rx1) = 4095"
    "Window_GetWinSize (m_scoreboard rx1) = 4"
    by (simp_all add: rx1_def flags_def Window_GetWinSize_def)
  obtain h' where h': "FillBlockAckBitmap 0 rx1 response8 = Some h'"
    "\<And>sn. unat sn < SEQNO_SPACE_SIZE \<Longrightarrow> IsPacketReceived sn 0 h' =
      Some (let d = dist sn 4095 in d < 4 \<and> [False, False, True, False] ! d)"
    using block_ack_bitmap_roundtrip [OF w] unfolding f by blast
  from h'(2) [of 1] h'(2) [of 0] show ?thesis
    using h'(1) by (simp add: d SEQNO_SPACE_SIZE_def)
qed

end
