(* ===== verification/Calendar_Scheduler.thy ===== *)
theory Calendar_Scheduler
  imports Schedulers
begin

text \<open>
  The calendar queue of \<open>core/model/calendar-scheduler.cc\<close>: an array of sorted buckets, where an
  event is in the bucket of its year day \<open>(ts / m_width) % m_nBuckets\<close>, the search for the next
  event that starts at the bucket of the last one, and the resizing that samples the queue. All
  counters keep their width. A failed assertion and a dereference of an empty bucket are \<open>None\<close>.
\<close>

type_synonym bucket = "event list"

record calendar_scheduler =
  m_buckets :: "bucket list"
  m_nBuckets :: "32 word"
  m_width :: "64 word"
  m_lastBucket :: "32 word"
  m_bucketTop :: "64 word"
  m_lastPrio :: "64 word"
  m_qSize :: "32 word"
  m_reverse :: bool

text \<open>The three functions that \<open>SetReverse\<close> chooses.\<close>

definition NextEvent :: "bool \<Rightarrow> bucket \<Rightarrow> event option" where
  "NextEvent reverse b = (if b = [] then None else Some (if reverse then last b else hd b))"

definition Order :: "bool \<Rightarrow> event_key \<Rightarrow> event_key \<Rightarrow> bool" where
  "Order reverse a b = (if reverse then key_greater a b else key_less a b)"

definition Pop :: "bool \<Rightarrow> bucket \<Rightarrow> bucket" where
  "Pop reverse b = (if reverse then butlast b else tl b)"

definition Hash :: "64 word \<Rightarrow> calendar_scheduler \<Rightarrow> 32 word" where
  "Hash ts q = ucast ((ts div m_width q) mod ucast (m_nBuckets q))"

definition Calendar_Init :: "32 word \<Rightarrow> 64 word \<Rightarrow> 64 word \<Rightarrow> calendar_scheduler \<Rightarrow> calendar_scheduler" where
  "Calendar_Init nBuckets width startPrio q =
     (let q1 = q\<lparr>m_buckets := replicate (unat nBuckets) [], m_nBuckets := nBuckets, m_width := width,
                 m_lastPrio := startPrio\<rparr>
      in q1\<lparr>m_lastBucket := Hash startPrio q1, m_bucketTop := (startPrio div width + 1) * width\<rparr>)"

text \<open>The constructor, then the attribute \<open>Reverse\<close>.\<close>

definition CalendarScheduler_init :: "bool \<Rightarrow> calendar_scheduler" where
  "CalendarScheduler_init reverse =
     Calendar_Init 2 1 0 \<lparr>m_buckets = [], m_nBuckets = 0, m_width = 0, m_lastBucket = 0, m_bucketTop = 0,
       m_lastPrio = 0, m_qSize = 0, m_reverse = reverse\<rparr>"

text \<open>The loop over a bucket in \<open>DoInsert\<close>.\<close>

fun bucket_insert :: "bool \<Rightarrow> event \<Rightarrow> bucket \<Rightarrow> bucket" where
  "bucket_insert reverse ev [] = [ev]"
| "bucket_insert reverse ev (i # b) =
     (if Order reverse (key ev) (key i) then ev # i # b else i # bucket_insert reverse ev b)"

definition DoInsert :: "event \<Rightarrow> calendar_scheduler \<Rightarrow> calendar_scheduler" where
  "DoInsert ev q =
     (let bucket = unat (Hash (m_ts (key ev)) q)
      in q\<lparr>m_buckets := (m_buckets q)[bucket := bucket_insert (m_reverse q) ev (m_buckets q ! bucket)]\<rparr>)"

definition Calendar_IsEmpty :: "calendar_scheduler \<Rightarrow> bool" where
  "Calendar_IsEmpty q \<longleftrightarrow> m_qSize q = 0"

text \<open>
  The search loops visit each bucket at most once before \<open>i\<close> is \<open>m_lastBucket\<close> again: the first
  argument bounds the rounds.
\<close>

fun PeekNext_loop ::
  "nat \<Rightarrow> 32 word \<Rightarrow> 64 word \<Rightarrow> event \<Rightarrow> calendar_scheduler \<Rightarrow> event option" where
  "PeekNext_loop 0 i bucketTop minEvent q = None"
| "PeekNext_loop (Suc n) i bucketTop minEvent q =
     (let continue = (\<lambda>minEvent.
            let i' = (i + 1) mod m_nBuckets q
            in if i' = m_lastBucket q then Some minEvent
               else PeekNext_loop n i' (bucketTop + m_width q) minEvent q)
      in case NextEvent (m_reverse q) (m_buckets q ! unat i) of
           None \<Rightarrow> continue minEvent
         | Some nxt \<Rightarrow>
             if m_ts (key nxt) < bucketTop then Some nxt
             else continue (if key_less (key nxt) (key minEvent) then nxt else minEvent))"

definition Calendar_PeekNext :: "calendar_scheduler \<Rightarrow> event option" where
  "Calendar_PeekNext q =
     (if Calendar_IsEmpty q then None
      else PeekNext_loop (unat (m_nBuckets q)) (m_lastBucket q) (m_bucketTop q)
             \<lparr>impl = None, key = \<lparr>m_ts = - 1, m_uid = - 1, m_context = 0\<rparr>\<rparr> q)"

text \<open>The result is the bucket, its top and its event, or the least key and its bucket (-1 is \<open>None\<close>).\<close>

fun RemoveNext_loop ::
  "nat \<Rightarrow> 32 word \<Rightarrow> 64 word \<Rightarrow> event_key \<Rightarrow> 32 word option \<Rightarrow> calendar_scheduler \<Rightarrow>
   ((32 word \<times> 64 word \<times> event) + (event_key \<times> 32 word option)) option" where
  "RemoveNext_loop 0 i bucketTop minKey minBucket q = None"
| "RemoveNext_loop (Suc n) i bucketTop minKey minBucket q =
     (let continue = (\<lambda>minKey minBucket.
            let i' = (i + 1) mod m_nBuckets q
            in if i' = m_lastBucket q then Some (Inr (minKey, minBucket))
               else RemoveNext_loop n i' (bucketTop + m_width q) minKey minBucket q)
      in case NextEvent (m_reverse q) (m_buckets q ! unat i) of
           None \<Rightarrow> continue minKey minBucket
         | Some nxt \<Rightarrow>
             if m_ts (key nxt) < bucketTop then Some (Inl (i, bucketTop, nxt))
             else if key_less (key nxt) minKey then continue (key nxt) (Some i)
             else continue minKey minBucket)"

definition pop_bucket :: "32 word \<Rightarrow> calendar_scheduler \<Rightarrow> calendar_scheduler" where
  "pop_bucket i q = q\<lparr>m_buckets := (m_buckets q)[unat i := Pop (m_reverse q) (m_buckets q ! unat i)]\<rparr>"

definition DoRemoveNext :: "calendar_scheduler \<Rightarrow> (event \<times> calendar_scheduler) option" where
  "DoRemoveNext q =
     (if Calendar_IsEmpty q then None
      else case RemoveNext_loop (unat (m_nBuckets q)) (m_lastBucket q) (m_bucketTop q)
                  \<lparr>m_ts = - 1, m_uid = 0, m_context = 0xffffffff\<rparr> None q of
             None \<Rightarrow> None
           | Some (Inl (i, bucketTop, nxt)) \<Rightarrow>
               Some (nxt, pop_bucket i (q\<lparr>m_lastBucket := i, m_lastPrio := m_ts (key nxt), m_bucketTop := bucketTop\<rparr>))
           | Some (Inr (minKey, None)) \<Rightarrow> None
           | Some (Inr (minKey, Some minBucket)) \<Rightarrow>
               (let q1 = q\<lparr>m_lastPrio := m_ts minKey, m_lastBucket := Hash (m_ts minKey) q,
                           m_bucketTop := (m_ts minKey div m_width q + 1) * m_width q\<rparr>
                in map_option (\<lambda>nxt. (nxt, pop_bucket minBucket q1))
                     (NextEvent (m_reverse q) (m_buckets q ! unat minBucket))))"

subsection \<open>Resizing\<close>

primrec gather :: "nat \<Rightarrow> calendar_scheduler \<Rightarrow> (event list \<times> calendar_scheduler) option" where
  "gather 0 q = Some ([], q)"
| "gather (Suc n) q = Option.bind (DoRemoveNext q) (\<lambda>(e, q1).
     map_option (\<lambda>(es, q2). (e # es, q2)) (gather n q1))"

text \<open>The sums of the separations of the samples: of all, and of those up to \<open>twiceAvg\<close>.\<close>

fun total_separation :: "event list \<Rightarrow> 64 word" where
  "total_separation (cur # nxt # es) = (m_ts (key nxt) - m_ts (key cur)) + total_separation (nxt # es)"
| "total_separation _ = 0"

fun close_separation :: "64 word \<Rightarrow> event list \<Rightarrow> 64 word" where
  "close_separation twiceAvg (cur # nxt # es) =
     (let diff = m_ts (key nxt) - m_ts (key cur)
      in (if diff \<le> twiceAvg then diff else 0) + close_separation twiceAvg (nxt # es))"
| "close_separation twiceAvg _ = 0"

definition nSamples :: "32 word \<Rightarrow> 32 word" where
  "nSamples qSize =
     (let n = (if qSize \<le> 5 then qSize else 5 + qSize div 10) in if n > 25 then 25 else n)"

definition new_width :: "event list \<Rightarrow> 32 word \<Rightarrow> 64 word" where
  "new_width samples n =
     (let twiceAvg = total_separation samples div ucast (n - 1) * 2
      in max (close_separation twiceAvg samples * 3) 1)"

definition CalculateNewWidth :: "calendar_scheduler \<Rightarrow> (64 word \<times> calendar_scheduler) option" where
  "CalculateNewWidth q =
     (if m_qSize q < 2 then Some (1, q)
      else map_option (\<lambda>(samples, q1).
             (new_width samples (nSamples (m_qSize q)),
              (fold DoInsert samples q1)
                \<lparr>m_lastBucket := m_lastBucket q, m_bucketTop := m_bucketTop q, m_lastPrio := m_lastPrio q\<rparr>))
             (gather (unat (nSamples (m_qSize q))) q))"

definition DoResize :: "32 word \<Rightarrow> 64 word \<Rightarrow> calendar_scheduler \<Rightarrow> calendar_scheduler" where
  "DoResize newSize newWidth q =
     fold (\<lambda>b. fold DoInsert b) (m_buckets q) (Calendar_Init newSize newWidth (m_lastPrio q) q)"

definition Resize :: "32 word \<Rightarrow> calendar_scheduler \<Rightarrow> calendar_scheduler option" where
  "Resize newSize q = map_option (\<lambda>(newWidth, q1). DoResize newSize newWidth q1) (CalculateNewWidth q)"

definition ResizeUp :: "calendar_scheduler \<Rightarrow> calendar_scheduler option" where
  "ResizeUp q =
     (if m_qSize q > m_nBuckets q * 2 \<and> m_nBuckets q < 32768 then Resize (m_nBuckets q * 2) q else Some q)"

definition ResizeDown :: "calendar_scheduler \<Rightarrow> calendar_scheduler option" where
  "ResizeDown q = (if m_qSize q < m_nBuckets q div 2 then Resize (m_nBuckets q div 2) q else Some q)"

subsection \<open>The operations\<close>

definition Calendar_Insert :: "event \<Rightarrow> calendar_scheduler \<Rightarrow> calendar_scheduler option" where
  "Calendar_Insert ev q = (let q1 = DoInsert ev q in ResizeUp (q1\<lparr>m_qSize := m_qSize q1 + 1\<rparr>))"

definition Calendar_RemoveNext :: "calendar_scheduler \<Rightarrow> (event \<times> calendar_scheduler) option" where
  "Calendar_RemoveNext q =
     (if Calendar_IsEmpty q then None
      else Option.bind (DoRemoveNext q) (\<lambda>(ev, q1).
             map_option (Pair ev) (ResizeDown (q1\<lparr>m_qSize := m_qSize q1 - 1\<rparr>))))"

fun bucket_remove :: "event \<Rightarrow> bucket \<Rightarrow> bucket option" where
  "bucket_remove ev [] = None"
| "bucket_remove ev (i # b) =
     (if m_uid (key i) = m_uid (key ev) then (if impl ev = impl i then Some b else None)
      else map_option ((#) i) (bucket_remove ev b))"

definition Calendar_Remove :: "event \<Rightarrow> calendar_scheduler \<Rightarrow> calendar_scheduler option" where
  "Calendar_Remove ev q =
     (if Calendar_IsEmpty q then None
      else let bucket = unat (Hash (m_ts (key ev)) q)
           in Option.bind (bucket_remove ev (m_buckets q ! bucket)) (\<lambda>b.
                ResizeDown (q\<lparr>m_buckets := (m_buckets q)[bucket := b], m_qSize := m_qSize q - 1\<rparr>)))"

definition CalendarScheduler :: "calendar_scheduler scheduler" where
  "CalendarScheduler =
     \<lparr>Insert = Calendar_Insert, IsEmpty = Calendar_IsEmpty, PeekNext = Calendar_PeekNext,
      RemoveNext = Calendar_RemoveNext, Remove = Calendar_Remove\<rparr>"

lemma CalendarScheduler_sel [sched_simps]:
  "Insert CalendarScheduler = Calendar_Insert"
  "IsEmpty CalendarScheduler = Calendar_IsEmpty"
  "PeekNext CalendarScheduler = Calendar_PeekNext"
  "RemoveNext CalendarScheduler = Calendar_RemoveNext"
  "Remove CalendarScheduler = Calendar_Remove"
  by (simp_all add: CalendarScheduler_def)

end
