(* ===== verification/Calendar_Inv.thy ===== *)
theory Calendar_Inv
  imports Calendar_Scheduler
begin

text \<open>
  The calendar queue is an event queue: its buckets are sorted, an event is in the bucket of its
  day, no event is earlier than \<open>m_lastPrio\<close>, and the search returns the least event, also when
  \<open>m_bucketTop\<close> wraps around.
\<close>

subsection \<open>A bucket\<close>

definition chron :: "bool \<Rightarrow> bucket \<Rightarrow> bucket" where
  "chron reverse b = (if reverse then rev b else b)"

lemma set_chron [simp]: "set (chron r b) = set b"
  by (simp add: chron_def)

lemma NextEvent_chron: "NextEvent r b = (case chron r b of [] \<Rightarrow> None | e # _ \<Rightarrow> Some e)"
  by (cases r) (simp_all add: NextEvent_def chron_def hd_rev [symmetric] split: list.splits)

lemma chron_Pop: "chron r (Pop r b) = tl (chron r b)"
proof (cases r)
  case True
  then show ?thesis by (induction b rule: rev_induct) (simp_all add: chron_def Pop_def)
qed (simp add: chron_def Pop_def)

lemma Order_rank: "Order r (key a) (key b) \<longleftrightarrow> (if r then rank b < rank a else rank a < rank b)"
  using key_less_rank [of a b] key_less_rank [of b a] by (simp add: Order_def key_greater_less)

lemma sorted_chron: "sorted_by rank (chron r b) \<longleftrightarrow> sorted_wrt (\<lambda>x y. Order r (key x) (key y)) b"
  by (cases r) (simp_all add: chron_def sorted_by_def sorted_wrt_rev Order_rank)

lemma set_bucket_insert [simp]: "set (bucket_insert r ev b) = insert ev (set b)"
  by (induction b) auto

lemma mset_bucket_insert [simp]: "mset (bucket_insert r ev b) = add_mset ev (mset b)"
  by (induction b) auto

lemma sorted_bucket_insert:
  assumes "sorted_by rank (chron r b)" and "uid ev \<notin> uid ` set b"
  shows "sorted_by rank (chron r (bucket_insert r ev b))"
  using assms unfolding sorted_chron
proof (induction b)
  case (Cons i b)
  have ne: "rank ev \<noteq> rank i" using Cons.prems(2) by (auto dest: rank_eqD)
  show ?case
  proof (cases "Order r (key ev) (key i)")
    case True
    then have "Order r (key ev) (key y)" if "y \<in> set b" for y
      using that Cons.prems(1) by (cases r) (auto simp: Order_rank)
    then show ?thesis using True Cons.prems by simp
  next
    case False
    then have "Order r (key i) (key ev)" using ne by (cases r) (auto simp: Order_rank)
    then show ?thesis using False Cons by simp
  qed
qed simp

lemma bucket_remove_ok:
  "distinct (map uid b) \<Longrightarrow> ev \<in> set b \<Longrightarrow> bucket_remove ev b = Some (remove1 ev b)"
  by (induction b) (auto simp: uid_def rev_image_eqI)

lemma remove1_rev: "distinct b \<Longrightarrow> remove1 x (rev b) = rev (remove1 x b)"
  by (simp add: distinct_remove1_removeAll removeAll_filter_not_eq rev_filter)

lemma chron_remove1: "distinct b \<Longrightarrow> chron r (remove1 x b) = remove1 x (chron r b)"
  by (simp add: chron_def remove1_rev)

subsection \<open>The array of buckets\<close>

abbreviation all_events :: "calendar_scheduler \<Rightarrow> event list" where
  "all_events q \<equiv> concat (m_buckets q)"

lemma in_all_events: "e \<in> set (all_events q) \<longleftrightarrow> (\<exists>i < length (m_buckets q). e \<in> set (m_buckets q ! i))"
  by (auto simp: set_conv_nth [of "m_buckets q"])

definition buckets_ok :: "calendar_scheduler \<Rightarrow> bool" where
  "buckets_ok q \<longleftrightarrow>
     length (m_buckets q) = unat (m_nBuckets q) \<and> 0 < unat (m_nBuckets q) \<and> unat (m_nBuckets q) \<le> 65536 \<and>
     0 < unat (m_width q) \<and> distinct (map uid (all_events q)) \<and>
     (\<forall>i < length (m_buckets q). sorted_by rank (chron (m_reverse q) (m_buckets q ! i)) \<and>
        (\<forall>e \<in> set (m_buckets q ! i). unat (Hash (m_ts (key e)) q) = i \<and> m_ts (key e) < - 1))"

text \<open>The number of the day of a time stamp, counted from 0.\<close>

definition day :: "calendar_scheduler \<Rightarrow> 64 word \<Rightarrow> nat" where
  "day q ts = unat ts div unat (m_width q)"

definition front_ok :: "calendar_scheduler \<Rightarrow> bool" where
  "front_ok q \<longleftrightarrow> (\<forall>e\<in>set (all_events q). m_lastPrio q \<le> m_ts (key e)) \<and>
     m_lastBucket q = Hash (m_lastPrio q) q \<and>
     m_bucketTop q = (m_lastPrio q div m_width q + 1) * m_width q"

lemma buckets_okD:
  assumes "buckets_ok q"
  shows "length (m_buckets q) = unat (m_nBuckets q)" "0 < unat (m_nBuckets q)" "unat (m_nBuckets q) \<le> 65536"
    "0 < unat (m_width q)" "distinct (map uid (all_events q))"
    "i < unat (m_nBuckets q) \<Longrightarrow> sorted_by rank (chron (m_reverse q) (m_buckets q ! i))"
    "i < unat (m_nBuckets q) \<Longrightarrow> e \<in> set (m_buckets q ! i) \<Longrightarrow> unat (Hash (m_ts (key e)) q) = i"
    "e \<in> set (all_events q) \<Longrightarrow> m_ts (key e) < - 1"
proof -
  note b = assms [unfolded buckets_ok_def]
  show len: "length (m_buckets q) = unat (m_nBuckets q)" and "0 < unat (m_nBuckets q)"
    "unat (m_nBuckets q) \<le> 65536" "0 < unat (m_width q)" "distinct (map uid (all_events q))"
    using b by blast+
  show "i < unat (m_nBuckets q) \<Longrightarrow> sorted_by rank (chron (m_reverse q) (m_buckets q ! i))"
    "i < unat (m_nBuckets q) \<Longrightarrow> e \<in> set (m_buckets q ! i) \<Longrightarrow> unat (Hash (m_ts (key e)) q) = i"
    using b by metis+
  show "e \<in> set (all_events q) \<Longrightarrow> m_ts (key e) < - 1"
    using b unfolding in_all_events by blast
qed

lemma unat_Hash:
  assumes "0 < unat (m_nBuckets q)"
  shows "unat (Hash ts q) = day q ts mod unat (m_nBuckets q)"
proof -
  have lt: "unat (m_nBuckets q) < 2 ^ 32" using unsigned_less [of "m_nBuckets q"] by simp
  then have n: "unat (ucast (m_nBuckets q) :: 64 word) = unat (m_nBuckets q)"
    unfolding unsigned_ucast_eq take_bit_eq_mod by (intro mod_less) simp
  have u: "unat ((ts div m_width q) mod ucast (m_nBuckets q) :: 64 word) = day q ts mod unat (m_nBuckets q)"
    unfolding unat_mod_distrib unat_div_distrib n day_def ..
  have "day q ts mod unat (m_nBuckets q) < unat (m_nBuckets q)" using assms by (rule mod_less_divisor)
  then have "day q ts mod unat (m_nBuckets q) < 2 ^ 32" using lt by (rule order_less_trans)
  then show ?thesis
    unfolding Hash_def unsigned_ucast_eq u take_bit_eq_mod by (intro mod_less) simp
qed

lemma Hash_less: "0 < unat (m_nBuckets q) \<Longrightarrow> unat (Hash ts q) < unat (m_nBuckets q)"
  by (simp add: unat_Hash)

lemma Hash_cong: "m_nBuckets q = m_nBuckets q' \<Longrightarrow> m_width q = m_width q' \<Longrightarrow> Hash ts q = Hash ts q'"
  by (simp add: Hash_def)

lemma mset_concat_update:
  "i < length bs \<Longrightarrow> mset (concat (bs[i := b])) + mset (bs ! i) = mset (concat bs) + mset b"
  by (induction bs arbitrary: i) (auto split: nat.splits simp: ac_simps)

text \<open>Replacing the content of a bucket.\<close>

lemma buckets_ok_update:
  assumes ok: "buckets_ok q" and i: "i < unat (m_nBuckets q)"
    and b: "sorted_by rank (chron (m_reverse q) b)"
      "\<And>e. e \<in> set b \<Longrightarrow> unat (Hash (m_ts (key e)) q) = i \<and> m_ts (key e) < - 1"
    and all: "mset xs + mset (m_buckets q ! i) = mset (all_events q) + mset b" "distinct (map uid xs)"
  shows "buckets_ok (q\<lparr>m_buckets := (m_buckets q)[i := b]\<rparr>)"
    and "mset (all_events (q\<lparr>m_buckets := (m_buckets q)[i := b]\<rparr>)) = mset xs"
proof -
  let ?q = "q\<lparr>m_buckets := (m_buckets q)[i := b]\<rparr>"
  note o = buckets_okD [OF ok]
  have i': "i < length (m_buckets q)" using i o(1) by simp
  show m: "mset (all_events ?q) = mset xs"
  proof -
    have "mset (all_events ?q) + mset (m_buckets q ! i) = mset xs + mset (m_buckets q ! i)"
      using mset_concat_update [OF i', of b] all(1) by simp
    then show ?thesis by (simp only: add_right_cancel)
  qed
  have "distinct (map uid (all_events ?q))" using distinct_uid_mset [OF m] all(2) by simp
  moreover have "Hash ts ?q = Hash ts q" for ts by (rule Hash_cong) simp_all
  ultimately show "buckets_ok ?q"
    using ok i' b unfolding buckets_ok_def by (auto simp: nth_list_update)
qed

lemma DoInsert_sel [simp]:
  "m_nBuckets (DoInsert ev q) = m_nBuckets q" "m_width (DoInsert ev q) = m_width q"
  "m_lastBucket (DoInsert ev q) = m_lastBucket q" "m_bucketTop (DoInsert ev q) = m_bucketTop q"
  "m_lastPrio (DoInsert ev q) = m_lastPrio q" "m_qSize (DoInsert ev q) = m_qSize q"
  "m_reverse (DoInsert ev q) = m_reverse q"
  by (simp_all add: DoInsert_def Let_def)

lemma DoInsert_ok:
  assumes ok: "buckets_ok q" and fresh: "uid ev \<notin> uid ` set (all_events q)" and ts: "m_ts (key ev) < - 1"
  shows "buckets_ok (DoInsert ev q)" and "mset (all_events (DoInsert ev q)) = add_mset ev (mset (all_events q))"
proof -
  note o = buckets_okD [OF ok]
  define i where "i = unat (Hash (m_ts (key ev)) q)"
  have i: "i < unat (m_nBuckets q)" unfolding i_def using o(2) by (rule Hash_less)
  have sub: "set (m_buckets q ! i) \<subseteq> set (all_events q)" using i o(1) unfolding in_all_events subset_iff by auto
  have s: "sorted_by rank (chron (m_reverse q) (bucket_insert (m_reverse q) ev (m_buckets q ! i)))"
    using sorted_bucket_insert [OF o(6) [OF i]] fresh sub by blast
  have e: "unat (Hash (m_ts (key e)) q) = i \<and> m_ts (key e) < - 1"
    if "e \<in> set (bucket_insert (m_reverse q) ev (m_buckets q ! i))" for e
    using that o(7) [OF i, of e] o(8) [of e] subsetD [OF sub, of e] ts by (auto simp: i_def simp del: set_concat)
  have d: "distinct (map uid (ev # all_events q))" using o(5) fresh by simp
  have eq: "DoInsert ev q = q\<lparr>m_buckets := (m_buckets q)[i := bucket_insert (m_reverse q) ev (m_buckets q ! i)]\<rparr>"
    by (simp add: DoInsert_def i_def Let_def)
  show "buckets_ok (DoInsert ev q)"
    unfolding eq by (rule buckets_ok_update(1) [OF ok i s e _ d]) simp_all
  show "mset (all_events (DoInsert ev q)) = add_mset ev (mset (all_events q))"
    unfolding eq using buckets_ok_update(2) [OF ok i s e _ d] by simp
qed

lemma fold_DoInsert_sel [simp]:
  "m_nBuckets (fold DoInsert es q) = m_nBuckets q" "m_width (fold DoInsert es q) = m_width q"
  "m_lastBucket (fold DoInsert es q) = m_lastBucket q" "m_bucketTop (fold DoInsert es q) = m_bucketTop q"
  "m_lastPrio (fold DoInsert es q) = m_lastPrio q" "m_qSize (fold DoInsert es q) = m_qSize q"
  "m_reverse (fold DoInsert es q) = m_reverse q"
  by (induction es arbitrary: q) simp_all

lemma fold_DoInsert_ok:
  assumes "buckets_ok q" and "distinct (map uid (es @ all_events q))" and "\<forall>e\<in>set es. m_ts (key e) < - 1"
  shows "buckets_ok (fold DoInsert es q) \<and> mset (all_events (fold DoInsert es q)) = mset es + mset (all_events q)"
  using assms
proof (induction es arbitrary: q)
  case (Cons e es)
  have i: "buckets_ok (DoInsert e q)" "mset (all_events (DoInsert e q)) = add_mset e (mset (all_events q))"
    using DoInsert_ok [of q e] Cons.prems by auto
  have "mset (es @ all_events (DoInsert e q)) = mset ((e # es) @ all_events q)" using i(2) by simp
  from distinct_uid_mset [OF this] have "distinct (map uid (es @ all_events (DoInsert e q)))"
    using Cons.prems(2) by blast
  from Cons.IH [OF i(1) this] Cons.prems(3) i(2) show ?case by simp
qed simp

subsection \<open>The search for the next event\<close>

text \<open>Round \<open>k\<close> of the search looks at day \<open>k\<close> after the day of \<open>m_lastPrio\<close>: its bucket, the
  bucket's next event, the top of the day, and whether the event is of this day.\<close>

abbreviation nb :: "calendar_scheduler \<Rightarrow> nat" where
  "nb q \<equiv> unat (m_nBuckets q)"

abbreviation today :: "calendar_scheduler \<Rightarrow> nat" where
  "today q \<equiv> day q (m_lastPrio q)"

definition idx :: "calendar_scheduler \<Rightarrow> nat \<Rightarrow> 32 word" where
  "idx q k = of_nat ((today q + k) mod nb q)"

definition nxt :: "calendar_scheduler \<Rightarrow> nat \<Rightarrow> event option" where
  "nxt q k = NextEvent (m_reverse q) (m_buckets q ! ((today q + k) mod nb q))"

definition top_of :: "calendar_scheduler \<Rightarrow> nat \<Rightarrow> 64 word" where
  "top_of q k = of_nat ((today q + k + 1) * unat (m_width q))"

definition hit :: "calendar_scheduler \<Rightarrow> nat \<Rightarrow> bool" where
  "hit q k \<longleftrightarrow> (case nxt q k of None \<Rightarrow> False | Some e \<Rightarrow> m_ts (key e) < top_of q k)"

definition least :: "calendar_scheduler \<Rightarrow> nat \<Rightarrow> event_key \<times> 32 word option \<Rightarrow> event_key \<times> 32 word option" where
  "least q k m = (case nxt q k of None \<Rightarrow> m
     | Some e \<Rightarrow> if key_less (key e) (fst m) then (key e, Some (idx q k)) else m)"

definition least_event :: "calendar_scheduler \<Rightarrow> nat \<Rightarrow> event \<Rightarrow> event" where
  "least_event q k m = (case nxt q k of None \<Rightarrow> m
     | Some e \<Rightarrow> if key_less (key e) (key m) then e else m)"

lemma least_None: "nxt q k = None \<Longrightarrow> least q k m = m" "nxt q k = None \<Longrightarrow> least_event q k e = e"
  by (simp_all add: least_def least_event_def)

lemma least_Some:
  "nxt q k = Some e \<Longrightarrow> least q k m = (if key_less (key e) (fst m) then (key e, Some (idx q k)) else m)"
  "nxt q k = Some e \<Longrightarrow> least_event q k x = (if key_less (key e) (key x) then e else x)"
  by (simp_all add: least_def least_event_def)

lemma unat_idx: "buckets_ok q \<Longrightarrow> unat (idx q k) = (today q + k) mod nb q"
proof -
  assume "buckets_ok q"
  note o = buckets_okD(2,3) [OF this]
  have "(today q + k) mod nb q < nb q" using o(1) by (rule mod_less_divisor)
  then have "(today q + k) mod nb q < 2 ^ 32" using o(2) by simp
  then show ?thesis unfolding idx_def unat_of_nat by (intro mod_less) simp
qed

lemma idx_Suc: "buckets_ok q \<Longrightarrow> (idx q k + 1) mod m_nBuckets q = idx q (Suc k)"
proof -
  assume ok: "buckets_ok q"
  note o = buckets_okD(2,3) [OF ok]
  have "(today q + k) mod nb q < nb q" using o(1) by (rule mod_less_divisor)
  then have "(today q + k) mod nb q + 1 < 2 ^ 32" using o(2) by simp
  then have "unat (idx q k + 1) = (today q + k) mod nb q + 1"
    unfolding unat_word_ariths unat_idx [OF ok] by simp
  then have "unat ((idx q k + 1) mod m_nBuckets q) = ((today q + k) mod nb q + 1) mod nb q"
    by (simp add: unat_mod_distrib)
  also have "\<dots> = unat (idx q (Suc k))" unfolding unat_idx [OF ok] by (simp add: mod_simps)
  finally show ?thesis by (simp add: word_unat_eq_iff)
qed

lemma front_idx:
  assumes "buckets_ok q" "front_ok q"
  shows "m_lastBucket q = idx q 0" "m_bucketTop q = top_of q 0"
proof -
  show "m_lastBucket q = idx q 0"
    using assms unat_idx [OF assms(1), of 0] unat_Hash [OF buckets_okD(2) [OF assms(1)]]
    by (simp add: front_ok_def word_unat_eq_iff)
  show "m_bucketTop q = top_of q 0"
    using assms by (simp add: front_ok_def top_of_def day_def word_arith_nat_div [of "m_lastPrio q"] distrib_right)
qed

lemma idx_wraps:
  assumes "buckets_ok q" "front_ok q" "k < nb q"
  shows "idx q (Suc k) = m_lastBucket q \<longleftrightarrow> Suc k = nb q"
proof -
  have "idx q (Suc k) = m_lastBucket q \<longleftrightarrow> (today q + Suc k) mod nb q = today q mod nb q"
    using unat_idx [OF assms(1)] by (simp add: front_idx [OF assms(1,2)] word_unat_eq_iff)
  also have "\<dots> \<longleftrightarrow> nb q dvd Suc k"
    by (metis add.commute add_diff_cancel_left' le_add1 mod_eq_dvd_iff_nat)
  also have "\<dots> \<longleftrightarrow> Suc k = nb q" using assms(3) by (auto dest: dvd_imp_le)
  finally show ?thesis .
qed

lemma top_Suc: "top_of q k + m_width q = top_of q (Suc k)"
  by (simp add: top_of_def algebra_simps)

lemma RemoveNext_loop_eq:
  assumes "buckets_ok q" "front_ok q" "k < nb q"
  shows "RemoveNext_loop (nb q - k) (idx q k) (top_of q k) mk mb q =
    Some (case find (hit q) [k..<nb q] of
        Some j \<Rightarrow> Inl (idx q j, top_of q j, the (nxt q j))
      | None \<Rightarrow> Inr (fold (least q) [k..<nb q] (mk, mb)))"
  using assms(3)
proof (induction "nb q - Suc k" arbitrary: k mk mb)
  case 0
  then have "nb q - k = Suc 0" "[k..<nb q] = [k]" "Suc k = nb q" by (simp_all add: upt_conv_Cons)
  then show ?case
    using idx_wraps [OF assms(1,2), of k]
    by (auto simp: idx_Suc [OF assms(1)] unat_idx [OF assms(1)] nxt_def [symmetric] hit_def least_def Let_def
        split: option.splits)
next
  case (Suc r)
  then have n: "nb q - k = Suc (nb q - Suc k)" "[k..<nb q] = k # [Suc k..<nb q]" "Suc k < nb q" "r = nb q - Suc (Suc k)"
    by (simp_all add: upt_conv_Cons)
  have "idx q (Suc k) \<noteq> m_lastBucket q" using idx_wraps [OF assms(1,2) Suc.prems] n(3) by simp
  then show ?case
    unfolding n(1,2) using Suc.hyps(1) [OF n(4,3)]
    by (auto simp: idx_Suc [OF assms(1)] unat_idx [OF assms(1)] nxt_def [symmetric] hit_def least_def Let_def top_Suc
        split: option.splits)
qed

lemma PeekNext_loop_eq:
  assumes "buckets_ok q" "front_ok q" "k < nb q"
  shows "PeekNext_loop (nb q - k) (idx q k) (top_of q k) m q =
    Some (case find (hit q) [k..<nb q] of
        Some j \<Rightarrow> the (nxt q j) | None \<Rightarrow> fold (least_event q) [k..<nb q] m)"
  using assms(3)
proof (induction "nb q - Suc k" arbitrary: k m)
  case 0
  then have "nb q - k = Suc 0" "[k..<nb q] = [k]" "Suc k = nb q" by (simp_all add: upt_conv_Cons)
  then show ?case
    using idx_wraps [OF assms(1,2), of k]
    by (auto simp: idx_Suc [OF assms(1)] unat_idx [OF assms(1)] nxt_def [symmetric] hit_def least_event_def Let_def
        split: option.splits)
next
  case (Suc r)
  then have n: "nb q - k = Suc (nb q - Suc k)" "[k..<nb q] = k # [Suc k..<nb q]" "Suc k < nb q" "r = nb q - Suc (Suc k)"
    by (simp_all add: upt_conv_Cons)
  have "idx q (Suc k) \<noteq> m_lastBucket q" using idx_wraps [OF assms(1,2) Suc.prems] n(3) by simp
  then show ?case
    unfolding n(1,2) using Suc.hyps(1) [OF n(4,3)]
    by (auto simp: idx_Suc [OF assms(1)] unat_idx [OF assms(1)] nxt_def [symmetric] hit_def least_event_def Let_def top_Suc
        split: option.splits)
qed

lemma nxt_SomeD:
  assumes "buckets_ok q" "nxt q k = Some e"
  shows "e \<in> set (m_buckets q ! ((today q + k) mod nb q))" "e \<in> set (all_events q)"
    "day q (m_ts (key e)) mod nb q = (today q + k) mod nb q"
    "x \<in> set (m_buckets q ! ((today q + k) mod nb q)) \<Longrightarrow> rank e \<le> rank x"
proof -
  note o = buckets_okD [OF assms(1)]
  let ?i = "(today q + k) mod nb q"
  have i: "?i < nb q" using o(2) by (rule mod_less_divisor)
  obtain es where c: "chron (m_reverse q) (m_buckets q ! ?i) = e # es"
    using assms(2) by (auto simp: nxt_def NextEvent_chron split: list.splits)
  have set: "set (m_buckets q ! ?i) = set (e # es)" unfolding c [symmetric] by simp
  then show e: "e \<in> set (m_buckets q ! ?i)" by simp
  then show "e \<in> set (all_events q)" unfolding in_all_events using i o(1) by auto
  show "day q (m_ts (key e)) mod nb q = ?i" using o(7) [OF i e] unat_Hash [OF o(2)] by simp
  show "x \<in> set (m_buckets q ! ?i) \<Longrightarrow> rank e \<le> rank x"
    using o(6) [OF i] sorted_by_hd_least [of rank e es x] unfolding set c by blast
qed

lemma nxt_exists:
  assumes "buckets_ok q" "x \<in> set (m_buckets q ! ((today q + k) mod nb q))"
  obtains e where "nxt q k = Some e" "rank e \<le> rank x"
proof -
  have "m_buckets q ! ((today q + k) mod nb q) \<noteq> []" using assms(2) by auto
  then obtain e where "nxt q k = Some e" by (auto simp: nxt_def NextEvent_def)
  with that nxt_SomeD(4) [OF assms(1) this assms(2)] show thesis by blast
qed

lemma event_day:
  assumes "buckets_ok q" "front_ok q" "x \<in> set (all_events q)"
  shows "today q \<le> day q (m_ts (key x))" "x \<in> set (m_buckets q ! (day q (m_ts (key x)) mod nb q))"
proof -
  have "m_lastPrio q \<le> m_ts (key x)" using assms(2,3) by (auto simp: front_ok_def)
  then show "today q \<le> day q (m_ts (key x))"
    by (simp add: day_def word_le_nat_alt div_le_mono)
  obtain i where "i < nb q" "x \<in> set (m_buckets q ! i)"
    using assms(3) buckets_okD(1) [OF assms(1)] unfolding in_all_events by auto
  then show "x \<in> set (m_buckets q ! (day q (m_ts (key x)) mod nb q))"
    using buckets_okD(7) [OF assms(1)] unat_Hash [OF buckets_okD(2) [OF assms(1)]] by metis
qed

lemma day_less: "buckets_ok q \<Longrightarrow> unat ts < d * unat (m_width q) \<longleftrightarrow> day q ts < d"
  using buckets_okD(4) [of q] by (simp add: day_def div_less_iff_less_mult)

lemma day_less_ts: "day q a < day q b \<Longrightarrow> a < b"
  unfolding day_def word_less_nat_alt by (metis div_le_mono not_less)

lemma unat_top: "unat (top_of q k) = ((today q + k + 1) * unat (m_width q)) mod 2 ^ 64"
  unfolding top_of_def unat_of_nat by simp

text \<open>A top that wrapped around is below every event of its bucket, so that a hit is exact.\<close>

lemma hit_day:
  assumes "buckets_ok q" "front_ok q" "k < nb q" "nxt q k = Some e" "hit q k"
  shows "day q (m_ts (key e)) = today q + k" and "(today q + k + 1) * unat (m_width q) < 2 ^ 64"
proof -
  define T where "T = (today q + k + 1) * unat (m_width q)"
  have "unat (m_ts (key e)) < unat (top_of q k)"
    using assms(4,5) by (simp add: hit_def word_less_nat_alt)
  then have lt: "unat (m_ts (key e)) < T mod 2 ^ 64" unfolding unat_top T_def .
  also have "\<dots> \<le> T" by (rule mod_less_eq_dividend)
  finally have "day q (m_ts (key e)) < today q + k + 1" unfolding T_def day_less [OF assms(1)] .
  moreover have le: "today q \<le> day q (m_ts (key e))"
    using event_day(1) [OF assms(1,2)] nxt_SomeD(2) [OF assms(1,4)] by blast
  ultimately have d: "day q (m_ts (key e)) - today q < nb q" "today q + (day q (m_ts (key e)) - today q) = day q (m_ts (key e))"
    using assms(3) by simp_all
  have "(today q + (day q (m_ts (key e)) - today q)) mod nb q = (today q + k) mod nb q"
    using nxt_SomeD(3) [OF assms(1,4)] d(2) by simp
  then have "day q (m_ts (key e)) - today q = k"
    using mod_add_inj [OF d(1) assms(3)] by blast
  then show day: "day q (m_ts (key e)) = today q + k" using d(2) by simp
  show "(today q + k + 1) * unat (m_width q) < 2 ^ 64"
  proof (rule ccontr)
    assume "\<not> ?thesis"
    then have big: "2 ^ 64 \<le> T" by (simp add: T_def)
    have w: "unat (m_width q) < 2 ^ 64" using unsigned_less [of "m_width q"] by simp
    have ts: "unat (m_ts (key e)) < 2 ^ 64" using unsigned_less [of "m_ts (key e)"] by simp
    have ge: "T \<le> unat (m_ts (key e)) + unat (m_width q)"
      using day_less [OF assms(1), of "m_ts (key e)" "today q + k"] day by (simp add: T_def algebra_simps)
    then have "T - 2 ^ 64 < 2 ^ 64" using w ts by linarith
    then have "T mod 2 ^ 64 = T - 2 ^ 64" using big by (metis le_mod_geq mod_less)
    then show False using lt ge w big by linarith
  qed
qed

lemma hit_least:
  assumes "buckets_ok q" "front_ok q" "k < nb q" "nxt q k = Some e" "hit q k"
    and "\<forall>i<k. \<not> hit q i" and x: "x \<in> set (all_events q)"
  shows "rank e \<le> rank x"
proof -
  note day = hit_day [OF assms(1-5)]
  note xd = event_day [OF assms(1,2) x]
  consider "day q (m_ts (key x)) < today q + k" | "day q (m_ts (key x)) = today q + k"
    | "today q + k < day q (m_ts (key x))" by linarith
  then show ?thesis
  proof cases
    case 1
    define i where "i = day q (m_ts (key x)) - today q"
    have i: "today q + i = day q (m_ts (key x))" "i < k" using 1 xd(1) by (simp_all add: i_def)
    obtain y where y: "nxt q i = Some y" "rank y \<le> rank x"
      using nxt_exists [OF assms(1), of x i] xd(2) unfolding i(1) by blast
    have "(today q + i + 1) * unat (m_width q) \<le> (today q + k + 1) * unat (m_width q)"
      using i(2) by (intro mult_le_mono) simp_all
    then have "(today q + i + 1) * unat (m_width q) < 2 ^ 64" using day(2) by (rule le_less_trans)
    then have "unat (top_of q i) = (today q + i + 1) * unat (m_width q)"
      unfolding top_of_def unat_of_nat by (intro mod_less) simp
    moreover have "\<not> hit q i" using assms(6) i(2) by blast
    then have "unat (top_of q i) \<le> unat (m_ts (key y))" using y(1) by (simp add: hit_def word_le_nat_alt not_less)
    moreover have "m_ts (key y) \<le> m_ts (key x)" using y(2) by (rule rank_le_ts)
    then have "unat (m_ts (key y)) \<le> unat (m_ts (key x))" by (simp add: word_le_nat_alt)
    ultimately have "\<not> unat (m_ts (key x)) < (today q + i + 1) * unat (m_width q)" by linarith
    then show ?thesis unfolding day_less [OF assms(1)] i(1) by simp
  next
    case 2
    then show ?thesis using nxt_SomeD(4) [OF assms(1,4), of x] xd(2) by simp
  next
    case 3
    then have "m_ts (key e) < m_ts (key x)" using day(1) day_less_ts [of q "m_ts (key e)" "m_ts (key x)"] by simp
    then show ?thesis by (simp add: rank_def less_eq_prod_def)
  qed
qed

text \<open>Without a hit the search keeps the least of the events that are next in their buckets.\<close>

lemma least_rank:
  assumes "(case mb of None \<Rightarrow> mk = dummy \<and> (\<forall>j\<in>set js. nxt q j = None)
      | Some i \<Rightarrow> \<exists>j\<in>set js. \<exists>e. nxt q j = Some e \<and> i = idx q j \<and> mk = key e \<and>
          (\<forall>j'\<in>set js. \<forall>e'. nxt q j' = Some e' \<longrightarrow> rank e \<le> rank e'))"
    and "\<And>e. nxt q k = Some e \<Longrightarrow> key_less (key e) dummy"
  shows "(case least q k (mk, mb) of
        (mk', None) \<Rightarrow> mk' = dummy \<and> (\<forall>j\<in>set (js @ [k]). nxt q j = None)
      | (mk', Some i) \<Rightarrow> \<exists>j\<in>set (js @ [k]). \<exists>e. nxt q j = Some e \<and> i = idx q j \<and> mk' = key e \<and>
          (\<forall>j'\<in>set (js @ [k]). \<forall>e'. nxt q j' = Some e' \<longrightarrow> rank e \<le> rank e'))"
proof (cases "nxt q k")
  case None
  then show ?thesis using assms(1) by (auto simp: least_def split: option.splits)
next
  case (Some e)
  show ?thesis
  proof (cases mb)
    case None
    then show ?thesis using assms(1) assms(2) [OF Some] Some by (auto simp: least_def)
  next
    case (Some i)
    then obtain j x where x: "j \<in> set js" "nxt q j = Some x" "i = idx q j" "mk = key x"
      "\<forall>j'\<in>set js. \<forall>e'. nxt q j' = Some e' \<longrightarrow> rank x \<le> rank e'"
      using assms(1) by auto
    show ?thesis
    proof (cases "rank e < rank x")
      case True
      then have "\<forall>j'\<in>set js. \<forall>e'. nxt q j' = Some e' \<longrightarrow> rank e \<le> rank e'"
        using x(5) by (meson less_imp_le order_trans)
      then show ?thesis using True \<open>nxt q k = Some e\<close> x(4) by (auto simp: least_def key_less_rank)
    next
      case False
      then have "least q k (mk, mb) = (mk, Some i)"
        using \<open>nxt q k = Some e\<close> x(4) Some by (simp add: least_def key_less_rank)
      moreover have "\<forall>j'\<in>set (js @ [k]). \<forall>e'. nxt q j' = Some e' \<longrightarrow> rank x \<le> rank e'"
        using x(5) False \<open>nxt q k = Some e\<close> by auto
      ultimately show ?thesis using x(1-4) by auto
    qed
  qed
qed

lemma fold_least:
  assumes "\<And>j e. nxt q j = Some e \<Longrightarrow> key_less (key e) dummy"
  shows "(case fold (least q) js (dummy, None) of
        (mk, None) \<Rightarrow> mk = dummy \<and> (\<forall>j\<in>set js. nxt q j = None)
      | (mk, Some i) \<Rightarrow> \<exists>j\<in>set js. \<exists>e. nxt q j = Some e \<and> i = idx q j \<and> mk = key e \<and>
          (\<forall>j'\<in>set js. \<forall>e'. nxt q j' = Some e' \<longrightarrow> rank e \<le> rank e'))"
proof (induction js rule: rev_induct)
  case (snoc k js)
  obtain mk mb where m: "fold (least q) js (dummy, None) = (mk, mb)" by fastforce
  have step: "fold (least q) (js @ [k]) (dummy, None) = least q k (mk, mb)" by (simp add: m)
  have IH: "case mb of None \<Rightarrow> mk = dummy \<and> (\<forall>j\<in>set js. nxt q j = None)
      | Some i \<Rightarrow> \<exists>j\<in>set js. \<exists>e. nxt q j = Some e \<and> i = idx q j \<and> mk = key e \<and>
          (\<forall>j'\<in>set js. \<forall>e'. nxt q j' = Some e' \<longrightarrow> rank e \<le> rank e')"
    using snoc unfolding m by simp
  show ?case unfolding step by (rule least_rank [OF IH assms])
qed simp

text \<open>\<open>PeekNext\<close> keeps the event where \<open>DoRemoveNext\<close> keeps its key and bucket.\<close>

lemma fold_least_event:
  assumes ok: "buckets_ok q" and d: "\<And>j e. nxt q j = Some e \<Longrightarrow> key_less (key e) dummy \<and> key_less (key e) (key m)"
  shows "(case fold (least q) js (dummy, None) of
        (mk, None) \<Rightarrow> mk = dummy \<and> fold (least_event q) js m = m
      | (mk, Some i) \<Rightarrow> key (fold (least_event q) js m) = mk \<and>
          NextEvent (m_reverse q) (m_buckets q ! unat i) = Some (fold (least_event q) js m))"
proof (induction js rule: rev_induct)
  case (snoc k js)
  obtain mk mb where f: "fold (least q) js (dummy, None) = (mk, mb)" by fastforce
  note k = nxt_def [of q k, folded unat_idx [OF ok]]
  show ?case
  proof (cases "nxt q k")
    case None
    then have "fold (least q) (js @ [k]) (dummy, None) = (mk, mb)"
      "fold (least_event q) (js @ [k]) m = fold (least_event q) js m"
      using f by (simp_all add: least_None)
    then show ?thesis using snoc f by simp
  next
    case (Some e)
    then have "fold (least q) (js @ [k]) (dummy, None) = (if key_less (key e) mk then (key e, Some (idx q k)) else (mk, mb))"
      "fold (least_event q) (js @ [k]) m =
        (if key_less (key e) (key (fold (least_event q) js m)) then e else fold (least_event q) js m)"
      using f by (simp_all add: least_Some)
    then show ?thesis
      using snoc d [OF Some] k Some by (cases mb) (auto simp: f)
  qed
qed simp

lemma find_round:
  "find P [0..<n] = Some j \<Longrightarrow> j < n \<and> P j \<and> (\<forall>i<j. \<not> P i)"
  by (auto simp: find_Some_iff)

text \<open>The state after the event \<open>e\<close> has been taken from the queue.\<close>

definition taken :: "event \<Rightarrow> calendar_scheduler \<Rightarrow> calendar_scheduler" where
  "taken e q = pop_bucket (Hash (m_ts (key e)) q)
     (q\<lparr>m_lastPrio := m_ts (key e), m_lastBucket := Hash (m_ts (key e)) q,
        m_bucketTop := (m_ts (key e) div m_width q + 1) * m_width q\<rparr>)"

lemma taken_eq:
  "taken e q = pop_bucket (Hash (m_ts (key e)) q)
     (q\<lparr>m_lastBucket := Hash (m_ts (key e)) q, m_lastPrio := m_ts (key e),
        m_bucketTop := (m_ts (key e) div m_width q + 1) * m_width q\<rparr>)"
  unfolding taken_def by (rule arg_cong [where f = "pop_bucket _"]) (cases q, simp)

abbreviation min_key :: event_key where
  "min_key \<equiv> \<lparr>m_ts = - 1, m_uid = 0, m_context = 0xffffffff\<rparr>"

lemma search_ok:
  assumes ok: "buckets_ok q" and front: "front_ok q" and ne: "all_events q \<noteq> []" and size: "m_qSize q \<noteq> 0"
  obtains e where "DoRemoveNext q = Some (e, taken e q)" "Calendar_PeekNext q = Some e" "e \<in> set (all_events q)"
    "\<And>x. x \<in> set (all_events q) \<Longrightarrow> rank e \<le> rank x"
    "NextEvent (m_reverse q) (m_buckets q ! unat (Hash (m_ts (key e)) q)) = Some e"
proof -
  note o = buckets_okD [OF ok]
  note f = front_idx [OF ok front]
  have h: "unat (Hash ts q) = day q ts mod nb q" for ts by (rule unat_Hash [OF o(2)])
  have at: "NextEvent (m_reverse q) (m_buckets q ! unat (Hash (m_ts (key e)) q)) = Some e \<and>
      idx q j = Hash (m_ts (key e)) q" if "nxt q j = Some e" for j e
    using that nxt_SomeD(3) [OF ok that] unat_idx [OF ok, of j] by (simp add: nxt_def h word_unat_eq_iff)
  have k: "idx q 0 = m_lastBucket q" "top_of q 0 = m_bucketTop q" "nb q - 0 = nb q" using f by simp_all
  note remove = RemoveNext_loop_eq [OF ok front o(2), of min_key None, unfolded k]
  let ?none = "\<lparr>impl = None, key = \<lparr>m_ts = - 1, m_uid = - 1, m_context = 0\<rparr>\<rparr> :: event"
  note peek = PeekNext_loop_eq [OF ok front o(2), of ?none, unfolded k]
  show thesis
  proof (cases "find (hit q) [0..<nb q]")
    case (Some j)
    note j = find_round [OF Some]
    then obtain e where e: "nxt q j = Some e" by (auto simp: hit_def split: option.splits)
    have "top_of q j = (m_ts (key e) div m_width q + 1) * m_width q"
      using hit_day(1) [OF ok front _ e] j
      by (simp add: top_of_def word_arith_nat_div day_def [symmetric] algebra_simps)
    then have "DoRemoveNext q = Some (e, taken e q)"
      using remove at [OF e] size Some e by (simp add: DoRemoveNext_def Calendar_IsEmpty_def taken_eq)
    moreover have "Calendar_PeekNext q = Some e"
      using peek size Some e by (simp add: Calendar_PeekNext_def Calendar_IsEmpty_def)
    ultimately show thesis
      using that [of e] nxt_SomeD(2) [OF ok e] hit_least [OF ok front _ e] j at [OF e] by blast
  next
    case None
    have dummy: "key_less (key e) min_key \<and> key_less (key e) (key ?none)" if "nxt q j = Some e" for j e
      using o(8) [OF nxt_SomeD(2) [OF ok that]] by (simp add: key_less_def)
    obtain mk mb where m: "fold (least q) [0..<nb q] (min_key, None) = (mk, mb)" by fastforce
    obtain x where x: "x \<in> set (all_events q)" using ne by (cases "all_events q") auto
    have round: "\<exists>j<nb q. \<exists>e. nxt q j = Some e \<and> rank e \<le> rank x" if x: "x \<in> set (all_events q)" for x
    proof -
      note d = event_day [OF ok front x]
      define j where "j = (day q (m_ts (key x)) - today q) mod nb q"
      have "(today q + j) mod nb q = day q (m_ts (key x)) mod nb q"
        using d(1) by (simp add: j_def mod_simps)
      then have "x \<in> set (m_buckets q ! ((today q + j) mod nb q))" using d(2) by simp
      from nxt_exists [OF ok this] show ?thesis using o(2) by (metis j_def mod_less_divisor)
    qed
    have lst: "case mb of None \<Rightarrow> \<forall>j\<in>set [0..<nb q]. nxt q j = None
        | Some i \<Rightarrow> \<exists>j\<in>set [0..<nb q]. \<exists>e. nxt q j = Some e \<and> i = idx q j \<and> mk = key e \<and>
          (\<forall>j'\<in>set [0..<nb q]. \<forall>e'. nxt q j' = Some e' \<longrightarrow> rank e \<le> rank e')"
      using fold_least [of q min_key "[0..<nb q]"] dummy unfolding m by (cases mb) auto
    then obtain i where mb: "mb = Some i" using round [OF x] by (cases mb) fastforce+
    then obtain j e where e: "nxt q j = Some e" "i = idx q j" "mk = key e"
      "\<And>j' e'. j' < nb q \<Longrightarrow> nxt q j' = Some e' \<Longrightarrow> rank e \<le> rank e'"
      using lst by auto
    have "fold (least_event q) [0..<nb q] ?none = e"
      using fold_least_event [where q = q and dummy = min_key and m = ?none and js = "[0..<nb q]", OF ok dummy]
        at [OF e(1)] unfolding m mb e(2) by simp
    then have "Calendar_PeekNext q = Some e"
      using peek size None by (simp add: Calendar_PeekNext_def Calendar_IsEmpty_def)
    moreover have "DoRemoveNext q = Some (e, taken e q)"
      using remove at [OF e(1)] size None unfolding m mb
      by (simp add: DoRemoveNext_def Calendar_IsEmpty_def taken_def e(2,3))
    moreover have "rank e \<le> rank x" if "x \<in> set (all_events q)" for x
      using round [OF that] e(4) by (meson order_trans)
    ultimately show thesis
      using that [of e] nxt_SomeD(2) [OF ok e(1)] at [OF e(1)] by blast
  qed
qed

lemma taken_sel [simp]:
  "m_nBuckets (taken e q) = m_nBuckets q" "m_width (taken e q) = m_width q" "m_reverse (taken e q) = m_reverse q"
  "m_qSize (taken e q) = m_qSize q" "m_lastPrio (taken e q) = m_ts (key e)"
  by (simp_all add: taken_def pop_bucket_def)

lemma buckets_ok_front [simp]:
  "buckets_ok (q\<lparr>m_lastPrio := p, m_lastBucket := l, m_bucketTop := t\<rparr>) = buckets_ok q"
  "buckets_ok (q\<lparr>m_lastBucket := l, m_bucketTop := t, m_lastPrio := p\<rparr>) = buckets_ok q"
  "buckets_ok (q\<lparr>m_qSize := z\<rparr>) = buckets_ok q"
  by (simp_all add: buckets_ok_def Hash_def)

lemma taken_ok:
  assumes ok: "buckets_ok q" and e: "e \<in> set (all_events q)" "\<And>x. x \<in> set (all_events q) \<Longrightarrow> rank e \<le> rank x"
    and nx: "NextEvent (m_reverse q) (m_buckets q ! unat (Hash (m_ts (key e)) q)) = Some e"
  shows "buckets_ok (taken e q)" "front_ok (taken e q)"
    "mset (all_events q) = add_mset e (mset (all_events (taken e q)))"
proof -
  note o = buckets_okD [OF ok]
  define i where "i = unat (Hash (m_ts (key e)) q)"
  have i: "i < nb q" unfolding i_def using o(2) by (rule Hash_less)
  let ?b = "m_buckets q ! i" let ?b' = "Pop (m_reverse q) ?b"
  let ?q = "q\<lparr>m_lastPrio := m_ts (key e), m_lastBucket := Hash (m_ts (key e)) q,
        m_bucketTop := (m_ts (key e) div m_width q + 1) * m_width q\<rparr>"
  obtain es where c: "chron (m_reverse q) ?b = e # es"
    using nx by (auto simp: i_def NextEvent_chron split: list.splits)
  then have c': "chron (m_reverse q) ?b' = es" by (simp add: chron_Pop)
  have m: "mset ?b = add_mset e (mset ?b')"
  proof -
    have "mset (chron r b) = mset b" for r b by (simp add: chron_def)
    then show ?thesis using c c' by (metis mset.simps(2))
  qed
  have s: "sorted_by rank (chron (m_reverse ?q) ?b')" using o(6) [OF i] by (simp add: c c')
  have b': "unat (Hash (m_ts (key x)) ?q) = i \<and> m_ts (key x) < - 1" if "x \<in> set ?b'" for x
  proof -
    have "x \<in> set ?b" using that m by (metis insert_iff set_mset_add_mset_insert set_mset_mset)
    moreover have "Hash (m_ts (key x)) ?q = Hash (m_ts (key x)) q" by (rule Hash_cong) simp_all
    ultimately show ?thesis using o(7) [OF i] o(8) [of x] i o(1) unfolding in_all_events by auto
  qed
  have xs: "mset (remove1 e (all_events q)) + mset (m_buckets ?q ! i) = mset (all_events ?q) + mset ?b'"
    using e(1) m by (simp del: set_concat)
  have d: "distinct (map uid (remove1 e (all_events q)))"
    using o(5) by (auto simp: distinct_map distinct_remove1 intro: inj_on_diff)
  have eq: "taken e q = ?q\<lparr>m_buckets := (m_buckets ?q)[i := ?b']\<rparr>"
    by (simp add: taken_def pop_bucket_def i_def)
  have ok': "buckets_ok ?q" using ok by simp
  have i': "i < nb ?q" using i by simp
  note u = buckets_ok_update [OF ok' i' s b' xs d]
  show "buckets_ok (taken e q)" unfolding eq by (rule u(1))
  have all: "mset (all_events (taken e q)) = mset (remove1 e (all_events q))" unfolding eq by (rule u(2))
  then show "mset (all_events q) = add_mset e (mset (all_events (taken e q)))"
    using e(1) by (simp del: set_concat)
  have "set (all_events (taken e q)) \<subseteq> set (all_events q)"
    using mset_eq_setD [OF all] set_remove1_subset by metis
  then have "m_ts (key e) \<le> m_ts (key x)" if "x \<in> set (all_events (taken e q))" for x
    using e(2) [THEN rank_le_ts] that by blast
  moreover have "Hash ts (taken e q) = Hash ts q" for ts by (rule Hash_cong) simp_all
  ultimately show "front_ok (taken e q)" unfolding front_ok_def by (simp add: taken_def pop_bucket_def)
qed

lemma gather_ok:
  assumes "buckets_ok q" "front_ok q" "n \<le> length (all_events q)" "m_qSize q \<noteq> 0"
  shows "\<exists>es q'. gather n q = Some (es, q') \<and> buckets_ok q' \<and> mset (all_events q) = mset es + mset (all_events q') \<and>
    m_nBuckets q' = m_nBuckets q \<and> m_width q' = m_width q \<and> m_reverse q' = m_reverse q \<and> m_qSize q' = m_qSize q"
  using assms
proof (induction n arbitrary: q)
  case (Suc n)
  then have "0 < length (all_events q)" by linarith
  then have "all_events q \<noteq> []" by (rule length_greater_0_conv [THEN iffD1])
  then obtain e where e: "DoRemoveNext q = Some (e, taken e q)" "e \<in> set (all_events q)"
    "\<And>x. x \<in> set (all_events q) \<Longrightarrow> rank e \<le> rank x"
    "NextEvent (m_reverse q) (m_buckets q ! unat (Hash (m_ts (key e)) q)) = Some e"
    using search_ok [OF Suc.prems(1,2) _ Suc.prems(4)] by blast
  note k = taken_ok [OF Suc.prems(1) e(2-4)]
  have "length (all_events q) = Suc (length (all_events (taken e q)))"
    using arg_cong [OF k(3), of size] by (simp del: length_concat)
  then have "n \<le> length (all_events (taken e q))" using Suc.prems(3) by simp
  with Suc.IH [OF k(1,2)] Suc.prems(4) obtain es q' where
    "gather n (taken e q) = Some (es, q')" "buckets_ok q'" "mset (all_events (taken e q)) = mset es + mset (all_events q')"
    "m_nBuckets q' = m_nBuckets q" "m_width q' = m_width q" "m_reverse q' = m_reverse q" "m_qSize q' = m_qSize q"
    by (metis taken_sel)
  then show ?case using e(1) k(3) by (auto simp del: set_concat)
qed simp

subsection \<open>Resizing keeps the events\<close>

lemma nSamples_le: "2 \<le> unat n \<Longrightarrow> unat (nSamples n) \<le> unat n"
proof -
  assume n: "2 \<le> unat n"
  have big: "unat (5 + n div 10) = 5 + unat n div 10" if "\<not> n \<le> 5"
  proof -
    have "unat n < 4294967296" using unat_lt32 [of n] by simp
    then have "unat n div 10 < 1073741824" by linarith
    then show ?thesis by (simp add: unat_word_ariths unat_div_distrib)
  qed
  show ?thesis
  proof (cases "n \<le> 5")
    case True
    then have "\<not> 25 < n" by (simp add: word_le_nat_alt word_less_nat_alt)
    then show ?thesis using True by (simp add: nSamples_def)
  next
    case False
    then have "5 < unat n" by (simp add: word_le_nat_alt)
    then have "5 + unat n div 10 \<le> unat n" by linarith
    then show ?thesis using big [OF False] False by (auto simp: nSamples_def Let_def word_less_nat_alt)
  qed
qed

text \<open>The queue between its operations, and the order that a client sees.\<close>

definition cal_core :: "calendar_scheduler \<Rightarrow> bool" where
  "cal_core q \<longleftrightarrow> buckets_ok q \<and> front_ok q \<and> unat (m_qSize q) = length (all_events q)"

lemma CalculateNewWidth_ok:
  assumes "cal_core q"
  shows "\<exists>w q'. CalculateNewWidth q = Some (w, q') \<and> 0 < unat w \<and> buckets_ok q' \<and>
    mset (all_events q') = mset (all_events q) \<and> m_nBuckets q' = m_nBuckets q \<and>
    m_reverse q' = m_reverse q \<and> m_qSize q' = m_qSize q \<and> m_lastPrio q' = m_lastPrio q"
proof (cases "m_qSize q < 2")
  case True
  then show ?thesis using assms by (auto simp: CalculateNewWidth_def cal_core_def)
next
  case False
  then have two: "2 \<le> unat (m_qSize q)" by (simp add: word_less_nat_alt)
  have ok: "buckets_ok q" "front_ok q" "unat (m_qSize q) = length (all_events q)" using assms by (simp_all add: cal_core_def)
  have "unat (nSamples (m_qSize q)) \<le> length (all_events q)" using nSamples_le [OF two] ok(3) by simp
  moreover have "m_qSize q \<noteq> 0" using two by auto
  ultimately obtain es q1 where g: "gather (unat (nSamples (m_qSize q))) q = Some (es, q1)" "buckets_ok q1"
    "mset (all_events q) = mset (es @ all_events q1)" "m_nBuckets q1 = m_nBuckets q" "m_reverse q1 = m_reverse q"
    "m_qSize q1 = m_qSize q"
    using gather_ok [OF ok(1,2)] by (metis mset_append)
  have "distinct (map uid (es @ all_events q1))" using distinct_uid_mset [OF g(3)] buckets_okD(5) [OF ok(1)] by blast
  moreover have "\<forall>e\<in>set es. m_ts (key e) < - 1"
    using mset_eq_setD [OF g(3)] buckets_okD(8) [OF ok(1)] by auto
  ultimately have f: "buckets_ok (fold DoInsert es q1)"
    "mset (all_events (fold DoInsert es q1)) = mset es + mset (all_events q1)"
    using fold_DoInsert_ok [OF g(2)] by blast+
  have "1 \<le> new_width es n" for n by (simp add: new_width_def Let_def)
  then have "0 < unat (new_width es n)" for n by (metis unat_gt_0 word_less_1 not_le)
  then show ?thesis using False g f by (simp add: CalculateNewWidth_def)
qed

lemma fold_buckets: "fold (\<lambda>b. fold DoInsert b) bs q = fold DoInsert (concat bs) q"
  by (induction bs arbitrary: q) simp_all

lemma Init_ok:
  assumes "0 < unat n" "unat n \<le> 65536" "0 < unat w"
  shows "buckets_ok (Calendar_Init n w p q)" and "all_events (Calendar_Init n w p q) = []"
    and "front_ok (Calendar_Init n w p q)" and "m_qSize (Calendar_Init n w p q) = m_qSize q"
    and "m_reverse (Calendar_Init n w p q) = m_reverse q" and "m_lastPrio (Calendar_Init n w p q) = p"
  using assms by (auto simp: Calendar_Init_def Let_def buckets_ok_def front_ok_def Hash_def chron_def)

lemma front_DoInsert:
  assumes "front_ok q" "mset (all_events (fold DoInsert es q)) = mset es + mset (all_events q)"
    and "\<forall>e\<in>set es. m_lastPrio q \<le> m_ts (key e)"
  shows "front_ok (fold DoInsert es q)"
proof -
  have "mset (all_events (fold DoInsert es q)) = mset (es @ all_events q)" using assms(2) by simp
  then have "set (all_events (fold DoInsert es q)) = set es \<union> set (all_events q)"
    unfolding set_append [symmetric] by (rule mset_eq_setD)
  then have "\<forall>e\<in>set (all_events (fold DoInsert es q)). m_lastPrio q \<le> m_ts (key e)"
    using assms(1,3) unfolding front_ok_def by blast
  moreover have "Hash ts (fold DoInsert es q) = Hash ts q" for ts by (rule Hash_cong) simp_all
  ultimately show ?thesis using assms(1) unfolding front_ok_def fold_DoInsert_sel by simp
qed

lemma Resize_ok:
  assumes core: "cal_core q" and n: "0 < unat n" "unat n \<le> 65536"
  shows "\<exists>q'. Resize n q = Some q' \<and> cal_core q' \<and> mset (all_events q') = mset (all_events q) \<and>
    m_lastPrio q' = m_lastPrio q \<and> m_qSize q' = m_qSize q"
proof -
  obtain w q1 where w: "CalculateNewWidth q = Some (w, q1)" "0 < unat w" "buckets_ok q1"
    "mset (all_events q1) = mset (all_events q)" "m_qSize q1 = m_qSize q" "m_lastPrio q1 = m_lastPrio q"
    using CalculateNewWidth_ok [OF core] by blast
  let ?q = "Calendar_Init n w (m_lastPrio q1) q1"
  note i = Init_ok [OF n w(2), of "m_lastPrio q1" q1]
  have s: "set (all_events q1) = set (all_events q)" using w(4) by (rule mset_eq_setD)
  have "distinct (map uid (all_events q1 @ all_events ?q))"
    using buckets_okD(5) [OF w(3)] by (simp only: i(2) append_Nil2)
  moreover have "\<forall>e\<in>set (all_events q1). m_ts (key e) < - 1" using buckets_okD(8) [OF w(3)] by blast
  ultimately have f: "buckets_ok (fold DoInsert (all_events q1) ?q)"
    "mset (all_events (fold DoInsert (all_events q1) ?q)) = mset (all_events q1) + mset (all_events ?q)"
    using fold_DoInsert_ok [OF i(1)] by blast+
  have m: "mset (all_events (fold DoInsert (all_events q1) ?q)) = mset (all_events q)"
    using f(2) w(4) i(2) by simp
  have fr: "front_ok (fold DoInsert (all_events q1) ?q)"
    by (rule front_DoInsert [OF i(3) f(2)]) (use core s i(6) w(6) in \<open>simp add: cal_core_def front_ok_def\<close>)
  have "length (all_events (fold DoInsert (all_events q1) ?q)) = length (all_events q)"
    using arg_cong [OF m, of size] by (simp only: size_mset)
  then have "cal_core (fold DoInsert (all_events q1) ?q)"
    using f(1) fr core w(5) i(4) unfolding cal_core_def by (simp only: fold_DoInsert_sel)
  then show ?thesis
    using w m i(4,6) by (simp add: Resize_def DoResize_def fold_buckets)
qed

subsection \<open>The operations\<close>

lemma cal_core_size:
  assumes "cal_core q"
  shows "m_qSize q = 0 \<longleftrightarrow> all_events q = []"
  using assms unfolding cal_core_def by (metis length_0_conv unat_eq_zero)

lemma Resizing_ok:
  assumes "cal_core q"
  shows "\<exists>q'. ResizeUp q = Some q' \<and> cal_core q' \<and> mset (all_events q') = mset (all_events q) \<and>
      m_lastPrio q' = m_lastPrio q \<and> m_qSize q' = m_qSize q"
    and "\<exists>q'. ResizeDown q = Some q' \<and> cal_core q' \<and> mset (all_events q') = mset (all_events q) \<and>
      m_lastPrio q' = m_lastPrio q \<and> m_qSize q' = m_qSize q"
proof -
  have n: "0 < nb q" "nb q \<le> 65536" using assms buckets_okD [of q] by (simp_all add: cal_core_def)
  show "\<exists>q'. ResizeUp q = Some q' \<and> cal_core q' \<and> mset (all_events q') = mset (all_events q) \<and>
      m_lastPrio q' = m_lastPrio q \<and> m_qSize q' = m_qSize q"
  proof (cases "m_qSize q > m_nBuckets q * 2 \<and> m_nBuckets q < 32768")
    case True
    then have "nb q < 32768" by (simp add: word_less_nat_alt)
    then have "unat (m_nBuckets q * 2) = nb q * 2" by (simp add: unat_word_ariths)
    then show ?thesis
      using Resize_ok [OF assms, of "m_nBuckets q * 2"] True n \<open>nb q < 32768\<close> by (simp add: ResizeUp_def)
  next
    case False
    then show ?thesis using assms by (auto simp: ResizeUp_def)
  qed
  show "\<exists>q'. ResizeDown q = Some q' \<and> cal_core q' \<and> mset (all_events q') = mset (all_events q) \<and>
      m_lastPrio q' = m_lastPrio q \<and> m_qSize q' = m_qSize q"
  proof (cases "m_qSize q < m_nBuckets q div 2")
    case True
    then have "0 < unat (m_nBuckets q div 2)" by (simp add: word_less_nat_alt)
    moreover have "unat (m_nBuckets q div 2) = nb q div 2" by (simp add: unat_div_distrib)
    then have "unat (m_nBuckets q div 2) \<le> 65536" using n(2) by linarith
    ultimately show ?thesis
      using Resize_ok [OF assms, of "m_nBuckets q div 2"] True by (simp add: ResizeDown_def)
  next
    case False
    then show ?thesis using assms by (auto simp: ResizeDown_def)
  qed
qed

text \<open>The invariant between operations for a client whose time is \<open>t\<close>, and its events in order.\<close>

definition cal_ok :: "64 word \<Rightarrow> calendar_scheduler \<Rightarrow> bool" where
  "cal_ok t q \<longleftrightarrow> cal_core q \<and> m_lastPrio q \<le> t \<and> (\<forall>e\<in>set (all_events q). t \<le> m_ts (key e))"

definition cal_events :: "calendar_scheduler \<Rightarrow> event list" where
  "cal_events q = sort_events (all_events q)"

lemma cal_events_unique:
  assumes "cal_core q" and "queue_ok es" and "mset (all_events q) = mset es"
  shows "cal_events q = es"
  unfolding cal_events_def
  using assms buckets_okD(5) [of q] mset_eq_setD [OF assms(3)] by (intro sort_events_unique) (simp_all add: cal_core_def)

lemma cal_events_ok: "cal_core q \<Longrightarrow> queue_ok (cal_events q)"
  using buckets_okD(5) [of q] by (simp add: cal_core_def cal_events_def queue_ok_sort_events)

lemma mset_cal_events: "mset (cal_events q) = mset (all_events q)"
  by (simp only: cal_events_def mset_sort_events)

lemma set_cal_events: "set (cal_events q) = set (all_events q)"
  by (simp only: cal_events_def set_sort_events)

lemma Calendar_Insert_ok:
  assumes "cal_ok t q" and "t \<le> m_ts (key ev)" and "m_ts (key ev) < - 1" and "length (cal_events q) + 1 < 2 ^ 32"
    and "uid ev \<notin> uid ` set (cal_events q)"
  shows "\<exists>q'. Calendar_Insert ev q = Some q' \<and> cal_ok t q' \<and> cal_events q' = insort_event ev (cal_events q)"
proof -
  have core: "buckets_ok q" "front_ok q" "unat (m_qSize q) = length (all_events q)"
    and t: "m_lastPrio q \<le> t" "\<forall>e\<in>set (all_events q). t \<le> m_ts (key e)"
    using assms(1) by (auto simp: cal_ok_def cal_core_def simp del: set_concat)
  have fresh: "uid ev \<notin> uid ` set (all_events q)" using assms(5) unfolding set_cal_events .
  note i = DoInsert_ok [OF core(1) fresh assms(3)]
  let ?q = "(DoInsert ev q)\<lparr>m_qSize := m_qSize q + 1\<rparr>"
  have f: "front_ok (DoInsert ev q)"
    using front_DoInsert [of q "[ev]"] core(2) i(2) t(1) assms(2) by simp
  have "length (all_events q) + 1 < 2 ^ 32"
    using assms(4) arg_cong [OF mset_cal_events, of size q] by (simp only: size_mset)
  then have "unat (m_qSize q + 1) = length (all_events q) + 1"
    using core(3) by (simp add: unat_word_ariths)
  moreover have "length (all_events (DoInsert ev q)) = length (all_events q) + 1"
    using arg_cong [OF i(2), of size] by (simp only: size_mset size_add_mset Suc_eq_plus1)
  ultimately have "cal_core ?q"
    using i(1) f by (simp add: cal_core_def front_ok_def Hash_def)
  from Resizing_ok(1) [OF this] obtain q' where q': "ResizeUp ?q = Some q'" "cal_core q'"
    "mset (all_events q') = add_mset ev (mset (all_events q))" "m_lastPrio q' = m_lastPrio q"
    using i(2) by auto
  have s: "set (all_events q') = insert ev (set (all_events q))"
    using arg_cong [OF q'(3), of set_mset] by (simp only: set_mset_mset set_mset_add_mset_insert)
  have "cal_ok t q'" unfolding cal_ok_def s using q'(2,4) t assms(2) by simp
  moreover have "queue_ok (insort_event ev (cal_events q))"
    using assms(1,5) cal_events_ok by (auto simp: cal_ok_def intro: queue_ok_insort_event)
  then have "cal_events q' = insort_event ev (cal_events q)"
    by (rule cal_events_unique [OF q'(2)]) (simp only: q'(3) mset_insort_event mset_cal_events)
  ultimately show ?thesis using q'(1) by (simp add: Calendar_Insert_def Let_def)
qed

lemma cal_search:
  assumes "cal_ok t q" and "cal_events q = e # es"
  shows "DoRemoveNext q = Some (e, taken e q)" "Calendar_PeekNext q = Some e"
    "buckets_ok (taken e q)" "front_ok (taken e q)" "mset (all_events q) = add_mset e (mset (all_events (taken e q)))"
    "m_qSize q \<noteq> 0"
proof -
  have core: "cal_core q" "buckets_ok q" "front_ok q" using assms(1) by (auto simp: cal_ok_def cal_core_def)
  have ne: "all_events q \<noteq> []"
  proof
    assume "all_events q = []"
    then have "cal_events q = []" by (simp only: cal_events_def sort_events_def foldr.simps id_apply)
    then show False using assms(2) by simp
  qed
  then show size: "m_qSize q \<noteq> 0" using cal_core_size [OF core(1)] by simp
  obtain x where x: "DoRemoveNext q = Some (x, taken x q)" "Calendar_PeekNext q = Some x" "x \<in> set (all_events q)"
    "\<And>y. y \<in> set (all_events q) \<Longrightarrow> rank x \<le> rank y"
    "NextEvent (m_reverse q) (m_buckets q ! unat (Hash (m_ts (key x)) q)) = Some x"
    using search_ok [OF core(2,3) ne size] by blast
  have "x = e"
  proof -
    have "queue_ok (e # es)" using cal_events_ok [OF core(1)] unfolding assms(2) .
    moreover have "e \<in> set (all_events q)" "x \<in> set (e # es)"
      using x(3) unfolding set_cal_events [symmetric] assms(2) by simp_all
    ultimately show ?thesis using x(4) [of e] by (auto simp: queue_ok_Cons)
  qed
  then show "DoRemoveNext q = Some (e, taken e q)" "Calendar_PeekNext q = Some e"
    "buckets_ok (taken e q)" "front_ok (taken e q)" "mset (all_events q) = add_mset e (mset (all_events (taken e q)))"
    using x taken_ok [OF core(2) x(3-5)] by blast+
qed

lemma unat_minus_1: "x \<noteq> 0 \<Longrightarrow> unat (x - 1 :: 32 word) = unat x - 1"
  by (simp add: unat_sub word_le_nat_alt Suc_le_eq unat_gt_0)

lemma Calendar_RemoveNext_ok:
  assumes "cal_ok t q" and "cal_events q = e # es"
  shows "\<exists>q'. Calendar_RemoveNext q = Some (e, q') \<and> cal_ok (m_ts (key e)) q' \<and> cal_events q' = es"
proof -
  note s = cal_search [OF assms]
  have size: "unat (m_qSize q) = length (all_events q)" using assms(1) by (simp add: cal_ok_def cal_core_def)
  let ?q = "(taken e q)\<lparr>m_qSize := m_qSize q - 1\<rparr>"
  have "length (all_events q) = length (all_events (taken e q)) + 1"
    using arg_cong [OF s(5), of size] by (simp only: size_mset size_add_mset Suc_eq_plus1)
  then have "unat (m_qSize q - 1) = length (all_events (taken e q))"
    using size unat_minus_1 [OF s(6)] by simp
  then have "cal_core ?q" using s(3,4) by (simp add: cal_core_def front_ok_def Hash_def)
  from Resizing_ok(2) [OF this] obtain q' where q': "ResizeDown ?q = Some q'" "cal_core q'"
    "mset (all_events q') = mset (all_events (taken e q))" "m_lastPrio q' = m_ts (key e)"
    by auto
  have "front_ok q'" using q'(2) by (simp add: cal_core_def)
  then have "cal_ok (m_ts (key e)) q'" using q'(2,4) by (simp add: cal_ok_def front_ok_def del: set_concat)
  moreover have "queue_ok (e # es)" using assms cal_events_ok [of q] by (simp add: cal_ok_def)
  then have "queue_ok es" by (simp add: queue_ok_Cons)
  moreover have "mset (all_events q') = mset es"
    using s(5) q'(3) mset_cal_events [of q] unfolding assms(2) by simp
  ultimately have "cal_ok (m_ts (key e)) q'" "cal_events q' = es"
    using cal_events_unique [OF q'(2)] by blast+
  then show ?thesis
    using s(1,6) q'(1) by (simp add: Calendar_RemoveNext_def Calendar_IsEmpty_def)
qed

lemma Calendar_Remove_ok:
  assumes "cal_ok t q" and "ev \<in> set (cal_events q)"
  shows "\<exists>q'. Calendar_Remove ev q = Some q' \<and> cal_ok t q' \<and> cal_events q' = remove1 ev (cal_events q)"
proof -
  have core: "cal_core q" "buckets_ok q" "front_ok q" "unat (m_qSize q) = length (all_events q)"
    and t: "m_lastPrio q \<le> t" "\<forall>e\<in>set (all_events q). t \<le> m_ts (key e)"
    using assms(1) by (auto simp: cal_ok_def cal_core_def simp del: set_concat)
  note o = buckets_okD [OF core(2)]
  have ev: "ev \<in> set (all_events q)" using assms(2) unfolding set_cal_events .
  have size: "m_qSize q \<noteq> 0" using ev cal_core_size [OF core(1)] by fastforce
  define i where "i = unat (Hash (m_ts (key ev)) q)"
  have i: "i < nb q" unfolding i_def using o(2) by (rule Hash_less)
  have in_b: "ev \<in> set (m_buckets q ! i)"
    using event_day(2) [OF core(2,3) ev] by (simp add: i_def unat_Hash [OF o(2)])
  have db: "distinct (map uid (m_buckets q ! i))"
    using o(5) i o(1) by (simp add: map_concat distinct_concat_iff)
  let ?b = "remove1 ev (m_buckets q ! i)"
  have r: "bucket_remove ev (m_buckets q ! i) = Some ?b" by (rule bucket_remove_ok [OF db in_b])
  have s: "sorted_by rank (chron (m_reverse q) ?b)"
    using o(6) [OF i] db by (simp add: chron_remove1 distinct_map sorted_by_remove1)
  have b: "unat (Hash (m_ts (key e)) q) = i \<and> m_ts (key e) < - 1" if "e \<in> set ?b" for e
  proof -
    have "e \<in> set (m_buckets q ! i)" using that by (rule notin_set_remove1 [rotated] set_remove1_subset [THEN subsetD])
    then show ?thesis using o(7) [OF i] o(8) [of e] i o(1) unfolding in_all_events by auto
  qed
  have xs: "mset (remove1 ev (all_events q)) + mset (m_buckets q ! i) = mset (all_events q) + mset ?b"
    using ev in_b by (simp del: set_concat)
  have d: "distinct (map uid (remove1 ev (all_events q)))"
    using o(5) by (auto simp: distinct_map distinct_remove1 intro: inj_on_diff)
  let ?q1 = "q\<lparr>m_buckets := (m_buckets q)[i := ?b]\<rparr>" let ?q = "?q1\<lparr>m_qSize := m_qSize q - 1\<rparr>"
  note u = buckets_ok_update [OF core(2) i s b xs d]
  have sub: "set (all_events ?q1) \<subseteq> set (all_events q)"
    using mset_eq_setD [OF u(2)] set_remove1_subset by metis
  have "length (all_events ?q1) = length (all_events q) - 1"
    using arg_cong [OF u(2), of size] ev by (simp only: size_mset length_remove1 if_True)
  then have "unat (m_qSize q - 1) = length (all_events ?q1)"
    using core(4) unat_minus_1 [OF size] by simp
  moreover have "front_ok ?q1"
    using core(3) sub unfolding front_ok_def by (simp add: Hash_def subset_iff del: set_concat)
  ultimately have "cal_core ?q" using u(1) by (simp add: cal_core_def front_ok_def Hash_def)
  from Resizing_ok(2) [OF this] obtain q' where q': "ResizeDown ?q = Some q'" "cal_core q'"
    "mset (all_events q') = mset (all_events ?q)" "m_lastPrio q' = m_lastPrio ?q"
    by blast
  have m: "mset (all_events q') = mset (remove1 ev (all_events q))" using q'(3) u(2) by simp
  have "set (all_events q') \<subseteq> set (all_events q)" using mset_eq_setD [OF m] set_remove1_subset by metis
  then have "cal_ok t q'" using q'(2,4) t unfolding cal_ok_def by auto
  moreover have "mset (all_events q') = mset (remove1 ev (cal_events q))"
    unfolding m by (simp only: mset_remove1 mset_cal_events)
  then have "cal_events q' = remove1 ev (cal_events q)"
    by (rule cal_events_unique [OF q'(2) queue_ok_remove1 [OF cal_events_ok [OF core(1)]]])
  ultimately show ?thesis
    using q'(1) r size by (simp add: Calendar_Remove_def Calendar_IsEmpty_def i_def [symmetric])
qed

end
