(* ===== verification/Monotone_Queue.thy ===== *)
theory Monotone_Queue
  imports Schedulers
begin

text \<open>
  What a simulator does with its event queue, as a list of operations, and the contract of a queue
  for a client whose time never goes back: an event is inserted at or after the time of the last
  one taken. A queue with the full contract meets it for every client.
\<close>

datatype queue_op = INSERT event | PEEK_NEXT | REMOVE_NEXT | REMOVE event

text \<open>The results of the operations, in order; \<open>None\<close> when an operation fails.\<close>

fun run_ops :: "'q scheduler \<Rightarrow> queue_op list \<Rightarrow> 'q \<Rightarrow> event list option" where
  "run_ops sch [] q = Some []"
| "run_ops sch (INSERT ev # ops) q = Option.bind (Insert sch ev q) (run_ops sch ops)"
| "run_ops sch (PEEK_NEXT # ops) q =
     Option.bind (PeekNext sch q) (\<lambda>e. map_option ((#) e) (run_ops sch ops q))"
| "run_ops sch (REMOVE_NEXT # ops) q =
     Option.bind (RemoveNext sch q) (\<lambda>(e, q'). map_option ((#) e) (run_ops sch ops q'))"
| "run_ops sch (REMOVE ev # ops) q = Option.bind (Remove sch ev q) (run_ops sch ops)"

text \<open>The operations that a client whose time is \<open>t\<close> may do on the events \<open>es\<close>.\<close>

fun admissible :: "64 word \<Rightarrow> event list \<Rightarrow> queue_op list \<Rightarrow> bool" where
  "admissible t es [] \<longleftrightarrow> True"
| "admissible t es (INSERT ev # ops) \<longleftrightarrow> t \<le> m_ts (key ev) \<and> m_ts (key ev) < - 1 \<and> length es + 1 < 2 ^ 32 \<and>
     uid ev \<notin> uid ` set es \<and> admissible t (insort_event ev es) ops"
| "admissible t es (PEEK_NEXT # ops) \<longleftrightarrow> es \<noteq> [] \<and> admissible t es ops"
| "admissible t es (REMOVE_NEXT # ops) \<longleftrightarrow>
     (case es of [] \<Rightarrow> False | e # es' \<Rightarrow> admissible (m_ts (key e)) es' ops)"
| "admissible t es (REMOVE ev # ops) \<longleftrightarrow> ev \<in> set es \<and> admissible t (remove1 ev es) ops"

fun run_list :: "event list \<Rightarrow> queue_op list \<Rightarrow> event list" where
  "run_list es [] = []"
| "run_list es (INSERT ev # ops) = run_list (insort_event ev es) ops"
| "run_list es (PEEK_NEXT # ops) = hd es # run_list es ops"
| "run_list es (REMOVE_NEXT # ops) = hd es # run_list (tl es) ops"
| "run_list es (REMOVE ev # ops) = run_list (remove1 ev es) ops"

locale monotone_event_queue =
  fixes sch :: "'q scheduler"
    and invar :: "64 word \<Rightarrow> 'q \<Rightarrow> bool"
    and events :: "'q \<Rightarrow> event list"
  assumes monotone_events_ok: "invar t q \<Longrightarrow> queue_ok (events q)"
    and monotone_is_empty: "invar t q \<Longrightarrow> IsEmpty sch q \<longleftrightarrow> events q = []"
    and monotone_insert: "invar t q \<Longrightarrow> t \<le> m_ts (key ev) \<Longrightarrow> m_ts (key ev) < - 1 \<Longrightarrow>
       length (events q) + 1 < 2 ^ 32 \<Longrightarrow> uid ev \<notin> uid ` set (events q) \<Longrightarrow>
       \<exists>q'. Insert sch ev q = Some q' \<and> invar t q' \<and> events q' = insort_event ev (events q)"
    and monotone_peek: "invar t q \<Longrightarrow> events q = e # es \<Longrightarrow> PeekNext sch q = Some e"
    and monotone_remove_next: "invar t q \<Longrightarrow> events q = e # es \<Longrightarrow>
       \<exists>q'. RemoveNext sch q = Some (e, q') \<and> invar (m_ts (key e)) q' \<and> events q' = es"
    and monotone_remove: "invar t q \<Longrightarrow> ev \<in> set (events q) \<Longrightarrow>
       \<exists>q'. Remove sch ev q = Some q' \<and> invar t q' \<and> events q' = remove1 ev (events q)"
begin

lemma run_ops_list:
  "invar t q \<Longrightarrow> admissible t (events q) ops \<Longrightarrow> run_ops sch ops q = Some (run_list (events q) ops)"
proof (induction ops arbitrary: t q)
  case (Cons op ops)
  show ?case
  proof (cases op)
    case (INSERT ev)
    then show ?thesis using Cons monotone_insert [of t q ev] by auto
  next
    case PEEK_NEXT
    then show ?thesis using Cons monotone_peek [of t q] by (cases "events q") auto
  next
    case REMOVE_NEXT
    then obtain e es where es: "events q = e # es" using Cons.prems(2) by (cases "events q") auto
    then obtain q' where "RemoveNext sch q = Some (e, q')" "invar (m_ts (key e)) q'" "events q' = es"
      using monotone_remove_next [OF Cons.prems(1)] by blast
    then show ?thesis using Cons.IH [of "m_ts (key e)" q'] Cons.prems(2) es REMOVE_NEXT by simp
  next
    case (REMOVE ev)
    then show ?thesis using Cons monotone_remove [of t q ev] by auto
  qed
qed simp

end

sublocale removable_event_queue \<subseteq> monotone: monotone_event_queue sch "\<lambda>_. invar" events
  by unfold_locales (use events_ok is_empty insert_ok peek_ok remove_next_ok remove_ok in blast)+

end
