(* ===== verification/Calendar_Props.thy ===== *)
theory Calendar_Props
  imports Calendar_Inv Monotone_Queue
begin

text \<open>The calendar queue as an event queue of a client whose time never goes back.\<close>

interpretation calendarq: monotone_event_queue CalendarScheduler cal_ok cal_events
proof unfold_locales
  fix t :: "64 word" and q
  assume "cal_ok t q"
  then have core: "cal_core q" by (simp add: cal_ok_def)
  then show "queue_ok (cal_events q)" by (rule cal_events_ok)
  have "all_events q = [] \<longleftrightarrow> cal_events q = []"
    using mset_cal_events [of q] by (metis mset_zero_iff)
  then show "IsEmpty CalendarScheduler q \<longleftrightarrow> cal_events q = []"
    unfolding sched_simps Calendar_IsEmpty_def cal_core_size [OF core] .
qed (unfold sched_simps; (rule Calendar_Insert_ok cal_search(2) Calendar_RemoveNext_ok Calendar_Remove_ok; assumption))+

lemma calendar_init: "cal_ok 0 (CalendarScheduler_init r)" "cal_events (CalendarScheduler_init r) = []"
proof -
  note i = Init_ok [of 2 1 0 "\<lparr>m_buckets = [], m_nBuckets = 0, m_width = 0, m_lastBucket = 0, m_bucketTop = 0,
       m_lastPrio = 0, m_qSize = 0, m_reverse = r\<rparr>", folded CalendarScheduler_init_def]
  show "cal_ok 0 (CalendarScheduler_init r)" using i by (simp add: cal_ok_def cal_core_def)
  show "cal_events (CalendarScheduler_init r) = []"
    using mset_cal_events [of "CalendarScheduler_init r"] i(2) by (simp del: concat_eq_Nil_conv)
qed

text \<open>C23: for a client that never inserts an event before the time of the last one taken, the calendar
  queue, in either order of its buckets, answers every sequence of insertions, look-ups and removals
  exactly as the map scheduler does, and no operation fails: whatever the bucket width and number of
  buckets that the resizing chooses, and although the top of a bucket may wrap around.\<close>

theorem calendar_like_map:
  assumes "admissible 0 [] ops"
  shows "run_ops CalendarScheduler ops (CalendarScheduler_init r) = run_ops MapScheduler ops MapScheduler_init \<and>
    run_ops CalendarScheduler ops (CalendarScheduler_init r) = Some (run_list [] ops)"
proof -
  have "map_invar MapScheduler_init" "map_events MapScheduler_init = []"
    by (simp_all add: map_invar_def MapScheduler_init_def)
  then show ?thesis
    using mapq.monotone.run_ops_list [of MapScheduler_init 0 ops] assms calendar_init [of r]
      calendarq.run_ops_list [of 0 "CalendarScheduler_init r" ops] by simp
qed

definition cal_ev :: "64 word \<Rightarrow> 32 word \<Rightarrow> event" where
  "cal_ev t u = \<lparr>impl = Some (unat u), key = \<lparr>m_ts = t, m_uid = u, m_context = 0\<rparr>\<rparr>"

definition cal_ops :: "queue_op list" where
  "cal_ops = [INSERT (cal_ev 900 4), INSERT (cal_ev 7 5), INSERT (cal_ev 2000 6), INSERT (cal_ev 7 7),
     INSERT (cal_ev 9223372036854775807 8), PEEK_NEXT, REMOVE_NEXT, REMOVE (cal_ev 2000 6), INSERT (cal_ev 8 9),
     REMOVE_NEXT, REMOVE_NEXT, REMOVE_NEXT, REMOVE_NEXT]"

theorem calendar_like_map_witness:
  "run_ops CalendarScheduler cal_ops (CalendarScheduler_init True) =
   Some [cal_ev 7 5, cal_ev 7 5, cal_ev 7 7, cal_ev 8 9, cal_ev 900 4, cal_ev 9223372036854775807 8]"
proof -
  have "admissible 0 [] cal_ops" by (simp add: cal_ops_def cal_ev_def uid_def rank_def)
  then have "run_ops CalendarScheduler cal_ops (CalendarScheduler_init True) = Some (run_list [] cal_ops)"
    using calendar_like_map by blast
  moreover have "run_list [] cal_ops =
      [cal_ev 7 5, cal_ev 7 5, cal_ev 7 7, cal_ev 8 9, cal_ev 900 4, cal_ev 9223372036854775807 8]"
    by (simp add: cal_ops_def cal_ev_def uid_def rank_def)
  ultimately show ?thesis by simp
qed

end
