(* ===== verification/Seq_Number.thy ===== *)
theory Seq_Number
  imports Prelude
begin

text \<open>
  The 32-bit serial numbers of \<open>network/utils/sequence-number.h\<close> (\<open>SequenceNumber32\<close>): numbers on
  a circle, compared by the shorter way round.
\<close>

type_synonym seq32 = "32 word"

text \<open>\<open>halfMaxValue\<close> is \<open>max() / 2\<close>.\<close>

definition halfMaxValue :: "32 word" where
  "halfMaxValue = 0x7fffffff"

definition seq_gt :: "seq32 \<Rightarrow> seq32 \<Rightarrow> bool" where
  "seq_gt a b \<longleftrightarrow> (a > b \<and> a - b \<le> halfMaxValue) \<or> (b > a \<and> b - a > halfMaxValue)"

definition seq_le :: "seq32 \<Rightarrow> seq32 \<Rightarrow> bool" where
  "seq_le a b \<longleftrightarrow> \<not> seq_gt a b"

definition seq_ge :: "seq32 \<Rightarrow> seq32 \<Rightarrow> bool" where
  "seq_ge a b \<longleftrightarrow> seq_gt a b \<or> a = b"

definition seq_lt :: "seq32 \<Rightarrow> seq32 \<Rightarrow> bool" where
  "seq_lt a b \<longleftrightarrow> \<not> seq_gt a b \<and> a \<noteq> b"

text \<open>Subtraction; a negation that leaves 32 bits wraps.\<close>

definition seq_minus :: "seq32 \<Rightarrow> seq32 \<Rightarrow> 32 word" where
  "seq_minus a b =
     (if a > b
      then (let diff = a - b in if diff < halfMaxValue then diff else - (0xffffffff - a + 1 + b))
      else (let diff = b - a in if diff < halfMaxValue then - diff else 0xffffffff - b + 1 + a))"

text \<open>Whatever branch is taken, the result is the difference modulo \<open>2 ^ 32\<close>.\<close>

lemma seq_minus_eq: "seq_minus a b = a - b"
  by (simp add: seq_minus_def Let_def)

lemma seq_gt_asym: "seq_gt a b \<Longrightarrow> \<not> seq_gt b a"
  by (auto simp: seq_gt_def)

lemma seq_lt_irrefl [simp]: "\<not> seq_lt a a"
  by (simp add: seq_lt_def)

lemma seq_trichotomy: "seq_gt a b \<or> a = b \<or> seq_gt b a"
  by (auto simp: seq_gt_def not_le)

text \<open>
  Relative to a base from which both are less than half the space away, the order is the order of
  the offsets.
\<close>

definition off :: "seq32 \<Rightarrow> seq32 \<Rightarrow> nat" where
  "off b x = unat (x - b)"

lemma unat_add32: "unat (x + y :: 32 word) = (unat x + unat y) mod 2 ^ 32"
  by (simp add: unat_word_ariths)

lemma unat_neg32: "x \<noteq> 0 \<Longrightarrow> unat (- x :: 32 word) = 2 ^ 32 - unat x"
proof -
  assume "x \<noteq> 0"
  then have pos: "0 < unat x" by (simp add: unat_gt_0)
  have "(unat x + unat (- x)) mod 2 ^ 32 = 0"
    using unat_add32 [of x "- x"] by simp
  then obtain k where k: "unat x + unat (- x) = 2 ^ 32 * k" by auto
  then have "k = 1" using pos unat_lt32 [of x] unat_lt32 [of "- x"] by (cases k) auto
  then show ?thesis using k by simp
qed

lemma off_add: "off b (x + of_nat n) = (off b x + n) mod 2 ^ 32"
proof -
  have "unat (x + of_nat n - b) = unat ((x - b) + of_nat n)" by (rule arg_cong) simp
  also have "\<dots> = (unat (x - b) + n) mod 2 ^ 32"
    unfolding unat_add32 by (simp add: unat_of_nat mod_simps)
  finally show ?thesis by (simp only: off_def)
qed

lemma off_add': "off b x + n < 2 ^ 32 \<Longrightarrow> off b (x + of_nat n) = off b x + n"
  unfolding off_add by (rule mod_less)

lemma off_inj: "off b x = off b y \<longleftrightarrow> x = y"
  unfolding off_def word_unat_eq_iff [symmetric] by simp

lemma off_base [simp]: "off b b = 0"
  by (simp add: off_def)

lemma off_sub: "off b y \<le> off b x \<Longrightarrow> unat (x - y) = off b x - off b y"
  unfolding off_def by (metis diff_diff_eq2 diff_add_cancel unat_sub word_le_nat_alt)

lemma seq_gt_off:
  assumes "off b x < 2 ^ 31" "off b y < 2 ^ 31"
  shows "seq_gt x y \<longleftrightarrow> off b y < off b x"
proof -
  have half: "unat halfMaxValue = 2 ^ 31 - 1" by (simp add: halfMaxValue_def)
  have gt: "seq_gt u v" if "off b v < off b u" "off b u < 2 ^ 31" for u v
  proof -
    have d: "unat (u - v) = off b u - off b v" using that by (intro off_sub) simp
    then have d1: "0 < unat (u - v)" "unat (u - v) \<le> 2 ^ 31 - 1" using that by simp_all
    show ?thesis
    proof (cases "v < u")
      case True
      then show ?thesis using d1(2) by (simp add: seq_gt_def word_le_nat_alt half)
    next
      case False
      then have "u < v" using d1(1) by (metis unat_0 diff_self less_irrefl linorder_neqE)
      moreover have "unat (v - u) = 2 ^ 32 - unat (u - v)"
      proof -
        have "v - u = - (u - v)" by simp
        then have "unat (v - u) = unat (- (u - v))" by metis
        also have "\<dots> = 2 ^ 32 - unat (u - v)"
          using d1(1) by (intro unat_neg32) auto
        finally show ?thesis .
      qed
      then have "unat halfMaxValue < unat (v - u)"
      proof -
        have "2 ^ 31 - 1 < (2 :: nat) ^ 32 - n" if "n \<le> 2 ^ 31 - 1" for n
          using that by simp
        from this [OF d1(2)] \<open>unat (v - u) = _\<close> show ?thesis by (simp only: half)
      qed
      then have "v - u > halfMaxValue" by (simp add: word_less_nat_alt)
      ultimately show ?thesis by (simp add: seq_gt_def)
    qed
  qed
  consider "off b y < off b x" | "x = y" | "off b x < off b y"
    using off_inj [of b x y] by linarith
  then show ?thesis
  proof cases
    case 1
    then show ?thesis using gt assms by blast
  next
    case 2
    then show ?thesis using seq_gt_asym by blast
  next
    case 3
    then show ?thesis using gt [of x y] assms seq_gt_asym [of y x] by simp
  qed
qed

lemma seq_order_off:
  assumes "off b x < 2 ^ 31" "off b y < 2 ^ 31"
  shows "seq_gt x y \<longleftrightarrow> off b y < off b x" "seq_lt x y \<longleftrightarrow> off b x < off b y"
    "seq_le x y \<longleftrightarrow> off b x \<le> off b y" "seq_ge x y \<longleftrightarrow> off b y \<le> off b x"
  using seq_gt_off [OF assms] off_inj [of b x y]
  by (auto simp: seq_lt_def seq_le_def seq_ge_def)

text \<open>C31: of two different sequence numbers exactly one is greater than the other, the other comparisons
  follow, and subtraction is the difference on the circle; for numbers that are less than half the space
  after a common base the order is that of their distances from the base, also over the wrap-around.\<close>

theorem serial_number_order:
  assumes "off b x < 2 ^ 31" and "off b y < 2 ^ 31"
  shows "(seq_gt x y \<longleftrightarrow> off b y < off b x) \<and> (seq_lt x y \<longleftrightarrow> off b x < off b y) \<and>
    (seq_le x y \<longleftrightarrow> off b x \<le> off b y) \<and> (seq_ge x y \<longleftrightarrow> off b y \<le> off b x) \<and>
    (off b y \<le> off b x \<longrightarrow> unat (seq_minus x y) = off b x - off b y) \<and>
    (u \<noteq> v \<longrightarrow> (seq_gt u v \<longleftrightarrow> \<not> seq_gt v u)) \<and> (seq_lt u v \<longleftrightarrow> seq_gt v u)"
proof -
  have "u \<noteq> v \<longrightarrow> (seq_gt u v \<longleftrightarrow> \<not> seq_gt v u)" using seq_gt_asym seq_trichotomy by blast
  moreover have "seq_lt u v \<longleftrightarrow> seq_gt v u"
    using seq_gt_asym seq_trichotomy unfolding seq_lt_def by blast
  ultimately show ?thesis using seq_order_off [OF assms] off_sub [of b y x] by (simp add: seq_minus_eq)
qed

theorem serial_number_order_witness:
  "seq_gt 5 0xfffffffe \<and> unat (seq_minus 5 0xfffffffe) = 7"
proof -
  have "off 0xfffffff0 5 = 21" "off 0xfffffff0 0xfffffffe = 14" by (simp_all add: off_def)
  then show ?thesis using serial_number_order [of "0xfffffff0" 5 "0xfffffffe"] by simp
qed

end
