(* ===== verification/Tcp_Rx.thy ===== *)
theory Tcp_Rx
  imports Seq_Number
begin

text \<open>
  The receive buffer of TCP, \<open>internet/model/tcp-rx-buffer.cc\<close>: out-of-order segments, the bytes
  ready for the application and the SACK list. A packet is its list of bytes. A failed assertion
  and the use of an \<open>end()\<close> iterator are \<open>None\<close>.
\<close>

type_synonym byte = "8 word"
type_synonym sack_block = "seq32 \<times> seq32"

record rx_buffer =
  m_nextRxSeq :: seq32
  m_finSeq :: seq32
  m_gotFin :: bool
  m_size :: "32 word"
  m_maxBuffer :: "32 word"
  m_availBytes :: "32 word"
  m_data :: "(seq32 \<times> byte list) list"
  m_sackList :: "sack_block list"

definition TcpRxBuffer :: "32 word \<Rightarrow> rx_buffer" where
  "TcpRxBuffer n = \<lparr>m_nextRxSeq = n, m_finSeq = 0, m_gotFin = False, m_size = 0,
     m_maxBuffer = 32768, m_availBytes = 0, m_data = [], m_sackList = []\<rparr>"

definition SetNextRxSequence :: "seq32 \<Rightarrow> rx_buffer \<Rightarrow> rx_buffer" where
  "SetNextRxSequence s r = r\<lparr>m_nextRxSeq := s\<rparr>"

definition SetMaxBufferSize :: "32 word \<Rightarrow> rx_buffer \<Rightarrow> rx_buffer" where
  "SetMaxBufferSize s r = r\<lparr>m_maxBuffer := s\<rparr>"

definition IncNextRxSequence :: "rx_buffer \<Rightarrow> rx_buffer option" where
  "IncNextRxSequence r = (if m_size r = 0 then Some (r\<lparr>m_nextRxSeq := m_nextRxSeq r + 1\<rparr>) else None)"

definition MaxRxSequence :: "rx_buffer \<Rightarrow> seq32" where
  "MaxRxSequence r =
     (if m_gotFin r then m_finSeq r
      else if m_data r \<noteq> [] \<and> seq_gt (m_nextRxSeq r) (fst (hd (m_data r)))
      then fst (hd (m_data r)) + m_maxBuffer r
      else m_nextRxSeq r + m_maxBuffer r)"

definition SetFinSequence :: "seq32 \<Rightarrow> rx_buffer \<Rightarrow> rx_buffer" where
  "SetFinSequence s r =
     (let r1 = r\<lparr>m_gotFin := True, m_finSeq := s\<rparr>
      in if m_nextRxSeq r1 = m_finSeq r1 then r1\<lparr>m_nextRxSeq := m_nextRxSeq r1 + 1\<rparr> else r1)"

definition Finished :: "rx_buffer \<Rightarrow> bool" where
  "Finished r \<longleftrightarrow> m_gotFin r \<and> seq_lt (m_finSeq r) (m_nextRxSeq r)"

subsection \<open>The SACK list\<close>

text \<open>
  One round of the loop: \<open>done\<close> are the blocks before the iterator, of which the first is \<open>begin\<close>;
  after a merge the scan starts again behind the merged block.
\<close>

function sack_merge :: "sack_block list \<Rightarrow> sack_block list \<Rightarrow> sack_block list option" where
  "sack_merge before [] = Some before"
| "sack_merge [] (current # rest) = None"
| "sack_merge (start # before) (current # rest) =
     (if fst start = snd current
      then if seq_lt (fst current) (snd start)
           then sack_merge [(fst current, snd start)] (before @ rest) else None
      else if snd start = fst current
      then if seq_lt (fst start) (snd current)
           then sack_merge [(fst start, snd current)] (before @ rest) else None
      else sack_merge (start # before @ [current]) rest)"
  by pat_completeness auto
termination
  by (relation "measures [\<lambda>(a, b). length a + length b, \<lambda>(a, b). length b]") auto

definition UpdateSackList :: "seq32 \<Rightarrow> seq32 \<Rightarrow> rx_buffer \<Rightarrow> rx_buffer option" where
  "UpdateSackList head tail r =
     (if \<not> seq_gt head (m_nextRxSeq r) then None
      else map_option (\<lambda>l. r\<lparr>m_sackList := (if length l > 4 then butlast l else l)\<rparr>)
             (sack_merge [(head, tail)] (m_sackList r)))"

fun ClearSack_loop :: "seq32 \<Rightarrow> sack_block list \<Rightarrow> sack_block list option" where
  "ClearSack_loop s [] = Some []"
| "ClearSack_loop s (block # l) =
     (if \<not> seq_lt (fst block) (snd block) then None
      else if seq_le (snd block) s then ClearSack_loop s l
      else map_option ((#) block) (ClearSack_loop s l))"

definition ClearSackList :: "seq32 \<Rightarrow> rx_buffer \<Rightarrow> rx_buffer option" where
  "ClearSackList s r = map_option (\<lambda>l. r\<lparr>m_sackList := l\<rparr>) (ClearSack_loop s (m_sackList r))"

subsection \<open>Adding a segment\<close>

text \<open>The loop that removes the overlapped bytes: the packets kept, the head, the tail and \<open>m_size\<close>.\<close>

fun Overlap_loop ::
  "(seq32 \<times> byte list) list \<Rightarrow> seq32 \<Rightarrow> seq32 \<Rightarrow> 32 word \<Rightarrow>
   (seq32 \<times> byte list) list \<times> seq32 \<times> seq32 \<times> 32 word" where
  "Overlap_loop [] headSeq tailSeq sz = ([], headSeq, tailSeq, sz)"
| "Overlap_loop ((k, p) # i) headSeq tailSeq sz =
     (if \<not> seq_le k tailSeq then ((k, p) # i, headSeq, tailSeq, sz)
      else let lastByteSeq = k + of_nat (length p) in
        if seq_gt lastByteSeq headSeq
        then if seq_gt k headSeq \<and> seq_lt lastByteSeq tailSeq
             then Overlap_loop i headSeq tailSeq (sz - of_nat (length p))
             else let headSeq' = (if seq_le k headSeq then lastByteSeq else headSeq);
                      tailSeq' = (if seq_ge lastByteSeq tailSeq then k else tailSeq);
                      (i', h, t, z) = Overlap_loop i headSeq' tailSeq' sz
                  in ((k, p) # i', h, t, z)
        else let (i', h, t, z) = Overlap_loop i headSeq tailSeq sz in ((k, p) # i', h, t, z))"

text \<open>The loop over the buffer that moves \<open>m_nextRxSeq\<close> over the packets now in sequence.\<close>

fun Advance_rx :: "(seq32 \<times> byte list) list \<Rightarrow> rx_buffer \<Rightarrow> rx_buffer option" where
  "Advance_rx [] r = Some r"
| "Advance_rx ((k, p) # i) r =
     (if seq_lt k (m_nextRxSeq r) then Advance_rx i r
      else if seq_gt k (m_nextRxSeq r) then Some r
      else Option.bind
        (ClearSackList (k + of_nat (length p))
          (r\<lparr>m_nextRxSeq := k + of_nat (length p), m_availBytes := m_availBytes r + of_nat (length p)\<rparr>))
        (Advance_rx i))"

definition trim_window :: "seq32 \<Rightarrow> seq32 \<Rightarrow> rx_buffer \<Rightarrow> seq32 \<times> seq32" where
  "trim_window headSeq tailSeq r =
     (let h = (if seq_lt headSeq (m_nextRxSeq r) then m_nextRxSeq r else headSeq)
      in if m_data r = [] then (h, tailSeq)
         else let maxSeq = fst (hd (m_data r)) + m_maxBuffer r;
                  t = (if seq_lt maxSeq tailSeq then maxSeq else tailSeq)
              in (if seq_lt t h then t else h, t))"

definition Add :: "byte list \<Rightarrow> seq32 \<Rightarrow> rx_buffer \<Rightarrow> (bool \<times> rx_buffer) option" where
  "Add p seq r =
     (let (head0, tail0) = trim_window seq (seq + of_nat (length p)) r;
          (data, headSeq, tailSeq, sz) = Overlap_loop (m_data r) head0 tail0 (m_size r);
          r1 = r\<lparr>m_data := data, m_size := sz\<rparr>
      in if seq_ge headSeq tailSeq then Some (False, r1)
         else let start = unat (seq_minus headSeq seq);
                  len = unat (seq_minus tailSeq headSeq);
                  q = take len (drop start p)
              in if length q \<noteq> len \<or> smap_find seq_lt headSeq data \<noteq> None then None
                 else Option.bind
                   (if seq_gt headSeq (m_nextRxSeq r1)
                    then UpdateSackList headSeq tailSeq (r1\<lparr>m_data := smap_assign seq_lt headSeq q data\<rparr>)
                    else Some (r1\<lparr>m_data := smap_assign seq_lt headSeq q data\<rparr>))
                   (\<lambda>r2. Option.bind (Advance_rx (m_data r2) (r2\<lparr>m_size := m_size r2 + of_nat len\<rparr>))
                     (\<lambda>r3. Some (True, if m_gotFin r3 \<and> m_nextRxSeq r3 = m_finSeq r3
                                       then r3\<lparr>m_nextRxSeq := m_nextRxSeq r3 + 1\<rparr> else r3))))"

subsection \<open>Extracting data\<close>

fun Extract_loop ::
  "seq32 \<Rightarrow> nat \<Rightarrow> (seq32 \<times> byte list) list \<Rightarrow> 32 word \<Rightarrow> 32 word \<Rightarrow> byte list \<Rightarrow>
   ((seq32 \<times> byte list) list \<times> 32 word \<times> 32 word \<times> byte list) option" where
  "Extract_loop nextRx extractSize data sz avail outPkt =
     (if extractSize = 0 then Some (data, sz, avail, outPkt)
      else (case data of [] \<Rightarrow> None
            | (k, p) # i \<Rightarrow>
                if \<not> seq_le k nextRx then None
                else if length p \<le> extractSize
                then Extract_loop nextRx (extractSize - length p) i
                       (sz - of_nat (length p)) (avail - of_nat (length p)) (outPkt @ p)
                else Some (smap_erase seq_lt k
                             (smap_assign seq_lt (k + of_nat extractSize) (drop extractSize p) data),
                           sz - of_nat extractSize, avail - of_nat extractSize,
                           outPkt @ take extractSize p)))"

declare Extract_loop.simps [simp del]

text \<open>The result packet is \<open>None\<close> when nothing is extracted.\<close>

definition Extract :: "32 word \<Rightarrow> rx_buffer \<Rightarrow> (byte list option \<times> rx_buffer) option" where
  "Extract maxSize r =
     (let extractSize = min maxSize (m_availBytes r)
      in if extractSize = 0 then Some (None, r)
         else if m_data r = [] then None
         else map_option (\<lambda>(data, sz, avail, outPkt).
                (if outPkt = [] then None else Some outPkt,
                 r\<lparr>m_data := data, m_size := sz, m_availBytes := avail\<rparr>))
              (Extract_loop (m_nextRxSeq r) (unat extractSize) (m_data r) (m_size r) (m_availBytes r) []))"

end
