(* ===== verification/Tcp_Rx_Inv.thy ===== *)
theory Tcp_Rx_Inv
  imports Tcp_Rx
begin

text \<open>
  The receive buffer as a set of blocks of the sender's byte stream: byte \<open>a\<close> of the stream \<open>f\<close> has
  sequence number \<open>isn + a\<close>, the buffered packets are blocks \<open>(a, n)\<close> of the stream, in order and
  disjoint, and the operations are operations on the blocks.
\<close>

subsection \<open>Sequence numbers and positions of the stream\<close>

definition sq :: "seq32 \<Rightarrow> nat \<Rightarrow> seq32" where
  "sq isn a = isn + of_nat a"

text \<open>Positions in a range of less than half of the sequence number space.\<close>

definition near :: "nat \<Rightarrow> nat \<Rightarrow> bool" where
  "near lo x \<longleftrightarrow> lo \<le> x \<and> x < lo + 2 ^ 31"

lemma sq_add [simp]: "sq isn a + of_nat n = sq isn (a + n)"
  by (simp add: sq_def)

lemma sq_off: "a \<le> b \<Longrightarrow> b - a < 2 ^ 32 \<Longrightarrow> off (sq isn a) (sq isn b) = b - a"
proof -
  assume ab: "a \<le> b" "b - a < 2 ^ 32"
  have "off (sq isn a) (sq isn a + of_nat (b - a)) = b - a"
    using off_add' [of "sq isn a" "sq isn a" "b - a"] ab(2) by simp
  then show ?thesis using ab(1) by (simp only: sq_add le_add_diff_inverse)
qed

lemma sq_diff: "a \<le> b \<Longrightarrow> b - a < 2 ^ 32 \<Longrightarrow> unat (sq isn b - sq isn a) = b - a"
  using sq_off [of a b isn] by (simp add: off_def)

lemma sq_order:
  assumes "near lo a" "near lo b"
  shows "seq_gt (sq isn a) (sq isn b) \<longleftrightarrow> b < a" "seq_lt (sq isn a) (sq isn b) \<longleftrightarrow> a < b"
    "seq_le (sq isn a) (sq isn b) \<longleftrightarrow> a \<le> b" "seq_ge (sq isn a) (sq isn b) \<longleftrightarrow> b \<le> a"
    "sq isn a = sq isn b \<longleftrightarrow> a = b"
proof -
  have o: "off (sq isn lo) (sq isn a) = a - lo" "off (sq isn lo) (sq isn b) = b - lo"
    using assms unfolding near_def by (auto intro!: sq_off)
  have lt: "off (sq isn lo) (sq isn a) < 2 ^ 31" "off (sq isn lo) (sq isn b) < 2 ^ 31"
    unfolding o using assms by (simp_all add: near_def) linarith+
  have le: "lo \<le> a" "lo \<le> b" using assms by (simp_all add: near_def)
  show "seq_gt (sq isn a) (sq isn b) \<longleftrightarrow> b < a" "seq_lt (sq isn a) (sq isn b) \<longleftrightarrow> a < b"
    "seq_le (sq isn a) (sq isn b) \<longleftrightarrow> a \<le> b" "seq_ge (sq isn a) (sq isn b) \<longleftrightarrow> b \<le> a"
    unfolding seq_order_off [OF lt] o using le by (simp_all add: diff_less_mono le_diff_iff less_diff_iff)
  show "sq isn a = sq isn b \<longleftrightarrow> a = b"
    using off_inj [of "sq isn lo" "sq isn a" "sq isn b"] le unfolding o by auto
qed

subsection \<open>Blocks of the stream\<close>

type_synonym block = "nat \<times> nat"

definition conc :: "(nat \<Rightarrow> byte) \<Rightarrow> seq32 \<Rightarrow> block list \<Rightarrow> (seq32 \<times> byte list) list" where
  "conc f isn = map (\<lambda>(a, n). (sq isn a, map f [a..<a + n]))"

definition cov :: "block list \<Rightarrow> nat set" where
  "cov bl = (\<Union>(a, n)\<in>set bl. {a..<a + n})"

fun blocks_ok :: "block list \<Rightarrow> bool" where
  "blocks_ok [] \<longleftrightarrow> True"
| "blocks_ok ((a, n) # bl) \<longleftrightarrow> 0 < n \<and> (\<forall>(b, m)\<in>set bl. a + n \<le> b) \<and> blocks_ok bl"

definition volume :: "block list \<Rightarrow> nat" where
  "volume bl = sum_list (map snd bl)"

lemma conc_simps [simp]:
  "conc f isn [] = []"
  "conc f isn ((a, n) # bl) = (sq isn a, map f [a..<a + n]) # conc f isn bl"
  by (simp_all add: conc_def)

lemma conc_eq_Nil [simp]: "conc f isn bl = [] \<longleftrightarrow> bl = []"
  by (simp add: conc_def)

lemma cov_simps [simp]: "cov [] = {}" "cov ((a, n) # bl) = {a..<a + n} \<union> cov bl"
  by (simp_all add: cov_def)

lemma volume_simps [simp]: "volume [] = 0" "volume ((a, n) # bl) = n + volume bl"
  by (simp_all add: volume_def)

lemma in_cov: "x \<in> cov bl \<longleftrightarrow> (\<exists>(a, n)\<in>set bl. a \<le> x \<and> x < a + n)"
  by (simp add: cov_def split_beta)

text \<open>The loop that removes the overlapped bytes, on blocks.\<close>

fun overlap :: "block list \<Rightarrow> nat \<Rightarrow> nat \<Rightarrow> block list \<times> nat \<times> nat" where
  "overlap [] h t = ([], h, t)"
| "overlap ((a, n) # bl) h t =
     (if \<not> a \<le> t then ((a, n) # bl, h, t)
      else if h < a + n
      then if h < a \<and> a + n < t then overlap bl h t
           else let (bl', h', t') = overlap bl (if a \<le> h then a + n else h) (if t \<le> a + n then a else t)
                in ((a, n) # bl', h', t')
      else let (bl', h', t') = overlap bl h t in ((a, n) # bl', h', t'))"

lemma Overlap_loop_conc:
  assumes "\<forall>(a, n)\<in>set bl. near lo a \<and> near lo (a + n)" and "near lo h" "near lo t"
  shows "overlap bl h t = (bl', h', t') \<Longrightarrow>
    Overlap_loop (conc f isn bl) (sq isn h) (sq isn t) (z + of_nat (volume bl)) =
      (conc f isn bl', sq isn h', sq isn t', z + of_nat (volume bl')) \<and> near lo h' \<and> near lo t'"
  using assms
proof (induction bl h t arbitrary: bl' h' t' z rule: overlap.induct)
  case (2 a n bl h t)
  have na: "near lo a" "near lo (a + n)" "near lo h" "near lo t" and rest: "\<forall>(a, n)\<in>set bl. near lo a \<and> near lo (a + n)"
    using "2.prems" by auto
  note ord = sq_order [where isn = isn and lo = lo]
  have vol: "z + of_nat (volume ((a, n) # bl)) = (z + of_nat n) + of_nat (volume bl)"
    "(z + of_nat n) + of_nat (volume bl) - of_nat n = z + of_nat (volume bl)" by simp_all
  have step: "Overlap_loop (conc f isn ((a, n) # bl)) (sq isn h) (sq isn t) (z + of_nat (volume ((a, n) # bl))) =
     (if \<not> a \<le> t then (conc f isn ((a, n) # bl), sq isn h, sq isn t, z + of_nat (volume ((a, n) # bl)))
      else if h < a + n
      then if h < a \<and> a + n < t then Overlap_loop (conc f isn bl) (sq isn h) (sq isn t) (z + of_nat (volume bl))
           else let (i', hh, tt, zz) = Overlap_loop (conc f isn bl) (sq isn (if a \<le> h then a + n else h))
                      (sq isn (if t \<le> a + n then a else t)) ((z + of_nat n) + of_nat (volume bl))
                in ((sq isn a, map f [a..<a + n]) # i', hh, tt, zz)
      else let (i', hh, tt, zz) = Overlap_loop (conc f isn bl) (sq isn h) (sq isn t) ((z + of_nat n) + of_nat (volume bl))
           in ((sq isn a, map f [a..<a + n]) # i', hh, tt, zz))"
    using na unfolding vol(1) by (simp add: Let_def ord vol(2))
  consider "\<not> a \<le> t" | "a \<le> t" "h < a + n" "h < a \<and> a + n < t" | "a \<le> t" "h < a + n" "\<not> (h < a \<and> a + n < t)"
    | "a \<le> t" "\<not> h < a + n" by blast
  then show ?case
  proof cases
    case 1
    then show ?thesis using "2.prems"(1) na unfolding step by auto
  next
    case 2
    then show ?thesis using "2.IH"(1) [OF _ _ _ _ rest na(3,4)] "2.prems"(1) unfolding step by auto
  next
    case 3
    obtain b x y where o: "overlap bl (if a \<le> h then a + n else h) (if t \<le> a + n then a else t) = (b, x, y)"
      by (metis prod_cases3)
    have "near lo (if a \<le> h then a + n else h)" "near lo (if t \<le> a + n then a else t)" using na by simp_all
    from "2.IH"(2) [OF _ _ _ o rest this, of "z + of_nat n"] 3 o "2.prems"(1) show ?thesis
      unfolding step by (auto simp: algebra_simps)
  next
    case 4
    obtain b x y where o: "overlap bl h t = (b, x, y)" by (metis prod_cases3)
    from "2.IH"(3) [OF _ _ o rest na(3,4), of "z + of_nat n"] 4 o "2.prems"(1) show ?thesis
      unfolding step by (auto simp: algebra_simps)
  qed
qed simp

lemma overlap_later: "\<forall>(a, n)\<in>set bl. t < a \<Longrightarrow> overlap bl h t = (bl, h, t)"
  by (cases bl) auto

lemma overlap_ok:
  assumes "blocks_ok bl" and "overlap bl h t = (bl', h', t')"
  shows "blocks_ok bl' \<and> set bl' \<subseteq> set bl \<and> h \<le> h' \<and> t' \<le> t \<and> cov bl' \<union> {h'..<t'} = cov bl \<union> {h..<t} \<and>
    (h' < t' \<longrightarrow> (\<forall>(a, n)\<in>set bl'. a + n \<le> h' \<or> t' \<le> a))"
  using assms
proof (induction bl h t arbitrary: bl' h' t' rule: overlap.induct)
  case (2 a n bl h t)
  have wf: "0 < n" "\<forall>(b, m)\<in>set bl. a + n \<le> b" "blocks_ok bl" using "2.prems"(1) by auto
  consider "\<not> a \<le> t" | "a \<le> t" "h < a + n" "h < a \<and> a + n < t" | "a \<le> t" "h < a + n" "a \<le> h" "a + n < t"
    | "a \<le> t" "h < a + n" "t \<le> a + n" | "a \<le> t" "\<not> h < a + n" by linarith
  then show ?case
  proof cases
    case 1
    then show ?thesis using "2.prems" wf by fastforce
  next
    case 2
    then have o: "overlap bl h t = (bl', h', t')" using "2.prems"(2) by simp
    from "2.IH"(1) [OF _ _ _ wf(3) o] 2 have IH: "blocks_ok bl' \<and> set bl' \<subseteq> set bl \<and> h \<le> h' \<and> t' \<le> t \<and>
        cov bl' \<union> {h'..<t'} = cov bl \<union> {h..<t} \<and> (h' < t' \<longrightarrow> (\<forall>(a, n)\<in>set bl'. a + n \<le> h' \<or> t' \<le> a))"
      by simp
    have "{a..<a + n} \<subseteq> {h..<t}" using 2 by auto
    then have "cov ((a, n) # bl) \<union> {h..<t} = cov bl \<union> {h..<t}" by auto
    then show ?thesis using IH by auto
  next
    case 3
    then obtain b where o: "overlap bl (a + n) t = (b, h', t')" "bl' = (a, n) # b"
      using "2.prems"(2) by (auto split: prod.splits)
    have IH: "blocks_ok b \<and> set b \<subseteq> set bl \<and> a + n \<le> h' \<and> t' \<le> t \<and>
        cov b \<union> {h'..<t'} = cov bl \<union> {a + n..<t} \<and> (h' < t' \<longrightarrow> (\<forall>(a, n)\<in>set b. a + n \<le> h' \<or> t' \<le> a))"
      using "2.IH"(2) [OF _ _ _ wf(3), of b h' t'] 3 o by simp
    have "{a..<a + n} \<union> {a + n..<t} = {a..<a + n} \<union> {h..<t}" using 3 by auto
    moreover have "cov bl' \<union> {h'..<t'} = cov bl \<union> ({a..<a + n} \<union> {a + n..<t})"
    proof -
      have "cov bl' \<union> {h'..<t'} = {a..<a + n} \<union> (cov b \<union> {h'..<t'})" unfolding o(2) cov_simps Un_assoc ..
      also have "cov b \<union> {h'..<t'} = cov bl \<union> {a + n..<t}" using IH by blast
      finally show ?thesis by (simp only: Un_ac)
    qed
    ultimately have "cov bl' \<union> {h'..<t'} = cov ((a, n) # bl) \<union> {h..<t}" by (simp only: cov_simps Un_ac)
    then show ?thesis using IH o(2) wf 3 by auto
  next
    case 4
    let ?h = "if a \<le> h then a + n else h"
    have "overlap bl ?h a = (bl, ?h, a)" by (rule overlap_later) (use wf in fastforce)
    then have o: "bl' = (a, n) # bl" "h' = ?h" "t' = a" using "2.prems"(2) 4 by auto
    have "{a..<a + n} \<union> {?h..<a} = {a..<a + n} \<union> {h..<t}" using 4 by auto
    then have c: "cov bl' \<union> {h'..<t'} = cov ((a, n) # bl) \<union> {h..<t}"
      unfolding o cov_simps by (simp only: Un_ac)
    have d: "\<forall>(b, m)\<in>set bl'. b + m \<le> h' \<or> t' \<le> b" unfolding o using wf by auto
    have "blocks_ok bl'" "set bl' \<subseteq> set ((a, n) # bl)" "h \<le> h'" "t' \<le> t" unfolding o using "2.prems"(1) 4 by auto
    then show ?thesis using c d by blast
  next
    case 5
    then obtain b where o: "overlap bl h t = (b, h', t')" "bl' = (a, n) # b"
      using "2.prems"(2) by (auto split: prod.splits)
    have IH: "blocks_ok b \<and> set b \<subseteq> set bl \<and> h \<le> h' \<and> t' \<le> t \<and>
        cov b \<union> {h'..<t'} = cov bl \<union> {h..<t} \<and> (h' < t' \<longrightarrow> (\<forall>(a, n)\<in>set b. a + n \<le> h' \<or> t' \<le> a))"
      using "2.IH"(3) [OF _ _ wf(3) o(1)] 5 by simp
    then have "cov bl' \<union> {h'..<t'} = cov ((a, n) # bl) \<union> {h..<t}" using o(2) by auto
    then show ?thesis using IH o(2) wf 5 by auto
  qed
qed simp

subsection \<open>Moving the next expected position\<close>

fun advance :: "block list \<Rightarrow> nat \<Rightarrow> nat" where
  "advance [] x = x"
| "advance ((a, n) # bl) x = (if a < x then advance bl x else if x < a then x else advance bl (a + n))"

lemma advance_ok:
  assumes "blocks_ok bl" and "\<forall>(a, n)\<in>set bl. a + n \<le> x \<or> x \<le> a"
  shows "x \<le> advance bl x \<and> {x..<advance bl x} \<subseteq> cov bl \<and> advance bl x \<notin> cov bl"
  using assms
proof (induction bl x rule: advance.induct)
  case (2 a n bl x)
  have wf: "0 < n" "\<forall>(b, m)\<in>set bl. a + n \<le> b" "blocks_ok bl" using "2.prems"(1) by auto
  consider "a < x" | "x < a" | "a = x" by linarith
  then show ?case
  proof cases
    case 1
    then have "a + n \<le> x" using "2.prems"(2) by auto
    then show ?thesis using "2.IH"(1) [OF 1 wf(3)] "2.prems"(2) 1 by auto
  next
    case 2
    then have "x \<notin> cov ((a, n) # bl)" using wf(2) by (auto simp: in_cov)
    then show ?thesis using 2 by simp
  next
    case 3
    have "\<forall>(b, m)\<in>set bl. b + m \<le> a + n \<or> a + n \<le> b" using wf(2) by auto
    then have IH: "a + n \<le> advance bl (a + n) \<and> {a + n..<advance bl (a + n)} \<subseteq> cov bl \<and> advance bl (a + n) \<notin> cov bl"
      using "2.IH"(2) [OF _ _ wf(3)] 3 by simp
    have "{x..<advance bl (a + n)} \<subseteq> {a..<a + n} \<union> {a + n..<advance bl (a + n)}" using 3 by auto
    then show ?thesis using IH 3 by auto
  qed
qed simp

subsection \<open>Inserting a block\<close>

fun insert_block :: "block \<Rightarrow> block list \<Rightarrow> block list" where
  "insert_block b [] = [b]"
| "insert_block b (c # bl) = (if fst b < fst c then b # c # bl else c # insert_block b bl)"

lemma set_insert_block [simp]: "set (insert_block b bl) = insert b (set bl)"
  by (induction bl) auto

lemma cov_insert_block [simp]: "cov (insert_block (h, n) bl) = {h..<h + n} \<union> cov bl"
  by (auto simp: cov_def)

lemma volume_insert_block [simp]: "volume (insert_block b bl) = snd b + volume bl"
  by (induction bl) (auto simp: volume_def)

lemma insert_block_ok:
  assumes "blocks_ok bl" "0 < n" "\<forall>(a, m)\<in>set bl. a + m \<le> h \<or> h + n \<le> a"
  shows "blocks_ok (insert_block (h, n) bl)"
  using assms by (induction bl) fastforce+

lemma smap_conc:
  assumes "blocks_ok bl" "0 < n" "\<forall>(a, m)\<in>set bl. (a + m \<le> h \<or> h + n \<le> a) \<and> near lo a" "near lo h"
  shows "smap_find seq_lt (sq isn h) (conc f isn bl) = None"
    and "smap_assign seq_lt (sq isn h) (map f [h..<h + n]) (conc f isn bl) = conc f isn (insert_block (h, n) bl)"
proof -
  note ord = sq_order [where isn = isn and lo = lo]
  have ne: "a \<noteq> h" if "(a, m) \<in> set bl" for a m
  proof -
    have "0 < m" using assms(1) that by (induction bl) auto
    then show ?thesis using assms(2,3) that by fastforce
  qed
  show "smap_find seq_lt (sq isn h) (conc f isn bl) = None"
    using assms(3,4) ne
  proof (induction bl)
    case (Cons c bl)
    obtain a m where c: "c = (a, m)" by (cases c)
    have "a < h \<or> h < a" using Cons.prems(3) [of a m] c by auto
    then show ?case using Cons by (auto simp: c ord)
  qed simp
  show "smap_assign seq_lt (sq isn h) (map f [h..<h + n]) (conc f isn bl) = conc f isn (insert_block (h, n) bl)"
    using assms(3,4) ne
  proof (induction bl)
    case (Cons c bl)
    obtain a m where c: "c = (a, m)" by (cases c)
    have "a < h \<or> h < a" using Cons.prems(3) [of a m] c by auto
    then show ?case using Cons by (auto simp: c ord)
  qed simp
qed

subsection \<open>The SACK list\<close>

definition sconc :: "seq32 \<Rightarrow> (nat \<times> nat) list \<Rightarrow> sack_block list" where
  "sconc isn = map (\<lambda>(x, y). (sq isn x, sq isn y))"

definition sacks_ok :: "nat \<Rightarrow> nat \<Rightarrow> nat set \<Rightarrow> (nat \<times> nat) list \<Rightarrow> bool" where
  "sacks_ok lo nx C sl \<longleftrightarrow> (\<forall>(x, y)\<in>set sl. near lo x \<and> near lo y \<and> nx < x \<and> x < y \<and> {x..<y} \<subseteq> C)"

lemma sconc_simps [simp]:
  "sconc isn [] = []" "sconc isn (b # sl) = (sq isn (fst b), sq isn (snd b)) # sconc isn sl"
  "sconc isn (sl @ sl') = sconc isn sl @ sconc isn sl'" "length (sconc isn sl) = length sl"
  "sconc isn (butlast sl) = butlast (sconc isn sl)"
  by (simp_all add: sconc_def split_beta map_butlast)

function smerge :: "(nat \<times> nat) list \<Rightarrow> (nat \<times> nat) list \<Rightarrow> (nat \<times> nat) list" where
  "smerge before [] = before"
| "smerge [] (current # rest) = []"
| "smerge (start # before) (current # rest) =
     (if fst start = snd current then smerge [(fst current, snd start)] (before @ rest)
      else if snd start = fst current then smerge [(fst start, snd current)] (before @ rest)
      else smerge (start # before @ [current]) rest)"
  by pat_completeness auto
termination
  by (relation "measures [\<lambda>(a, b). length a + length b, \<lambda>(a, b). length b]") auto

lemma sacks_ok_join:
  "sacks_ok lo nx C [(x, y)] \<Longrightarrow> sacks_ok lo nx C [(y, z)] \<Longrightarrow> sacks_ok lo nx C [(x, z)]"
proof -
  assume a: "sacks_ok lo nx C [(x, y)]" "sacks_ok lo nx C [(y, z)]"
  then have "{x..<z} = {x..<y} \<union> {y..<z}" by (auto simp: sacks_ok_def)
  then show ?thesis using a by (auto simp: sacks_ok_def)
qed

lemma sacks_ok_subset: "sacks_ok lo nx C sl \<Longrightarrow> set sl' \<subseteq> set sl \<Longrightarrow> sacks_ok lo nx C sl'"
  unfolding sacks_ok_def by blast

lemma sacks_ok_append: "sacks_ok lo nx C (sl @ sl') \<longleftrightarrow> sacks_ok lo nx C sl \<and> sacks_ok lo nx C sl'"
  by (auto simp: sacks_ok_def)

lemma sack_merge_conc:
  assumes "b \<noteq> []" "sacks_ok lo nx C b" "sacks_ok lo nx C l"
  shows "sack_merge (sconc isn b) (sconc isn l) = Some (sconc isn (smerge b l)) \<and> sacks_ok lo nx C (smerge b l)"
  using assms
proof (induction b l rule: smerge.induct)
  case (3 start before current rest)
  obtain x y where s: "start = (x, y)" by (cases start)
  obtain u v where c: "current = (u, v)" by (cases current)
  have ok: "sacks_ok lo nx C [(x, y)]" "sacks_ok lo nx C [(u, v)]" "sacks_ok lo nx C before" "sacks_ok lo nx C rest"
    using "3.prems" by (simp_all add: s c sacks_ok_def)
  then have n: "near lo x" "near lo y" "near lo u" "near lo v" "x < y" "u < v" by (simp_all add: sacks_ok_def)
  note ord = sq_order [where isn = isn and lo = lo]
  consider "x = v" | "x \<noteq> v" "y = u" | "x \<noteq> v" "y \<noteq> u" by blast
  then show ?case
  proof cases
    case 1
    then have "sacks_ok lo nx C [(u, y)]" using sacks_ok_join [of lo nx C u x y] ok by simp
    moreover have "sacks_ok lo nx C (before @ rest)" using ok by (simp add: sacks_ok_append)
    ultimately show ?thesis using "3.IH"(1) 1 n by (simp add: s c ord)
  next
    case 2
    then have "sacks_ok lo nx C [(x, v)]" using sacks_ok_join [of lo nx C x y v] ok by simp
    moreover have "sacks_ok lo nx C (before @ rest)" using ok by (simp add: sacks_ok_append)
    ultimately show ?thesis using "3.IH"(2) 2 n by (simp add: s c ord)
  next
    case 3
    have "sacks_ok lo nx C (start # before @ [current])" using ok by (simp add: s c sacks_ok_def)
    then show ?thesis using "3.IH"(3) 3 n ok by (simp add: s c ord)
  qed
qed simp_all

lemma UpdateSackList_conc:
  assumes r: "m_sackList r = sconc isn sl" "m_nextRxSeq r = sq isn nx"
    and ok: "sacks_ok lo nx C sl" "sacks_ok lo nx C [(h, t)]" and "near lo nx"
  shows "\<exists>sl'. UpdateSackList (sq isn h) (sq isn t) r = Some (r\<lparr>m_sackList := sconc isn sl'\<rparr>) \<and> sacks_ok lo nx C sl'"
proof -
  note m = sack_merge_conc [of "[(h, t)]" lo nx C sl isn, OF _ ok(2,1)]
  let ?l = "smerge [(h, t)] sl"
  have "sacks_ok lo nx C (butlast ?l)" using m by (auto intro: sacks_ok_subset dest: in_set_butlastD)
  moreover have "seq_gt (sq isn h) (m_nextRxSeq r)" using r(2) ok(2) assms(5) by (simp add: sacks_ok_def sq_order [where lo = lo])
  moreover have "sack_merge [(sq isn h, sq isn t)] (m_sackList r) = Some (sconc isn ?l)" using m r(1) by simp
  ultimately show ?thesis
    using m by (intro exI [of _ "if length ?l > 4 then butlast ?l else ?l"]) (simp add: UpdateSackList_def)
qed

lemma ClearSack_loop_conc:
  assumes "\<forall>(x, y)\<in>set sl. near lo x \<and> near lo y \<and> x < y" and "near lo s"
  shows "ClearSack_loop (sq isn s) (sconc isn sl) = Some (sconc isn (filter (\<lambda>(x, y). s < y) sl))"
  using assms(1)
proof (induction sl)
  case (Cons b sl)
  then show ?case using sq_order [where isn = isn and lo = lo] assms(2) by (cases b) auto
qed simp

lemma Advance_rx_conc:
  assumes "blocks_ok bl" and "\<forall>(a, n)\<in>set bl. near lo a \<and> near lo (a + n)" and "near lo x"
    and "m_nextRxSeq r = sq isn x" and "m_sackList r = sconc isn sl" and "\<forall>(u, v)\<in>set sl. near lo u \<and> near lo v \<and> u < v"
    and "\<forall>(a, n)\<in>set bl. a + n \<le> x \<or> x \<le> a"
  shows "\<exists>sl'. Advance_rx (conc f isn bl) r =
      Some (r\<lparr>m_nextRxSeq := sq isn (advance bl x), m_availBytes := m_availBytes r + of_nat (advance bl x - x),
              m_sackList := sconc isn sl'\<rparr>) \<and>
    set sl' \<subseteq> set sl \<and> (x < advance bl x \<longrightarrow> (\<forall>(u, v)\<in>set sl'. advance bl x < v))"
  using assms
proof (induction bl x arbitrary: r sl rule: advance.induct)
  case (1 x)
  then show ?case by (intro exI [of _ sl]) simp
next
  case (2 a n bl x)
  have wf: "0 < n" "\<forall>(b, m)\<in>set bl. a + n \<le> b" "blocks_ok bl" "near lo a" "near lo (a + n)"
    "\<forall>(a, n)\<in>set bl. near lo a \<and> near lo (a + n)" "\<forall>(a, n)\<in>set bl. a + n \<le> x \<or> x \<le> a"
    using "2.prems"(1,2,7) by auto
  note ord = sq_order [where isn = isn and lo = lo]
  consider "a < x" | "x < a" | "a = x" by linarith
  then show ?case
  proof cases
    case 1
    then show ?thesis
      using "2.IH"(1) [OF 1 wf(3,6) "2.prems"(3-6) wf(7)] "2.prems"(3,4) wf(4) by (simp add: ord)
  next
    case 2
    then have "Advance_rx (conc f isn ((a, n) # bl)) r = Some r" "advance ((a, n) # bl) x = x"
      using "2.prems"(3,4) wf(4) by (simp_all add: ord)
    then show ?thesis using "2.prems"(4,5) by (intro exI [of _ sl]) simp
  next
    case 3
    let ?sl = "filter (\<lambda>(u, v). a + n < v) sl"
    let ?r = "r\<lparr>m_nextRxSeq := sq isn (a + n), m_availBytes := m_availBytes r + of_nat n, m_sackList := sconc isn ?sl\<rparr>"
    have c: "ClearSack_loop (sq isn (a + n)) (sconc isn sl) = Some (sconc isn ?sl)"
      by (rule ClearSack_loop_conc [OF "2.prems"(6) wf(5)])
    have step: "Advance_rx (conc f isn ((a, n) # bl)) r = Advance_rx (conc f isn bl) ?r"
      using 3 "2.prems"(3-5) wf(4) c by (simp add: ord ClearSackList_def)
    have rest: "\<forall>(b, m)\<in>set bl. b + m \<le> a + n \<or> a + n \<le> b" using wf(2) by auto
    have le: "a + n \<le> advance bl (a + n)" using advance_ok [OF wf(3) rest] by simp
    have adv: "advance ((a, n) # bl) x = advance bl (a + n)" using 3 by simp
    have sl: "\<forall>(u, v)\<in>set ?sl. near lo u \<and> near lo v \<and> u < v" using "2.prems"(6) by auto
    have r1: "m_nextRxSeq ?r = sq isn (a + n)" "m_sackList ?r = sconc isn ?sl" by simp_all
    from "2.IH"(2) [OF _ _ wf(3,6,5) r1 sl rest] 3 obtain sl' where sl':
      "Advance_rx (conc f isn bl) ?r = Some (?r\<lparr>m_nextRxSeq := sq isn (advance bl (a + n)),
         m_availBytes := m_availBytes ?r + of_nat (advance bl (a + n) - (a + n)), m_sackList := sconc isn sl'\<rparr>)"
      "set sl' \<subseteq> set ?sl" "a + n < advance bl (a + n) \<longrightarrow> (\<forall>(u, v)\<in>set sl'. advance bl (a + n) < v)"
      by auto
    have "n + (advance bl (a + n) - (a + n)) = advance bl (a + n) - x" using le 3 by simp
    then have "of_nat n + of_nat (advance bl (a + n) - (a + n)) = (of_nat (advance bl (a + n) - x) :: 32 word)"
      by (simp only: of_nat_add [symmetric])
    then have "m_availBytes r + of_nat n + of_nat (advance bl (a + n) - (a + n)) =
        m_availBytes r + of_nat (advance bl (a + n) - x)"
      by (simp only: add.assoc)
    moreover have "\<forall>(u, v)\<in>set sl'. advance bl (a + n) < v"
      using sl'(2,3) le by (cases "a + n = advance bl (a + n)") auto
    ultimately show ?thesis
      unfolding step adv using sl'(1,2) by (intro exI [of _ sl']) auto
  qed
qed

subsection \<open>The state of the buffer\<close>

text \<open>\<open>N\<close> bytes of the stream have been extracted; all positions are near \<open>N - 2 ^ 30\<close>.\<close>

definition low :: "nat \<Rightarrow> nat" where
  "low N = N - 2 ^ 30"

definition rx_blocks :: "(nat \<Rightarrow> byte) \<Rightarrow> seq32 \<Rightarrow> nat \<Rightarrow> block list \<Rightarrow> (nat \<times> nat) list \<Rightarrow> rx_buffer \<Rightarrow> bool" where
  "rx_blocks f isn N bl sl r \<longleftrightarrow> (let nx = N + unat (m_availBytes r) in
     m_data r = conc f isn bl \<and> blocks_ok bl \<and> m_nextRxSeq r = sq isn nx \<and> m_size r = of_nat (volume bl) \<and>
     {N..<nx} \<subseteq> cov bl \<and> nx \<notin> cov bl \<and> m_sackList r = sconc isn sl \<and> sacks_ok (low N) nx (cov bl) sl \<and>
     (\<forall>(a, n)\<in>set bl. N \<le> a \<and> a + n \<le> N + unat (m_maxBuffer r) + 65535) \<and>
     unat (m_maxBuffer r) \<le> 2 ^ 28 \<and> \<not> m_gotFin r)"

lemma near_N: "N \<le> x + 2 ^ 30 \<Longrightarrow> x \<le> N + 2 ^ 29 + 65535 \<Longrightarrow> near (low N) x"
  by (cases "N \<le> 2 ^ 30") (simp_all add: near_def low_def)

lemma next_bound:
  assumes "{N..<nx} \<subseteq> cov bl" and "\<forall>(a, n)\<in>set bl. a + n \<le> B" and "N \<le> B"
  shows "nx \<le> B"
proof (cases "nx \<le> N")
  case False
  then have "nx - 1 \<in> cov bl" using assms(1) by auto
  then show ?thesis using assms(2) False unfolding in_cov by fastforce
qed (use assms(3) in simp)

lemma outside_blocks: "x \<notin> cov bl \<Longrightarrow> \<forall>(a, n)\<in>set bl. a + n \<le> x \<or> x \<le> a"
  by (auto simp: in_cov)

lemma sq_minus: "a \<le> b \<Longrightarrow> b - a < 2 ^ 32 \<Longrightarrow> unat (seq_minus (sq isn b) (sq isn a)) = b - a"
  by (simp add: seq_minus_eq sq_diff)

lemma take_drop_stream:
  "s \<le> h \<Longrightarrow> h \<le> t \<Longrightarrow> t \<le> s + n \<Longrightarrow> take (t - h) (drop (h - s) (map f [s..<s + n])) = map f [h..<t]"
  by (simp add: drop_map take_map)

text \<open>The part of a segment that fits the window.\<close>

definition trim :: "block list \<Rightarrow> nat \<Rightarrow> nat \<Rightarrow> nat \<Rightarrow> nat \<Rightarrow> nat \<times> nat" where
  "trim bl mx nx s t =
     (let h = max s nx; t' = (case bl of [] \<Rightarrow> t | (a, _) # _ \<Rightarrow> min t (a + mx))
      in (if bl \<noteq> [] \<and> t' < h then t' else h, t'))"

lemma trim_window_conc:
  assumes "m_data r = conc f isn bl" "m_nextRxSeq r = sq isn nx" "near lo s" "near lo t" "near lo nx"
    and "\<forall>(a, n)\<in>set bl. near lo (a + unat (m_maxBuffer r))"
  shows "trim_window (sq isn s) (sq isn t) r =
    (sq isn (fst (trim bl (unat (m_maxBuffer r)) nx s t)), sq isn (snd (trim bl (unat (m_maxBuffer r)) nx s t)))"
proof -
  note ord = sq_order [where isn = isn and lo = lo]
  show ?thesis
  proof (cases bl)
    case Nil
    then show ?thesis using assms by (auto simp: trim_window_def trim_def ord max_def)
  next
    case (Cons b bl')
    obtain a n where b: "b = (a, n)" by (cases b)
    have m: "m_maxBuffer r = of_nat (unat (m_maxBuffer r))" by simp
    have max: "sq isn a + m_maxBuffer r = sq isn (a + unat (m_maxBuffer r))" by (subst m) (rule sq_add)
    have "near lo (a + unat (m_maxBuffer r))" using assms(6) Cons b by simp
    then show ?thesis
      using assms(1-5) Cons b by (simp add: trim_window_def trim_def ord max Let_def max_def min_def)
  qed
qed

text \<open>The path of \<open>Add\<close> that stores the bytes \<open>q\<close>.\<close>

lemma Add_stored:
  assumes "trim_window seq (seq + of_nat (length p)) r = (h0, t0)"
    and "Overlap_loop (m_data r) h0 t0 (m_size r) = (d, h, t, z)" and "\<not> seq_ge h t"
    and "take (unat (seq_minus t h)) (drop (unat (seq_minus h seq)) p) = q" and "length q = unat (seq_minus t h)"
    and "smap_find seq_lt h d = None" and "smap_assign seq_lt h q d = d'"
    and "r1 = r\<lparr>m_data := d, m_size := z\<rparr>"
    and "(if seq_gt h (m_nextRxSeq r1) then UpdateSackList h t (r1\<lparr>m_data := d'\<rparr>) else Some (r1\<lparr>m_data := d'\<rparr>)) = Some r2"
    and "Advance_rx (m_data r2) (r2\<lparr>m_size := m_size r2 + of_nat (length q)\<rparr>) = Some r3" and "\<not> m_gotFin r3"
  shows "Add p seq r = Some (True, r3)"
proof -
  have "Add p seq r = Option.bind (if seq_gt h (m_nextRxSeq r1) then UpdateSackList h t (r1\<lparr>m_data := d'\<rparr>)
        else Some (r1\<lparr>m_data := d'\<rparr>)) (\<lambda>r2. Option.bind (Advance_rx (m_data r2) (r2\<lparr>m_size := m_size r2 + of_nat (length q)\<rparr>))
          (\<lambda>r3. Some (True, if m_gotFin r3 \<and> m_nextRxSeq r3 = m_finSeq r3 then r3\<lparr>m_nextRxSeq := m_nextRxSeq r3 + 1\<rparr> else r3)))"
    unfolding Add_def assms(1) prod.case assms(2) Let_def assms(4) assms(8) [symmetric] assms(7)
    using assms(3,5,6) by simp
  then show ?thesis unfolding assms(9) using assms(10,11) by simp
qed

lemma Add_ok:
  assumes inv: "rx_blocks f isn N bl sl r" and s: "N \<le> s + 2 ^ 30" "s < N + unat (m_maxBuffer r)" and n: "n \<le> 65535"
  defines "nx \<equiv> N + unat (m_availBytes r)"
  shows "\<exists>b bl' sl' r'. Add (map f [s..<s + n]) (sq isn s) r = Some (b, r') \<and> rx_blocks f isn N bl' sl' r' \<and>
    m_maxBuffer r' = m_maxBuffer r \<and>
    cov bl' = cov bl \<union> {fst (trim bl (unat (m_maxBuffer r)) nx s (s + n))..<snd (trim bl (unat (m_maxBuffer r)) nx s (s + n))}"
proof -
  let ?lo = "low N" and ?mx = "unat (m_maxBuffer r)"
  let ?B = "N + ?mx + 65535"
  note i = inv [unfolded rx_blocks_def Let_def, folded nx_def]
  have mx: "?mx \<le> 2 ^ 28" and blk: "\<forall>(a, n)\<in>set bl. N \<le> a \<and> a + n \<le> ?B" using i by blast+
  have nx: "N \<le> nx" "nx \<le> ?B" using next_bound [of N nx bl ?B] i blk by (auto simp: nx_def)
  have near_blk: "\<forall>(a, n)\<in>set bl. near ?lo a \<and> near ?lo (a + n)" using blk mx by (auto intro!: near_N)
  obtain h0 t0 where h0: "trim bl ?mx nx s (s + n) = (h0, t0)" by fastforce
  have t0: "t0 \<le> s + n" "N \<le> t0 + 2 ^ 30" "N \<le> h0 + 2 ^ 30" "h0 \<le> ?B" "t0 \<le> ?B" "h0 \<le> t0 \<Longrightarrow> nx \<le> h0 \<or> h0 = t0" "h0 < t0 \<Longrightarrow> s \<le> h0 \<and> nx \<le> h0"
    using h0 blk s n nx by (auto simp: trim_def Let_def max_def min_def split: if_splits list.splits)
  have near_s: "near ?lo s" "near ?lo (s + n)" "near ?lo nx" "near ?lo h0" "near ?lo t0"
    by (rule near_N; use s n nx t0 mx in simp)+
  have trim: "trim_window (sq isn s) (sq isn (s + n)) r = (sq isn h0, sq isn t0)"
  proof -
    have "\<forall>(a, n)\<in>set bl. near ?lo (a + ?mx)"
      using blk mx by (auto intro!: near_N)
    then show ?thesis
      using trim_window_conc [of r f isn bl nx ?lo s "s + n"] i h0 near_s by simp
  qed
  obtain bl1 h1 t1 where ov: "overlap bl h0 t0 = (bl1, h1, t1)" by (metis prod_cases3)
  note o = overlap_ok [OF _ ov]
  have o: "blocks_ok bl1" "set bl1 \<subseteq> set bl" "h0 \<le> h1" "t1 \<le> t0" "cov bl1 \<union> {h1..<t1} = cov bl \<union> {h0..<t0}"
    "h1 < t1 \<Longrightarrow> \<forall>(a, n)\<in>set bl1. a + n \<le> h1 \<or> t1 \<le> a"
    using overlap_ok [OF _ ov] i by blast+
  have oc: "Overlap_loop (m_data r) (sq isn h0) (sq isn t0) (m_size r) =
      (conc f isn bl1, sq isn h1, sq isn t1, of_nat (volume bl1))" "near ?lo h1" "near ?lo t1"
    using Overlap_loop_conc [OF near_blk near_s(4,5) ov, of f isn 0] i by simp_all
  have blk1: "\<forall>(a, n)\<in>set bl1. N \<le> a \<and> a + n \<le> ?B" using blk o(2) by blast
  let ?r1 = "r\<lparr>m_data := conc f isn bl1, m_size := of_nat (volume bl1)\<rparr>"
  show ?thesis
  proof (cases "h1 < t1")
    case False
    then have e: "cov bl1 = cov bl \<union> {h0..<t0}" using o(5) by simp
    have "cov bl1 \<subseteq> cov bl" using o(2) unfolding cov_def by blast
    then have c: "cov bl1 = cov bl" using e by blast
    have "Add (map f [s..<s + n]) (sq isn s) r = Some (False, ?r1)"
      using False trim oc sq_order(4) [OF oc(2,3), of isn] by (simp add: Add_def)
    moreover have "rx_blocks f isn N bl1 sl ?r1"
      using i o(1) blk1 c unfolding rx_blocks_def by (simp add: nx_def Let_def)
    ultimately show ?thesis using e unfolding h0
      by - (rule exI [of _ False], rule exI [of _ bl1], rule exI [of _ sl], rule exI [of _ ?r1], simp)
  next
    case True
    have h0t0: "h0 < t0" "s \<le> h0" "nx \<le> h0" using True o(3,4) t0(7) by simp_all
    let ?n = "t1 - h1" let ?bl = "insert_block (h1, ?n) bl1"
    have hn: "h1 + ?n = t1" "0 < ?n" using True by simp_all
    have dj: "\<forall>(a, m)\<in>set bl1. a + m \<le> h1 \<or> h1 + ?n \<le> a" using o(6) [OF True] hn(1) by simp
    have near1: "\<forall>(a, m)\<in>set bl1. near ?lo a \<and> near ?lo (a + m)" using near_blk o(2) by blast
    have sm: "smap_find seq_lt (sq isn h1) (conc f isn bl1) = None"
      "smap_assign seq_lt (sq isn h1) (map f [h1..<t1]) (conc f isn bl1) = conc f isn ?bl"
      using smap_conc [OF o(1) hn(2), of h1 ?lo isn f] dj near1 oc(2) hn(1) by auto
    have ok: "blocks_ok ?bl" by (rule insert_block_ok [OF o(1) hn(2) dj])
    have c: "cov ?bl = cov bl \<union> {h0..<t0}" using o(5) hn(1) by (simp add: Un_commute)
    have start: "unat (seq_minus (sq isn h1) (sq isn s)) = h1 - s" "unat (seq_minus (sq isn t1) (sq isn h1)) = ?n"
      using True o(3,4) h0t0(2) t0(1) n by (auto intro!: sq_minus)
    have q: "take ?n (drop (h1 - s) (map f [s..<s + n])) = map f [h1..<t1]"
      using True o(3,4) h0t0(2) t0(1) by (intro take_drop_stream) simp_all
    let ?r2 = "?r1\<lparr>m_data := conc f isn ?bl\<rparr>"
    have nh: "nx \<le> h1" using h0t0(3) o(3) by simp
    have sacks: "sacks_ok ?lo nx (cov ?bl) sl" using i unfolding c sacks_ok_def by blast
    have "\<exists>sl1. (if seq_gt (sq isn h1) (m_nextRxSeq ?r1) then UpdateSackList (sq isn h1) (sq isn t1) ?r2 else Some ?r2) =
        Some (?r2\<lparr>m_sackList := sconc isn sl1\<rparr>) \<and> sacks_ok ?lo nx (cov ?bl) sl1"
    proof (cases "nx < h1")
      case True
      have "sacks_ok ?lo nx (cov ?bl) [(h1, t1)]"
        using True oc(2,3) \<open>h1 < t1\<close> hn(1) by (simp add: sacks_ok_def)
      with UpdateSackList_conc [of ?r2 isn sl nx ?lo "cov ?bl" h1 t1] sacks near_s(3)
      show ?thesis using i True sq_order(1) [OF oc(2) near_s(3), of isn] by simp
    next
      case False
      then show ?thesis
        using i sacks sq_order(1) [OF oc(2) near_s(3), of isn] by (intro exI [of _ sl]) simp
    qed
    then obtain sl1 where sl1: "(if seq_gt (sq isn h1) (m_nextRxSeq ?r1)
          then UpdateSackList (sq isn h1) (sq isn t1) ?r2 else Some ?r2) = Some (?r2\<lparr>m_sackList := sconc isn sl1\<rparr>)"
      "sacks_ok ?lo nx (cov ?bl) sl1" by blast
    let ?rs = "?r2\<lparr>m_sackList := sconc isn sl1\<rparr>" let ?r3 = "?rs\<lparr>m_size := m_size ?rs + of_nat (length (map f [h1..<t1]))\<rparr>"
    define nx2 where "nx2 = advance ?bl nx"
    have nearbl: "\<forall>(a, m)\<in>set ?bl. near ?lo a \<and> near ?lo (a + m)" using near1 oc(2,3) hn(1) by simp
    have cut: "\<forall>(a, m)\<in>set ?bl. a + m \<le> nx \<or> nx \<le> a"
      using outside_blocks [of nx bl] i o(2) nh by auto
    note av = advance_ok [OF ok cut, folded nx2_def]
    have "\<exists>sl2. Advance_rx (conc f isn ?bl) ?r3 = Some (?r3\<lparr>m_nextRxSeq := sq isn nx2,
        m_availBytes := m_availBytes ?r3 + of_nat (nx2 - nx), m_sackList := sconc isn sl2\<rparr>) \<and>
        set sl2 \<subseteq> set sl1 \<and> (nx < nx2 \<longrightarrow> (\<forall>(u, v)\<in>set sl2. nx2 < v))"
      unfolding nx2_def
      by (rule Advance_rx_conc [OF ok nearbl near_s(3) _ _ _ cut]) (use i sl1(2) in \<open>auto simp: sacks_ok_def\<close>)
    then obtain sl2 where sl2: "Advance_rx (conc f isn ?bl) ?r3 = Some (?r3\<lparr>m_nextRxSeq := sq isn nx2,
        m_availBytes := m_availBytes ?r3 + of_nat (nx2 - nx), m_sackList := sconc isn sl2\<rparr>)"
      "set sl2 \<subseteq> set sl1" "nx < nx2 \<longrightarrow> (\<forall>(u, v)\<in>set sl2. nx2 < v)" by blast
    let ?r4 = "?r3\<lparr>m_nextRxSeq := sq isn nx2, m_availBytes := m_availBytes ?r3 + of_nat (nx2 - nx), m_sackList := sconc isn sl2\<rparr>"
    have add: "Add (map f [s..<s + n]) (sq isn s) r = Some (True, ?r4)"
    proof (rule Add_stored [OF _ oc(1) _ _ _ sm refl sl1(1)])
      show "trim_window (sq isn s) (sq isn s + of_nat (length (map f [s..<s + n]))) r = (sq isn h0, sq isn t0)"
        using trim by simp
      show "\<not> seq_ge (sq isn h1) (sq isn t1)" using True sq_order(4) [OF oc(2,3), of isn] by simp
      show "take (unat (seq_minus (sq isn t1) (sq isn h1)))
          (drop (unat (seq_minus (sq isn h1) (sq isn s))) (map f [s..<s + n])) = map f [h1..<t1]"
        unfolding start by (rule q)
      show "length (map f [h1..<t1]) = unat (seq_minus (sq isn t1) (sq isn h1))" using start by simp
      show "Advance_rx (m_data ?rs) ?r3 = Some ?r4" using sl2(1) by simp
      show "\<not> m_gotFin ?r4" using i by simp
    qed
    have blk2: "\<forall>(a, m)\<in>set ?bl. N \<le> a \<and> a + m \<le> ?B"
      using blk1 nx(1) nh hn(1) o(4) t0(5) by simp
    have cover: "{N..<nx2} \<subseteq> cov ?bl"
    proof -
      have "{N..<nx2} \<subseteq> {N..<nx} \<union> {nx..<nx2}" by auto
      then show ?thesis using av i unfolding c by blast
    qed
    then have "nx2 \<le> ?B" by (rule next_bound) (use blk2 in auto)
    then have "unat (m_availBytes r) + (nx2 - nx) < 2 ^ 32" "nx2 = N + (unat (m_availBytes r) + (nx2 - nx))"
      using av mx by (simp_all add: nx_def)
    then have avail: "N + unat (m_availBytes r + of_nat (nx2 - nx)) = nx2"
      by (simp add: unat_word_ariths unat_of_nat)
    have "sacks_ok ?lo nx2 (cov ?bl) sl2"
    proof (cases "nx < nx2")
      case True
      have "nx2 < u" if "(u, v) \<in> set sl2" for u v
      proof -
        have "{u..<v} \<subseteq> cov ?bl" "nx2 < v" using that sl1(2) sl2(2,3) True unfolding sacks_ok_def by blast+
        then show ?thesis using av by (metis atLeastLessThan_iff not_le subsetD)
      qed
      then show ?thesis using sl1(2) sl2(2) unfolding sacks_ok_def by blast
    next
      case False
      then have "nx2 = nx" using av by simp
      then show ?thesis using sacks_ok_subset [OF sl1(2) sl2(2)] by simp
    qed
    then have "rx_blocks f isn N ?bl sl2 ?r4"
      using i ok cover av blk2 avail unfolding rx_blocks_def by (simp add: Let_def add.commute)
    then show ?thesis using add c unfolding h0
      by - (rule exI [of _ True], rule exI [of _ ?bl], rule exI [of _ sl2], rule exI [of _ ?r4], simp)
  qed
qed

subsection \<open>Extracting\<close>

lemma cov_low: "\<forall>(a, n)\<in>set bl. N \<le> a \<Longrightarrow> cov bl - {..<N} = cov bl"
  by (fastforce simp: cov_def)

lemma Extract_loop_conc:
  assumes "blocks_ok bl" and "{N..<N + k} \<subseteq> cov bl" and "\<forall>(a, n)\<in>set bl. N \<le> a" and "N + k \<le> nx"
    and "\<forall>(a, n)\<in>set bl. near lo a \<and> near lo (a + n)" and "near lo nx"
  shows "\<exists>bl'. Extract_loop (sq isn nx) k (conc f isn bl) (z + of_nat (volume bl)) (v + of_nat k) out =
      Some (conc f isn bl', z + of_nat (volume bl'), v, out @ map f [N..<N + k]) \<and>
    blocks_ok bl' \<and> cov bl' = cov bl - {..<N + k} \<and> (\<forall>(a, n)\<in>set bl'. N + k \<le> a \<and> (\<exists>(b, m)\<in>set bl. a + n = b + m))"
  using assms
proof (induction bl arbitrary: N k out)
  case Nil
  then have "k = 0" by (cases k) auto
  then show ?case by (intro exI [of _ "[]"]) (simp add: Extract_loop.simps)
next
  case (Cons b bl)
  obtain a n where b: "b = (a, n)" by (cases b)
  have wf: "0 < n" "\<forall>(c, m)\<in>set bl. a + n \<le> c" "blocks_ok bl" "N \<le> a" "near lo a" "near lo (a + n)"
    and rest: "\<forall>(a, n)\<in>set bl. near lo a \<and> near lo (a + n)"
    using Cons.prems b by auto
  show ?case
  proof (cases "k = 0")
    case True
    have c: "cov (b # bl) - {..<N} = cov (b # bl)" by (rule cov_low [OF Cons.prems(3)])
    have e: "\<forall>(a, n)\<in>set (b # bl). \<exists>(c, m)\<in>set (b # bl). a + n = c + m" by auto
    have "\<forall>(a, n)\<in>set (b # bl). N \<le> a \<and> (\<exists>(c, m)\<in>set (b # bl). a + n = c + m)"
      using Cons.prems(3) e by blast
    then show ?thesis
      using True Cons.prems(1) c by - (rule exI [of _ "b # bl"], subst Extract_loop.simps, simp)
  next
    case False
    have "N \<in> cov (b # bl)" using Cons.prems(2) False by auto
    then have aN: "a = N" using wf(2,4) by (fastforce simp: b in_cov)
    have le: "seq_le (sq isn a) (sq isn nx)"
      using sq_order(3) [OF wf(5) Cons.prems(6)] aN Cons.prems(4) by simp
    show ?thesis
    proof (cases "n \<le> k")
      case True
      have c: "{N + n..<N + n + (k - n)} \<subseteq> cov bl"
      proof
        fix x assume x: "x \<in> {N + n..<N + n + (k - n)}"
        then have "x \<in> cov (b # bl)" using Cons.prems(2) True by auto
        then show "x \<in> cov bl" using x aN by (simp add: b)
      qed
      have low: "\<forall>(a, m)\<in>set bl. N + n \<le> a" using wf(2) aN by simp
      have le': "N + n + (k - n) \<le> nx" using Cons.prems(4) True by simp
      obtain bl' where bl': "Extract_loop (sq isn nx) (k - n) (conc f isn bl) (z + of_nat (volume bl)) (v + of_nat (k - n))
          (out @ map f [N..<N + n]) = Some (conc f isn bl', z + of_nat (volume bl'), v,
            (out @ map f [N..<N + n]) @ map f [N + n..<N + n + (k - n)])"
        "blocks_ok bl'" "cov bl' = cov bl - {..<N + n + (k - n)}"
        "\<forall>(a, m)\<in>set bl'. N + n + (k - n) \<le> a \<and> (\<exists>(c, m')\<in>set bl. a + m = c + m')"
        using Cons.IH [OF wf(3) c low le' rest Cons.prems(6)] by blast
      have sum: "N + n + (k - n) = N + k" using True by simp
      have words: "z + of_nat (volume (b # bl)) - of_nat n = z + of_nat (volume bl)"
        "v + of_nat k - of_nat n = v + of_nat (k - n)"
        using True by (simp_all add: b of_nat_diff)
      have step: "Extract_loop (sq isn nx) k (conc f isn (b # bl)) (z + of_nat (volume (b # bl))) (v + of_nat k) out =
          Extract_loop (sq isn nx) (k - n) (conc f isn bl) (z + of_nat (volume bl)) (v + of_nat (k - n))
            (out @ map f [N..<N + n])"
        unfolding words [symmetric] using False True le
        by (subst Extract_loop.simps) (simp add: b aN del: volume_simps)
      have "map f [N..<N + n] @ map f [N + n..<N + k] = map f [N..<N + k]"
        using upt_add_eq_append [of N "N + n" "k - n"] True by (simp flip: map_append)
      moreover have "cov bl' = cov (b # bl) - {..<N + k}"
        unfolding bl'(3) sum using aN True by (auto simp: b)
      ultimately show ?thesis
        unfolding step using bl' [unfolded sum] by (intro exI [of _ bl']) (auto simp: b)
    next
      case part: False
      let ?bl = "(N + k, n - k) # bl"
      have fin: "N + k + (n - k) = a + n" using part aN by simp
      have nk: "near lo (N + k)" using wf(5,6) part aN by (simp add: near_def)
      have ord: "seq_lt (sq isn (N + k)) (sq isn a) = False" "seq_lt (sq isn a) (sq isn (N + k)) = True"
        using sq_order(2) [OF nk wf(5)] sq_order(2) [OF wf(5) nk] False aN by simp_all
      have ins: "smap_assign seq_lt (sq isn (N + k)) d (conc f isn bl) = (sq isn (N + k), d) # conc f isn bl" for d
      proof (cases bl)
        case (Cons c bl2)
        obtain e m where c: "c = (e, m)" by (cases c)
        have "N + k < e" "near lo e" using wf(2) rest Cons c part aN by auto
        then show ?thesis using Cons c sq_order(2) [OF nk \<open>near lo e\<close>, of isn] by simp
      qed simp
      have drp: "drop k (map f [a..<a + n]) = map f [N + k..<N + k + (n - k)]"
        using fin aN by (simp add: drop_map)
      have words: "z + of_nat (volume (b # bl)) - of_nat k = z + of_nat (volume ?bl)"
        using part by (simp add: b of_nat_diff)
      have "Extract_loop (sq isn nx) k (conc f isn (b # bl)) (z + of_nat (volume (b # bl))) (v + of_nat k) out =
          Some (conc f isn ?bl, z + of_nat (volume ?bl), v, out @ map f [N..<N + k])"
        unfolding words [symmetric] using False part le ord ins aN drp
        by (subst Extract_loop.simps) (simp add: b take_map seq_lt_irrefl del: volume_simps)
      moreover have "blocks_ok ?bl" using wf part fin by auto
      moreover have "cov ?bl = cov (b # bl) - {..<N + k}"
      proof -
        have "x \<notin> {..<N + k}" if "x \<in> cov bl" for x using that wf(2) part aN unfolding in_cov by fastforce
        then show ?thesis using part aN by (auto simp: b)
      qed
      moreover have "\<forall>(c, m)\<in>set ?bl. N + k \<le> c \<and> (\<exists>(e, m')\<in>set (b # bl). c + m = e + m')"
        using wf(2) part aN fin by (auto simp: b)
      ultimately show ?thesis by blast
    qed
  qed
qed

lemma Extract_ok:
  fixes maxSize :: "32 word"
  assumes inv: "rx_blocks f isn N bl sl r"
  defines "k \<equiv> min (unat maxSize) (unat (m_availBytes r))"
  shows "\<exists>bl' r'. Extract maxSize r = Some (if k = 0 then None else Some (map f [N..<N + k]), r') \<and>
    rx_blocks f isn (N + k) bl' sl r' \<and> m_maxBuffer r' = m_maxBuffer r \<and> cov bl' = cov bl - {..<N + k}"
proof -
  let ?lo = "low N" let ?nx = "N + unat (m_availBytes r)"
  note i = inv [unfolded rx_blocks_def Let_def]
  have u: "unat (min maxSize (m_availBytes r)) = k" by (simp add: k_def min_def word_le_nat_alt)
  have blk: "\<forall>(a, n)\<in>set bl. N \<le> a \<and> a + n \<le> N + unat (m_maxBuffer r) + 65535" and mx: "unat (m_maxBuffer r) \<le> 2 ^ 28"
    using i by blast+
  show ?thesis
  proof (cases "k = 0")
    case True
    then have "min maxSize (m_availBytes r) = 0" using u by (simp add: unat_eq_zero)
    moreover have "cov bl - {..<N} = cov bl" by (rule cov_low) (use blk in auto)
    ultimately show ?thesis using True inv by (intro exI [of _ bl] exI [of _ r]) (simp add: Extract_def)
  next
    case False
    have kk: "k \<le> unat (m_availBytes r)" by (simp add: k_def)
    have sub: "{N..<N + k} \<subseteq> cov bl" using i kk by auto
    have near: "\<forall>(a, n)\<in>set bl. near ?lo a \<and> near ?lo (a + n)" using blk mx by (auto intro!: near_N)
    have "?nx \<le> N + unat (m_maxBuffer r) + 65535" by (rule next_bound [of N _ bl]) (use i blk in auto)
    then have nnx: "near ?lo ?nx" using mx by (intro near_N) simp_all
    have wf: "blocks_ok bl" and low: "\<forall>(a, n)\<in>set bl. N \<le> a" and le: "N + k \<le> ?nx" using i blk kk by auto
    obtain bl' where bl': "Extract_loop (sq isn ?nx) k (conc f isn bl) (0 + of_nat (volume bl))
        ((m_availBytes r - of_nat k) + of_nat k) [] = Some (conc f isn bl', 0 + of_nat (volume bl'), m_availBytes r - of_nat k,
          [] @ map f [N..<N + k])" "blocks_ok bl'" "cov bl' = cov bl - {..<N + k}"
      "\<forall>(a, n)\<in>set bl'. N + k \<le> a \<and> (\<exists>(b, m)\<in>set bl. a + n = b + m)"
      using Extract_loop_conc [OF wf sub low le near nnx] by blast
    let ?r = "r\<lparr>m_data := conc f isn bl', m_size := of_nat (volume bl'), m_availBytes := m_availBytes r - of_nat k\<rparr>"
    have "min maxSize (m_availBytes r) \<noteq> 0" using u False by (auto simp: unat_eq_zero)
    moreover have "bl \<noteq> []" using sub False by (cases k) auto
    ultimately have "Extract maxSize r = Some (Some (map f [N..<N + k]), ?r)"
      using i bl'(1) u False by (simp add: Extract_def Let_def)
    moreover have "rx_blocks f isn (N + k) bl' sl ?r"
    proof -
      have "unat (of_nat k :: 32 word) = k"
        unfolding unat_of_nat using kk unat_lt32 [of "m_availBytes r"] by (intro mod_less) simp
      then have "unat (m_availBytes r - of_nat k) = unat (m_availBytes r) - k"
        using kk unat_sub [of "of_nat k" "m_availBytes r"] by (simp add: word_le_nat_alt)
      then have nx: "N + k + unat (m_availBytes ?r) = ?nx" using kk by simp
      have "sacks_ok (low (N + k)) ?nx (cov bl') sl"
        unfolding sacks_ok_def
      proof (clarify, intro conjI)
        fix x y assume "(x, y) \<in> set sl"
        then have s: "near ?lo x" "near ?lo y" "?nx < x" "x < y" "{x..<y} \<subseteq> cov bl" using i unfolding sacks_ok_def by blast+
        show "near (low (N + k)) x" "near (low (N + k)) y" "?nx < x" "x < y" "{x..<y} \<subseteq> cov bl'"
          using s kk unfolding bl'(3) by (auto simp: near_def low_def)
      qed
      moreover have "\<forall>(a, n)\<in>set bl'. N + k \<le> a \<and> a + n \<le> N + k + unat (m_maxBuffer r) + 65535"
        using bl'(4) blk by fastforce
      moreover have "{N + k..<?nx} \<subseteq> cov bl'" "?nx \<notin> cov bl'" using i unfolding bl'(3) by auto
      ultimately show ?thesis
        unfolding rx_blocks_def Let_def nx using i bl'(2) by simp
    qed
    ultimately show ?thesis using False bl'(3) by (intro exI [of _ bl'] exI [of _ ?r]) simp
  qed
qed

end
