(* ===== verification/Tcp_Rx_Props.thy ===== *)
theory Tcp_Rx_Props
  imports Tcp_Rx_Inv
begin

text \<open>The receive buffer gives the application the sender's byte stream.\<close>

text \<open>
  A connection whose peer sends the stream \<open>f\<close> from the initial sequence number \<open>isn\<close>: segments come
  in any order and any number of times, also overlapping, and the application extracts bytes; \<open>N\<close>
  counts what it has got. A segment starts at or before the end of the window
  (\<open>TcpSocketBase::OutOfRange\<close>) and is not older than \<open>2 ^ 30\<close> bytes.
\<close>

inductive rx_stream :: "(nat \<Rightarrow> byte) \<Rightarrow> seq32 \<Rightarrow> nat \<Rightarrow> rx_buffer \<Rightarrow> bool" for f isn where
  stream_init: "unat mx \<le> 2 ^ 28 \<Longrightarrow> rx_stream f isn 0 (SetMaxBufferSize mx (TcpRxBuffer isn))"
| stream_add: "rx_stream f isn N r \<Longrightarrow> N \<le> s + 2 ^ 30 \<Longrightarrow> s < N + unat (m_maxBuffer r) \<Longrightarrow> n \<le> 65535 \<Longrightarrow>
    Add (map f [s..<s + n]) (sq isn s) r = Some (b, r') \<Longrightarrow> rx_stream f isn N r'"
| stream_extract: "rx_stream f isn N r \<Longrightarrow> Extract maxSize r = Some (out, r') \<Longrightarrow>
    rx_stream f isn (N + length (case out of None \<Rightarrow> [] | Some p \<Rightarrow> p)) r'"

lemma rx_stream_blocks: "rx_stream f isn N r \<Longrightarrow> \<exists>bl sl. rx_blocks f isn N bl sl r"
proof (induction rule: rx_stream.induct)
  case (stream_init mx)
  have "rx_blocks f isn 0 [] [] (SetMaxBufferSize mx (TcpRxBuffer isn))"
    using stream_init by (simp add: rx_blocks_def TcpRxBuffer_def SetMaxBufferSize_def sacks_ok_def sq_def)
  then show ?case by blast
next
  case (stream_add N r s n b r')
  then obtain bl sl where "rx_blocks f isn N bl sl r" by blast
  from Add_ok [OF this stream_add.hyps(2,3,4)] stream_add.hyps(5) show ?case by auto
next
  case (stream_extract N r maxSize out r')
  then obtain bl sl where "rx_blocks f isn N bl sl r" by blast
  from Extract_ok [OF this, of maxSize] stream_extract.hyps(2) show ?case
    by (auto split: if_splits)
qed

text \<open>C24: \<open>Extract\<close> never fails and gives exactly the next bytes of the stream, as many as asked for and
  available; no segment makes \<open>Add\<close> fail, and the bytes available are the bytes of the stream up to
  \<open>m_nextRxSeq\<close>.\<close>

theorem tcp_reassembly:
  fixes maxSize :: "32 word"
  assumes "rx_stream f isn N r"
  defines "k \<equiv> min (unat maxSize) (unat (m_availBytes r))"
  shows "\<exists>r'. Extract maxSize r = Some (if k = 0 then None else Some (map f [N..<N + k]), r') \<and>
    m_nextRxSeq r = isn + of_nat (N + unat (m_availBytes r)) \<and>
    (\<forall>s n. N \<le> s + 2 ^ 30 \<and> s < N + unat (m_maxBuffer r) \<and> n \<le> 65535 \<longrightarrow>
       Add (map f [s..<s + n]) (isn + of_nat s) r \<noteq> None)"
proof -
  obtain bl sl where inv: "rx_blocks f isn N bl sl r" using rx_stream_blocks [OF assms(1)] by blast
  have "\<forall>s n. N \<le> s + 2 ^ 30 \<and> s < N + unat (m_maxBuffer r) \<and> n \<le> 65535 \<longrightarrow>
      Add (map f [s..<s + n]) (isn + of_nat s) r \<noteq> None"
    using Add_ok [OF inv] unfolding sq_def by fastforce
  moreover have "m_nextRxSeq r = isn + of_nat (N + unat (m_availBytes r))"
    using inv by (simp add: rx_blocks_def Let_def sq_def)
  ultimately show ?thesis
    using Extract_ok [OF inv, of maxSize] unfolding k_def by blast
qed

text \<open>A stream whose sequence numbers wrap around, received in reverse order with an overlap.\<close>

definition bytes :: "nat \<Rightarrow> byte" where
  "bytes i = of_nat i"

definition rx_abc :: "nat \<Rightarrow> rx_buffer" where
  "rx_abc i = (let r0 = SetMaxBufferSize 100 (TcpRxBuffer (- 3));
       r1 = snd (the (Add (map bytes [4..<4 + 4]) (- 3 + 4) r0))
     in if i = 0 then r0 else if i = 1 then r1 else snd (the (Add (map bytes [0..<0 + 6]) (- 3 + 0) r1)))"

lemma rx_abc_add:
  "Add (map bytes [4..<4 + 4]) (- 3 + of_nat 4) (rx_abc 0) = Some (True, rx_abc 1)"
  "Add (map bytes [0..<0 + 6]) (- 3 + of_nat 0) (rx_abc 1) = Some (True, rx_abc 2)"
  "m_maxBuffer (rx_abc 0) = 100" "m_maxBuffer (rx_abc 1) = 100" "m_availBytes (rx_abc 2) = 8"
  by code_simp+

lemma rx_abc_stream: "rx_stream bytes (- 3) 0 (rx_abc 1)" "rx_stream bytes (- 3) 0 (rx_abc 2)"
proof -
  have 0: "rx_stream bytes (- 3) 0 (rx_abc 0)" unfolding rx_abc_def Let_def by (simp add: stream_init)
  note add = rx_abc_add(1,2) [folded sq_def]
  from stream_add [OF 0 _ _ _ add(1)] show 1: "rx_stream bytes (- 3) 0 (rx_abc 1)" by (simp add: rx_abc_add(3))
  from stream_add [OF 1 _ _ _ add(2)] show "rx_stream bytes (- 3) 0 (rx_abc 2)" by (simp add: rx_abc_add(4) [unfolded One_nat_def])
qed

theorem tcp_reassembly_witness:
  "\<exists>r'. Extract 5 (rx_abc 2) = Some (Some [0, 1, 2, 3, 4], r') \<and> m_nextRxSeq (rx_abc 2) = 5"
proof -
  have "map bytes [0..<0 + 5] = [0, 1, 2, 3, 4]" by (simp add: bytes_def upt_rec)
  then show ?thesis
    using tcp_reassembly [OF rx_abc_stream(2), of 5] by (auto simp: rx_abc_add(5))
qed

text \<open>C25: a segment that is accepted makes progress: what is available afterwards reaches at least to the end
  of the segment, cut to the window, when the segment starts at or before the next expected byte; no byte
  that was available is lost.\<close>

theorem tcp_add_progress:
  assumes "rx_stream f isn N r" and "N \<le> s + 2 ^ 30" and "s < N + unat (m_maxBuffer r)" and "n \<le> 65535"
    and "Add (map f [s..<s + n]) (isn + of_nat s) r = Some (b, r')"
  shows "m_availBytes r \<le> m_availBytes r' \<and>
    (s \<le> N + unat (m_availBytes r) \<longrightarrow> min (s + n) (N + unat (m_maxBuffer r)) \<le> N + unat (m_availBytes r'))"
proof -
  obtain bl sl where inv: "rx_blocks f isn N bl sl r" using rx_stream_blocks [OF assms(1)] by blast
  let ?mx = "unat (m_maxBuffer r)" and ?nx = "N + unat (m_availBytes r)"
  obtain bl' sl' where inv': "rx_blocks f isn N bl' sl' r'"
    and c: "cov bl' = cov bl \<union> {fst (trim bl ?mx ?nx s (s + n))..<snd (trim bl ?mx ?nx s (s + n))}"
    using Add_ok [OF inv assms(2-4)] assms(5) unfolding sq_def by auto
  note i = inv [unfolded rx_blocks_def Let_def] and i' = inv' [unfolded rx_blocks_def Let_def]
  let ?nx' = "N + unat (m_availBytes r')"
  have nx': "?nx' \<notin> cov bl'" using i' by blast
  have le: "?nx \<le> ?nx'"
  proof (rule ccontr)
    assume "\<not> ?thesis"
    then have "?nx' \<in> {N..<?nx}" by simp
    then show False using nx' i unfolding c by blast
  qed
  have "min (s + n) (N + ?mx) \<le> ?nx'" if s: "s \<le> ?nx"
  proof (rule ccontr)
    assume a: "\<not> ?thesis"
    have "?nx' \<in> {fst (trim bl ?mx ?nx s (s + n))..<snd (trim bl ?mx ?nx s (s + n))}"
      using a le s i by (cases bl) (auto simp: trim_def Let_def max_def min_def split: if_splits)
    then show False using nx' unfolding c by blast
  qed
  then show ?thesis using le by (simp add: word_le_nat_alt)
qed

theorem tcp_add_progress_witness:
  "m_availBytes (rx_abc 1) \<le> m_availBytes (rx_abc 2) \<and> 6 \<le> unat (m_availBytes (rx_abc 2))"
  using tcp_add_progress [OF rx_abc_stream(1) _ _ _ rx_abc_add(2)] by (simp add: rx_abc_add(4) [unfolded One_nat_def])

subsection \<open>SACK blocks that overlap\<close>










end
