(* ===== verification/Queue_Limits.thy ===== *)
theory Queue_Limits
  imports Prelude
begin

text \<open>
  Dynamic queue limits, \<open>network/utils/dynamic-queue-limits.cc\<close>: the number of objects that may be
  in flight between a producer and a device, adapted at each completion. Counters are 32-bit words
  that wrap; \<open>now\<close> is \<open>Simulator::Now()\<close>. A failed assertion is \<open>None\<close>.
\<close>

definition UINTMAX :: "32 word" where "UINTMAX = 0xffffffff"
definition DQL_MAX_OBJECT :: "32 word" where "DQL_MAX_OBJECT = UINTMAX div 16"
definition DQL_MAX_LIMIT :: "32 word" where "DQL_MAX_LIMIT = UINTMAX div 2 - DQL_MAX_OBJECT"

record dql =
  m_numQueued :: "32 word"
  m_adjLimit :: "32 word"
  m_lastObjCnt :: "32 word"
  m_limit :: "32 word"
  m_numCompleted :: "32 word"
  m_prevOvlimit :: "32 word"
  m_prevNumQueued :: "32 word"
  m_prevLastObjCnt :: "32 word"
  m_lowestSlack :: "32 word"
  m_slackStartTime :: int
  m_maxLimit :: "32 word"
  m_minLimit :: "32 word"
  m_slackHoldTime :: int

text \<open>The arguments are converted to \<open>int32_t\<close>; a difference that leaves 32 bits wraps.\<close>

definition Posdiff :: "32 word \<Rightarrow> 32 word \<Rightarrow> 32 word" where
  "Posdiff a b = (if 0 < sint (a - b) then a - b else 0)"

definition Reset :: "int \<Rightarrow> dql \<Rightarrow> dql" where
  "Reset now q = q\<lparr>m_limit := 0, m_numQueued := 0, m_numCompleted := 0, m_lastObjCnt := 0,
     m_prevNumQueued := 0, m_prevLastObjCnt := 0, m_prevOvlimit := 0, m_lowestSlack := UINTMAX,
     m_slackStartTime := now\<rparr>"

text \<open>The constructor: the initial values of the class, the attributes, then \<open>Reset\<close>.\<close>

definition DynamicQueueLimits :: "int \<Rightarrow> 32 word \<Rightarrow> 32 word \<Rightarrow> int \<Rightarrow> dql" where
  "DynamicQueueLimits holdTime maxLimit minLimit now =
     Reset now \<lparr>m_numQueued = 0, m_adjLimit = 0, m_lastObjCnt = 0, m_limit = 0, m_numCompleted = 0,
       m_prevOvlimit = 0, m_prevNumQueued = 0, m_prevLastObjCnt = 0, m_lowestSlack = UINTMAX,
       m_slackStartTime = 0, m_maxLimit = maxLimit, m_minLimit = minLimit, m_slackHoldTime = holdTime\<rparr>"

text \<open>
  The three cases of \<open>Completed\<close> between the completion counters and the bounds: a starved queue
  raises the limit, a queue that was busy may lower it by its least slack. The results are the
  local \<open>limit\<close> and the object.
\<close>

definition adapt_limit :: "int \<Rightarrow> 32 word \<Rightarrow> 32 word \<Rightarrow> dql \<Rightarrow> 32 word \<times> dql" where
  "adapt_limit now completed ovlimit q =
     (let limit = m_limit q;
          inprogress = m_numQueued q - completed;
          prevInprogress = m_prevNumQueued q - m_numCompleted q;
          allPrevCompleted = (sint (completed - m_prevNumQueued q) \<ge> 0)
      in if (ovlimit \<noteq> 0 \<and> inprogress = 0) \<or> (m_prevOvlimit q \<noteq> 0 \<and> allPrevCompleted)
         then (limit + (Posdiff completed (m_prevNumQueued q) + m_prevOvlimit q),
               q\<lparr>m_slackStartTime := now, m_lowestSlack := UINTMAX\<rparr>)
         else if inprogress \<noteq> 0 \<and> prevInprogress \<noteq> 0 \<and> \<not> allPrevCompleted
         then let slack0 = Posdiff (limit + m_prevOvlimit q) (2 * (completed - m_numCompleted q));
                  slackLastObjs = (if m_prevOvlimit q \<noteq> 0
                                   then Posdiff (m_prevLastObjCnt q) (m_prevOvlimit q) else 0);
                  slack = max slack0 slackLastObjs;
                  q1 = (if slack < m_lowestSlack q then q\<lparr>m_lowestSlack := slack\<rparr> else q)
              in if now > m_slackStartTime q1 + m_slackHoldTime q1
                 then (Posdiff limit (m_lowestSlack q1), q1\<lparr>m_slackStartTime := now, m_lowestSlack := UINTMAX\<rparr>)
                 else (limit, q1)
         else (limit, q))"

text \<open>The end of \<open>Completed\<close>: the bounds are enforced and the counters moved.\<close>

definition store_limit :: "32 word \<Rightarrow> 32 word \<Rightarrow> 32 word \<Rightarrow> dql \<Rightarrow> dql" where
  "store_limit completed ovlimit limit0 q =
     (let limit = min (max limit0 (m_minLimit q)) (m_maxLimit q);
          (q1, ovlimit1) = (if limit \<noteq> m_limit q then (q\<lparr>m_limit := limit\<rparr>, 0) else (q, ovlimit))
      in q1\<lparr>m_adjLimit := limit + completed, m_prevOvlimit := ovlimit1,
            m_prevLastObjCnt := m_lastObjCnt q1, m_numCompleted := completed,
            m_prevNumQueued := m_numQueued q1\<rparr>)"

definition Completed :: "int \<Rightarrow> 32 word \<Rightarrow> dql \<Rightarrow> dql option" where
  "Completed now count q =
     (if \<not> count \<le> m_numQueued q - m_numCompleted q then None
      else let completed = m_numCompleted q + count;
               ovlimit = Posdiff (m_numQueued q - m_numCompleted q) (m_limit q);
               (limit, q1) = adapt_limit now completed ovlimit q
           in Some (store_limit completed ovlimit limit q1))"

text \<open>The result is an \<open>int32_t\<close>.\<close>

definition Available :: "dql \<Rightarrow> int" where
  "Available q = sint (m_adjLimit q - m_numQueued q)"

definition Queued :: "32 word \<Rightarrow> dql \<Rightarrow> dql option" where
  "Queued count q =
     (if count \<le> DQL_MAX_OBJECT then Some (q\<lparr>m_lastObjCnt := count, m_numQueued := m_numQueued q + count\<rparr>)
      else None)"

subsection \<open>The limit stays within its bounds\<close>

text \<open>Objects in flight: queued and not completed.\<close>

definition in_flight :: "dql \<Rightarrow> 32 word" where
  "in_flight q = m_numQueued q - m_numCompleted q"

lemma adapt_limit_frame:
  assumes "adapt_limit now c ov q = (l, q')"
  shows "m_numQueued q' = m_numQueued q" "m_maxLimit q' = m_maxLimit q" "m_minLimit q' = m_minLimit q"
    "m_lastObjCnt q' = m_lastObjCnt q" "m_limit q' = m_limit q" "m_numCompleted q' = m_numCompleted q"
    "m_slackHoldTime q' = m_slackHoldTime q"
  using assms by (simp_all add: adapt_limit_def Let_def split: if_split_asm) auto

lemma store_limit_frame:
  "m_limit (store_limit c ov l q) = min (max l (m_minLimit q)) (m_maxLimit q)"
  "m_adjLimit (store_limit c ov l q) = m_limit (store_limit c ov l q) + c"
  "m_numCompleted (store_limit c ov l q) = c" "m_numQueued (store_limit c ov l q) = m_numQueued q"
  "m_maxLimit (store_limit c ov l q) = m_maxLimit q" "m_minLimit (store_limit c ov l q) = m_minLimit q"
  "m_prevNumQueued (store_limit c ov l q) = m_numQueued q" "m_prevLastObjCnt (store_limit c ov l q) = m_lastObjCnt q"
  by (simp_all add: store_limit_def Let_def)

lemma Completed_SomeD:
  assumes "Completed now count q = Some q'"
  shows "count \<le> in_flight q" "in_flight q' = in_flight q - count"
    "m_adjLimit q' = m_limit q' + m_numCompleted q'"
    "\<exists>l. m_limit q' = min (max l (m_minLimit q)) (m_maxLimit q)"
    "m_numQueued q' = m_numQueued q" "m_numCompleted q' = m_numCompleted q + count"
    "m_maxLimit q' = m_maxLimit q" "m_minLimit q' = m_minLimit q"
proof -
  obtain l q1 where a: "adapt_limit now (m_numCompleted q + count)
      (Posdiff (m_numQueued q - m_numCompleted q) (m_limit q)) q = (l, q1)"
    by fastforce
  note f = adapt_limit_frame [OF a]
  have c: "count \<le> in_flight q"
    and q': "q' = store_limit (m_numCompleted q + count)
      (Posdiff (m_numQueued q - m_numCompleted q) (m_limit q)) l q1"
    using assms a by (auto simp: Completed_def in_flight_def split: if_splits)
  show "count \<le> in_flight q" by (rule c)
  show "in_flight q' = in_flight q - count" "m_adjLimit q' = m_limit q' + m_numCompleted q'"
    "\<exists>l. m_limit q' = min (max l (m_minLimit q)) (m_maxLimit q)"
    "m_numQueued q' = m_numQueued q" "m_numCompleted q' = m_numCompleted q + count"
    "m_maxLimit q' = m_maxLimit q" "m_minLimit q' = m_minLimit q"
    unfolding q' by (auto simp: store_limit_frame f in_flight_def algebra_simps)
qed

lemma Available_eq:
  "m_adjLimit q = m_limit q + m_numCompleted q \<Longrightarrow> Available q = sint (m_limit q - in_flight q)"
  by (simp add: Available_def in_flight_def algebra_simps)

text \<open>
  A producer queues only while \<open>Available\<close> is not negative, and at most \<open>DQL_MAX_OBJECT\<close> at once
  (as \<open>NetDeviceQueue\<close> does); completions come at any time. Then the counters stay far from
  wrapping and \<open>Available\<close> is the exact difference.
\<close>

definition dql_ok :: "dql \<Rightarrow> bool" where
  "dql_ok q \<longleftrightarrow> m_adjLimit q = m_limit q + m_numCompleted q \<and> m_maxLimit q \<le> DQL_MAX_LIMIT \<and>
     m_limit q \<le> m_maxLimit q \<and> unat (in_flight q) \<le> unat (m_maxLimit q) + unat DQL_MAX_OBJECT"

inductive dql_step :: "dql \<Rightarrow> dql \<Rightarrow> bool" where
  step_queue: "0 \<le> Available q \<Longrightarrow> Queued count q = Some q' \<Longrightarrow> dql_step q q'"
| step_completed: "Completed now count q = Some q' \<Longrightarrow> dql_step q q'"

lemma sint_of_int32: "- (2 ^ 31) \<le> z \<Longrightarrow> z < 2 ^ 31 \<Longrightarrow> sint (word_of_int z :: 32 word) = z"
  by (simp add: signed_of_int signed_take_bit_int_eq_self)

lemma sint_diff32:
  assumes "unat a < 2 ^ 31" "unat b < 2 ^ 31"
  shows "sint (a - b :: 32 word) = int (unat a) - int (unat b)"
proof -
  have "a - b = word_of_int (int (unat a) - int (unat b))" by simp
  then have "sint (a - b) = sint (word_of_int (int (unat a) - int (unat b)) :: 32 word)" by metis
  also have "\<dots> = int (unat a) - int (unat b)"
  proof (rule sint_of_int32)
    have "- (2 ^ 31) \<le> int m - int n \<and> int m - int n < 2 ^ 31" if "m < 2 ^ 31" "n < 2 ^ 31" for m n
      using that by simp
    from this [OF assms] show "- (2 ^ 31) \<le> int (unat a) - int (unat b)" "int (unat a) - int (unat b) < 2 ^ 31"
      by blast+
  qed
  finally show ?thesis .
qed

lemma dql_max: "unat DQL_MAX_OBJECT = 268435455" "unat DQL_MAX_LIMIT = 1879048192"
  by (simp_all add: DQL_MAX_OBJECT_def DQL_MAX_LIMIT_def UINTMAX_def)

lemma dql_ok_bounds:
  assumes "dql_ok q"
  shows "unat (m_limit q) < 2 ^ 31" "unat (in_flight q) < 2 ^ 31"
    "Available q = int (unat (m_limit q)) - int (unat (in_flight q))"
proof -
  have "unat (m_maxLimit q) \<le> 1879048192" "unat (m_limit q) \<le> unat (m_maxLimit q)"
    using assms unfolding dql_ok_def word_le_nat_alt dql_max by simp_all
  moreover have "unat (in_flight q) \<le> unat (m_maxLimit q) + 268435455"
    using assms unfolding dql_ok_def dql_max by simp
  ultimately show b: "unat (m_limit q) < 2 ^ 31" "unat (in_flight q) < 2 ^ 31" by simp_all
  show "Available q = int (unat (m_limit q)) - int (unat (in_flight q))"
    using assms Available_eq [of q] sint_diff32 [OF b] by (simp add: dql_ok_def)
qed

lemma dql_step_ok:
  assumes "dql_step q q'" and ok: "dql_ok q"
  shows "dql_ok q'"
  using assms(1)
proof cases
  case (step_queue count)
  then have q': "q' = q\<lparr>m_lastObjCnt := count, m_numQueued := m_numQueued q + count\<rparr>"
    and cnt: "unat count \<le> 268435455"
    by (auto simp: Queued_def word_le_nat_alt dql_max split: if_splits)
  have "unat (in_flight q) \<le> unat (m_limit q)"
    using step_queue(1) dql_ok_bounds(3) [OF ok] by linarith
  also have "\<dots> \<le> unat (m_maxLimit q)" using ok by (simp add: dql_ok_def word_le_nat_alt)
  finally have le: "unat (in_flight q) \<le> unat (m_maxLimit q)" .
  have "in_flight q' = in_flight q + count" by (simp add: q' in_flight_def)
  then have "unat (in_flight q') \<le> unat (in_flight q) + unat count"
    by (simp add: unat_word_ariths)
  then show ?thesis
    using ok le cnt unfolding dql_ok_def dql_max by (simp add: q' in_flight_def)
next
  case (step_completed now count)
  note f = Completed_SomeD [OF step_completed]
  have "unat (in_flight q') \<le> unat (in_flight q)"
    using f(1,2) by (simp add: word_le_nat_alt unat_sub)
  moreover obtain l where "m_limit q' = min (max l (m_minLimit q)) (m_maxLimit q)" using f(4) by blast
  then have "m_limit q' \<le> m_maxLimit q" by simp
  ultimately show ?thesis
    using ok f(3,7) by (simp add: dql_ok_def)
qed

text \<open>The states of a queue whose attributes respect the limits of the class.\<close>

inductive dql_reach :: "dql \<Rightarrow> bool" where
  dql_init: "maxLimit \<le> DQL_MAX_LIMIT \<Longrightarrow> dql_reach (DynamicQueueLimits holdTime maxLimit minLimit now)"
| dql_step: "dql_reach q \<Longrightarrow> dql_step q q' \<Longrightarrow> dql_reach q'"

lemma dql_reach_ok: "dql_reach q \<Longrightarrow> dql_ok q"
proof (induction rule: dql_reach.induct)
  case (dql_init maxLimit holdTime minLimit now)
  then show ?case by (simp add: dql_ok_def DynamicQueueLimits_def Reset_def in_flight_def)
qed (rule dql_step_ok)

text \<open>C30: for a producer that queues only while \<open>Available\<close> is not negative, the limit stays below its maximum
  and the objects in flight below that maximum plus one object; the counters, although they wrap around,
  make \<open>Available\<close> exactly the limit minus what is in flight; any number of objects in flight may complete,
  which keeps the limit at least at its minimum; and with nothing in flight the producer may queue.\<close>

theorem queue_limits_exact:
  assumes "dql_reach q"
  shows "m_limit q \<le> m_maxLimit q \<and> unat (in_flight q) \<le> unat (m_maxLimit q) + unat DQL_MAX_OBJECT \<and>
    Available q = int (unat (m_limit q)) - int (unat (in_flight q)) \<and>
    (\<forall>count now. count \<le> in_flight q \<longleftrightarrow> Completed now count q \<noteq> None) \<and>
    (\<forall>count now q'. Completed now count q = Some q' \<longrightarrow>
       min (m_minLimit q) (m_maxLimit q) \<le> m_limit q' \<and> in_flight q' = in_flight q - count) \<and>
    (in_flight q = 0 \<longrightarrow> 0 \<le> Available q)"
proof -
  have ok: "dql_ok q" using assms by (rule dql_reach_ok)
  have some: "count \<le> in_flight q \<longleftrightarrow> Completed now count q \<noteq> None" for count now
    by (simp add: Completed_def in_flight_def Let_def split_beta)
  have "min (m_minLimit q) (m_maxLimit q) \<le> m_limit q' \<and> in_flight q' = in_flight q - count"
    if c: "Completed now count q = Some q'" for count now q'
  proof -
    obtain l where "m_limit q' = min (max l (m_minLimit q)) (m_maxLimit q)" using Completed_SomeD(4) [OF c] by blast
    then show ?thesis using Completed_SomeD(2) [OF c] by (simp add: min_le_iff_disj le_max_iff_disj)
  qed
  then show ?thesis
    using ok dql_ok_bounds(3) [OF ok] some by (simp add: dql_ok_def)
qed

definition dql5 :: dql where
  "dql5 = the (Completed 7 2 (the (Queued 5 (DynamicQueueLimits 100 10 1 0))))"

lemma dql5_reach: "dql_reach dql5"
proof -
  let ?q0 = "DynamicQueueLimits 100 10 1 0" let ?q1 = "the (Queued 5 ?q0)"
  have 0: "dql_reach ?q0" by (rule dql_init) (simp add: DQL_MAX_LIMIT_def DQL_MAX_OBJECT_def UINTMAX_def)
  have "Available ?q0 = 0" "Queued 5 ?q0 = Some ?q1" by code_simp+
  then have "dql_step ?q0 ?q1" by (intro step_queue) simp_all
  then have 1: "dql_reach ?q1" by (rule dql_step [OF 0])
  have "Completed 7 2 ?q1 = Some dql5" unfolding dql5_def by code_simp
  then show ?thesis by (intro dql_step [OF 1]) (rule step_completed)
qed

theorem queue_limits_exact_witness:
  "Available dql5 = int (unat (m_limit dql5)) - 3 \<and> Completed 9 3 dql5 \<noteq> None \<and> Completed 9 4 dql5 = None"
proof -
  have "in_flight dql5 = 3" by code_simp
  note q = queue_limits_exact [OF dql5_reach, unfolded this]
  then have "count \<le> 3 \<longleftrightarrow> Completed 9 count dql5 \<noteq> None" for count by blast
  from this [of 3] this [of 4] show ?thesis using q by simp
qed

end
