(* ===== verification/Packet_Buffer.thy ===== *)
theory Packet_Buffer
  imports Prelude "HOL-Library.Monad_Syntax"
begin

unbundle bit_operations_syntax

text \<open>
  The byte buffer of a packet, \<open>network/model/buffer.cc\<close> and \<open>buffer.h\<close>. Several buffers share one
  reference-counted block of memory; each sees a part of it, with an area of zeros in the middle
  that takes no memory. The memory is explicit: \<open>blocks\<close> maps the address of a block to its content.
  A failed assertion and an access outside a block are \<open>None\<close>; copying no bytes is no access.
\<close>

type_synonym octet = "8 word"

text \<open>\<open>Buffer::Data\<close>; \<open>m_octets\<close> is the array at its end.\<close>

record data_block =
  m_count :: "32 word"
  m_size :: "32 word"
  m_dirtyStart :: "32 word"
  m_dirtyEnd :: "32 word"
  m_octets :: "octet list"

record buffer =
  m_data :: nat
  m_maxZeroAreaStart :: "32 word"
  m_zeroAreaStart :: "32 word"
  m_zeroAreaEnd :: "32 word"
  m_start :: "32 word"
  m_end :: "32 word"

text \<open>
  \<open>brk\<close> is the next address of the allocator and \<open>garbage\<close> the content of a new allocation. The free
  list is \<open>None\<close> while uninitialised; it is destroyed only when the program exits.
\<close>

record memory =
  blocks :: "nat \<rightharpoonup> data_block"
  brk :: nat
  garbage :: "nat \<Rightarrow> nat \<Rightarrow> octet"
  g_freeList :: "nat list option"
  g_maxSize :: "32 word"
  g_recommendedStart :: "32 word"

subsection \<open>Access to the memory\<close>

definition with_block :: "nat \<Rightarrow> (data_block \<Rightarrow> data_block) \<Rightarrow> memory \<Rightarrow> memory option" where
  "with_block a f M = map_option (\<lambda>d. M\<lparr>blocks := (blocks M)(a \<mapsto> f d)\<rparr>) (blocks M a)"

definition load :: "nat \<Rightarrow> nat \<Rightarrow> nat \<Rightarrow> memory \<Rightarrow> octet list option" where
  "load a off n M =
     (case blocks M a of None \<Rightarrow> None
      | Some d \<Rightarrow> if n = 0 \<or> off + n \<le> length (m_octets d) then Some (take n (drop off (m_octets d))) else None)"

definition overwrite :: "nat \<Rightarrow> 'a list \<Rightarrow> 'a list \<Rightarrow> 'a list" where
  "overwrite off bs xs = take off xs @ bs @ drop (off + length bs) xs"

definition store :: "nat \<Rightarrow> nat \<Rightarrow> octet list \<Rightarrow> memory \<Rightarrow> memory option" where
  "store a off bs M =
     (case blocks M a of None \<Rightarrow> None
      | Some d \<Rightarrow> if bs = [] \<or> off + length bs \<le> length (m_octets d)
                  then with_block a (m_octets_update (overwrite off bs)) M else None)"

subsection \<open>Blocks\<close>

definition ALLOC_OVER_PROVISION :: "32 word" where "ALLOC_OVER_PROVISION = 100"

text \<open>The dirty area is written by every caller before it is read.\<close>

definition Allocate :: "32 word \<Rightarrow> memory \<Rightarrow> nat \<times> memory" where
  "Allocate reqSize M =
     (let reqSize = (if reqSize = 0 then 1 else reqSize) + ALLOC_OVER_PROVISION in
      (brk M,
       M\<lparr>blocks := (blocks M)(brk M \<mapsto> \<lparr>m_count = 1, m_size = reqSize, m_dirtyStart = 0, m_dirtyEnd = 0,
            m_octets = map (garbage M (brk M)) [0..<unat reqSize]\<rparr>),
         brk := brk M + 1\<rparr>))"

definition Deallocate :: "nat \<Rightarrow> memory \<Rightarrow> memory option" where
  "Deallocate a M =
     (case blocks M a of None \<Rightarrow> None
      | Some d \<Rightarrow> if m_count d = 0 then Some (M\<lparr>blocks := (blocks M)(a := None)\<rparr>) else None)"

text \<open>The free list is taken from its end; blocks that are too small are given back.\<close>

fun Create_loop :: "32 word \<Rightarrow> nat list \<Rightarrow> memory \<Rightarrow> (nat \<times> memory) option" where
  "Create_loop dataSize [] M = Some (Allocate dataSize (M\<lparr>g_freeList := Some []\<rparr>))"
| "Create_loop dataSize (a # rest) M =
     (case blocks M a of None \<Rightarrow> None
      | Some d \<Rightarrow>
         if m_size d \<ge> dataSize
         then Option.bind (with_block a (m_count_update (\<lambda>_. 1)) (M\<lparr>g_freeList := Some (rev rest)\<rparr>))
                (\<lambda>M. Some (a, M))
         else Option.bind (Deallocate a M) (Create_loop dataSize rest))"

definition Create :: "32 word \<Rightarrow> memory \<Rightarrow> (nat \<times> memory) option" where
  "Create dataSize M =
     (case g_freeList M of None \<Rightarrow> Some (Allocate dataSize (M\<lparr>g_freeList := Some []\<rparr>))
      | Some fl \<Rightarrow> Create_loop dataSize (rev fl) M)"

definition Recycle :: "nat \<Rightarrow> memory \<Rightarrow> memory option" where
  "Recycle a M =
     (case (blocks M a, g_freeList M) of
        (Some d, Some fl) \<Rightarrow>
          if m_count d \<noteq> 0 then None
          else let M = M\<lparr>g_maxSize := max (g_maxSize M) (m_size d)\<rparr> in
            if m_size d < g_maxSize M \<or> length fl > 1000 then Deallocate a M
            else Some (M\<lparr>g_freeList := Some (fl @ [a])\<rparr>)
      | _ \<Rightarrow> None)"

text \<open>Giving up one reference.\<close>

definition release :: "nat \<Rightarrow> memory \<Rightarrow> memory option" where
  "release a M =
     do {
       M \<leftarrow> with_block a (\<lambda>d. d\<lparr>m_count := m_count d - 1\<rparr>) M;
       d \<leftarrow> blocks M a;
       if m_count d = 0 then Recycle a M else Some M
     }"

subsection \<open>Creation, copies and destruction of buffers\<close>

definition Initialize :: "32 word \<Rightarrow> memory \<Rightarrow> (buffer \<times> memory) option" where
  "Initialize zeroSize M =
     do {
       (a, M) \<leftarrow> Create 0 M;
       d \<leftarrow> blocks M a;
       let s = min (m_size d) (g_recommendedStart M);
       M \<leftarrow> with_block a (\<lambda>d. d\<lparr>m_dirtyStart := s, m_dirtyEnd := s + zeroSize\<rparr>) M;
       Some (\<lparr>m_data = a, m_maxZeroAreaStart = s, m_zeroAreaStart = s, m_zeroAreaEnd = s + zeroSize,
              m_start = s, m_end = s + zeroSize\<rparr>, M)
     }"

text \<open>The copy constructor.\<close>

definition Buffer_copy :: "buffer \<Rightarrow> memory \<Rightarrow> (buffer \<times> memory) option" where
  "Buffer_copy b M =
     do {
       M \<leftarrow> with_block (m_data b) (\<lambda>d. d\<lparr>m_count := m_count d + 1\<rparr>) M;
       Some (b\<lparr>m_maxZeroAreaStart := m_zeroAreaStart b\<rparr>, M)
     }"

definition Buffer_destroy :: "buffer \<Rightarrow> memory \<Rightarrow> memory option" where
  "Buffer_destroy b M =
     release (m_data b) (M\<lparr>g_recommendedStart := max (g_recommendedStart M) (m_maxZeroAreaStart b)\<rparr>)"

text \<open>\<open>operator=\<close>: the new value of the left-hand side.\<close>

definition Buffer_assign :: "buffer \<Rightarrow> buffer \<Rightarrow> memory \<Rightarrow> (buffer \<times> memory) option" where
  "Buffer_assign b r M =
     do {
       M \<leftarrow> (if m_data b \<noteq> m_data r
            then Option.bind (release (m_data b) M) (with_block (m_data r) (\<lambda>d. d\<lparr>m_count := m_count d + 1\<rparr>))
            else Some M);
       Some (r, M\<lparr>g_recommendedStart := max (g_recommendedStart M) (m_maxZeroAreaStart b)\<rparr>)
     }"

definition GetInternalSize :: "buffer \<Rightarrow> 32 word" where
  "GetInternalSize b = m_zeroAreaStart b - m_start b + m_end b - m_zeroAreaEnd b"

definition GetInternalEnd :: "buffer \<Rightarrow> 32 word" where
  "GetInternalEnd b = m_end b - (m_zeroAreaEnd b - m_zeroAreaStart b)"

definition Buffer_GetSize :: "buffer \<Rightarrow> 32 word" where
  "Buffer_GetSize b = m_end b - m_start b"

subsection \<open>Making and giving up room\<close>

definition learn_start :: "buffer \<Rightarrow> buffer" where
  "learn_start b = b\<lparr>m_maxZeroAreaStart := max (m_maxZeroAreaStart b) (m_zeroAreaStart b)\<rparr>"

text \<open>A new block to which the content is moved, starting at \<open>off\<close>.\<close>

definition move_content :: "32 word \<Rightarrow> 32 word \<Rightarrow> buffer \<Rightarrow> memory \<Rightarrow> (nat \<times> memory) option" where
  "move_content newSize off b M =
     do {
       (a, M) \<leftarrow> Create newSize M;
       bs \<leftarrow> load (m_data b) (unat (m_start b)) (unat (GetInternalSize b)) M;
       M \<leftarrow> store a (unat off) bs M;
       M \<leftarrow> release (m_data b) M;
       Some (a, M)
     }"

definition set_dirty :: "buffer \<Rightarrow> memory \<Rightarrow> memory option" where
  "set_dirty b = with_block (m_data b) (\<lambda>d. d\<lparr>m_dirtyStart := m_start b, m_dirtyEnd := m_end b\<rparr>)"

definition AddAtStart :: "32 word \<Rightarrow> buffer \<Rightarrow> memory \<Rightarrow> (buffer \<times> memory) option" where
  "AddAtStart start b M =
     do {
       d \<leftarrow> blocks M (m_data b);
       let isDirty = (m_count d > 1 \<and> m_start b > m_dirtyStart d);
       (b, M) \<leftarrow>
         (if m_start b \<ge> start \<and> \<not> isDirty
          then if \<not> (m_count d = 1 \<or> m_start b = m_dirtyStart d) then None
            else let b = b\<lparr>m_start := m_start b - start\<rparr> in
              map_option (Pair b) (with_block (m_data b) (\<lambda>d. d\<lparr>m_dirtyStart := m_start b\<rparr>) M)
          else do {
            (a, M) \<leftarrow> move_content (GetInternalSize b + start) start b M;
            let delta = start - m_start b;
            let b = b\<lparr>m_data := a, m_start := m_start b + delta - start,
                      m_zeroAreaStart := m_zeroAreaStart b + delta,
                      m_zeroAreaEnd := m_zeroAreaEnd b + delta, m_end := m_end b + delta\<rparr>;
            map_option (Pair b) (set_dirty b M)
          });
       Some (learn_start b, M)
     }"

definition AddAtEnd :: "32 word \<Rightarrow> buffer \<Rightarrow> memory \<Rightarrow> (buffer \<times> memory) option" where
  "AddAtEnd e b M =
     do {
       d \<leftarrow> blocks M (m_data b);
       let isDirty = (m_count d > 1 \<and> m_end b < m_dirtyEnd d);
       (b, M) \<leftarrow>
         (if GetInternalEnd b + e \<le> m_size d \<and> \<not> isDirty
          then if \<not> (m_count d = 1 \<or> m_end b = m_dirtyEnd d) then None
            else let b = b\<lparr>m_end := m_end b + e\<rparr> in
              map_option (Pair b) (with_block (m_data b) (\<lambda>d. d\<lparr>m_dirtyEnd := m_end b\<rparr>) M)
          else do {
            (a, M) \<leftarrow> move_content (GetInternalSize b + e) 0 b M;
            let delta = - m_start b;
            let b = b\<lparr>m_data := a, m_zeroAreaStart := m_zeroAreaStart b + delta,
                      m_zeroAreaEnd := m_zeroAreaEnd b + delta, m_end := m_end b + delta + e,
                      m_start := m_start b + delta\<rparr>;
            map_option (Pair b) (set_dirty b M)
          });
       Some (learn_start b, M)
     }"

definition RemoveAtStart :: "32 word \<Rightarrow> buffer \<Rightarrow> buffer option" where
  "RemoveAtStart start b =
     (let newStart = m_start b + start; zeroSize = m_zeroAreaEnd b - m_zeroAreaStart b in
      if newStart \<le> m_zeroAreaStart b then Some (learn_start (b\<lparr>m_start := newStart\<rparr>))
      else if newStart \<le> m_zeroAreaEnd b
      then let delta = newStart - m_zeroAreaStart b in
        Some (learn_start (b\<lparr>m_start := m_zeroAreaStart b, m_zeroAreaEnd := m_zeroAreaEnd b - delta,
                m_end := m_end b - delta\<rparr>))
      else if newStart \<le> m_end b
      then if m_end b \<ge> start
        then Some (learn_start (b\<lparr>m_start := newStart - zeroSize, m_end := m_end b - zeroSize,
                m_zeroAreaStart := newStart - zeroSize, m_zeroAreaEnd := newStart - zeroSize\<rparr>))
        else None
      else let e = m_end b - zeroSize in
        Some (learn_start (b\<lparr>m_end := e, m_start := e, m_zeroAreaEnd := e, m_zeroAreaStart := e\<rparr>)))"

definition RemoveAtEnd :: "32 word \<Rightarrow> buffer \<Rightarrow> buffer" where
  "RemoveAtEnd e b =
     (let newEnd = m_end b - min e (m_end b - m_start b) in
      if newEnd > m_zeroAreaEnd b then learn_start (b\<lparr>m_end := newEnd\<rparr>)
      else if newEnd > m_zeroAreaStart b
      then learn_start (b\<lparr>m_end := newEnd, m_zeroAreaEnd := newEnd\<rparr>)
      else if newEnd > m_start b
      then learn_start (b\<lparr>m_end := newEnd, m_zeroAreaEnd := newEnd, m_zeroAreaStart := newEnd\<rparr>)
      else learn_start (b\<lparr>m_end := m_start b, m_zeroAreaEnd := m_start b, m_zeroAreaStart := m_start b\<rparr>))"

definition CreateFragment :: "32 word \<Rightarrow> 32 word \<Rightarrow> buffer \<Rightarrow> memory \<Rightarrow> (buffer \<times> memory) option" where
  "CreateFragment start len b M =
     do {
       (tmp, M) \<leftarrow> Buffer_copy b M;
       tmp \<leftarrow> RemoveAtStart start tmp;
       Some (RemoveAtEnd (Buffer_GetSize b - (start + len)) tmp, M)
     }"

subsection \<open>Iterators\<close>

record iterator =
  m_zeroStart :: "32 word"
  m_zeroEnd :: "32 word"
  m_dataStart :: "32 word"
  m_dataEnd :: "32 word"
  m_current :: "32 word"
  it_data :: nat

definition Begin :: "buffer \<Rightarrow> iterator" where
  "Begin b = \<lparr>m_zeroStart = m_zeroAreaStart b, m_zeroEnd = m_zeroAreaEnd b, m_dataStart = m_start b,
              m_dataEnd = m_end b, m_current = m_start b, it_data = m_data b\<rparr>"

definition End :: "buffer \<Rightarrow> iterator" where
  "End b = (Begin b)\<lparr>m_current := m_end b\<rparr>"

definition Next :: "32 word \<Rightarrow> iterator \<Rightarrow> iterator option" where
  "Next delta it =
     (if m_current it + delta \<le> m_dataEnd it then Some (it\<lparr>m_current := m_current it + delta\<rparr>) else None)"

definition Prev :: "32 word \<Rightarrow> iterator \<Rightarrow> iterator option" where
  "Prev delta it =
     (if m_current it \<ge> delta then Some (it\<lparr>m_current := m_current it - delta\<rparr>) else None)"

definition GetDistanceFrom :: "iterator \<Rightarrow> iterator \<Rightarrow> 32 word option" where
  "GetDistanceFrom o' it =
     (if it_data it = it_data o'
      then let diff = m_current it - m_current o' in Some (if sint diff < 0 then - diff else diff)
      else None)"

definition CheckNoZero :: "32 word \<Rightarrow> 32 word \<Rightarrow> iterator \<Rightarrow> bool" where
  "CheckNoZero s e it \<longleftrightarrow>
     \<not> (s < m_dataStart it \<or> e > m_dataEnd it \<or>
        (e > m_zeroStart it \<and> s < m_zeroEnd it \<and> m_zeroEnd it \<noteq> m_zeroStart it \<and> s \<noteq> e))"

definition Check :: "32 word \<Rightarrow> iterator \<Rightarrow> bool" where
  "Check i it \<longleftrightarrow> i \<ge> m_dataStart it \<and> \<not> (i \<ge> m_zeroStart it \<and> i < m_zeroEnd it) \<and> i \<le> m_dataEnd it"

text \<open>Where in the block a position is; \<open>before\<close> is the test that says it is before the zeros.\<close>

definition real_pos :: "bool \<Rightarrow> iterator \<Rightarrow> nat" where
  "real_pos before it =
     unat (if before then m_current it else m_current it - (m_zeroEnd it - m_zeroStart it))"

text \<open>\<open>memcpy\<close> to the current position and the advance that follows it.\<close>

definition put :: "bool \<Rightarrow> octet list \<Rightarrow> iterator \<Rightarrow> memory \<Rightarrow> (iterator \<times> memory) option" where
  "put before bs it M =
     map_option (Pair (it\<lparr>m_current := m_current it + of_nat (length bs)\<rparr>))
       (store (it_data it) (real_pos before it) bs M)"

type_synonym writer = "iterator \<Rightarrow> memory \<Rightarrow> (iterator \<times> memory) option"

definition WriteU8 :: "octet \<Rightarrow> writer" where
  "WriteU8 data it M =
     (if Check (m_current it) it then put (m_current it < m_zeroStart it) [data] it M else None)"

definition WriteU8_len :: "octet \<Rightarrow> 32 word \<Rightarrow> writer" where
  "WriteU8_len data len it M =
     (if CheckNoZero (m_current it) (m_current it + len) it
      then put (m_current it \<le> m_zeroStart it) (replicate (unat len) data) it M else None)"

text \<open>\<open>Write(const uint8_t*, uint32_t)\<close> hands the size to \<open>CheckNoZero\<close>, not the end of the range.\<close>

definition Write :: "octet list \<Rightarrow> writer" where
  "Write buf it M =
     (if CheckNoZero (m_current it) (of_nat (length buf)) it
      then put (m_current it \<le> m_zeroStart it) buf it M else None)"

text \<open>
  \<open>Write(Iterator, Iterator)\<close>: the bytes before the zeros of the source, the zeros and the bytes
  after them are copied in turn. The target is always taken to be before its zeros.
\<close>

definition Write_range :: "iterator \<Rightarrow> iterator \<Rightarrow> writer" where
  "Write_range start fin it M =
     (if it_data start \<noteq> it_data fin \<or> m_current start > m_current fin \<or>
         m_zeroStart start \<noteq> m_zeroStart fin \<or> m_zeroEnd start \<noteq> m_zeroEnd fin \<or>
         it_data it = it_data start
      then None
      else do {
        let sz = m_current fin - m_current start;
        if \<not> CheckNoZero (m_current it) (m_current it + sz) it then None else
        do {
          (start, it, sz, M) \<leftarrow>
            (if m_current start \<le> m_zeroStart start
             then do {
               let toCopy = min sz (m_zeroStart start - m_current start);
               bs \<leftarrow> load (it_data start) (unat (m_current start)) (unat toCopy) M;
               (it, M) \<leftarrow> put True bs it M;
               Some (start\<lparr>m_current := m_current start + toCopy\<rparr>, it, sz - toCopy, M)
             } else Some (start, it, sz, M));
          (start, it, sz, M) \<leftarrow>
            (if m_current start \<le> m_zeroEnd start
             then do {
               let toCopy = min sz (m_zeroEnd start - m_current start);
               (it, M) \<leftarrow> put True (replicate (unat toCopy) 0) it M;
               Some (start\<lparr>m_current := m_current start + toCopy\<rparr>, it, sz - toCopy, M)
             } else Some (start, it, sz, M));
          let toCopy = min sz (m_dataEnd start - m_current start);
          bs \<leftarrow> load (it_data start) (real_pos False start) (unat toCopy) M;
          put True bs it M
        }
      })"

text \<open>Reading.\<close>

type_synonym 'a reader = "memory \<Rightarrow> iterator \<Rightarrow> ('a \<times> iterator) option"

definition PeekU8 :: "memory \<Rightarrow> iterator \<Rightarrow> octet option" where
  "PeekU8 M it =
     (if m_current it \<ge> m_dataStart it \<and> m_current it < m_dataEnd it
      then if m_current it < m_zeroStart it then map_option hd (load (it_data it) (real_pos True it) 1 M)
        else if m_current it < m_zeroEnd it then Some 0
        else map_option hd (load (it_data it) (real_pos False it) 1 M)
      else None)"

definition ReadU8 :: "octet reader" where
  "ReadU8 M it = map_option (\<lambda>v. (v, it\<lparr>m_current := m_current it + 1\<rparr>)) (PeekU8 M it)"

subsection \<open>Appending a buffer\<close>

definition CreateFullCopy :: "buffer \<Rightarrow> memory \<Rightarrow> (buffer \<times> memory) option" where
  "CreateFullCopy b M =
     (if m_zeroAreaEnd b - m_zeroAreaStart b \<noteq> 0
      then do {
        (tmp, M) \<leftarrow> Initialize 0 M;
        (tmp, M) \<leftarrow> AddAtStart (m_zeroAreaEnd b - m_zeroAreaStart b) tmp M;
        (_, M) \<leftarrow> WriteU8_len 0 (m_zeroAreaEnd b - m_zeroAreaStart b) (Begin tmp) M;
        let dataStart = m_zeroAreaStart b - m_start b;
        (tmp, M) \<leftarrow> AddAtStart dataStart tmp M;
        bs \<leftarrow> load (m_data b) (unat (m_start b)) (unat dataStart) M;
        (_, M) \<leftarrow> Write bs (Begin tmp) M;
        let dataEnd = m_end b - m_zeroAreaEnd b;
        (tmp, M) \<leftarrow> AddAtEnd dataEnd tmp M;
        i \<leftarrow> Prev dataEnd (End tmp);
        bs \<leftarrow> load (m_data b) (unat (m_zeroAreaStart b)) (unat dataEnd) M;
        (_, M) \<leftarrow> Write bs i M;
        Some (tmp, M)
      }
      else Buffer_copy b M)"

text \<open>The assignment of the full copy, which is a temporary object.\<close>

definition become_full_copy :: "buffer \<Rightarrow> memory \<Rightarrow> (buffer \<times> memory) option" where
  "become_full_copy b M =
     do {
       (tmp, M) \<leftarrow> CreateFullCopy b M;
       (b, M) \<leftarrow> Buffer_assign b tmp M;
       M \<leftarrow> Buffer_destroy tmp M;
       Some (b, M)
     }"

definition adjacent_zeros :: "buffer \<Rightarrow> buffer \<Rightarrow> data_block \<Rightarrow> bool" where
  "adjacent_zeros b r d \<longleftrightarrow>
     m_count d = 1 \<and> (m_end b = m_zeroAreaEnd b \<or> m_zeroAreaStart b = m_zeroAreaEnd b) \<and>
     m_end b = m_dirtyEnd d \<and> m_start r = m_zeroAreaStart r \<and> m_zeroAreaEnd r - m_zeroAreaStart r > 0"

text \<open>\<open>AddAtEnd(const Buffer&)\<close> for another buffer \<open>r\<close> than the one that is changed.\<close>

definition AddAtEnd_buffer :: "buffer \<Rightarrow> buffer \<Rightarrow> memory \<Rightarrow> (buffer \<times> memory) option" where
  "AddAtEnd_buffer r b M =
     do {
       d \<leftarrow> blocks M (m_data b);
       if adjacent_zeros b r d
       then do {
         let b = (if m_zeroAreaStart b = m_zeroAreaEnd b then b\<lparr>m_zeroAreaStart := m_end b\<rparr> else b);
         let zeroSize = m_zeroAreaEnd r - m_zeroAreaStart r;
         let b = b\<lparr>m_zeroAreaEnd := m_end b + zeroSize, m_end := m_end b + zeroSize\<rparr>;
         M \<leftarrow> with_block (m_data b) (\<lambda>d. d\<lparr>m_dirtyEnd := m_zeroAreaEnd b\<rparr>) M;
         let endData = m_end r - m_zeroAreaEnd r;
         (b, M) \<leftarrow> AddAtEnd endData b M;
         dst \<leftarrow> Prev endData (End b);
         src \<leftarrow> Prev endData (End r);
         (_, M) \<leftarrow> Write_range src (End r) dst M;
         Some (b, M)
       }
       else do {
         (b, M) \<leftarrow> become_full_copy b M;
         (b, M) \<leftarrow> AddAtEnd (Buffer_GetSize r) b M;
         destStart \<leftarrow> Prev (Buffer_GetSize r) (End b);
         (_, M) \<leftarrow> Write_range (Begin r) (End r) destStart M;
         Some (b, M)
       }
     }"

text \<open>\<open>PeekData\<close> makes a buffer real first; \<open>CopyData\<close> reads at most \<open>sz\<close> bytes.\<close>

definition PeekData :: "buffer \<Rightarrow> memory \<Rightarrow> (buffer \<times> memory) option" where
  "PeekData = become_full_copy"

definition CopyData :: "32 word \<Rightarrow> buffer \<Rightarrow> memory \<Rightarrow> octet list option" where
  "CopyData sz b M =
     (let n1 = min (m_zeroAreaStart b - m_start b) sz;
          n2 = min (m_zeroAreaEnd b - m_zeroAreaStart b) (sz - n1);
          n3 = min (m_end b - m_zeroAreaEnd b) (sz - n1 - n2)
      in do {
        x \<leftarrow> load (m_data b) (unat (m_start b)) (unat n1) M;
        z \<leftarrow> load (m_data b) (unat (m_zeroAreaStart b)) (unat n3) M;
        Some (x @ replicate (unat n2) 0 @ z)
      })"

end
