(* ===== verification/Packet_Buffer_Inv.thy ===== *)
theory Packet_Buffer_Inv
  imports Packet_Buffer "HOL-Library.Multiset"
begin

text \<open>
  Buffers as lists of bytes: what the references to the blocks of the memory keep, and that making
  or giving up room in one buffer does to its bytes what it should and nothing to those of others.
\<close>

subsection \<open>Offsets\<close>

lemma unat_plus: "unat a + unat b < 2 ^ 32 \<Longrightarrow> unat (a + b :: 32 word) = unat a + unat b"
  by (simp add: unat_word_ariths)

lemma unat_minus: "unat b \<le> unat a \<Longrightarrow> unat (a - b :: 32 word) = unat a - unat b"
  by (simp add: unat_sub word_le_nat_alt)

lemma length_overwrite [simp]:
  "bs = [] \<or> off + length bs \<le> length xs \<Longrightarrow> length (overwrite off bs xs) = length xs"
  by (auto simp: overwrite_def)

lemma take_drop_overwrite_before:
  "off + n \<le> p \<Longrightarrow> p + length bs \<le> length xs \<Longrightarrow> take n (drop off (overwrite p bs xs)) = take n (drop off xs)"
  by (rule nth_equalityI) (auto simp: overwrite_def nth_append)

lemma take_drop_overwrite_after:
  "p + length bs \<le> off \<Longrightarrow> p + length bs \<le> length xs \<Longrightarrow>
   take n (drop off (overwrite p bs xs)) = take n (drop off xs)"
  by (simp add: overwrite_def)

lemma take_drop_overwrite:
  "p + length bs \<le> length xs \<Longrightarrow> take (length bs) (drop p (overwrite p bs xs)) = bs"
  by (simp add: overwrite_def)

subsection \<open>The invariant\<close>

definition MAX_BYTES :: nat where "MAX_BYTES = 2 ^ 30"

definition zeros :: "buffer \<Rightarrow> nat" where
  "zeros b = unat (m_zeroAreaEnd b) - unat (m_zeroAreaStart b)"

text \<open>The end of the part of the block that the buffer sees.\<close>

definition real_end :: "buffer \<Rightarrow> nat" where
  "real_end b = unat (m_zeroAreaStart b) + (unat (m_end b) - unat (m_zeroAreaEnd b))"

definition shape_ok :: "buffer \<Rightarrow> bool" where
  "shape_ok b \<longleftrightarrow> unat (m_start b) \<le> unat (m_zeroAreaStart b) \<and>
     unat (m_zeroAreaStart b) \<le> unat (m_zeroAreaEnd b) \<and> unat (m_zeroAreaEnd b) \<le> unat (m_end b)"

definition fits :: "buffer \<Rightarrow> data_block \<Rightarrow> bool" where
  "fits b d \<longleftrightarrow> shape_ok b \<and> unat (m_dirtyStart d) \<le> unat (m_start b) \<and> real_end b \<le> unat (m_size d) \<and>
     unat (m_end b) - unat (m_start b) \<le> MAX_BYTES"

definition bytes_in :: "data_block \<Rightarrow> buffer \<Rightarrow> octet list" where
  "bytes_in d b =
     take (unat (m_zeroAreaStart b) - unat (m_start b)) (drop (unat (m_start b)) (m_octets d)) @
     replicate (zeros b) 0 @
     take (unat (m_end b) - unat (m_zeroAreaEnd b)) (drop (unat (m_zeroAreaStart b)) (m_octets d))"

definition content :: "memory \<Rightarrow> buffer \<Rightarrow> octet list" where
  "content M b = (case blocks M (m_data b) of None \<Rightarrow> [] | Some d \<Rightarrow> bytes_in d b)"

definition block_ok :: "data_block \<Rightarrow> bool" where
  "block_ok d \<longleftrightarrow> length (m_octets d) = unat (m_size d) \<and> unat (m_size d) \<le> MAX_BYTES + 101"

text \<open>
  The ends of the buffers of a block are compared as they are, with their zeros: no buffer that
  shares the block reaches beyond one whose end is the end of the dirty area.
\<close>

definition dirty_ok :: "buffer multiset \<Rightarrow> nat \<Rightarrow> data_block \<Rightarrow> bool" where
  "dirty_ok B a d \<longleftrightarrow>
     (\<exists>Z. \<forall>b\<in>#B. m_data b = a \<longrightarrow> zeros b \<le> Z \<and> real_end b + Z \<le> unat (m_dirtyEnd d))"

text \<open>\<open>B\<close> are the buffers, \<open>R\<close> references that are held while an operation runs.\<close>

definition refs :: "buffer multiset \<Rightarrow> nat multiset \<Rightarrow> nat multiset" where
  "refs B R = image_mset m_data B + R"

definition free_ok :: "memory \<Rightarrow> bool" where
  "free_ok M \<longleftrightarrow>
     (case g_freeList M of None \<Rightarrow> blocks M = Map.empty
      | Some fl \<Rightarrow> distinct fl \<and> (\<forall>a\<in>set fl. \<exists>d. blocks M a = Some d \<and> m_count d = 0))"

definition mem_ok :: "memory \<Rightarrow> buffer multiset \<Rightarrow> nat multiset \<Rightarrow> bool" where
  "mem_ok M B R \<longleftrightarrow> free_ok M \<and> (\<forall>a\<ge>brk M. blocks M a = None) \<and>
     (\<forall>a d. blocks M a = Some d \<longrightarrow> block_ok d \<and> unat (m_count d) = count (refs B R) a \<and> dirty_ok B a d) \<and>
     (\<forall>a\<in>#refs B R. blocks M a \<noteq> None) \<and>
     (\<forall>b\<in>#B. \<forall>d. blocks M (m_data b) = Some d \<longrightarrow> fits b d)"

text \<open>Blocks that are referred to keep their bytes.\<close>

definition keeps :: "memory \<Rightarrow> memory \<Rightarrow> nat set \<Rightarrow> bool" where
  "keeps M M' A \<longleftrightarrow> (\<forall>a\<in>A. map_option m_octets (blocks M' a) = map_option m_octets (blocks M a))"

lemma keeps_trans: "keeps M M' A \<Longrightarrow> keeps M' M'' A \<Longrightarrow> keeps M M'' A"
  by (simp add: keeps_def)

lemma keeps_mono: "keeps M M' A \<Longrightarrow> A' \<subseteq> A \<Longrightarrow> keeps M M' A'"
  by (auto simp: keeps_def)

lemma keeps_content: "keeps M M' A \<Longrightarrow> m_data b \<in> A \<Longrightarrow> content M' b = content M b"
  unfolding keeps_def content_def bytes_in_def by (auto split: option.splits dest!: bspec)

lemma mem_okD:
  assumes "mem_ok M B R"
  shows "free_ok M" "a \<ge> brk M \<Longrightarrow> blocks M a = None"
    "blocks M a = Some d \<Longrightarrow> block_ok d" "blocks M a = Some d \<Longrightarrow> unat (m_count d) = count (refs B R) a"
    "blocks M a = Some d \<Longrightarrow> dirty_ok B a d" "a \<in># refs B R \<Longrightarrow> \<exists>d. blocks M a = Some d"
    "b \<in># B \<Longrightarrow> \<exists>d. blocks M (m_data b) = Some d \<and> fits b d"
proof -
  show "b \<in># B \<Longrightarrow> \<exists>d. blocks M (m_data b) = Some d \<and> fits b d"
    using assms unfolding mem_ok_def refs_def by fastforce
qed (use assms in \<open>auto simp: mem_ok_def\<close>)

subsection \<open>Blocks\<close>

lemma refs_add [simp]: "refs (add_mset b B) R = add_mset (m_data b) (refs B R)"
  "refs B (add_mset a R) = add_mset a (refs B R)"
  by (simp_all add: refs_def)

lemma free_not_ref:
  assumes "mem_ok M B R" and "blocks M a = Some d" and "m_count d = 0"
  shows "a \<notin># refs B R"
  using mem_okD(4) [OF assms(1,2)] assms(3) by (simp add: not_in_iff)

lemma dirty_ok_unreferenced: "a \<notin># refs B R \<Longrightarrow> dirty_ok B a d"
  by (auto simp: dirty_ok_def refs_def)

lemma Allocate_ok:
  assumes ok: "mem_ok M B R" and fl: "g_freeList M = Some []" and n: "unat n \<le> MAX_BYTES"
  shows "\<exists>a M' d. Allocate n M = (a, M') \<and> mem_ok M' B (add_mset a R) \<and> a \<notin># refs B R \<and>
    keeps M M' (set_mset (refs B R)) \<and> blocks M' a = Some d \<and> unat n \<le> unat (m_size d) \<and>
    (\<forall>c. c \<noteq> a \<longrightarrow> blocks M' c = blocks M c)"
proof -
  define r where "r = (if n = 0 then 1 else n) + ALLOC_OVER_PROVISION"
  have "unat (if n = 0 then 1 else n) \<le> MAX_BYTES" using n by (simp add: MAX_BYTES_def)
  then have r: "unat r = unat (if n = 0 then 1 else n) + 100"
    unfolding r_def ALLOC_OVER_PROVISION_def by (subst unat_plus) (simp_all add: MAX_BYTES_def)
  have fresh: "brk M \<notin># refs B R" using mem_okD(2,6) [OF ok] by fastforce
  define M' where "M' = snd (Allocate n M)"
  have M': "Allocate n M = (brk M, M')"
    "M' = M\<lparr>blocks := (blocks M)(brk M \<mapsto> \<lparr>m_count = 1, m_size = r, m_dirtyStart = 0, m_dirtyEnd = 0,
            m_octets = map (garbage M (brk M)) [0..<unat r]\<rparr>), brk := brk M + 1\<rparr>"
    by (simp_all add: M'_def Allocate_def Let_def r_def)
  have 1: "unat n \<le> unat r" "unat r \<le> MAX_BYTES + 101" using r n by (auto simp: MAX_BYTES_def)
  have nb: "m_data b \<noteq> brk M" if "b \<in># B" for b using fresh that by (force simp: refs_def)
  have "mem_ok M' B (add_mset (brk M) R)"
    unfolding mem_ok_def
  proof (intro conjI allI ballI impI)
    show "free_ok M'" using fl by (simp add: M'(2) free_ok_def)
    show "blocks M' a = None" if "brk M' \<le> a" for a
      using that mem_okD(2) [OF ok] by (simp add: M'(2))
    fix a d assume a: "blocks M' a = Some d"
    show "block_ok d" using a mem_okD(3) [OF ok] 1(2) by (auto simp: M'(2) block_ok_def split: if_splits)
    show "unat (m_count d) = count (refs B (add_mset (brk M) R)) a"
      using a mem_okD(4) [OF ok] fresh by (auto simp: M'(2) not_in_iff split: if_splits)
    show "dirty_ok B a d"
      using a mem_okD(5) [OF ok] dirty_ok_unreferenced [OF fresh] by (auto simp: M'(2) split: if_splits)
  next
    show "blocks M' a \<noteq> None" if "a \<in># refs B (add_mset (brk M) R)" for a
      using that mem_okD(6) [OF ok] by (auto simp: M'(2))
    show "fits b d" if "b \<in># B" "blocks M' (m_data b) = Some d" for b d
      using that mem_okD(7) [OF ok that(1)] nb [OF that(1)] by (auto simp: M'(2))
  qed
  then show ?thesis
    using M' fresh 1 by (intro exI conjI) (auto simp: keeps_def)
qed


lemma free_okD:
  assumes "mem_ok M B R" and "g_freeList M = Some fl" and "a \<in> set fl"
  shows "\<exists>d. blocks M a = Some d \<and> m_count d = 0" and "a \<notin># refs B R"
proof -
  show d: "\<exists>d. blocks M a = Some d \<and> m_count d = 0"
    using mem_okD(1) [OF assms(1)] assms(2,3) by (auto simp: free_ok_def)
  then show "a \<notin># refs B R" using free_not_ref [OF assms(1)] by blast
qed

lemma Create_loop_ok:
  assumes "mem_ok (M\<lparr>g_freeList := Some (rev l)\<rparr>) B R" and n: "unat n \<le> MAX_BYTES"
  shows "\<exists>a M' d. Create_loop n l M = Some (a, M') \<and> mem_ok M' B (add_mset a R) \<and> a \<notin># refs B R \<and>
    keeps M M' (set_mset (refs B R)) \<and> blocks M' a = Some d \<and> unat n \<le> unat (m_size d)"
  using assms(1)
proof (induction l arbitrary: M)
  case Nil
  then have "mem_ok (M\<lparr>g_freeList := Some []\<rparr>) B R" by simp
  from Allocate_ok [OF this _ n] show ?case by (fastforce simp: keeps_def)
next
  case (Cons a l)
  let ?M = "M\<lparr>g_freeList := Some (rev (a # l))\<rparr>"
  note ok = Cons.prems
  have a: "a \<notin># refs B R" and "\<exists>d. blocks ?M a = Some d \<and> m_count d = 0"
    using free_okD [OF ok, of "rev (a # l)" a] by simp_all
  then obtain d where d: "blocks M a = Some d" "m_count d = 0" by auto
  have free: "distinct (a # l)" "\<forall>c\<in>set l. \<exists>d. blocks M c = Some d \<and> m_count d = 0"
    using mem_okD(1) [OF ok] by (auto simp: free_ok_def)
  have nb: "m_data b \<noteq> a" if "b \<in># B" for b using a that by (force simp: refs_def)
  show ?case
  proof (cases "m_size d \<ge> n")
    case True
    define M' where "M' = M\<lparr>g_freeList := Some (rev l), blocks := (blocks M)(a \<mapsto> d\<lparr>m_count := 1\<rparr>)\<rparr>"
    have eq: "Create_loop n (a # l) M = Some (a, M')"
      using True d by (simp add: with_block_def M'_def)
    have "mem_ok M' B (add_mset a R)"
      unfolding mem_ok_def
    proof (intro conjI allI ballI impI)
      show "free_ok M'" using free by (auto simp: M'_def free_ok_def)
      show "blocks M' c = None" if "brk M' \<le> c" for c
        using that mem_okD(2) [OF ok] d by (auto simp: M'_def)
      fix c e assume c: "blocks M' c = Some e"
      show "block_ok e"
        using c mem_okD(3) [OF ok] d by (fastforce simp: M'_def block_ok_def split: if_splits)
      show "unat (m_count e) = count (refs B (add_mset a R)) c"
        using c mem_okD(4) [OF ok] a by (auto simp: M'_def not_in_iff split: if_splits)
      show "dirty_ok B c e"
        using c mem_okD(5) [OF ok] dirty_ok_unreferenced [OF a] by (auto simp: M'_def split: if_splits)
    next
      show "blocks M' c \<noteq> None" if "c \<in># refs B (add_mset a R)" for c
        using that mem_okD(6) [OF ok] by (auto simp: M'_def)
      show "fits b e" if "b \<in># B" "blocks M' (m_data b) = Some e" for b e
        using that mem_okD(7) [OF ok that(1)] nb [OF that(1)] by (auto simp: M'_def)
    qed
    then show ?thesis
      using eq a d True unfolding eq by (auto simp: M'_def keeps_def word_le_nat_alt)
  next
    case False
    define M' where "M' = M\<lparr>blocks := (blocks M)(a := None)\<rparr>"
    have eq: "Create_loop n (a # l) M = Create_loop n l M'"
      using False d by (simp add: Deallocate_def M'_def)
    have "mem_ok (M'\<lparr>g_freeList := Some (rev l)\<rparr>) B R" (is "mem_ok ?M' B R")
      unfolding mem_ok_def
    proof (intro conjI allI ballI impI)
      show "free_ok ?M'" using free by (auto simp: M'_def free_ok_def)
      show "blocks ?M' c = None" if "brk ?M' \<le> c" for c
        using that mem_okD(2) [OF ok] by (auto simp: M'_def)
      fix c e assume c: "blocks ?M' c = Some e"
      then have "blocks ?M c = Some e" by (auto simp: M'_def split: if_splits)
      then show "block_ok e" "unat (m_count e) = count (refs B R) c" "dirty_ok B c e"
        using mem_okD(3-5) [OF ok] by blast+
    next
      show "blocks ?M' c \<noteq> None" if "c \<in># refs B R" for c
        using that mem_okD(6) [OF ok that] a by (auto simp: M'_def)
      show "fits b e" if "b \<in># B" "blocks ?M' (m_data b) = Some e" for b e
        using that mem_okD(7) [OF ok that(1)] nb [OF that(1)] by (auto simp: M'_def)
    qed
    from Cons.IH [OF this] obtain a' M'' d' where
      r: "Create_loop n l M' = Some (a', M'')" "mem_ok M'' B (add_mset a' R)" "a' \<notin># refs B R"
        "keeps M' M'' (set_mset (refs B R))" "blocks M'' a' = Some d'" "unat n \<le> unat (m_size d')" by blast
    have "keeps M M' (set_mset (refs B R))" using a by (auto simp: keeps_def M'_def)
    with r(4) have "keeps M M'' (set_mset (refs B R))" using keeps_trans by blast
    then show ?thesis unfolding eq using r by blast
  qed
qed

lemma Create_ok:
  assumes ok: "mem_ok M B R" and n: "unat n \<le> MAX_BYTES"
  obtains a M' d where "Create n M = Some (a, M')" and "mem_ok M' B (add_mset a R)" and "a \<notin># refs B R"
    and "keeps M M' (set_mset (refs B R))" and "blocks M' a = Some d" and "unat n \<le> unat (m_size d)"
proof (cases "g_freeList M")
  case None
  have "blocks M = Map.empty" using mem_okD(1) [OF ok] None by (simp add: free_ok_def)
  then have "mem_ok (M\<lparr>g_freeList := Some []\<rparr>) B R" using ok by (simp add: mem_ok_def free_ok_def)
  from Allocate_ok [OF this _ n] obtain a M' d where
    "Allocate n (M\<lparr>g_freeList := Some []\<rparr>) = (a, M')" "mem_ok M' B (add_mset a R)" "a \<notin># refs B R"
    "keeps (M\<lparr>g_freeList := Some []\<rparr>) M' (set_mset (refs B R))" "blocks M' a = Some d"
    "unat n \<le> unat (m_size d)" by auto
  then show ?thesis using None by (intro that) (auto simp: Create_def keeps_def)
next
  case (Some fl)
  then have "M\<lparr>g_freeList := Some (rev (rev fl))\<rparr> = M" by simp
  then have "mem_ok (M\<lparr>g_freeList := Some (rev (rev fl))\<rparr>) B R" using ok by simp
  from Create_loop_ok [OF this n] show ?thesis using Some that by (auto simp: Create_def)
qed

text \<open>Changing the block \<open>a\<close> and the buffers and references that use it.\<close>

lemma mem_ok_update:
  assumes ok: "mem_ok M B R" and a: "a \<in># refs B R" and d': "block_ok d'" "dirty_ok B' a d'"
    and cnt: "unat (m_count d') = count (refs B' R') a" "\<And>c. c \<noteq> a \<Longrightarrow> count (refs B' R') c = count (refs B R) c"
    and same: "\<And>b. b \<in># B' \<Longrightarrow> m_data b \<noteq> a \<Longrightarrow> b \<in># B"
    and fit: "\<And>b. b \<in># B' \<Longrightarrow> m_data b = a \<Longrightarrow> fits b d'"
    and M': "blocks M' = (blocks M)(a \<mapsto> d')" "g_freeList M' = g_freeList M" "brk M' = brk M"
  shows "mem_ok M' B' R'"
  unfolding mem_ok_def
proof (intro conjI allI ballI impI)
  obtain d where d: "blocks M a = Some d" using mem_okD(6) [OF ok a] by blast
  have af: "a \<notin> set fl" if "g_freeList M = Some fl" for fl
    using free_okD(2) [OF ok that] a by blast
  show "free_ok M'"
  proof (cases "g_freeList M")
    case None
    then show ?thesis using mem_okD(1) [OF ok] d by (simp add: free_ok_def)
  next
    case (Some fl)
    then show ?thesis
      using mem_okD(1) [OF ok] af [OF Some] unfolding free_ok_def M' by (auto split: option.splits)
  qed
  show "blocks M' c = None" if "brk M' \<le> c" for c
    using that mem_okD(2) [OF ok] d by (auto simp: M')
  fix c e assume c: "blocks M' c = Some e"
  show "block_ok e" using c mem_okD(3) [OF ok] d' by (auto simp: M' split: if_splits)
  show "unat (m_count e) = count (refs B' R') c"
    using c mem_okD(4) [OF ok] cnt by (auto simp: M' split: if_splits)
  show "dirty_ok B' c e"
  proof (cases "c = a")
    case True
    then show ?thesis using c d' by (simp add: M')
  next
    case False
    then have "dirty_ok B c e" using c mem_okD(5) [OF ok] by (simp add: M')
    then show ?thesis using same False unfolding dirty_ok_def by metis
  qed
next
  show "blocks M' c \<noteq> None" if "c \<in># refs B' R'" for c
  proof (cases "c = a")
    case False
    then have "c \<in># refs B R" using that cnt(2) [OF False] by (metis not_in_iff)
    then show ?thesis using mem_okD(6) [OF ok] by (auto simp: M')
  qed (simp add: M')
  show "fits b e" if "b \<in># B'" "blocks M' (m_data b) = Some e" for b e
  proof (cases "m_data b = a")
    case True
    then show ?thesis using fit that by (simp add: M')
  next
    case False
    then show ?thesis using mem_okD(7) [OF ok same [OF that(1) False]] that(2) by (auto simp: M')
  qed
qed

lemma mem_ok_R_add:
  assumes "mem_ok M B (add_mset a R)"
  shows "a \<in># refs B (add_mset a R)"
  by simp

lemma share_ok:
  assumes ok: "mem_ok M B R" and a: "a \<in># refs B R" and room: "size (refs B R) < 2 ^ 32 - 1"
  obtains M' where "with_block a (\<lambda>d. d\<lparr>m_count := m_count d + 1\<rparr>) M = Some M'"
    and "mem_ok M' B (add_mset a R)" and "keeps M M' UNIV"
proof -
  obtain d where d: "blocks M a = Some d" using mem_okD(6) [OF ok a] by blast
  let ?d = "d\<lparr>m_count := m_count d + 1\<rparr>"
  have "unat (m_count d) < 2 ^ 32 - 1"
    using mem_okD(4) [OF ok d] room count_le_size [of "refs B R" a] by simp
  then have c: "unat (m_count ?d) = unat (m_count d) + 1" by (simp add: unat_plus)
  have dk: "block_ok ?d" "dirty_ok B a ?d"
    using mem_okD(3,5) [OF ok d] by (simp_all add: block_ok_def dirty_ok_def)
  have "mem_ok (M\<lparr>blocks := (blocks M)(a \<mapsto> ?d)\<rparr>) B (add_mset a R)"
  proof (rule mem_ok_update [OF ok a dk])
    show "unat (m_count ?d) = count (refs B (add_mset a R)) a"
      using c mem_okD(4) [OF ok d] by simp
    show "fits b ?d" if "b \<in># B" "m_data b = a" for b
      using mem_okD(7) [OF ok that(1)] that d by (auto simp: fits_def)
  qed simp_all
  then show ?thesis
    using d by (intro that) (auto simp: with_block_def keeps_def)
qed

lemma Recycle_ok:
  assumes ok: "mem_ok M B R" and a: "blocks M a = Some d" "m_count d = 0"
    and fl: "g_freeList M = Some fl" "a \<notin> set fl"
  obtains M' where "Recycle a M = Some M'" and "mem_ok M' B R" and "keeps M M' (set_mset (refs B R))"
proof (cases "m_size d < max (g_maxSize M) (m_size d) \<or> length fl > 1000")
  case True
  have na: "a \<notin># refs B R" using free_not_ref [OF ok a] .
  define M' where "M' = M\<lparr>g_maxSize := max (g_maxSize M) (m_size d), blocks := (blocks M)(a := None)\<rparr>"
  have "mem_ok M' B R"
    unfolding mem_ok_def
  proof (intro conjI allI ballI impI)
    show "free_ok M'" using mem_okD(1) [OF ok] fl by (auto simp: M'_def free_ok_def)
    show "blocks M' c = None" if "brk M' \<le> c" for c
      using that mem_okD(2) [OF ok] by (auto simp: M'_def)
    fix c e assume "blocks M' c = Some e"
    then have "blocks M c = Some e" by (auto simp: M'_def split: if_splits)
    then show "block_ok e" "unat (m_count e) = count (refs B R) c" "dirty_ok B c e"
      using mem_okD(3-5) [OF ok] by blast+
  next
    show "blocks M' c \<noteq> None" if "c \<in># refs B R" for c
      using that mem_okD(6) [OF ok that] na by (auto simp: M'_def)
    show "fits b e" if "b \<in># B" "blocks M' (m_data b) = Some e" for b e
      using that mem_okD(7) [OF ok that(1)] by (auto simp: M'_def split: if_splits)
  qed
  moreover have "Recycle a M = Some M'"
    using True a fl by (auto simp: Recycle_def Deallocate_def Let_def M'_def)
  moreover have "keeps M M' (set_mset (refs B R))" using na by (auto simp: keeps_def M'_def)
  ultimately show ?thesis using that by blast
next
  case False
  define M' where "M' = M\<lparr>g_maxSize := max (g_maxSize M) (m_size d), g_freeList := Some (fl @ [a])\<rparr>"
  have "mem_ok M' B R"
    using ok a fl unfolding mem_ok_def free_ok_def by (auto simp: M'_def)
  moreover have "Recycle a M = Some M'"
    using False a fl by (auto simp: Recycle_def Let_def M'_def)
  moreover have "keeps M M' (set_mset (refs B R))" by (auto simp: keeps_def M'_def)
  ultimately show ?thesis using that by blast
qed

lemma release_ok:
  assumes ok: "mem_ok M B (add_mset a R)"
  obtains M' where "release a M = Some M'" and "mem_ok M' B R" and "keeps M M' (set_mset (refs B R))"
proof -
  have a: "a \<in># refs B (add_mset a R)" by simp
  obtain d where d: "blocks M a = Some d" using mem_okD(6) [OF ok a] by blast
  let ?d = "d\<lparr>m_count := m_count d - 1\<rparr>"
  have c: "unat (m_count ?d) = count (refs B R) a"
    using mem_okD(4) [OF ok d] by (simp add: unat_minus)
  have dk: "block_ok ?d" "dirty_ok B a ?d"
    using mem_okD(3,5) [OF ok d] by (simp_all add: block_ok_def dirty_ok_def)
  define M1 where "M1 = M\<lparr>blocks := (blocks M)(a \<mapsto> ?d)\<rparr>"
  have ok1: "mem_ok M1 B R"
  proof (rule mem_ok_update [OF ok a dk c])
    show "fits b ?d" if "b \<in># B" "m_data b = a" for b
      using mem_okD(7) [OF ok that(1)] that d by (auto simp: fits_def)
  qed (simp_all add: M1_def)
  obtain fl where fl: "g_freeList M = Some fl"
    using mem_okD(1) [OF ok] d by (auto simp: free_ok_def split: option.splits)
  have af: "a \<notin> set fl" using free_okD(2) [OF ok fl] a by blast
  have k1: "keeps M M1 A" for A using d by (auto simp: keeps_def M1_def)
  have rel: "release a M = (if m_count ?d = 0 then Recycle a M1 else Some M1)"
    using d by (simp add: release_def with_block_def M1_def)
  show ?thesis
  proof (cases "m_count ?d = 0")
    case True
    have "blocks M1 a = Some ?d" "g_freeList M1 = Some fl" using fl by (simp_all add: M1_def)
    from Recycle_ok [OF ok1 this(1) True this(2) af] obtain M' where
      "Recycle a M1 = Some M'" "mem_ok M' B R" "keeps M1 M' (set_mset (refs B R))" .
    then show ?thesis using that rel True k1 keeps_trans by (metis (no_types, lifting))
  next
    case False
    then show ?thesis using that [of M1] rel ok1 k1 by simp
  qed
qed

subsection \<open>Buffers and their bytes\<close>

lemma take_window:
  assumes "take n (drop p ys) = take n (drop s xs)" and "i + k \<le> n"
  shows "take k (drop (p + i) ys) = take k (drop (s + i) xs)"
proof -
  have "take k (drop i (take n (drop p ys))) = take k (drop i (take n (drop s xs)))" using assms(1) by simp
  then show ?thesis using assms(2) by (simp add: drop_take add.commute)
qed

lemma take_parts:
  "length xs = n \<Longrightarrow> length ys = k \<Longrightarrow> take (n + (k + m)) (xs @ ys @ zs) = xs @ ys @ take m zs"
  "length xs = n \<Longrightarrow> take (n + k) (xs @ zs) = xs @ take k zs"
  by simp_all

lemma take_plus_drop: "take (n + k) (drop p xs) = take n (drop p xs) @ take k (drop (p + n) xs)"
  by (metis take_add drop_drop add.commute)

lemma length_bytes_in:
  assumes "block_ok d" and "fits b d"
  shows "length (bytes_in d b) = unat (m_end b) - unat (m_start b)"
  using assms by (auto simp: block_ok_def fits_def shape_ok_def bytes_in_def real_end_def zeros_def)

lemma fits_end:
  assumes "block_ok d" and "fits b d"
  shows "unat (m_end b) \<le> 2 * MAX_BYTES + 101" "real_end b \<le> MAX_BYTES + 101"
    "real_end b + zeros b = unat (m_end b)" "unat (m_start b) \<le> real_end b"
  using assms by (auto simp: block_ok_def fits_def shape_ok_def real_end_def zeros_def)

lemma bytes_in_outside:
  assumes "fits b d" "block_ok d" "p + length bs \<le> length (m_octets d)"
    and "p + length bs \<le> unat (m_start b) \<or> real_end b \<le> p"
  shows "bytes_in (d\<lparr>m_octets := overwrite p bs (m_octets d)\<rparr>) b = bytes_in d b"
proof -
  have s: "unat (m_start b) \<le> unat (m_zeroAreaStart b)" "unat (m_zeroAreaStart b) \<le> real_end b"
    using assms(1) by (auto simp: fits_def shape_ok_def real_end_def)
  show ?thesis
    using assms(4)
  proof
    assume "p + length bs \<le> unat (m_start b)"
    then show ?thesis using s assms(3) by (simp add: bytes_in_def take_drop_overwrite_after)
  next
    assume "real_end b \<le> p"
    then show ?thesis
      using s assms(3) by (simp add: bytes_in_def take_drop_overwrite_before real_end_def)
  qed
qed

lemma mem_ok_forget:
  assumes "mem_ok M (add_mset b B) R"
  shows "mem_ok M B (add_mset (m_data b) R)"
proof -
  have "dirty_ok B a d" if "dirty_ok (add_mset b B) a d" for a d
    using that unfolding dirty_ok_def by (metis union_iff add_mset_add_single)
  then show ?thesis using assms unfolding mem_ok_def refs_add by auto
qed

text \<open>A buffer takes over the block it alone refers to.\<close>

lemma mem_ok_adopt:
  assumes ok: "mem_ok M B (add_mset a R)" and a: "a \<notin># refs B R" and d: "blocks M a = Some d"
    and b: "m_data b = a" "fits b (d\<lparr>m_dirtyStart := m_start b, m_dirtyEnd := m_end b\<rparr>)"
  obtains M' where "set_dirty b M = Some M'" and "mem_ok M' (add_mset b B) R" and "keeps M M' UNIV"
    and "blocks M' a = Some (d\<lparr>m_dirtyStart := m_start b, m_dirtyEnd := m_end b\<rparr>)"
proof -
  let ?d = "d\<lparr>m_dirtyStart := m_start b, m_dirtyEnd := m_end b\<rparr>"
  have bo: "block_ok ?d" using mem_okD(3) [OF ok d] by (simp add: block_ok_def)
  have nb: "m_data c \<noteq> a" if "c \<in># B" for c using a that by (force simp: refs_def)
  have "zeros b \<le> zeros b \<and> real_end b + zeros b \<le> unat (m_dirtyEnd ?d)"
    using fits_end(3) [OF bo b(2)] by simp
  then have dk: "dirty_ok (add_mset b B) a ?d" using nb unfolding dirty_ok_def by auto
  have "mem_ok (M\<lparr>blocks := (blocks M)(a \<mapsto> ?d)\<rparr>) (add_mset b B) R"
  proof (rule mem_ok_update [OF ok _ bo dk])
    show "unat (m_count ?d) = count (refs (add_mset b B) R) a"
      using mem_okD(4) [OF ok d] b(1) by simp
    show "c \<in># B" if "c \<in># add_mset b B" "m_data c \<noteq> a" for c using that b(1) by auto
    show "fits c ?d" if "c \<in># add_mset b B" "m_data c = a" for c using that nb b(2) by auto
  qed (simp_all add: b(1))
  then show ?thesis
    using d b(1) by (intro that) (auto simp: set_dirty_def with_block_def keeps_def)
qed

lemma store_eq:
  assumes "blocks M a = Some d" and "block_ok d" and "off + length bs \<le> unat (m_size d)"
  shows "store a off bs M =
    Some (M\<lparr>blocks := (blocks M)(a \<mapsto> d\<lparr>m_octets := overwrite off bs (m_octets d)\<rparr>)\<rparr>)"
proof -
  have eq: "m_octets_update (overwrite off bs) d = d\<lparr>m_octets := overwrite off bs (m_octets d)\<rparr>" by (cases d) simp
  show ?thesis using assms unfolding store_def with_block_def block_ok_def by (simp add: eq)
qed

lemma store_ok:
  assumes ok: "mem_ok M B R" and a: "a \<in># refs B R" and d: "blocks M a = Some d"
    and off: "off + length bs \<le> unat (m_size d)"
  obtains M' where "store a off bs M = Some M'" and "mem_ok M' B R"
    and "blocks M' = (blocks M)(a \<mapsto> d\<lparr>m_octets := overwrite off bs (m_octets d)\<rparr>)"
proof -
  let ?d = "d\<lparr>m_octets := overwrite off bs (m_octets d)\<rparr>"
  have len: "length (m_octets d) = unat (m_size d)" using mem_okD(3) [OF ok d] by (simp add: block_ok_def)
  then have "block_ok ?d" "dirty_ok B a ?d"
    using mem_okD(3,5) [OF ok d] off by (simp_all add: block_ok_def dirty_ok_def)
  then have "mem_ok (M\<lparr>blocks := (blocks M)(a \<mapsto> ?d)\<rparr>) B R"
  proof (rule mem_ok_update [OF ok a])
    show "unat (m_count ?d) = count (refs B R) a" using mem_okD(4) [OF ok d] by simp
    show "fits b ?d" if "b \<in># B" "m_data b = a" for b
      using mem_okD(7) [OF ok that(1)] that d by (auto simp: fits_def)
  qed simp_all
  then show ?thesis using store_eq [OF d mem_okD(3) [OF ok d] off] by (intro that) auto
qed

lemma move_content_ok:
  assumes ok: "mem_ok M (add_mset b B) R" and d: "blocks M (m_data b) = Some d"
    and sz: "unat newSize \<le> MAX_BYTES" "unat off + (real_end b - unat (m_start b)) \<le> unat newSize"
    and int: "unat (GetInternalSize b) = real_end b - unat (m_start b)"
  obtains a M' d' where "move_content newSize off b M = Some (a, M')" and "mem_ok M' B (add_mset a R)"
    and "a \<notin># refs B R" and "keeps M M' (set_mset (refs B R))" and "blocks M' a = Some d'"
    and "unat newSize \<le> unat (m_size d')"
    and "take (real_end b - unat (m_start b)) (drop (unat off) (m_octets d')) =
         take (real_end b - unat (m_start b)) (drop (unat (m_start b)) (m_octets d))"
proof -
  let ?n = "real_end b - unat (m_start b)"
  let ?bs = "take ?n (drop (unat (m_start b)) (m_octets d))"
  have fb: "fits b d" "block_ok d" using mem_okD(3) [OF ok d] mem_okD(7) [OF ok, of b] d by auto
  note fe = fits_end [OF fb(2,1)]
  from Create_ok [OF ok sz(1)] obtain a M1 d1 where c: "Create newSize M = Some (a, M1)"
    "mem_ok M1 (add_mset b B) (add_mset a R)" "a \<notin># refs (add_mset b B) R"
    "keeps M M1 (set_mset (refs (add_mset b B) R))" "blocks M1 a = Some d1"
    "unat newSize \<le> unat (m_size d1)" .
  have ab: "a \<noteq> m_data b" "a \<notin># refs B R" using c(3) by auto
  obtain e where e: "blocks M1 (m_data b) = Some e" "m_octets e = m_octets d"
    using c(4) d by (auto simp: keeps_def)
  have lenbs: "length ?bs = ?n" using fe fb by (auto simp: block_ok_def fits_def)
  have load: "load (m_data b) (unat (m_start b)) (unat (GetInternalSize b)) M1 = Some ?bs"
    using e fe fb int by (auto simp: load_def block_ok_def fits_def)
  have off: "unat off + length ?bs \<le> unat (m_size d1)" using sz c(6) lenbs by simp
  have ar: "a \<in># refs (add_mset b B) (add_mset a R)" by simp
  from store_ok [OF c(2) ar c(5) off] obtain M2 where s: "store a (unat off) ?bs M1 = Some M2"
    "mem_ok M2 (add_mset b B) (add_mset a R)"
    "blocks M2 = (blocks M1)(a \<mapsto> d1\<lparr>m_octets := overwrite (unat off) ?bs (m_octets d1)\<rparr>)" .
  from release_ok [OF mem_ok_forget [OF s(2)]] obtain M3 where r:
    "release (m_data b) M2 = Some M3" "mem_ok M3 B (add_mset a R)"
    "keeps M2 M3 (set_mset (refs B (add_mset a R)))" .
  obtain d3 where d3: "blocks M3 a = Some d3" "m_octets d3 = overwrite (unat off) ?bs (m_octets d1)"
    using r(3) s(3) by (auto simp: keeps_def)
  have "block_ok d1" "block_ok d3" using mem_okD(3) [OF c(2) c(5)] mem_okD(3) [OF r(2) d3(1)] .
  then have sz3: "unat (m_size d3) = unat (m_size d1)" using d3(2) off by (simp add: block_ok_def)
  have k: "keeps M M3 (set_mset (refs B R))"
  proof -
    have "keeps M M1 (set_mset (refs B R))" using c(4) by (auto simp: keeps_def)
    moreover have "keeps M1 M2 (set_mset (refs B R))" using s(3) ab(2) by (auto simp: keeps_def)
    moreover have "keeps M2 M3 (set_mset (refs B R))" using r(3) by (auto simp: keeps_def)
    ultimately show ?thesis by (auto simp: keeps_def)
  qed
  have tk: "take ?n (drop (unat off) (m_octets d3)) = ?bs"
    using take_drop_overwrite [of "unat off" ?bs "m_octets d1"] off \<open>block_ok d1\<close> lenbs
    unfolding d3(2) by (simp add: block_ok_def)
  have "move_content newSize off b M = Some (a, M3)"
    using c(1) load s(1) r(1) by (simp add: move_content_def)
  from that [OF this r(2) ab(2) k d3(1) _ tk] show ?thesis using c(6) sz3 by simp
qed

lemma learn_start_simps [simp]:
  "m_data (learn_start b) = m_data b" "m_start (learn_start b) = m_start b" "m_end (learn_start b) = m_end b"
  "m_zeroAreaStart (learn_start b) = m_zeroAreaStart b" "m_zeroAreaEnd (learn_start b) = m_zeroAreaEnd b"
  "zeros (learn_start b) = zeros b" "real_end (learn_start b) = real_end b"
  "fits (learn_start b) = fits b" "bytes_in d (learn_start b) = bytes_in d b"
  "content M (learn_start b) = content M b" "shape_ok (learn_start b) = shape_ok b"
  by (auto simp: learn_start_def zeros_def real_end_def fits_def shape_ok_def bytes_in_def content_def
      fun_eq_iff split: option.split)

lemma mem_ok_learn [simp]: "mem_ok M (add_mset (learn_start b) B) R = mem_ok M (add_mset b B) R"
  by (simp add: mem_ok_def dirty_ok_def)

lemma internal_size: "shape_ok b \<Longrightarrow> unat (GetInternalSize b) = real_end b - unat (m_start b)"
proof -
  assume s: "shape_ok b"
  have "GetInternalSize b = (m_zeroAreaStart b - m_start b) + (m_end b - m_zeroAreaEnd b)"
    by (simp add: GetInternalSize_def)
  moreover have "unat (m_zeroAreaStart b - m_start b) + unat (m_end b - m_zeroAreaEnd b) < 2 ^ 32"
    using s unat_lt32 [of "m_end b"] by (simp add: unat_minus shape_ok_def) linarith
  ultimately show ?thesis using s by (simp add: unat_plus unat_minus shape_ok_def real_end_def)
qed

lemma internal_end: "shape_ok b \<Longrightarrow> unat (GetInternalEnd b) = real_end b"
proof -
  assume s: "shape_ok b"
  then have "unat (m_zeroAreaEnd b - m_zeroAreaStart b) = unat (m_zeroAreaEnd b) - unat (m_zeroAreaStart b)"
    by (simp add: unat_minus shape_ok_def)
  then show ?thesis
    using s unfolding GetInternalEnd_def shape_ok_def real_end_def by (subst unat_minus) linarith+
qed

lemma shape_span:
  "shape_ok b \<Longrightarrow> real_end b - unat (m_start b) =
     (unat (m_zeroAreaStart b) - unat (m_start b)) + (unat (m_end b) - unat (m_zeroAreaEnd b))"
  by (simp add: shape_ok_def real_end_def)

lemma only_ref:
  assumes "mem_ok M (add_mset b B) R" and "blocks M (m_data b) = Some d" and "m_count d = 1"
  shows "m_data b \<notin># refs B R" and "\<And>c. c \<in># B \<Longrightarrow> m_data c \<noteq> m_data b"
proof -
  show *: "m_data b \<notin># refs B R" using mem_okD(4) [OF assms(1,2)] assms(3) by (simp add: not_in_iff)
  show "m_data c \<noteq> m_data b" if "c \<in># B" for c
    using * that unfolding refs_def by (metis image_eqI set_image_mset union_iff)
qed

lemma other_fits:
  assumes "mem_ok M (add_mset b B) R" and "c \<in># B" and "blocks M (m_data b) = Some d" and "m_data c = m_data b"
  shows "fits c d"
proof -
  have "c \<in># add_mset b B" using assms(2) by simp
  from mem_okD(7) [OF assms(1) this] show ?thesis using assms(3,4) by auto
qed

text \<open>What every operation that makes room does.\<close>

lemma AddAtStart_ok:
  assumes ok: "mem_ok M (add_mset b B) R"
    and n: "unat (m_end b) - unat (m_start b) + unat n \<le> MAX_BYTES"
  obtains b' M' new where "AddAtStart n b M = Some (b', M')" and "mem_ok M' (add_mset b' B) R"
    and "keeps M M' (set_mset (refs B R))" and "content M' b' = new @ content M b" and "length new = unat n"
    and "unat (m_start b') + unat n \<le> unat (m_zeroAreaStart b')"
    and "\<forall>c\<in>#B. m_data c = m_data b' \<longrightarrow> unat (m_start b') + unat n \<le> unat (m_start c)"
    and "unat (m_end b') = unat (m_start b') + unat n + (unat (m_end b) - unat (m_start b))"
    and "zeros b' = zeros b" and "m_data b' = m_data b \<or> m_data b' \<notin># refs B R"
proof -
  obtain d where d: "blocks M (m_data b) = Some d" and fb: "fits b d"
    using mem_okD(7) [OF ok, of b] by auto
  have bo: "block_ok d" using mem_okD(3) [OF ok d] .
  have sh: "shape_ok b" using fb by (simp add: fits_def)
  note fe = fits_end [OF bo fb]
  show ?thesis
  proof (cases "n \<le> m_start b \<and> \<not> (m_count d > 1 \<and> m_start b > m_dirtyStart d)")
    case True
    define b1 where "b1 = b\<lparr>m_start := m_start b - n\<rparr>"
    define d1 where "d1 = d\<lparr>m_dirtyStart := m_start b1\<rparr>"
    define M1 where "M1 = M\<lparr>blocks := (blocks M)(m_data b \<mapsto> d1)\<rparr>"
    have nle: "unat n \<le> unat (m_start b)" using True by (simp add: word_le_nat_alt)
    then have st: "unat (m_start b1) = unat (m_start b) - unat n" by (simp add: b1_def unat_minus)
    have b1: "m_data b1 = m_data b" "m_end b1 = m_end b" "m_zeroAreaStart b1 = m_zeroAreaStart b"
      "m_zeroAreaEnd b1 = m_zeroAreaEnd b" "zeros b1 = zeros b" "real_end b1 = real_end b"
      by (simp_all add: b1_def zeros_def real_end_def)
    have cnt: "0 < unat (m_count d)" using mem_okD(4) [OF ok d] by simp
    have or: "m_count d = 1 \<or> m_start b = m_dirtyStart d"
    proof (rule disjCI)
      assume "m_start b \<noteq> m_dirtyStart d"
      then have "m_dirtyStart d < m_start b"
        using fb by (simp add: fits_def word_less_nat_alt order_less_le word_unat_eq_iff)
      then have "\<not> m_count d > 1" using True by simp
      then show "m_count d = 1" using cnt by (simp add: word_less_nat_alt word_unat_eq_iff)
    qed
    have above: "unat (m_start b) \<le> unat (m_start c)" if "c \<in># B" "m_data c = m_data b" for c
    proof -
      have "m_start b = m_dirtyStart d" using or only_ref(2) [OF ok d _ that(1)] that(2) by blast
      then show ?thesis using other_fits [OF ok that(1) d that(2)] by (simp add: fits_def)
    qed
    have bo1: "block_ok d1" using bo by (simp add: d1_def block_ok_def)
    have dk1: "dirty_ok (add_mset b1 B) (m_data b) d1"
      using mem_okD(5) [OF ok d] by (auto simp: dirty_ok_def b1 d1_def)
    have fit1: "fits b1 d1" using fb st b1 n nle by (auto simp: fits_def shape_ok_def d1_def)
    have ok1: "mem_ok M1 (add_mset b1 B) R"
    proof (rule mem_ok_update [OF ok _ bo1 dk1])
      show "unat (m_count d1) = count (refs (add_mset b1 B) R) (m_data b)"
        using mem_okD(4) [OF ok d] by (simp add: d1_def b1)
      show "fits c d1" if "c \<in># add_mset b1 B" "m_data c = m_data b" for c
      proof (cases "c = b1")
        case False
        then have c: "c \<in># B" using that by simp
        show ?thesis using other_fits [OF ok c d that(2)] above [OF c that(2)] st by (simp add: fits_def d1_def)
      qed (simp add: fit1)
    qed (auto simp: b1 M1_def)
    have eq: "AddAtStart n b M = Some (learn_start b1, M1)"
      using d True or by (simp add: AddAtStart_def Let_def with_block_def M1_def d1_def b1_def)
    have ct: "content M1 b1 = take (unat n) (drop (unat (m_start b1)) (m_octets d)) @ content M b"
    proof -
      have "unat (m_zeroAreaStart b) - unat (m_start b1) =
          unat n + (unat (m_zeroAreaStart b) - unat (m_start b))"
        using st nle sh by (simp add: shape_ok_def)
      then show ?thesis
        using d st nle by (simp add: content_def M1_def b1 d1_def bytes_in_def take_plus_drop)
    qed
    have ln: "length (take (unat n) (drop (unat (m_start b1)) (m_octets d))) = unat n"
      using bo fe fb st nle by (auto simp: block_ok_def fits_def)
    show ?thesis
    proof (rule that [OF eq, of "take (unat n) (drop (unat (m_start b1)) (m_octets d))"])
      show "keeps M M1 (set_mset (refs B R))" using d by (auto simp: keeps_def M1_def d1_def)
      show "\<forall>c\<in>#B. m_data c = m_data (learn_start b1) \<longrightarrow>
          unat (m_start (learn_start b1)) + unat n \<le> unat (m_start c)"
        using above st nle by (simp add: b1)
    qed (use ok1 ct ln st nle sh in \<open>simp_all add: b1 shape_ok_def\<close>)
  next
    case False
    have re: "real_end b - unat (m_start b) \<le> unat (m_end b) - unat (m_start b)" using fe by simp
    have nsz: "unat (GetInternalSize b + n) = real_end b - unat (m_start b) + unat n"
      using internal_size [OF sh] n re by (subst unat_plus) (simp_all add: MAX_BYTES_def)
    have sz: "unat (GetInternalSize b + n) \<le> MAX_BYTES"
      "unat n + (real_end b - unat (m_start b)) \<le> unat (GetInternalSize b + n)"
      using nsz n re by simp_all
    from move_content_ok [OF ok d sz internal_size [OF sh]] obtain a M1 d1 where
      mv: "move_content (GetInternalSize b + n) n b M = Some (a, M1)" "mem_ok M1 B (add_mset a R)"
        "a \<notin># refs B R" "keeps M M1 (set_mset (refs B R))" "blocks M1 a = Some d1"
        "unat (GetInternalSize b + n) \<le> unat (m_size d1)"
        "take (real_end b - unat (m_start b)) (drop (unat n) (m_octets d1)) =
         take (real_end b - unat (m_start b)) (drop (unat (m_start b)) (m_octets d))" .
    define b1 where "b1 = b\<lparr>m_data := a, m_start := 0, m_zeroAreaStart := n + (m_zeroAreaStart b - m_start b),
      m_zeroAreaEnd := n + (m_zeroAreaEnd b - m_start b), m_end := n + (m_end b - m_start b)\<rparr>"
    have u: "unat (n + (x - m_start b)) = unat n + (unat x - unat (m_start b))"
      if "unat (m_start b) \<le> unat x" "unat x \<le> unat (m_end b)" for x
      using that n by (subst unat_plus) (simp_all add: unat_minus MAX_BYTES_def)
    have b1: "m_data b1 = a" "unat (m_start b1) = 0"
      "unat (m_zeroAreaStart b1) = unat n + (unat (m_zeroAreaStart b) - unat (m_start b))"
      "unat (m_zeroAreaEnd b1) = unat n + (unat (m_zeroAreaEnd b) - unat (m_start b))"
      "unat (m_end b1) = unat n + (unat (m_end b) - unat (m_start b))"
      using sh u by (simp_all add: b1_def shape_ok_def)
    have z1: "zeros b1 = zeros b" "real_end b1 = unat n + (real_end b - unat (m_start b))"
      using sh by (simp_all add: zeros_def real_end_def b1 shape_ok_def)
    let ?d1 = "d1\<lparr>m_dirtyStart := m_start b1, m_dirtyEnd := m_end b1\<rparr>"
    have fit1: "fits b1 ?d1"
      using sh n mv(6) nsz z1 by (simp add: fits_def shape_ok_def b1) linarith
    from mem_ok_adopt [OF mv(2,3,5) b1(1) fit1] obtain M2 where
      ad: "set_dirty b1 M1 = Some M2" "mem_ok M2 (add_mset b1 B) R" "keeps M1 M2 UNIV"
        "blocks M2 a = Some ?d1" .
    have eq: "AddAtStart n b M = Some (learn_start b1, M2)"
      using d False mv(1) ad(1) by (auto simp: AddAtStart_def Let_def b1_def algebra_simps)
    have ln: "length (m_octets d1) = unat (m_size d1)"
      using mem_okD(3) [OF mv(2,5)] by (simp add: block_ok_def)
    have h: "take (unat (m_zeroAreaStart b) - unat (m_start b)) (drop (unat n) (m_octets d1)) =
        take (unat (m_zeroAreaStart b) - unat (m_start b)) (drop (unat (m_start b)) (m_octets d))"
      using take_window [OF mv(7), of 0 "unat (m_zeroAreaStart b) - unat (m_start b)"] shape_span [OF sh]
      by simp
    have t: "take (unat (m_end b) - unat (m_zeroAreaEnd b))
          (drop (unat n + (unat (m_zeroAreaStart b) - unat (m_start b))) (m_octets d1)) =
        take (unat (m_end b) - unat (m_zeroAreaEnd b)) (drop (unat (m_zeroAreaStart b)) (m_octets d))"
      using take_window [OF mv(7), of "unat (m_zeroAreaStart b) - unat (m_start b)"
          "unat (m_end b) - unat (m_zeroAreaEnd b)"] shape_span [OF sh] sh
      by (simp add: shape_ok_def)
    have ct: "content M2 b1 = take (unat n) (m_octets d1) @ content M b"
    proof -
      have e: "unat (m_end b1) - unat (m_zeroAreaEnd b1) = unat (m_end b) - unat (m_zeroAreaEnd b)"
        using sh by (simp add: b1 shape_ok_def)
      have "content M2 b1 = bytes_in d1 b1" using ad(4) by (simp add: content_def b1(1) bytes_in_def)
      also have "\<dots> = take (unat n) (m_octets d1) @ bytes_in d b"
        unfolding bytes_in_def e z1(1) b1(2,3)
        using h t by (simp add: take_add)
      finally show ?thesis using d by (simp add: content_def)
    qed
    show ?thesis
    proof (rule that [OF eq, of "take (unat n) (m_octets d1)"])
      show "keeps M M2 (set_mset (refs B R))"
        using mv(4) ad(3) by (auto simp: keeps_def)
      show "length (take (unat n) (m_octets d1)) = unat n" using ln mv(6) nsz by simp
      show "\<forall>c\<in>#B. m_data c = m_data (learn_start b1) \<longrightarrow>
          unat (m_start (learn_start b1)) + unat n \<le> unat (m_start c)"
        using mv(3) by (force simp: b1 refs_def)
    qed (use ad(2) ct z1 b1 mv(3) in simp_all)
  qed
qed

text \<open>When \<open>AddAtEnd\<close> stays in its block.\<close>

definition extends_in_place :: "32 word \<Rightarrow> buffer \<Rightarrow> data_block \<Rightarrow> bool" where
  "extends_in_place n b d \<longleftrightarrow>
     GetInternalEnd b + n \<le> m_size d \<and> \<not> (m_count d > 1 \<and> m_end b < m_dirtyEnd d)"

lemma AddAtEnd_ok:
  assumes ok: "mem_ok M (add_mset b B) R"
    and n: "unat (m_end b) - unat (m_start b) + unat n \<le> MAX_BYTES"
  obtains b' M' new where "AddAtEnd n b M = Some (b', M')" and "mem_ok M' (add_mset b' B) R"
    and "keeps M M' (set_mset (refs B R))" and "content M' b' = content M b @ new" and "length new = unat n"
    and "unat (m_zeroAreaEnd b') + unat n \<le> unat (m_end b')"
    and "\<forall>c\<in>#B. m_data c = m_data b' \<longrightarrow> real_end c + unat n \<le> real_end b'"
    and "unat (m_end b') = unat (m_start b') + unat n + (unat (m_end b) - unat (m_start b))"
    and "zeros b' = zeros b"
    and "\<forall>d. blocks M (m_data b) = Some d \<longrightarrow>
      (if extends_in_place n b d then m_data b' = m_data b else m_data b' \<notin># refs B R)"
proof -
  obtain d where d: "blocks M (m_data b) = Some d" and fb: "fits b d"
    using mem_okD(7) [OF ok, of b] by auto
  have bo: "block_ok d" using mem_okD(3) [OF ok d] .
  have sh: "shape_ok b" using fb by (simp add: fits_def)
  note fe = fits_end [OF bo fb]
  have len: "length (m_octets d) = unat (m_size d)" using bo by (simp add: block_ok_def)
  show ?thesis
  proof (cases "GetInternalEnd b + n \<le> m_size d \<and> \<not> (m_count d > 1 \<and> m_end b < m_dirtyEnd d)")
    case True
    define b1 where "b1 = b\<lparr>m_end := m_end b + n\<rparr>"
    define d1 where "d1 = d\<lparr>m_dirtyEnd := m_end b1\<rparr>"
    define M1 where "M1 = M\<lparr>blocks := (blocks M)(m_data b \<mapsto> d1)\<rparr>"
    have room: "real_end b + unat n \<le> unat (m_size d)"
    proof -
      have "unat (GetInternalEnd b + n) = real_end b + unat n"
        using fe n internal_end [OF sh] by (subst unat_plus) (simp_all add: MAX_BYTES_def)
      then show ?thesis using True by (simp add: word_le_nat_alt)
    qed
    have en: "unat (m_end b1) = unat (m_end b) + unat n"
      using fe n by (simp add: b1_def) (subst unat_plus; simp add: MAX_BYTES_def)
    have b1: "m_data b1 = m_data b" "m_start b1 = m_start b" "m_zeroAreaStart b1 = m_zeroAreaStart b"
      "m_zeroAreaEnd b1 = m_zeroAreaEnd b" "zeros b1 = zeros b"
      by (simp_all add: b1_def zeros_def)
    have re1: "real_end b1 = real_end b + unat n" using en sh by (simp add: real_end_def b1 shape_ok_def)
    have cnt: "0 < unat (m_count d)" using mem_okD(4) [OF ok d] by simp
    obtain Z where Z: "\<forall>c\<in>#add_mset b B. m_data c = m_data b \<longrightarrow> zeros c \<le> Z \<and> real_end c + Z \<le> unat (m_dirtyEnd d)"
      using mem_okD(5) [OF ok d] by (auto simp: dirty_ok_def)
    have Zb: "zeros b \<le> Z" "real_end b + Z \<le> unat (m_dirtyEnd d)" using Z by simp_all
    have or: "m_count d = 1 \<or> m_end b = m_dirtyEnd d"
    proof (rule disjCI)
      assume "m_end b \<noteq> m_dirtyEnd d"
      then have "m_end b < m_dirtyEnd d"
        using Zb fe by (simp add: word_less_nat_alt order_less_le word_unat_eq_iff)
      then have "\<not> m_count d > 1" using True by simp
      then show "m_count d = 1" using cnt by (simp add: word_less_nat_alt word_unat_eq_iff)
    qed
    have ZE: "zeros c \<le> zeros b \<and> real_end c \<le> real_end b" if "c \<in># B" "m_data c = m_data b" for c
    proof -
      have e: "unat (m_end b) = unat (m_dirtyEnd d)" using or only_ref(2) [OF ok d _ that(1)] that(2) by auto
      have "zeros c \<le> Z" "real_end c + Z \<le> unat (m_dirtyEnd d)" using Z that by simp_all
      moreover have "Z = zeros b" using Zb fe e by simp
      ultimately show ?thesis using fe e by simp
    qed
    have bo1: "block_ok d1" using bo by (simp add: d1_def block_ok_def)
    have dk1: "dirty_ok (add_mset b1 B) (m_data b) d1"
      unfolding dirty_ok_def
    proof (intro exI ballI impI)
      fix c assume c: "c \<in># add_mset b1 B" "m_data c = m_data b"
      show "zeros c \<le> zeros b \<and> real_end c + zeros b \<le> unat (m_dirtyEnd d1)"
      proof (cases "c = b1")
        case True
        then show ?thesis using re1 en fe by (simp add: b1 d1_def)
      next
        case False
        then show ?thesis using ZE [of c] c en fe by (simp add: d1_def)
      qed
    qed
    have fit1: "fits b1 d1" using fb en b1 n room re1 by (auto simp: fits_def shape_ok_def d1_def)
    have ok1: "mem_ok M1 (add_mset b1 B) R"
    proof (rule mem_ok_update [OF ok _ bo1 dk1])
      show "unat (m_count d1) = count (refs (add_mset b1 B) R) (m_data b)"
        using mem_okD(4) [OF ok d] by (simp add: d1_def b1)
      show "fits c d1" if "c \<in># add_mset b1 B" "m_data c = m_data b" for c
      proof (cases "c = b1")
        case False
        then have c: "c \<in># B" using that by simp
        show ?thesis using other_fits [OF ok c d that(2)] by (simp add: fits_def d1_def)
      qed (simp add: fit1)
    qed (auto simp: b1 M1_def)
    have eq: "AddAtEnd n b M = Some (learn_start b1, M1)"
      using d True or by (simp add: AddAtEnd_def Let_def with_block_def M1_def d1_def b1_def)
    define new where "new = take (unat n) (drop (real_end b) (m_octets d))"
    have ct: "content M1 b1 = content M b @ new"
    proof -
      have "unat (m_end b1) - unat (m_zeroAreaEnd b1) = (unat (m_end b) - unat (m_zeroAreaEnd b)) + unat n"
        using en sh by (simp add: b1 shape_ok_def)
      then have "content M1 b1 = bytes_in d b @
          take (unat n) (drop (unat (m_zeroAreaStart b) + (unat (m_end b) - unat (m_zeroAreaEnd b))) (m_octets d))"
        by (simp add: content_def M1_def b1 d1_def bytes_in_def take_plus_drop)
      then show ?thesis using d by (simp add: content_def new_def real_end_def)
    qed
    show ?thesis
    proof (rule that [OF eq, of new])
      show "keeps M M1 (set_mset (refs B R))" using d by (auto simp: keeps_def M1_def d1_def)
      show "length new = unat n" using room len by (simp add: new_def)
      show "\<forall>c\<in>#B. m_data c = m_data (learn_start b1) \<longrightarrow> real_end c + unat n \<le> real_end (learn_start b1)"
        using ZE re1 by (simp add: b1)
      show "\<forall>d'. blocks M (m_data b) = Some d' \<longrightarrow> (if extends_in_place n b d' then m_data (learn_start b1) = m_data b
          else m_data (learn_start b1) \<notin># refs B R)"
        using d True by (simp add: extends_in_place_def b1)
    qed (use ok1 ct en sh in \<open>simp_all add: b1 shape_ok_def\<close>)
  next
    case False
    have re: "real_end b - unat (m_start b) \<le> unat (m_end b) - unat (m_start b)" using fe by simp
    have nsz: "unat (GetInternalSize b + n) = real_end b - unat (m_start b) + unat n"
      using internal_size [OF sh] n re by (subst unat_plus) (simp_all add: MAX_BYTES_def)
    have sz: "unat (GetInternalSize b + n) \<le> MAX_BYTES"
      "unat (0 :: 32 word) + (real_end b - unat (m_start b)) \<le> unat (GetInternalSize b + n)"
      using nsz n re by simp_all
    from move_content_ok [OF ok d sz internal_size [OF sh]] obtain a M1 d1 where
      mv: "move_content (GetInternalSize b + n) 0 b M = Some (a, M1)" "mem_ok M1 B (add_mset a R)"
        "a \<notin># refs B R" "keeps M M1 (set_mset (refs B R))" "blocks M1 a = Some d1"
        "unat (GetInternalSize b + n) \<le> unat (m_size d1)"
        "take (real_end b - unat (m_start b)) (drop (unat (0 :: 32 word)) (m_octets d1)) =
         take (real_end b - unat (m_start b)) (drop (unat (m_start b)) (m_octets d))" .
    define b1 where "b1 = b\<lparr>m_data := a, m_zeroAreaStart := m_zeroAreaStart b - m_start b,
      m_zeroAreaEnd := m_zeroAreaEnd b - m_start b, m_end := m_end b - m_start b + n, m_start := 0\<rparr>"
    have ue: "unat (m_end b - m_start b + n) = unat (m_end b) - unat (m_start b) + unat n"
      using n sh by (subst unat_plus) (simp_all add: unat_minus MAX_BYTES_def shape_ok_def)
    have b1: "m_data b1 = a" "unat (m_start b1) = 0"
      "unat (m_zeroAreaStart b1) = unat (m_zeroAreaStart b) - unat (m_start b)"
      "unat (m_zeroAreaEnd b1) = unat (m_zeroAreaEnd b) - unat (m_start b)"
      "unat (m_end b1) = unat (m_end b) - unat (m_start b) + unat n"
      using sh ue by (simp_all add: b1_def shape_ok_def unat_minus)
    have z1: "zeros b1 = zeros b" "real_end b1 = real_end b - unat (m_start b) + unat n"
      using sh by (simp_all add: zeros_def real_end_def b1 shape_ok_def)
    let ?d1 = "d1\<lparr>m_dirtyStart := m_start b1, m_dirtyEnd := m_end b1\<rparr>"
    have fit1: "fits b1 ?d1"
      using sh n mv(6) nsz z1 by (simp add: fits_def shape_ok_def b1) linarith
    from mem_ok_adopt [OF mv(2,3,5) b1(1) fit1] obtain M2 where
      ad: "set_dirty b1 M1 = Some M2" "mem_ok M2 (add_mset b1 B) R" "keeps M1 M2 UNIV"
        "blocks M2 a = Some ?d1" .
    have eq: "AddAtEnd n b M = Some (learn_start b1, M2)"
      using d False mv(1) ad(1) by (auto simp: AddAtEnd_def Let_def b1_def)
    have ln: "length (m_octets d1) = unat (m_size d1)"
      using mem_okD(3) [OF mv(2,5)] by (simp add: block_ok_def)
    let ?h = "unat (m_zeroAreaStart b) - unat (m_start b)" and ?t = "unat (m_end b) - unat (m_zeroAreaEnd b)"
    have h: "take ?h (m_octets d1) = take ?h (drop (unat (m_start b)) (m_octets d))"
      using take_window [OF mv(7), of 0 ?h] shape_span [OF sh] by simp
    have t: "take ?t (drop ?h (m_octets d1)) = take ?t (drop (unat (m_zeroAreaStart b)) (m_octets d))"
      using take_window [OF mv(7), of ?h ?t] shape_span [OF sh] sh by (simp add: shape_ok_def)
    define new where "new = take (unat n) (drop (?h + ?t) (m_octets d1))"
    have ct: "content M2 b1 = content M b @ new"
    proof -
      have e: "unat (m_end b1) - unat (m_zeroAreaEnd b1) = ?t + unat n"
        using sh by (simp add: b1 shape_ok_def)
      have "content M2 b1 = bytes_in d1 b1" using ad(4) by (simp add: content_def b1(1) bytes_in_def)
      also have "\<dots> = bytes_in d b @ new"
        unfolding bytes_in_def e z1(1) b1(2,3) take_plus_drop new_def
        using h t by (simp add: add.commute)
      finally show ?thesis using d by (simp add: content_def)
    qed
    show ?thesis
    proof (rule that [OF eq, of new])
      show "keeps M M2 (set_mset (refs B R))"
        using mv(4) ad(3) by (auto simp: keeps_def)
      have "?h + ?t = real_end b - unat (m_start b)" using sh by (simp add: real_end_def shape_ok_def)
      then show "length new = unat n" using ln mv(6) nsz by (simp add: new_def)
      show "\<forall>c\<in>#B. m_data c = m_data (learn_start b1) \<longrightarrow> real_end c + unat n \<le> real_end (learn_start b1)"
        using mv(3) by (force simp: b1 refs_def)
      show "unat (m_zeroAreaEnd (learn_start b1)) + unat n \<le> unat (m_end (learn_start b1))"
        using sh by (simp add: b1 shape_ok_def) linarith
      show "\<forall>d'. blocks M (m_data b) = Some d' \<longrightarrow> (if extends_in_place n b d' then m_data (learn_start b1) = m_data b
          else m_data (learn_start b1) \<notin># refs B R)"
        using d False mv(3) by (auto simp: extends_in_place_def b1)
    qed (use ad(2) ct z1 b1 in simp_all)
  qed
qed

text \<open>Seeing less of a block.\<close>

lemma mem_ok_shrink:
  assumes ok: "mem_ok M (add_mset b B) R" and b': "m_data b' = m_data b" "shape_ok b'"
    "unat (m_start b) \<le> unat (m_start b')" "real_end b' \<le> real_end b" "zeros b' \<le> zeros b"
    "unat (m_end b') - unat (m_start b') \<le> unat (m_end b) - unat (m_start b)"
  shows "mem_ok M (add_mset b' B) R"
proof -
  have "dirty_ok (add_mset b' B) a d" if dk: "dirty_ok (add_mset b B) a d" for a d
  proof -
    obtain Z where Z: "\<forall>c\<in>#add_mset b B. m_data c = a \<longrightarrow> zeros c \<le> Z \<and> real_end c + Z \<le> unat (m_dirtyEnd d)"
      using dk by (auto simp: dirty_ok_def)
    have "zeros c \<le> Z \<and> real_end c + Z \<le> unat (m_dirtyEnd d)"
      if c: "c \<in># add_mset b' B" "m_data c = a" for c
    proof (cases "c = b'")
      case True
      then have "zeros b \<le> Z" "real_end b + Z \<le> unat (m_dirtyEnd d)" using Z c(2) b'(1) by auto
      then show ?thesis using True b'(4,5) by simp
    next
      case False
      then show ?thesis using Z c by simp
    qed
    then show ?thesis unfolding dirty_ok_def by blast
  qed
  moreover have "fits b' d" if "fits b d" for d using that b' by (auto simp: fits_def)
  ultimately show ?thesis using ok b'(1) unfolding mem_ok_def refs_add by auto
qed

lemma fits_bounds:
  assumes "mem_ok M (add_mset b B) R"
  obtains d where "blocks M (m_data b) = Some d" "fits b d" "shape_ok b" "block_ok d"
    "content M b = bytes_in d b" "unat (m_end b) \<le> 2 * MAX_BYTES + 101" "real_end b \<le> MAX_BYTES + 101"
    "real_end b + zeros b = unat (m_end b)" "length (content M b) = unat (m_end b) - unat (m_start b)"
    "length (content M b) \<le> MAX_BYTES" "real_end b \<le> length (m_octets d)"
proof -
  obtain d where d: "blocks M (m_data b) = Some d" "fits b d" using mem_okD(7) [OF assms, of b] by auto
  have bo: "block_ok d" using mem_okD(3) [OF assms d(1)] .
  have "content M b = bytes_in d b" using d by (simp add: content_def)
  then show ?thesis
    using that [OF d _ bo] fits_end [OF bo d(2)] length_bytes_in [OF bo d(2)] d(2) bo
    by (simp add: fits_def block_ok_def)
qed

lemma RemoveAtStart_ok:
  assumes ok: "mem_ok M (add_mset b B) R" and n: "unat n \<le> MAX_BYTES"
  obtains b' where "RemoveAtStart n b = Some b'" and "mem_ok M (add_mset b' B) R"
    and "content M b' = drop (unat n) (content M b)"
proof -
  note result = that
  from fits_bounds [OF ok] obtain d where
    d: "blocks M (m_data b) = Some d" "fits b d" "shape_ok b" "block_ok d" "content M b = bytes_in d b"
      "unat (m_end b) \<le> 2 * MAX_BYTES + 101" "real_end b \<le> MAX_BYTES + 101"
      "real_end b + zeros b = unat (m_end b)" "length (content M b) = unat (m_end b) - unat (m_start b)"
      "length (content M b) \<le> MAX_BYTES" "real_end b \<le> length (m_octets d)" .
  have sh: "unat (m_start b) \<le> unat (m_zeroAreaStart b)" "unat (m_zeroAreaStart b) \<le> unat (m_zeroAreaEnd b)"
    "unat (m_zeroAreaEnd b) \<le> unat (m_end b)" using d(3) by (simp_all add: shape_ok_def)
  have ns: "unat (m_start b + n) = unat (m_start b) + unat n"
    using n sh d(6-8) by (subst unat_plus) (simp_all add: MAX_BYTES_def)
  have zs: "unat (m_zeroAreaEnd b - m_zeroAreaStart b) = zeros b" using sh by (simp add: unat_minus zeros_def)
  have main: ?thesis if b': "RemoveAtStart n b = Some (learn_start b')" "m_data b' = m_data b" "shape_ok b'"
    "unat (m_start b) \<le> unat (m_start b')" "real_end b' \<le> real_end b" "zeros b' \<le> zeros b"
    "unat (m_end b') - unat (m_start b') \<le> unat (m_end b) - unat (m_start b)"
    "bytes_in d b' = drop (unat n) (bytes_in d b)" for b'
  proof (rule result [OF b'(1)])
    show "mem_ok M (add_mset (learn_start b') B) R" using mem_ok_shrink [OF ok b'(2-7)] by simp
    show "content M (learn_start b') = drop (unat n) (content M b)"
      using b'(2,8) d(1) by (simp add: content_def)
  qed
  consider (1) "m_start b + n \<le> m_zeroAreaStart b" | (2) "\<not> m_start b + n \<le> m_zeroAreaStart b" "m_start b + n \<le> m_zeroAreaEnd b"
    | (3) "\<not> m_start b + n \<le> m_zeroAreaStart b" "\<not> m_start b + n \<le> m_zeroAreaEnd b" "m_start b + n \<le> m_end b"
    | (4) "\<not> m_start b + n \<le> m_zeroAreaStart b" "\<not> m_start b + n \<le> m_zeroAreaEnd b" "\<not> m_start b + n \<le> m_end b"
    by blast
  then show ?thesis
  proof cases
    case 1
    then have c: "unat (m_start b) + unat n \<le> unat (m_zeroAreaStart b)" using ns by (simp add: word_le_nat_alt)
    let ?b = "b\<lparr>m_start := m_start b + n\<rparr>"
    show ?thesis
    proof (rule main)
      show "RemoveAtStart n b = Some (learn_start ?b)" using 1 by (simp add: RemoveAtStart_def Let_def)
      show "bytes_in d ?b = drop (unat n) (bytes_in d b)"
        using c sh d(7,8,11) ns [unfolded add.commute [of "m_start b"]]
        by (simp add: bytes_in_def ns zeros_def drop_take add.commute real_end_def)
    qed (use c sh ns in \<open>auto simp: shape_ok_def real_end_def zeros_def\<close>)
  next
    case 2
    then have c: "unat (m_zeroAreaStart b) < unat (m_start b) + unat n"
      "unat (m_start b) + unat n \<le> unat (m_zeroAreaEnd b)" using ns by (simp_all add: word_le_nat_alt)
    define k where "k = unat (m_start b) + unat n - unat (m_zeroAreaStart b)"
    let ?k = "m_start b + n - m_zeroAreaStart b"
    have k: "unat ?k = k" using c ns by (simp add: unat_minus k_def)
    have k2: "unat (m_zeroAreaEnd b - ?k) = unat (m_zeroAreaEnd b) - k"
      "unat (m_end b - ?k) = unat (m_end b) - k"
      using c sh k by (auto simp: unat_minus k_def)
    let ?b = "b\<lparr>m_start := m_zeroAreaStart b, m_zeroAreaEnd := m_zeroAreaEnd b - ?k, m_end := m_end b - ?k\<rparr>"
    have un: "unat n = (unat (m_zeroAreaStart b) - unat (m_start b)) + k" using c sh by (simp add: k_def)
    have kz: "k \<le> zeros b" using c sh by (simp add: k_def zeros_def)
    show ?thesis
    proof (rule main)
      show "RemoveAtStart n b = Some (learn_start ?b)" using 2 by (simp add: RemoveAtStart_def Let_def)
      show "bytes_in d ?b = drop (unat n) (bytes_in d b)"
        using un kz sh d(11) by (simp add: bytes_in_def k2 zeros_def real_end_def)
      show "shape_ok ?b" using c sh by (simp add: shape_ok_def k2 k_def) linarith
      show "real_end ?b \<le> real_end b" "zeros ?b \<le> zeros b"
        using c sh by (simp_all add: real_end_def zeros_def k2 k_def)
    qed (use c sh in \<open>simp_all add: k2 k_def\<close>)
  next
    case 3
    then have c: "unat (m_zeroAreaEnd b) < unat (m_start b) + unat n"
      "unat (m_start b) + unat n \<le> unat (m_end b)" "unat n \<le> unat (m_end b)"
      using ns by (simp_all add: word_le_nat_alt)
    let ?z = "m_zeroAreaEnd b - m_zeroAreaStart b"
    have u: "unat (m_start b + n - ?z) = unat (m_start b) + unat n - zeros b"
      "unat (m_end b - ?z) = unat (m_end b) - zeros b"
      using c sh ns zs by (auto simp: unat_minus zeros_def)
    let ?b = "b\<lparr>m_start := m_start b + n - ?z, m_end := m_end b - ?z,
              m_zeroAreaStart := m_start b + n - ?z, m_zeroAreaEnd := m_start b + n - ?z\<rparr>"
    define k where "k = unat (m_start b) + unat n - unat (m_zeroAreaEnd b)"
    have un: "unat n = (unat (m_zeroAreaStart b) - unat (m_start b)) + (zeros b + k)"
      using c sh by (simp add: k_def zeros_def)
    have e: "unat (m_start b) + unat n - zeros b = unat (m_zeroAreaStart b) + k"
      "unat (m_end b) - zeros b - (unat (m_zeroAreaStart b) + k) =
       unat (m_end b) - unat (m_zeroAreaEnd b) - k"
      using c sh by (simp_all add: k_def zeros_def)
    show ?thesis
    proof (rule main)
      show "RemoveAtStart n b = Some (learn_start ?b)"
        using 3 c(3) by (simp add: RemoveAtStart_def Let_def word_le_nat_alt)
      have "drop (unat n) (bytes_in d b) =
          take (unat (m_end b) - unat (m_zeroAreaEnd b) - k) (drop (unat (m_zeroAreaStart b) + k) (m_octets d))"
        unfolding un bytes_in_def using sh d(11) by (simp add: real_end_def drop_take add.commute)
      moreover have "bytes_in d ?b =
          take (unat (m_end b) - unat (m_zeroAreaEnd b) - k) (drop (unat (m_zeroAreaStart b) + k) (m_octets d))"
      proof -
        have "unat (m_zeroAreaStart ?b) = unat (m_zeroAreaStart b) + k" "zeros ?b = 0"
          "unat (m_zeroAreaStart ?b) = unat (m_start ?b)"
          "unat (m_end ?b) - unat (m_zeroAreaEnd ?b) = unat (m_end b) - unat (m_zeroAreaEnd b) - k"
          using u e by (simp_all add: zeros_def [of ?b])
        then show ?thesis unfolding bytes_in_def by simp
      qed
      ultimately show "bytes_in d ?b = drop (unat n) (bytes_in d b)" by simp
      show "shape_ok ?b" using c sh by (simp add: shape_ok_def u zeros_def)
      show "real_end ?b \<le> real_end b" "zeros ?b \<le> zeros b"
        using c sh by (simp_all add: real_end_def u zeros_def)
    qed (use c sh in \<open>simp_all add: u zeros_def\<close>)
  next
    case 4
    then have c: "unat (m_end b) < unat (m_start b) + unat n" using ns by (simp add: word_le_nat_alt)
    let ?e = "m_end b - (m_zeroAreaEnd b - m_zeroAreaStart b)"
    have u: "unat ?e = real_end b" using sh zs by (simp add: unat_minus zeros_def real_end_def)
    let ?b = "b\<lparr>m_end := ?e, m_start := ?e, m_zeroAreaEnd := ?e, m_zeroAreaStart := ?e\<rparr>"
    show ?thesis
    proof (rule main)
      show "RemoveAtStart n b = Some (learn_start ?b)" using 4 by (simp add: RemoveAtStart_def Let_def)
      show "bytes_in d ?b = drop (unat n) (bytes_in d b)"
        using c d(5,9) by (simp add: bytes_in_def [of _ ?b] zeros_def)
      show "real_end ?b \<le> real_end b" by (simp add: real_end_def [of ?b] u)
      show "unat (m_start b) \<le> unat (m_start ?b)" using sh by (simp add: u) (simp add: real_end_def)
    qed (simp_all add: shape_ok_def zeros_def)
  qed
qed

lemma RemoveAtEnd_ok:
  assumes ok: "mem_ok M (add_mset b B) R"
  shows "mem_ok M (add_mset (RemoveAtEnd n b) B) R"
    and "content M (RemoveAtEnd n b) = take (length (content M b) - unat n) (content M b)"
    and "m_data (RemoveAtEnd n b) = m_data b"
proof -
  from fits_bounds [OF ok] obtain d where
    d: "blocks M (m_data b) = Some d" "fits b d" "shape_ok b" "block_ok d" "content M b = bytes_in d b"
      "unat (m_end b) \<le> 2 * MAX_BYTES + 101" "real_end b \<le> MAX_BYTES + 101"
      "real_end b + zeros b = unat (m_end b)" "length (content M b) = unat (m_end b) - unat (m_start b)"
      "length (content M b) \<le> MAX_BYTES" "real_end b \<le> length (m_octets d)" .
  have sh: "unat (m_start b) \<le> unat (m_zeroAreaStart b)" "unat (m_zeroAreaStart b) \<le> unat (m_zeroAreaEnd b)"
    "unat (m_zeroAreaEnd b) \<le> unat (m_end b)" using d(3) by (simp_all add: shape_ok_def)
  define N where "N = m_end b - min n (m_end b - m_start b)"
  define L where "L = length (content M b) - unat n"
  have mn: "unat (min n (m_end b - m_start b)) = min (unat n) (unat (m_end b) - unat (m_start b))"
    using sh by (auto simp: min_def word_le_nat_alt unat_minus)
  have N: "unat N = unat (m_start b) + L"
    using sh d(9) unfolding N_def L_def by (subst unat_minus) (simp_all add: mn)
  have NL: "unat N \<le> unat (m_end b)" using N d(9) sh by (simp add: L_def)
  have main: "mem_ok M (add_mset (RemoveAtEnd n b) B) R \<and>
      content M (RemoveAtEnd n b) = take L (content M b) \<and> m_data (RemoveAtEnd n b) = m_data b"
    if b': "RemoveAtEnd n b = learn_start b'" "m_data b' = m_data b" "shape_ok b'"
    "unat (m_start b) \<le> unat (m_start b')" "real_end b' \<le> real_end b" "zeros b' \<le> zeros b"
    "unat (m_end b') - unat (m_start b') \<le> unat (m_end b) - unat (m_start b)"
    "bytes_in d b' = take L (bytes_in d b)" for b'
    using mem_ok_shrink [OF ok b'(2-7)] b'(1,2,8) d(1) by (simp add: content_def)
  have r: "RemoveAtEnd n b =
     (if N > m_zeroAreaEnd b then learn_start (b\<lparr>m_end := N\<rparr>)
      else if N > m_zeroAreaStart b then learn_start (b\<lparr>m_end := N, m_zeroAreaEnd := N\<rparr>)
      else if N > m_start b then learn_start (b\<lparr>m_end := N, m_zeroAreaEnd := N, m_zeroAreaStart := N\<rparr>)
      else learn_start (b\<lparr>m_end := m_start b, m_zeroAreaEnd := m_start b, m_zeroAreaStart := m_start b\<rparr>))"
    by (simp add: RemoveAtEnd_def Let_def N_def)
  define h where "h = unat (m_zeroAreaStart b) - unat (m_start b)"
  define t where "t = unat (m_end b) - unat (m_zeroAreaEnd b)"
  have len: "length (m_octets d) \<ge> unat (m_start b) + h" "length (m_octets d) \<ge> unat (m_zeroAreaStart b) + t"
    using d(11) sh by (simp_all add: h_def t_def real_end_def)
  have lA: "length (take h (drop (unat (m_start b)) (m_octets d))) = h" using len by simp
  have bb: "bytes_in d b = take h (drop (unat (m_start b)) (m_octets d)) @ replicate (zeros b) 0 @
      take t (drop (unat (m_zeroAreaStart b)) (m_octets d))" by (simp add: bytes_in_def h_def t_def)
  consider (1) "unat (m_zeroAreaEnd b) < unat N"
    | (2) "unat N \<le> unat (m_zeroAreaEnd b)" "unat (m_zeroAreaStart b) < unat N"
    | (3) "unat N \<le> unat (m_zeroAreaStart b)" "unat (m_start b) < unat N"
    | (4) "unat N = unat (m_start b)" using N by linarith
  then have "mem_ok M (add_mset (RemoveAtEnd n b) B) R \<and>
      content M (RemoveAtEnd n b) = take L (content M b) \<and> m_data (RemoveAtEnd n b) = m_data b"
  proof cases
    case 1
    let ?b = "b\<lparr>m_end := N\<rparr>"
    show ?thesis
    proof (rule main)
      show "RemoveAtEnd n b = learn_start ?b" using 1 by (simp add: r word_less_nat_alt)
      define r where "r = unat N - unat (m_zeroAreaEnd b)"
      have "L = h + (zeros b + r)" using 1 sh N by (simp add: r_def h_def zeros_def)
      moreover have "r \<le> t" using NL by (simp add: r_def t_def)
      ultimately show "bytes_in d ?b = take L (bytes_in d b)"
        unfolding bb by (simp only: take_parts(1) [OF lA length_replicate])
          (simp add: bytes_in_def zeros_def r_def [symmetric] h_def [symmetric])
    qed (use 1 sh NL in \<open>auto simp: shape_ok_def real_end_def zeros_def\<close>)
  next
    case 2
    let ?b = "b\<lparr>m_end := N, m_zeroAreaEnd := N\<rparr>"
    show ?thesis
    proof (rule main)
      show "RemoveAtEnd n b = learn_start ?b" using 2 by (simp add: r word_less_nat_alt)
      define r where "r = unat N - unat (m_zeroAreaStart b)"
      have "L = h + r" using 2 sh N by (simp add: r_def h_def)
      moreover have "r \<le> zeros b" using 2 by (simp add: r_def zeros_def)
      ultimately show "bytes_in d ?b = take L (bytes_in d b)"
        unfolding bb by (simp only: take_parts(2) [OF lA])
          (simp add: bytes_in_def zeros_def [of ?b] r_def [symmetric] h_def [symmetric])
    qed (use 2 sh NL in \<open>auto simp: shape_ok_def real_end_def zeros_def\<close>)
  next
    case 3
    let ?b = "b\<lparr>m_end := N, m_zeroAreaEnd := N, m_zeroAreaStart := N\<rparr>"
    show ?thesis
    proof (rule main)
      show "RemoveAtEnd n b = learn_start ?b" using 3 sh by (simp add: r word_less_nat_alt)
      have "L \<le> h" using 3 sh N by (simp add: h_def)
      then show "bytes_in d ?b = take L (bytes_in d b)"
        unfolding bb using len N by (simp add: bytes_in_def zeros_def [of ?b])
    qed (use 3 sh NL in \<open>auto simp: shape_ok_def real_end_def zeros_def\<close>)
  next
    case 4
    let ?b = "b\<lparr>m_end := m_start b, m_zeroAreaEnd := m_start b, m_zeroAreaStart := m_start b\<rparr>"
    show ?thesis
    proof (rule main)
      show "RemoveAtEnd n b = learn_start ?b" using 4 sh by (simp add: r word_less_nat_alt)
      show "bytes_in d ?b = take L (bytes_in d b)" using 4 N by (simp add: bytes_in_def zeros_def)
    qed (use 4 sh in \<open>auto simp: shape_ok_def real_end_def zeros_def\<close>)
  qed
  then show "mem_ok M (add_mset (RemoveAtEnd n b) B) R"
    and "content M (RemoveAtEnd n b) = take (length (content M b) - unat n) (content M b)"
    and "m_data (RemoveAtEnd n b) = m_data b"
    unfolding L_def by blast+
qed

end
