(* ===== verification/Packet_Buffer_Ops.thy ===== *)
theory Packet_Buffer_Ops
  imports Packet_Buffer_Inv
begin

text \<open>
  Creating, copying, cutting and appending buffers, and writing into room that was just made:
  the bytes of the buffer are those of the list operation, the bytes of all others stay.
\<close>

definition same_contents :: "memory \<Rightarrow> memory \<Rightarrow> buffer multiset \<Rightarrow> bool" where
  "same_contents M M' B \<longleftrightarrow> (\<forall>c\<in>#B. content M' c = content M c)"

lemma same_contents_refl [simp]: "same_contents M M B"
  by (simp add: same_contents_def)

lemma same_contents_trans: "same_contents M M' B \<Longrightarrow> same_contents M' M'' B \<Longrightarrow> same_contents M M'' B"
  by (simp add: same_contents_def)

lemma same_contents_add [simp]:
  "same_contents M M' (add_mset b B) \<longleftrightarrow> content M' b = content M b \<and> same_contents M M' B"
  by (simp add: same_contents_def)

lemma keeps_same: "keeps M M' (set_mset (refs B R)) \<Longrightarrow> same_contents M M' B"
  unfolding same_contents_def refs_def by (auto intro: keeps_content)

lemma keeps_all: "keeps M M' UNIV \<Longrightarrow> same_contents M M' B"
  unfolding same_contents_def by (auto intro: keeps_content)

lemma mem_ok_recommended [simp]: "mem_ok (M\<lparr>g_recommendedStart := x\<rparr>) B R = mem_ok M B R"
  by (simp add: mem_ok_def free_ok_def split: option.split)

lemma content_recommended [simp]:
  "content (M\<lparr>g_recommendedStart := x\<rparr>) b = content M b"
  "same_contents M' (M\<lparr>g_recommendedStart := x\<rparr>) B = same_contents M' M B"
  "same_contents (M\<lparr>g_recommendedStart := x\<rparr>) M' B = same_contents M M' B"
  by (simp_all add: content_def same_contents_def)

subsection \<open>Creation, copies, assignment and destruction\<close>

text \<open>The same part of the same block.\<close>

definition alike :: "buffer \<Rightarrow> buffer \<Rightarrow> bool" where
  "alike b c \<longleftrightarrow> m_data b = m_data c \<and> m_start b = m_start c \<and> m_zeroAreaStart b = m_zeroAreaStart c \<and>
     m_zeroAreaEnd b = m_zeroAreaEnd c \<and> m_end b = m_end c"

lemma alike_simps:
  assumes "alike b c"
  shows "m_data b = m_data c" "content M b = content M c" "zeros b = zeros c" "real_end b = real_end c"
    "fits b d = fits c d" "shape_ok b = shape_ok c" "m_start b = m_start c" "m_end b = m_end c"
  using assms by (auto simp: alike_def content_def zeros_def real_end_def fits_def shape_ok_def bytes_in_def
      split: option.split)

lemma mem_ok_twin:
  assumes "mem_ok M (add_mset b B) (add_mset (m_data b) R)" and "alike b' b"
  shows "mem_ok M (add_mset b' (add_mset b B)) R"
proof -
  have "dirty_ok (add_mset b' (add_mset b B)) a d" if "dirty_ok (add_mset b B) a d" for a d
    using that alike_simps [OF assms(2)] by (auto simp: dirty_ok_def)
  then show ?thesis
    using assms(1) alike_simps [OF assms(2)] unfolding mem_ok_def refs_add by auto
qed

lemma mem_ok_swap: "mem_ok M (add_mset b (add_mset c B)) R \<Longrightarrow> mem_ok M (add_mset c (add_mset b B)) R"
  by (simp add: add_mset_commute)

lemma Initialize_ok:
  assumes ok: "mem_ok M B R" and n: "unat n \<le> MAX_BYTES"
  obtains b M' where "Initialize n M = Some (b, M')" and "mem_ok M' (add_mset b B) R"
    and "same_contents M M' B" and "content M' b = replicate (unat n) 0"
    and "unat (m_end b) - unat (m_start b) = unat n" and "zeros b = unat n" and "m_data b \<notin># refs B R"
proof -
  from Create_ok [OF ok, of 0] obtain a M1 d where c: "Create 0 M = Some (a, M1)"
    "mem_ok M1 B (add_mset a R)" "a \<notin># refs B R" "keeps M M1 (set_mset (refs B R))" "blocks M1 a = Some d"
    by (auto simp: MAX_BYTES_def)
  define s where "s = min (m_size d) (g_recommendedStart M1)"
  define b where "b = \<lparr>m_data = a, m_maxZeroAreaStart = s, m_zeroAreaStart = s, m_zeroAreaEnd = s + n,
              m_start = s, m_end = s + n\<rparr>"
  have "block_ok d" using mem_okD(3) [OF c(2,5)] .
  moreover have "unat s \<le> unat (m_size d)" by (simp add: s_def word_le_nat_alt [symmetric])
  ultimately have s: "unat s \<le> unat (m_size d)" "unat (s + n) = unat s + unat n"
    using n by (simp_all add: block_ok_def) (subst unat_plus; simp add: MAX_BYTES_def)
  have fit: "fits b (d\<lparr>m_dirtyStart := m_start b, m_dirtyEnd := m_end b\<rparr>)"
    using s n by (simp add: b_def fits_def shape_ok_def real_end_def)
  have "m_data b = a" by (simp add: b_def)
  from mem_ok_adopt [OF c(2,3,5) this fit] obtain M2 where a: "set_dirty b M1 = Some M2"
    "mem_ok M2 (add_mset b B) R" "keeps M1 M2 UNIV" .
  have eq: "Initialize n M = Some (b, M2)"
    using c(1,5) a(1) by (simp add: Initialize_def Let_def set_dirty_def b_def s_def)
  have "content M2 b = content M1 b" using a(3) by (auto intro: keeps_content)
  then have "content M2 b = replicate (unat n) 0"
    using c(5) s(2) by (simp add: content_def b_def bytes_in_def zeros_def)
  moreover have "same_contents M M2 B"
    using keeps_same [OF c(4)] keeps_all [OF a(3)] by (rule same_contents_trans)
  ultimately show ?thesis
    using that [OF eq a(2)] s(2) c(3) by (simp add: b_def zeros_def)
qed

lemma Buffer_copy_ok:
  assumes ok: "mem_ok M (add_mset b B) R" and room: "size (refs (add_mset b B) R) < 2 ^ 32 - 1"
  obtains b' M' where "Buffer_copy b M = Some (b', M')" and "mem_ok M' (add_mset b' (add_mset b B)) R"
    and "same_contents M M' (add_mset b B)" and "alike b' b"
proof -
  from share_ok [OF ok _ room, of "m_data b"] obtain M' where
    s: "with_block (m_data b) (\<lambda>d. d\<lparr>m_count := m_count d + 1\<rparr>) M = Some M'"
      "mem_ok M' (add_mset b B) (add_mset (m_data b) R)" "keeps M M' UNIV" by auto
  let ?b = "b\<lparr>m_maxZeroAreaStart := m_zeroAreaStart b\<rparr>"
  have al: "alike ?b b" by (simp add: alike_def)
  show ?thesis
    using that [OF _ mem_ok_twin [OF s(2) al] _ al] s(1) keeps_all [OF s(3), of "add_mset b B"]
    by (simp add: Buffer_copy_def)
qed

lemma Buffer_destroy_ok:
  assumes ok: "mem_ok M (add_mset b B) R"
  obtains M' where "Buffer_destroy b M = Some M'" and "mem_ok M' B R" and "same_contents M M' B"
proof -
  let ?M = "M\<lparr>g_recommendedStart := max (g_recommendedStart M) (m_maxZeroAreaStart b)\<rparr>"
  have "mem_ok ?M B (add_mset (m_data b) R)" using mem_ok_forget [OF ok] by simp
  from release_ok [OF this] obtain M' where "release (m_data b) ?M = Some M'" "mem_ok M' B R"
    "keeps ?M M' (set_mset (refs B R))" .
  then show ?thesis using that [of M'] keeps_same [of ?M M' B R] by (simp add: Buffer_destroy_def)
qed

lemma Buffer_assign_ok:
  assumes ok: "mem_ok M (add_mset b (add_mset r B)) R"
    and room: "size (refs (add_mset b (add_mset r B)) R) < 2 ^ 32 - 1"
  obtains M' where "Buffer_assign b r M = Some (r, M')" and "mem_ok M' (add_mset r (add_mset r B)) R"
    and "same_contents M M' (add_mset r B)"
proof (cases "m_data b = m_data r")
  case True
  then have "mem_ok M (add_mset r B) (add_mset (m_data r) R)" using mem_ok_forget [OF ok] by simp
  from mem_ok_twin [OF this, of r] have "mem_ok M (add_mset r (add_mset r B)) R" by (simp add: alike_def)
  then show ?thesis using that True by (simp add: Buffer_assign_def)
next
  case False
  from release_ok [OF mem_ok_forget [OF ok]] obtain M1 where
    r: "release (m_data b) M = Some M1" "mem_ok M1 (add_mset r B) R"
      "keeps M M1 (set_mset (refs (add_mset r B) R))" .
  have "size (refs (add_mset r B) R) < 2 ^ 32 - 1" using room by simp
  from share_ok [OF r(2) _ this, of "m_data r"] obtain M2 where
    s: "with_block (m_data r) (\<lambda>d. d\<lparr>m_count := m_count d + 1\<rparr>) M1 = Some M2"
      "mem_ok M2 (add_mset r B) (add_mset (m_data r) R)" "keeps M1 M2 UNIV" by auto
  from mem_ok_twin [OF s(2), of r] have "mem_ok M2 (add_mset r (add_mset r B)) R" by (simp add: alike_def)
  moreover have "same_contents M M2 (add_mset r B)"
    using keeps_same [OF r(3)] keeps_all [OF s(3)] by (rule same_contents_trans)
  ultimately show ?thesis using that False r(1) s(1) by (simp add: Buffer_assign_def)
qed

lemma CreateFragment_ok:
  assumes ok: "mem_ok M (add_mset b B) R" and room: "size (refs (add_mset b B) R) < 2 ^ 32 - 1"
    and len: "unat s + unat l \<le> length (content M b)"
  obtains b' M' where "CreateFragment s l b M = Some (b', M')" and "mem_ok M' (add_mset b' (add_mset b B)) R"
    and "same_contents M M' (add_mset b B)" and "content M' b' = take (unat l) (drop (unat s) (content M b))"
proof -
  from Buffer_copy_ok [OF ok room] obtain t M1 where
    t: "Buffer_copy b M = Some (t, M1)" "mem_ok M1 (add_mset t (add_mset b B)) R"
      "same_contents M M1 (add_mset b B)" "alike t b" .
  have ct: "content M1 t = content M b" using t(3,4) by (simp add: alike_simps)
  from fits_bounds [OF ok] have lb: "length (content M b) \<le> MAX_BYTES"
    "length (content M b) = unat (m_end b) - unat (m_start b)" "shape_ok b" by blast+
  have "unat s \<le> MAX_BYTES" using len lb by simp
  from RemoveAtStart_ok [OF t(2) this] obtain u where
    u: "RemoveAtStart s t = Some u" "mem_ok M1 (add_mset u (add_mset b B)) R"
      "content M1 u = drop (unat s) (content M1 t)" .
  define e where "e = Buffer_GetSize b - (s + l)"
  have sl: "unat (s + l) = unat s + unat l" using len lb by (subst unat_plus) (simp_all add: MAX_BYTES_def)
  have gs: "unat (Buffer_GetSize b) = length (content M b)"
    using lb by (simp add: Buffer_GetSize_def unat_minus shape_ok_def)
  have e: "unat e = length (content M b) - (unat s + unat l)"
    using len gs sl by (simp add: e_def unat_minus)
  note r = RemoveAtEnd_ok [OF u(2), of e]
  show ?thesis
  proof (rule that)
    show "CreateFragment s l b M = Some (RemoveAtEnd e u, M1)" using t(1) u(1) by (simp add: CreateFragment_def e_def)
    show "content M1 (RemoveAtEnd e u) = take (unat l) (drop (unat s) (content M b))"
      unfolding r(2) u(3) ct e using len by simp
  qed (use r(1) t(3) in auto)
qed

subsection \<open>Writing into room that was just made\<close>

text \<open>The range \<open>p .. p + n\<close> of the block is seen by \<open>b\<close>, before or after its zeros, and by no other buffer.\<close>

definition private_range :: "buffer \<Rightarrow> buffer multiset \<Rightarrow> nat \<Rightarrow> nat \<Rightarrow> bool" where
  "private_range b B p n \<longleftrightarrow>
     unat (m_start b) \<le> p \<and> p + n \<le> real_end b \<and>
     (p + n \<le> unat (m_zeroAreaStart b) \<or> unat (m_zeroAreaStart b) \<le> p) \<and>
     (\<forall>c\<in>#B. m_data c = m_data b \<longrightarrow> p + n \<le> unat (m_start c) \<or> real_end c \<le> p)"

definition virtual :: "buffer \<Rightarrow> nat \<Rightarrow> nat \<Rightarrow> nat" where
  "virtual b p n = (if p + n \<le> unat (m_zeroAreaStart b) then p - unat (m_start b)
                    else p - unat (m_start b) + zeros b)"

lemma overwrite_append_left:
  "p + length bs \<le> length xs \<Longrightarrow> overwrite p bs (xs @ ys) = overwrite p bs xs @ ys"
  by (simp add: overwrite_def)

lemma overwrite_append_right:
  "length xs \<le> p \<Longrightarrow> overwrite p bs (xs @ ys) = xs @ overwrite (p - length xs) bs ys"
  by (simp add: overwrite_def Suc_diff_le add.commute)

lemma take_drop_overwrite_inside:
  "o1 \<le> p \<Longrightarrow> p + length bs \<le> o1 + n \<Longrightarrow> o1 + n \<le> length xs \<Longrightarrow>
   take n (drop o1 (overwrite p bs xs)) = overwrite (p - o1) bs (take n (drop o1 xs))"
proof -
  assume a: "o1 \<le> p" "p + length bs \<le> o1 + n" "o1 + n \<le> length xs"
  define X Y Z where "X = take o1 xs" and "Y = take n (drop o1 xs)" and "Z = drop n (drop o1 xs)"
  have xs: "xs = X @ Y @ Z" unfolding X_def Y_def Z_def append_take_drop_id ..
  have len: "length X = o1" "length Y = n" using a by (simp_all add: X_def Y_def)
  have lo: "length (overwrite (p - o1) bs Y) = n" using a len by (subst length_overwrite) auto
  have "overwrite p bs xs = X @ overwrite (p - o1) bs Y @ Z"
    unfolding xs using a len by (simp add: overwrite_append_left overwrite_append_right)
  then have "take n (drop o1 (overwrite p bs xs)) = overwrite (p - o1) bs Y" using len lo by simp
  then show ?thesis by (simp only: Y_def)
qed

lemma store_private:
  assumes ok: "mem_ok M (add_mset b B) R" and pr: "private_range b B p (length bs)"
  obtains M' where "store (m_data b) p bs M = Some M'" and "mem_ok M' (add_mset b B) R"
    and "content M' b = overwrite (virtual b p (length bs)) bs (content M b)" and "same_contents M M' B"
proof -
  from fits_bounds [OF ok] obtain d where
    d: "blocks M (m_data b) = Some d" "fits b d" "shape_ok b" "block_ok d" "content M b = bytes_in d b"
      "unat (m_end b) \<le> 2 * MAX_BYTES + 101" "real_end b \<le> MAX_BYTES + 101"
      "real_end b + zeros b = unat (m_end b)" "length (content M b) = unat (m_end b) - unat (m_start b)"
      "length (content M b) \<le> MAX_BYTES" "real_end b \<le> length (m_octets d)" .
  have lo: "length (m_octets d) = unat (m_size d)" using d(4) by (simp add: block_ok_def)
  have pl: "p + length bs \<le> unat (m_size d)" using pr d(11) lo by (simp add: private_range_def)
  from store_ok [OF ok _ d(1) pl] obtain M' where s: "store (m_data b) p bs M = Some M'"
    "mem_ok M' (add_mset b B) R"
    "blocks M' = (blocks M)(m_data b \<mapsto> d\<lparr>m_octets := overwrite p bs (m_octets d)\<rparr>)" by auto
  have "content M' c = content M c" if c: "c \<in># B" for c
  proof (cases "m_data c = m_data b")
    case True
    have "bytes_in (d\<lparr>m_octets := overwrite p bs (m_octets d)\<rparr>) c = bytes_in d c"
      using bytes_in_outside [OF other_fits [OF ok c d(1) True] d(4)] pl lo pr c True
      by (auto simp: private_range_def)
    then show ?thesis using True s(3) d(1) by (simp add: content_def)
  qed (simp add: content_def s(3))
  moreover have "content M' b = overwrite (virtual b p (length bs)) bs (content M b)"
  proof -
    define h where "h = unat (m_zeroAreaStart b) - unat (m_start b)"
    define t where "t = unat (m_end b) - unat (m_zeroAreaEnd b)"
    define A where "A = take h (drop (unat (m_start b)) (m_octets d))"
    define C where "C = take t (drop (unat (m_zeroAreaStart b)) (m_octets d))"
    have sh: "unat (m_start b) + h = unat (m_zeroAreaStart b)" "unat (m_zeroAreaStart b) + t = real_end b"
      using d(3) by (simp_all add: shape_ok_def h_def t_def real_end_def)
    have len: "length A = h" "length C = t" using sh d(11) by (simp_all add: A_def C_def)
    have old: "content M b = A @ replicate (zeros b) 0 @ C"
      unfolding d(5) bytes_in_def A_def C_def h_def t_def ..
    have new: "content M' b = take h (drop (unat (m_start b)) (overwrite p bs (m_octets d))) @
        replicate (zeros b) 0 @ take t (drop (unat (m_zeroAreaStart b)) (overwrite p bs (m_octets d)))"
      by (simp add: content_def s(3) bytes_in_def h_def t_def)
    note pr' = pr [unfolded private_range_def]
    show ?thesis
    proof (cases "p + length bs \<le> unat (m_zeroAreaStart b)")
      case True
      have "take h (drop (unat (m_start b)) (overwrite p bs (m_octets d))) = overwrite (p - unat (m_start b)) bs A"
        unfolding A_def using pr' True sh d(11) by (intro take_drop_overwrite_inside) simp_all
      moreover have "take t (drop (unat (m_zeroAreaStart b)) (overwrite p bs (m_octets d))) = C"
        unfolding C_def using True pl lo by (intro take_drop_overwrite_after) simp_all
      moreover have "p - unat (m_start b) + length bs \<le> length A" using True pr' sh len by simp
      ultimately show ?thesis
        using True unfolding new old by (simp add: virtual_def overwrite_append_left)
    next
      case False
      have "take h (drop (unat (m_start b)) (overwrite p bs (m_octets d))) = A"
        unfolding A_def using pr' False sh pl lo by (intro take_drop_overwrite_before) simp_all
      moreover have "take t (drop (unat (m_zeroAreaStart b)) (overwrite p bs (m_octets d))) =
          overwrite (p - unat (m_zeroAreaStart b)) bs C"
        unfolding C_def using pr' False sh d(11) by (intro take_drop_overwrite_inside) simp_all
      moreover have "virtual b p (length bs) = h + (zeros b + (p - unat (m_zeroAreaStart b)))"
        using False pr' sh by (simp add: virtual_def)
      ultimately show ?thesis
        unfolding new old by (simp add: overwrite_append_right len)
    qed
  qed
  ultimately show ?thesis using that s(1,2) by (simp add: same_contents_def)
qed

subsection \<open>Full copies\<close>

lemma load_parts:
  assumes ok: "mem_ok M (add_mset b B) R"
  shows "load (m_data b) (unat (m_start b)) (unat (m_zeroAreaStart b) - unat (m_start b)) M =
      Some (take (unat (m_zeroAreaStart b) - unat (m_start b)) (content M b))"
    and "load (m_data b) (unat (m_zeroAreaStart b)) (unat (m_end b) - unat (m_zeroAreaEnd b)) M =
      Some (drop (unat (m_zeroAreaEnd b) - unat (m_start b)) (content M b))"
    and "content M b = take (unat (m_zeroAreaStart b) - unat (m_start b)) (content M b) @ replicate (zeros b) 0 @
      drop (unat (m_zeroAreaEnd b) - unat (m_start b)) (content M b)"
proof -
  from fits_bounds [OF ok] obtain d where
    d: "blocks M (m_data b) = Some d" "shape_ok b" "content M b = bytes_in d b" "real_end b \<le> length (m_octets d)" .
  define h t where "h = unat (m_zeroAreaStart b) - unat (m_start b)" and "t = unat (m_end b) - unat (m_zeroAreaEnd b)"
  define A C where "A = take h (drop (unat (m_start b)) (m_octets d))" and
    "C = take t (drop (unat (m_zeroAreaStart b)) (m_octets d))"
  have sh: "unat (m_start b) + h = unat (m_zeroAreaStart b)" "unat (m_zeroAreaStart b) + t = real_end b"
    "unat (m_zeroAreaEnd b) - unat (m_start b) = h + zeros b"
    using d(2) by (simp_all add: shape_ok_def h_def t_def real_end_def zeros_def)
  have len: "length A = h" "length C = t" using sh d(4) by (simp_all add: A_def C_def)
  have eq: "content M b = A @ replicate (zeros b) 0 @ C"
    unfolding d(3) bytes_in_def A_def C_def h_def t_def ..
  have "load (m_data b) (unat (m_start b)) h M = Some A" "load (m_data b) (unat (m_zeroAreaStart b)) t M = Some C"
    using d(1,4) sh by (simp_all add: load_def A_def C_def)
  moreover have "take h (content M b) = A" "drop (h + zeros b) (content M b) = C"
    unfolding eq using len by simp_all
  ultimately show "load (m_data b) (unat (m_start b)) (unat (m_zeroAreaStart b) - unat (m_start b)) M =
      Some (take (unat (m_zeroAreaStart b) - unat (m_start b)) (content M b))"
    and "load (m_data b) (unat (m_zeroAreaStart b)) (unat (m_end b) - unat (m_zeroAreaEnd b)) M =
      Some (drop (unat (m_zeroAreaEnd b) - unat (m_start b)) (content M b))"
    and "content M b = take (unat (m_zeroAreaStart b) - unat (m_start b)) (content M b) @ replicate (zeros b) 0 @
      drop (unat (m_zeroAreaEnd b) - unat (m_start b)) (content M b)"
    unfolding h_def [symmetric] t_def [symmetric] sh(3) using eq by simp_all
qed

lemma overwrite_start: "length new = length bs \<Longrightarrow> overwrite 0 bs (new @ xs) = bs @ xs"
  by (simp add: overwrite_def)

lemma overwrite_end: "length new = length bs \<Longrightarrow> overwrite (length xs) bs (xs @ new) = xs @ bs"
  by (simp add: overwrite_def)

text \<open>Room at the start, filled with \<open>bs\<close> from the beginning of the buffer.\<close>

lemma fill_start:
  assumes ok: "mem_ok M (add_mset b B) R"
    and n: "unat (m_end b) - unat (m_start b) + unat n \<le> MAX_BYTES" and bs: "length bs = unat n"
  obtains b' M1 M' where "AddAtStart n b M = Some (b', M1)" and "put True bs (Begin b') M1 = Some ((Begin b')\<lparr>m_current := m_start b' + n\<rparr>, M')"
    and "mem_ok M' (add_mset b' B) R" and "same_contents M M' B" and "content M' b' = bs @ content M b"
    and "zeros b' = zeros b" and "m_data b' = m_data b \<or> m_data b' \<notin># refs B R"
    and "unat (m_end b') - unat (m_start b') = unat n + (unat (m_end b) - unat (m_start b))"
    and "unat (m_start b') + unat n \<le> unat (m_zeroAreaStart b')" and "shape_ok b'"
    and "unat (m_end b') \<le> 2 * MAX_BYTES + 101" and "same_contents M M1 B"
proof -
  from AddAtStart_ok [OF ok n] obtain b1 M1 new where a: "AddAtStart n b M = Some (b1, M1)"
    "mem_ok M1 (add_mset b1 B) R" "keeps M M1 (set_mset (refs B R))" "content M1 b1 = new @ content M b"
    "length new = unat n" "unat (m_start b1) + unat n \<le> unat (m_zeroAreaStart b1)"
    "\<forall>c\<in>#B. m_data c = m_data b1 \<longrightarrow> unat (m_start b1) + unat n \<le> unat (m_start c)"
    "unat (m_end b1) = unat (m_start b1) + unat n + (unat (m_end b) - unat (m_start b))"
    "zeros b1 = zeros b" "m_data b1 = m_data b \<or> m_data b1 \<notin># refs B R" .
  from fits_bounds [OF a(2)] obtain sh: "shape_ok b1" "unat (m_end b1) \<le> 2 * MAX_BYTES + 101" .
  have pr: "private_range b1 B (unat (m_start b1)) (length bs)"
    using a(6,7) sh bs by (auto simp: private_range_def real_end_def)
  have v: "virtual b1 (unat (m_start b1)) (length bs) = 0" using a(6) bs by (simp add: virtual_def)
  from store_private [OF a(2) pr] obtain M2 where s: "store (m_data b1) (unat (m_start b1)) bs M1 = Some M2"
    "mem_ok M2 (add_mset b1 B) R" "content M2 b1 = overwrite 0 bs (content M1 b1)" "same_contents M1 M2 B"
    unfolding v .
  have nn: "of_nat (length bs) = n" using bs by (simp add: word_unat_eq_iff unat_of_nat)
  show ?thesis
  proof (rule that [OF a(1) _ s(2)])
    show "put True bs (Begin b1) M1 = Some ((Begin b1)\<lparr>m_current := m_start b1 + n\<rparr>, M2)"
      using s(1) by (simp add: put_def real_pos_def Begin_def nn)
    show "same_contents M M1 B" using keeps_same [OF a(3)] .
    then show "same_contents M M2 B" using s(4) by (rule same_contents_trans)
    show "content M2 b1 = bs @ content M b" using s(3) a(4,5) bs by (simp add: overwrite_start)
  qed (use a sh in auto)
qed

text \<open>Room at the end of a buffer without zeros.\<close>

lemma fill_end:
  assumes ok: "mem_ok M (add_mset b B) R" and z: "zeros b = 0"
    and n: "unat (m_end b) - unat (m_start b) + unat n \<le> MAX_BYTES" and bs: "length bs = unat n"
  obtains b' M1 M' where "AddAtEnd n b M = Some (b', M1)" and "Prev n (End b') = Some ((End b')\<lparr>m_current := m_end b' - n\<rparr>)"
    and "store (m_data b') (unat (m_end b' - n)) bs M1 = Some M'"
    and "mem_ok M' (add_mset b' B) R" and "same_contents M M' B" and "same_contents M M1 B"
    and "content M' b' = content M b @ bs"
    and "zeros b' = 0" and "shape_ok b'" and "m_zeroAreaEnd b' = m_zeroAreaStart b'"
    and "unat (m_start b') + unat n \<le> unat (m_end b')" and "unat (m_end b') \<le> 2 * MAX_BYTES + 101"
    and "unat (m_zeroAreaEnd b') + unat n \<le> unat (m_end b')"
    and "\<forall>d. blocks M (m_data b) = Some d \<longrightarrow>
      (if extends_in_place n b d then m_data b' = m_data b else m_data b' \<notin># refs B R)"
    and "unat (m_end b') - unat (m_start b') = unat n + (unat (m_end b) - unat (m_start b))"
    and "mem_ok M1 (add_mset b' B) R"
proof -
  from AddAtEnd_ok [OF ok n] obtain b1 M1 new where a: "AddAtEnd n b M = Some (b1, M1)"
    "mem_ok M1 (add_mset b1 B) R" "keeps M M1 (set_mset (refs B R))" "content M1 b1 = content M b @ new"
    "length new = unat n" "unat (m_zeroAreaEnd b1) + unat n \<le> unat (m_end b1)"
    "\<forall>c\<in>#B. m_data c = m_data b1 \<longrightarrow> real_end c + unat n \<le> real_end b1"
    "unat (m_end b1) = unat (m_start b1) + unat n + (unat (m_end b) - unat (m_start b))"
    "zeros b1 = zeros b"
    "\<forall>d. blocks M (m_data b) = Some d \<longrightarrow>
      (if extends_in_place n b d then m_data b1 = m_data b else m_data b1 \<notin># refs B R)" .
  from fits_bounds [OF a(2)] obtain sh: "shape_ok b1" "unat (m_end b1) \<le> 2 * MAX_BYTES + 101"
    "real_end b1 + zeros b1 = unat (m_end b1)" .
  have ze: "unat (m_zeroAreaEnd b1) = unat (m_zeroAreaStart b1)"
    using a(9) z sh(1) by (simp add: zeros_def shape_ok_def)
  have re: "real_end b1 = unat (m_end b1)" using sh(3) a(9) z by simp
  define p where "p = unat (m_end b1) - unat n"
  have p: "unat (m_end b1 - n) = p" using a(6) by (simp add: p_def unat_minus)
  have pr: "private_range b1 B p (length bs)"
    using a(6,7) sh(1) bs re ze by (force simp: private_range_def p_def shape_ok_def)
  have v: "virtual b1 p (length bs) = length (content M b)"
  proof -
    from fits_bounds [OF ok] have "length (content M b) = unat (m_end b) - unat (m_start b)" by blast
    then show ?thesis using a(8,9) z by (simp add: virtual_def p_def)
  qed
  from store_private [OF a(2) pr] obtain M2 where s: "store (m_data b1) p bs M1 = Some M2"
    "mem_ok M2 (add_mset b1 B) R" "content M2 b1 = overwrite (length (content M b)) bs (content M1 b1)"
    "same_contents M1 M2 B" unfolding v .
  show ?thesis
  proof (rule that [OF a(1) _ _ s(2)])
    show "Prev n (End b1) = Some ((End b1)\<lparr>m_current := m_end b1 - n\<rparr>)"
      using a(8) by (simp add: Prev_def End_def word_le_nat_alt)
    show "store (m_data b1) (unat (m_end b1 - n)) bs M1 = Some M2" using s(1) p by simp
    show "same_contents M M1 B" using keeps_same [OF a(3)] .
    then show "same_contents M M2 B" using s(4) by (rule same_contents_trans)
    show "content M2 b1 = content M b @ bs" using s(3) a(4,5) bs by (simp add: overwrite_end)
    show "m_zeroAreaEnd b1 = m_zeroAreaStart b1" using ze by (simp add: word_unat_eq_iff)
  qed (use a z sh in auto)
qed

text \<open>In a buffer without zeros the checks of the writers only look at the bounds.\<close>

lemma WriteU8_len_start:
  assumes "zeros b = 0" "shape_ok b" "unat (m_start b) + unat n \<le> unat (m_zeroAreaStart b)"
    and "unat (m_end b) \<le> 2 * MAX_BYTES + 101"
  shows "WriteU8_len v n (Begin b) M = put True (replicate (unat n) v) (Begin b) M"
proof -
  have "m_zeroAreaEnd b = m_zeroAreaStart b" using assms(1,2) by (simp add: zeros_def shape_ok_def word_unat_eq_iff)
  moreover have "unat (m_start b + n) = unat (m_start b) + unat n"
    using assms(2-4) by (subst unat_plus) (simp_all add: shape_ok_def MAX_BYTES_def)
  ultimately show ?thesis
    using assms by (simp add: WriteU8_len_def CheckNoZero_def Begin_def shape_ok_def word_le_nat_alt word_less_nat_alt not_less)
qed

lemma Write_start:
  assumes "zeros b = 0" "shape_ok b" "unat (m_start b) + length bs \<le> unat (m_zeroAreaStart b)"
    and "unat (m_end b) \<le> 2 * MAX_BYTES + 101"
  shows "Write bs (Begin b) M = put True bs (Begin b) M"
proof -
  have "m_zeroAreaEnd b = m_zeroAreaStart b" using assms(1,2) by (simp add: zeros_def shape_ok_def word_unat_eq_iff)
  moreover have "unat (of_nat (length bs) :: 32 word) = length bs"
    using assms(2-4) by (simp add: unat_of_nat shape_ok_def MAX_BYTES_def)
  ultimately show ?thesis
    using assms by (simp add: Write_def CheckNoZero_def Begin_def shape_ok_def word_le_nat_alt word_less_nat_alt not_less)
qed

lemma Write_end:
  assumes "m_zeroAreaEnd b = m_zeroAreaStart b" "length bs = unat n" "unat (m_start b) + unat n \<le> unat (m_end b)"
    and "unat (m_end b) \<le> 2 * MAX_BYTES + 101" and "store (m_data b) (unat (m_end b - n)) bs M = Some M'"
  shows "\<exists>it. Write bs ((End b)\<lparr>m_current := m_end b - n\<rparr>) M = Some (it, M')"
proof -
  have "of_nat (length bs) = n" using assms(2) by (simp add: word_unat_eq_iff unat_of_nat)
  moreover have "unat (m_end b - n) = unat (m_end b) - unat n" using assms(3) by (simp add: unat_minus)
  ultimately show ?thesis
    using assms by (simp add: Write_def CheckNoZero_def Begin_def End_def word_le_nat_alt word_less_nat_alt
        not_less put_def real_pos_def)
qed

lemma zeros_zero_iff: "shape_ok b \<Longrightarrow> m_zeroAreaEnd b - m_zeroAreaStart b \<noteq> 0 \<longleftrightarrow> zeros b \<noteq> 0"
  by (auto simp: zeros_def shape_ok_def word_unat_eq_iff unat_minus)

lemma CreateFullCopy_ok:
  assumes ok: "mem_ok M (add_mset b B) R" and room: "size (refs (add_mset b B) R) < 2 ^ 32 - 1"
  obtains t M' where "CreateFullCopy b M = Some (t, M')" and "mem_ok M' (add_mset t (add_mset b B)) R"
    and "same_contents M M' (add_mset b B)" and "content M' t = content M b" and "zeros t = 0"
    and "if zeros b = 0 then alike t b \<and> (\<forall>d. blocks M (m_data b) = Some d \<longrightarrow>
           blocks M' (m_data b) = Some (d\<lparr>m_count := m_count d + 1\<rparr>))
         else m_data t \<notin># refs (add_mset b B) R"
proof (cases "zeros b = 0")
  case True
  from fits_bounds [OF ok] have sh: "shape_ok b" by blast
  from Buffer_copy_ok [OF ok room] obtain t M1 where
    t: "Buffer_copy b M = Some (t, M1)" "mem_ok M1 (add_mset t (add_mset b B)) R"
      "same_contents M M1 (add_mset b B)" "alike t b" .
  have "CreateFullCopy b M = Some (t, M1)"
    using t(1) zeros_zero_iff [OF sh] True by (simp add: CreateFullCopy_def)
  moreover have "blocks M1 (m_data b) = Some (d\<lparr>m_count := m_count d + 1\<rparr>)" if "blocks M (m_data b) = Some d" for d
    using t(1) that by (auto simp: Buffer_copy_def with_block_def)
  ultimately show ?thesis using that t(2-4) True by (auto simp: alike_simps)
next
  case False
  from fits_bounds [OF ok] obtain
    sh: "shape_ok b" and lb: "length (content M b) = unat (m_end b) - unat (m_start b)"
      "length (content M b) \<le> MAX_BYTES" .
  define hw zw tw where "hw = m_zeroAreaStart b - m_start b" and "zw = m_zeroAreaEnd b - m_zeroAreaStart b"
    and "tw = m_end b - m_zeroAreaEnd b"
  have u: "unat hw = unat (m_zeroAreaStart b) - unat (m_start b)" "unat zw = zeros b"
    "unat tw = unat (m_end b) - unat (m_zeroAreaEnd b)"
    using sh by (simp_all add: hw_def zw_def tw_def unat_minus zeros_def shape_ok_def)
  have sum: "unat hw + (zeros b + unat tw) = length (content M b)"
    using sh lb u by (simp add: zeros_def shape_ok_def)
  define A C where "A = take (unat hw) (content M b)" and
    "C = drop (unat (m_zeroAreaEnd b) - unat (m_start b)) (content M b)"
  note parts = load_parts [OF ok, folded u]
  have ct: "content M b = A @ replicate (zeros b) 0 @ C" using parts(3) u(2) by (simp add: A_def C_def)
  have len: "length A = unat hw" "length C = unat tw"
  proof -
    show 1: "length A = unat hw" using sum by (simp add: A_def)
    show "length C = unat tw" using arg_cong [OF ct, of length] 1 sum by simp
  qed
  let ?B = "add_mset b B"
  from Initialize_ok [OF ok, of 0] obtain t0 M0 where
    t0: "Initialize 0 M = Some (t0, M0)" "mem_ok M0 (add_mset t0 ?B) R" "same_contents M M0 ?B" "content M0 t0 = []"
      "unat (m_end t0) - unat (m_start t0) = 0" "zeros t0 = 0" "m_data t0 \<notin># refs ?B R"
    by (auto simp: MAX_BYTES_def)
  have n1: "unat (m_end t0) - unat (m_start t0) + unat zw \<le> MAX_BYTES" using t0(5) u sum lb by simp
  from fill_start [OF t0(2) n1 length_replicate [where x = 0]] obtain t1 M1' M1 where
    t1: "AddAtStart zw t0 M0 = Some (t1, M1')"
      "put True (replicate (unat zw) 0) (Begin t1) M1' = Some ((Begin t1)\<lparr>m_current := m_start t1 + zw\<rparr>, M1)"
      "mem_ok M1 (add_mset t1 ?B) R" "same_contents M0 M1 ?B" "content M1 t1 = replicate (unat zw) 0 @ content M0 t0"
      "zeros t1 = zeros t0" "m_data t1 = m_data t0 \<or> m_data t1 \<notin># refs ?B R"
      "unat (m_end t1) - unat (m_start t1) = unat zw + (unat (m_end t0) - unat (m_start t0))"
      "unat (m_start t1) + unat zw \<le> unat (m_zeroAreaStart t1)" "shape_ok t1"
      "unat (m_end t1) \<le> 2 * MAX_BYTES + 101" "same_contents M0 M1' ?B" .
  have w1: "WriteU8_len 0 zw (Begin t1) M1' = Some ((Begin t1)\<lparr>m_current := m_start t1 + zw\<rparr>, M1)"
    using WriteU8_len_start [OF _ t1(10,9,11)] t1(2,6) t0(6) by simp
  have n2: "unat (m_end t1) - unat (m_start t1) + unat hw \<le> MAX_BYTES" using t1(8) t0(5) u sum lb by simp
  from fill_start [OF t1(3) n2 len(1)] obtain t2 M2' M2 where
    t2: "AddAtStart hw t1 M1 = Some (t2, M2')"
      "put True A (Begin t2) M2' = Some ((Begin t2)\<lparr>m_current := m_start t2 + hw\<rparr>, M2)"
      "mem_ok M2 (add_mset t2 ?B) R" "same_contents M1 M2 ?B" "content M2 t2 = A @ content M1 t1"
      "zeros t2 = zeros t1" "m_data t2 = m_data t1 \<or> m_data t2 \<notin># refs ?B R"
      "unat (m_end t2) - unat (m_start t2) = unat hw + (unat (m_end t1) - unat (m_start t1))"
      "unat (m_start t2) + unat hw \<le> unat (m_zeroAreaStart t2)" "shape_ok t2"
      "unat (m_end t2) \<le> 2 * MAX_BYTES + 101" "same_contents M1 M2' ?B" .
  have w2: "Write A (Begin t2) M2' = Some ((Begin t2)\<lparr>m_current := m_start t2 + hw\<rparr>, M2)"
    using Write_start [OF _ t2(10), of A] t2(2,6,9,11) t1(6) t0(6) len by simp
  have ok2': "mem_ok M2' (add_mset t2 ?B) R"
  proof -
    from AddAtStart_ok [OF t1(3) n2] t2(1) show ?thesis by (metis option.inject prod.inject)
  qed
  have z2: "zeros t2 = 0" using t2(6) t1(6) t0(6) by simp
  have n3: "unat (m_end t2) - unat (m_start t2) + unat tw \<le> MAX_BYTES" using t2(8) t1(8) t0(5) u sum lb by simp
  from fill_end [OF t2(3) z2 n3 len(2)] obtain t3 M3' M3 where
    t3: "AddAtEnd tw t2 M2 = Some (t3, M3')" "Prev tw (End t3) = Some ((End t3)\<lparr>m_current := m_end t3 - tw\<rparr>)"
      "store (m_data t3) (unat (m_end t3 - tw)) C M3' = Some M3" "mem_ok M3 (add_mset t3 ?B) R"
      "same_contents M2 M3 ?B" "same_contents M2 M3' ?B" "content M3 t3 = content M2 t2 @ C" "zeros t3 = 0"
      "shape_ok t3" "m_zeroAreaEnd t3 = m_zeroAreaStart t3" "unat (m_start t3) + unat tw \<le> unat (m_end t3)"
      "unat (m_end t3) \<le> 2 * MAX_BYTES + 101"
      "\<forall>d. blocks M2 (m_data t2) = Some d \<longrightarrow>
        (if extends_in_place tw t2 d then m_data t3 = m_data t2 else m_data t3 \<notin># refs ?B R)"
      "mem_ok M3' (add_mset t3 ?B) R" .
  obtain it where w3: "Write C ((End t3)\<lparr>m_current := m_end t3 - tw\<rparr>) M3' = Some (it, M3)"
    using Write_end [OF t3(10) len(2) t3(11,12,3)] by blast
  have sc2: "same_contents M M2' ?B" "same_contents M M2 ?B"
    using t0(3) t1(4) t2(4,12) same_contents_trans by blast+
  have sc3: "same_contents M M3' ?B" using sc2(2) t3(6) by (rule same_contents_trans)
  have l2: "load (m_data b) (unat (m_start b)) (unat hw) M2' = Some A"
    using load_parts(1) [OF mem_ok_swap [OF ok2']] sc2(1) u(1) by (simp add: A_def)
  have l3: "load (m_data b) (unat (m_zeroAreaStart b)) (unat tw) M3' = Some C"
    using load_parts(2) [OF mem_ok_swap [OF t3(14)]] sc3 u(3) by (simp add: C_def)
  have eq: "CreateFullCopy b M = Some (t3, M3)"
    unfolding CreateFullCopy_def Let_def hw_def [symmetric] zw_def [symmetric] tw_def [symmetric]
    using zeros_zero_iff [OF sh, folded zw_def] False t0(1) t1(1) w1 t2(1) l2 w2 t3(1,2) l3 w3 by simp
  have fresh: "m_data t3 \<notin># refs ?B R"
  proof -
    have "m_data t2 \<notin># refs ?B R" using t2(7) t1(7) t0(7) by metis
    moreover obtain d where "blocks M2 (m_data t2) = Some d" using mem_okD(7) [OF t2(3), of t2] by auto
    ultimately show ?thesis using t3(13) by (auto split: if_splits)
  qed
  have "content M3 t3 = content M b"
    using t3(7) t2(5) t1(5) t0(4) ct u(2) by simp
  then show ?thesis
    using that [OF eq t3(4)] sc2(2) t3(5,8) same_contents_trans fresh False by metis
qed

end
