(* ===== verification/Packet_Buffer_Append.thy ===== *)
theory Packet_Buffer_Append
  imports Packet_Buffer_Ops
begin

text \<open>
  Appending one buffer to another: \<open>Buffer::AddAtEnd(const Buffer&)\<close> gives the concatenation unless
  the two share a block in which there is room, or the zeros are merged and bytes follow them.
\<close>

lemma overwrite_twice:
  assumes "off + length xs \<le> length zs"
  shows "overwrite (off + length xs) ys (overwrite off xs zs) = overwrite off (xs @ ys) zs"
proof -
  have eq: "overwrite off xs zs = (take off zs @ xs) @ drop (off + length xs) zs" by (simp add: overwrite_def)
  have "length (take off zs @ xs) = off + length xs" using assms by simp
  then show ?thesis
    unfolding eq by (subst overwrite_append_right) (simp_all add: overwrite_def add.commute add.left_commute)
qed

lemma store_append:
  assumes "store a off (xs @ ys) M = Some M'"
  obtains M1 where "store a off xs M = Some M1" and "store a (off + length xs) ys M1 = Some M'"
    and "\<And>c. c \<noteq> a \<Longrightarrow> blocks M1 c = blocks M c"
proof -
  obtain d where d: "blocks M a = Some d" using assms by (auto simp: store_def split: option.splits)
  let ?f = "\<lambda>off bs d. d\<lparr>m_octets := overwrite off bs (m_octets d)\<rparr>"
  have st: "store a p bs N = (if bs = [] \<or> p + length bs \<le> length (m_octets e)
      then Some (N\<lparr>blocks := (blocks N)(a \<mapsto> ?f p bs e)\<rparr>) else None)"
    if "blocks N a = Some e" for p bs N e
  proof -
    have eq: "m_octets_update (overwrite p bs) e = ?f p bs e" for bs by (cases e) simp
    show ?thesis using that unfolding store_def with_block_def by (simp add: eq)
  qed
  define M1 where "M1 = M\<lparr>blocks := (blocks M)(a \<mapsto> ?f off xs d)\<rparr>"
  have b: "xs @ ys = [] \<or> off + length (xs @ ys) \<le> length (m_octets d)"
    using assms st [OF d] by (metis option.distinct(1))
  have s1: "store a off xs M = Some M1" using st [OF d, of off xs] b by (auto simp: M1_def)
  have d1: "blocks M1 a = Some (?f off xs d)" by (simp add: M1_def)
  have l: "length (overwrite off xs (m_octets d)) = length (m_octets d)"
    using b by (intro length_overwrite) auto
  have ov: "overwrite (off + length xs) ys (overwrite off xs (m_octets d)) = overwrite off (xs @ ys) (m_octets d)"
    using b overwrite_twice [of off xs "m_octets d" ys] by (cases "xs @ ys = []") (auto simp: overwrite_def)
  have "store a (off + length xs) ys M1 = Some (M\<lparr>blocks := (blocks M)(a \<mapsto> ?f off (xs @ ys) d)\<rparr>)"
    using st [OF d1, of "off + length xs" ys] b l ov by (auto simp: M1_def)
  moreover have "store a off (xs @ ys) M = Some (M\<lparr>blocks := (blocks M)(a \<mapsto> ?f off (xs @ ys) d)\<rparr>)"
    using st [OF d, of off "xs @ ys"] b by auto
  ultimately show ?thesis using that [OF s1] assms by (simp add: M1_def)
qed

lemma load_other: "blocks M1 c = blocks M c \<Longrightarrow> load c off n M1 = load c off n M"
  by (simp add: load_def)

text \<open>Copying a whole buffer to a position before the zeros of the target.\<close>

lemma Write_range_all:
  assumes ok: "mem_ok M (add_mset r B) R" and ne: "it_data it \<noteq> m_data r"
    and chk: "CheckNoZero (m_current it) (m_current it + Buffer_GetSize r) it"
    and cur: "unat (m_current it) + length (content M r) < 2 ^ 32"
    and st: "store (it_data it) (unat (m_current it)) (content M r) M = Some M'"
  shows "\<exists>it'. Write_range (Begin r) (End r) it M = Some (it', M')"
proof -
  from fits_bounds [OF ok] obtain
    sh: "shape_ok r" and lr: "length (content M r) = unat (m_end r) - unat (m_start r)" .
  define hw zw tw where "hw = m_zeroAreaStart r - m_start r" and "zw = m_zeroAreaEnd r - m_zeroAreaStart r"
    and "tw = m_end r - m_zeroAreaEnd r"
  have u: "unat hw = unat (m_zeroAreaStart r) - unat (m_start r)" "unat zw = zeros r"
    "unat tw = unat (m_end r) - unat (m_zeroAreaEnd r)"
    using sh by (simp_all add: hw_def zw_def tw_def unat_minus zeros_def shape_ok_def)
  define A C where "A = take (unat hw) (content M r)" and
    "C = drop (unat (m_zeroAreaEnd r) - unat (m_start r)) (content M r)"
  note parts = load_parts [OF ok, folded u]
  have ct: "content M r = A @ replicate (unat zw) 0 @ C" using parts(3) u(2) by (simp add: A_def C_def)
  have sum: "unat hw + (unat zw + unat tw) = length (content M r)"
    using sh lr u by (simp add: zeros_def shape_ok_def)
  have len: "length A = unat hw" "length C = unat tw"
  proof -
    show 1: "length A = unat hw" using sum by (simp add: A_def)
    show "length C = unat tw" using arg_cong [OF ct, of length] 1 sum by simp
  qed
  let ?p = "unat (m_current it)"
  from store_append [OF st [unfolded ct]] obtain M1 where
    s1: "store (it_data it) ?p A M = Some M1" "store (it_data it) (?p + length A) (replicate (unat zw) 0 @ C) M1 = Some M'"
      "\<And>c. c \<noteq> it_data it \<Longrightarrow> blocks M1 c = blocks M c" by blast
  from store_append [OF s1(2)] obtain M2 where
    s2: "store (it_data it) (?p + length A) (replicate (unat zw) 0) M1 = Some M2"
      "store (it_data it) (?p + length A + unat zw) C M2 = Some M'"
      "\<And>c. c \<noteq> it_data it \<Longrightarrow> blocks M2 c = blocks M1 c" by auto
  have l1: "load (m_data r) (unat (m_start r)) (unat hw) M = Some A" using parts(1) by (simp add: A_def)
  have l2: "load (m_data r) (unat (m_zeroAreaStart r)) (unat tw) M2 = Some C"
    using parts(2) load_other [of M2 "m_data r" M] s1(3) s2(3) ne by (simp add: C_def)
  have w: "of_nat (length A) = hw" "of_nat (length C) = tw" using len by (simp_all add: word_unat_eq_iff unat_of_nat)
  have mn: "min (m_end r - m_start r) hw = hw" "min (m_end r - m_start r - hw) zw = zw"
    "m_end r - m_start r - hw - zw = tw" "min tw tw = tw"
  proof -
    show "m_end r - m_start r - hw - zw = tw" by (simp add: hw_def zw_def tw_def)
    have "unat (m_end r - m_start r) = unat (m_end r) - unat (m_start r)"
      using sh by (simp add: unat_minus shape_ok_def)
    then have "hw \<le> m_end r - m_start r" using sum lr by (simp add: word_le_nat_alt)
    then show "min (m_end r - m_start r) hw = hw" by (rule min_absorb2)
    have "unat (m_end r - m_start r - hw) = unat zw + unat tw"
      using \<open>unat (m_end r - m_start r) = _\<close> sum lr by (subst unat_minus) simp_all
    then have "zw \<le> m_end r - m_start r - hw" by (simp add: word_le_nat_alt)
    then show "min (m_end r - m_start r - hw) zw = zw" by (rule min_absorb2)
  qed simp
  have c1: "unat (m_current it + hw) = ?p + unat hw" using cur sum by (subst unat_plus) simp_all
  have c2: "unat (m_current it + hw + zw) = ?p + unat hw + unat zw"
    using cur sum c1 by (subst unat_plus) simp_all
  have p1: "put True A it M = Some (it\<lparr>m_current := m_current it + hw\<rparr>, M1)"
    using s1(1) w by (simp add: put_def real_pos_def)
  have p2: "put True (replicate (unat zw) 0) (it\<lparr>m_current := m_current it + hw\<rparr>) M1 =
      Some (it\<lparr>m_current := m_current it + hw + zw\<rparr>, M2)"
    using s2(1) len c1 by (simp add: put_def real_pos_def)
  have p3: "put True C (it\<lparr>m_current := m_current it + hw + zw\<rparr>) M2 =
      Some (it\<lparr>m_current := m_current it + hw + zw + tw\<rparr>, M')"
    using s2(2) len c2 w by (simp add: put_def real_pos_def)
  have e: "m_start r + hw = m_zeroAreaStart r" "m_zeroAreaStart r + zw = m_zeroAreaEnd r"
    "m_zeroAreaEnd r - zw = m_zeroAreaStart r"
    by (simp_all add: hw_def zw_def)
  have le: "m_start r \<le> m_zeroAreaStart r" "m_zeroAreaStart r \<le> m_zeroAreaEnd r" "m_start r \<le> m_end r"
    using sh by (simp_all add: shape_ok_def word_le_nat_alt)
  have B: "it_data (Begin r) = m_data r" "m_current (Begin r) = m_start r" "m_zeroStart (Begin r) = m_zeroAreaStart r"
    "m_zeroEnd (Begin r) = m_zeroAreaEnd r" "m_dataEnd (Begin r) = m_end r"
    "it_data (End r) = m_data r" "m_current (End r) = m_end r" "m_zeroStart (End r) = m_zeroAreaStart r"
    "m_zeroEnd (End r) = m_zeroAreaEnd r" by (simp_all add: Begin_def End_def)
  have hz: "m_zeroAreaStart r - m_start r = hw" "m_zeroAreaEnd r - m_zeroAreaStart r = zw" "m_end r - m_zeroAreaEnd r = tw"
    by (simp_all add: hw_def zw_def tw_def)
  show ?thesis
    using ne chk le by (simp add: Write_range_def B Let_def Buffer_GetSize_def hz mn l1 p1 e p2 real_pos_def l2 p3 not_less)
qed

text \<open>A buffer becomes its own full copy; one without zeros stays in its block.\<close>

lemma become_full_copy_ok:
  assumes ok: "mem_ok M (add_mset b B) R" and room: "size (refs (add_mset b B) R) + 2 < 2 ^ 32"
  obtains b' M' where "become_full_copy b M = Some (b', M')" and "mem_ok M' (add_mset b' B) R"
    and "same_contents M M' B" and "content M' b' = content M b" and "zeros b' = 0"
    and "unat (m_end b') - unat (m_start b') = unat (m_end b) - unat (m_start b)"
    and "if zeros b = 0 then alike b' b \<and> blocks M' (m_data b) = blocks M (m_data b)
         else m_data b' \<notin># refs B R"
proof -
  have "size (refs (add_mset b B) R) < 2 ^ 32 - 1" using room by simp
  from CreateFullCopy_ok [OF ok this] obtain t M1 where
    t: "CreateFullCopy b M = Some (t, M1)" "mem_ok M1 (add_mset t (add_mset b B)) R"
      "same_contents M M1 (add_mset b B)" "content M1 t = content M b" "zeros t = 0"
      "if zeros b = 0 then alike t b \<and> (\<forall>d. blocks M (m_data b) = Some d \<longrightarrow>
           blocks M1 (m_data b) = Some (d\<lparr>m_count := m_count d + 1\<rparr>))
         else m_data t \<notin># refs (add_mset b B) R" .
  have "size (refs (add_mset b (add_mset t B)) R) < 2 ^ 32 - 1" using room by simp
  from Buffer_assign_ok [OF mem_ok_swap [OF t(2)] this] obtain M2 where
    a: "Buffer_assign b t M1 = Some (t, M2)" "mem_ok M2 (add_mset t (add_mset t B)) R"
      "same_contents M1 M2 (add_mset t B)" .
  from Buffer_destroy_ok [OF a(2)] obtain M3 where
    r: "Buffer_destroy t M2 = Some M3" "mem_ok M3 (add_mset t B) R" "same_contents M2 M3 (add_mset t B)" .
  have eq: "become_full_copy b M = Some (t, M3)" using t(1) a(1) r(1) by (simp add: become_full_copy_def)
  have ct: "content M3 t = content M b" using t(4) a(3) r(3) by simp
  from fits_bounds [OF ok] have l1: "length (content M b) = unat (m_end b) - unat (m_start b)" by blast
  from fits_bounds [OF r(2)] have l2: "length (content M3 t) = unat (m_end t) - unat (m_start t)" by blast
  have geo: "if zeros b = 0 then alike t b \<and> blocks M3 (m_data b) = blocks M (m_data b)
      else m_data t \<notin># refs B R"
  proof (cases "zeros b = 0")
    case True
    obtain d where d: "blocks M (m_data b) = Some d" using mem_okD(7) [OF ok, of b] by auto
    have cnt: "m_count d \<noteq> 0" using mem_okD(4) [OF ok d] by auto
    have tb: "alike t b" "m_data t = m_data b" using t(6) True alike_simps(1) by auto
    have d1: "blocks M1 (m_data b) = Some (d\<lparr>m_count := m_count d + 1\<rparr>)" using t(6) True d by simp
    have "M2 = M1\<lparr>g_recommendedStart := max (g_recommendedStart M1) (m_maxZeroAreaStart b)\<rparr>"
      using a(1) tb(2) by (simp add: Buffer_assign_def)
    then have d2: "blocks M2 (m_data b) = Some (d\<lparr>m_count := m_count d + 1\<rparr>)" using d1 by simp
    have "blocks M3 (m_data b) = Some d"
      using r(1) d2 tb(2) cnt by (auto simp: Buffer_destroy_def release_def with_block_def)
    then show ?thesis using True tb(1) d by simp
  qed (use t(6) in simp)
  show ?thesis
  proof (rule that [OF eq r(2) _ ct t(5) _ geo])
    show "same_contents M M3 B" using t(3) a(3) r(3) by (auto intro: same_contents_trans)
    show "unat (m_end t) - unat (m_start t) = unat (m_end b) - unat (m_start b)" using l1 l2 ct by simp
  qed
qed

text \<open>When appending \<open>r\<close> to \<open>b\<close>, whose block is \<open>d\<close>, works.\<close>

definition appendable :: "buffer \<Rightarrow> buffer \<Rightarrow> data_block \<Rightarrow> bool" where
  "appendable r b d \<longleftrightarrow>
     (if adjacent_zeros b r d then m_end r = m_zeroAreaEnd r
      else \<not> (m_zeroAreaStart b = m_zeroAreaEnd b \<and> m_data b = m_data r \<and>
              extends_in_place (Buffer_GetSize r) b d))"

lemma append_copy:
  assumes ok: "mem_ok M (add_mset b (add_mset r B)) R"
    and room: "size (refs (add_mset b (add_mset r B)) R) + 2 < 2 ^ 32"
    and len: "length (content M b) + length (content M r) \<le> MAX_BYTES"
    and d: "blocks M (m_data b) = Some d" and adj: "\<not> adjacent_zeros b r d" and ap: "appendable r b d"
  obtains b' M' where "AddAtEnd_buffer r b M = Some (b', M')" and "mem_ok M' (add_mset b' (add_mset r B)) R"
    and "content M' b' = content M b @ content M r" and "same_contents M M' (add_mset r B)"
proof -
  from fits_bounds [OF ok] have shb: "shape_ok b" and lb: "length (content M b) = unat (m_end b) - unat (m_start b)" by blast+
  from fits_bounds [OF mem_ok_swap [OF ok]] have shr: "shape_ok r"
    and lr: "length (content M r) = unat (m_end r) - unat (m_start r)" by blast+
  let ?n = "Buffer_GetSize r"
  have gs: "unat ?n = length (content M r)" using shr lr by (simp add: Buffer_GetSize_def unat_minus shape_ok_def)
  from become_full_copy_ok [OF ok room] obtain b1 M1 where
    b1: "become_full_copy b M = Some (b1, M1)" "mem_ok M1 (add_mset b1 (add_mset r B)) R"
      "same_contents M M1 (add_mset r B)" "content M1 b1 = content M b" "zeros b1 = 0"
      "unat (m_end b1) - unat (m_start b1) = unat (m_end b) - unat (m_start b)"
      "if zeros b = 0 then alike b1 b \<and> blocks M1 (m_data b) = blocks M (m_data b)
         else m_data b1 \<notin># refs (add_mset r B) R" .
  have n: "unat (m_end b1) - unat (m_start b1) + unat ?n \<le> MAX_BYTES" using b1(6) gs len lb by simp
  have cr: "content M1 r = content M r" using b1(3) by simp
  from fill_end [OF b1(2,5) n, of "content M1 r"] gs cr obtain b2 M2 M' where
    f: "AddAtEnd ?n b1 M1 = Some (b2, M2)" "Prev ?n (End b2) = Some ((End b2)\<lparr>m_current := m_end b2 - ?n\<rparr>)"
      "store (m_data b2) (unat (m_end b2 - ?n)) (content M1 r) M2 = Some M'"
      "mem_ok M' (add_mset b2 (add_mset r B)) R" "same_contents M1 M' (add_mset r B)"
      "same_contents M1 M2 (add_mset r B)" "content M' b2 = content M1 b1 @ content M1 r"
      "m_zeroAreaEnd b2 = m_zeroAreaStart b2" "unat (m_start b2) + unat ?n \<le> unat (m_end b2)"
      "\<forall>d. blocks M1 (m_data b1) = Some d \<longrightarrow>
        (if extends_in_place ?n b1 d then m_data b2 = m_data b1 else m_data b2 \<notin># refs (add_mset r B) R)"
      "mem_ok M2 (add_mset b2 (add_mset r B)) R" by metis
  obtain d1 where d1: "blocks M1 (m_data b1) = Some d1" using mem_okD(7) [OF b1(2), of b1] by auto
  have ne: "m_data b2 \<noteq> m_data r"
  proof (cases "extends_in_place ?n b1 d1")
    case False
    then have "m_data b2 \<notin># refs (add_mset r B) R" using f(10) d1 by simp
    then show ?thesis by simp
  next
    case True
    then have m: "m_data b2 = m_data b1" using f(10) d1 by simp
    show ?thesis
    proof (cases "zeros b = 0")
      case False
      then show ?thesis using b1(7) m by simp
    next
      case z: True
      then have al: "alike b1 b" and "blocks M1 (m_data b) = blocks M (m_data b)" using b1(7) by simp_all
      then have "d1 = d" using d d1 alike_simps(1) [OF al] by simp
      moreover have "extends_in_place ?n b1 d1 = extends_in_place ?n b d1"
        using al by (simp add: extends_in_place_def alike_def GetInternalEnd_def)
      moreover have "m_zeroAreaStart b = m_zeroAreaEnd b" using z zeros_zero_iff [OF shb] by simp
      ultimately show ?thesis
        using ap adj True m alike_simps(1) [OF al] by (auto simp: appendable_def)
    qed
  qed
  define it where "it = (End b2)\<lparr>m_current := m_end b2 - ?n\<rparr>"
  have it: "it_data it = m_data b2" "m_current it = m_end b2 - ?n" by (simp_all add: it_def End_def Begin_def)
  have cu: "unat (m_end b2 - ?n) = unat (m_end b2) - unat ?n" using f(9) by (simp add: unat_minus)
  have chk: "CheckNoZero (m_current it) (m_current it + ?n) it"
    using f(8,9) cu by (simp add: CheckNoZero_def it_def End_def Begin_def word_le_nat_alt word_less_nat_alt not_less)
  have c2: "content M2 r = content M1 r" using f(6) by simp
  have cur: "unat (m_current it) + length (content M2 r) < 2 ^ 32"
    using f(9) cu gs cr c2 unat_lt32 [of "m_end b2"] by (simp add: it)
  have st: "store (it_data it) (unat (m_current it)) (content M2 r) M2 = Some M'"
    using f(3) c2 by (simp add: it)
  from Write_range_all [OF mem_ok_swap [OF f(11)] _ chk cur st] ne obtain it' where
    w: "Write_range (Begin r) (End r) it M2 = Some (it', M')" by (auto simp: it)
  have "AddAtEnd_buffer r b M = Some (b2, M')"
    using d adj b1(1) f(1,2) w by (simp add: AddAtEnd_buffer_def it_def)
  moreover have "content M' b2 = content M b @ content M r" using f(7) b1(4) cr by simp
  moreover have "same_contents M M' (add_mset r B)" using b1(3) f(5) by (rule same_contents_trans)
  ultimately show ?thesis using that f(4) by blast
qed

text \<open>Writing nothing changes nothing.\<close>

lemma store_nothing: "blocks M a = Some d \<Longrightarrow> store a off [] M = Some M"
proof -
  assume d: "blocks M a = Some d"
  have "m_octets_update (overwrite off []) d = d" by (cases d) (simp add: overwrite_def)
  then have "(blocks M)(a \<mapsto> m_octets_update (overwrite off []) d) = blocks M"
    using d by (auto simp: fun_eq_iff)
  then show ?thesis using d by (simp add: store_def with_block_def)
qed

lemma put_nothing: "blocks M (it_data it) = Some d \<Longrightarrow> put before [] it M = Some (it, M)"
  by (simp add: put_def store_nothing)

text \<open>Two adjacent areas of zeros become one.\<close>

lemma append_zeros:
  assumes ok: "mem_ok M (add_mset b (add_mset r B)) R"
    and len: "length (content M b) + length (content M r) \<le> MAX_BYTES"
    and d: "blocks M (m_data b) = Some d" and adj: "adjacent_zeros b r d" and ap: "appendable r b d"
  obtains b' M' where "AddAtEnd_buffer r b M = Some (b', M')" and "mem_ok M' (add_mset b' (add_mset r B)) R"
    and "content M' b' = content M b @ content M r" and "same_contents M M' (add_mset r B)"
proof -
  from fits_bounds [OF ok] d obtain fb: "fits b d" and bo: "block_ok d" and shb: "shape_ok b"
    and cb: "content M b = bytes_in d b" and eb: "unat (m_end b) \<le> 2 * MAX_BYTES + 101"
    and lb: "length (content M b) = unat (m_end b) - unat (m_start b)" and ro: "real_end b \<le> length (m_octets d)"
    by (metis option.inject)
  from fits_bounds [OF mem_ok_swap [OF ok]] have shr: "shape_ok r"
    and lr: "length (content M r) = unat (m_end r) - unat (m_start r)" by blast+
  note ad = adj [unfolded adjacent_zeros_def]
  have end_r: "m_end r = m_zeroAreaEnd r" using ap adj by (simp add: appendable_def)
  define z where "z = m_zeroAreaEnd r - m_zeroAreaStart r"
  have z: "unat z = zeros r" using shr by (simp add: z_def unat_minus zeros_def shape_ok_def)
  have cr: "content M r = replicate (zeros r) 0"
  proof -
    have "length (content M r) = zeros r" using lr ad end_r by (simp add: zeros_def)
    then show ?thesis using load_parts(3) [OF mem_ok_swap [OF ok]] ad end_r
      by (metis (no_types, lifting) append_Nil append_self_conv2 diff_self_eq_0 lr drop_all order_refl append_Nil2 take_0)
  qed
  have ez: "unat (m_end b + z) = unat (m_end b) + zeros r"
    using eb len lr z cr by (subst unat_plus) (simp_all add: MAX_BYTES_def)
  define b0 where "b0 = (if m_zeroAreaStart b = m_zeroAreaEnd b then b\<lparr>m_zeroAreaStart := m_end b\<rparr> else b)"
  define b1 where "b1 = b0\<lparr>m_zeroAreaEnd := m_end b0 + z, m_end := m_end b0 + z\<rparr>"
  have b0: "m_data b0 = m_data b" "m_start b0 = m_start b" "m_end b0 = m_end b"
    "m_zeroAreaStart b0 = (if m_zeroAreaStart b = m_zeroAreaEnd b then m_end b else m_zeroAreaStart b)"
    by (simp_all add: b0_def)
  have b1: "m_data b1 = m_data b" "m_start b1 = m_start b" "m_end b1 = m_end b + z" "m_zeroAreaEnd b1 = m_end b + z"
    "m_zeroAreaStart b1 = m_zeroAreaStart b0"
    by (simp_all add: b1_def b0)
  have re1: "real_end b1 = real_end b"
    using ad ez shb by (auto simp: real_end_def b1 b0 shape_ok_def)
  define d1 where "d1 = d\<lparr>m_dirtyEnd := m_end b1\<rparr>"
  define M1 where "M1 = M\<lparr>blocks := (blocks M)(m_data b \<mapsto> d1)\<rparr>"
  have sh1: "shape_ok b1" using shb ez by (auto simp: shape_ok_def b1 b0)
  have bo1: "block_ok d1" using bo by (simp add: d1_def block_ok_def)
  have fit1: "fits b1 d1"
    using fb sh1 re1 len lb lr cr ez shb by (simp add: fits_def d1_def b1 shape_ok_def)
  have only: "m_data c \<noteq> m_data b" if "c \<in># add_mset r B" for c
    using only_ref(2) [OF ok d _ that] ad by blast
  have e1: "real_end b1 + zeros b1 = unat (m_end b1)"
    using sh1 by (simp add: real_end_def zeros_def shape_ok_def)
  have dk1: "dirty_ok (add_mset b1 (add_mset r B)) (m_data b) d1"
    unfolding dirty_ok_def
  proof (intro exI ballI impI)
    fix c assume "c \<in># add_mset b1 (add_mset r B)" "m_data c = m_data b"
    then have "c = b1" using only by auto
    then show "zeros c \<le> zeros b1 \<and> real_end c + zeros b1 \<le> unat (m_dirtyEnd d1)"
      using e1 by (simp add: d1_def)
  qed
  have ok1: "mem_ok M1 (add_mset b1 (add_mset r B)) R"
  proof (rule mem_ok_update [OF ok _ bo1 dk1])
    show "unat (m_count d1) = count (refs (add_mset b1 (add_mset r B)) R) (m_data b)"
      using mem_okD(4) [OF ok d] by (simp add: d1_def b1)
    show "fits c d1" if "c \<in># add_mset b1 (add_mset r B)" "m_data c = m_data b" for c
      using that only fit1 by auto
  qed (auto simp: b1 M1_def)
  have dd: "blocks M1 (m_data b) = Some d1" by (simp add: M1_def)
  have cnt: "m_count d1 = 1" using ad by (simp add: d1_def)
  have ie: "GetInternalEnd b1 \<le> m_size d1"
    using internal_end [OF sh1] re1 fb by (simp add: word_le_nat_alt fits_def d1_def)
  define b2 where "b2 = learn_start b1"
  have b2: "m_data b2 = m_data b" "m_start b2 = m_start b" "m_end b2 = m_end b1"
    "m_zeroAreaEnd b2 = m_end b1" "m_zeroAreaStart b2 = m_zeroAreaStart b1"
    by (simp_all add: b2_def b1)
  have self: "(blocks M1)(m_data b \<mapsto> d1\<lparr>m_dirtyEnd := m_end b1\<rparr>) = blocks M1"
    by (auto simp: M1_def d1_def fun_eq_iff)
  have add0: "AddAtEnd 0 b1 M1 = Some (b2, M1)"
    using dd ie cnt self by (simp add: AddAtEnd_def Let_def b1(1) with_block_def b2_def)
  have pr: "Prev 0 (End b2) = Some (End b2)" "Prev 0 (End r) = Some (End r)" by (simp_all add: Prev_def)
  have rd: "\<exists>e. blocks M1 (m_data r) = Some e" using mem_okD(7) [OF ok1, of r] by auto
  have zpos: "m_zeroAreaStart r < m_end r" "m_zeroAreaStart r \<le> m_zeroAreaEnd r"
    using ad end_r shr by (auto simp: shape_ok_def word_less_nat_alt word_le_nat_alt unat_minus)
  have w: "Write_range (End r) (End r) (End b2) M1 = Some (End b2, M1)"
  proof -
    have chk: "CheckNoZero (m_end b2) (m_end b2) (End b2)"
      using sh1 by (simp add: CheckNoZero_def End_def Begin_def b1 b2 shape_ok_def word_le_nat_alt word_less_nat_alt not_less)
    have ne: "m_data b2 \<noteq> m_data r" using only [of r] b2 by auto
    have E: "it_data (End r) = m_data r" "m_current (End r) = m_end r" "m_zeroStart (End r) = m_zeroAreaStart r"
      "m_zeroEnd (End r) = m_end r" "m_dataEnd (End r) = m_end r"
      "it_data (End b2) = m_data b2" "m_current (End b2) = m_end b2" by (simp_all add: End_def Begin_def end_r)
    have p: "put True [] (End b2) M1 = Some (End b2, M1)" using put_nothing dd b2(1) E(6) by metis
    obtain e where "blocks M1 (m_data r) = Some e" using rd by blast
    then have l: "load (m_data r) off 0 M1 = Some []" for off by (simp add: load_def)
    show ?thesis
      using chk ne zpos by (simp add: Write_range_def E Let_def p l not_le)
  qed
  have m1: "M\<lparr>blocks := (blocks M)(m_data b \<mapsto> d\<lparr>m_dirtyEnd := m_end b + z\<rparr>)\<rparr> = M1"
    by (simp add: M1_def d1_def b1)
  have "AddAtEnd_buffer r b M = Some (b2, M1)"
    using d adj add0 w pr unfolding AddAtEnd_buffer_def Let_def b0_def [symmetric] z_def [symmetric]
    by (simp add: b1_def [symmetric] with_block_def b1 end_r m1)
  moreover have "mem_ok M1 (add_mset b2 (add_mset r B)) R" using ok1 by (simp add: b2_def)
  moreover have "content M1 b2 = content M b @ content M r"
  proof -
    have c1: "content M1 b2 = bytes_in d b1" by (simp add: b2_def content_def M1_def b1 d1_def bytes_in_def)
    show ?thesis
    proof (cases "m_zeroAreaStart b = m_zeroAreaEnd b")
      case True
      define h t where "h = unat (m_zeroAreaStart b) - unat (m_start b)" and "t = unat (m_end b) - unat (m_zeroAreaEnd b)"
      have ht: "unat (m_end b) - unat (m_start b) = h + t" "unat (m_start b) + h = unat (m_zeroAreaStart b)"
        using shb True by (simp_all add: h_def t_def shape_ok_def)
      have "zeros b = 0" using True by (simp add: zeros_def)
      then have "take (unat (m_end b) - unat (m_start b)) (drop (unat (m_start b)) (m_octets d)) = bytes_in d b"
        unfolding ht(1) take_plus_drop ht(2) bytes_in_def by (simp add: h_def t_def)
      then show ?thesis
        using True ez unfolding c1 cr cb by (simp add: bytes_in_def [of d b1] b1 b0 zeros_def [of b1])
    next
      case False
      then have "m_end b = m_zeroAreaEnd b" using ad by simp
      then show ?thesis
        using False ez shb unfolding c1 cr cb
        by (simp add: bytes_in_def b1 b0 zeros_def [of b1] zeros_def [of b] replicate_add [symmetric] shape_ok_def)
    qed
  qed
  moreover have "same_contents M M1 (add_mset r B)"
  proof -
    have "content M1 c = content M c" if "c \<in># add_mset r B" for c
      using only [OF that] by (simp add: content_def M1_def)
    then show ?thesis by (simp add: same_contents_def)
  qed
  ultimately show ?thesis using that by blast
qed

lemma AddAtEnd_buffer_ok:
  assumes ok: "mem_ok M (add_mset b (add_mset r B)) R"
    and room: "size (refs (add_mset b (add_mset r B)) R) + 2 < 2 ^ 32"
    and len: "length (content M b) + length (content M r) \<le> MAX_BYTES"
    and d: "blocks M (m_data b) = Some d" and ap: "appendable r b d"
  obtains b' M' where "AddAtEnd_buffer r b M = Some (b', M')" and "mem_ok M' (add_mset b' (add_mset r B)) R"
    and "content M' b' = content M b @ content M r" and "same_contents M M' (add_mset r B)"
proof (cases "adjacent_zeros b r d")
  case True
  show ?thesis by (rule append_zeros [OF ok len d True ap]) (rule that)
next
  case False
  show ?thesis by (rule append_copy [OF ok room len d False ap]) (rule that)
qed

end
