(* ===== verification/Packet_Buffer_Props.thy ===== *)
theory Packet_Buffer_Props
  imports Packet_Buffer_Append
begin

text \<open>
  Buffers implement lists of bytes: whatever sequence of operations creates, copies, cuts, extends,
  appends, assigns and destroys buffers that share memory, each buffer holds the bytes of its own list.
\<close>

datatype buffer_op =
  NEW "32 word" | COPY nat | FRAGMENT nat "32 word" "32 word" | DESTROY nat | ASSIGN nat nat |
  ADD_AT_START nat "octet list" | ADD_AT_END nat "octet list" | APPEND nat nat |
  REMOVE_AT_START nat "32 word" | REMOVE_AT_END nat "32 word"

definition others :: "nat \<Rightarrow> 'a list \<Rightarrow> 'a list" where
  "others i xs = take i xs @ drop (Suc i) xs"

text \<open>Adding bytes as \<open>Packet\<close> does: make room, then write at the beginning or before the end.\<close>

definition add_bytes_at_start :: "octet list \<Rightarrow> buffer \<Rightarrow> memory \<Rightarrow> (buffer \<times> memory) option" where
  "add_bytes_at_start bs b M =
     do {
       (b, M) \<leftarrow> AddAtStart (of_nat (length bs)) b M;
       (_, M) \<leftarrow> Write bs (Begin b) M;
       Some (b, M)
     }"

definition add_bytes_at_end :: "octet list \<Rightarrow> buffer \<Rightarrow> memory \<Rightarrow> (buffer \<times> memory) option" where
  "add_bytes_at_end bs b M =
     do {
       (b, M) \<leftarrow> AddAtEnd (of_nat (length bs)) b M;
       i \<leftarrow> Prev (of_nat (length bs)) (End b);
       (_, M) \<leftarrow> Write bs i M;
       Some (b, M)
     }"

fun exec :: "buffer_op \<Rightarrow> buffer list \<times> memory \<Rightarrow> (buffer list \<times> memory) option" where
  "exec (NEW n) (bs, M) = map_option (\<lambda>(b, M). (bs @ [b], M)) (Initialize n M)"
| "exec (COPY i) (bs, M) = map_option (\<lambda>(b, M). (bs @ [b], M)) (Buffer_copy (bs ! i) M)"
| "exec (FRAGMENT i s l) (bs, M) = map_option (\<lambda>(b, M). (bs @ [b], M)) (CreateFragment s l (bs ! i) M)"
| "exec (DESTROY i) (bs, M) = map_option (Pair (others i bs)) (Buffer_destroy (bs ! i) M)"
| "exec (ASSIGN i j) (bs, M) = map_option (\<lambda>(b, M). (bs[i := b], M)) (Buffer_assign (bs ! i) (bs ! j) M)"
| "exec (ADD_AT_START i xs) (bs, M) = map_option (\<lambda>(b, M). (bs[i := b], M)) (add_bytes_at_start xs (bs ! i) M)"
| "exec (ADD_AT_END i xs) (bs, M) = map_option (\<lambda>(b, M). (bs[i := b], M)) (add_bytes_at_end xs (bs ! i) M)"
| "exec (APPEND i j) (bs, M) = map_option (\<lambda>(b, M). (bs[i := b], M)) (AddAtEnd_buffer (bs ! j) (bs ! i) M)"
| "exec (REMOVE_AT_START i n) (bs, M) = map_option (\<lambda>b. (bs[i := b], M)) (RemoveAtStart n (bs ! i))"
| "exec (REMOVE_AT_END i n) (bs, M) = Some (bs[i := RemoveAtEnd n (bs ! i)], M)"

text \<open>What the operations mean for lists of bytes.\<close>

fun list_exec :: "buffer_op \<Rightarrow> octet list list \<Rightarrow> octet list list" where
  "list_exec (NEW n) xs = xs @ [replicate (unat n) 0]"
| "list_exec (COPY i) xs = xs @ [xs ! i]"
| "list_exec (FRAGMENT i s l) xs = xs @ [take (unat l) (drop (unat s) (xs ! i))]"
| "list_exec (DESTROY i) xs = others i xs"
| "list_exec (ASSIGN i j) xs = xs[i := xs ! j]"
| "list_exec (ADD_AT_START i ys) xs = xs[i := ys @ xs ! i]"
| "list_exec (ADD_AT_END i ys) xs = xs[i := xs ! i @ ys]"
| "list_exec (APPEND i j) xs = xs[i := xs ! i @ xs ! j]"
| "list_exec (REMOVE_AT_START i n) xs = xs[i := drop (unat n) (xs ! i)]"
| "list_exec (REMOVE_AT_END i n) xs = xs[i := take (length (xs ! i) - unat n) (xs ! i)]"

text \<open>
  The operations a client may call: on existing buffers, up to \<open>MAX_BYTES\<close> in a buffer and fewer than
  \<open>2 ^ 32\<close> buffers, and \<open>APPEND\<close> only where it works.
\<close>

fun allowed :: "buffer_op \<Rightarrow> buffer list \<times> memory \<Rightarrow> bool" where
  "allowed (NEW n) (bs, M) \<longleftrightarrow> unat n \<le> MAX_BYTES"
| "allowed (COPY i) (bs, M) \<longleftrightarrow> i < length bs \<and> length bs + 3 < 2 ^ 32"
| "allowed (FRAGMENT i s l) (bs, M) \<longleftrightarrow>
     i < length bs \<and> length bs + 3 < 2 ^ 32 \<and> unat s + unat l \<le> length (content M (bs ! i))"
| "allowed (DESTROY i) (bs, M) \<longleftrightarrow> i < length bs"
| "allowed (ASSIGN i j) (bs, M) \<longleftrightarrow> i < length bs \<and> j < length bs \<and> i \<noteq> j \<and> length bs + 3 < 2 ^ 32"
| "allowed (ADD_AT_START i xs) (bs, M) \<longleftrightarrow> i < length bs \<and> length (content M (bs ! i)) + length xs \<le> MAX_BYTES"
| "allowed (ADD_AT_END i xs) (bs, M) \<longleftrightarrow> i < length bs \<and> length (content M (bs ! i)) + length xs \<le> MAX_BYTES"
| "allowed (APPEND i j) (bs, M) \<longleftrightarrow>
     i < length bs \<and> j < length bs \<and> i \<noteq> j \<and> length bs + 3 < 2 ^ 32 \<and>
     length (content M (bs ! i)) + length (content M (bs ! j)) \<le> MAX_BYTES \<and>
     (case blocks M (m_data (bs ! i)) of None \<Rightarrow> False | Some d \<Rightarrow> appendable (bs ! j) (bs ! i) d)"
| "allowed (REMOVE_AT_START i n) (bs, M) \<longleftrightarrow> i < length bs \<and> unat n \<le> MAX_BYTES"
| "allowed (REMOVE_AT_END i n) (bs, M) \<longleftrightarrow> i < length bs"

text \<open>A program starts without buffers; \<open>g\<close> is what new memory contains.\<close>

definition no_memory :: "(nat \<Rightarrow> nat \<Rightarrow> octet) \<Rightarrow> memory" where
  "no_memory g = \<lparr>blocks = Map.empty, brk = 0, garbage = g, g_freeList = None, g_maxSize = 0,
     g_recommendedStart = 0\<rparr>"

inductive buffer_run :: "buffer list \<Rightarrow> memory \<Rightarrow> octet list list \<Rightarrow> bool" where
  run_start: "buffer_run [] (no_memory g) []"
| run_step: "buffer_run bs M xs \<Longrightarrow> allowed opn (bs, M) \<Longrightarrow> exec opn (bs, M) = Some (bs', M') \<Longrightarrow>
    buffer_run bs' M' (list_exec opn xs)"

subsection \<open>Adding bytes\<close>

lemma nat_word32: "n < 2 ^ 32 \<Longrightarrow> unat (of_nat n :: 32 word) = n"
  by (simp add: unat_of_nat)

lemma add_bytes_at_start_ok:
  assumes ok: "mem_ok M (add_mset b B) R" and len: "length (content M b) + length bs \<le> MAX_BYTES"
  obtains b' M' where "add_bytes_at_start bs b M = Some (b', M')" and "mem_ok M' (add_mset b' B) R"
    and "same_contents M M' B" and "content M' b' = bs @ content M b"
proof -
  let ?n = "of_nat (length bs) :: 32 word"
  have n: "unat ?n = length bs" using len by (intro nat_word32) (simp add: MAX_BYTES_def)
  from fits_bounds [OF ok] have lb: "length (content M b) = unat (m_end b) - unat (m_start b)" by blast
  have "unat (m_end b) - unat (m_start b) + unat ?n \<le> MAX_BYTES" using len lb n by simp
  from fill_start [OF ok this n [symmetric]] obtain b1 M1 M2 where
    f: "AddAtStart ?n b M = Some (b1, M1)" "put True bs (Begin b1) M1 = Some ((Begin b1)\<lparr>m_current := m_start b1 + ?n\<rparr>, M2)"
      "mem_ok M2 (add_mset b1 B) R" "same_contents M M2 B" "content M2 b1 = bs @ content M b"
      "unat (m_start b1) + unat ?n \<le> unat (m_zeroAreaStart b1)" "shape_ok b1" by metis
  have "CheckNoZero (m_start b1) ?n (Begin b1)"
    using f(6,7) by (simp add: CheckNoZero_def Begin_def shape_ok_def word_le_nat_alt word_less_nat_alt not_less)
  moreover have "m_start b1 \<le> m_zeroAreaStart b1" using f(7) by (simp add: shape_ok_def word_le_nat_alt)
  ultimately have "Write bs (Begin b1) M1 = Some ((Begin b1)\<lparr>m_current := m_start b1 + ?n\<rparr>, M2)"
    using f(2) by (simp add: Write_def Begin_def)
  then show ?thesis using that f(1,3-5) by (simp add: add_bytes_at_start_def)
qed

lemma add_bytes_at_end_ok:
  assumes ok: "mem_ok M (add_mset b B) R" and len: "length (content M b) + length bs \<le> MAX_BYTES"
  obtains b' M' where "add_bytes_at_end bs b M = Some (b', M')" and "mem_ok M' (add_mset b' B) R"
    and "same_contents M M' B" and "content M' b' = content M b @ bs"
proof -
  let ?n = "of_nat (length bs) :: 32 word"
  have n: "unat ?n = length bs" using len by (intro nat_word32) (simp add: MAX_BYTES_def)
  from fits_bounds [OF ok] have lb: "length (content M b) = unat (m_end b) - unat (m_start b)" by blast
  have nn: "unat (m_end b) - unat (m_start b) + unat ?n \<le> MAX_BYTES" using len lb n by simp
  from AddAtEnd_ok [OF ok nn] obtain b1 M1 new where
    a: "AddAtEnd ?n b M = Some (b1, M1)" "mem_ok M1 (add_mset b1 B) R" "keeps M M1 (set_mset (refs B R))"
      "content M1 b1 = content M b @ new" "length new = unat ?n" "unat (m_zeroAreaEnd b1) + unat ?n \<le> unat (m_end b1)"
      "\<forall>c\<in>#B. m_data c = m_data b1 \<longrightarrow> real_end c + unat ?n \<le> real_end b1" by metis
  from fits_bounds [OF a(2)] have sh: "shape_ok b1" and re: "real_end b1 + zeros b1 = unat (m_end b1)"
    and l1: "length (content M1 b1) = unat (m_end b1) - unat (m_start b1)" by blast+
  define p where "p = real_end b1 - length bs"
  have pb: "unat (m_zeroAreaStart b1) \<le> p" "p + length bs = real_end b1"
    using a(6) n sh by (auto simp: p_def real_end_def shape_ok_def)
  have pr: "private_range b1 B p (length bs)"
    using a(7) n pb sh by (force simp: private_range_def shape_ok_def)
  from store_private [OF a(2) pr] obtain M2 where
    s: "store (m_data b1) p bs M1 = Some M2" "mem_ok M2 (add_mset b1 B) R"
      "content M2 b1 = overwrite (virtual b1 p (length bs)) bs (content M1 b1)" "same_contents M1 M2 B" .
  have v: "bs \<noteq> [] \<Longrightarrow> virtual b1 p (length bs) = length (content M b)"
  proof -
    assume "bs \<noteq> []"
    then have "0 < length bs" by simp
    then have "\<not> p + length bs \<le> unat (m_zeroAreaStart b1)" using pb by linarith
    then have "virtual b1 p (length bs) = p - unat (m_start b1) + zeros b1" by (simp add: virtual_def)
    moreover have "length (content M b) + length bs = unat (m_end b1) - unat (m_start b1)"
      using l1 a(4,5) n by simp
    ultimately show ?thesis using pb re sh by (simp add: shape_ok_def)
  qed
  have ct: "content M2 b1 = content M b @ bs"
  proof (cases "bs = []")
    case True
    then show ?thesis using s(3) a(4,5) n by (simp add: overwrite_def)
  next
    case False
    then show ?thesis using s(3) v a(4,5) n by (simp add: overwrite_end)
  qed
  define it where "it = (End b1)\<lparr>m_current := m_end b1 - ?n\<rparr>"
  have cu: "unat (m_end b1 - ?n) = unat (m_end b1) - length bs" using a(6) n by (simp add: unat_minus)
  have it: "m_current it = m_end b1 - ?n" "m_zeroStart it = m_zeroAreaStart b1" "m_zeroEnd it = m_zeroAreaEnd b1"
    "m_dataStart it = m_start b1" "m_dataEnd it = m_end b1" "it_data it = m_data b1"
    by (simp_all add: it_def End_def Begin_def)
  have pv: "Prev ?n (End b1) = Some it"
    using a(6) by (simp add: Prev_def it_def End_def Begin_def word_le_nat_alt)
  have zz: "unat (m_zeroAreaEnd b1 - m_zeroAreaStart b1) = zeros b1" using sh by (simp add: unat_minus zeros_def shape_ok_def)
  have real: "real_pos (m_end b1 - ?n \<le> m_zeroAreaStart b1) it = p"
  proof (cases "m_end b1 - ?n \<le> m_zeroAreaStart b1")
    case True
    then have "unat (m_end b1) - length bs \<le> unat (m_zeroAreaStart b1)" using cu by (simp add: word_le_nat_alt)
    then show ?thesis using True cu pb re a(6) n sh by (simp add: real_pos_def it p_def zeros_def shape_ok_def)
  next
    case False
    have "unat (m_end b1 - ?n - (m_zeroAreaEnd b1 - m_zeroAreaStart b1)) = unat (m_end b1) - length bs - zeros b1"
      using cu zz a(6) n sh by (subst unat_minus) (simp_all add: zeros_def shape_ok_def)
    then show ?thesis using False re by (simp add: real_pos_def it p_def)
  qed
  have "unat (m_zeroAreaEnd b1) \<le> unat (m_end b1) - length bs" "unat (m_start b1) \<le> unat (m_zeroAreaEnd b1)"
    "unat ?n \<le> unat (m_end b1)"
    using a(6) n sh by (auto simp: shape_ok_def)
  then have "CheckNoZero (m_current it) ?n it"
    by (simp add: CheckNoZero_def it word_le_nat_alt word_less_nat_alt not_less cu)
  then have "\<exists>it'. Write bs it M1 = Some (it', M2)"
    using s(1) real by (simp add: Write_def put_def it)
  then have "add_bytes_at_end bs b M = Some (b1, M2)" using a(1) pv by (auto simp: add_bytes_at_end_def)
  then show ?thesis using that s(2) ct same_contents_trans [OF keeps_same [OF a(3)] s(4)] by blast
qed

subsection \<open>One operation\<close>

lemma others_split:
  assumes "i < length bs"
  shows "mset bs = add_mset (bs ! i) (mset (others i bs))"
    and "mset (bs[i := b]) = add_mset b (mset (others i bs))"
    and "map f (others i bs) = others i (map f bs)"
proof -
  show "mset bs = add_mset (bs ! i) (mset (others i bs))"
    by (subst id_take_nth_drop [OF assms]) (simp add: others_def)
  show "mset (bs[i := b]) = add_mset b (mset (others i bs))"
    using assms by (simp add: upd_conv_take_nth_drop others_def)
  show "map f (others i bs) = others i (map f bs)"
    by (simp add: others_def take_map drop_map)
qed

lemma nth_others: "i < length bs \<Longrightarrow> j < length bs \<Longrightarrow> i \<noteq> j \<Longrightarrow> bs ! j \<in> set (others i bs)"
proof -
  assume ij: "i < length bs" "j < length bs" "i \<noteq> j"
  have "bs ! j \<in> set (take i bs) \<or> bs ! j \<in> set (drop (Suc i) bs)"
  proof (cases "j < i")
    case True
    then have "take i bs ! j = bs ! j" "j < length (take i bs)" using ij by simp_all
    then show ?thesis by (metis nth_mem)
  next
    case False
    then have "drop (Suc i) bs ! (j - Suc i) = bs ! j" "j - Suc i < length (drop (Suc i) bs)" using ij by simp_all
    then show ?thesis by (metis nth_mem)
  qed
  then show ?thesis by (simp add: others_def)
qed

lemma map_others:
  assumes "i < length bs" and "same_contents M M' (mset (others i bs))"
  shows "map (content M') (bs[i := b']) = (map (content M) bs)[i := content M' b']"
proof (rule nth_equalityI)
  fix j assume "j < length (map (content M') (bs[i := b']))"
  then have j: "j < length bs" by simp
  show "map (content M') (bs[i := b']) ! j = (map (content M) bs)[i := content M' b'] ! j"
  proof (cases "j = i")
    case False
    then have "bs ! j \<in> set (others i bs)" using nth_others assms(1) j by blast
    then show ?thesis using False j assms(2) by (simp add: same_contents_def)
  qed (use j in simp)
qed simp

lemma map_all: "same_contents M M' (mset bs) \<Longrightarrow> map (content M') bs = map (content M) bs"
  by (simp add: same_contents_def)

lemma exec_ok:
  assumes ok: "mem_ok M (mset bs) {#}" and al: "allowed opn (bs, M)"
  shows "\<exists>bs' M'. exec opn (bs, M) = Some (bs', M') \<and> mem_ok M' (mset bs') {#} \<and>
    map (content M') bs' = list_exec opn (map (content M) bs)"
proof -
  have sz: "size (refs (mset bs) {#}) = length bs" by (simp add: refs_def)
  have at: "mem_ok M (add_mset (bs ! i) (mset (others i bs))) {#}" if "i < length bs" for i
    using ok others_split(1) [OF that] by simp
  have new: ?thesis if "exec opn (bs, M) = Some (bs @ [b], M')" "mem_ok M' (add_mset b (mset bs)) {#}"
    "same_contents M M' (mset bs)" "list_exec opn (map (content M) bs) = map (content M) bs @ [content M' b]" for b M'
    using that map_all [OF that(3)] by simp
  have upd: ?thesis if "exec opn (bs, M) = Some (bs[i := b], M')" "i < length bs"
    "mem_ok M' (add_mset b (mset (others i bs))) {#}" "same_contents M M' (mset (others i bs))"
    "list_exec opn (map (content M) bs) = (map (content M) bs)[i := content M' b]" for i b M'
    using that map_others [OF that(2,4)] others_split(2) [OF that(2), of b] by simp
  show ?thesis
  proof (cases opn)
    case (NEW n)
    then have "unat n \<le> MAX_BYTES" using al by simp
    from Initialize_ok [OF ok this] obtain b M' where
      "Initialize n M = Some (b, M')" "mem_ok M' (add_mset b (mset bs)) {#}" "same_contents M M' (mset bs)"
      "content M' b = replicate (unat n) 0" by metis
    then show ?thesis by (intro new [of b M']) (simp_all add: NEW)
  next
    case (COPY i)
    then have i: "i < length bs" "length bs + 3 < 2 ^ 32" using al by simp_all
    have "size (refs (add_mset (bs ! i) (mset (others i bs))) {#}) < 2 ^ 32 - 1"
      using i(2) sz unfolding others_split(1) [OF i(1), symmetric] by simp
    from Buffer_copy_ok [OF at [OF i(1)] this] obtain b M' where
      b: "Buffer_copy (bs ! i) M = Some (b, M')" "mem_ok M' (add_mset b (mset bs)) {#}"
        "same_contents M M' (mset bs)" "alike b (bs ! i)"
      unfolding others_split(1) [OF i(1), symmetric] .
    have "content M' b = content M (bs ! i)"
      using alike_simps(2) [OF b(4)] b(3) i(1) by (simp add: same_contents_def)
    with b show ?thesis using i by (intro new [of b M']) (simp_all add: COPY)
  next
    case (FRAGMENT i s l)
    then have i: "i < length bs" "length bs + 3 < 2 ^ 32" "unat s + unat l \<le> length (content M (bs ! i))"
      using al by simp_all
    have "size (refs (add_mset (bs ! i) (mset (others i bs))) {#}) < 2 ^ 32 - 1"
      using i(2) sz unfolding others_split(1) [OF i(1), symmetric] by simp
    from CreateFragment_ok [OF at [OF i(1)] this i(3)] obtain b M' where
      b: "CreateFragment s l (bs ! i) M = Some (b, M')" "mem_ok M' (add_mset b (mset bs)) {#}"
        "same_contents M M' (mset bs)" "content M' b = take (unat l) (drop (unat s) (content M (bs ! i)))"
      unfolding others_split(1) [OF i(1), symmetric] .
    then show ?thesis using i by (intro new [of b M']) (simp_all add: FRAGMENT)
  next
    case (DESTROY i)
    then have i: "i < length bs" using al by simp
    from Buffer_destroy_ok [OF at [OF i]] obtain M' where
      "Buffer_destroy (bs ! i) M = Some M'" "mem_ok M' (mset (others i bs)) {#}"
      "same_contents M M' (mset (others i bs))" .
    then show ?thesis using map_all [of M M' "others i bs"]
      by (simp add: DESTROY others_split(3) [OF i, symmetric] del: map_eq_conv)
  next
    case (ASSIGN i j)
    then have i: "i < length bs" "j < length bs" "i \<noteq> j" "length bs + 3 < 2 ^ 32" using al by simp_all
    have "bs ! j \<in># mset (others i bs)" using nth_others [OF i(1-3)] by simp
    then obtain B where B: "mset (others i bs) = add_mset (bs ! j) B" by (rule mset_add)
    have "size (refs (add_mset (bs ! i) (add_mset (bs ! j) B)) {#}) < 2 ^ 32 - 1"
      using i(4) sz unfolding B [symmetric] others_split(1) [OF i(1), symmetric] by simp
    from Buffer_assign_ok [OF at [OF i(1), unfolded B] this] obtain M' where
      "Buffer_assign (bs ! i) (bs ! j) M = Some (bs ! j, M')" "mem_ok M' (add_mset (bs ! j) (mset (others i bs))) {#}"
      "same_contents M M' (mset (others i bs))" unfolding B .
    then show ?thesis
      using i B by (intro upd [of i "bs ! j" M']) (simp_all add: ASSIGN)
  next
    case (ADD_AT_START i xs)
    then have i: "i < length bs" "length (content M (bs ! i)) + length xs \<le> MAX_BYTES" using al by simp_all
    from add_bytes_at_start_ok [OF at [OF i(1)] i(2)] obtain b M' where
      "add_bytes_at_start xs (bs ! i) M = Some (b, M')" "mem_ok M' (add_mset b (mset (others i bs))) {#}"
      "same_contents M M' (mset (others i bs))" "content M' b = xs @ content M (bs ! i)" .
    then show ?thesis using i by (intro upd [of i b M']) (simp_all add: ADD_AT_START)
  next
    case (ADD_AT_END i xs)
    then have i: "i < length bs" "length (content M (bs ! i)) + length xs \<le> MAX_BYTES" using al by simp_all
    from add_bytes_at_end_ok [OF at [OF i(1)] i(2)] obtain b M' where
      "add_bytes_at_end xs (bs ! i) M = Some (b, M')" "mem_ok M' (add_mset b (mset (others i bs))) {#}"
      "same_contents M M' (mset (others i bs))" "content M' b = content M (bs ! i) @ xs" .
    then show ?thesis using i by (intro upd [of i b M']) (simp_all add: ADD_AT_END)
  next
    case (APPEND i j)
    then obtain d where i: "i < length bs" "j < length bs" "i \<noteq> j" "length bs + 3 < 2 ^ 32"
      "length (content M (bs ! i)) + length (content M (bs ! j)) \<le> MAX_BYTES"
      "blocks M (m_data (bs ! i)) = Some d" "appendable (bs ! j) (bs ! i) d"
      using al by (auto split: option.splits)
    have "bs ! j \<in># mset (others i bs)" using nth_others [OF i(1-3)] by simp
    then obtain B where B: "mset (others i bs) = add_mset (bs ! j) B" by (rule mset_add)
    have "size (refs (add_mset (bs ! i) (add_mset (bs ! j) B)) {#}) + 2 < 2 ^ 32"
      using i(4) sz unfolding B [symmetric] others_split(1) [OF i(1), symmetric] by simp
    from AddAtEnd_buffer_ok [OF at [OF i(1), unfolded B] this i(5,6,7)] obtain b M' where
      "AddAtEnd_buffer (bs ! j) (bs ! i) M = Some (b, M')" "mem_ok M' (add_mset b (mset (others i bs))) {#}"
      "content M' b = content M (bs ! i) @ content M (bs ! j)" "same_contents M M' (mset (others i bs))"
      unfolding B .
    then show ?thesis using i by (intro upd [of i b M']) (simp_all add: APPEND)
  next
    case (REMOVE_AT_START i n)
    then have i: "i < length bs" "unat n \<le> MAX_BYTES" using al by simp_all
    from RemoveAtStart_ok [OF at [OF i(1)] i(2)] obtain b where
      "RemoveAtStart n (bs ! i) = Some b" "mem_ok M (add_mset b (mset (others i bs))) {#}"
      "content M b = drop (unat n) (content M (bs ! i))" .
    then show ?thesis using i by (intro upd [of i b M]) (simp_all add: REMOVE_AT_START)
  next
    case (REMOVE_AT_END i n)
    then have i: "i < length bs" using al by simp
    from RemoveAtEnd_ok [OF at [OF i], of n] show ?thesis
      using i by (intro upd [of i "RemoveAtEnd n (bs ! i)" M]) (simp_all add: REMOVE_AT_END)
  qed
qed

subsection \<open>The properties\<close>

text \<open>The body of \<open>CheckInternalState\<close> that is kept in the source but not compiled.\<close>

definition internal_state_ok :: "memory \<Rightarrow> buffer \<Rightarrow> bool" where
  "internal_state_ok M b =
     (case blocks M (m_data b) of None \<Rightarrow> False
      | Some d \<Rightarrow>
         m_count d > 0 \<and>
         (m_start b \<le> m_zeroAreaStart b \<and> m_zeroAreaStart b \<le> m_zeroAreaEnd b \<and> m_zeroAreaEnd b \<le> m_end b) \<and>
         (m_start b \<ge> m_dirtyStart d \<and> m_end b \<le> m_dirtyEnd d) \<and>
         (m_end b - (m_zeroAreaEnd b - m_zeroAreaStart b) \<le> m_size d \<and> m_start b \<le> m_size d \<and>
          m_zeroAreaStart b \<le> m_size d))"

lemma mem_ok_internal:
  assumes ok: "mem_ok M B R" and b: "b \<in># B"
  shows "internal_state_ok M b"
proof -
  from mem_okD(7) [OF ok b] obtain d where d: "blocks M (m_data b) = Some d" "fits b d" by blast
  have "0 < unat (m_count d)"
    using mem_okD(4) [OF ok d(1)] b by (auto simp: refs_def count_eq_zero_iff intro!: gr0I)
  then have c: "0 < m_count d" by (simp add: word_gt_0_no word_less_nat_alt)
  from mem_okD(5) [OF ok d(1)] b have "real_end b + zeros b \<le> unat (m_dirtyEnd d)"
    unfolding dirty_ok_def by force
  moreover have sh: "unat (m_start b) \<le> unat (m_zeroAreaStart b)" "unat (m_zeroAreaStart b) \<le> unat (m_zeroAreaEnd b)"
      "unat (m_zeroAreaEnd b) \<le> unat (m_end b)" "unat (m_dirtyStart d) \<le> unat (m_start b)"
      "real_end b \<le> unat (m_size d)"
    using d(2) by (simp_all add: fits_def shape_ok_def)
  moreover have "unat (m_end b - (m_zeroAreaEnd b - m_zeroAreaStart b)) = real_end b"
    using sh by (simp add: unat_minus real_end_def)
  ultimately show ?thesis
    using d(1) c by (simp add: internal_state_ok_def word_le_nat_alt real_end_def zeros_def) linarith
qed

lemma take_three:
  "length a = k1 \<Longrightarrow> take n (a @ replicate k2 z @ take k3 c) =
     take (min k1 n) a @ replicate (min k2 (n - k1)) z @ take (min k3 (n - k1 - k2)) c"
  by (simp add: min_def)

lemma CopyData_ok:
  assumes ok: "mem_ok M B R" and b: "b \<in># B"
  shows "CopyData n b M = Some (take (unat n) (content M b))"
proof -
  from mem_okD(7) [OF ok b] obtain d where d: "blocks M (m_data b) = Some d" "fits b d" by blast
  have lo: "length (m_octets d) = unat (m_size d)" using mem_okD(3) [OF ok d(1)] by (simp add: block_ok_def)
  have sh: "unat (m_start b) \<le> unat (m_zeroAreaStart b)" "unat (m_zeroAreaStart b) \<le> unat (m_zeroAreaEnd b)"
    "unat (m_zeroAreaEnd b) \<le> unat (m_end b)" "real_end b \<le> length (m_octets d)"
    using d(2) lo by (simp_all add: fits_def shape_ok_def)
  define k1 k2 k3 where "k1 = unat (m_zeroAreaStart b) - unat (m_start b)" and "k2 = zeros b"
    and "k3 = unat (m_end b) - unat (m_zeroAreaEnd b)"
  define n1 n2 n3 where "n1 = min (m_zeroAreaStart b - m_start b) n"
    and "n2 = min (m_zeroAreaEnd b - m_zeroAreaStart b) (n - n1)"
    and "n3 = min (m_end b - m_zeroAreaEnd b) (n - n1 - n2)"
  have u1: "unat n1 = min k1 (unat n)" using sh by (simp add: n1_def k1_def unat_minus min_def word_le_nat_alt)
  have u2: "unat n2 = min k2 (unat n - unat n1)"
    using sh u1 by (simp add: n2_def k2_def zeros_def unat_minus min_def word_le_nat_alt)
  have "unat (n - n1 - n2) = unat n - unat n1 - unat n2" using u1 u2 by (simp add: unat_minus)
  then have u3: "unat n3 = min k3 (unat n - unat n1 - unat n2)"
    using sh by (simp add: n3_def k3_def unat_minus min_def word_le_nat_alt)
  have "unat (m_start b) + unat n1 \<le> length (m_octets d)" "unat (m_zeroAreaStart b) + unat n3 \<le> length (m_octets d)"
    using sh u1 u3 unfolding k1_def k3_def real_end_def by linarith+
  then have "CopyData n b M = Some (take (unat n1) (drop (unat (m_start b)) (m_octets d)) @ replicate (unat n2) 0 @
      take (unat n3) (drop (unat (m_zeroAreaStart b)) (m_octets d)))"
    by (simp add: CopyData_def load_def d(1) flip: n1_def n2_def n3_def)
  moreover have "k1 \<le> length (drop (unat (m_start b)) (m_octets d))" using sh by (simp add: k1_def real_end_def)
  moreover have e: "unat n2 = min k2 (unat n - k1)" using u1 u2 by linarith
  moreover have "unat n3 = min k3 (unat n - k1 - k2)" using u1 u3 e by linarith
  ultimately show ?thesis
    by (simp only: content_def d(1) bytes_in_def u1 option.case k1_def [symmetric] k2_def [symmetric]
        k3_def [symmetric] take_three length_take min_absorb2) (simp add: min_def)
qed

lemma buffer_run_ok: "buffer_run bs M xs \<Longrightarrow> mem_ok M (mset bs) {#} \<and> map (content M) bs = xs"
proof (induction rule: buffer_run.induct)
  case (run_start g)
  then show ?case by (simp add: mem_ok_def no_memory_def free_ok_def refs_def)
next
  case (run_step bs M xs opn bs' M')
  then show ?case using exec_ok [of M bs opn] by auto
qed


text \<open>C32: Packet buffers implement lists of bytes although they share memory: in a state reached by
  creating, copying, cutting, extending, appending, assigning and destroying buffers, every buffer
  holds exactly the bytes of its own list and the size of that list, \<open>CopyData\<close> returns the bytes,
  the checks that \<open>CheckInternalState\<close> would make hold, and every allowed further operation runs
  without a failed assertion or an access outside a block and has the effect it has on lists.\<close>

theorem buffers_are_byte_lists:
  assumes "buffer_run bs M xs"
  shows "length bs = length xs \<and>
    (\<forall>i<length bs. CopyData n (bs ! i) M = Some (take (unat n) (xs ! i)) \<and>
       unat (Buffer_GetSize (bs ! i)) = length (xs ! i) \<and> internal_state_ok M (bs ! i)) \<and>
    (\<forall>opn. allowed opn (bs, M) \<longrightarrow>
       (\<exists>bs' M'. exec opn (bs, M) = Some (bs', M') \<and> map (content M') bs' = list_exec opn xs))"
proof (intro conjI allI impI)
  from buffer_run_ok [OF assms] have ok: "mem_ok M (mset bs) {#}" and xs: "xs = map (content M) bs" by auto
  show "length bs = length xs" by (simp add: xs)
  fix i assume i: "i < length bs"
  then have b: "bs ! i \<in># mset bs" by simp
  show "CopyData n (bs ! i) M = Some (take (unat n) (xs ! i))" "internal_state_ok M (bs ! i)"
    using CopyData_ok [OF ok b] mem_ok_internal [OF ok b] i by (simp_all add: xs)
  have "mem_ok M (add_mset (bs ! i) (mset (others i bs))) {#}" using ok others_split(1) [OF i] by simp
  from fits_bounds [OF this] have "shape_ok (bs ! i)"
    "length (content M (bs ! i)) = unat (m_end (bs ! i)) - unat (m_start (bs ! i))" by blast+
  then show "unat (Buffer_GetSize (bs ! i)) = length (xs ! i)"
    using i by (simp add: xs Buffer_GetSize_def shape_ok_def unat_minus)
next
  fix opn assume "allowed opn (bs, M)"
  with buffer_run_ok [OF assms] exec_ok [of M bs opn]
  show "\<exists>bs' M'. exec opn (bs, M) = Some (bs', M') \<and> map (content M') bs' = list_exec opn xs" by auto
qed


lemma buffer_run_next:
  assumes "buffer_run bs M xs" and "allowed opn (bs, M)"
  shows "\<exists>bs' M'. buffer_run bs' M' (list_exec opn xs)"
  using buffer_run_ok [OF assms(1)] exec_ok [OF _ assms(2)] run_step [OF assms] by blast

lemma replicate_2: "replicate 2 x = [x, x]"
  by (simp add: numeral_2_eq_2)

lemma buffers_are_byte_lists_witness:
  "\<exists>bs M. buffer_run bs M [[7, 0, 0], [7, 0, 0]] \<and> CopyData 2 (bs ! 1) M = Some [7, 0]"
proof -
  have "allowed (NEW 2) ([], no_memory (\<lambda>_ _. 0))" by (simp add: MAX_BYTES_def)
  from buffer_run_next [OF run_start this] obtain bs M where
    1: "buffer_run bs M [[0, 0]]" by (auto simp: replicate_2)
  from buffer_run_ok [OF this] have "map (content M) bs = [[0, 0]]" by simp
  then have "allowed (ADD_AT_START 0 [7]) (bs, M)" by (auto simp: MAX_BYTES_def)
  from buffer_run_next [OF 1 this] obtain bs M where 2: "buffer_run bs M [[7, 0, 0]]" by auto
  from buffer_run_ok [OF this] have "map (content M) bs = [[7, 0, 0]]" by simp
  then have "allowed (COPY 0) (bs, M)" by auto
  from buffer_run_next [OF 2 this] obtain bs M where 3: "buffer_run bs M [[7, 0, 0], [7, 0, 0]]" by auto
  from buffers_are_byte_lists [OF this, of 2] have "CopyData 2 (bs ! 1) M = Some [7, 0]"
    by simp
  with 3 show ?thesis by blast
qed

subsection \<open>Where appending goes wrong\<close>

text \<open>The path of \<open>AddAtEnd\<close> that joins two areas of zeros, when bytes follow the zeros of \<open>r\<close> and they fit the block:
  they are written behind all zeros, at the position \<open>m_end\<close> counts and not at the end of the used part of the block.\<close>

definition joined :: "buffer \<Rightarrow> buffer \<Rightarrow> buffer" where
  "joined r b = b\<lparr>m_zeroAreaStart := (if m_zeroAreaStart b = m_zeroAreaEnd b then m_end b else m_zeroAreaStart b),
     m_zeroAreaEnd := m_end b + (m_zeroAreaEnd r - m_zeroAreaStart r), m_end := m_end b + (m_zeroAreaEnd r - m_zeroAreaStart r)\<rparr>"

lemma append_behind_zeros:
  assumes ok: "mem_ok M (add_mset b (add_mset r B)) R"
    and len: "length (content M b) + length (content M r) \<le> MAX_BYTES"
    and d: "blocks M (m_data b) = Some d" and adj: "adjacent_zeros b r d"
  defines "k \<equiv> m_end r - m_zeroAreaEnd r" and "tail \<equiv> drop (zeros r) (content M r)"
  assumes room: "real_end b + unat k \<le> unat (m_size d)"
  shows "\<exists>d1 M1. length tail = unat k \<and> AddAtEnd_buffer r b M = map_option (Pair (learn_start ((joined r b)\<lparr>m_end := m_end (joined r b) + k\<rparr>)))
      (store (m_data b) (unat (m_end b) + zeros r) tail M1) \<and> blocks M1 (m_data b) = Some d1 \<and> m_octets d1 = m_octets d"
proof -
  from fits_bounds [OF ok] d obtain fb: "fits b d" and bo: "block_ok d" and shb: "shape_ok b"
    and eb: "unat (m_end b) \<le> 2 * MAX_BYTES + 101" and re: "real_end b + zeros b = unat (m_end b)"
    by (metis option.inject)
  from fits_bounds [OF mem_ok_swap [OF ok]] have shr: "shape_ok r"
    and lr: "length (content M r) = unat (m_end r) - unat (m_start r)" "length (content M r) \<le> MAX_BYTES" by blast+
  note ad = adj [unfolded adjacent_zeros_def]
  define z where "z = m_zeroAreaEnd r - m_zeroAreaStart r"
  have z: "unat z = zeros r" "unat k = unat (m_end r) - unat (m_zeroAreaEnd r)"
    using shr by (simp_all add: z_def k_def unat_minus zeros_def shape_ok_def)
  have lk: "zeros r + unat k \<le> MAX_BYTES" "length tail = unat k"
    using lr ad z(2) shr by (simp_all add: zeros_def shape_ok_def tail_def)
  have ez: "unat (m_end b + z) = unat (m_end b) + zeros r" "unat (m_end b + z + k) = unat (m_end b) + zeros r + unat k"
  proof -
    show 1: "unat (m_end b + z) = unat (m_end b) + zeros r"
      using eb lk z by (subst unat_plus) (simp_all add: MAX_BYTES_def)
    show "unat (m_end b + z + k) = unat (m_end b) + zeros r + unat k"
      using eb lk 1 by (subst unat_plus) (simp_all add: MAX_BYTES_def)
  qed
  let ?b1 = "joined r b"
  have b1: "m_data ?b1 = m_data b" "m_start ?b1 = m_start b" "m_end ?b1 = m_end b + z" "m_zeroAreaEnd ?b1 = m_end b + z"
    "m_zeroAreaStart ?b1 = (if m_zeroAreaStart b = m_zeroAreaEnd b then m_end b else m_zeroAreaStart b)"
    by (simp_all add: joined_def z_def)
  have sh1: "shape_ok ?b1" and re1: "real_end ?b1 = real_end b"
    using shb ad ez by (auto simp: shape_ok_def b1 real_end_def)
  define d1 where "d1 = d\<lparr>m_dirtyEnd := m_end b + z\<rparr>"
  define M1 where "M1 = M\<lparr>blocks := (blocks M)(m_data b \<mapsto> d1)\<rparr>"
  define d2 where "d2 = d\<lparr>m_dirtyEnd := m_end b + z + k\<rparr>"
  define M2 where "M2 = M\<lparr>blocks := (blocks M)(m_data b \<mapsto> d2)\<rparr>"
  define b2 where "b2 = learn_start (?b1\<lparr>m_end := m_end ?b1 + k\<rparr>)"
  have b2: "m_data b2 = m_data b" "m_start b2 = m_start b" "m_end b2 = m_end b + z + k"
    "m_zeroAreaEnd b2 = m_end b + z" "m_zeroAreaStart b2 = m_zeroAreaStart ?b1"
    by (simp_all add: b2_def b1)
  have "unat (GetInternalEnd ?b1 + k) = real_end b + unat k"
    using internal_end [OF sh1] re1 room unat_lt32 [of "m_size d"] by (subst unat_plus) simp_all
  then have "GetInternalEnd ?b1 + k \<le> m_size d1" using room by (simp add: word_le_nat_alt d1_def)
  then have add: "AddAtEnd k ?b1 M1 = Some (b2, M2)"
    using ad by (simp add: AddAtEnd_def Let_def b1 M1_def M2_def d1_def d2_def with_block_def b2_def)
  have ne: "m_data r \<noteq> m_data b" using only_ref(2) [OF ok d _, of r] ad by auto
  have pr: "Prev k (End b2) = Some ((End b2)\<lparr>m_current := m_end b + z\<rparr>)"
    "Prev k (End r) = Some ((End r)\<lparr>m_current := m_zeroAreaEnd r\<rparr>)"
    using ez z shr by (simp_all add: Prev_def End_def Begin_def b2 word_le_nat_alt k_def)
  have "load (m_data r) (unat (m_zeroAreaStart r)) (unat k) M = Some tail"
    using load_parts(2) [OF mem_ok_swap [OF ok]] ad unfolding z(2) tail_def zeros_def by simp
  then have l: "load (m_data r) (unat (m_zeroAreaStart r)) (unat k) M2 = Some tail"
    using load_other [of M2 "m_data r" M] ne by (simp add: M2_def)
  have zr: "m_zeroAreaStart r < m_zeroAreaEnd r" "m_zeroAreaEnd r \<le> m_end r"
    using ad shr by (auto simp: shape_ok_def word_less_nat_alt word_le_nat_alt unat_minus)
  let ?dst = "(End b2)\<lparr>m_current := m_end b + z\<rparr>"
  have chk: "CheckNoZero (m_end b + z) (m_end b + z + k) ?dst"
    using sh1 ez by (simp add: CheckNoZero_def End_def Begin_def b2 b1 shape_ok_def word_le_nat_alt word_less_nat_alt not_less)
  have E: "it_data (End r) = m_data r" "m_zeroStart (End r) = m_zeroAreaStart r" "m_current (End r) = m_end r"
    "m_zeroEnd (End r) = m_zeroAreaEnd r" "m_dataEnd (End r) = m_end r" "it_data (End b2) = m_data b"
    by (simp_all add: End_def Begin_def b2)
  have dd: "blocks M2 (m_data b) = Some d2" by (simp add: M2_def)
  have p: "put True [] ?dst M2 = Some (?dst, M2)" by (rule put_nothing) (simp add: E dd)
  have w: "Write_range ((End r)\<lparr>m_current := m_zeroAreaEnd r\<rparr>) (End r) ?dst M2 = put True tail ?dst M2"
    using ne chk zr(1) [folded not_le] zr(2) [folded not_less] l
    by (simp add: Write_range_def E Let_def p real_pos_def k_def [symmetric])
  have "AddAtEnd_buffer r b M = map_option (Pair b2) (store (m_data b) (unat (m_end b) + zeros r) tail M2)"
    using d adj add w pr unfolding AddAtEnd_buffer_def Let_def k_def [symmetric]
    by (cases "store (m_data b) (unat (m_end b) + zeros r) tail M2")
      (auto simp: joined_def with_block_def M1_def d1_def z_def put_def real_pos_def E ez(1) [unfolded z_def])
  then show ?thesis using lk dd by (intro exI [of _ d2] exI [of _ M2]) (simp add: d2_def b2_def)
qed

lemmas buffer_eval = Initialize_def Create_def no_memory_def Allocate_def ALLOC_OVER_PROVISION_def with_block_def
  add_bytes_at_end_def AddAtEnd_def GetInternalEnd_def learn_start_def Prev_def End_def Begin_def
  Write_def CheckNoZero_def put_def store_def real_pos_def Let_def AddAtEnd_buffer_def adjacent_zeros_def
  Write_range_def load_def CopyData_def overwrite_def Buffer_copy_def become_full_copy_def CreateFullCopy_def
  Buffer_assign_def Buffer_destroy_def release_def Buffer_GetSize_def take_map drop_map

lemma content_behind_zeros:
  assumes ok: "mem_ok M (add_mset b (add_mset r B)) R"
    and len: "length (content M b) + length (content M r) \<le> MAX_BYTES"
    and d: "blocks M (m_data b) = Some d" and adj: "adjacent_zeros b r d"
  defines "k \<equiv> m_end r - m_zeroAreaEnd r"
  assumes "k \<noteq> 0" and room: "real_end b + unat k \<le> unat (m_size d)"
  shows "unat (m_size d) < unat (m_end b) + zeros r + unat k \<Longrightarrow> AddAtEnd_buffer r b M = None"
    and "unat (m_end b) + zeros r + unat k \<le> unat (m_size d) \<Longrightarrow> unat k \<le> zeros b + zeros r \<Longrightarrow>
      \<exists>b' M'. AddAtEnd_buffer r b M = Some (b', M') \<and>
        content M' b' = content M b @ replicate (zeros r) 0 @ take (unat k) (drop (real_end b) (m_octets d))"
proof -
  let ?tail = "drop (zeros r) (content M r)" and ?b = "learn_start ((joined r b)\<lparr>m_end := m_end (joined r b) + k\<rparr>)"
  let ?p = "unat (m_end b) + zeros r"
  obtain d1 M1 where a: "length ?tail = unat k" "AddAtEnd_buffer r b M = map_option (Pair ?b) (store (m_data b) ?p ?tail M1)"
    "blocks M1 (m_data b) = Some d1" "m_octets d1 = m_octets d"
    using append_behind_zeros [OF ok len d adj] room unfolding k_def by blast
  from fits_bounds [OF ok] d obtain bo: "block_ok d" and shb: "shape_ok b" and cb: "content M b = bytes_in d b"
    and eb: "unat (m_end b) \<le> 2 * MAX_BYTES + 101" and re: "real_end b + zeros b = unat (m_end b)"
    by (metis option.inject)
  from fits_bounds [OF mem_ok_swap [OF ok]] have shr: "shape_ok r"
    and lr: "length (content M r) = unat (m_end r) - unat (m_start r)" "length (content M r) \<le> MAX_BYTES" by blast+
  note ad = adj [unfolded adjacent_zeros_def]
  have nonempty: "?tail \<noteq> []" using a(1) assms(6) by (metis length_0_conv unat_eq_zero)
  have size: "length (m_octets d) = unat (m_size d)" using bo by (simp add: block_ok_def)
  show "AddAtEnd_buffer r b M = None" if "unat (m_size d) < ?p + unat k"
    using that a nonempty size by (simp add: store_def)
  assume fit: "?p + unat k \<le> unat (m_size d)" and few: "unat k \<le> zeros b + zeros r"
  let ?oct = "overwrite ?p ?tail (m_octets d)"
  have "store (m_data b) ?p ?tail M1 = Some (M1\<lparr>blocks := (blocks M1)(m_data b \<mapsto> m_octets_update (overwrite ?p ?tail) d1)\<rparr>)"
    using fit a size by (simp add: store_def with_block_def)
  moreover define M' where "M' = M1\<lparr>blocks := (blocks M1)(m_data b \<mapsto> m_octets_update (overwrite ?p ?tail) d1)\<rparr>"
  ultimately have ex: "AddAtEnd_buffer r b M = Some (?b, M')" using a(2) by simp
  define z where "z = m_zeroAreaEnd r - m_zeroAreaStart r"
  have z: "unat z = zeros r" "unat k = unat (m_end r) - unat (m_zeroAreaEnd r)"
    using shr by (simp_all add: z_def k_def unat_minus zeros_def shape_ok_def)
  have lk: "zeros r + unat k \<le> MAX_BYTES"
    using lr ad z(2) shr by (simp add: zeros_def shape_ok_def)
  have ez: "unat (m_end b + z) = ?p"
    using eb lk z by (subst unat_plus) (simp_all add: MAX_BYTES_def)
  have ezk: "unat (m_end b + z + k) = ?p + unat k"
    using eb lk ez by (subst unat_plus) (simp_all add: MAX_BYTES_def)
  have same: "take n (drop off ?oct) = take n (drop off (m_octets d))" if "off + n \<le> ?p" for off n
    using that fit a(1) size by (simp add: take_drop_overwrite_before)
  have c: "content M' ?b = take (unat (m_zeroAreaStart (joined r b)) - unat (m_start b)) (drop (unat (m_start b)) ?oct) @
      replicate (?p - unat (m_zeroAreaStart (joined r b))) 0 @ take (unat k) (drop (unat (m_zeroAreaStart (joined r b))) ?oct)"
    using ez ezk a(4) by (simp add: content_def M'_def bytes_in_def joined_def z_def zeros_def)
  have "content M' ?b = content M b @ replicate (zeros r) 0 @ take (unat k) (drop (real_end b) (m_octets d))"
  proof (cases "m_zeroAreaStart b = m_zeroAreaEnd b")
    case True
    have zb: "zeros b = 0" using True by (simp add: zeros_def)
    have "content M b = take (unat (m_end b) - unat (m_start b)) (drop (unat (m_start b)) (m_octets d))"
    proof -
      define h t where "h = unat (m_zeroAreaStart b) - unat (m_start b)" and "t = unat (m_end b) - unat (m_zeroAreaEnd b)"
      have ht: "unat (m_end b) - unat (m_start b) = h + t" "unat (m_start b) + h = unat (m_zeroAreaStart b)"
        using shb True by (simp_all add: h_def t_def shape_ok_def)
      show ?thesis unfolding cb ht(1) take_plus_drop ht(2) bytes_in_def zb by (simp add: h_def t_def)
    qed
    then show ?thesis using True few re zb shb unfolding c by (simp add: joined_def same shape_ok_def)
  next
    case False
    then have e: "m_end b = m_zeroAreaEnd b" using ad by simp
    then have re': "real_end b = unat (m_zeroAreaStart b)" by (simp add: real_end_def)
    have "?p - unat (m_zeroAreaStart b) = zeros b + zeros r" using re re' by simp
    then show ?thesis using False few re re' shb e unfolding c cb
      by (simp add: joined_def same [unfolded e] shape_ok_def bytes_in_def replicate_add)
  qed
  then show "\<exists>b' M'. AddAtEnd_buffer r b M = Some (b', M') \<and>
        content M' b' = content M b @ replicate (zeros r) 0 @ take (unat k) (drop (real_end b) (m_octets d))"
    using ex by blast
qed

text \<open>Appending to a copy that still shares its block fails when the bytes fit the block.\<close>

lemma append_to_sharing_fails:
  assumes ok: "mem_ok M (add_mset b (add_mset r B)) R"
    and room: "size (refs (add_mset b (add_mset r B)) R) + 2 < 2 ^ 32"
    and d: "blocks M (m_data b) = Some d" and "m_data r = m_data b" and z: "m_zeroAreaStart b = m_zeroAreaEnd b"
    and fit: "extends_in_place (Buffer_GetSize r) b d"
  shows "AddAtEnd_buffer r b M = None"
proof -
  have adj: "\<not> adjacent_zeros b r d" using only_ref(2) [OF ok d, of r] assms(4) by (auto simp: adjacent_zeros_def)
  from become_full_copy_ok [OF ok room] obtain b1 M1 where b1: "become_full_copy b M = Some (b1, M1)"
    "if zeros b = 0 then alike b1 b \<and> blocks M1 (m_data b) = blocks M (m_data b) else m_data b1 \<notin># refs (add_mset r B) R" .
  have "zeros b = 0" using z by (simp add: zeros_def)
  then have al: "alike b1 b" and d1: "blocks M1 (m_data b1) = Some d" using b1(2) d alike_simps(1) by auto
  have e: "extends_in_place (Buffer_GetSize r) b1 d"
    using al fit by (simp add: extends_in_place_def alike_def GetInternalEnd_def)
  have "m_data b2 = m_data b1" if "AddAtEnd (Buffer_GetSize r) b1 M1 = Some (b2, M2)" for b2 M2
    using that d1 e by (auto simp: AddAtEnd_def extends_in_place_def Let_def with_block_def split: if_splits)
  then have "m_data b2 = m_data r" if "AddAtEnd (Buffer_GetSize r) b1 M1 = Some (b2, M2)" for b2 M2
    using that alike_simps(1) [OF al] assms(4) by metis
  then show ?thesis
    using d adj b1(1) by (cases "AddAtEnd (Buffer_GetSize r) b1 M1")
      (auto simp: AddAtEnd_buffer_def Prev_def Write_range_def End_def Begin_def)
qed

text \<open>C33: \<open>AddAtEnd\<close> of a buffer loses bytes on the path that joins two areas of zeros. In every reachable state,
  let the appended buffer start with zeros and end with \<open>k\<close> bytes that fit the block of the buffer that is extended:
  when the zeros, if they took memory, would push the \<open>k\<close> bytes out of the block, the append writes outside it; else, with
  at least \<open>k\<close> zeros, the result ends not with the \<open>k\<close> bytes but with what the block held behind the buffer.\<close>

theorem append_misplaces_trailer:
  assumes "buffer_run bs M xs" and "i < length bs" and "j < length bs" and "i \<noteq> j"
    and "length (xs ! i) + length (xs ! j) \<le> MAX_BYTES"
    and "blocks M (m_data (bs ! i)) = Some d" and "adjacent_zeros (bs ! i) (bs ! j) d"
  defines "k \<equiv> unat (m_end (bs ! j) - m_zeroAreaEnd (bs ! j))" and "used \<equiv> unat (GetInternalEnd (bs ! i))"
  assumes "0 < k" and "used + k \<le> unat (m_size d)"
  shows "if unat (m_size d) < unat (m_end (bs ! i)) + zeros (bs ! j) + k then exec (APPEND i j) (bs, M) = None
    else k \<le> zeros (bs ! i) + zeros (bs ! j) \<longrightarrow>
      (\<exists>bs' M'. exec (APPEND i j) (bs, M) = Some (bs', M') \<and>
         content M' (bs' ! i) = xs ! i @ replicate (zeros (bs ! j)) 0 @ take k (drop used (m_octets d)))"
proof -
  from buffer_run_ok [OF assms(1)] have ok: "mem_ok M (mset bs) {#}" and xs: "xs = map (content M) bs" by auto
  have "bs ! j \<in># mset (others i bs)" using nth_others assms(2-4) by simp
  then obtain B where "mset (others i bs) = add_mset (bs ! j) B" by (metis mset_add)
  then have ok2: "mem_ok M (add_mset (bs ! i) (add_mset (bs ! j) B)) {#}" using ok others_split(1) [OF assms(2)] by simp
  from fits_bounds [OF ok2] have "shape_ok (bs ! i)" by blast
  then have used: "used = real_end (bs ! i)" using internal_end by (simp add: used_def)
  have len: "length (content M (bs ! i)) + length (content M (bs ! j)) \<le> MAX_BYTES" using assms(2,3,5) by (simp add: xs)
  have "m_end (bs ! j) - m_zeroAreaEnd (bs ! j) \<noteq> 0" using assms(10) by (metis k_def less_irrefl unat_0)
  note c = content_behind_zeros [OF ok2 len assms(6,7) this, folded k_def, folded used, OF assms(11)]
  show ?thesis using c assms(2,3) by (fastforce simp: xs not_less)
qed


text \<open>A buffer of zeros, and one of two zeros and the bytes 7 and 8.\<close>

lemma zeros_run:
  fixes g :: "nat \<Rightarrow> nat \<Rightarrow> octet"
  assumes "n = 3 \<or> n = 100"
  shows "\<exists>bs M d. buffer_run bs M [replicate (unat n) 0, [0, 0, 7, 8]] \<and> length bs = 2 \<and>
    blocks M (m_data (bs ! 0)) = Some d \<and> adjacent_zeros (bs ! 0) (bs ! 1) d \<and> m_size d = 101 \<and>
    m_end (bs ! 1) - m_zeroAreaEnd (bs ! 1) = 2 \<and> zeros (bs ! 1) = 2 \<and> GetInternalEnd (bs ! 0) = 0 \<and>
    zeros (bs ! 0) = unat n \<and> m_end (bs ! 0) = n \<and> take 2 (m_octets d) = [g 0 0, g 0 1]"
proof -
  obtain s1 s2 bs M d where e: "exec (NEW n) ([], no_memory g) = Some s1" "exec (NEW 2) s1 = Some s2"
      "exec (ADD_AT_END 1 [7, 8]) s2 = Some (bs, M)" "length bs = 2"
    "blocks M (m_data (bs ! 0)) = Some d" "adjacent_zeros (bs ! 0) (bs ! 1) d" "m_size d = 101"
    "m_end (bs ! 1) - m_zeroAreaEnd (bs ! 1) = 2" "zeros (bs ! 1) = 2" "GetInternalEnd (bs ! 0) = 0"
    "zeros (bs ! 0) = unat n" "m_end (bs ! 0) = n" "take 2 (m_octets d) = [g 0 0, g 0 1]"
  proof -
    have "\<exists>s1 s2 bs M d. exec (NEW n) ([], no_memory g) = Some s1 \<and> exec (NEW 2) s1 = Some s2 \<and>
      exec (ADD_AT_END 1 [7, 8]) s2 = Some (bs, M) \<and> length bs = 2 \<and>
    blocks M (m_data (bs ! 0)) = Some d \<and> adjacent_zeros (bs ! 0) (bs ! 1) d \<and> m_size d = 101 \<and>
    m_end (bs ! 1) - m_zeroAreaEnd (bs ! 1) = 2 \<and> zeros (bs ! 1) = 2 \<and> GetInternalEnd (bs ! 0) = 0 \<and>
    zeros (bs ! 0) = unat n \<and> m_end (bs ! 0) = n \<and> take 2 (m_octets d) = [g 0 0, g 0 1]"
      using assms by (auto simp: buffer_eval zeros_def)
    then show ?thesis using that by blast
  qed
  obtain bs1 M1 bs2 M2 where s: "s1 = (bs1, M1)" "s2 = (bs2, M2)" by (cases s1, cases s2)
  have "unat n \<le> MAX_BYTES" using assms by (auto simp: MAX_BYTES_def)
  then have 1: "buffer_run bs1 M1 [replicate (unat n) 0]"
    using run_step [OF run_start _ e(1) [unfolded s]] by simp
  have 2: "buffer_run bs2 M2 [replicate (unat n) 0, [0, 0]]"
    using run_step [OF 1 _ e(2) [unfolded s]] by (simp add: MAX_BYTES_def replicate_2)
  from buffer_run_ok [OF this] have c: "map (content M2) bs2 = [replicate (unat n) 0, [0, 0]]" by blast
  have "length (map (content M2) bs2) = 2" unfolding c by simp
  then have "length bs2 = 2" by simp
  moreover have "content M2 (bs2 ! 1) = [0, 0]" using arg_cong [OF c, of "\<lambda>l. l ! 1"] calculation by simp
  ultimately have "allowed (ADD_AT_END 1 [7, 8]) (bs2, M2)" by (simp add: MAX_BYTES_def)
  from run_step [OF 2 this e(3) [unfolded s]] have "buffer_run bs M [replicate (unat n) 0, [0, 0, 7, 8]]" by simp
  then show ?thesis using e(4-) by blast
qed

text \<open>Behind three zeros the bytes 7 and 8 are replaced by what the memory held before; behind a hundred they are
  written outside the block.\<close>

theorem append_misplaces_trailer_witness:
  "(\<exists>bs M bs' M'. buffer_run bs M [[0, 0, 0], [0, 0, 7, 8]] \<and> exec (APPEND 0 1) (bs, M) = Some (bs', M') \<and>
      content M' (bs' ! 0) = [0, 0, 0, 0, 0, 9, 9]) \<and>
    (\<exists>bs M. buffer_run bs M [replicate 100 0, [0, 0, 7, 8]] \<and> exec (APPEND 0 1) (bs, M) = None)"
proof
  have r3: "replicate 3 (0 :: octet) = [0, 0, 0]" by (simp add: numeral_3_eq_3)
  obtain bs M d where r: "buffer_run bs M [replicate (unat (3 :: 32 word)) 0, [0, 0, 7, 8]]" "length bs = 2"
    "blocks M (m_data (bs ! 0)) = Some d" "adjacent_zeros (bs ! 0) (bs ! 1) d" "m_size d = 101"
    "m_end (bs ! 1) - m_zeroAreaEnd (bs ! 1) = 2" "zeros (bs ! 1) = 2" "GetInternalEnd (bs ! 0) = 0"
    "zeros (bs ! 0) = unat (3 :: 32 word)" "m_end (bs ! 0) = 3" "take 2 (m_octets d) = [9, 9]"
    using zeros_run [of 3 "\<lambda>_ _. 9"] by blast
  from append_misplaces_trailer [OF r(1) _ _ _ _ r(3,4)]
  have "\<exists>bs' M'. exec (APPEND 0 1) (bs, M) = Some (bs', M') \<and> content M' (bs' ! 0) = [0, 0, 0, 0, 0, 9, 9]"
    using r by (simp add: MAX_BYTES_def replicate_2 r3)
  moreover have "buffer_run bs M [[0, 0, 0], [0, 0, 7, 8]]" using r(1) by (simp add: r3)
  ultimately show "\<exists>bs M bs' M'. buffer_run bs M [[0, 0, 0], [0, 0, 7, 8]] \<and>
      exec (APPEND 0 1) (bs, M) = Some (bs', M') \<and> content M' (bs' ! 0) = [0, 0, 0, 0, 0, 9, 9]" by blast
next
  obtain bs M d where r: "buffer_run bs M [replicate (unat (100 :: 32 word)) 0, [0, 0, 7, 8]]" "length bs = 2"
    "blocks M (m_data (bs ! 0)) = Some d" "adjacent_zeros (bs ! 0) (bs ! 1) d" "m_size d = 101"
    "m_end (bs ! 1) - m_zeroAreaEnd (bs ! 1) = 2" "zeros (bs ! 1) = 2" "GetInternalEnd (bs ! 0) = 0"
    "zeros (bs ! 0) = unat (100 :: 32 word)" "m_end (bs ! 0) = 100"
    using zeros_run [of 100 "\<lambda>_ _. 9"] by blast
  from append_misplaces_trailer [OF r(1) _ _ _ _ r(3,4)]
  have "exec (APPEND 0 1) (bs, M) = None" using r by (simp add: MAX_BYTES_def del: exec.simps)
  then show "\<exists>bs M. buffer_run bs M [replicate 100 0, [0, 0, 7, 8]] \<and> exec (APPEND 0 1) (bs, M) = None"
    using r(1) by auto
qed

end
