(* ===== verification/Buffer_Codec.thy ===== *)
theory Buffer_Codec
  imports Packet_Buffer_Props
begin

text \<open>
  Reading and writing numbers and addresses at an iterator (\<open>network/model/buffer.cc\<close>,
  \<open>network/utils/address-utils.cc\<close>), and headers as \<open>network/model/packet.cc\<close> adds and removes them. The
  locale \<open>packet_header\<close> is what a protocol header promises: its size, the bytes it writes, and that it
  reads them back. Its lemmas say what adding and removing such a header does to a buffer.
\<close>

text \<open>One action after another.\<close>

definition writes :: "writer \<Rightarrow> writer \<Rightarrow> writer" where
  "writes w1 w2 it M = Option.bind (w1 it M) (\<lambda>(it, M). w2 it M)"

definition reads_then :: "'a reader \<Rightarrow> ('a \<Rightarrow> 'b reader) \<Rightarrow> 'b reader" where
  "reads_then r f M it = Option.bind (r M it) (\<lambda>(v, it). f v M it)"

definition returns :: "'a \<Rightarrow> 'a reader" where
  "returns v M it = Some (v, it)"

definition skip :: writer where
  "skip it M = Some (it, M)"

subsection \<open>Writing numbers\<close>

definition WriteU16 :: "16 word \<Rightarrow> writer" where
  "WriteU16 data = writes (WriteU8 (ucast (data AND 0xff))) (WriteU8 (ucast (drop_bit 8 data AND 0xff)))"

definition WriteU32 :: "32 word \<Rightarrow> writer" where
  "WriteU32 data =
     writes (WriteU8 (ucast (data AND 0xff)))
       (writes (WriteU8 (ucast (drop_bit 8 data AND 0xff)))
         (writes (WriteU8 (ucast (drop_bit 8 (drop_bit 8 data) AND 0xff)))
           (WriteU8 (ucast (drop_bit 8 (drop_bit 8 (drop_bit 8 data)) AND 0xff)))))"

definition WriteU64 :: "64 word \<Rightarrow> writer" where
  "WriteU64 data =
     writes (WriteU8 (ucast (data AND 0xff)))
       (writes (WriteU8 (ucast (drop_bit 8 data AND 0xff)))
         (writes (WriteU8 (ucast (drop_bit 8 (drop_bit 8 data) AND 0xff)))
           (writes (WriteU8 (ucast (drop_bit 8 (drop_bit 8 (drop_bit 8 data)) AND 0xff)))
             (writes (WriteU8 (ucast (drop_bit 8 (drop_bit 8 (drop_bit 8 (drop_bit 8 data))) AND 0xff)))
               (writes (WriteU8 (ucast (drop_bit 8 (drop_bit 8 (drop_bit 8 (drop_bit 8 (drop_bit 8 data)))) AND 0xff)))
                 (writes (WriteU8 (ucast (drop_bit 8 (drop_bit 8 (drop_bit 8 (drop_bit 8 (drop_bit 8 (drop_bit 8 data))))) AND 0xff)))
                   (WriteU8 (ucast (drop_bit 8 (drop_bit 8 (drop_bit 8 (drop_bit 8 (drop_bit 8 (drop_bit 8 (drop_bit 8 data)))))) AND 0xff)))))))))"

definition WriteHtolsbU16 :: "16 word \<Rightarrow> writer" where
  "WriteHtolsbU16 data = writes (WriteU8 (ucast (drop_bit 0 data AND 0xff))) (WriteU8 (ucast (drop_bit 8 data AND 0xff)))"

definition WriteHtolsbU32 :: "32 word \<Rightarrow> writer" where
  "WriteHtolsbU32 data =
     writes (WriteU8 (ucast (drop_bit 0 data AND 0xff)))
       (writes (WriteU8 (ucast (drop_bit 8 data AND 0xff)))
         (writes (WriteU8 (ucast (drop_bit 16 data AND 0xff)))
           (WriteU8 (ucast (drop_bit 24 data AND 0xff)))))"

definition WriteHtolsbU64 :: "64 word \<Rightarrow> writer" where
  "WriteHtolsbU64 data =
     writes (WriteU8 (ucast (drop_bit 0 data AND 0xff)))
       (writes (WriteU8 (ucast (drop_bit 8 data AND 0xff)))
         (writes (WriteU8 (ucast (drop_bit 16 data AND 0xff)))
           (writes (WriteU8 (ucast (drop_bit 24 data AND 0xff)))
             (writes (WriteU8 (ucast (drop_bit 32 data AND 0xff)))
               (writes (WriteU8 (ucast (drop_bit 40 data AND 0xff)))
                 (writes (WriteU8 (ucast (drop_bit 48 data AND 0xff)))
                   (WriteU8 (ucast (drop_bit 56 data AND 0xff)))))))))"

definition WriteHtonU64 :: "64 word \<Rightarrow> writer" where
  "WriteHtonU64 data =
     writes (WriteU8 (ucast (drop_bit 56 data AND 0xff)))
       (writes (WriteU8 (ucast (drop_bit 48 data AND 0xff)))
         (writes (WriteU8 (ucast (drop_bit 40 data AND 0xff)))
           (writes (WriteU8 (ucast (drop_bit 32 data AND 0xff)))
             (writes (WriteU8 (ucast (drop_bit 24 data AND 0xff)))
               (writes (WriteU8 (ucast (drop_bit 16 data AND 0xff)))
                 (writes (WriteU8 (ucast (drop_bit 8 data AND 0xff)))
                   (WriteU8 (ucast (drop_bit 0 data AND 0xff)))))))))"

definition WriteHtonU16 :: "16 word \<Rightarrow> writer" where
  "WriteHtonU16 data it M =
     (if CheckNoZero (m_current it) (m_current it + 2) it
      then put (m_current it + 2 \<le> m_zeroStart it)
             [ucast (drop_bit 8 data AND 0xff), ucast (drop_bit 0 data AND 0xff)] it M
      else None)"

definition WriteHtonU32 :: "32 word \<Rightarrow> writer" where
  "WriteHtonU32 data it M =
     (if CheckNoZero (m_current it) (m_current it + 4) it
      then put (m_current it + 4 \<le> m_zeroStart it)
             [ucast (drop_bit 24 data AND 0xff), ucast (drop_bit 16 data AND 0xff),
              ucast (drop_bit 8 data AND 0xff), ucast (drop_bit 0 data AND 0xff)] it M
      else None)"

subsection \<open>Reading numbers\<close>

text \<open>\<open>data <<= 8; data |= byte\<close>\<close>

definition shift_in :: "'a::len word \<Rightarrow> octet \<Rightarrow> 'a word" where
  "shift_in data byte = push_bit 8 data OR ucast byte"

definition ReadLsbtohU16 :: "16 word reader" where
  "ReadLsbtohU16 =
     reads_then ReadU8 (\<lambda>byte0. reads_then ReadU8 (\<lambda>byte1. returns (shift_in (ucast byte1) byte0)))"

definition ReadU16 :: "16 word reader" where
  "ReadU16 =
     reads_then ReadU8 (\<lambda>byte0. reads_then ReadU8 (\<lambda>byte1. returns (shift_in (ucast byte1) byte0)))"

definition ReadLsbtohU32 :: "32 word reader" where
  "ReadLsbtohU32 =
     reads_then ReadU8 (\<lambda>byte0. reads_then ReadU8 (\<lambda>byte1.
     reads_then ReadU8 (\<lambda>byte2. reads_then ReadU8 (\<lambda>byte3.
       returns (shift_in (shift_in (shift_in (ucast byte3) byte2) byte1) byte0)))))"

definition ReadU32 :: "32 word reader" where
  "ReadU32 =
     reads_then ReadU8 (\<lambda>byte0. reads_then ReadU8 (\<lambda>byte1.
     reads_then ReadU8 (\<lambda>byte2. reads_then ReadU8 (\<lambda>byte3.
       returns (shift_in (shift_in (shift_in (ucast byte3) byte2) byte1) byte0)))))"

definition ReadU64 :: "64 word reader" where
  "ReadU64 =
     reads_then ReadU8 (\<lambda>byte0. reads_then ReadU8 (\<lambda>byte1.
     reads_then ReadU8 (\<lambda>byte2. reads_then ReadU8 (\<lambda>byte3.
     reads_then ReadU8 (\<lambda>byte4. reads_then ReadU8 (\<lambda>byte5.
     reads_then ReadU8 (\<lambda>byte6. reads_then ReadU8 (\<lambda>byte7.
       returns (shift_in (shift_in (shift_in (shift_in (shift_in (shift_in (shift_in
         (ucast byte7) byte6) byte5) byte4) byte3) byte2) byte1) byte0)))))))))"

definition ReadLsbtohU64 :: "64 word reader" where
  "ReadLsbtohU64 =
     reads_then ReadU8 (\<lambda>byte0. reads_then ReadU8 (\<lambda>byte1.
     reads_then ReadU8 (\<lambda>byte2. reads_then ReadU8 (\<lambda>byte3.
     reads_then ReadU8 (\<lambda>byte4. reads_then ReadU8 (\<lambda>byte5.
     reads_then ReadU8 (\<lambda>byte6. reads_then ReadU8 (\<lambda>byte7.
       returns (shift_in (shift_in (shift_in (shift_in (shift_in (shift_in (shift_in
         (ucast byte7) byte6) byte5) byte4) byte3) byte2) byte1) byte0)))))))))"

definition SlowReadNtohU16 :: "16 word reader" where
  "SlowReadNtohU16 =
     reads_then ReadU8 (\<lambda>byte0. reads_then ReadU8 (\<lambda>byte1. returns (shift_in (0 OR ucast byte0) byte1)))"

definition SlowReadNtohU32 :: "32 word reader" where
  "SlowReadNtohU32 =
     reads_then ReadU8 (\<lambda>byte0. reads_then ReadU8 (\<lambda>byte1.
     reads_then ReadU8 (\<lambda>byte2. reads_then ReadU8 (\<lambda>byte3.
       returns (shift_in (shift_in (shift_in (0 OR ucast byte0) byte1) byte2) byte3)))))"

definition ReadNtohU64 :: "64 word reader" where
  "ReadNtohU64 =
     reads_then ReadU8 (\<lambda>byte0. reads_then ReadU8 (\<lambda>byte1.
     reads_then ReadU8 (\<lambda>byte2. reads_then ReadU8 (\<lambda>byte3.
     reads_then ReadU8 (\<lambda>byte4. reads_then ReadU8 (\<lambda>byte5.
     reads_then ReadU8 (\<lambda>byte6. reads_then ReadU8 (\<lambda>byte7.
       returns (shift_in (shift_in (shift_in (shift_in (shift_in (shift_in (shift_in
         (0 OR ucast byte0) byte1) byte2) byte3) byte4) byte5) byte6) byte7)))))))))"

text \<open>The fast paths read the block directly, without a check against the end of the data.\<close>

definition ReadNtohU16 :: "16 word reader" where
  "ReadNtohU16 M it =
     (if m_current it + 2 \<le> m_zeroStart it \<or> m_current it \<ge> m_zeroEnd it
      then Option.bind (load (it_data it) (real_pos (m_current it + 2 \<le> m_zeroStart it) it) 2 M)
             (\<lambda>buf. Some (shift_in (0 OR ucast (buf ! 0)) (buf ! 1), it\<lparr>m_current := m_current it + 2\<rparr>))
      else SlowReadNtohU16 M it)"

definition ReadNtohU32 :: "32 word reader" where
  "ReadNtohU32 M it =
     (if m_current it + 4 \<le> m_zeroStart it \<or> m_current it \<ge> m_zeroEnd it
      then Option.bind (load (it_data it) (real_pos (m_current it + 4 \<le> m_zeroStart it) it) 4 M)
             (\<lambda>buf. Some (shift_in (shift_in (shift_in (0 OR ucast (buf ! 0)) (buf ! 1)) (buf ! 2)) (buf ! 3),
                it\<lparr>m_current := m_current it + 4\<rparr>))
      else SlowReadNtohU32 M it)"

fun Read :: "nat \<Rightarrow> octet list reader" where
  "Read 0 = returns []"
| "Read (Suc n) = reads_then ReadU8 (\<lambda>b. reads_then (Read n) (\<lambda>bs. returns (b # bs)))"

subsection \<open>The Internet checksum\<close>

fun checksum_loop :: "nat \<Rightarrow> 32 word \<Rightarrow> 32 word reader" where
  "checksum_loop 0 acc = returns acc"
| "checksum_loop (Suc j) acc = reads_then ReadU16 (\<lambda>v. checksum_loop j (acc + ucast v))"

text \<open>\<open>while (sum >> 16)\<close>: two rounds are enough for any acc of 32 bits, a third changes nothing.\<close>

fun fold_carries :: "nat \<Rightarrow> 32 word \<Rightarrow> 32 word option" where
  "fold_carries 0 acc = None"
| "fold_carries (Suc fuel) acc =
     (if drop_bit 16 acc \<noteq> 0 then fold_carries fuel ((acc AND 0xffff) + drop_bit 16 acc) else Some acc)"

definition CalculateIpChecksum :: "16 word \<Rightarrow> 32 word \<Rightarrow> 16 word reader" where
  "CalculateIpChecksum sz initialChecksum =
     reads_then (checksum_loop (unat sz div 2) initialChecksum) (\<lambda>acc.
     reads_then (if sz AND 1 \<noteq> 0 then reads_then ReadU8 (\<lambda>b. returns (acc + ucast b)) else returns acc)
       (\<lambda>acc M it. Option.bind (fold_carries 4 acc) (\<lambda>acc. Some (ucast (NOT acc), it))))"

definition iterator_GetSize :: "iterator \<Rightarrow> 32 word" where
  "iterator_GetSize it = m_dataEnd it - m_dataStart it"

definition GetRemainingSize :: "iterator \<Rightarrow> 32 word" where
  "GetRemainingSize it = m_dataEnd it - m_current it"

subsection \<open>Addresses\<close>

type_synonym mac48 = "octet list"

definition WriteTo_mac48 :: "mac48 \<Rightarrow> writer" where
  "WriteTo_mac48 ad = Write ad"

definition ReadFrom_mac48 :: "mac48 reader" where
  "ReadFrom_mac48 = Read 6"

definition WriteTo_ipv4 :: "32 word \<Rightarrow> writer" where
  "WriteTo_ipv4 ad = WriteHtonU32 ad"

definition ReadFrom_ipv4 :: "32 word reader" where
  "ReadFrom_ipv4 = ReadNtohU32"

subsection \<open>Headers of a packet\<close>

text \<open>\<open>return i.GetDistanceFrom (start)\<close> at the end of \<open>Deserialize\<close>.\<close>

definition with_distance :: "'h reader \<Rightarrow> memory \<Rightarrow> iterator \<Rightarrow> ('h \<times> 32 word) option" where
  "with_distance r M start =
     Option.bind (r M start) (\<lambda>(h, i). map_option (Pair h) (GetDistanceFrom start i))"

definition AddHeader :: "32 word \<Rightarrow> writer \<Rightarrow> buffer \<Rightarrow> memory \<Rightarrow> (buffer \<times> memory) option" where
  "AddHeader serializedSize Serialize b M =
     do {
       (b, M) \<leftarrow> AddAtStart serializedSize b M;
       (_, M) \<leftarrow> Serialize (Begin b) M;
       Some (b, M)
     }"

definition RemoveHeader ::
  "(memory \<Rightarrow> iterator \<Rightarrow> ('h \<times> 32 word) option) \<Rightarrow> buffer \<Rightarrow> memory \<Rightarrow> ('h \<times> 32 word \<times> buffer) option" where
  "RemoveHeader Deserialize b M =
     do {
       (h, deserialized) \<leftarrow> Deserialize M (Begin b);
       b \<leftarrow> RemoveAtStart deserialized b;
       Some (h, deserialized, b)
     }"

definition PeekHeader :: "(memory \<Rightarrow> iterator \<Rightarrow> ('h \<times> 32 word) option) \<Rightarrow> buffer \<Rightarrow> memory \<Rightarrow> ('h \<times> 32 word) option" where
  "PeekHeader Deserialize b M = Deserialize M (Begin b)"


subsection \<open>What a writer writes\<close>

text \<open>There is room for \<open>k\<close> bytes at the iterator, before the zeros.\<close>

definition room_for :: "nat \<Rightarrow> iterator \<Rightarrow> memory \<Rightarrow> bool" where
  "room_for k it M \<longleftrightarrow>
     m_dataStart it \<le> m_current it \<and> unat (m_current it) + k \<le> unat (m_zeroStart it) \<and>
     m_zeroStart it \<le> m_zeroEnd it \<and> m_zeroEnd it \<le> m_dataEnd it \<and>
     (\<exists>d. blocks M (it_data it) = Some d \<and>
       unat (m_dataEnd it) - (unat (m_zeroEnd it) - unat (m_zeroStart it)) \<le> length (m_octets d))"

definition emits :: "writer \<Rightarrow> octet list \<Rightarrow> bool" where
  "emits w bs \<longleftrightarrow> (\<forall>it M. room_for (length bs) it M \<longrightarrow> w it M = put True bs it M)"

text \<open>The same for a writer that may leave the iterator elsewhere.\<close>

definition fills :: "writer \<Rightarrow> octet list \<Rightarrow> bool" where
  "fills w bs \<longleftrightarrow>
     (\<forall>it M. room_for (length bs) it M \<longrightarrow> map_option snd (w it M) = map_option snd (put True bs it M))"

lemma emits_fills: "emits w bs \<Longrightarrow> fills w bs"
  by (simp add: emits_def fills_def)

lemma store_here: "blocks M a = Some d \<Longrightarrow> off + length bs \<le> length (m_octets d) \<Longrightarrow>
    store a off bs M = Some (M\<lparr>blocks := (blocks M)(a \<mapsto> d\<lparr>m_octets := overwrite off bs (m_octets d)\<rparr>)\<rparr>)"
  by (simp add: store_def with_block_def) (cases d, simp)

text \<open>What \<open>put\<close> does where there is room.\<close>

lemma put_room:
  assumes "room_for k it M" and "length bs \<le> k"
  obtains d where "blocks M (it_data it) = Some d"
    and "put True bs it M = Some (it\<lparr>m_current := m_current it + of_nat (length bs)\<rparr>,
      M\<lparr>blocks := (blocks M)(it_data it \<mapsto> d\<lparr>m_octets := overwrite (unat (m_current it)) bs (m_octets d)\<rparr>)\<rparr>)"
    and "unat (m_current it) + k \<le> length (m_octets d)"
    and "unat (m_current it + of_nat (length bs)) = unat (m_current it) + length bs"
    and "room_for (k - length bs) (it\<lparr>m_current := m_current it + of_nat (length bs)\<rparr>)
      (M\<lparr>blocks := (blocks M)(it_data it \<mapsto> d\<lparr>m_octets := overwrite (unat (m_current it)) bs (m_octets d)\<rparr>)\<rparr>)"
proof -
  from assms(1) obtain d where d: "blocks M (it_data it) = Some d"
      "unat (m_dataEnd it) - (unat (m_zeroEnd it) - unat (m_zeroStart it)) \<le> length (m_octets d)"
    and r: "m_dataStart it \<le> m_current it" "unat (m_current it) + k \<le> unat (m_zeroStart it)"
      "m_zeroStart it \<le> m_zeroEnd it" "m_zeroEnd it \<le> m_dataEnd it"
    unfolding room_for_def by blast
  have "unat (m_zeroStart it) \<le> unat (m_zeroEnd it)" "unat (m_zeroEnd it) \<le> unat (m_dataEnd it)"
    using r by (simp_all add: word_le_nat_alt)
  have zs: "unat (m_zeroStart it) < 2 ^ 32" using unsigned_less [of "m_zeroStart it"] by simp
  then have lb: "unat (of_nat (length bs) :: 32 word) = length bs"
    using r(2) assms(2) by (intro nat_word32) linarith
  have cu: "unat (m_current it + of_nat (length bs)) = unat (m_current it) + length bs"
    using lb r(2) assms(2) zs by (subst unat_plus) simp_all
  have le: "unat (m_current it) + k \<le> length (m_octets d)" 
    using r(2) d(2) \<open>unat (m_zeroStart it) \<le> unat (m_zeroEnd it)\<close> \<open>unat (m_zeroEnd it) \<le> unat (m_dataEnd it)\<close>
    by linarith
  then have st: "store (it_data it) (unat (m_current it)) bs M =
      Some (M\<lparr>blocks := (blocks M)(it_data it \<mapsto> d\<lparr>m_octets := overwrite (unat (m_current it)) bs (m_octets d)\<rparr>)\<rparr>)"
    using d(1) assms(2) by (intro store_here) linarith+
  have "m_dataStart it \<le> m_current it + of_nat (length bs)"
    using r(1) cu by (simp add: word_le_nat_alt)
  then have ro: "room_for (k - length bs) (it\<lparr>m_current := m_current it + of_nat (length bs)\<rparr>)
      (M\<lparr>blocks := (blocks M)(it_data it \<mapsto> d\<lparr>m_octets := overwrite (unat (m_current it)) bs (m_octets d)\<rparr>)\<rparr>)"
    using r cu assms(2) d(2) le by (simp add: room_for_def length_overwrite)
  show thesis
    using that [OF d(1) _ le cu ro] st by (simp add: put_def real_pos_def)
qed

lemma emits_skip [intro]: "emits skip []"
  unfolding emits_def
proof (intro allI impI)
  fix it M assume "room_for (length ([] :: octet list)) it M"
  from put_room [OF this, of "[]"] obtain d where
    "blocks M (it_data it) = Some d" "put True [] it M = Some (it\<lparr>m_current := m_current it + of_nat (length ([] :: octet list))\<rparr>,
      M\<lparr>blocks := (blocks M)(it_data it \<mapsto> d\<lparr>m_octets := overwrite (unat (m_current it)) [] (m_octets d)\<rparr>)\<rparr>)" by blast
  then show "skip it M = put True [] it M"
    by (cases M; cases d; cases it) (simp add: skip_def overwrite_def fun_upd_idem)
qed

lemma emits_writes:
  assumes 1: "emits w1 xs" and 2: "emits w2 ys"
  shows "emits (writes w1 w2) (xs @ ys)"
  unfolding emits_def
proof (intro allI impI)
  fix it M assume room: "room_for (length (xs @ ys)) it M"
  then have "room_for (length xs) it M" unfolding room_for_def by auto
  with 1 have w1: "w1 it M = put True xs it M" by (simp add: emits_def)
  let ?it = "it\<lparr>m_current := m_current it + of_nat (length xs)\<rparr>"
  let ?M = "\<lambda>d. M\<lparr>blocks := (blocks M)(it_data it \<mapsto> d\<lparr>m_octets := overwrite (unat (m_current it)) xs (m_octets d)\<rparr>)\<rparr>"
  from put_room [OF room, of xs] obtain d where d: "blocks M (it_data it) = Some d"
    and p: "put True xs it M = Some (?it, ?M d)"
    and le: "unat (m_current it) + length (xs @ ys) \<le> length (m_octets d)"
    and cu: "unat (m_current it + of_nat (length xs)) = unat (m_current it) + length xs"
    and ro: "room_for (length (xs @ ys) - length xs) ?it (?M d)" by auto
  have "w2 ?it (?M d) = put True ys ?it (?M d)" using 2 ro by (simp add: emits_def)
  moreover from put_room [OF room, of "xs @ ys"] d have
    "put True (xs @ ys) it M = Some (it\<lparr>m_current := m_current it + of_nat (length (xs @ ys))\<rparr>,
      M\<lparr>blocks := (blocks M)(it_data it \<mapsto> d\<lparr>m_octets := overwrite (unat (m_current it)) (xs @ ys) (m_octets d)\<rparr>)\<rparr>)" by auto
  moreover from put_room [OF ro, of ys] have "put True ys ?it (?M d) = Some (it\<lparr>m_current := m_current it + of_nat (length (xs @ ys))\<rparr>,
      M\<lparr>blocks := (blocks M)(it_data it \<mapsto> d\<lparr>m_octets := overwrite (unat (m_current it)) (xs @ ys) (m_octets d)\<rparr>)\<rparr>)"
    using le by (auto simp: cu overwrite_twice add.assoc)
  ultimately show "writes w1 w2 it M = put True (xs @ ys) it M"
    using w1 p by (simp add: writes_def)
qed


lemma room_forD:
  assumes "room_for k it M"
  shows "m_dataStart it \<le> m_current it" "unat (m_current it) + k \<le> unat (m_zeroStart it)"
    "m_zeroStart it \<le> m_zeroEnd it" "m_zeroEnd it \<le> m_dataEnd it" "k < 2 ^ 32"
    "n \<le> k \<Longrightarrow> unat (m_current it + of_nat n) = unat (m_current it) + n"
    "unat (m_zeroStart it) \<le> unat (m_dataEnd it)"
proof -
  show "m_dataStart it \<le> m_current it" "m_zeroStart it \<le> m_zeroEnd it" "m_zeroEnd it \<le> m_dataEnd it"
    using assms by (simp_all add: room_for_def)
  then show "unat (m_zeroStart it) \<le> unat (m_dataEnd it)" by (simp add: word_le_nat_alt)
  show zs: "unat (m_current it) + k \<le> unat (m_zeroStart it)" using assms by (simp add: room_for_def)
  have "unat (m_zeroStart it) < 2 ^ 32" using unsigned_less [of "m_zeroStart it"] by simp
  then show "k < 2 ^ 32" using zs by linarith
  show "unat (m_current it + of_nat n) = unat (m_current it) + n" if "n \<le> k"
  proof -
    have "unat (of_nat n :: 32 word) = n" using that \<open>k < 2 ^ 32\<close> by (intro nat_word32) linarith
    then show ?thesis using zs that \<open>unat (m_zeroStart it) < 2 ^ 32\<close> by (subst unat_plus) simp_all
  qed
qed

lemma emits_WriteU8 [intro]: "emits (WriteU8 x) [x]"
  unfolding emits_def
proof (intro allI impI)
  fix it M assume "room_for (length [x]) it M"
  from room_forD [OF this] have "m_dataStart it \<le> m_current it" "m_current it < m_zeroStart it" "m_zeroStart it \<le> m_dataEnd it"
    by (auto simp: word_less_nat_alt)
  then show "WriteU8 x it M = put True [x] it M" by (auto simp: WriteU8_def Check_def)
qed

lemma emits_Write [intro]: "emits (Write bs) bs"
  unfolding emits_def
proof (intro allI impI)
  fix it M assume r: "room_for (length bs) it M"
  from room_forD(1,2,5,7) [OF r] have f: "m_dataStart it \<le> m_current it"
    "unat (m_current it) + length bs \<le> unat (m_zeroStart it)" "length bs < 2 ^ 32"
    "unat (m_zeroStart it) \<le> unat (m_dataEnd it)" .
  have "unat (of_nat (length bs) :: 32 word) = length bs" using f(3) by (rule nat_word32)
  then have "CheckNoZero (m_current it) (of_nat (length bs)) it" "m_current it \<le> m_zeroStart it"
    using f(1,2,4) by (auto simp: CheckNoZero_def word_le_nat_alt word_less_nat_alt not_less)
  then show "Write bs it M = put True bs it M" by (simp add: Write_def)
qed

lemma emits_checked:
  assumes "length bs = n" and "\<And>it M. w it M =
    (if CheckNoZero (m_current it) (m_current it + of_nat n) it then put (m_current it + of_nat n \<le> m_zeroStart it) bs it M else None)"
  shows "emits w bs"
  unfolding emits_def
proof (intro allI impI)
  fix it M assume r: "room_for (length bs) it M"
  from room_forD(1,2,6,7) [OF r] have f: "m_dataStart it \<le> m_current it"
    "unat (m_current it) + n \<le> unat (m_zeroStart it)" "unat (m_current it + of_nat n) = unat (m_current it) + n"
    "unat (m_zeroStart it) \<le> unat (m_dataEnd it)" using assms(1) by auto
  then have "CheckNoZero (m_current it) (m_current it + of_nat n) it" "m_current it + of_nat n \<le> m_zeroStart it"
    by (auto simp: CheckNoZero_def word_le_nat_alt word_less_nat_alt not_less)
  then show "w it M = put True bs it M" by (simp add: assms(2))
qed

text \<open>The bytes of a number, the first one the least or the most significant.\<close>

definition lsb_bytes :: "nat \<Rightarrow> 'a::len word \<Rightarrow> octet list" where
  "lsb_bytes n x = map (\<lambda>k. ucast (drop_bit (8 * k) x)) [0..<n]"

definition msb_bytes :: "nat \<Rightarrow> 'a::len word \<Rightarrow> octet list" where
  "msb_bytes n x = rev (lsb_bytes n x)"

lemma bytes_lsb_length [simp]: "length (lsb_bytes n x) = n" "length (msb_bytes n x) = n"
  by (simp_all add: lsb_bytes_def msb_bytes_def)

lemma ucast_octet [simp]: "(ucast (x AND 0xff) :: octet) = ucast (x :: 'a::len word)"
proof -
  have *: "(0xff :: 'a word) = mask 8" by (simp add: mask_eq_exp_minus_1)
  show ?thesis unfolding * by (intro bit_word_eqI) (auto simp: bit_simps dest: bit_imp_le_length)
qed

lemma bytes_16:
  "lsb_bytes 2 (x :: 16 word) = [ucast x, ucast (drop_bit 8 x)]"
  "msb_bytes 2 (x :: 16 word) = [ucast (drop_bit 8 x), ucast x]"
  by (simp_all add: lsb_bytes_def msb_bytes_def numeral_2_eq_2)

lemma bytes_32:
  "lsb_bytes 4 (y :: 32 word) = [ucast y, ucast (drop_bit 8 y), ucast (drop_bit 16 y), ucast (drop_bit 24 y)]"
  "msb_bytes 4 (y :: 32 word) = [ucast (drop_bit 24 y), ucast (drop_bit 16 y), ucast (drop_bit 8 y), ucast y]"
  by (simp_all add: lsb_bytes_def msb_bytes_def upt_rec)

lemma bytes_0: "msb_bytes 2 (0 :: 16 word) = lsb_bytes 2 (0 :: 16 word)"
  by (simp add: bytes_16)

lemma bytes_64:
  "lsb_bytes 8 (z :: 64 word) = [ucast z, ucast (drop_bit 8 z), ucast (drop_bit 16 z), ucast (drop_bit 24 z),
     ucast (drop_bit 32 z), ucast (drop_bit 40 z), ucast (drop_bit 48 z), ucast (drop_bit 56 z)]"
  "msb_bytes 8 (z :: 64 word) = [ucast (drop_bit 56 z), ucast (drop_bit 48 z), ucast (drop_bit 40 z),
     ucast (drop_bit 32 z), ucast (drop_bit 24 z), ucast (drop_bit 16 z), ucast (drop_bit 8 z), ucast z]"
  by (simp_all add: lsb_bytes_def msb_bytes_def upt_rec)

lemma emits_WriteU8s: "emits w ys \<Longrightarrow> emits (writes (WriteU8 x) w) (x # ys)"
  using emits_writes [OF emits_WriteU8, of w ys x] by simp

lemma emits_numbers [intro]:
  "emits (WriteU16 x) (lsb_bytes 2 x)" "emits (WriteHtolsbU16 x) (lsb_bytes 2 x)"
  "emits (WriteU32 y) (lsb_bytes 4 y)" "emits (WriteHtolsbU32 y) (lsb_bytes 4 y)"
  "emits (WriteHtolsbU64 z) (lsb_bytes 8 z)" "emits (WriteU64 z) (lsb_bytes 8 z)" "emits (WriteHtonU64 z) (msb_bytes 8 z)"
  "emits (WriteHtonU16 x) (msb_bytes 2 x)" "emits (WriteHtonU32 y) (msb_bytes 4 y)"
  unfolding WriteU16_def WriteHtolsbU16_def WriteU32_def WriteHtolsbU32_def WriteHtolsbU64_def WriteHtonU64_def WriteU64_def
    bytes_16 bytes_32 bytes_64
  by (auto intro!: emits_WriteU8s)
    (rule emits_checked [where n = 2], simp_all add: WriteHtonU16_def,
      rule emits_checked [where n = 4], simp_all add: WriteHtonU32_def)


subsection \<open>What a reader reads\<close>

definition octet_at :: "data_block \<Rightarrow> iterator \<Rightarrow> nat \<Rightarrow> octet" where
  "octet_at d it p =
     (if p < unat (m_zeroStart it) then m_octets d ! p
      else if p < unat (m_zeroEnd it) then 0
      else m_octets d ! (p - (unat (m_zeroEnd it) - unat (m_zeroStart it))))"

text \<open>The bytes \<open>bs\<close> follow at the iterator.\<close>

definition ahead :: "octet list \<Rightarrow> memory \<Rightarrow> iterator \<Rightarrow> bool" where
  "ahead bs M it \<longleftrightarrow>
     m_dataStart it \<le> m_current it \<and> unat (m_current it) + length bs \<le> unat (m_dataEnd it) \<and>
     m_zeroStart it \<le> m_zeroEnd it \<and> m_zeroEnd it \<le> m_dataEnd it \<and>
     (\<exists>d. blocks M (it_data it) = Some d \<and>
       unat (m_dataEnd it) - (unat (m_zeroEnd it) - unat (m_zeroStart it)) \<le> length (m_octets d) \<and>
       (\<forall>k<length bs. octet_at d it (unat (m_current it) + k) = bs ! k))"

definition parses :: "'a reader \<Rightarrow> octet list \<Rightarrow> 'a \<Rightarrow> bool" where
  "parses r bs v \<longleftrightarrow>
     (\<forall>M it. ahead bs M it \<longrightarrow> r M it = Some (v, it\<lparr>m_current := m_current it + of_nat (length bs)\<rparr>))"

lemma octet_at_current [simp]: "octet_at d (it\<lparr>m_current := c\<rparr>) = octet_at d it"
  by (simp add: octet_at_def fun_eq_iff)

lemma ahead_step:
  assumes "ahead bs M it" and "n \<le> length bs"
  shows "unat (m_current it + of_nat n) = unat (m_current it) + n"
    and "ahead (drop n bs) M (it\<lparr>m_current := m_current it + of_nat n\<rparr>)"
    and "ahead (take n bs) M it"
proof -
  have de: "unat (m_dataEnd it) < 2 ^ 32" using unsigned_less [of "m_dataEnd it"] by simp
  have le: "unat (m_current it) + length bs \<le> unat (m_dataEnd it)" "m_dataStart it \<le> m_current it"
    using assms(1) by (simp_all add: ahead_def)
  have "unat (of_nat n :: 32 word) = n" using assms(2) le de by (intro nat_word32) linarith
  then show u: "unat (m_current it + of_nat n) = unat (m_current it) + n"
    using assms(2) le de by (subst unat_plus) simp_all
  have "m_dataStart it \<le> m_current it + of_nat n" using le(2) u by (simp add: word_le_nat_alt)
  then show "ahead (drop n bs) M (it\<lparr>m_current := m_current it + of_nat n\<rparr>)"
    using assms le u by (auto simp: ahead_def add.assoc)
  show "ahead (take n bs) M it" using assms le by (auto simp: ahead_def)
qed

lemma Next_ahead:
  assumes "ahead bs M it" and "n \<le> length bs"
  shows "Next (of_nat n) it = Some (it\<lparr>m_current := m_current it + of_nat n\<rparr>)"
  using ahead_step(1) [OF assms] assms by (simp add: Next_def word_le_nat_alt ahead_def)

lemma parses_returns [intro]: "parses (returns v) [] v"
  by (simp add: parses_def returns_def)

lemma parses_then [intro]:
  assumes 1: "parses r xs v" and 2: "parses (f v) ys w"
  shows "parses (reads_then r f) (xs @ ys) w"
  unfolding parses_def
proof (intro allI impI)
  fix M it assume a: "ahead (xs @ ys) M it"
  from ahead_step(2,3) [OF a, of "length xs"] 1 2
  show "reads_then r f M it = Some (w, it\<lparr>m_current := m_current it + of_nat (length (xs @ ys))\<rparr>)"
    by (simp add: parses_def reads_then_def add.assoc)
qed

lemma parses_ReadU8 [intro]: "parses ReadU8 [x] x"
  unfolding parses_def
proof (intro allI impI)
  fix M it assume a: "ahead [x] M it"
  then obtain d where d: "blocks M (it_data it) = Some d"
    "unat (m_dataEnd it) - (unat (m_zeroEnd it) - unat (m_zeroStart it)) \<le> length (m_octets d)"
    "octet_at d it (unat (m_current it)) = x"
    and r: "m_dataStart it \<le> m_current it" "unat (m_current it) < unat (m_dataEnd it)"
      "unat (m_zeroStart it) \<le> unat (m_zeroEnd it)" "unat (m_zeroEnd it) \<le> unat (m_dataEnd it)"
    by (auto simp: ahead_def word_le_nat_alt)
  have h: "hd (take (Suc 0) (drop p xs)) = xs ! p" "hd (drop p xs) = xs ! p" if "p < length xs" for p and xs :: "octet list"
    using that by (simp_all add: hd_conv_nth)
  have zz: "unat (m_zeroEnd it - m_zeroStart it) = unat (m_zeroEnd it) - unat (m_zeroStart it)"
    using r(3) by (simp add: unat_minus)
  have "PeekU8 M it = Some x"
  proof (cases "m_current it < m_zeroEnd it")
    case True
    then show ?thesis using d r
      by (auto simp: PeekU8_def load_def real_pos_def octet_at_def word_less_nat_alt h)
  next
    case False
    then have "unat (m_current it - (m_zeroEnd it - m_zeroStart it)) =
        unat (m_current it) - (unat (m_zeroEnd it) - unat (m_zeroStart it))"
      using r(3) zz by (subst unat_minus) (simp_all add: word_less_nat_alt)
    then show ?thesis using d r False
      by (auto simp: PeekU8_def load_def real_pos_def octet_at_def word_less_nat_alt h)
  qed
  then show "ReadU8 M it = Some (x, it\<lparr>m_current := m_current it + of_nat (length [x])\<rparr>)"
    by (simp add: ReadU8_def)
qed


lemma put_ahead:
  assumes r: "room_for (length bs) it M" and p: "put True bs it M = Some (it', M')"
  shows "ahead bs M' it"
proof -
  have sh: "m_dataStart it \<le> m_current it" "unat (m_current it) + length bs \<le> unat (m_zeroStart it)"
      "m_zeroStart it \<le> m_zeroEnd it" "m_zeroEnd it \<le> m_dataEnd it" "unat (m_zeroStart it) \<le> unat (m_dataEnd it)"
    using room_forD [OF r] by blast+
  from r obtain d where d: "blocks M (it_data it) = Some d"
      "unat (m_dataEnd it) - (unat (m_zeroEnd it) - unat (m_zeroStart it)) \<le> length (m_octets d)"
    unfolding room_for_def by blast
  from put_room [OF r, of bs] p d(1) have
    M': "M' = M\<lparr>blocks := (blocks M)(it_data it \<mapsto> d\<lparr>m_octets := overwrite (unat (m_current it)) bs (m_octets d)\<rparr>)\<rparr>"
    and le: "unat (m_current it) + length bs \<le> length (m_octets d)" by auto
  have "overwrite (unat (m_current it)) bs (m_octets d) ! (unat (m_current it) + k) = bs ! k" if "k < length bs" for k
    using that le by (simp add: overwrite_def nth_append)
  then show ?thesis
    using sh d(2) le by (auto simp: M' ahead_def octet_at_def length_overwrite)
qed

lemma parses_last: "parses r xs v \<Longrightarrow> parses (f v) [] w \<Longrightarrow> parses (reads_then r f) xs w"
  using parses_then [of r xs v f "[]" w] by simp

lemma parses_returns_eq: "v = w \<Longrightarrow> parses (returns v) [] w"
  by (simp add: parses_returns)

lemma parses_ReadU8s: "parses (f x) ys w \<Longrightarrow> parses (reads_then ReadU8 f) (x # ys) w"
  using parses_then [OF parses_ReadU8, of f x ys w] by simp

text \<open>Writing a part of what has been written again.\<close>

lemma overwrite_part:
  "off + length (xs @ ys @ zs) \<le> length os \<Longrightarrow> length ys' = length ys \<Longrightarrow>
     overwrite (off + length xs) ys' (overwrite off (xs @ ys @ zs) os) = overwrite off (xs @ ys' @ zs) os"
  by (simp add: overwrite_def add.assoc)

lemma put_again:
  assumes r: "room_for (length (xs @ ys @ zs)) it M" and p: "put True (xs @ ys @ zs) it M = Some (it1, M1)"
    and l: "length ys' = length ys"
  shows "room_for (length ys') (it\<lparr>m_current := m_current it + of_nat (length xs)\<rparr>) M1"
    and "map_option snd (put True ys' (it\<lparr>m_current := m_current it + of_nat (length xs)\<rparr>) M1) =
      map_option snd (put True (xs @ ys' @ zs) it M)"
proof -
  let ?c = "unat (m_current it)"
  let ?it = "it\<lparr>m_current := m_current it + of_nat (length xs)\<rparr>"
  let ?M = "\<lambda>d bs. M\<lparr>blocks := (blocks M)(it_data it \<mapsto> d\<lparr>m_octets := overwrite ?c bs (m_octets d)\<rparr>)\<rparr>"
  from put_room [OF r, of "xs @ ys @ zs"] p obtain d where d: "blocks M (it_data it) = Some d"
    and M1: "M1 = ?M d (xs @ ys @ zs)" and le: "?c + length (xs @ ys @ zs) \<le> length (m_octets d)" by auto
  have cu: "unat (m_current ?it) = ?c + length xs" using room_forD(6) [OF r, of "length xs"] by simp
  have "m_dataStart it \<le> m_current ?it" using room_forD(1) [OF r] cu by (simp add: word_le_nat_alt)
  moreover have "unat (m_current ?it) + length ys' \<le> unat (m_zeroStart it)"
    using room_forD(2) [OF r] cu l by simp
  ultimately show ro: "room_for (length ys') ?it M1"
    using r d le by (simp add: room_for_def M1 length_overwrite)
  have o: "overwrite (?c + length xs) ys' (overwrite ?c (xs @ ys @ zs) (m_octets d)) = overwrite ?c (xs @ ys' @ zs) (m_octets d)"
    using le l by (rule overwrite_part)
  from put_room [OF ro order_refl] obtain d' where d': "blocks M1 (it_data ?it) = Some d'"
    and p': "put True ys' ?it M1 = Some (?it\<lparr>m_current := m_current ?it + of_nat (length ys')\<rparr>,
      M1\<lparr>blocks := (blocks M1)(it_data ?it \<mapsto> d'\<lparr>m_octets := overwrite (unat (m_current ?it)) ys' (m_octets d')\<rparr>)\<rparr>)" .
  have "d' = d\<lparr>m_octets := overwrite ?c (xs @ ys @ zs) (m_octets d)\<rparr>" using d' by (simp add: M1)
  then have 1: "map_option snd (put True ys' ?it M1) = Some (?M d (xs @ ys' @ zs))"
    unfolding p' using o cu by (simp add: M1)
  have "length (xs @ ys' @ zs) \<le> length (xs @ ys @ zs)" using l by simp
  from put_room [OF r this] obtain e where "blocks M (it_data it) = Some e"
    "put True (xs @ ys' @ zs) it M = Some (it\<lparr>m_current := m_current it + of_nat (length (xs @ ys' @ zs))\<rparr>, ?M e (xs @ ys' @ zs))" .
  then show "map_option snd (put True ys' ?it M1) = map_option snd (put True (xs @ ys' @ zs) it M)"
    using 1 d by simp
qed

text \<open>Reading a byte, going back and reading it again.\<close>

lemma parses_again:
  assumes "parses (f x x) ys w"
  shows "parses (reads_then ReadU8 (\<lambda>a. reads_then (\<lambda>M i. map_option (Pair ()) (Prev 1 i)) (\<lambda>_. reads_then ReadU8 (f a)))) (x # ys) w"
  unfolding parses_def
proof (intro allI impI)
  fix M it assume a: "ahead (x # ys) M it"
  have u: "ReadU8 M it = Some (x, it\<lparr>m_current := m_current it + 1\<rparr>)"
    using parses_ReadU8 [of x] ahead_step(3) [OF a, of 1] by (simp add: parses_def)
  have "unat (m_current it + 1) = unat (m_current it) + 1" using ahead_step(1) [OF a, of 1] by simp
  then have "Prev 1 (it\<lparr>m_current := m_current it + 1\<rparr>) = Some it" by (simp add: Prev_def word_le_nat_alt)
  moreover have "f x x M (it\<lparr>m_current := m_current it + 1\<rparr>) = Some (w, it\<lparr>m_current := m_current it + 1 + of_nat (length ys)\<rparr>)"
    using assms ahead_step(2) [OF a, of 1] by (simp add: parses_def)
  ultimately show "reads_then ReadU8 (\<lambda>a. reads_then (\<lambda>M i. map_option (Pair ()) (Prev 1 i)) (\<lambda>_. reads_then ReadU8 (f a))) M it =
      Some (w, it\<lparr>m_current := m_current it + of_nat (length (x # ys))\<rparr>)"
    using u by (simp add: reads_then_def add.assoc)
qed

lemma load_ahead:
  assumes a: "ahead bs M it"
    and w: "if before then unat (m_current it) + length bs \<le> unat (m_zeroStart it)
            else unat (m_zeroEnd it) \<le> unat (m_current it)"
  shows "load (it_data it) (real_pos before it) (length bs) M = Some bs"
proof -
  from a obtain d where d: "blocks M (it_data it) = Some d"
    "unat (m_dataEnd it) - (unat (m_zeroEnd it) - unat (m_zeroStart it)) \<le> length (m_octets d)"
    "\<And>k. k < length bs \<Longrightarrow> octet_at d it (unat (m_current it) + k) = bs ! k"
    and r: "unat (m_current it) + length bs \<le> unat (m_dataEnd it)"
      "unat (m_zeroStart it) \<le> unat (m_zeroEnd it)" "unat (m_zeroEnd it) \<le> unat (m_dataEnd it)"
    by (auto simp: ahead_def word_le_nat_alt)
  let ?z = "unat (m_zeroEnd it) - unat (m_zeroStart it)"
  have p: "real_pos before it = (if before then unat (m_current it) else unat (m_current it) - ?z)"
    using w r by (auto simp: real_pos_def unat_minus)
  have le: "real_pos before it + length bs \<le> length (m_octets d)" using w d(2) r p by (auto split: if_splits)
  have "take (length bs) (drop (real_pos before it) (m_octets d)) = bs"
  proof (rule nth_equalityI)
    fix k assume "k < length (take (length bs) (drop (real_pos before it) (m_octets d)))"
    then have k: "k < length bs" by simp
    have "octet_at d it (unat (m_current it) + k) = m_octets d ! (real_pos before it + k)"
      using w p k r by (cases before) (simp_all add: octet_at_def, simp add: algebra_simps)
    then show "take (length bs) (drop (real_pos before it) (m_octets d)) ! k = bs ! k"
      using d(3) [OF k] k le by simp
  qed (use le in simp)
  then show ?thesis using d(1) le by (simp add: load_def)
qed

text \<open>Putting the bytes of a number together again.\<close>

lemma join_16: "shift_in (ucast (ucast (drop_bit 8 x) :: octet)) (ucast x) = (x :: 16 word)"
  by (rule bit_word_eqI) (auto simp: shift_in_def bit_simps)

lemma join_32: "shift_in (shift_in (shift_in (ucast (ucast (drop_bit 24 y) :: octet)) (ucast (drop_bit 16 y)))
    (ucast (drop_bit 8 y))) (ucast y) = (y :: 32 word)" (is "?l = y")
proof (rule bit_word_eqI)
  fix n assume "n < LENGTH(32)"
  then have "n < 8 \<or> n \<in> {8..<16} \<or> n \<in> {16..<24} \<or> n \<in> {24..<32}" by auto
  then show "bit ?l n = bit y n" by (elim disjE) (auto simp: shift_in_def bit_simps)
qed

lemma join_64:
  "shift_in (shift_in (shift_in (shift_in (shift_in (shift_in (shift_in (ucast (ucast (drop_bit 56 z) :: octet))
     (ucast (drop_bit 48 z))) (ucast (drop_bit 40 z))) (ucast (drop_bit 32 z))) (ucast (drop_bit 24 z)))
     (ucast (drop_bit 16 z))) (ucast (drop_bit 8 z))) (ucast z) = (z :: 64 word)" (is "?l = z")
proof (rule bit_word_eqI)
  fix n assume "n < LENGTH(64)"
  then have "n < 8 \<or> n \<in> {8..<16} \<or> n \<in> {16..<24} \<or> n \<in> {24..<32} \<or> n \<in> {32..<40} \<or> n \<in> {40..<48} \<or>
      n \<in> {48..<56} \<or> n \<in> {56..<64}" by auto
  then show "bit ?l n = bit z n"
    by (elim disjE) (auto simp: shift_in_def bit_simps)
qed

lemma parses_slow:
  "parses SlowReadNtohU16 (msb_bytes 2 x) x" "parses SlowReadNtohU32 (msb_bytes 4 y) y"
  unfolding SlowReadNtohU16_def SlowReadNtohU32_def bytes_16 bytes_32
  using parses_returns [of x] parses_returns [of y] by (auto intro!: parses_ReadU8s simp: join_16 join_32)

lemma parses_numbers [intro]:
  "parses ReadU16 (lsb_bytes 2 x) x" "parses ReadLsbtohU16 (lsb_bytes 2 x) x"
  "parses ReadU32 (lsb_bytes 4 y) y" "parses ReadLsbtohU32 (lsb_bytes 4 y) y"
  "parses ReadLsbtohU64 (lsb_bytes 8 z) z" "parses ReadU64 (lsb_bytes 8 z) z" "parses ReadNtohU64 (msb_bytes 8 z) z"
  unfolding ReadU16_def ReadLsbtohU16_def ReadU32_def ReadLsbtohU32_def ReadLsbtohU64_def ReadNtohU64_def ReadU64_def
    bytes_16 bytes_32 bytes_64
  using parses_returns [of x] parses_returns [of y] parses_returns [of z]
  by (auto intro!: parses_ReadU8s simp: join_16 join_32 join_64)

lemma parses_ReadNtohU16 [intro]: "parses ReadNtohU16 (msb_bytes 2 x) x"
  unfolding parses_def
proof (intro allI impI)
  fix M it assume a: "ahead (msb_bytes 2 x) M it"
  have n: "unat (m_current it + 2) = unat (m_current it) + 2" using ahead_step(1) [OF a, of 2] by simp
  have v: "shift_in (ucast (msb_bytes 2 x ! 0)) (msb_bytes 2 x ! Suc 0) = x" by (simp add: bytes_16 join_16)
  consider "m_current it + 2 \<le> m_zeroStart it" | "\<not> m_current it + 2 \<le> m_zeroStart it" "m_zeroEnd it \<le> m_current it" |
      "\<not> m_current it + 2 \<le> m_zeroStart it" "\<not> m_zeroEnd it \<le> m_current it" by blast
  then show "ReadNtohU16 M it = Some (x, it\<lparr>m_current := m_current it + of_nat (length (msb_bytes 2 x))\<rparr>)"
  proof cases
    case 1
    then show ?thesis using load_ahead [OF a, of True] n v by (simp add: ReadNtohU16_def word_le_nat_alt)
  next
    case 2
    then show ?thesis using load_ahead [OF a, of False] n v by (simp add: ReadNtohU16_def word_le_nat_alt)
  next
    case 3
    then show ?thesis using parses_slow(1) [of x] a by (simp add: ReadNtohU16_def parses_def)
  qed
qed

lemma parses_ReadNtohU32 [intro]: "parses ReadNtohU32 (msb_bytes 4 x) x"
  unfolding parses_def
proof (intro allI impI)
  fix M it assume a: "ahead (msb_bytes 4 x) M it"
  have n: "unat (m_current it + 4) = unat (m_current it) + 4" using ahead_step(1) [OF a, of 4] by simp
  have v: "shift_in (shift_in (shift_in (ucast (msb_bytes 4 x ! 0)) (msb_bytes 4 x ! Suc 0)) (msb_bytes 4 x ! 2))
      (msb_bytes 4 x ! 3) = x" unfolding bytes_32 by (simp add: join_32 numeral_2_eq_2 numeral_3_eq_3)
  consider "m_current it + 4 \<le> m_zeroStart it" | "\<not> m_current it + 4 \<le> m_zeroStart it" "m_zeroEnd it \<le> m_current it" |
      "\<not> m_current it + 4 \<le> m_zeroStart it" "\<not> m_zeroEnd it \<le> m_current it" by blast
  then show "ReadNtohU32 M it = Some (x, it\<lparr>m_current := m_current it + of_nat (length (msb_bytes 4 x))\<rparr>)"
  proof cases
    case 1
    then show ?thesis using load_ahead [OF a, of True] n v by (simp add: ReadNtohU32_def word_le_nat_alt)
  next
    case 2
    then show ?thesis using load_ahead [OF a, of False] n v by (simp add: ReadNtohU32_def word_le_nat_alt)
  next
    case 3
    then show ?thesis using parses_slow(2) [of x] a by (simp add: ReadNtohU32_def parses_def)
  qed
qed

lemma parses_Read [intro]: "parses (Read (length bs)) bs bs"
proof (induction bs)
  case (Cons b bs)
  show ?case using parses_then [OF Cons, of "\<lambda>bs. returns (b # bs)" "[]" "b # bs"]
    by (auto intro!: parses_ReadU8s)
qed auto


lemma emits_mac48 [intro]: "emits (WriteTo_mac48 a) a"
  unfolding WriteTo_mac48_def by (rule emits_Write)

lemma parses_mac48 [intro]: "length a = 6 \<Longrightarrow> parses ReadFrom_mac48 a a"
  unfolding ReadFrom_mac48_def using parses_Read [of a] by simp


lemma emits_ipv4 [intro]: "emits (WriteTo_ipv4 x) (msb_bytes 4 x)"
  unfolding WriteTo_ipv4_def by (rule emits_numbers)

lemma parses_ipv4 [intro]: "parses ReadFrom_ipv4 (msb_bytes 4 x) x"
  unfolding ReadFrom_ipv4_def by (rule parses_ReadNtohU32)

subsection \<open>Adding and removing headers\<close>

lemma AddHeader_ok:
  assumes ok: "mem_ok M (add_mset b B) R" and w: "fills ser bs" and sz: "length bs = unat n"
    and len: "length (content M b) + length bs \<le> MAX_BYTES"
  obtains b' M' where "AddHeader n ser b M = Some (b', M')" and "mem_ok M' (add_mset b' B) R"
    and "same_contents M M' B" and "content M' b' = bs @ content M b"
proof -
  from fits_bounds [OF ok] have lb: "length (content M b) = unat (m_end b) - unat (m_start b)" by blast
  have le: "unat (m_end b) - unat (m_start b) + unat n \<le> MAX_BYTES" using len lb sz by simp
  from fill_start [OF ok le sz] obtain b1 M1 M2 where
    f: "AddAtStart n b M = Some (b1, M1)" "put True bs (Begin b1) M1 = Some ((Begin b1)\<lparr>m_current := m_start b1 + n\<rparr>, M2)"
      "mem_ok M2 (add_mset b1 B) R" "same_contents M M2 B" "content M2 b1 = bs @ content M b"
      "unat (m_start b1) + unat n \<le> unat (m_zeroAreaStart b1)" by metis
  from AddAtStart_ok [OF ok le] f(1) have "mem_ok M1 (add_mset b1 B) R" by auto
  from fits_bounds [OF this] obtain d where d: "blocks M1 (m_data b1) = Some d" "shape_ok b1" "real_end b1 \<le> length (m_octets d)" .
  then have "room_for (length bs) (Begin b1) M1"
    using f(6) sz by (auto simp: room_for_def Begin_def shape_ok_def real_end_def word_le_nat_alt)
  then have "map_option snd (ser (Begin b1) M1) = map_option snd (put True bs (Begin b1) M1)"
    using w by (simp add: fills_def)
  then have "AddHeader n ser b M = Some (b1, M2)" using f(1,2) by (auto simp: AddHeader_def)
  then show ?thesis using that f(3-5) by blast
qed

lemma ahead_Begin:
  assumes ok: "mem_ok M (add_mset b B) R" and c: "content M b = bs @ rest"
  shows "ahead bs M (Begin b)"
proof -
  from fits_bounds [OF ok] obtain d where d: "blocks M (m_data b) = Some d" "shape_ok b" "content M b = bytes_in d b"
    "real_end b \<le> length (m_octets d)" "length (content M b) = unat (m_end b) - unat (m_start b)" .
  have sh: "unat (m_start b) \<le> unat (m_zeroAreaStart b)" "unat (m_zeroAreaStart b) \<le> unat (m_zeroAreaEnd b)"
    "unat (m_zeroAreaEnd b) \<le> unat (m_end b)" using d(2) by (simp_all add: shape_ok_def)
  have "octet_at d (Begin b) (unat (m_start b) + k) = bs ! k" if k: "k < length bs" for k
  proof -
    have kl: "k < unat (m_end b) - unat (m_start b)" using k c d(5) by simp
    have "bs ! k = bytes_in d b ! k" using k c d(3) by (simp add: nth_append)
    also have "\<dots> = octet_at d (Begin b) (unat (m_start b) + k)"
      using sh d(4) kl by (auto simp: bytes_in_def octet_at_def Begin_def nth_append real_end_def zeros_def
          intro!: arg_cong [where f = "nth (m_octets d)"])
    finally show ?thesis by simp
  qed
  moreover have "length bs \<le> unat (m_end b) - unat (m_start b)" using c d(5) by simp
  then have "unat (m_start b) + length bs \<le> unat (m_end b)" using sh by linarith
  ultimately show ?thesis
    using d sh by (auto simp: ahead_def Begin_def real_end_def word_le_nat_alt)
qed

lemma RemoveHeader_ok:
  assumes ok: "mem_ok M (add_mset b B) R" and c: "content M b = bs @ rest"
    and r: "Deserialize M (Begin b) = Some (h, n)" and n: "unat n = length bs"
  obtains b' where "RemoveHeader Deserialize b M = Some (h, n, b')" and "mem_ok M (add_mset b' B) R"
    and "content M b' = rest"
proof -
  from fits_bounds [OF ok] have "length (content M b) \<le> MAX_BYTES" by blast
  then have "unat n \<le> MAX_BYTES" using c n by simp
  from RemoveAtStart_ok [OF ok this] obtain b' where
    "RemoveAtStart n b = Some b'" "mem_ok M (add_mset b' B) R" "content M b' = drop (unat n) (content M b)" .
  then show ?thesis using that c n r by (simp add: RemoveHeader_def)
qed

text \<open>The distance an iterator has gone.\<close>

lemma GetDistanceFrom_advanced:
  "n < 2 ^ 31 \<Longrightarrow> GetDistanceFrom it (it\<lparr>m_current := m_current it + of_nat n\<rparr>) = Some (of_nat n)"
proof -
  assume n: "n < 2 ^ 31"
  then have "sint (of_nat n :: 32 word) = int n"
    by (simp add: signed_of_nat signed_take_bit_int_eq_self_iff)
  then show ?thesis by (simp add: GetDistanceFrom_def)
qed

lemma with_distance_parses:
  "parses r bs h \<Longrightarrow> length bs < 2 ^ 31 \<Longrightarrow> ahead bs M it \<Longrightarrow> with_distance r M it = Some (h, of_nat (length bs))"
  by (simp add: with_distance_def parses_def GetDistanceFrom_advanced)

text \<open>
  What a header promises. \<open>wire h\<close> are its bytes; \<open>received h0 h\<close> is what \<open>Deserialize\<close>, called on the
  object \<open>h0\<close>, makes of the bytes of \<open>h\<close>: members that are not transmitted keep their value in \<open>h0\<close>.
\<close>

locale packet_header =
  fixes GetSerializedSize :: "'h \<Rightarrow> 32 word"
    and Serialize :: "'h \<Rightarrow> writer"
    and Deserialize :: "'h \<Rightarrow> memory \<Rightarrow> iterator \<Rightarrow> ('h \<times> 32 word) option"
    and wire :: "'h \<Rightarrow> octet list"
    and valid :: "'h \<Rightarrow> bool"
    and received :: "'h \<Rightarrow> 'h \<Rightarrow> 'h"
  assumes wire_size: "valid h \<Longrightarrow> unat (GetSerializedSize h) = length (wire h)"
    and fills_wire: "valid h \<Longrightarrow> fills (Serialize h) (wire h)"
    and reads_wire: "valid h \<Longrightarrow> ahead (wire h) M it \<Longrightarrow> Deserialize h0 M it = Some (received h0 h, GetSerializedSize h)"
begin

lemma add_header:
  assumes "mem_ok M (add_mset b B) R" and "valid h" and "length (content M b) + length (wire h) \<le> MAX_BYTES"
  obtains b' M' where "AddHeader (GetSerializedSize h) (Serialize h) b M = Some (b', M')"
    and "mem_ok M' (add_mset b' B) R" and "same_contents M M' B" and "content M' b' = wire h @ content M b"
  using AddHeader_ok [OF assms(1) fills_wire [OF assms(2)] wire_size [OF assms(2), symmetric] assms(3)] .

lemma remove_header:
  assumes "mem_ok M (add_mset b B) R" and "valid h" and "content M b = wire h @ rest"
  obtains b' where "RemoveHeader (Deserialize h0) b M = Some (received h0 h, GetSerializedSize h, b')"
    and "mem_ok M (add_mset b' B) R" and "content M b' = rest"
  using RemoveHeader_ok [OF assms(1,3), of "Deserialize h0"]
    reads_wire [OF assms(2) ahead_Begin [OF assms(1,3)], of h0] wire_size [OF assms(2)] by blast

text \<open>Adding a header and removing it gives the header and the packet back.\<close>

lemma add_remove:
  assumes "mem_ok M (add_mset b B) R" and "valid h" and "length (content M b) + length (wire h) \<le> MAX_BYTES"
  shows "\<exists>b1 M1 b2. AddHeader (GetSerializedSize h) (Serialize h) b M = Some (b1, M1) \<and>
    content M1 b1 = wire h @ content M b \<and>
    RemoveHeader (Deserialize h0) b1 M1 = Some (received h0 h, GetSerializedSize h, b2) \<and>
    content M1 b2 = content M b \<and> mem_ok M1 (add_mset b2 B) R \<and> same_contents M M1 B"
proof -
  from add_header [OF assms] obtain b1 M1 where
    1: "AddHeader (GetSerializedSize h) (Serialize h) b M = Some (b1, M1)" "mem_ok M1 (add_mset b1 B) R"
      "same_contents M M1 B" "content M1 b1 = wire h @ content M b" .
  from remove_header [OF 1(2) assms(2) 1(4), of h0] 1 show ?thesis by blast
qed

end

end
