(* ===== verification/Wifi_Mac_Header.thy ===== *)
theory Wifi_Mac_Header
  imports Buffer_Codec
begin

text \<open>
  The MAC header of Wi-Fi frames, \<open>wifi/model/wifi-mac-header.cc\<close>: its members, the frame types, its
  bytes, and that it keeps the promises of \<open>packet_header\<close>. Members keep the width of the class; the
  flags are octets, as they are there.
\<close>

datatype WifiMacType =
  WIFI_MAC_CTL_TRIGGER |
  WIFI_MAC_CTL_CTLWRAPPER |
  WIFI_MAC_CTL_PSPOLL |
  WIFI_MAC_CTL_RTS |
  WIFI_MAC_CTL_CTS |
  WIFI_MAC_CTL_ACK |
  WIFI_MAC_CTL_BACKREQ |
  WIFI_MAC_CTL_BACKRESP |
  WIFI_MAC_CTL_END |
  WIFI_MAC_CTL_END_ACK |
  WIFI_MAC_CTL_DMG_POLL |
  WIFI_MAC_CTL_DMG_SPR |
  WIFI_MAC_CTL_DMG_GRANT |
  WIFI_MAC_CTL_DMG_CTS |
  WIFI_MAC_CTL_DMG_DTS |
  WIFI_MAC_CTL_DMG_SSW |
  WIFI_MAC_CTL_DMG_SSW_FBCK |
  WIFI_MAC_CTL_DMG_SSW_ACK |
  WIFI_MAC_CTL_DMG_GRANT_ACK |
  WIFI_MAC_MGT_BEACON |
  WIFI_MAC_MGT_ASSOCIATION_REQUEST |
  WIFI_MAC_MGT_ASSOCIATION_RESPONSE |
  WIFI_MAC_MGT_DISASSOCIATION |
  WIFI_MAC_MGT_REASSOCIATION_REQUEST |
  WIFI_MAC_MGT_REASSOCIATION_RESPONSE |
  WIFI_MAC_MGT_PROBE_REQUEST |
  WIFI_MAC_MGT_PROBE_RESPONSE |
  WIFI_MAC_MGT_AUTHENTICATION |
  WIFI_MAC_MGT_DEAUTHENTICATION |
  WIFI_MAC_MGT_ACTION |
  WIFI_MAC_MGT_ACTION_NO_ACK |
  WIFI_MAC_MGT_MULTIHOP_ACTION |
  WIFI_MAC_DATA |
  WIFI_MAC_DATA_CFACK |
  WIFI_MAC_DATA_CFPOLL |
  WIFI_MAC_DATA_CFACK_CFPOLL |
  WIFI_MAC_DATA_NULL |
  WIFI_MAC_DATA_NULL_CFACK |
  WIFI_MAC_DATA_NULL_CFPOLL |
  WIFI_MAC_DATA_NULL_CFACK_CFPOLL |
  WIFI_MAC_QOSDATA |
  WIFI_MAC_QOSDATA_CFACK |
  WIFI_MAC_QOSDATA_CFPOLL |
  WIFI_MAC_QOSDATA_CFACK_CFPOLL |
  WIFI_MAC_QOSDATA_NULL |
  WIFI_MAC_QOSDATA_NULL_CFPOLL |
  WIFI_MAC_QOSDATA_NULL_CFACK_CFPOLL |
  WIFI_MAC_EXTENSION_DMG_BEACON

definition TYPE_MGT :: octet where "TYPE_MGT = 0"

definition TYPE_CTL :: octet where "TYPE_CTL = 1"

definition TYPE_DATA :: octet where "TYPE_DATA = 2"

text \<open>The type and subtype that \<open>SetType\<close> stores; \<open>None\<close> where its switch has no case.\<close>

fun ctrl_type :: "WifiMacType \<Rightarrow> (octet \<times> octet) option" where
  "ctrl_type WIFI_MAC_CTL_TRIGGER = Some (TYPE_CTL, 2)"
| "ctrl_type WIFI_MAC_CTL_CTLWRAPPER = Some (TYPE_CTL, 7)"
| "ctrl_type WIFI_MAC_CTL_BACKREQ = Some (TYPE_CTL, 8)"
| "ctrl_type WIFI_MAC_CTL_BACKRESP = Some (TYPE_CTL, 9)"
| "ctrl_type WIFI_MAC_CTL_PSPOLL = Some (TYPE_CTL, 10)"
| "ctrl_type WIFI_MAC_CTL_RTS = Some (TYPE_CTL, 11)"
| "ctrl_type WIFI_MAC_CTL_CTS = Some (TYPE_CTL, 12)"
| "ctrl_type WIFI_MAC_CTL_ACK = Some (TYPE_CTL, 13)"
| "ctrl_type WIFI_MAC_CTL_END = Some (TYPE_CTL, 14)"
| "ctrl_type WIFI_MAC_CTL_END_ACK = Some (TYPE_CTL, 15)"
| "ctrl_type WIFI_MAC_MGT_ASSOCIATION_REQUEST = Some (TYPE_MGT, 0)"
| "ctrl_type WIFI_MAC_MGT_ASSOCIATION_RESPONSE = Some (TYPE_MGT, 1)"
| "ctrl_type WIFI_MAC_MGT_REASSOCIATION_REQUEST = Some (TYPE_MGT, 2)"
| "ctrl_type WIFI_MAC_MGT_REASSOCIATION_RESPONSE = Some (TYPE_MGT, 3)"
| "ctrl_type WIFI_MAC_MGT_PROBE_REQUEST = Some (TYPE_MGT, 4)"
| "ctrl_type WIFI_MAC_MGT_PROBE_RESPONSE = Some (TYPE_MGT, 5)"
| "ctrl_type WIFI_MAC_MGT_BEACON = Some (TYPE_MGT, 8)"
| "ctrl_type WIFI_MAC_MGT_DISASSOCIATION = Some (TYPE_MGT, 10)"
| "ctrl_type WIFI_MAC_MGT_AUTHENTICATION = Some (TYPE_MGT, 11)"
| "ctrl_type WIFI_MAC_MGT_DEAUTHENTICATION = Some (TYPE_MGT, 12)"
| "ctrl_type WIFI_MAC_MGT_ACTION = Some (TYPE_MGT, 13)"
| "ctrl_type WIFI_MAC_MGT_ACTION_NO_ACK = Some (TYPE_MGT, 14)"
| "ctrl_type WIFI_MAC_MGT_MULTIHOP_ACTION = Some (TYPE_MGT, 15)"
| "ctrl_type WIFI_MAC_DATA = Some (TYPE_DATA, 0)"
| "ctrl_type WIFI_MAC_DATA_CFACK = Some (TYPE_DATA, 1)"
| "ctrl_type WIFI_MAC_DATA_CFPOLL = Some (TYPE_DATA, 2)"
| "ctrl_type WIFI_MAC_DATA_CFACK_CFPOLL = Some (TYPE_DATA, 3)"
| "ctrl_type WIFI_MAC_DATA_NULL = Some (TYPE_DATA, 4)"
| "ctrl_type WIFI_MAC_DATA_NULL_CFACK = Some (TYPE_DATA, 5)"
| "ctrl_type WIFI_MAC_DATA_NULL_CFPOLL = Some (TYPE_DATA, 6)"
| "ctrl_type WIFI_MAC_DATA_NULL_CFACK_CFPOLL = Some (TYPE_DATA, 7)"
| "ctrl_type WIFI_MAC_QOSDATA = Some (TYPE_DATA, 8)"
| "ctrl_type WIFI_MAC_QOSDATA_CFACK = Some (TYPE_DATA, 9)"
| "ctrl_type WIFI_MAC_QOSDATA_CFPOLL = Some (TYPE_DATA, 10)"
| "ctrl_type WIFI_MAC_QOSDATA_CFACK_CFPOLL = Some (TYPE_DATA, 11)"
| "ctrl_type WIFI_MAC_QOSDATA_NULL = Some (TYPE_DATA, 12)"
| "ctrl_type WIFI_MAC_QOSDATA_NULL_CFPOLL = Some (TYPE_DATA, 14)"
| "ctrl_type WIFI_MAC_QOSDATA_NULL_CFACK_CFPOLL = Some (TYPE_DATA, 15)"
| "ctrl_type _ = None"

text \<open>\<open>GetType\<close> reaches an assertion for the values without a case.\<close>

definition GetType_of :: "octet \<Rightarrow> octet \<Rightarrow> WifiMacType option" where
  "GetType_of t s =
     (if t = TYPE_MGT then
        (if s = 0 then Some WIFI_MAC_MGT_ASSOCIATION_REQUEST
         else if s = 1 then Some WIFI_MAC_MGT_ASSOCIATION_RESPONSE
         else if s = 2 then Some WIFI_MAC_MGT_REASSOCIATION_REQUEST
         else if s = 3 then Some WIFI_MAC_MGT_REASSOCIATION_RESPONSE
         else if s = 4 then Some WIFI_MAC_MGT_PROBE_REQUEST
         else if s = 5 then Some WIFI_MAC_MGT_PROBE_RESPONSE
         else if s = 8 then Some WIFI_MAC_MGT_BEACON
         else if s = 10 then Some WIFI_MAC_MGT_DISASSOCIATION
         else if s = 11 then Some WIFI_MAC_MGT_AUTHENTICATION
         else if s = 12 then Some WIFI_MAC_MGT_DEAUTHENTICATION
         else if s = 13 then Some WIFI_MAC_MGT_ACTION
         else if s = 14 then Some WIFI_MAC_MGT_ACTION_NO_ACK
         else if s = 15 then Some WIFI_MAC_MGT_MULTIHOP_ACTION else None)
      else if t = TYPE_CTL then
        (if s = 2 then Some WIFI_MAC_CTL_TRIGGER
         else if s = 8 then Some WIFI_MAC_CTL_BACKREQ
         else if s = 9 then Some WIFI_MAC_CTL_BACKRESP
         else if s = 10 then Some WIFI_MAC_CTL_PSPOLL
         else if s = 11 then Some WIFI_MAC_CTL_RTS
         else if s = 12 then Some WIFI_MAC_CTL_CTS
         else if s = 13 then Some WIFI_MAC_CTL_ACK
         else if s = 14 then Some WIFI_MAC_CTL_END
         else if s = 15 then Some WIFI_MAC_CTL_END_ACK else None)
      else if t = TYPE_DATA then
        (if s = 0 then Some WIFI_MAC_DATA
         else if s = 1 then Some WIFI_MAC_DATA_CFACK
         else if s = 2 then Some WIFI_MAC_DATA_CFPOLL
         else if s = 3 then Some WIFI_MAC_DATA_CFACK_CFPOLL
         else if s = 4 then Some WIFI_MAC_DATA_NULL
         else if s = 5 then Some WIFI_MAC_DATA_NULL_CFACK
         else if s = 6 then Some WIFI_MAC_DATA_NULL_CFPOLL
         else if s = 7 then Some WIFI_MAC_DATA_NULL_CFACK_CFPOLL
         else if s = 8 then Some WIFI_MAC_QOSDATA
         else if s = 9 then Some WIFI_MAC_QOSDATA_CFACK
         else if s = 10 then Some WIFI_MAC_QOSDATA_CFPOLL
         else if s = 11 then Some WIFI_MAC_QOSDATA_CFACK_CFPOLL
         else if s = 12 then Some WIFI_MAC_QOSDATA_NULL
         else if s = 14 then Some WIFI_MAC_QOSDATA_NULL_CFPOLL
         else if s = 15 then Some WIFI_MAC_QOSDATA_NULL_CFACK_CFPOLL else None)
      else None)"

record WifiMacHeader =
  m_ctrlType :: octet
  m_ctrlSubtype :: octet
  m_ctrlToDs :: octet
  m_ctrlFromDs :: octet
  m_ctrlMoreFrag :: octet
  m_ctrlRetry :: octet
  m_ctrlPowerManagement :: octet
  m_ctrlMoreData :: octet
  m_ctrlWep :: octet
  m_ctrlOrder :: octet
  m_duration :: "16 word"
  m_addr1 :: mac48
  m_addr2 :: mac48
  m_addr3 :: mac48
  m_seqFrag :: octet
  m_seqSeq :: "16 word"
  m_addr4 :: mac48
  m_qosTid :: octet
  m_qosEosp :: octet
  m_qosAckPolicy :: octet
  m_amsduPresent :: octet
  m_qosStuff :: octet

definition SetType :: "WifiMacType \<Rightarrow> bool \<Rightarrow> WifiMacHeader \<Rightarrow> WifiMacHeader" where
  "SetType t resetToDsFromDs h =
     (let h = (case ctrl_type t of None \<Rightarrow> h | Some (ty, st) \<Rightarrow> h\<lparr>m_ctrlType := ty, m_ctrlSubtype := st\<rparr>) in
      if resetToDsFromDs then h\<lparr>m_ctrlToDs := 0, m_ctrlFromDs := 0\<rparr> else h)"

definition GetType :: "WifiMacHeader \<Rightarrow> WifiMacType option" where
  "GetType h = GetType_of (m_ctrlType h) (m_ctrlSubtype h)"

definition IsData :: "WifiMacHeader \<Rightarrow> bool" where
  "IsData h \<longleftrightarrow> m_ctrlType h = TYPE_DATA"

definition IsQosData :: "WifiMacHeader \<Rightarrow> bool" where
  "IsQosData h \<longleftrightarrow> m_ctrlType h = TYPE_DATA \<and> m_ctrlSubtype h AND 0x08 \<noteq> 0"

definition IsMgt :: "WifiMacHeader \<Rightarrow> bool" where
  "IsMgt h \<longleftrightarrow> m_ctrlType h = TYPE_MGT"

definition IsRetry :: "WifiMacHeader \<Rightarrow> bool" where
  "IsRetry h \<longleftrightarrow> m_ctrlRetry h = 1"

definition IsMoreFragments :: "WifiMacHeader \<Rightarrow> bool" where
  "IsMoreFragments h \<longleftrightarrow> m_ctrlMoreFrag h = 1"

definition GetQosTid :: "WifiMacHeader \<Rightarrow> octet option" where
  "GetQosTid h = (if IsQosData h then Some (m_qosTid h) else None)"

definition GetSequenceControl :: "WifiMacHeader \<Rightarrow> 16 word" where
  "GetSequenceControl h = push_bit 4 (m_seqSeq h) OR ucast (m_seqFrag h)"

definition SetSequenceControl :: "16 word \<Rightarrow> WifiMacHeader \<Rightarrow> WifiMacHeader" where
  "SetSequenceControl sq h = h\<lparr>m_seqFrag := ucast (sq AND 0x0f), m_seqSeq := drop_bit 4 sq AND 0x0fff\<rparr>"

definition GetFrameControl :: "WifiMacHeader \<Rightarrow> 16 word" where
  "GetFrameControl h =
     (let val = 0;
          val = val OR (push_bit 2 (ucast (m_ctrlType h)) AND push_bit 2 0x3);
          val = val OR (push_bit 4 (ucast (m_ctrlSubtype h)) AND push_bit 4 0xf);
          val = val OR (push_bit 8 (ucast (m_ctrlToDs h)) AND push_bit 8 0x1);
          val = val OR (push_bit 9 (ucast (m_ctrlFromDs h)) AND push_bit 9 0x1);
          val = val OR (push_bit 10 (ucast (m_ctrlMoreFrag h)) AND push_bit 10 0x1);
          val = val OR (push_bit 11 (ucast (m_ctrlRetry h)) AND push_bit 11 0x1);
          val = val OR (push_bit 12 (ucast (m_ctrlPowerManagement h)) AND push_bit 12 0x1);
          val = val OR (push_bit 13 (ucast (m_ctrlMoreData h)) AND push_bit 13 0x1);
          val = val OR (push_bit 14 (ucast (m_ctrlWep h)) AND push_bit 14 0x1);
          val = val OR (push_bit 15 (ucast (m_ctrlOrder h)) AND push_bit 15 0x1)
      in val)"

definition SetFrameControl :: "16 word \<Rightarrow> WifiMacHeader \<Rightarrow> WifiMacHeader" where
  "SetFrameControl ctrl h = h\<lparr>
     m_ctrlType := ucast (drop_bit 2 ctrl AND 0x03),
     m_ctrlSubtype := ucast (drop_bit 4 ctrl AND 0x0f),
     m_ctrlToDs := ucast (drop_bit 8 ctrl AND 0x01),
     m_ctrlFromDs := ucast (drop_bit 9 ctrl AND 0x01),
     m_ctrlMoreFrag := ucast (drop_bit 10 ctrl AND 0x01),
     m_ctrlRetry := ucast (drop_bit 11 ctrl AND 0x01),
     m_ctrlPowerManagement := ucast (drop_bit 12 ctrl AND 0x01),
     m_ctrlMoreData := ucast (drop_bit 13 ctrl AND 0x01),
     m_ctrlWep := ucast (drop_bit 14 ctrl AND 0x01),
     m_ctrlOrder := ucast (drop_bit 15 ctrl AND 0x01)\<rparr>"

definition GetQosControl :: "WifiMacHeader \<Rightarrow> 16 word" where
  "GetQosControl h =
     (let val = 0;
          val = val OR ucast (m_qosTid h);
          val = val OR push_bit 4 (ucast (m_qosEosp h));
          val = val OR push_bit 5 (ucast (m_qosAckPolicy h));
          val = val OR push_bit 7 (ucast (m_amsduPresent h));
          val = val OR push_bit 8 (ucast (m_qosStuff h))
      in val)"

definition SetQosControl :: "16 word \<Rightarrow> WifiMacHeader \<Rightarrow> WifiMacHeader" where
  "SetQosControl qos h = h\<lparr>
     m_qosTid := ucast (qos AND 0x000f),
     m_qosEosp := ucast (drop_bit 4 qos AND 0x0001),
     m_qosAckPolicy := ucast (drop_bit 5 qos AND 0x0003),
     m_amsduPresent := ucast (drop_bit 7 qos AND 0x0001),
     m_qosStuff := ucast (drop_bit 8 qos AND 0x00ff)\<rparr>"

text \<open>The cases of the control subtypes in the switches of \<open>GetSize\<close>, \<open>Serialize\<close> and \<open>Deserialize\<close>.\<close>

definition ctl_two_addresses :: "octet \<Rightarrow> bool" where
  "ctl_two_addresses s \<longleftrightarrow> s \<in> {10, 11, 2, 8, 9, 14, 15}"

definition ctl_one_address :: "octet \<Rightarrow> bool" where
  "ctl_one_address s \<longleftrightarrow> s \<in> {12, 13}"

definition WifiMacHeader_GetSize :: "WifiMacHeader \<Rightarrow> 32 word" where
  "WifiMacHeader_GetSize h =
     (if m_ctrlType h = TYPE_MGT then 2 + 2 + 6 + 6 + 6 + 2
      else if m_ctrlType h = TYPE_CTL then
        (if ctl_two_addresses (m_ctrlSubtype h) then 2 + 2 + 6 + 6
         else if ctl_one_address (m_ctrlSubtype h) then 2 + 2 + 6
         else if m_ctrlSubtype h = 7 then 2 + 2 + 6 + 2 + 4
         else 0)
      else if m_ctrlType h = TYPE_DATA then
        2 + 2 + 6 + 6 + 6 + 2 + (if m_ctrlToDs h \<noteq> 0 \<and> m_ctrlFromDs h \<noteq> 0 then 6 else 0) +
          (if m_ctrlSubtype h AND 0x08 \<noteq> 0 then 2 else 0)
      else 0)"

definition fails :: writer where
  "fails it M = None"

definition WifiMacHeader_Serialize :: "WifiMacHeader \<Rightarrow> writer" where
  "WifiMacHeader_Serialize h =
     writes (WriteHtolsbU16 (GetFrameControl h)) (writes (WriteHtolsbU16 (m_duration h)) (writes (WriteTo_mac48 (m_addr1 h))
       (if m_ctrlType h = TYPE_MGT then
          writes (WriteTo_mac48 (m_addr2 h)) (writes (WriteTo_mac48 (m_addr3 h)) (WriteHtolsbU16 (GetSequenceControl h)))
        else if m_ctrlType h = TYPE_CTL then
          (if ctl_two_addresses (m_ctrlSubtype h) then WriteTo_mac48 (m_addr2 h)
           else if ctl_one_address (m_ctrlSubtype h) then skip
           else fails)
        else if m_ctrlType h = TYPE_DATA then
          writes (WriteTo_mac48 (m_addr2 h)) (writes (WriteTo_mac48 (m_addr3 h)) (writes (WriteHtolsbU16 (GetSequenceControl h))
            (writes (if m_ctrlToDs h \<noteq> 0 \<and> m_ctrlFromDs h \<noteq> 0 then WriteTo_mac48 (m_addr4 h) else skip)
              (if m_ctrlSubtype h AND 0x08 \<noteq> 0 then WriteHtolsbU16 (GetQosControl h) else skip))))
        else fails)))"

text \<open>The reads of \<open>Deserialize\<close> into the members of \<open>h\<close>.\<close>

definition WifiMacHeader_read_fields :: "WifiMacHeader \<Rightarrow> WifiMacHeader reader" where
  "WifiMacHeader_read_fields h =
     reads_then ReadLsbtohU16 (\<lambda>frame_control. let h = SetFrameControl frame_control h in
     reads_then ReadLsbtohU16 (\<lambda>d. let h = h\<lparr>m_duration := d\<rparr> in
     reads_then ReadFrom_mac48 (\<lambda>a. let h = h\<lparr>m_addr1 := a\<rparr> in
       if m_ctrlType h = TYPE_MGT then
         reads_then ReadFrom_mac48 (\<lambda>a. let h = h\<lparr>m_addr2 := a\<rparr> in
         reads_then ReadFrom_mac48 (\<lambda>a. let h = h\<lparr>m_addr3 := a\<rparr> in
         reads_then ReadLsbtohU16 (\<lambda>sq. returns (SetSequenceControl sq h))))
       else if m_ctrlType h = TYPE_CTL then
         (if ctl_two_addresses (m_ctrlSubtype h)
          then reads_then ReadFrom_mac48 (\<lambda>a. returns (h\<lparr>m_addr2 := a\<rparr>))
          else returns h)
       else if m_ctrlType h = TYPE_DATA then
         reads_then ReadFrom_mac48 (\<lambda>a. let h = h\<lparr>m_addr2 := a\<rparr> in
         reads_then ReadFrom_mac48 (\<lambda>a. let h = h\<lparr>m_addr3 := a\<rparr> in
         reads_then ReadLsbtohU16 (\<lambda>sq. let h = SetSequenceControl sq h in
         reads_then (if m_ctrlToDs h \<noteq> 0 \<and> m_ctrlFromDs h \<noteq> 0
                     then reads_then ReadFrom_mac48 (\<lambda>a. returns (h\<lparr>m_addr4 := a\<rparr>)) else returns h)
           (\<lambda>h. if m_ctrlSubtype h AND 0x08 \<noteq> 0
                then reads_then ReadLsbtohU16 (\<lambda>qos. returns (SetQosControl qos h)) else returns h))))
       else returns h)))"

definition WifiMacHeader_Deserialize :: "WifiMacHeader \<Rightarrow> memory \<Rightarrow> iterator \<Rightarrow> (WifiMacHeader \<times> 32 word) option" where
  "WifiMacHeader_Deserialize h = with_distance (WifiMacHeader_read_fields h)"


subsection \<open>Valid headers and their bytes\<close>

text \<open>Members within the width of their fields, and a type that \<open>Serialize\<close> supports.\<close>

definition fields_ok :: "WifiMacHeader \<Rightarrow> bool" where
  "fields_ok h \<longleftrightarrow>
     m_ctrlSubtype h < 16 \<and> m_ctrlToDs h < 2 \<and> m_ctrlFromDs h < 2 \<and> m_ctrlMoreFrag h < 2 \<and> m_ctrlRetry h < 2 \<and>
     m_ctrlPowerManagement h < 2 \<and> m_ctrlMoreData h < 2 \<and> m_ctrlWep h < 2 \<and> m_ctrlOrder h < 2 \<and>
     m_seqFrag h < 16 \<and> m_seqSeq h < 4096 \<and>
     m_qosTid h < 16 \<and> m_qosEosp h < 2 \<and> m_qosAckPolicy h < 4 \<and> m_amsduPresent h < 2 \<and>
     length (m_addr1 h) = 6 \<and> length (m_addr2 h) = 6 \<and> length (m_addr3 h) = 6 \<and> length (m_addr4 h) = 6"

definition WifiMacHeader_valid :: "WifiMacHeader \<Rightarrow> bool" where
  "WifiMacHeader_valid h \<longleftrightarrow> fields_ok h \<and>
     (m_ctrlType h = TYPE_MGT \<or> m_ctrlType h = TYPE_DATA \<or>
      (m_ctrlType h = TYPE_CTL \<and> (ctl_two_addresses (m_ctrlSubtype h) \<or> ctl_one_address (m_ctrlSubtype h))))"

definition WifiMacHeader_wire :: "WifiMacHeader \<Rightarrow> octet list" where
  "WifiMacHeader_wire h =
     lsb_bytes 2 (GetFrameControl h) @ lsb_bytes 2 (m_duration h) @ m_addr1 h @
     (if m_ctrlType h = TYPE_CTL then (if ctl_two_addresses (m_ctrlSubtype h) then m_addr2 h else [])
      else m_addr2 h @ m_addr3 h @ lsb_bytes 2 (GetSequenceControl h) @
        (if m_ctrlType h = TYPE_DATA
         then (if m_ctrlToDs h \<noteq> 0 \<and> m_ctrlFromDs h \<noteq> 0 then m_addr4 h else []) @
              (if m_ctrlSubtype h AND 0x08 \<noteq> 0 then lsb_bytes 2 (GetQosControl h) else [])
         else []))"

definition copy_frame_control :: "WifiMacHeader \<Rightarrow> WifiMacHeader \<Rightarrow> WifiMacHeader" where
  "copy_frame_control h r = r\<lparr>m_ctrlType := m_ctrlType h, m_ctrlSubtype := m_ctrlSubtype h,
     m_ctrlToDs := m_ctrlToDs h, m_ctrlFromDs := m_ctrlFromDs h, m_ctrlMoreFrag := m_ctrlMoreFrag h,
     m_ctrlRetry := m_ctrlRetry h, m_ctrlPowerManagement := m_ctrlPowerManagement h,
     m_ctrlMoreData := m_ctrlMoreData h, m_ctrlWep := m_ctrlWep h, m_ctrlOrder := m_ctrlOrder h\<rparr>"

definition copy_qos_control :: "WifiMacHeader \<Rightarrow> WifiMacHeader \<Rightarrow> WifiMacHeader" where
  "copy_qos_control h r = r\<lparr>m_qosTid := m_qosTid h, m_qosEosp := m_qosEosp h, m_qosAckPolicy := m_qosAckPolicy h,
     m_amsduPresent := m_amsduPresent h, m_qosStuff := m_qosStuff h\<rparr>"

text \<open>What of \<open>h\<close> arrives in a header object \<open>r\<close>.\<close>

definition WifiMacHeader_received :: "WifiMacHeader \<Rightarrow> WifiMacHeader \<Rightarrow> WifiMacHeader" where
  "WifiMacHeader_received r h =
     (let r = (copy_frame_control h r)\<lparr>m_duration := m_duration h, m_addr1 := m_addr1 h\<rparr> in
      if m_ctrlType h = TYPE_CTL
      then (if ctl_two_addresses (m_ctrlSubtype h) then r\<lparr>m_addr2 := m_addr2 h\<rparr> else r)
      else let r = r\<lparr>m_addr2 := m_addr2 h, m_addr3 := m_addr3 h, m_seqFrag := m_seqFrag h, m_seqSeq := m_seqSeq h\<rparr> in
        if m_ctrlType h = TYPE_DATA
        then let r = (if m_ctrlToDs h \<noteq> 0 \<and> m_ctrlFromDs h \<noteq> 0 then r\<lparr>m_addr4 := m_addr4 h\<rparr> else r) in
          if m_ctrlSubtype h AND 0x08 \<noteq> 0 then copy_qos_control h r else r
        else r)"

subsection \<open>Fields of the control words\<close>

lemma no_high_bits: "unat (x :: 'a::len word) < 2 ^ k \<Longrightarrow> k \<le> n \<Longrightarrow> \<not> bit x n"
proof
  assume x: "unat x < 2 ^ k" and n: "k \<le> n" and b: "bit x n"
  have "take_bit k (unat x) = unat x" using x by (simp add: take_bit_nat_eq_self)
  moreover have "bit (unat x) n" using b by (simp add: bit_unsigned_iff)
  ultimately have "bit (take_bit k (unat x)) n" by simp
  then show False using n by (simp add: bit_take_bit_iff)
qed

lemma octet_bits:
  assumes "bit (x :: octet) 0 = bit y 0" "bit x 1 = bit y 1" "bit x 2 = bit y 2" "bit x 3 = bit y 3"
    "bit x 4 = bit y 4" "bit x 5 = bit y 5" "bit x 6 = bit y 6" "bit x 7 = bit y 7"
  shows "x = y"
proof (rule bit_word_eqI)
  fix n assume "n < LENGTH(8)"
  then have "n = 0 \<or> n = 1 \<or> n = 2 \<or> n = 3 \<or> n = 4 \<or> n = 5 \<or> n = 6 \<or> n = 7" by auto
  then show "bit x n = bit y n" using assms by blast
qed

lemma frame_control_bits:
  "bit (GetFrameControl h) 2 = bit (m_ctrlType h) 0"
  "bit (GetFrameControl h) 3 = bit (m_ctrlType h) 1"
  "bit (GetFrameControl h) 4 = bit (m_ctrlSubtype h) 0"
  "bit (GetFrameControl h) 5 = bit (m_ctrlSubtype h) 1"
  "bit (GetFrameControl h) 6 = bit (m_ctrlSubtype h) 2"
  "bit (GetFrameControl h) 7 = bit (m_ctrlSubtype h) 3"
  "bit (GetFrameControl h) 8 = bit (m_ctrlToDs h) 0"
  "bit (GetFrameControl h) 9 = bit (m_ctrlFromDs h) 0"
  "bit (GetFrameControl h) 10 = bit (m_ctrlMoreFrag h) 0"
  "bit (GetFrameControl h) 11 = bit (m_ctrlRetry h) 0"
  "bit (GetFrameControl h) 12 = bit (m_ctrlPowerManagement h) 0"
  "bit (GetFrameControl h) 13 = bit (m_ctrlMoreData h) 0"
  "bit (GetFrameControl h) 14 = bit (m_ctrlWep h) 0"
  "bit (GetFrameControl h) 15 = bit (m_ctrlOrder h) 0"
  by (simp_all add: GetFrameControl_def bit_simps Let_def)


lemma octet_high: "x < 16 \<Longrightarrow> 4 \<le> n \<Longrightarrow> \<not> bit (x :: octet) n" "x < 4 \<Longrightarrow> 2 \<le> n \<Longrightarrow> \<not> bit x n"
  "x < 2 \<Longrightarrow> 1 \<le> n \<Longrightarrow> \<not> bit x n"
  using no_high_bits [of x 4 n] no_high_bits [of x 2 n] no_high_bits [of x 1 n] by (simp_all add: word_less_nat_alt)

lemma one_bit: "x < 2 \<Longrightarrow> bit (w :: 16 word) k = bit (x :: octet) 0 \<Longrightarrow> ucast (drop_bit k w AND 1) = x"
  by (rule octet_bits) (simp_all add: bit_simps octet_high(3))

lemma SetFrameControl_Get:
  assumes f: "fields_ok h" and t: "m_ctrlType h < 4"
  shows "SetFrameControl (GetFrameControl h) r = copy_frame_control h r"
proof -
  have "ucast (drop_bit 2 (GetFrameControl h) AND 0x03) = m_ctrlType h"
    by (rule octet_bits) (simp_all add: bit_simps frame_control_bits octet_high(2) [OF t])
  moreover have "ucast (drop_bit 4 (GetFrameControl h) AND 0x0f) = m_ctrlSubtype h"
    by (rule octet_bits) (use f in \<open>simp_all add: fields_ok_def bit_simps frame_control_bits octet_high(1)\<close>)
  ultimately show ?thesis
    using f by (simp add: SetFrameControl_def copy_frame_control_def fields_ok_def one_bit frame_control_bits)
qed

lemma SetSequenceControl_Get:
  assumes f: "fields_ok h"
  shows "SetSequenceControl (GetSequenceControl h) r = r\<lparr>m_seqFrag := m_seqFrag h, m_seqSeq := m_seqSeq h\<rparr>"
proof -
  have fr: "m_seqFrag h < 16" and sq: "\<And>n. 12 \<le> n \<Longrightarrow> \<not> bit (m_seqSeq h) n"
    using f no_high_bits [of "m_seqSeq h" 12] by (simp_all add: fields_ok_def word_less_nat_alt)
  have "ucast (GetSequenceControl h AND 0x0f) = m_seqFrag h"
    by (rule octet_bits) (simp_all add: GetSequenceControl_def bit_simps octet_high(1) [OF fr])
  moreover have "drop_bit 4 (GetSequenceControl h) AND 0x0fff = m_seqSeq h"
  proof (rule bit_word_eqI)
    fix n assume "n < LENGTH(16)"
    have m: "(0x0fff :: 16 word) = mask 12" by (simp add: mask_eq_exp_minus_1)
    show "bit (drop_bit 4 (GetSequenceControl h) AND 0x0fff) n = bit (m_seqSeq h) n"
      unfolding m using sq [of n] octet_high(1) [OF fr, of "4 + n"] \<open>n < LENGTH(16)\<close>
      by (cases "12 \<le> n") (auto simp: GetSequenceControl_def bit_simps)
  qed
  ultimately show ?thesis by (simp add: SetSequenceControl_def)
qed

lemma SetQosControl_Get:
  assumes f: "fields_ok h"
  shows "SetQosControl (GetQosControl h) r = copy_qos_control h r"
proof -
  have g: "m_qosTid h < 16" "m_qosEosp h < 2" "m_qosAckPolicy h < 4" "m_amsduPresent h < 2"
    using f by (simp_all add: fields_ok_def)
  note h = octet_high(1) [OF g(1)] octet_high(3) [OF g(2)] octet_high(2) [OF g(3)] octet_high(3) [OF g(4)]
  have "ucast (GetQosControl h AND 0x000f) = m_qosTid h"
    by (rule octet_bits) (simp_all add: GetQosControl_def bit_simps h)
  moreover have "ucast (drop_bit 5 (GetQosControl h) AND 0x0003) = m_qosAckPolicy h"
    by (rule octet_bits) (simp_all add: GetQosControl_def bit_simps h)
  moreover have "ucast (drop_bit 8 (GetQosControl h) AND 0x00ff) = m_qosStuff h"
    by (rule octet_bits) (simp_all add: GetQosControl_def bit_simps h)
  moreover have "bit (GetQosControl h) 4 = bit (m_qosEosp h) 0" "bit (GetQosControl h) 7 = bit (m_amsduPresent h) 0"
    by (simp_all add: GetQosControl_def bit_simps h)
  ultimately show ?thesis
    using g by (simp add: SetQosControl_def copy_qos_control_def one_bit)
qed

subsection \<open>Serialisation\<close>

lemmas type_defs = TYPE_MGT_def TYPE_CTL_def TYPE_DATA_def

lemma WifiMacHeader_wire_size:
  "WifiMacHeader_valid h \<Longrightarrow> unat (WifiMacHeader_GetSize h) = length (WifiMacHeader_wire h)"
  by (auto simp: WifiMacHeader_valid_def fields_ok_def WifiMacHeader_GetSize_def WifiMacHeader_wire_def type_defs
      ctl_two_addresses_def ctl_one_address_def)

lemma WifiMacHeader_emits:
  assumes "WifiMacHeader_valid h"
  shows "emits (WifiMacHeader_Serialize h) (WifiMacHeader_wire h)"
proof -
  have "m_ctrlType h = TYPE_MGT \<or> m_ctrlType h = TYPE_DATA \<or>
      (m_ctrlType h = TYPE_CTL \<and> (ctl_two_addresses (m_ctrlSubtype h) \<or> ctl_one_address (m_ctrlSubtype h)))"
    using assms by (simp add: WifiMacHeader_valid_def)
  then show ?thesis
    unfolding WifiMacHeader_Serialize_def WifiMacHeader_wire_def
    by (intro emits_writes emits_numbers emits_mac48)
      (elim disjE conjE; simp add: type_defs split del: if_split;
        (intro emits_writes emits_numbers emits_mac48)?; simp add: emits_skip emits_mac48 emits_numbers)
qed

lemma WifiMacHeader_parses:
  assumes "WifiMacHeader_valid h"
  shows "parses (WifiMacHeader_read_fields r) (WifiMacHeader_wire h) (WifiMacHeader_received r h)"
proof -
  have f: "fields_ok h" using assms by (simp add: WifiMacHeader_valid_def)
  have a: "length (m_addr1 h) = 6" "length (m_addr2 h) = 6" "length (m_addr3 h) = 6" "length (m_addr4 h) = 6"
    using f by (simp_all add: fields_ok_def)
  have t: "m_ctrlType h < 4" using assms by (auto simp: WifiMacHeader_valid_def type_defs)
  have cf: "m_ctrlType (copy_frame_control h r) = m_ctrlType h" "m_ctrlSubtype (copy_frame_control h r) = m_ctrlSubtype h"
    "m_ctrlToDs (copy_frame_control h r) = m_ctrlToDs h" "m_ctrlFromDs (copy_frame_control h r) = m_ctrlFromDs h"
    by (simp_all add: copy_frame_control_def)
  have sq: "m_ctrlToDs (SetSequenceControl v q) = m_ctrlToDs q" "m_ctrlFromDs (SetSequenceControl v q) = m_ctrlFromDs q"
    "m_ctrlSubtype (SetSequenceControl v q) = m_ctrlSubtype q" for v q
    by (simp_all add: SetSequenceControl_def)
  have address_4: "parses (if m_ctrlToDs h \<noteq> 0 \<and> m_ctrlFromDs h \<noteq> 0
        then reads_then ReadFrom_mac48 (\<lambda>a. returns (q\<lparr>m_addr4 := a\<rparr>)) else returns q)
      (if m_ctrlToDs h \<noteq> 0 \<and> m_ctrlFromDs h \<noteq> 0 then m_addr4 h else [])
      (if m_ctrlToDs h \<noteq> 0 \<and> m_ctrlFromDs h \<noteq> 0 then q\<lparr>m_addr4 := m_addr4 h\<rparr> else q)" for q
    using a by (auto intro!: parses_last [OF parses_mac48])
  note step = parses_then [OF parses_numbers(2)] parses_then [OF parses_mac48]
  consider "m_ctrlType h = TYPE_MGT" | "m_ctrlType h = TYPE_CTL" | "m_ctrlType h = TYPE_DATA"
    using assms by (auto simp: WifiMacHeader_valid_def)
  then show ?thesis
  proof cases
    case 1
    then have "\<not> m_ctrlType h = TYPE_CTL" "\<not> m_ctrlType h = TYPE_DATA" by (simp_all add: type_defs)
    with 1 show ?thesis
      unfolding WifiMacHeader_read_fields_def WifiMacHeader_wire_def WifiMacHeader_received_def
      by (intro step) (simp_all add: a Let_def SetFrameControl_Get [OF f t] cf,
        intro step parses_last [OF parses_numbers(2)] parses_returns_eq,
        simp_all add: a SetSequenceControl_Get [OF f])
  next
    case 2
    then have n: "\<not> m_ctrlType h = TYPE_MGT" by (simp add: type_defs)
    note simps = a Let_def SetFrameControl_Get [OF f t] cf
    show ?thesis
    proof (cases "ctl_two_addresses (m_ctrlSubtype h)")
      case True
      with 2 n show ?thesis
        unfolding WifiMacHeader_read_fields_def WifiMacHeader_wire_def WifiMacHeader_received_def
        by (intro step) (simp_all add: simps,
          intro step parses_last [OF parses_mac48] parses_returns_eq, simp_all add: a)
    next
      case False
      with 2 n show ?thesis
        unfolding WifiMacHeader_read_fields_def WifiMacHeader_wire_def WifiMacHeader_received_def
        by (intro step) (simp_all add: simps,
          intro parses_then [OF parses_numbers(2)] parses_last [OF parses_mac48] parses_returns_eq, simp_all add: a)
    qed
  next
    case 3
    then have "\<not> m_ctrlType h = TYPE_CTL" "\<not> m_ctrlType h = TYPE_MGT" by (simp_all add: type_defs)
    with 3 show ?thesis
      unfolding WifiMacHeader_read_fields_def WifiMacHeader_wire_def WifiMacHeader_received_def
      by (intro step) (simp_all add: a Let_def SetFrameControl_Get [OF f t] cf sq split del: if_split,
        intro step, simp_all add: a SetSequenceControl_Get [OF f] split del: if_split,
        rule parses_then, rule address_4,
        cases "m_ctrlToDs h \<noteq> 0 \<and> m_ctrlFromDs h \<noteq> 0"; cases "m_ctrlSubtype h AND 8 \<noteq> 0";
        auto intro!: parses_last [OF parses_numbers(2)] parses_returns_eq simp: cf SetQosControl_Get [OF f] SetSequenceControl_Get [OF f])
  qed
qed


text \<open>The Wi-Fi MAC header keeps the promises of a header.\<close>

lemma WifiMacHeader_short: "WifiMacHeader_valid h \<Longrightarrow> length (WifiMacHeader_wire h) \<le> 32"
  by (simp add: WifiMacHeader_wire_def WifiMacHeader_valid_def fields_ok_def)

interpretation wifi_mac: packet_header WifiMacHeader_GetSize WifiMacHeader_Serialize WifiMacHeader_Deserialize
  WifiMacHeader_wire WifiMacHeader_valid WifiMacHeader_received
proof
  fix h r M it
  assume v: "WifiMacHeader_valid h"
  show "unat (WifiMacHeader_GetSize h) = length (WifiMacHeader_wire h)" using v by (rule WifiMacHeader_wire_size)
  have n: "of_nat (length (WifiMacHeader_wire h)) = WifiMacHeader_GetSize h" by (simp flip: WifiMacHeader_wire_size [OF v])
  show "fills (WifiMacHeader_Serialize h) (WifiMacHeader_wire h)" using v by (intro emits_fills WifiMacHeader_emits)
  assume "ahead (WifiMacHeader_wire h) M it"
  with with_distance_parses [OF WifiMacHeader_parses [OF v]] WifiMacHeader_short [OF v]
  show "WifiMacHeader_Deserialize r M it = Some (WifiMacHeader_received r h, WifiMacHeader_GetSize h)"
    by (simp add: WifiMacHeader_Deserialize_def n)
qed

end
