(* ===== verification/Ipv4_Header.thy ===== *)
theory Ipv4_Header
  imports Buffer_Codec
begin

text \<open>
  The IPv4 header, \<open>internet/model/ipv4-header.cc\<close>, with the Internet checksum that \<open>Serialize\<close>
  computes over the bytes it has just written and \<open>Deserialize\<close> verifies.
\<close>

record Ipv4Header =
  m_calcChecksum :: bool
  m_payloadSize :: "16 word"
  m_identification :: "16 word"
  m_tos :: octet
  m_ttl :: octet
  m_protocol :: octet
  m_flags :: "3 word"
  m_fragmentOffset :: "16 word"
  m_source :: "32 word"
  m_destination :: "32 word"
  m_checksum :: "16 word"
  m_goodChecksum :: bool
  m_headerSize :: "16 word"

definition DONT_FRAGMENT :: "3 word" where "DONT_FRAGMENT = push_bit 0 1"

definition MORE_FRAGMENTS :: "3 word" where "MORE_FRAGMENTS = push_bit 1 1"

definition Ipv4Header_init :: Ipv4Header where
  "Ipv4Header_init = \<lparr>m_calcChecksum = False, m_payloadSize = 0, m_identification = 0, m_tos = 0, m_ttl = 0,
     m_protocol = 0, m_flags = 0, m_fragmentOffset = 0, m_source = 0, m_destination = 0, m_checksum = 0,
     m_goodChecksum = True, m_headerSize = 5 * 4\<rparr>"

definition SetMoreFragments :: "Ipv4Header \<Rightarrow> Ipv4Header" where
  "SetMoreFragments h = h\<lparr>m_flags := m_flags h OR MORE_FRAGMENTS\<rparr>"

definition SetLastFragment :: "Ipv4Header \<Rightarrow> Ipv4Header" where
  "SetLastFragment h = h\<lparr>m_flags := m_flags h AND NOT MORE_FRAGMENTS\<rparr>"

definition IsLastFragment :: "Ipv4Header \<Rightarrow> bool" where
  "IsLastFragment h \<longleftrightarrow> m_flags h AND MORE_FRAGMENTS = 0"

definition IsDontFragment :: "Ipv4Header \<Rightarrow> bool" where
  "IsDontFragment h \<longleftrightarrow> m_flags h AND DONT_FRAGMENT \<noteq> 0"

definition SetFragmentOffset :: "16 word \<Rightarrow> Ipv4Header \<Rightarrow> Ipv4Header option" where
  "SetFragmentOffset offsetBytes h =
     (if offsetBytes AND 0x7 \<noteq> 0 then None else Some (h\<lparr>m_fragmentOffset := offsetBytes\<rparr>))"

definition Ipv4Header_GetSerializedSize :: "Ipv4Header \<Rightarrow> 32 word" where
  "Ipv4Header_GetSerializedSize h = ucast (m_headerSize h)"

definition flags_frag :: "Ipv4Header \<Rightarrow> octet" where
  "flags_frag h =
     (let fragmentOffset = (ucast (m_fragmentOffset h) :: 32 word) div 8;
          flagsFrag = ucast (drop_bit 8 fragmentOffset AND 0x1f);
          flagsFrag = (if m_flags h AND DONT_FRAGMENT \<noteq> 0 then flagsFrag OR push_bit 6 1 else flagsFrag);
          flagsFrag = (if m_flags h AND MORE_FRAGMENTS \<noteq> 0 then flagsFrag OR push_bit 5 1 else flagsFrag)
      in flagsFrag)"

definition frag_low :: "Ipv4Header \<Rightarrow> octet" where
  "frag_low h = ucast ((ucast (m_fragmentOffset h) :: 32 word) div 8 AND 0xff)"

definition write_fields :: "Ipv4Header \<Rightarrow> writer" where
  "write_fields h =
     writes (WriteU8 (push_bit 4 4 OR 5)) (writes (WriteU8 (m_tos h))
     (writes (WriteHtonU16 (m_payloadSize h + 5 * 4)) (writes (WriteHtonU16 (m_identification h))
     (writes (WriteU8 (flags_frag h)) (writes (WriteU8 (frag_low h))
     (writes (WriteU8 (m_ttl h)) (writes (WriteU8 (m_protocol h))
     (writes (WriteHtonU16 0) (writes (WriteTo_ipv4 (m_source h)) (WriteTo_ipv4 (m_destination h)))))))))))"

definition Ipv4Header_Serialize :: "Ipv4Header \<Rightarrow> writer" where
  "Ipv4Header_Serialize h start M =
     do {
       (i, M) \<leftarrow> write_fields h start M;
       if m_calcChecksum h
       then do {
         (checksum, i) \<leftarrow> CalculateIpChecksum 20 0 M start;
         i \<leftarrow> Next 10 start;
         WriteU16 checksum i M
       }
       else Some (i, M)
     }"

definition Ipv4Header_read_fields :: "16 word \<Rightarrow> Ipv4Header \<Rightarrow> Ipv4Header reader" where
  "Ipv4Header_read_fields headerSize h =
     reads_then ReadU8 (\<lambda>tos. let h = h\<lparr>m_tos := tos\<rparr> in
     reads_then ReadNtohU16 (\<lambda>sz. let h = h\<lparr>m_payloadSize := sz - headerSize\<rparr> in
     reads_then ReadNtohU16 (\<lambda>ident. let h = h\<lparr>m_identification := ident\<rparr> in
     reads_then ReadU8 (\<lambda>flags.
       let h = h\<lparr>m_flags := 0\<rparr>;
           h = (if flags AND push_bit 6 1 \<noteq> 0 then h\<lparr>m_flags := m_flags h OR DONT_FRAGMENT\<rparr> else h);
           h = (if flags AND push_bit 5 1 \<noteq> 0 then h\<lparr>m_flags := m_flags h OR MORE_FRAGMENTS\<rparr> else h) in
     reads_then (\<lambda>M i. map_option (Pair ()) (Prev 1 i)) (\<lambda>_.
     reads_then ReadU8 (\<lambda>hi. let h = h\<lparr>m_fragmentOffset := ucast (hi AND 0x1f)\<rparr>;
                              h = h\<lparr>m_fragmentOffset := push_bit 8 (m_fragmentOffset h)\<rparr> in
     reads_then ReadU8 (\<lambda>lo. let h = h\<lparr>m_fragmentOffset := m_fragmentOffset h OR ucast lo\<rparr>;
                              h = h\<lparr>m_fragmentOffset := push_bit 3 (m_fragmentOffset h)\<rparr> in
     reads_then ReadU8 (\<lambda>ttl. let h = h\<lparr>m_ttl := ttl\<rparr> in
     reads_then ReadU8 (\<lambda>protocol. let h = h\<lparr>m_protocol := protocol\<rparr> in
     reads_then ReadU16 (\<lambda>checksum. let h = h\<lparr>m_checksum := checksum\<rparr> in
     reads_then ReadFrom_ipv4 (\<lambda>ad. let h = h\<lparr>m_source := ad\<rparr> in
     reads_then ReadFrom_ipv4 (\<lambda>ad. let h = h\<lparr>m_destination := ad\<rparr> in
     returns (h\<lparr>m_headerSize := headerSize\<rparr>)))))))))))))"

definition Ipv4Header_Deserialize :: "Ipv4Header \<Rightarrow> memory \<Rightarrow> iterator \<Rightarrow> (Ipv4Header \<times> 32 word) option" where
  "Ipv4Header_Deserialize h M start =
     do {
       (verIhl, i) \<leftarrow> ReadU8 M start;
       let ihl = verIhl AND 0x0f;
       let headerSize = ucast ihl * 4;
       if drop_bit 4 verIhl \<noteq> 4 then Some (h, 0)
       else do {
         (h, i) \<leftarrow> Ipv4Header_read_fields headerSize h M i;
         h \<leftarrow> (if m_calcChecksum h
               then map_option (\<lambda>(checksum, _). h\<lparr>m_goodChecksum := (checksum = 0)\<rparr>) (CalculateIpChecksum headerSize 0 M start)
               else Some h);
         Some (h, Ipv4Header_GetSerializedSize h)
       }
     }"

subsection \<open>The checksum as a function of bytes\<close>

fun word_sum :: "octet list \<Rightarrow> 32 word" where
  "word_sum (a # b # bs) = ucast (shift_in (ucast b) a :: 16 word) + word_sum bs"
| "word_sum [a] = ucast a"
| "word_sum [] = 0"

definition complement_sum :: "32 word \<Rightarrow> 16 word" where
  "complement_sum s = (case fold_carries 4 s of None \<Rightarrow> 0 | Some r \<Rightarrow> ucast (NOT r))"

definition ip_checksum :: "octet list \<Rightarrow> 16 word" where
  "ip_checksum bs = complement_sum (word_sum bs)"

lemma fold_carries_step:
  "unat ((s AND 0xffff) + drop_bit 16 (s :: 32 word)) = unat s mod 65536 + unat s div 65536"
proof -
  have m: "(0xffff :: 32 word) = mask 16" by (simp add: mask_eq_exp_minus_1)
  have a: "unat (s AND 0xffff) = unat s mod 65536" unfolding m by (simp add: unsigned_take_bit_eq take_bit_nat_def flip: take_bit_eq_mask)
  have b: "unat (drop_bit 16 s) = unat s div 65536" by (simp add: unat_drop_bit_eq drop_bit_nat_def)
  have "unat s < 2 ^ 32" using unsigned_less [of s] by simp
  then have "unat s div 65536 < 65536" by (simp add: less_mult_imp_div_less)
  then show ?thesis using a b by (subst unat_plus) simp_all
qed

lemma fold_carries_ok:
  "\<exists>r. fold_carries 4 s = Some r \<and> unat r < 65536 \<and> unat r mod 65535 = unat s mod 65535 \<and> (unat r = 0 \<longleftrightarrow> unat s = 0)"
proof -
  define f where "f x = x mod 65536 + x div 65536" for x :: nat
  define g where "g s = (s AND 0xffff) + drop_bit 16 s" for s :: "32 word"
  have g: "unat (g s) = f (unat s)" for s by (simp add: g_def f_def fold_carries_step)
  have dz: "drop_bit 16 s = 0 \<longleftrightarrow> unat s < 65536" for s :: "32 word"
  proof -
    have "unat (drop_bit 16 s) = unat s div 65536" by (simp add: unat_drop_bit_eq drop_bit_nat_def)
    moreover have "drop_bit 16 s = 0 \<longleftrightarrow> unat (drop_bit 16 s) = 0" by (simp add: unat_eq_0)
    ultimately show ?thesis by auto
  qed
  have f: "f x mod 65535 = x mod 65535" "f x = 0 \<longleftrightarrow> x = 0" for x
  proof -
    have "x = x mod 65536 + 65536 * (x div 65536)" by simp
    then have "x = f x + 65535 * (x div 65536)" unfolding f_def by linarith
    then show "f x mod 65535 = x mod 65535" by (metis mod_mult_self2)
    show "f x = 0 \<longleftrightarrow> x = 0" unfolding f_def by (metis add_is_0 div_eq_0_iff mod_less not_gr_zero zero_neq_numeral)
  qed
  obtain r where r: "r = (if unat s < 65536 then s else if unat (g s) < 65536 then g s else g (g s))" by blast
  have lt: "unat s < 2 ^ 32" using unsigned_less [of s] by simp
  have "unat s div 65536 < 65536" "unat s mod 65536 < 65536" using lt by (simp_all add: less_mult_imp_div_less)
  then have g1: "unat (g s) \<le> 131070" unfolding g f_def by linarith
  have "y mod 65536 + y div 65536 < 65536" if "y \<le> 131070" for y :: nat
  proof -
    have "y div 65536 \<le> 131070 div 65536" using that by (rule div_le_mono)
    then have "y div 65536 = 0 \<or> y div 65536 = 1" by auto
    moreover have "y = 65536 * (y div 65536) + y mod 65536" by simp
    moreover have "y mod 65536 < 65536" by simp
    ultimately show ?thesis using that by linarith
  qed
  then have g2: "unat (g (g s)) < 65536" using g1 unfolding g [of "g s"] f_def by blast
  have "fold_carries (Suc (Suc (Suc (Suc 0)))) s = Some r"
    using g2 by (simp add: r dz g_def [symmetric])
  moreover have "(4 :: nat) = Suc (Suc (Suc (Suc 0)))" by simp
  ultimately have r1: "fold_carries 4 s = Some r" by (simp only:)
  have r2: "unat r < 65536" using g2 by (simp add: r)
  have "r = s \<or> r = g s \<or> r = g (g s)" by (simp add: r)
  then have "unat r mod 65535 = unat s mod 65535 \<and> (unat r = 0 \<longleftrightarrow> unat s = 0)"
    by (elim disjE) (simp_all only: g f simp_thms)
  with r1 r2 show ?thesis by (intro exI [of _ r] conjI) simp_all
qed


text \<open>The sum of \<open>n\<close> bytes does not wrap.\<close>

lemma word_sum_bound: "length bs \<le> 65536 \<Longrightarrow> unat (word_sum bs) \<le> 65535 * ((length bs + 1) div 2)"
proof (induction bs rule: word_sum.induct)
  case (1 a b bs)
  let ?w = "shift_in (ucast b) a :: 16 word"
  have w2: "unat ?w < 65536" using unsigned_less [of ?w, where 'a = nat] by simp
  then have w: "unat (ucast ?w :: 32 word) = unat ?w" by (simp add: unsigned_ucast_eq take_bit_nat_eq_self)
  have "unat (word_sum bs) \<le> 65535 * ((length bs + 1) div 2)" using 1 by simp
  moreover have "(length bs + 1) div 2 \<le> 32768" using 1(2) by simp
  ultimately have "unat (word_sum bs) \<le> 65535 * 32768" by linarith
  then have "unat (word_sum (a # b # bs)) = unat ?w + unat (word_sum bs)"
    using w w2 by (simp add: unat_plus)
  moreover have "(length (a # b # bs) + 1) div 2 = Suc ((length bs + 1) div 2)" by simp
  ultimately show ?case using \<open>unat (word_sum bs) \<le> 65535 * ((length bs + 1) div 2)\<close> w2 by simp
next
  case (2 a)
  have "unat a < 256" using unsigned_less [of a, where 'a = nat] by simp
  then show ?case by (simp add: unsigned_ucast_eq take_bit_nat_eq_self)
qed simp

lemma parses_checksum_loop:
  "length bs = 2 * n \<Longrightarrow> parses (checksum_loop n acc) bs (acc + word_sum bs)"
proof (induction n arbitrary: bs acc)
  case (Suc n)
  then obtain a b r where bs: "bs = a # b # r" "length r = 2 * n" by (auto simp: length_Suc_conv)
  let ?v = "shift_in (ucast b) a :: 16 word"
  have "parses ReadU16 [a, b] ?v" unfolding ReadU16_def by (intro parses_ReadU8s parses_returns)
  from parses_then [of ReadU16 "[a, b]" ?v "\<lambda>v. checksum_loop n (acc + ucast v)", OF this Suc.IH [OF bs(2), of "acc + ucast ?v"]]
  show ?case by (simp add: bs add.assoc)
qed (simp add: parses_returns)

lemma parses_checksum:
  assumes "even (length bs)" and "length bs < 65536"
    and a: "ahead bs M it"
  shows "\<exists>it'. CalculateIpChecksum (of_nat (length bs)) 0 M it = Some (ip_checksum bs, it')"
proof -
  have n: "unat (of_nat (length bs) :: 16 word) = length bs" using assms(2) by (simp add: unat_of_nat)
  have e: "(of_nat (length bs) :: 16 word) AND 1 = 0"
    using assms(1) by (simp add: and_one_eq even_of_nat flip: even_iff_mod_2_eq_zero) 
  from fold_carries_ok [of "word_sum bs"] obtain r where r: "fold_carries 4 (word_sum bs) = Some r" by blast
  have "length bs = 2 * (length bs div 2)" using assms(1) by simp
  from parses_checksum_loop [OF this, of 0]
  show ?thesis using n e r a
    by (simp add: CalculateIpChecksum_def parses_def reads_then_def returns_def ip_checksum_def complement_sum_def)
qed


lemma word_sum_append: "even (length xs) \<Longrightarrow> word_sum (xs @ ys) = word_sum xs + word_sum ys"
  by (induction xs rule: word_sum.induct) (simp_all add: add.assoc)

lemma complement_sum_ok:
  assumes "unat s > 0"
  shows "unat (complement_sum s) < 65535" and "(unat s + unat (complement_sum s)) mod 65535 = 0"
    and "complement_sum s = 0 \<longleftrightarrow> unat s mod 65535 = 0"
proof -
  from fold_carries_ok [of s] obtain r where r: "fold_carries 4 s = Some r" "unat r < 65536"
    "unat r mod 65535 = unat s mod 65535" "unat r > 0" using assms by auto
  have "NOT (ucast r :: 16 word) = - 1 - ucast r" by (simp add: not_eq_complement)
  have u: "unat (ucast r :: 16 word) = unat r" using r(2) by (simp add: unsigned_ucast_eq take_bit_nat_eq_self)
  have "(ucast (NOT r) :: 16 word) = NOT (ucast r)" by (rule bit_word_eqI) (simp add: bit_simps)
  then have c: "complement_sum s = - 1 - ucast r" by (simp add: complement_sum_def r(1) not_eq_complement)
  have m: "(- 1 :: 16 word) = 65535" by simp
  have "unat (complement_sum s) = 65535 - unat r" unfolding c m using r(2) u by (subst unat_sub) (simp_all add: word_le_nat_alt)
  then have e: "unat (complement_sum s) = 65535 - unat r" .
  show "unat (complement_sum s) < 65535" using e r(4) by linarith
  have le: "unat r \<le> 65535" using r(2) by linarith
  have "(unat s + (65535 - unat r)) mod 65535 = (unat r + (65535 - unat r)) mod 65535"
    using r(3) by (metis mod_add_left_eq)
  also have "\<dots> = 0" using le by simp
  finally show "(unat s + unat (complement_sum s)) mod 65535 = 0" by (simp only: e)
  have "complement_sum s = 0 \<longleftrightarrow> unat (complement_sum s) = 0" by (simp add: unat_eq_0)
  also have "\<dots> \<longleftrightarrow> unat r = 65535" using e le by linarith
  also have "\<dots> \<longleftrightarrow> unat r mod 65535 = 0"
  proof
    assume z: "unat r mod 65535 = 0"
    show "unat r = 65535"
    proof (rule ccontr)
      assume "unat r \<noteq> 65535"
      then have "unat r < 65535" using le by linarith
      then have "unat r mod 65535 = unat r" by (rule mod_less)
      then show False using z r(4) by linarith
    qed
  qed simp
  finally show "complement_sum s = 0 \<longleftrightarrow> unat s mod 65535 = 0" by (simp only: r(3))
qed


subsection \<open>The bytes of the header\<close>

definition wire_front :: "Ipv4Header \<Rightarrow> octet list" where
  "wire_front h = [0x45, m_tos h] @ msb_bytes 2 (m_payloadSize h + 20) @ msb_bytes 2 (m_identification h) @
     [flags_frag h, frag_low h, m_ttl h, m_protocol h]"

definition wire_back :: "Ipv4Header \<Rightarrow> octet list" where
  "wire_back h = msb_bytes 4 (m_source h) @ msb_bytes 4 (m_destination h)"

text \<open>The checksum that is sent.\<close>

definition sent_checksum :: "Ipv4Header \<Rightarrow> 16 word" where
  "sent_checksum h =
     (if m_calcChecksum h then ip_checksum (wire_front h @ lsb_bytes 2 (0 :: 16 word) @ wire_back h) else 0)"

definition Ipv4Header_wire :: "Ipv4Header \<Rightarrow> octet list" where
  "Ipv4Header_wire h = wire_front h @ lsb_bytes 2 (sent_checksum h) @ wire_back h"

definition Ipv4Header_valid :: "Ipv4Header \<Rightarrow> bool" where
  "Ipv4Header_valid h \<longleftrightarrow> m_headerSize h = 20 \<and> m_fragmentOffset h AND 7 = 0 \<and> m_flags h < 4"

definition Ipv4Header_received :: "Ipv4Header \<Rightarrow> Ipv4Header \<Rightarrow> Ipv4Header" where
  "Ipv4Header_received r h =
     (let r' = r\<lparr>m_tos := m_tos h, m_payloadSize := m_payloadSize h, m_identification := m_identification h,
        m_flags := m_flags h, m_fragmentOffset := m_fragmentOffset h, m_ttl := m_ttl h, m_protocol := m_protocol h,
        m_checksum := sent_checksum h, m_source := m_source h, m_destination := m_destination h, m_headerSize := 20\<rparr>
      in if m_calcChecksum r then r'\<lparr>m_goodChecksum := (ip_checksum (Ipv4Header_wire h) = 0)\<rparr> else r')"

lemma wire_lengths [simp]: "length (wire_front h) = 10" "length (wire_back h) = 8" "length (Ipv4Header_wire h) = 20"
  by (simp_all add: wire_front_def wire_back_def Ipv4Header_wire_def)

lemma emits_write_fields: "emits (write_fields h) (wire_front h @ lsb_bytes 2 (0 :: 16 word) @ wire_back h)"
proof -
  have "emits (write_fields h) ([push_bit 4 4 OR 5] @ [m_tos h] @ msb_bytes 2 (m_payloadSize h + 5 * 4) @ msb_bytes 2 (m_identification h) @
      [flags_frag h] @ [frag_low h] @ [m_ttl h] @ [m_protocol h] @ msb_bytes 2 (0 :: 16 word) @ msb_bytes 4 (m_source h) @ msb_bytes 4 (m_destination h))"
    unfolding write_fields_def by (intro emits_writes emits_WriteU8 emits_numbers emits_ipv4)
  then show ?thesis by (simp add: wire_front_def wire_back_def bytes_0)
qed

lemma checksum_20:
  assumes "ahead bs M it" and "length bs = 20"
  obtains it' where "CalculateIpChecksum 20 0 M it = Some (ip_checksum bs, it')"
proof -
  have "even (length bs)" "length bs < 65536" using assms(2) by simp_all
  from parses_checksum [OF this assms(1)] obtain it' where
    "CalculateIpChecksum (of_nat (length bs)) 0 M it = Some (ip_checksum bs, it')" ..
  then have "CalculateIpChecksum 20 0 M it = Some (ip_checksum bs, it')" using assms(2) by simp
  then show thesis by (rule that)
qed

lemma Ipv4Header_fills: "fills (Ipv4Header_Serialize h) (Ipv4Header_wire h)"
  unfolding fills_def
proof (intro allI impI)
  fix it M
  let ?z = "lsb_bytes 2 (0 :: 16 word)"
  assume "room_for (length (Ipv4Header_wire h)) it M"
  then have r: "room_for (length (wire_front h @ ?z @ wire_back h)) it M" by simp
  from put_room [OF r order_refl] obtain it1 M1 where p: "put True (wire_front h @ ?z @ wire_back h) it M = Some (it1, M1)" by blast
  have w: "write_fields h it M = Some (it1, M1)" using emits_write_fields [of h] r p by (simp add: emits_def)
  show "map_option snd (Ipv4Header_Serialize h it M) = map_option snd (put True (Ipv4Header_wire h) it M)"
  proof (cases "m_calcChecksum h")
    case False
    then show ?thesis using w p by (simp add: Ipv4Header_Serialize_def Ipv4Header_wire_def sent_checksum_def)
  next
    case True
    from checksum_20 [OF put_ahead [OF r p]] obtain it2 where
      c: "CalculateIpChecksum 20 0 M1 it = Some (sent_checksum h, it2)" using True by (auto simp: sent_checksum_def)
    let ?it = "it\<lparr>m_current := m_current it + of_nat (length (wire_front h))\<rparr>"
    have "m_current it + 10 \<le> m_dataEnd it"
      using room_forD(2,7) [OF r] room_forD(6) [OF r, of 10] by (simp add: word_le_nat_alt)
    then have n: "Next 10 it = Some ?it" by (simp add: Next_def)
    have "length (lsb_bytes 2 (sent_checksum h)) = length ?z" by simp
    note again = put_again [OF r p this]
    from again(1) have "WriteU16 (sent_checksum h) ?it M1 = put True (lsb_bytes 2 (sent_checksum h)) ?it M1"
      using emits_numbers(1) [of "sent_checksum h"] unfolding emits_def by blast
    then show ?thesis
      using True w c n again(2) by (simp add: Ipv4Header_Serialize_def Ipv4Header_wire_def)
  qed
qed

text \<open>The receiver finds the sum of a header with its checksum to be zero.\<close>

lemma word_sum_front_pos: "unat (word_sum (wire_front h)) > 0"
proof -
  obtain rest where f: "wire_front h = 0x45 # m_tos h # rest" "length rest = 8"
    by (simp add: wire_front_def)
  let ?w = "shift_in (ucast (m_tos h)) 0x45 :: 16 word"
  have "bit ?w 0" by (simp add: shift_in_def bit_simps)
  then have "?w \<noteq> 0" by auto
  moreover have lt: "unat ?w < 65536" using unsigned_less [of ?w, where 'a = nat] by simp
  ultimately have w: "unat (ucast ?w :: 32 word) = unat ?w" "unat ?w > 0"
    by (simp_all add: unsigned_ucast_eq take_bit_nat_eq_self unat_gt_0)
  have "unat (word_sum rest) \<le> 65535 * 4" using word_sum_bound [of rest] f(2) by simp
  then have "unat (word_sum (wire_front h)) = unat ?w + unat (word_sum rest)"
    using w lt by (simp add: f(1) unat_plus)
  then show ?thesis using w(2) by linarith
qed

lemma checksum_verifies:
  assumes "m_calcChecksum h"
  shows "ip_checksum (Ipv4Header_wire h) = 0"
proof -
  let ?s = "word_sum (wire_front h @ lsb_bytes 2 (0 :: 16 word) @ wire_back h)"
  let ?c = "sent_checksum h"
  have c: "?c = complement_sum ?s" using assms by (simp add: sent_checksum_def ip_checksum_def)
  have e: "even (length (wire_front h))" by simp
  have two: "word_sum (lsb_bytes 2 x @ xs) = ucast x + word_sum xs" for x :: "16 word" and xs
    by (simp add: bytes_16 join_16)
  have s: "?s = word_sum (wire_front h) + word_sum (wire_back h)"
    using two [of 0] by (simp add: word_sum_append [OF e])
  have w: "word_sum (Ipv4Header_wire h) = ?s + ucast ?c"
    by (simp add: Ipv4Header_wire_def word_sum_append [OF e] two s)
  have "unat ?c < 65536" using unsigned_less [of ?c, where 'a = nat] by simp
  then have cu: "unat (ucast ?c :: 32 word) = unat ?c" by (simp add: unsigned_ucast_eq take_bit_nat_eq_self)
  have b: "unat (word_sum (wire_front h)) \<le> 65535 * 5" "unat (word_sum (wire_back h)) \<le> 65535 * 4"
    using word_sum_bound [of "wire_front h"] word_sum_bound [of "wire_back h"] by simp_all
  have us: "unat ?s = unat (word_sum (wire_front h)) + unat (word_sum (wire_back h))"
    unfolding s using b by (subst unat_plus) simp_all
  have pos: "unat ?s > 0" using us word_sum_front_pos [of h] by linarith
  note k = complement_sum_ok(1,2) [OF pos, folded c]
  have uw: "unat (word_sum (Ipv4Header_wire h)) = unat ?s + unat ?c"
    unfolding w using k(1) cu us b by (subst unat_plus) simp_all
  then have "unat (word_sum (Ipv4Header_wire h)) > 0" using pos by linarith
  from complement_sum_ok(3) [OF this] show ?thesis using k(2) uw by (simp add: ip_checksum_def)
qed


subsection \<open>Reading the header\<close>

lemma bits_16:
  assumes "\<And>n. n < 3 \<Longrightarrow> bit (x :: 16 word) n = bit y n" and "\<And>n. n < 8 \<Longrightarrow> bit x (3 + n) = bit y (3 + n)"
    and "\<And>n. n < 5 \<Longrightarrow> bit x (11 + n) = bit y (11 + n)"
  shows "x = y"
proof (rule bit_word_eqI)
  fix n assume n: "n < LENGTH(16)"
  consider "n < 3" | "3 \<le> n" "n - 3 < 8" | "11 \<le> n" "n - 11 < 5" using n by fastforce
  then show "bit x n = bit y n"
  proof cases
    case 1 then show ?thesis by (rule assms(1))
  next
    case 2 then show ?thesis using assms(2) [of "n - 3"] by simp
  next
    case 3 then show ?thesis using assms(3) [of "n - 11"] by simp
  qed
qed

lemma div_8: "(x :: 32 word) div 8 = drop_bit 3 x"
  by (simp add: drop_bit_eq_div)

lemma mask_8: "(7 :: 16 word) = mask 3" "(0x1f :: 32 word) = mask 5" "(0x1f :: octet) = mask 5"
  by (simp_all add: mask_eq_exp_minus_1)

lemma flags_frag_bits:
  "n < 5 \<Longrightarrow> bit (flags_frag h) n = bit (m_fragmentOffset h) (11 + n)"
  "bit (flags_frag h) 6 \<longleftrightarrow> m_flags h AND DONT_FRAGMENT \<noteq> 0"
  "bit (flags_frag h) 5 \<longleftrightarrow> m_flags h AND MORE_FRAGMENTS \<noteq> 0"
proof -
  have "\<not> bit (64 :: octet) n \<and> \<not> bit (32 :: octet) n" if "n < 5" for n
  proof -
    have "n = 0 \<or> n = 1 \<or> n = 2 \<or> n = 3 \<or> n = 4" using that by linarith
    then show ?thesis by (elim disjE) simp_all
  qed
  then show "n < 5 \<Longrightarrow> bit (flags_frag h) n = bit (m_fragmentOffset h) (11 + n)"
    unfolding flags_frag_def div_8 mask_8 Let_def by (auto simp: bit_simps)
qed (auto simp: flags_frag_def div_8 mask_8 Let_def bit_simps)

lemma fragment_offset_read:
  assumes "m_fragmentOffset h AND 7 = 0"
  shows "push_bit 3 (push_bit 8 (ucast (flags_frag h AND 0x1f)) OR ucast (frag_low h)) = m_fragmentOffset h" (is "?l = _")
proof (rule bits_16)
  fix n :: nat
  show "n < 3 \<Longrightarrow> bit ?l n = bit (m_fragmentOffset h) n"
  proof -
    assume n: "n < 3"
    have "bit (m_fragmentOffset h AND mask 3) n = bit (0 :: 16 word) n" using assms unfolding mask_8 by simp
    then show ?thesis using n by (simp add: bit_simps)
  qed
  show "n < 8 \<Longrightarrow> bit ?l (3 + n) = bit (m_fragmentOffset h) (3 + n)"
    unfolding frag_low_def div_8 by (simp add: bit_simps)
  show "n < 5 \<Longrightarrow> bit ?l (11 + n) = bit (m_fragmentOffset h) (11 + n)"
    unfolding mask_8 by (simp add: bit_simps flags_frag_bits(1) frag_low_def)
qed


lemma flags_read:
  assumes "m_flags h < 4"
  shows "(if flags_frag h AND push_bit 5 1 \<noteq> 0
       then (if flags_frag h AND push_bit 6 1 \<noteq> 0 then 0 OR DONT_FRAGMENT else 0) OR MORE_FRAGMENTS
       else (if flags_frag h AND push_bit 6 1 \<noteq> 0 then 0 OR DONT_FRAGMENT else 0)) = m_flags h"
proof -
  have b: "w AND push_bit k 1 \<noteq> 0 \<longleftrightarrow> bit w k" for w :: octet and k :: nat
    by (metis and_exp_eq_0_iff_not_bit push_bit_of_1)
  have "unat (m_flags h) < 4" using assms by (simp add: word_less_nat_alt)
  then have "unat (m_flags h) = 0 \<or> unat (m_flags h) = 1 \<or> unat (m_flags h) = 2 \<or> unat (m_flags h) = 3" by linarith
  then have "m_flags h = 0 \<or> m_flags h = 1 \<or> m_flags h = 2 \<or> m_flags h = 3"
    by (simp add: word_unat_eq_iff)
  then show ?thesis
    unfolding b flags_frag_bits(2,3) by (elim disjE) (simp_all add: DONT_FRAGMENT_def MORE_FRAGMENTS_def)
qed

lemma Ipv4Header_parses:
  assumes "Ipv4Header_valid h"
  shows "parses (Ipv4Header_read_fields 20 r) (tl (Ipv4Header_wire h))
    (r\<lparr>m_tos := m_tos h, m_payloadSize := m_payloadSize h, m_identification := m_identification h,
        m_flags := m_flags h, m_fragmentOffset := m_fragmentOffset h, m_ttl := m_ttl h, m_protocol := m_protocol h,
        m_checksum := sent_checksum h, m_source := m_source h, m_destination := m_destination h, m_headerSize := 20\<rparr>)"
proof -
  have v: "m_fragmentOffset h AND 7 = 0" "m_flags h < 4" using assms by (simp_all add: Ipv4Header_valid_def)
  have w: "tl (Ipv4Header_wire h) = m_tos h # msb_bytes 2 (m_payloadSize h + 20) @ msb_bytes 2 (m_identification h) @
      flags_frag h # frag_low h # m_ttl h # m_protocol h # lsb_bytes 2 (sent_checksum h) @
      msb_bytes 4 (m_source h) @ msb_bytes 4 (m_destination h)"
    by (simp add: Ipv4Header_wire_def wire_front_def wire_back_def)
  show ?thesis
    unfolding w Ipv4Header_read_fields_def
    by (rule parses_ReadU8s, simp only: Let_def, rule parses_then, rule parses_ReadNtohU16,
        rule parses_then, rule parses_ReadNtohU16, rule parses_again,
        rule parses_ReadU8s, rule parses_ReadU8s, rule parses_ReadU8s, rule parses_then, rule parses_numbers,
        rule parses_then, rule parses_ipv4, rule parses_last, rule parses_ipv4, rule parses_returns_eq,
        cases "flags_frag h AND push_bit 6 1 \<noteq> 0"; cases "flags_frag h AND push_bit 5 1 \<noteq> 0";
        use flags_read [OF v(2)] fragment_offset_read [OF v(1)] in simp)
qed


text \<open>The IPv4 header keeps the promises of a header.\<close>

interpretation ipv4: packet_header Ipv4Header_GetSerializedSize Ipv4Header_Serialize Ipv4Header_Deserialize
  Ipv4Header_wire Ipv4Header_valid Ipv4Header_received
proof
  fix h r :: Ipv4Header and M it
  assume v: "Ipv4Header_valid h"
  then have s: "Ipv4Header_GetSerializedSize h = 20" by (simp add: Ipv4Header_valid_def Ipv4Header_GetSerializedSize_def)
  show "unat (Ipv4Header_GetSerializedSize h) = length (Ipv4Header_wire h)" by (simp add: s)
  show "fills (Ipv4Header_Serialize h) (Ipv4Header_wire h)" by (rule Ipv4Header_fills)
  assume a: "ahead (Ipv4Header_wire h) M it"
  have w: "Ipv4Header_wire h = 0x45 # tl (Ipv4Header_wire h)" by (simp add: Ipv4Header_wire_def wire_front_def)
  have first: "ReadU8 M it = Some (0x45, it\<lparr>m_current := m_current it + 1\<rparr>)"
  proof -
    have "take 1 (Ipv4Header_wire h) = [0x45]" by (subst w) simp
    then have "ahead [0x45] M it" using ahead_step(3) [OF a, of 1] by simp
    then show ?thesis using parses_ReadU8 [of "0x45"] by (simp add: parses_def)
  qed
  have "ahead (tl (Ipv4Header_wire h)) M (it\<lparr>m_current := m_current it + 1\<rparr>)"
    using ahead_step(2) [OF a, of 1] by (simp add: drop_Suc)
  with Ipv4Header_parses [OF v, of r] obtain it1 where
    rest: "Ipv4Header_read_fields 20 r M (it\<lparr>m_current := m_current it + 1\<rparr>) =
      Some (r\<lparr>m_tos := m_tos h, m_payloadSize := m_payloadSize h, m_identification := m_identification h,
        m_flags := m_flags h, m_fragmentOffset := m_fragmentOffset h, m_ttl := m_ttl h, m_protocol := m_protocol h,
        m_checksum := sent_checksum h, m_source := m_source h, m_destination := m_destination h, m_headerSize := 20\<rparr>, it1)"
    by (auto simp: parses_def)
  from checksum_20 [OF a] obtain it2 where "CalculateIpChecksum 20 0 M it = Some (ip_checksum (Ipv4Header_wire h), it2)" by auto
  then show "Ipv4Header_Deserialize r M it = Some (Ipv4Header_received r h, Ipv4Header_GetSerializedSize h)"
    by (simp add: Ipv4Header_Deserialize_def first rest Ipv4Header_received_def Ipv4Header_GetSerializedSize_def
        v [unfolded Ipv4Header_valid_def])
qed

end
