(* ===== verification/Packet_Headers.thy ===== *)
theory Packet_Headers
  imports Buffer_Codec
begin

text \<open>
  The small headers of the link layers: LLC/SNAP and Ethernet (\<open>network/utils\<close>), PPP
  (\<open>point-to-point/model/ppp-header.cc\<close>), A-MSDU subframes (\<open>wifi/model/amsdu-subframe-header.cc\<close>) and
  ARP (\<open>internet/model/arp-header.cc\<close>).
\<close>

subsection \<open>LLC/SNAP\<close>

record LlcSnapHeader =
  m_etherType :: "16 word"

definition LlcSnapHeader_GetSerializedSize :: "LlcSnapHeader \<Rightarrow> 32 word" where
  "LlcSnapHeader_GetSerializedSize h = 8"

definition LlcSnapHeader_Serialize :: "LlcSnapHeader \<Rightarrow> writer" where
  "LlcSnapHeader_Serialize h = writes (Write [0xaa, 0xaa, 0x03, 0, 0, 0]) (WriteHtonU16 (m_etherType h))"

definition LlcSnapHeader_Deserialize :: "LlcSnapHeader \<Rightarrow> memory \<Rightarrow> iterator \<Rightarrow> (LlcSnapHeader \<times> 32 word) option" where
  "LlcSnapHeader_Deserialize h M start =
     do {
       i \<leftarrow> Next (5 + 1) start;
       (t, i) \<leftarrow> ReadNtohU16 M i;
       let h = h\<lparr>m_etherType := t\<rparr>;
       Some (h, LlcSnapHeader_GetSerializedSize h)
     }"

subsection \<open>Ethernet\<close>

record EthernetHeader =
  m_enPreambleSfd :: bool
  m_preambleSfd :: "64 word"
  m_lengthType :: "16 word"
  eth_source :: mac48
  eth_destination :: mac48

definition EthernetHeader_GetSerializedSize :: "EthernetHeader \<Rightarrow> 32 word" where
  "EthernetHeader_GetSerializedSize h = (if m_enPreambleSfd h then 8 + 2 + 2 * 6 else 2 + 2 * 6)"

text \<open>\<open>WriteU64\<close> writes the least significant byte first.\<close>

definition EthernetHeader_Serialize :: "EthernetHeader \<Rightarrow> writer" where
  "EthernetHeader_Serialize h =
     writes (if m_enPreambleSfd h then WriteU64 (m_preambleSfd h) else skip)
       (writes (WriteTo_mac48 (eth_destination h)) (writes (WriteTo_mac48 (eth_source h)) (WriteHtonU16 (m_lengthType h))))"

text \<open>\<open>m_enPreambleSfd = i.ReadU64 ()\<close>: the number that is read becomes the flag.\<close>

definition EthernetHeader_read_fields :: "EthernetHeader \<Rightarrow> EthernetHeader reader" where
  "EthernetHeader_read_fields h =
     reads_then (if m_enPreambleSfd h then reads_then ReadU64 (\<lambda>v. returns (h\<lparr>m_enPreambleSfd := (v \<noteq> 0)\<rparr>)) else returns h) (\<lambda>h.
     reads_then ReadFrom_mac48 (\<lambda>a. let h = h\<lparr>eth_destination := a\<rparr> in
     reads_then ReadFrom_mac48 (\<lambda>a. let h = h\<lparr>eth_source := a\<rparr> in
     reads_then ReadNtohU16 (\<lambda>t. returns (h\<lparr>m_lengthType := t\<rparr>)))))"

definition EthernetHeader_Deserialize :: "EthernetHeader \<Rightarrow> memory \<Rightarrow> iterator \<Rightarrow> (EthernetHeader \<times> 32 word) option" where
  "EthernetHeader_Deserialize h M start =
     map_option (\<lambda>(h, _). (h, EthernetHeader_GetSerializedSize h)) (EthernetHeader_read_fields h M start)"

subsection \<open>PPP\<close>

record PppHeader =
  ppp_protocol :: "16 word"

definition PppHeader_GetSerializedSize :: "PppHeader \<Rightarrow> 32 word" where
  "PppHeader_GetSerializedSize h = 2"

definition PppHeader_Serialize :: "PppHeader \<Rightarrow> writer" where
  "PppHeader_Serialize h = WriteHtonU16 (ppp_protocol h)"

definition PppHeader_Deserialize :: "PppHeader \<Rightarrow> memory \<Rightarrow> iterator \<Rightarrow> (PppHeader \<times> 32 word) option" where
  "PppHeader_Deserialize h M start =
     map_option (\<lambda>(p, _). let h = h\<lparr>ppp_protocol := p\<rparr> in (h, PppHeader_GetSerializedSize h)) (ReadNtohU16 M start)"

subsection \<open>A-MSDU subframes\<close>

record AmsduSubframeHeader =
  m_da :: mac48
  m_sa :: mac48
  m_length :: "16 word"

definition AmsduSubframeHeader_GetSerializedSize :: "AmsduSubframeHeader \<Rightarrow> 32 word" where
  "AmsduSubframeHeader_GetSerializedSize h = 6 + 6 + 2"

definition AmsduSubframeHeader_Serialize :: "AmsduSubframeHeader \<Rightarrow> writer" where
  "AmsduSubframeHeader_Serialize h =
     writes (WriteTo_mac48 (m_da h)) (writes (WriteTo_mac48 (m_sa h)) (WriteHtonU16 (m_length h)))"

definition AmsduSubframeHeader_Deserialize ::
  "AmsduSubframeHeader \<Rightarrow> memory \<Rightarrow> iterator \<Rightarrow> (AmsduSubframeHeader \<times> 32 word) option" where
  "AmsduSubframeHeader_Deserialize h =
     with_distance
       (reads_then ReadFrom_mac48 (\<lambda>a. let h = h\<lparr>m_da := a\<rparr> in
        reads_then ReadFrom_mac48 (\<lambda>a. let h = h\<lparr>m_sa := a\<rparr> in
        reads_then ReadNtohU16 (\<lambda>l. returns (h\<lparr>m_length := l\<rparr>)))))"

subsection \<open>ARP\<close>

text \<open>An \<open>Address\<close> (\<open>network/model/address.cc\<close>): its type and at most \<open>MAX_SIZE\<close> bytes.\<close>

record Address =
  address_type :: octet
  address_data :: "octet list"

definition MAX_SIZE :: nat where "MAX_SIZE = 20"

definition WriteTo_address :: "Address \<Rightarrow> writer" where
  "WriteTo_address ad it M = (if length (address_data ad) \<le> MAX_SIZE then Write (address_data ad) it M else None)"

text \<open>The bytes are read into an array of \<open>MAX_SIZE\<close> bytes; reading more writes outside the array.\<close>

definition ReadFrom_address :: "octet \<Rightarrow> Address \<Rightarrow> Address reader" where
  "ReadFrom_address len ad =
     (if unat len \<le> MAX_SIZE then reads_then (Read (unat len)) (\<lambda>bs. returns (ad\<lparr>address_data := bs\<rparr>))
      else (\<lambda>M it. None))"

record ArpHeader =
  m_type :: "16 word"
  m_macSource :: Address
  m_macDest :: Address
  m_ipv4Source :: "32 word"
  m_ipv4Dest :: "32 word"

definition arp_length :: "Address \<Rightarrow> octet" where
  "arp_length ad = of_nat (length (address_data ad))"

definition ArpHeader_GetSerializedSize :: "ArpHeader \<Rightarrow> 32 word option" where
  "ArpHeader_GetSerializedSize h =
     (let l = length (address_data (m_macSource h)) in
      if (l = 6 \<or> l = 8 \<or> l = 1) \<and> l = length (address_data (m_macDest h))
      then Some (16 + of_nat l * 2) else None)"

definition ArpHeader_Serialize :: "ArpHeader \<Rightarrow> writer" where
  "ArpHeader_Serialize h =
     (if length (address_data (m_macSource h)) = length (address_data (m_macDest h))
      then writes (WriteHtonU16 0x0001) (writes (WriteHtonU16 0x0800)
        (writes (WriteU8 (arp_length (m_macSource h))) (writes (WriteU8 4) (writes (WriteHtonU16 (m_type h))
        (writes (WriteTo_address (m_macSource h)) (writes (WriteTo_ipv4 (m_ipv4Source h))
        (writes (WriteTo_address (m_macDest h)) (WriteTo_ipv4 (m_ipv4Dest h)))))))))
      else (\<lambda>it M. None))"

definition ArpHeader_read_fields :: "octet \<Rightarrow> ArpHeader \<Rightarrow> ArpHeader reader" where
  "ArpHeader_read_fields hardwareAddressLen h =
     reads_then ReadNtohU16 (\<lambda>t. let h = h\<lparr>m_type := t\<rparr> in
     reads_then (ReadFrom_address hardwareAddressLen (m_macSource h)) (\<lambda>a. let h = h\<lparr>m_macSource := a\<rparr> in
     reads_then ReadFrom_ipv4 (\<lambda>ip. let h = h\<lparr>m_ipv4Source := ip\<rparr> in
     reads_then (ReadFrom_address hardwareAddressLen (m_macDest h)) (\<lambda>a. let h = h\<lparr>m_macDest := a\<rparr> in
     reads_then ReadFrom_ipv4 (\<lambda>ip. returns (h\<lparr>m_ipv4Dest := ip\<rparr>))))))"

definition ArpHeader_Deserialize :: "ArpHeader \<Rightarrow> memory \<Rightarrow> iterator \<Rightarrow> (ArpHeader \<times> 32 word) option" where
  "ArpHeader_Deserialize h M start =
     do {
       i \<leftarrow> Next 2 start;
       (protocolType, i) \<leftarrow> ReadNtohU16 M i;
       (hardwareAddressLen, i) \<leftarrow> ReadU8 M i;
       (protocolAddressLen, i) \<leftarrow> ReadU8 M i;
       if protocolType \<noteq> 0x800 \<or> protocolAddressLen \<noteq> 4 then Some (h, 0)
       else do {
         (h, i) \<leftarrow> ArpHeader_read_fields hardwareAddressLen h M i;
         n \<leftarrow> ArpHeader_GetSerializedSize h;
         Some (h, n)
       }
     }"


subsection \<open>The promises of the headers\<close>

lemma parsesD: "parses r bs v \<Longrightarrow> ahead (bs @ rest) M it \<Longrightarrow>
    r M it = Some (v, it\<lparr>m_current := m_current it + of_nat (length bs)\<rparr>)"
  using ahead_step(3) [of "bs @ rest" M it "length bs"] by (simp add: parses_def)

lemma aheadD: "ahead (bs @ rest) M it \<Longrightarrow> ahead rest M (it\<lparr>m_current := m_current it + of_nat (length bs)\<rparr>)"
  using ahead_step(2) [of "bs @ rest" M it "length bs"] by simp

definition LlcSnapHeader_wire :: "LlcSnapHeader \<Rightarrow> octet list" where
  "LlcSnapHeader_wire h = [0xaa, 0xaa, 0x03, 0, 0, 0] @ msb_bytes 2 (m_etherType h)"

interpretation llc: packet_header LlcSnapHeader_GetSerializedSize LlcSnapHeader_Serialize LlcSnapHeader_Deserialize
  LlcSnapHeader_wire "\<lambda>_. True" "\<lambda>_ h. h"
proof
  fix h r :: LlcSnapHeader and M it
  show "unat (LlcSnapHeader_GetSerializedSize h) = length (LlcSnapHeader_wire h)"
    by (simp add: LlcSnapHeader_GetSerializedSize_def LlcSnapHeader_wire_def)
  show "fills (LlcSnapHeader_Serialize h) (LlcSnapHeader_wire h)"
    unfolding LlcSnapHeader_Serialize_def LlcSnapHeader_wire_def
    by (intro emits_fills emits_writes emits_Write emits_numbers)
  assume a: "ahead (LlcSnapHeader_wire h) M it"
  have n: "Next (5 + 1) it = Some (it\<lparr>m_current := m_current it + 6\<rparr>)"
    using Next_ahead [OF a, of 6] by (simp add: LlcSnapHeader_wire_def)
  have "ahead (msb_bytes 2 (m_etherType h)) M (it\<lparr>m_current := m_current it + 6\<rparr>)"
    using aheadD [OF a [unfolded LlcSnapHeader_wire_def]] by simp
  with parses_ReadNtohU16 [of "m_etherType h"] n
  show "LlcSnapHeader_Deserialize r M it = Some (h, LlcSnapHeader_GetSerializedSize h)"
    by (cases r; cases h) (auto simp: LlcSnapHeader_Deserialize_def parses_def LlcSnapHeader_GetSerializedSize_def)
qed

definition EthernetHeader_wire :: "EthernetHeader \<Rightarrow> octet list" where
  "EthernetHeader_wire h = eth_destination h @ eth_source h @ msb_bytes 2 (m_lengthType h)"

definition EthernetHeader_valid :: "EthernetHeader \<Rightarrow> bool" where
  "EthernetHeader_valid h \<longleftrightarrow> \<not> m_enPreambleSfd h \<and> length (eth_source h) = 6 \<and> length (eth_destination h) = 6"

text \<open>Without preamble; the receiver must use a header object without preamble, too.\<close>

interpretation ethernet: packet_header EthernetHeader_GetSerializedSize EthernetHeader_Serialize
  "\<lambda>r. EthernetHeader_Deserialize (r\<lparr>m_enPreambleSfd := False\<rparr>)" EthernetHeader_wire EthernetHeader_valid
  "\<lambda>r h. h\<lparr>m_preambleSfd := m_preambleSfd r\<rparr>"
proof
  fix h r :: EthernetHeader and M it
  assume v: "EthernetHeader_valid h"
  show "unat (EthernetHeader_GetSerializedSize h) = length (EthernetHeader_wire h)"
    using v by (simp add: EthernetHeader_GetSerializedSize_def EthernetHeader_wire_def EthernetHeader_valid_def)
  have "emits (EthernetHeader_Serialize h) ([] @ EthernetHeader_wire h)"
    unfolding EthernetHeader_Serialize_def EthernetHeader_wire_def
    using v by (intro emits_writes emits_mac48 emits_numbers) (simp add: EthernetHeader_valid_def emits_skip)
  then show "fills (EthernetHeader_Serialize h) (EthernetHeader_wire h)" by (simp add: emits_fills)
  let ?r = "r\<lparr>m_enPreambleSfd := False\<rparr>"
  have "parses (EthernetHeader_read_fields ?r) ([] @ EthernetHeader_wire h)
      (?r\<lparr>eth_destination := eth_destination h, eth_source := eth_source h, m_lengthType := m_lengthType h\<rparr>)"
    unfolding EthernetHeader_read_fields_def EthernetHeader_wire_def Let_def
    using v by (intro parses_then [where v = ?r] parses_then [OF parses_mac48] parses_last [OF parses_ReadNtohU16] parses_returns_eq)
      (simp_all add: EthernetHeader_valid_def parses_returns)
  moreover assume "ahead (EthernetHeader_wire h) M it"
  ultimately show "EthernetHeader_Deserialize ?r M it =
      Some (h\<lparr>m_preambleSfd := m_preambleSfd r\<rparr>, EthernetHeader_GetSerializedSize h)"
    using v by (cases h; cases r) (simp add: EthernetHeader_Deserialize_def parses_def EthernetHeader_valid_def
        EthernetHeader_GetSerializedSize_def)
qed

interpretation ppp: packet_header PppHeader_GetSerializedSize PppHeader_Serialize PppHeader_Deserialize
  "\<lambda>h. msb_bytes 2 (ppp_protocol h)" "\<lambda>_. True" "\<lambda>_ h. h"
proof
  fix h r :: PppHeader and M it
  show "unat (PppHeader_GetSerializedSize h) = length (msb_bytes 2 (ppp_protocol h))"
    by (simp add: PppHeader_GetSerializedSize_def)
  show "fills (PppHeader_Serialize h) (msb_bytes 2 (ppp_protocol h))"
    unfolding PppHeader_Serialize_def by (intro emits_fills emits_numbers)
  assume "ahead (msb_bytes 2 (ppp_protocol h)) M it"
  with parses_ReadNtohU16 [of "ppp_protocol h"]
  show "PppHeader_Deserialize r M it = Some (h, PppHeader_GetSerializedSize h)"
    by (cases r; cases h) (simp add: PppHeader_Deserialize_def parses_def PppHeader_GetSerializedSize_def)
qed

definition AmsduSubframeHeader_wire :: "AmsduSubframeHeader \<Rightarrow> octet list" where
  "AmsduSubframeHeader_wire h = m_da h @ m_sa h @ msb_bytes 2 (m_length h)"

definition AmsduSubframeHeader_valid :: "AmsduSubframeHeader \<Rightarrow> bool" where
  "AmsduSubframeHeader_valid h \<longleftrightarrow> length (m_da h) = 6 \<and> length (m_sa h) = 6"

interpretation amsdu: packet_header AmsduSubframeHeader_GetSerializedSize AmsduSubframeHeader_Serialize
  AmsduSubframeHeader_Deserialize AmsduSubframeHeader_wire AmsduSubframeHeader_valid "\<lambda>_ h. h"
proof
  fix h r :: AmsduSubframeHeader and M it
  assume v: "AmsduSubframeHeader_valid h"
  then have l: "length (AmsduSubframeHeader_wire h) = 14" "length (m_da h) = 6" "length (m_sa h) = 6"
    by (simp_all add: AmsduSubframeHeader_wire_def AmsduSubframeHeader_valid_def)
  show "unat (AmsduSubframeHeader_GetSerializedSize h) = length (AmsduSubframeHeader_wire h)"
    by (simp add: AmsduSubframeHeader_GetSerializedSize_def l)
  show "fills (AmsduSubframeHeader_Serialize h) (AmsduSubframeHeader_wire h)"
    unfolding AmsduSubframeHeader_Serialize_def AmsduSubframeHeader_wire_def
    by (intro emits_fills emits_writes emits_mac48 emits_numbers)
  have "parses (reads_then ReadFrom_mac48 (\<lambda>a. let h = r\<lparr>m_da := a\<rparr> in
        reads_then ReadFrom_mac48 (\<lambda>a. let h = h\<lparr>m_sa := a\<rparr> in
        reads_then ReadNtohU16 (\<lambda>l. returns (h\<lparr>m_length := l\<rparr>))))) (AmsduSubframeHeader_wire h) h"
    unfolding AmsduSubframeHeader_wire_def Let_def
    by (intro parses_then [OF parses_mac48] parses_last [OF parses_ReadNtohU16] parses_returns_eq)
      (use l in \<open>cases h, simp\<close>)+
  moreover assume "ahead (AmsduSubframeHeader_wire h) M it"
  ultimately show "AmsduSubframeHeader_Deserialize r M it = Some (h, AmsduSubframeHeader_GetSerializedSize h)"
    using l(1) by (simp add: AmsduSubframeHeader_Deserialize_def with_distance_parses AmsduSubframeHeader_GetSerializedSize_def)
qed


definition ArpHeader_wire :: "ArpHeader \<Rightarrow> octet list" where
  "ArpHeader_wire h = msb_bytes 2 (0x0001 :: 16 word) @ msb_bytes 2 (0x0800 :: 16 word) @
     [arp_length (m_macSource h), 4] @ msb_bytes 2 (m_type h) @
     address_data (m_macSource h) @ msb_bytes 4 (m_ipv4Source h) @ address_data (m_macDest h) @ msb_bytes 4 (m_ipv4Dest h)"

text \<open>Hardware addresses of 6, 8 or 1 bytes, of one length.\<close>

definition ArpHeader_valid :: "ArpHeader \<Rightarrow> bool" where
  "ArpHeader_valid h \<longleftrightarrow> length (address_data (m_macSource h)) \<in> {6, 8, 1} \<and>
     length (address_data (m_macDest h)) = length (address_data (m_macSource h))"

text \<open>The type of an address is not transmitted.\<close>

definition ArpHeader_received :: "ArpHeader \<Rightarrow> ArpHeader \<Rightarrow> ArpHeader" where
  "ArpHeader_received r h = r\<lparr>m_type := m_type h,
     m_macSource := (m_macSource r)\<lparr>address_data := address_data (m_macSource h)\<rparr>, m_ipv4Source := m_ipv4Source h,
     m_macDest := (m_macDest r)\<lparr>address_data := address_data (m_macDest h)\<rparr>, m_ipv4Dest := m_ipv4Dest h\<rparr>"

lemma arp_length_ok: "length (address_data ad) \<le> MAX_SIZE \<Longrightarrow> unat (arp_length ad) = length (address_data ad)"
  by (simp add: arp_length_def MAX_SIZE_def unat_of_nat)

lemma emits_address: "length (address_data ad) \<le> MAX_SIZE \<Longrightarrow> emits (WriteTo_address ad) (address_data ad)"
  using emits_Write [of "address_data ad"] by (simp add: emits_def WriteTo_address_def)

lemma parses_address: "length bs \<le> MAX_SIZE \<Longrightarrow> unat n = length bs \<Longrightarrow>
    parses (ReadFrom_address n ad) bs (ad\<lparr>address_data := bs\<rparr>)"
  unfolding ReadFrom_address_def by (auto intro!: parses_last [OF parses_Read] parses_returns)

interpretation arp: packet_header "\<lambda>h. the (ArpHeader_GetSerializedSize h)" ArpHeader_Serialize ArpHeader_Deserialize
  ArpHeader_wire ArpHeader_valid ArpHeader_received
proof
  fix h r :: ArpHeader and M it
  assume v: "ArpHeader_valid h"
  let ?l = "length (address_data (m_macSource h))"
  have l: "?l \<le> MAX_SIZE" "length (address_data (m_macDest h)) = ?l" "unat (arp_length (m_macSource h)) = ?l"
    using v arp_length_ok [of "m_macSource h"] by (auto simp: ArpHeader_valid_def MAX_SIZE_def)
  have s: "ArpHeader_GetSerializedSize h = Some (16 + of_nat ?l * 2)"
    using v by (auto simp: ArpHeader_valid_def ArpHeader_GetSerializedSize_def)
  then show "unat (the (ArpHeader_GetSerializedSize h)) = length (ArpHeader_wire h)"
    using v by (auto simp: ArpHeader_valid_def ArpHeader_wire_def)
  have "emits (ArpHeader_Serialize h) (msb_bytes 2 (0x0001 :: 16 word) @ msb_bytes 2 (0x0800 :: 16 word) @
     [arp_length (m_macSource h)] @ [4] @ msb_bytes 2 (m_type h) @
     address_data (m_macSource h) @ msb_bytes 4 (m_ipv4Source h) @ address_data (m_macDest h) @ msb_bytes 4 (m_ipv4Dest h))"
    unfolding ArpHeader_Serialize_def using l
    by (simp del: append.simps) (intro emits_writes emits_WriteU8 emits_numbers emits_ipv4 emits_address; simp)
  then show "fills (ArpHeader_Serialize h) (ArpHeader_wire h)" by (simp add: emits_fills ArpHeader_wire_def)
  assume a: "ahead (ArpHeader_wire h) M it"
  define rest where "rest = msb_bytes 2 (m_type h) @ address_data (m_macSource h) @ msb_bytes 4 (m_ipv4Source h) @
    address_data (m_macDest h) @ msb_bytes 4 (m_ipv4Dest h)"
  have w: "ArpHeader_wire h = msb_bytes 2 (0x0001 :: 16 word) @ msb_bytes 2 (0x0800 :: 16 word) @
      [arp_length (m_macSource h)] @ [4] @ rest" by (simp add: ArpHeader_wire_def rest_def)
  have n: "Next 2 it = Some (it\<lparr>m_current := m_current it + 2\<rparr>)" using Next_ahead [OF a, of 2] by (simp add: w)
  have a1: "ahead (msb_bytes 2 (0x0800 :: 16 word) @ [arp_length (m_macSource h)] @ [4] @ rest) M (it\<lparr>m_current := m_current it + 2\<rparr>)"
    using aheadD [OF a [unfolded w]] by simp
  note r1 = parsesD [OF parses_ReadNtohU16 a1]
  have a2: "ahead ([arp_length (m_macSource h)] @ [4] @ rest) M (it\<lparr>m_current := m_current it + 4\<rparr>)"
    using aheadD [OF a1] by (simp add: add.assoc)
  note r2 = parsesD [OF parses_ReadU8 a2]
  have a3: "ahead ([4] @ rest) M (it\<lparr>m_current := m_current it + 5\<rparr>)" using aheadD [OF a2] by (simp add: add.assoc)
  note r3 = parsesD [OF parses_ReadU8 a3]
  have a4: "ahead rest M (it\<lparr>m_current := m_current it + 6\<rparr>)" using aheadD [OF a3] by (simp add: add.assoc)
  have "parses (ArpHeader_read_fields (arp_length (m_macSource h)) r) rest (ArpHeader_received r h)"
    unfolding ArpHeader_read_fields_def rest_def ArpHeader_received_def Let_def using l
    by (intro parses_then [OF parses_ReadNtohU16] parses_then [OF parses_address] parses_then [OF parses_ipv4]
        parses_last [OF parses_ipv4] parses_returns_eq; simp)
  with a4 obtain it' where r4: "ArpHeader_read_fields (arp_length (m_macSource h)) r M (it\<lparr>m_current := m_current it + 6\<rparr>) =
      Some (ArpHeader_received r h, it')" by (auto simp: parses_def)
  have "ArpHeader_GetSerializedSize (ArpHeader_received r h) = ArpHeader_GetSerializedSize h"
    by (simp add: ArpHeader_GetSerializedSize_def ArpHeader_received_def)
  then show "ArpHeader_Deserialize r M it = Some (ArpHeader_received r h, the (ArpHeader_GetSerializedSize h))"
    using n r1 r2 r3 r4 s by (simp add: ArpHeader_Deserialize_def add.assoc)
qed

end
