(* ===== verification/Header_Props.thy ===== *)
theory Header_Props
  imports Wifi_Mac_Header Ipv4_Header Packet_Headers
begin

text \<open>
  Headers on top of each other in one packet buffer, and the headers that are not read back as written.
\<close>

lemma CopyData_all:
  assumes "mem_ok M (add_mset b B) R"
  shows "CopyData (- 1) b M = Some (content M b)"
proof -
  from fits_bounds [OF assms] have "length (content M b) \<le> MAX_BYTES" by blast
  moreover have "(- 1 :: 32 word) = 4294967295" by simp
  then have "MAX_BYTES \<le> unat (- 1 :: 32 word)" by (simp only: MAX_BYTES_def) simp
  ultimately show ?thesis using CopyData_ok [OF assms, of b "- 1"] by simp
qed

text \<open>A buffer beside one that is changed.\<close>

lemma CopyData_other:
  assumes ok: "mem_ok M (mset bs) {#}" and i: "i < length bs" and j: "j < length bs" "j \<noteq> i"
    and ok': "mem_ok M' (add_mset b (mset (others i bs))) {#}" and same: "same_contents M M' (mset (others i bs))"
  shows "CopyData (- 1) (bs ! j) M' = Some (content M (bs ! j))"
proof -
  have m: "bs ! j \<in># mset (others i bs)" using nth_others [OF i j(1)] j(2) by auto
  then obtain B where B: "mset (others i bs) = add_mset (bs ! j) B" by (rule mset_add)
  have "mem_ok M' (add_mset (bs ! j) (add_mset b B)) {#}" using ok' unfolding B by (rule mem_ok_swap)
  from CopyData_all [OF this] show ?thesis using same m by (simp add: same_contents_def)
qed

text \<open>C34: An IPv4 header, an LLC/SNAP header and a Wi-Fi MAC header that are added to a packet, each valid, are
  written without a failed assertion; the packet then holds exactly the bytes of the three headers and of
  its payload; removing them gives the three headers and the payload back, the receiver finds the IPv4
  checksum correct, and no other packet is changed, although the packets may share memory.\<close>

theorem header_stack_roundtrip:
  assumes run: "buffer_run bs M xs" and i: "i < length bs"
    and ip: "Ipv4Header_valid ip" and wifi: "WifiMacHeader_valid wifi"
    and len: "length (xs ! i) + 60 \<le> MAX_BYTES"
  shows "\<exists>b1 M1 b2 M2 b3 M3 c1 c2 c3.
    AddHeader (Ipv4Header_GetSerializedSize ip) (Ipv4Header_Serialize ip) (bs ! i) M = Some (b1, M1) \<and>
    AddHeader (LlcSnapHeader_GetSerializedSize llc) (LlcSnapHeader_Serialize llc) b1 M1 = Some (b2, M2) \<and>
    AddHeader (WifiMacHeader_GetSize wifi) (WifiMacHeader_Serialize wifi) b2 M2 = Some (b3, M3) \<and>
    CopyData (- 1) b3 M3 = Some (WifiMacHeader_wire wifi @ LlcSnapHeader_wire llc @ Ipv4Header_wire ip @ xs ! i) \<and>
    RemoveHeader (WifiMacHeader_Deserialize wifi0) b3 M3 =
      Some (WifiMacHeader_received wifi0 wifi, WifiMacHeader_GetSize wifi, c1) \<and>
    RemoveHeader (LlcSnapHeader_Deserialize llc0) c1 M3 = Some (llc, LlcSnapHeader_GetSerializedSize llc, c2) \<and>
    RemoveHeader (Ipv4Header_Deserialize ip0) c2 M3 =
      Some (Ipv4Header_received ip0 ip, Ipv4Header_GetSerializedSize ip, c3) \<and>
    CopyData (- 1) c3 M3 = Some (xs ! i) \<and>
    (m_calcChecksum ip \<and> m_calcChecksum ip0 \<longrightarrow> m_goodChecksum (Ipv4Header_received ip0 ip)) \<and>
    (\<forall>j<length bs. j \<noteq> i \<longrightarrow> CopyData (- 1) (bs ! j) M3 = Some (xs ! j))"
proof -
  from buffer_run_ok [OF run] have ok: "mem_ok M (mset bs) {#}" and xs: "xs = map (content M) bs" by auto
  let ?B = "mset (others i bs)"
  have ok0: "mem_ok M (add_mset (bs ! i) ?B) {#}" using ok others_split(1) [OF i] by simp
  have c0: "content M (bs ! i) = xs ! i" using i by (simp add: xs)
  have w: "length (WifiMacHeader_wire wifi) \<le> 32" "length (LlcSnapHeader_wire llc) = 8"
    using WifiMacHeader_short [OF wifi] by (simp_all add: LlcSnapHeader_wire_def)
  have "length (content M (bs ! i)) + length (Ipv4Header_wire ip) \<le> MAX_BYTES" using len c0 by simp
  from ipv4.add_header [OF ok0 ip this] obtain b1 M1 where
    1: "AddHeader (Ipv4Header_GetSerializedSize ip) (Ipv4Header_Serialize ip) (bs ! i) M = Some (b1, M1)"
      "mem_ok M1 (add_mset b1 ?B) {#}" "same_contents M M1 ?B" "content M1 b1 = Ipv4Header_wire ip @ xs ! i"
    unfolding c0 .
  have "length (content M1 b1) + length (LlcSnapHeader_wire llc) \<le> MAX_BYTES" using len 1(4) w(2) by simp
  from llc.add_header [OF 1(2) TrueI this] obtain b2 M2 where
    2: "AddHeader (LlcSnapHeader_GetSerializedSize llc) (LlcSnapHeader_Serialize llc) b1 M1 = Some (b2, M2)"
      "mem_ok M2 (add_mset b2 ?B) {#}" "same_contents M1 M2 ?B"
      "content M2 b2 = LlcSnapHeader_wire llc @ Ipv4Header_wire ip @ xs ! i"
    unfolding 1(4) .
  have "length (content M2 b2) + length (WifiMacHeader_wire wifi) \<le> MAX_BYTES" using len 2(4) w by simp
  from wifi_mac.add_header [OF 2(2) wifi this] obtain b3 M3 where
    3: "AddHeader (WifiMacHeader_GetSize wifi) (WifiMacHeader_Serialize wifi) b2 M2 = Some (b3, M3)"
      "mem_ok M3 (add_mset b3 ?B) {#}" "same_contents M2 M3 ?B"
      "content M3 b3 = WifiMacHeader_wire wifi @ LlcSnapHeader_wire llc @ Ipv4Header_wire ip @ xs ! i"
    unfolding 2(4) .
  from wifi_mac.remove_header [OF 3(2) wifi 3(4), of wifi0] obtain c1 where
    4: "RemoveHeader (WifiMacHeader_Deserialize wifi0) b3 M3 =
        Some (WifiMacHeader_received wifi0 wifi, WifiMacHeader_GetSize wifi, c1)"
      "mem_ok M3 (add_mset c1 ?B) {#}" "content M3 c1 = LlcSnapHeader_wire llc @ Ipv4Header_wire ip @ xs ! i" .
  from llc.remove_header [OF 4(2) TrueI 4(3), of llc0] obtain c2 where
    5: "RemoveHeader (LlcSnapHeader_Deserialize llc0) c1 M3 = Some (llc, LlcSnapHeader_GetSerializedSize llc, c2)"
      "mem_ok M3 (add_mset c2 ?B) {#}" "content M3 c2 = Ipv4Header_wire ip @ xs ! i" .
  from ipv4.remove_header [OF 5(2) ip 5(3), of ip0] obtain c3 where
    6: "RemoveHeader (Ipv4Header_Deserialize ip0) c2 M3 =
        Some (Ipv4Header_received ip0 ip, Ipv4Header_GetSerializedSize ip, c3)"
      "mem_ok M3 (add_mset c3 ?B) {#}" "content M3 c3 = xs ! i" .
  have others: "CopyData (- 1) (bs ! j) M3 = Some (xs ! j)" if j: "j < length bs" "j \<noteq> i" for j
    using CopyData_other [OF ok i j 3(2) same_contents_trans [OF same_contents_trans [OF 1(3) 2(3)] 3(3)]] j
    by (simp add: xs)
  have "m_calcChecksum ip \<and> m_calcChecksum ip0 \<longrightarrow> m_goodChecksum (Ipv4Header_received ip0 ip)"
    using checksum_verifies [of ip] by (simp add: Ipv4Header_received_def)
  with 1(1) 2(1) 3(1) 4(1) 5(1) 6(1) CopyData_all [OF 3(2), unfolded 3(4)] CopyData_all [OF 6(2), unfolded 6(3)] others
  show ?thesis by blast
qed

text \<open>A QoS data frame.\<close>

definition data_frame :: WifiMacHeader where
  "data_frame = SetType WIFI_MAC_QOSDATA True
     \<lparr>m_ctrlType = 0, m_ctrlSubtype = 0, m_ctrlToDs = 0, m_ctrlFromDs = 0, m_ctrlMoreFrag = 0, m_ctrlRetry = 1,
      m_ctrlPowerManagement = 0, m_ctrlMoreData = 0, m_ctrlWep = 0, m_ctrlOrder = 0, m_duration = 44,
      m_addr1 = [0, 0, 0, 0, 0, 1], m_addr2 = [0, 0, 0, 0, 0, 2], m_addr3 = [0, 0, 0, 0, 0, 3], m_seqFrag = 1,
      m_seqSeq = 4095, m_addr4 = [0, 0, 0, 0, 0, 0], m_qosTid = 5, m_qosEosp = 0, m_qosAckPolicy = 3,
      m_amsduPresent = 0, m_qosStuff = 7\<rparr>"

lemma header_stack_roundtrip_witness:
  "\<exists>bs M b1 M1 b2. buffer_run bs M [[7, 0, 0]] \<and>
     AddHeader (Ipv4Header_GetSerializedSize Ipv4Header_init) (Ipv4Header_Serialize Ipv4Header_init) (bs ! 0) M = Some (b1, M1) \<and>
     AddHeader 8 (LlcSnapHeader_Serialize \<lparr>m_etherType = 0x800\<rparr>) b1 M1 = Some b2"
proof -
  have "allowed (NEW 2) ([], no_memory (\<lambda>_ _. 0))" by (simp add: MAX_BYTES_def)
  from buffer_run_next [OF run_start this] obtain bs M where 1: "buffer_run bs M [[0, 0]]" by (auto simp: replicate_2)
  from buffer_run_ok [OF this] have "map (content M) bs = [[0, 0]]" by simp
  then have "allowed (ADD_AT_START 0 [7]) (bs, M)" by (auto simp: MAX_BYTES_def)
  from buffer_run_next [OF 1 this] obtain bs M where 2: "buffer_run bs M [[7, 0, 0]]" by auto
  from buffer_run_ok [OF this] have l: "0 < length bs" by auto
  have ip: "Ipv4Header_valid Ipv4Header_init" by (simp add: Ipv4Header_valid_def Ipv4Header_init_def)
  have wi: "WifiMacHeader_valid data_frame"
    by (simp add: WifiMacHeader_valid_def fields_ok_def data_frame_def SetType_def type_defs)
  have "length ([[7, 0, 0]] ! 0 :: octet list) + 60 \<le> MAX_BYTES" by (simp add: MAX_BYTES_def)
  from header_stack_roundtrip [OF 2 l ip wi this, of "\<lparr>m_etherType = 0x800\<rparr>"] 2 show ?thesis
    unfolding LlcSnapHeader_GetSerializedSize_def by blast
qed

text \<open>C35: Two headers are not read back as written. An Ethernet header object that expects a preamble stores
  the number it reads in the flag that says whether there is one: the preamble is lost, and if its value
  is zero only 14 of the 22 bytes are accounted for. An ARP packet that announces a hardware address of
  more than 20 bytes makes the receiver write outside an array of 20 bytes.\<close>

theorem headers_misread:
  assumes eth: "ahead (lsb_bytes 8 (p :: 64 word) @ EthernetHeader_wire h) M it" "EthernetHeader_valid h" "m_enPreambleSfd r"
    and arp: "ahead (msb_bytes 2 (x :: 16 word) @ msb_bytes 2 (0x0800 :: 16 word) @ [n, 4] @ msb_bytes 2 (y :: 16 word) @ rest) M' it'" "unat n > 20"
  shows "EthernetHeader_Deserialize r M it =
      Some (h\<lparr>m_enPreambleSfd := (p \<noteq> 0), m_preambleSfd := m_preambleSfd r\<rparr>, if p = 0 then 14 else 22) \<and>
    ArpHeader_Deserialize a M' it' = None"
proof
  let ?r = "r\<lparr>m_enPreambleSfd := (p \<noteq> 0)\<rparr>"
  have "parses ReadU64 (lsb_bytes 8 p) p" by (rule parses_numbers)
  note u = parses_last [OF this, of "\<lambda>v. returns (r\<lparr>m_enPreambleSfd := (v \<noteq> 0)\<rparr>)" ?r, OF parses_returns]
  have "parses (EthernetHeader_read_fields r) (lsb_bytes 8 p @ EthernetHeader_wire h)
      (?r\<lparr>eth_destination := eth_destination h, eth_source := eth_source h, m_lengthType := m_lengthType h\<rparr>)"
    unfolding EthernetHeader_read_fields_def EthernetHeader_wire_def Let_def
    using eth(2,3) by (intro parses_then [where v = ?r] parses_then [OF parses_mac48] parses_last [OF parses_ReadNtohU16] parses_returns_eq)
      (simp_all add: EthernetHeader_valid_def u)
  with eth show "EthernetHeader_Deserialize r M it =
      Some (h\<lparr>m_enPreambleSfd := (p \<noteq> 0), m_preambleSfd := m_preambleSfd r\<rparr>, if p = 0 then 14 else 22)"
    by (cases h; cases r) (simp add: EthernetHeader_Deserialize_def parses_def EthernetHeader_GetSerializedSize_def)
next
  have n: "Next 2 it' = Some (it'\<lparr>m_current := m_current it' + 2\<rparr>)" using Next_ahead [OF arp(1), of 2] by simp
  have a1: "ahead (msb_bytes 2 (0x0800 :: 16 word) @ [n] @ [4] @ msb_bytes 2 y @ rest) M' (it'\<lparr>m_current := m_current it' + 2\<rparr>)"
    using aheadD [OF arp(1)] by simp
  note r1 = parsesD [OF parses_ReadNtohU16 a1]
  have a2: "ahead ([n] @ [4] @ msb_bytes 2 y @ rest) M' (it'\<lparr>m_current := m_current it' + 4\<rparr>)"
    using aheadD [OF a1] by (simp add: add.assoc)
  note r2 = parsesD [OF parses_ReadU8 a2]
  have a3: "ahead ([4] @ msb_bytes 2 y @ rest) M' (it'\<lparr>m_current := m_current it' + 5\<rparr>)" using aheadD [OF a2] by (simp add: add.assoc)
  note r3 = parsesD [OF parses_ReadU8 a3]
  have "ahead (msb_bytes 2 y @ rest) M' (it'\<lparr>m_current := m_current it' + 6\<rparr>)" using aheadD [OF a3] by (simp add: add.assoc)
  note r4 = parsesD [OF parses_ReadNtohU16 this]
  show "ArpHeader_Deserialize a M' it' = None"
    using n r1 r2 r3 r4 arp(2)
    by (simp add: ArpHeader_Deserialize_def add.assoc ArpHeader_read_fields_def reads_then_def Let_def
        ReadFrom_address_def MAX_SIZE_def)
qed


text \<open>Bytes in a block of their own.\<close>

definition plain_memory :: "octet list \<Rightarrow> memory" where
  "plain_memory bs = (no_memory (\<lambda>_ _. 0))\<lparr>blocks := [0 \<mapsto> \<lparr>m_count = 1, m_size = of_nat (length bs),
     m_dirtyStart = 0, m_dirtyEnd = of_nat (length bs), m_octets = bs\<rparr>]\<rparr>"

definition plain_iterator :: "octet list \<Rightarrow> iterator" where
  "plain_iterator bs = \<lparr>m_zeroStart = 0, m_zeroEnd = 0, m_dataStart = 0, m_dataEnd = of_nat (length bs), m_current = 0, it_data = 0\<rparr>"

lemma plain_ahead: "length bs < 2 ^ 32 \<Longrightarrow> ahead bs (plain_memory bs) (plain_iterator bs)"
  using nat_word32 [of "length bs"] by (simp add: ahead_def plain_memory_def plain_iterator_def octet_at_def)

lemma headers_misread_witness:
  "let h = \<lparr>m_enPreambleSfd = False, m_preambleSfd = 0, m_lengthType = 0x800,
             eth_source = [0, 0, 0, 0, 0, 1], eth_destination = [0, 0, 0, 0, 0, 2]\<rparr>;
       r = h\<lparr>m_enPreambleSfd := True, m_preambleSfd := 9\<rparr>;
       bs = lsb_bytes 8 (0 :: 64 word) @ EthernetHeader_wire h
   in EthernetHeader_Deserialize r (plain_memory bs) (plain_iterator bs) = Some (h\<lparr>m_preambleSfd := 9\<rparr>, 14)"
proof -
  define h where "h = \<lparr>m_enPreambleSfd = False, m_preambleSfd = 0, m_lengthType = 0x800,
             eth_source = [0, 0, 0, 0, 0, 1], eth_destination = [0, 0, 0, 0, 0, 2 :: octet]\<rparr>"
  let ?r = "h\<lparr>m_enPreambleSfd := True, m_preambleSfd := 9\<rparr>"
  let ?bs = "lsb_bytes 8 (0 :: 64 word) @ EthernetHeader_wire h"
  let ?as = "msb_bytes 2 (1 :: 16 word) @ msb_bytes 2 (0x0800 :: 16 word) @ [21, 4] @ msb_bytes 2 (1 :: 16 word) @ []"
  have v: "EthernetHeader_valid h" by (simp add: h_def EthernetHeader_valid_def)
  have a: "ahead ?bs (plain_memory ?bs) (plain_iterator ?bs)"
    by (rule plain_ahead) (simp add: EthernetHeader_wire_def h_def)
  have b: "ahead ?as (plain_memory ?as) (plain_iterator ?as)" by (rule plain_ahead) simp
  have "unat (21 :: octet) > 20" by simp
  from headers_misread [OF a v _ b this, of ?r]
  have "EthernetHeader_Deserialize ?r (plain_memory ?bs) (plain_iterator ?bs) = Some (h\<lparr>m_preambleSfd := 9\<rparr>, 14)"
    by (simp add: h_def)
  then show ?thesis by (simp add: h_def Let_def)
qed

end
