(* ===== verification/Packets.thy ===== *)
theory Packets
  imports Packet_Buffer_Props
begin

text \<open>
  Packets as lists of bytes, for the protocols that cut them into fragments: \<open>GetSize\<close> and
  \<open>CreateFragment\<close> of \<open>network/model/packet.cc\<close>, and that \<open>CreateFragment\<close> is what a packet buffer does. Appending
  packets is the concatenation of lists by convention (see the root theory for where the buffer differs).
\<close>

definition packet_GetSize :: "octet list \<Rightarrow> 32 word" where
  "packet_GetSize p = of_nat (length p)"

text \<open>\<open>Packet::CreateFragment\<close>; the sums wrap as they do there.\<close>

definition Packet_CreateFragment :: "32 word \<Rightarrow> 32 word \<Rightarrow> octet list \<Rightarrow> octet list option" where
  "Packet_CreateFragment start len p =
     (if packet_GetSize p \<ge> start + len
      then let q = drop (unat start) p
           in Some (take (length q - unat (packet_GetSize p - (start + len))) q)
      else None)"

lemma packet_GetSize_small: "length p < 2 ^ 32 \<Longrightarrow> unat (packet_GetSize p) = length p"
  using nat_word32 [of "length p"] by (simp add: packet_GetSize_def)

lemma Packet_CreateFragment_ok:
  assumes "unat start + unat len \<le> length p" and "length p < 2 ^ 32"
  shows "Packet_CreateFragment start len p = Some (take (unat len) (drop (unat start) p))"
proof -
  note s = packet_GetSize_small [OF assms(2)]
  have a: "unat (start + len) = unat start + unat len" using assms by (intro unat_plus) simp
  have le: "start + len \<le> packet_GetSize p" using assms(1) by (simp add: word_le_nat_alt a s)
  have "unat (packet_GetSize p - (start + len)) = length p - (unat start + unat len)"
    using assms(1) by (subst unat_minus) (simp_all add: a s)
  then show ?thesis using le assms(1) by (simp add: Packet_CreateFragment_def Let_def)
qed

lemma Packet_CreateFragment_rest:
  assumes "unat start \<le> length p" and "length p < 2 ^ 32"
  shows "Packet_CreateFragment start (packet_GetSize p - start) p = Some (drop (unat start) p)"
proof -
  note s = packet_GetSize_small [OF assms(2)]
  have "unat start \<le> unat (packet_GetSize p)" using assms(1) by (simp add: s)
  then have "unat (packet_GetSize p - start) = length p - unat start" by (simp add: unat_minus s)
  with assms show ?thesis by (simp add: Packet_CreateFragment_ok)
qed

text \<open>Whatever the start, the rest of a packet can be taken; behind the end it is empty.\<close>

lemma Packet_CreateFragment_total:
  "\<exists>q. Packet_CreateFragment start (packet_GetSize p - start) p = Some q"
  by (simp add: Packet_CreateFragment_def Let_def)

text \<open>The buffer of the fragment holds these bytes.\<close>

lemma CreateFragment_bytes:
  assumes ok: "mem_ok M (add_mset b B) R" and room: "size (refs (add_mset b B) R) < 2 ^ 32 - 1"
    and len: "unat s + unat l \<le> length (content M b)"
  obtains b' M' where "CreateFragment s l b M = Some (b', M')" and "mem_ok M' (add_mset b' (add_mset b B)) R"
    and "Packet_CreateFragment s l (content M b) = Some (content M' b')"
proof -
  from CreateFragment_ok [OF assms] obtain b' M' where
    r: "CreateFragment s l b M = Some (b', M')" "mem_ok M' (add_mset b' (add_mset b B)) R"
      "content M' b' = take (unat l) (drop (unat s) (content M b))" by blast
  from fits_bounds [OF ok] have "length (content M b) \<le> MAX_BYTES" by blast
  then have "length (content M b) < 2 ^ 32" by (simp add: MAX_BYTES_def)
  from Packet_CreateFragment_ok [OF len this] r show thesis by (intro that [of b' M']) simp_all
qed

end
