(* ===== verification/Ipv4_Fragments.thy ===== *)
theory Ipv4_Fragments
  imports Ipv4_Header Packets "HOL-Library.Monad_Syntax"
begin

text \<open>
  Fragmentation and reassembly of IPv4, \<open>internet/model/ipv4-l3-protocol.cc\<close>: the sending side
  (\<open>SendRealOut\<close>, \<open>IpForward\<close>, \<open>DoFragmentation\<close>), the receiving side (\<open>Receive\<close>, \<open>LocalDeliver\<close>,
  \<open>ProcessFragment\<close>, the class \<open>Fragments\<close>) and the timeouts. A packet is its list of bytes. Where a
  loop may not end, the outer \<open>None\<close> says that it does not, the inner one that an assertion fails.
\<close>

subsection \<open>Members of the header\<close>

definition SetPayloadSize :: "16 word \<Rightarrow> Ipv4Header \<Rightarrow> Ipv4Header" where
  "SetPayloadSize n h = h\<lparr>m_payloadSize := n\<rparr>"

definition EnableChecksum :: "Ipv4Header \<Rightarrow> Ipv4Header" where
  "EnableChecksum h = h\<lparr>m_calcChecksum := True\<rparr>"

definition SetTtl :: "octet \<Rightarrow> Ipv4Header \<Rightarrow> Ipv4Header" where
  "SetTtl ttl h = h\<lparr>m_ttl := ttl\<rparr>"

type_synonym datagram = "octet list \<times> Ipv4Header"

subsection \<open>Sending\<close>

text \<open>The body of the loop for one fragment; \<open>checksums\<close> is \<open>Node::ChecksumEnabled()\<close>.\<close>

definition make_fragment ::
  "bool \<Rightarrow> Ipv4Header \<Rightarrow> octet list \<Rightarrow> 16 word \<Rightarrow> 32 word \<Rightarrow> Ipv4Header \<Rightarrow> datagram option" where
  "make_fragment checksums ipv4Header p offset currentFragmentablePartSize fragmentHeader =
     do {
       fragment \<leftarrow> Packet_CreateFragment (ucast offset) currentFragmentablePartSize p;
       fragmentHeader \<leftarrow> SetFragmentOffset (offset + m_fragmentOffset ipv4Header) fragmentHeader;
       let fragmentHeader = SetPayloadSize (ucast currentFragmentablePartSize) fragmentHeader;
       let fragmentHeader = (if checksums then EnableChecksum fragmentHeader else fragmentHeader);
       Some (fragment, fragmentHeader)
     }"

partial_function (option) fragment_loop ::
  "bool \<Rightarrow> Ipv4Header \<Rightarrow> 32 word \<Rightarrow> octet list \<Rightarrow> 16 word \<Rightarrow> datagram list \<Rightarrow> datagram list option option" where
  "fragment_loop checksums ipv4Header fragmentSize p offset listFragments =
     (let moreFragment = (packet_GetSize p > ucast offset + fragmentSize);
          currentFragmentablePartSize = (if moreFragment then fragmentSize else packet_GetSize p - ucast offset);
          fragmentHeader =
            (if moreFragment then SetMoreFragments ipv4Header
             else if \<not> IsLastFragment ipv4Header then SetMoreFragments ipv4Header
             else SetLastFragment ipv4Header)
      in case make_fragment checksums ipv4Header p offset currentFragmentablePartSize fragmentHeader of
           None \<Rightarrow> Some None
         | Some f \<Rightarrow>
             if moreFragment
             then fragment_loop checksums ipv4Header fragmentSize p
                    (ucast (ucast offset + currentFragmentablePartSize)) (listFragments @ [f])
             else Some (Some (listFragments @ [f])))"

declare fragment_loop.simps [code]

definition fragment_size :: "Ipv4Header \<Rightarrow> 32 word \<Rightarrow> 32 word" where
  "fragment_size ipv4Header outIfaceMtu = (outIfaceMtu - Ipv4Header_GetSerializedSize ipv4Header) AND NOT 7"

definition DoFragmentation ::
  "bool \<Rightarrow> octet list \<Rightarrow> Ipv4Header \<Rightarrow> 32 word \<Rightarrow> datagram list option option" where
  "DoFragmentation checksums packet ipv4Header outIfaceMtu =
     (if Ipv4Header_GetSerializedSize ipv4Header = 5 * 4
      then fragment_loop checksums ipv4Header (fragment_size ipv4Header outIfaceMtu) packet 0 []
      else Some None)"

text \<open>What \<open>SendRealOut\<close> hands to an interface that is up; \<open>GetMtu\<close> of the device is 16 bits wide.\<close>

definition SendRealOut :: "bool \<Rightarrow> 16 word \<Rightarrow> octet list \<Rightarrow> Ipv4Header \<Rightarrow> datagram list option option" where
  "SendRealOut checksums mtu packet ipHeader =
     (if packet_GetSize packet + Ipv4Header_GetSerializedSize ipHeader > ucast mtu
      then DoFragmentation checksums packet ipHeader (ucast mtu)
      else Some (Some [(packet, ipHeader)]))"

text \<open>\<open>IpForward\<close>; the priority tag and the ICMP message for an expired time to live have no definition.\<close>

definition IpForward :: "bool \<Rightarrow> 16 word \<Rightarrow> octet list \<Rightarrow> Ipv4Header \<Rightarrow> datagram list option option" where
  "IpForward checksums mtu packet header =
     (let ipHeader = SetTtl (m_ttl header - 1) header in
      if m_ttl ipHeader = 0 then Some (Some [])
      else SendRealOut checksums mtu packet ipHeader)"

subsection \<open>The class Fragments\<close>

record fragments =
  m_moreFragment :: bool
  m_fragments :: "(octet list \<times> 16 word) list"
  m_timeoutIter :: nat

definition AddFragment :: "octet list \<Rightarrow> 16 word \<Rightarrow> bool \<Rightarrow> fragments \<Rightarrow> fragments" where
  "AddFragment fragment fragmentOffset moreFragment fs =
     (let before = takeWhile (\<lambda>f. \<not> snd f > fragmentOffset) (m_fragments fs);
          after = dropWhile (\<lambda>f. \<not> snd f > fragmentOffset) (m_fragments fs);
          fs = (if after = [] then fs\<lparr>m_moreFragment := moreFragment\<rparr> else fs)
      in fs\<lparr>m_fragments := before @ (fragment, fragmentOffset) # after\<rparr>)"

text \<open>The loop of \<open>IsEntire\<close> from \<open>lastEndOffset\<close>.\<close>

fun no_gap :: "16 word \<Rightarrow> (octet list \<times> 16 word) list \<Rightarrow> bool" where
  "no_gap lastEndOffset [] = True"
| "no_gap lastEndOffset ((q, off) # fs) =
     (if lastEndOffset < off then False
      else let fragmentEnd = ucast (packet_GetSize q + ucast off)
           in no_gap (max lastEndOffset fragmentEnd) fs)"

definition IsEntire :: "fragments \<Rightarrow> bool" where
  "IsEntire fs \<longleftrightarrow> \<not> m_moreFragment fs \<and> m_fragments fs \<noteq> [] \<and> no_gap 0 (m_fragments fs)"

text \<open>The loop of \<open>GetPacket\<close> after the first fragment.\<close>

fun append_fragments :: "octet list \<Rightarrow> 16 word \<Rightarrow> (octet list \<times> 16 word) list \<Rightarrow> octet list option" where
  "append_fragments p lastEndOffset [] = Some p"
| "append_fragments p lastEndOffset ((q, off) # fs) =
     do {
       p \<leftarrow> (if lastEndOffset > off
             then let newStart = ucast lastEndOffset - ucast off in
                  if packet_GetSize q > newStart
                  then map_option (\<lambda>tempFragment. p @ tempFragment)
                         (Packet_CreateFragment newStart (packet_GetSize q - newStart) q)
                  else Some p
             else Some (p @ q));
       append_fragments p (ucast (packet_GetSize p)) fs
     }"

definition GetPacket :: "fragments \<Rightarrow> octet list option" where
  "GetPacket fs =
     (case m_fragments fs of [] \<Rightarrow> None
      | (p, _) # rest \<Rightarrow> append_fragments p (ucast (packet_GetSize p)) rest)"

fun append_partial :: "octet list \<Rightarrow> 16 word \<Rightarrow> (octet list \<times> 16 word) list \<Rightarrow> octet list option" where
  "append_partial p lastEndOffset [] = Some p"
| "append_partial p lastEndOffset ((q, off) # fs) =
     do {
       p \<leftarrow> (if lastEndOffset > off
             then let newStart = ucast lastEndOffset - ucast off in
                  map_option (\<lambda>tempFragment. p @ tempFragment)
                    (Packet_CreateFragment newStart (packet_GetSize q - newStart) q)
             else if lastEndOffset = off then Some (p @ q)
             else Some p);
       append_partial p (ucast (packet_GetSize p)) fs
     }"

definition GetPartialPacket :: "fragments \<Rightarrow> octet list option" where
  "GetPartialPacket fs =
     (case m_fragments fs of [] \<Rightarrow> None
      | (_, off) # _ \<Rightarrow> if off > 0 then Some [] else append_partial [] 0 (m_fragments fs))"

subsection \<open>The protocol object\<close>

type_synonym fragment_key = "64 word \<times> 32 word"

text \<open>
  The iterators into \<open>m_timeoutEventList\<close> stay valid while other elements come and go, so an element
  is identified by a number that is never used again. \<open>timeout_events\<close> are the times of the events
  of \<open>HandleTimeout\<close> that are pending in the simulator.
\<close>

record timeout_entry =
  iter :: nat
  t_expires :: int
  t_key :: fragment_key
  t_header :: Ipv4Header
  t_iif :: "32 word"

record ipv4_l3 =
  l3_fragments :: "(fragment_key \<times> fragments) list"
  m_fragmentExpirationTimeout :: int
  m_timeoutEventList :: "timeout_entry list"
  next_iter :: nat
  timeout_events :: "int list"

definition fragment_key_of :: "Ipv4Header \<Rightarrow> fragment_key" where
  "fragment_key_of h =
     (push_bit 32 (ucast (m_source h)) OR ucast (m_destination h),
      push_bit 16 (ucast (m_identification h)) OR ucast (m_protocol h))"

definition SetTimeout :: "int \<Rightarrow> fragment_key \<Rightarrow> Ipv4Header \<Rightarrow> 32 word \<Rightarrow> ipv4_l3 \<Rightarrow> nat \<times> ipv4_l3" where
  "SetTimeout now key ipHeader iif st =
     (let expires = now + m_fragmentExpirationTimeout st;
          st = (if m_timeoutEventList st = [] then st\<lparr>timeout_events := timeout_events st @ [expires]\<rparr> else st);
          it = next_iter st
      in (it, st\<lparr>m_timeoutEventList := m_timeoutEventList st @
                  [\<lparr>iter = it, t_expires = expires, t_key = key, t_header = ipHeader, t_iif = iif\<rparr>],
                next_iter := it + 1\<rparr>))"

text \<open>\<open>std::list::erase\<close> of an element that must be there.\<close>

definition erase_timeout :: "nat \<Rightarrow> timeout_entry list \<Rightarrow> timeout_entry list option" where
  "erase_timeout it es = (if it \<in> iter ` set es then Some (filter (\<lambda>e. iter e \<noteq> it) es) else None)"

definition find_or_create :: "int \<Rightarrow> fragment_key \<Rightarrow> Ipv4Header \<Rightarrow> 32 word \<Rightarrow> ipv4_l3 \<Rightarrow> fragments \<times> ipv4_l3" where
  "find_or_create now key ipHeader iif st =
     (case smap_find (<) key (l3_fragments st) of
        Some (_, fs) \<Rightarrow> (fs, st)
      | None \<Rightarrow>
          (let (it, st) = SetTimeout now key ipHeader iif st;
               fs = \<lparr>m_moreFragment = False, m_fragments = [], m_timeoutIter = it\<rparr>
           in (fs, st\<lparr>l3_fragments := fst (smap_insert (<) key fs (l3_fragments st))\<rparr>)))"

text \<open>The reassembled packet, if the fragment completes one.\<close>

definition ProcessFragment ::
  "int \<Rightarrow> octet list \<Rightarrow> Ipv4Header \<Rightarrow> 32 word \<Rightarrow> ipv4_l3 \<Rightarrow> (octet list option \<times> ipv4_l3) option" where
  "ProcessFragment now packet ipHeader iif st =
     (let key = fragment_key_of ipHeader;
          (fs, st) = find_or_create now key ipHeader iif st;
          fs = AddFragment packet (m_fragmentOffset ipHeader) (\<not> IsLastFragment ipHeader) fs;
          st = st\<lparr>l3_fragments := smap_assign (<) key fs (l3_fragments st)\<rparr>
      in if IsEntire fs
         then do {
           packet \<leftarrow> GetPacket fs;
           es \<leftarrow> erase_timeout (m_timeoutIter fs) (m_timeoutEventList st);
           Some (Some packet, st\<lparr>m_timeoutEventList := es, l3_fragments := smap_erase (<) key (l3_fragments st)\<rparr>)
         }
         else Some (None, st))"

text \<open>\<open>LocalDeliver\<close> up to the packet and header that go to the transport protocol.\<close>

definition LocalDeliver ::
  "int \<Rightarrow> octet list \<Rightarrow> Ipv4Header \<Rightarrow> 32 word \<Rightarrow> ipv4_l3 \<Rightarrow> (datagram option \<times> ipv4_l3) option" where
  "LocalDeliver now p ipHeader iif st =
     (if \<not> IsLastFragment ipHeader \<or> m_fragmentOffset ipHeader \<noteq> 0
      then do {
        (complete, st) \<leftarrow> ProcessFragment now p ipHeader iif st;
        case complete of
          None \<Rightarrow> Some (None, st)
        | Some p \<Rightarrow>
            do {
              ipHeader \<leftarrow> SetFragmentOffset 0 ipHeader;
              Some (Some (p, SetPayloadSize (ucast (packet_GetSize p)) ipHeader), st)
            }
      }
      else Some (Some (p, ipHeader), st))"

text \<open>What the drop trace gets, and whether an ICMP message is sent.\<close>

definition HandleFragmentsTimeout ::
  "fragment_key \<Rightarrow> Ipv4Header \<Rightarrow> ipv4_l3 \<Rightarrow> ((datagram \<times> bool) \<times> ipv4_l3) option" where
  "HandleFragmentsTimeout key ipHeader st =
     do {
       (_, fs) \<leftarrow> smap_find (<) key (l3_fragments st);
       packet \<leftarrow> GetPartialPacket fs;
       Some (((packet, ipHeader), packet_GetSize packet > 8),
             st\<lparr>l3_fragments := smap_erase (<) key (l3_fragments st)\<rparr>)
     }"

fun timeout_loop :: "int \<Rightarrow> timeout_entry list \<Rightarrow> ipv4_l3 \<Rightarrow> ((datagram \<times> bool) list \<times> ipv4_l3) option" where
  "timeout_loop now [] st = Some ([], st\<lparr>m_timeoutEventList := []\<rparr>)"
| "timeout_loop now (e # es) st =
     (if t_expires e = now
      then do {
        (d, st) \<leftarrow> HandleFragmentsTimeout (t_key e) (t_header e) st;
        (ds, st) \<leftarrow> timeout_loop now es st;
        Some (d # ds, st)
      }
      else Some ([], st\<lparr>m_timeoutEventList := e # es\<rparr>))"

definition HandleTimeout :: "int \<Rightarrow> ipv4_l3 \<Rightarrow> ((datagram \<times> bool) list \<times> ipv4_l3) option" where
  "HandleTimeout now st =
     do {
       (ds, st) \<leftarrow> timeout_loop now (m_timeoutEventList st) st;
       case m_timeoutEventList st of
         [] \<Rightarrow> Some (ds, st)
       | e # _ \<Rightarrow> Some (ds, st\<lparr>timeout_events := timeout_events st @ [now + (t_expires e - now)]\<rparr>)
     }"

text \<open>
  \<open>Receive\<close> after the header has been taken off: padding of the frame is trimmed and a packet with a
  bad checksum dropped.
\<close>

definition trim_padding :: "octet list \<Rightarrow> Ipv4Header \<Rightarrow> octet list" where
  "trim_padding packet ipHeader =
     (if ucast (m_payloadSize ipHeader) < packet_GetSize packet
      then take (length packet - unat (packet_GetSize packet - ucast (m_payloadSize ipHeader))) packet
      else packet)"

definition receive_datagram :: "octet list \<Rightarrow> Ipv4Header \<Rightarrow> datagram option" where
  "receive_datagram packet ipHeader =
     (if m_goodChecksum ipHeader then Some (trim_padding packet ipHeader, ipHeader) else None)"

definition ipv4_l3_init :: "int \<Rightarrow> ipv4_l3" where
  "ipv4_l3_init expiration =
     \<lparr>l3_fragments = [], m_fragmentExpirationTimeout = expiration, m_timeoutEventList = [], next_iter = 0,
      timeout_events = []\<rparr>"

end
