(* ===== verification/Ipv4_Fragments_Inv.thy ===== *)
theory Ipv4_Fragments_Inv
  imports Ipv4_Fragments
begin

text \<open>
  What fragmentation produces, as a relation between a datagram and a list of fragments, and what the
  class \<open>Fragments\<close> makes of fragments of one datagram.
\<close>

subsection \<open>Multiples of eight and conversions\<close>

lemma and_7: "unat (x AND 7 :: 'a::len word) = unat x mod 8" if "3 \<le> LENGTH('a)"
proof -
  have "(7 :: 'a word) = mask 3" by (simp add: mask_eq_exp_minus_1)
  then have "x AND 7 = take_bit 3 x" by (simp add: take_bit_eq_mask)
  then have "unat (x AND 7) = take_bit 3 (unat x)" by (simp add: unsigned_take_bit_eq)
  then show ?thesis by (simp add: take_bit_eq_mod)
qed

lemma and_7_16: "x AND 7 = 0 \<longleftrightarrow> 8 dvd unat (x :: 16 word)"
  using and_7 [of x] by (auto simp: dvd_eq_mod_eq_0 simp flip: unat_eq_0)

lemma and_not_7: "unat (x AND NOT 7 :: 32 word) = unat x - unat x mod 8"
proof -
  have "x AND 7 OR x AND NOT 7 = x" by (rule bit_word_eqI) (auto simp: bit_simps)
  moreover have "(x AND 7) + (x AND NOT 7) = x AND 7 OR x AND NOT 7"
    by (rule disjunctive_add) (simp add: bit_simps)
  ultimately have x: "x = (x AND 7) + (x AND NOT 7)" by simp
  have "unat (x AND 7) \<le> unat x" by (simp add: and_7)
  then have "unat (x - (x AND 7)) = unat x - unat (x AND 7)" by (rule unat_minus)
  moreover have "x - (x AND 7) = x AND NOT 7" using x by (metis add_diff_cancel_left')
  ultimately show ?thesis by (simp add: and_7)
qed

lemma ucast_16_32: "unat (ucast (x :: 16 word) :: 32 word) = unat x"
  using unsigned_less [of x, where 'a = nat] by (simp add: unsigned_ucast_eq take_bit_nat_eq_self)

lemma ucast_32_16: "unat (x :: 32 word) < 65536 \<Longrightarrow> unat (ucast x :: 16 word) = unat x"
  by (simp add: unsigned_ucast_eq take_bit_nat_eq_self)

lemma unat_16: "unat (x :: 16 word) < 65536"
  using unsigned_less [of x, where 'a = nat] by simp

subsection \<open>Fragmentations\<close>

definition same_datagram :: "Ipv4Header \<Rightarrow> Ipv4Header \<Rightarrow> bool" where
  "same_datagram h g \<longleftrightarrow> m_source g = m_source h \<and> m_destination g = m_destination h \<and>
     m_identification g = m_identification h \<and> m_protocol g = m_protocol h \<and> m_calcChecksum g = m_calcChecksum h"

text \<open>
  \<open>(q, g)\<close> is a fragment of the datagram of \<open>h\<close>: \<open>q\<close> begins at \<open>off\<close>, and \<open>mf\<close> says whether anything
  follows it.
\<close>

definition is_fragment :: "Ipv4Header \<Rightarrow> nat \<Rightarrow> bool \<Rightarrow> octet list \<Rightarrow> Ipv4Header \<Rightarrow> bool" where
  "is_fragment h off mf q g \<longleftrightarrow> same_datagram h g \<and> unat (m_fragmentOffset g) = off \<and>
     IsLastFragment g = (\<not> mf) \<and> unat (m_payloadSize g) = length q \<and> q \<noteq> [] \<and> Ipv4Header_valid g"

inductive fragmentation :: "Ipv4Header \<Rightarrow> nat \<Rightarrow> bool \<Rightarrow> octet list \<Rightarrow> datagram list \<Rightarrow> bool" for h where
  fragmentation_last: "is_fragment h off mf p g \<Longrightarrow> fragmentation h off mf p [(p, g)]"
| fragmentation_more: "is_fragment h off True q g \<Longrightarrow> fragmentation h (off + length q) mf p fs \<Longrightarrow>
    fragmentation h off mf (q @ p) ((q, g) # fs)"

lemma fragmentation_concat: "fragmentation h off mf p fs \<Longrightarrow> concat (map fst fs) = p \<and> fs \<noteq> [] \<and> p \<noteq> []"
  by (induction rule: fragmentation.induct) (auto simp: is_fragment_def)

lemma fragmentation_append:
  "fragmentation h off True q fs \<Longrightarrow> fragmentation h (off + length q) mf p gs \<Longrightarrow>
     fragmentation h off mf (q @ p) (fs @ gs)"
proof (induction off "True" q fs rule: fragmentation.induct)
  case (fragmentation_last off q g)
  then show ?case using fragmentation_more [of h off q g mf p gs] by simp
next
  case (fragmentation_more off q g q' fs)
  then have "fragmentation h (off + length q) mf (q' @ p) (fs @ gs)" by (simp add: add.assoc)
  with fragmentation_more(1) show ?case using fragmentation.fragmentation_more [of h off q g mf "q' @ p" "fs @ gs"] by simp
qed

lemma fragmentation_same: "fragmentation g off mf q gs \<Longrightarrow> same_datagram h g \<Longrightarrow> fragmentation h off mf q gs"
  by (induction rule: fragmentation.induct) (auto intro!: fragmentation.intros simp: is_fragment_def same_datagram_def)

text \<open>Fragments of fragments are fragments.\<close>

lemma fragmentation_refine:
  "fragmentation h off mf p fs \<Longrightarrow>
     list_all2 (\<lambda>(q, g) gs. fragmentation g (unat (m_fragmentOffset g)) (\<not> IsLastFragment g) q gs) fs gss \<Longrightarrow>
     fragmentation h off mf p (concat gss)"
proof (induction arbitrary: gss rule: fragmentation.induct)
  case (fragmentation_last off mf p g)
  then obtain gs where "gss = [gs]" "fragmentation g (unat (m_fragmentOffset g)) (\<not> IsLastFragment g) p gs"
    by (auto simp: list_all2_Cons1)
  with fragmentation_last(1) show ?case using fragmentation_same [of g off mf p gs h] by (simp add: is_fragment_def)
next
  case (fragmentation_more off q g mf p fs)
  then obtain gs gss' where g: "gss = gs # gss'" "fragmentation g (unat (m_fragmentOffset g)) (\<not> IsLastFragment g) q gs"
    "fragmentation h (off + length q) mf p (concat gss')"
    by (auto simp: list_all2_Cons1)
  have "fragmentation h off True q gs"
    using g(2) fragmentation_more(1) fragmentation_same [of g off True q gs h] by (simp add: is_fragment_def)
  from fragmentation_append [OF this g(3)] show ?case by (simp add: g(1))
qed

subsection \<open>DoFragmentation\<close>

lemma valid_flags:
  "Ipv4Header_valid h \<Longrightarrow> Ipv4Header_valid (SetMoreFragments h)"
  "Ipv4Header_valid h \<Longrightarrow> Ipv4Header_valid (SetLastFragment h)"
  "\<not> IsLastFragment (SetMoreFragments h)" "IsLastFragment (SetLastFragment h)"
proof -
  have f: "f < 4 \<longleftrightarrow> \<not> bit f 2" for f :: "3 word"
  proof -
    have "f < 4 \<longleftrightarrow> take_bit 2 f = f"
      by (simp add: word_less_nat_alt word_eq_iff_unsigned [where 'a = nat] unsigned_take_bit_eq take_bit_nat_eq_self_iff)
    also have "\<dots> \<longleftrightarrow> \<not> bit f 2"
    proof
      assume "take_bit 2 f = f"
      then have "bit (take_bit 2 f) 2 = bit f 2" by simp
      then show "\<not> bit f 2" by (simp add: bit_simps)
    next
      assume n: "\<not> bit f 2"
      show "take_bit 2 f = f"
      proof (rule bit_word_eqI)
        fix k :: nat assume "k < LENGTH(3)"
        then have "k = 0 \<or> k = 1 \<or> k = 2" by auto
        then show "bit (take_bit 2 f) k = bit f k" using n by (auto simp: bit_simps)
      qed
    qed
    finally show ?thesis .
  qed
  show "Ipv4Header_valid h \<Longrightarrow> Ipv4Header_valid (SetMoreFragments h)"
    "Ipv4Header_valid h \<Longrightarrow> Ipv4Header_valid (SetLastFragment h)"
    by (auto simp: Ipv4Header_valid_def SetMoreFragments_def SetLastFragment_def f MORE_FRAGMENTS_def bit_simps)
  have "bit ((m_flags h OR MORE_FRAGMENTS) AND MORE_FRAGMENTS) 1" by (simp add: MORE_FRAGMENTS_def bit_simps)
  then show "\<not> IsLastFragment (SetMoreFragments h)" by (auto simp: IsLastFragment_def SetMoreFragments_def)
  have "(m_flags h AND NOT MORE_FRAGMENTS) AND MORE_FRAGMENTS = 0" by (rule bit_word_eqI) (simp add: bit_simps)
  then show "IsLastFragment (SetLastFragment h)" by (simp add: IsLastFragment_def SetLastFragment_def)
qed

lemma flags_frame:
  "same_datagram h (SetMoreFragments h)" "same_datagram h (SetLastFragment h)" "same_datagram h h"
  by (simp_all add: same_datagram_def SetMoreFragments_def SetLastFragment_def)

lemma make_fragment_ok:
  assumes len: "unat off + unat n \<le> length p" "length p < 65536" "0 < unat n"
    and room: "unat (m_fragmentOffset h) + unat off < 65536"
    and m8: "8 dvd unat (m_fragmentOffset h)" "8 dvd unat off"
    and fh: "Ipv4Header_valid fh" "same_datagram h fh" and cs: "checksums \<longrightarrow> m_calcChecksum h"
  obtains g where "make_fragment checksums h p off n fh = Some (take (unat n) (drop (unat off) p), g)"
    and "is_fragment h (unat (m_fragmentOffset h) + unat off) (\<not> IsLastFragment fh) (take (unat n) (drop (unat off) p)) g"
proof -
  let ?q = "take (unat n) (drop (unat off) p)"
  let ?o = "off + m_fragmentOffset h"
  define g where "g = (let g = SetPayloadSize (ucast n) (fh\<lparr>m_fragmentOffset := ?o\<rparr>) in
    if checksums then EnableChecksum g else g)"
  have o: "unat ?o = unat (m_fragmentOffset h) + unat off" using room by (simp add: unat_word_ariths)
  then have o8: "?o AND 7 = 0" using m8 by (simp add: and_7_16)
  have "Packet_CreateFragment (ucast off) n p = Some ?q"
    using len by (subst Packet_CreateFragment_ok) (simp_all add: ucast_16_32)
  then have eq: "make_fragment checksums h p off n fh = Some (?q, g)"
    using o8 by (simp add: make_fragment_def SetFragmentOffset_def g_def Let_def)
  have sel: "m_source g = m_source fh" "m_destination g = m_destination fh" "m_protocol g = m_protocol fh"
    "m_identification g = m_identification fh" "m_flags g = m_flags fh" "m_fragmentOffset g = ?o"
    "m_payloadSize g = ucast n" "m_headerSize g = m_headerSize fh"
    by (simp_all add: g_def Let_def SetPayloadSize_def EnableChecksum_def)
  have calc: "m_calcChecksum g = m_calcChecksum fh"
    using cs fh(2) by (auto simp: g_def Let_def SetPayloadSize_def EnableChecksum_def same_datagram_def)
  have n: "unat n \<le> length p - unat off" using len by linarith
  have "unat (ucast n :: 16 word) = unat n" using len by (intro ucast_32_16) linarith
  then have "unat (m_payloadSize g) = length ?q" using n by (simp add: sel min_def)
  moreover have "?q \<noteq> []" using len by auto
  moreover have "Ipv4Header_valid g" using fh(1) o8 by (simp add: Ipv4Header_valid_def sel)
  ultimately have "is_fragment h (unat (m_fragmentOffset h) + unat off) (\<not> IsLastFragment fh) ?q g"
    using fh(2) by (simp add: is_fragment_def same_datagram_def sel calc o IsLastFragment_def)
  with eq show thesis by (rule that)
qed

lemma fragment_loop_ok:
  assumes "unat off < length p" and "unat (m_fragmentOffset h) + length p < 65536" and "Ipv4Header_valid h"
    and "8 dvd unat off" and "8 dvd unat fs" and "0 < unat fs" and "unat off + unat fs < 2 ^ 32"
    and "checksums \<longrightarrow> m_calcChecksum h"
  shows "\<exists>gs. fragment_loop checksums h fs p off acc = Some (Some (acc @ gs)) \<and>
    fragmentation h (unat (m_fragmentOffset h) + unat off) (\<not> IsLastFragment h) (drop (unat off) p) gs \<and>
    (\<forall>(q, g)\<in>set gs. length q \<le> unat fs) \<and> length gs = Suc ((length p - unat off - 1) div unat fs)"
  using assms
proof (induction "length p - unat off" arbitrary: off acc rule: less_induct)
  case less
  note p = less.prems
  have m8: "8 dvd unat (m_fragmentOffset h)" using p(3) by (simp add: Ipv4Header_valid_def and_7_16)
  have lp: "length p < 65536" "unat (packet_GetSize p) = length p"
    using p(2) by (simp_all add: packet_GetSize_small)
  have uo: "unat (ucast off + fs :: 32 word) = unat off + unat fs" using p(7) by (subst unat_plus) (simp_all add: ucast_16_32)
  have room: "unat (m_fragmentOffset h) + unat off < 65536" using p(1,2) by linarith
  have loop: "fragment_loop checksums h fs p off acc =
      (let mf = (packet_GetSize p > ucast off + fs);
           n = (if mf then fs else packet_GetSize p - ucast off);
           fh = (if mf then SetMoreFragments h else if \<not> IsLastFragment h then SetMoreFragments h else SetLastFragment h)
       in case make_fragment checksums h p off n fh of None \<Rightarrow> Some None
          | Some f \<Rightarrow> if mf then fragment_loop checksums h fs p (ucast (ucast off + n)) (acc @ [f]) else Some (Some (acc @ [f])))"
    by (subst fragment_loop.simps) (simp add: Let_def)
  show ?case
  proof (cases "unat off + unat fs < length p")
    case True
    then have mf: "packet_GetSize p > ucast off + fs" by (simp add: word_less_nat_alt uo lp)
    have "unat off + unat fs \<le> length p" using True by simp
    from make_fragment_ok [OF this lp(1) p(6) room m8 p(4) valid_flags(1) [OF p(3)] flags_frame(1) p(8)]
    obtain g where g: "make_fragment checksums h p off fs (SetMoreFragments h) = Some (take (unat fs) (drop (unat off) p), g)"
      "is_fragment h (unat (m_fragmentOffset h) + unat off) True (take (unat fs) (drop (unat off) p)) g"
      by (auto simp: valid_flags)
    let ?o = "ucast (ucast off + fs :: 32 word) :: 16 word"
    let ?q = "take (unat fs) (drop (unat off) p)"
    have o: "unat ?o = unat off + unat fs" using True lp uo by (subst ucast_32_16) simp_all
    have "length p - unat ?o < length p - unat off" "unat ?o < length p" "8 dvd unat ?o" "unat ?o + unat fs < 2 ^ 32"
      using True p lp o by auto
    from less.hyps [OF this(1,2) p(2,3) this(3) p(5,6) this(4) p(8), of "acc @ [(?q, g)]"] obtain gs where
      gs: "fragment_loop checksums h fs p ?o (acc @ [(?q, g)]) = Some (Some ((acc @ [(?q, g)]) @ gs))"
        "fragmentation h (unat (m_fragmentOffset h) + unat ?o) (\<not> IsLastFragment h) (drop (unat ?o) p) gs"
        "\<forall>(q, g)\<in>set gs. length q \<le> unat fs" "length gs = Suc ((length p - unat ?o - 1) div unat fs)"
      by blast
    have lq: "length ?q = unat fs" using True by simp
    have "fragmentation h (unat (m_fragmentOffset h) + unat off + length ?q) (\<not> IsLastFragment h) (drop (unat ?o) p) gs"
      using gs(2) unfolding lq by (simp add: o add.assoc)
    from fragmentation_more [OF g(2) this]
    have fr: "fragmentation h (unat (m_fragmentOffset h) + unat off) (\<not> IsLastFragment h) (?q @ drop (unat ?o) p) ((?q, g) # gs)" .
    have dr: "?q @ drop (unat ?o) p = drop (unat off) p"
      by (simp add: o add.commute [of "unat off"] flip: drop_drop)
    have e: "length p - unat off - 1 = (length p - unat ?o - 1) + unat fs" using True o by simp
    have nz: "unat fs \<noteq> 0" using p(6) by linarith
    have "Suc ((length p - unat off - 1) div unat fs) = Suc (length gs)"
      by (simp only: e div_add_self2 [OF nz] gs(4) Suc_eq_plus1)
    moreover have "fragment_loop checksums h fs p off acc = Some (Some (acc @ ((?q, g) # gs)))"
      using mf g(1) gs(1) by (subst loop) (simp add: Let_def)
    ultimately show ?thesis using fr gs(3) lq unfolding dr by (intro exI [of _ "(?q, g) # gs"]) auto
  next
    case False
    then have mf: "\<not> packet_GetSize p > ucast off + fs" by (simp add: word_less_nat_alt uo lp)
    let ?n = "packet_GetSize p - ucast off :: 32 word"
    let ?fh = "if \<not> IsLastFragment h then SetMoreFragments h else SetLastFragment h"
    have n: "unat ?n = length p - unat off" using p(1) by (subst unat_minus) (simp_all add: lp ucast_16_32)
    have "unat off + unat ?n \<le> length p" "0 < unat ?n" using n p(1) by simp_all
    moreover have "Ipv4Header_valid ?fh" "same_datagram h ?fh" "IsLastFragment ?fh = IsLastFragment h"
      using p(3) by (simp_all add: valid_flags flags_frame)
    ultimately obtain g where g: "make_fragment checksums h p off ?n ?fh = Some (drop (unat off) p, g)"
      "is_fragment h (unat (m_fragmentOffset h) + unat off) (\<not> IsLastFragment h) (drop (unat off) p) g"
      using make_fragment_ok [OF _ lp(1) _ room m8 p(4) _ _ p(8), of ?n ?fh] n by auto
    have "fragment_loop checksums h fs p off acc = Some (Some (acc @ [(drop (unat off) p, g)]))"
      using mf g(1) by (subst loop) (simp add: Let_def)
    moreover have "(length p - unat off - 1) div unat fs = 0" using False p(1) by simp
    ultimately show ?thesis using fragmentation_last [OF g(2)] False
      by (intro exI [of _ "[(drop (unat off) p, g)]"]) auto
  qed
qed

lemma fragment_size_ok:
  assumes "Ipv4Header_valid h" and "20 \<le> unat mtu"
  shows "unat (fragment_size h mtu) = (unat mtu - 20) div 8 * 8"
proof -
  have "unat (ucast (20 :: 16 word) :: 32 word) \<le> unat mtu" using assms(2) by simp
  then have "unat (mtu - ucast (20 :: 16 word)) = unat mtu - 20" by (subst unat_minus) simp_all
  with assms(1) and_not_7 [of "mtu - 20"] show ?thesis
    by (simp add: fragment_size_def Ipv4Header_GetSerializedSize_def Ipv4Header_valid_def minus_mod_eq_div_mult)
qed

lemma DoFragmentation_ok:
  assumes "p \<noteq> []" and "unat (m_fragmentOffset h) + length p < 65536" and "Ipv4Header_valid h"
    and "28 \<le> unat mtu" and "unat mtu < 65536" and "checksums \<longrightarrow> m_calcChecksum h"
  obtains gs where "DoFragmentation checksums p h mtu = Some (Some gs)"
    and "fragmentation h (unat (m_fragmentOffset h)) (\<not> IsLastFragment h) p gs"
    and "\<forall>(q, g)\<in>set gs. length q + 20 \<le> unat mtu"
    and "length gs = Suc ((length p - 1) div ((unat mtu - 20) div 8 * 8))"
proof -
  have fs: "unat (fragment_size h mtu) = (unat mtu - 20) div 8 * 8" using assms by (intro fragment_size_ok) simp_all
  have "1 \<le> (unat mtu - 20) div 8" using div_le_mono [of 8 "unat mtu - 20" 8] assms(4) by simp
  then have pos: "0 < unat (fragment_size h mtu)" unfolding fs by simp
  have le: "unat (fragment_size h mtu) + 20 \<le> unat mtu"
    unfolding fs using div_times_less_eq_dividend [of "unat mtu - 20" 8] assms(4) by linarith
  have d: "8 dvd unat (fragment_size h mtu)" unfolding fs by simp
  have "unat (0 :: 16 word) + unat (fragment_size h mtu) < 2 ^ 32" using le assms(5) by simp
  from fragment_loop_ok [of "0 :: 16 word" p h "fragment_size h mtu" checksums "[]", OF _ assms(2,3) _ d pos this assms(6)] obtain gs where
    gs: "fragment_loop checksums h (fragment_size h mtu) p 0 [] = Some (Some gs)"
      "fragmentation h (unat (m_fragmentOffset h)) (\<not> IsLastFragment h) p gs"
      "\<forall>(q, g)\<in>set gs. length q \<le> unat (fragment_size h mtu)"
      "length gs = Suc ((length p - 1) div unat (fragment_size h mtu))"
    using assms(1) by auto
  show thesis
  proof (rule that)
    show "DoFragmentation checksums p h mtu = Some (Some gs)"
      using gs(1) assms(3) by (simp add: DoFragmentation_def Ipv4Header_GetSerializedSize_def Ipv4Header_valid_def)
    show "\<forall>(q, g)\<in>set gs. length q + 20 \<le> unat mtu" using gs(3) le by fastforce
  qed (use gs(2,4) fs in simp_all)
qed

text \<open>An MTU that leaves no room for eight bytes: no fragment is cut off, so the loop goes on for ever.\<close>

lemma fragment_loop_stuck:
  assumes "unat off < length p" and "length p < 65536" and "off + m_fragmentOffset h AND 7 = 0"
  shows "fragment_loop checksums h 0 p off acc = None"
proof -
  have made: "make_fragment checksums h p off 0 (SetMoreFragments h) \<noteq> None"
    using assms Packet_CreateFragment_ok [of "ucast off" 0 p]
    by (simp add: make_fragment_def ucast_16_32 SetFragmentOffset_def Let_def)
  have mf: "packet_GetSize p > ucast off + 0" using assms(1,2)
    by (simp add: word_less_nat_alt ucast_16_32 packet_GetSize_small)
  have "unat (ucast (ucast off :: 32 word) :: 16 word) = unat off" by (simp add: ucast_32_16 ucast_16_32 unat_16)
  then have o: "ucast (ucast off + 0 :: 32 word) = off" by (simp add: word_unat_eq_iff)
  have never: "\<not> (c = checksums \<and> h' = h \<and> fs = 0 \<and> p' = p \<and> o' = off)"
    if "fragment_loop c h' fs p' o' acc = Some y" for c h' fs p' o' acc y
    using that
  proof (induction rule: fragment_loop.raw_induct [rotated 1, consumes 1, case_names step])
    case (step loop c h' fs p' o' acc y)
    show ?case
    proof
      assume eq: "c = checksums \<and> h' = h \<and> fs = 0 \<and> p' = p \<and> o' = off"
      with step(2) mf made o obtain f where "loop checksums h 0 p off (acc @ [f]) = Some y"
        by (auto simp: Let_def split: option.splits)
      from step(1) [OF this] show False by simp
    qed
  qed
  then show ?thesis by (cases "fragment_loop checksums h 0 p off acc") (simp, use never in blast)
qed

end
