(* ===== verification/Ipv4_Reassembly.thy ===== *)
theory Ipv4_Reassembly
  imports Ipv4_Fragments_Inv
begin

text \<open>
  The class \<open>Fragments\<close> filled with fragments of one datagram: when it is entire and what \<open>GetPacket\<close>
  returns. A stored fragment is a pair of its bytes and its offset.
\<close>

subsection \<open>Pieces of a datagram\<close>

definition piece :: "octet list \<Rightarrow> octet list \<times> 16 word \<Rightarrow> bool" where
  "piece D f \<longleftrightarrow> fst f \<noteq> [] \<and> unat (snd f) + length (fst f) \<le> length D \<and>
     fst f = take (length (fst f)) (drop (unat (snd f)) D)"

definition covers :: "octet list \<times> 16 word \<Rightarrow> nat \<Rightarrow> bool" where
  "covers f j \<longleftrightarrow> unat (snd f) \<le> j \<and> j < unat (snd f) + length (fst f)"

lemma piece_start:
  assumes "piece D f"
  shows "unat (snd f) < length D" and "covers f (unat (snd f))"
proof -
  have "0 < length (fst f)" using assms by (simp add: piece_def)
  then show "covers f (unat (snd f))" and "unat (snd f) < length D"
    using assms unfolding piece_def covers_def by linarith+
qed

fun reach :: "nat \<Rightarrow> (octet list \<times> 16 word) list \<Rightarrow> nat" where
  "reach e [] = e"
| "reach e (f # fs) = reach (max e (unat (snd f) + length (fst f))) fs"

definition sorted_frags :: "(octet list \<times> 16 word) list \<Rightarrow> bool" where
  "sorted_frags fs \<longleftrightarrow> sorted_wrt (\<lambda>f g. snd f \<le> snd g) fs"

lemma reach_ge: "e \<le> reach e fs"
proof (induction fs arbitrary: e)
  case (Cons f fs)
  from Cons [of "max e (unat (snd f) + length (fst f))"] show ?case by simp
qed simp

lemma reach_le: "e \<le> n \<Longrightarrow> \<forall>f\<in>set fs. piece D f \<Longrightarrow> n = length D \<Longrightarrow> reach e fs \<le> n"
  by (induction fs arbitrary: e) (auto simp: piece_def)

lemma reach_mem: "f \<in> set fs \<Longrightarrow> unat (snd f) + length (fst f) \<le> reach e fs"
proof (induction fs arbitrary: e)
  case (Cons g fs)
  then show ?case using reach_ge [of "max e (unat (snd g) + length (fst g))" fs] by auto
qed simp

text \<open>The end of a fragment of a datagram of less than 65536 bytes, as the code computes it.\<close>

lemma fragment_end:
  assumes "piece D (q, off)" and "length D < 65536"
  shows "unat (ucast (packet_GetSize q + ucast off) :: 16 word) = unat off + length q"
    and "unat (packet_GetSize q) = length q"
proof -
  have l: "unat off + length q < 65536" using assms by (simp add: piece_def)
  then show s: "unat (packet_GetSize q) = length q" by (simp add: packet_GetSize_small)
  have "unat (packet_GetSize q + ucast off) = length q + unat off"
    using l by (subst unat_plus) (simp_all add: s ucast_16_32)
  with l show "unat (ucast (packet_GetSize q + ucast off) :: 16 word) = unat off + length q"
    by (subst ucast_32_16) simp_all
qed

lemma no_gap_iff:
  assumes "length D < 65536" and "\<forall>f\<in>set fs. piece D f" and "sorted_frags fs"
  shows "no_gap e fs \<longleftrightarrow> (\<forall>j. unat e \<le> j \<and> j < reach (unat e) fs \<longrightarrow> (\<exists>f\<in>set fs. covers f j))"
  using assms(2,3)
proof (induction fs arbitrary: e)
  case (Cons f fs)
  obtain q off where f: "f = (q, off)" by (cases f)
  note k = fragment_end(1) [of D q off, OF _ assms(1)]
  have pc: "piece D (q, off)" using Cons.prems(1) f by simp
  define e' where "e' = max e (ucast (packet_GetSize q + ucast off) :: 16 word)"
  have e': "unat e' = max (unat e) (unat off + length q)"
    using k [OF pc] by (simp add: e'_def max_def word_le_nat_alt)
  have IH: "no_gap e' fs \<longleftrightarrow> (\<forall>j. unat e' \<le> j \<and> j < reach (unat e') fs \<longrightarrow> (\<exists>f\<in>set fs. covers f j))"
    using Cons by (simp add: sorted_frags_def)
  have later: "unat off \<le> unat (snd g)" if "g \<in> set fs" for g
    using that Cons.prems(2) f by (auto simp: sorted_frags_def word_le_nat_alt)
  show ?case
  proof (cases "e < off")
    case True
    then have "unat e < unat off" by (simp add: word_less_nat_alt)
    then have "\<not> covers g (unat e)" if "g \<in> set (f # fs)" for g
      using that later [of g] f by (auto simp: covers_def)
    moreover have "unat e < reach (unat e) (f # fs)"
      using \<open>unat e < unat off\<close> reach_ge [of "unat e'" fs] by (simp add: f e')
    ultimately have "\<not> (\<forall>j. unat e \<le> j \<and> j < reach (unat e) (f # fs) \<longrightarrow> (\<exists>f\<in>set (f # fs). covers f j))" by blast
    then show ?thesis using True by (simp add: f)
  next
    case False
    then have le: "unat off \<le> unat e" by (simp add: word_less_nat_alt)
    have "(\<forall>j. unat e \<le> j \<and> j < reach (unat e) (f # fs) \<longrightarrow> (\<exists>f\<in>set (f # fs). covers f j)) \<longleftrightarrow>
      (\<forall>j. unat e' \<le> j \<and> j < reach (unat e') fs \<longrightarrow> (\<exists>f\<in>set fs. covers f j))" (is "?L \<longleftrightarrow> ?R")
    proof
      assume L: ?L
      show ?R
      proof (intro allI impI)
        fix j assume j: "unat e' \<le> j \<and> j < reach (unat e') fs"
        then have "unat e \<le> j \<and> j < reach (unat e) (f # fs)" by (simp add: e' f)
        with L obtain g where g: "g \<in> set (f # fs)" "covers g j" by blast
        have "\<not> covers f j" using j by (simp add: covers_def f e')
        with g show "\<exists>f\<in>set fs. covers f j" by auto
      qed
    next
      assume R: ?R
      show ?L
      proof (intro allI impI)
        fix j assume j: "unat e \<le> j \<and> j < reach (unat e) (f # fs)"
        show "\<exists>f\<in>set (f # fs). covers f j"
        proof (cases "j < unat off + length q")
          case True
          with j le have "covers f j" by (simp add: covers_def f)
          then show ?thesis by simp
        next
          case False
          with j have "unat e' \<le> j \<and> j < reach (unat e') fs" by (simp add: e' f)
          with R show ?thesis by auto
        qed
      qed
    qed
    then show ?thesis using False IH by (simp add: f e'_def Let_def)
  qed
qed simp

lemma append_fragments_ok:
  assumes "length D < 65536" and "\<forall>f\<in>set fs. piece D f" and "no_gap e fs" and "unat e \<le> length D"
  shows "append_fragments (take (unat e) D) e fs = Some (take (reach (unat e) fs) D)"
  using assms(2-)
proof (induction fs arbitrary: e)
  case (Cons f fs)
  obtain q off where f: "f = (q, off)" by (cases f)
  have pc: "piece D (q, off)" using Cons.prems(1) f by simp
  note k = fragment_end [OF pc assms(1)]
  define e' where "e' = max e (ucast (packet_GetSize q + ucast off) :: 16 word)"
  have e': "unat e' = max (unat e) (unat off + length q)"
    using k(1) by (simp add: e'_def max_def word_le_nat_alt)
  have le: "unat off \<le> unat e" and gap: "no_gap e' fs"
    using Cons.prems(2) by (auto simp: f e'_def word_less_nat_alt Let_def split: if_splits)
  have end_le: "unat off + length q \<le> length D" using pc by (simp add: piece_def)
  have q: "q = take (length q) (drop (unat off) D)" using pc by (simp add: piece_def)
  have step: "(if e > off
         then let newStart = ucast e - ucast off in
              if packet_GetSize q > newStart
              then map_option (\<lambda>t. take (unat e) D @ t) (Packet_CreateFragment newStart (packet_GetSize q - newStart) q)
              else Some (take (unat e) D)
         else Some (take (unat e) D @ q)) = Some (take (unat e') D)"
  proof (cases "e > off")
    case True
    have ns: "unat (ucast e - ucast off :: 32 word) = unat e - unat off"
      using le by (subst unat_minus) (simp_all add: ucast_16_32)
    show ?thesis
    proof (cases "length q > unat e - unat off")
      case t: True
      let ?n = "unat e - unat off"
      have fr: "Packet_CreateFragment (ucast e - ucast off) (packet_GetSize q - (ucast e - ucast off)) q = Some (drop ?n q)"
        using t end_le assms(1) by (subst Packet_CreateFragment_rest) (simp_all add: ns)
      have "drop ?n q = take (length q - ?n) (drop (unat e) D)"
        using le by (subst q) (simp add: drop_take)
      then have "take (unat e) D @ drop ?n q = take (unat e + (length q - ?n)) D" by (simp add: take_add)
      moreover have "unat e + (length q - ?n) = unat e'" using t le by (simp add: e')
      ultimately show ?thesis using True t fr by (simp add: word_less_nat_alt k(2) ns Let_def)
    next
      case t: False
      then have "unat e' = unat e" using le by (simp add: e')
      with True t show ?thesis by (simp add: word_less_nat_alt k(2) ns Let_def)
    qed
  next
    case False
    then have "unat off = unat e" using le by (simp add: word_less_nat_alt)
    moreover then have "take (unat e) D @ q = take (unat e + length q) D" by (subst q) (simp add: take_add)
    ultimately show ?thesis using False by (simp add: e')
  qed
  have le': "unat e' \<le> length D" using Cons.prems(3) end_le by (simp add: e')
  then have "packet_GetSize (take (unat e') D) = of_nat (unat e')" by (simp add: packet_GetSize_def)
  then have "(ucast (packet_GetSize (take (unat e') D)) :: 16 word) = e'"
    by (simp add: word_unat_eq_iff unsigned_ucast_eq take_bit_nat_eq_self unat_16 unsigned_of_nat)
  moreover have "append_fragments (take (unat e') D) e' fs = Some (take (reach (unat e') fs) D)"
    using Cons.IH [OF _ gap le'] Cons.prems(1) by simp
  ultimately show ?case using step by (simp add: f e' del: if_split)
qed simp

subsection \<open>The object while fragments arrive\<close>

definition frags_ok :: "octet list \<Rightarrow> fragments \<Rightarrow> bool" where
  "frags_ok D fs \<longleftrightarrow> (\<forall>f\<in>set (m_fragments fs). piece D f) \<and> sorted_frags (m_fragments fs) \<and>
     (m_fragments fs \<noteq> [] \<longrightarrow>
       m_moreFragment fs = (unat (snd (last (m_fragments fs))) + length (fst (last (m_fragments fs))) < length D))"

lemma AddFragment_set: "set (m_fragments (AddFragment q off mf fs)) = insert (q, off) (set (m_fragments fs))"
  "m_fragments (AddFragment q off mf fs) \<noteq> []" "m_timeoutIter (AddFragment q off mf fs) = m_timeoutIter fs"
proof -
  let ?P = "\<lambda>f. \<not> snd f > off"
  have "set (takeWhile ?P (m_fragments fs)) \<union> set (dropWhile ?P (m_fragments fs)) = set (m_fragments fs)"
    by (metis set_append takeWhile_dropWhile_id)
  then show "set (m_fragments (AddFragment q off mf fs)) = insert (q, off) (set (m_fragments fs))"
    by (auto simp: AddFragment_def Let_def)
qed (simp_all add: AddFragment_def Let_def)

lemma sorted_insert_frag:
  assumes "sorted_frags fs"
  shows "sorted_frags (takeWhile (\<lambda>f. \<not> snd f > off) fs @ (q, off) # dropWhile (\<lambda>f. \<not> snd f > off) fs)"
proof -
  let ?P = "\<lambda>f. \<not> snd f > off"
  have s: "sorted_frags (takeWhile ?P fs @ dropWhile ?P fs)" using assms by simp
  have after: "off \<le> snd g" if "g \<in> set (dropWhile ?P fs)" for g
  proof (cases "dropWhile ?P fs")
    case (Cons f gs)
    then have "\<not> ?P f" using hd_dropWhile [of ?P fs] by simp
    moreover have "snd f \<le> snd g" using s that unfolding Cons by (auto simp: sorted_frags_def sorted_wrt_append)
    ultimately show ?thesis by auto
  next
    case Nil
    then show ?thesis using that by (metis empty_iff list.set(1))
  qed
  have before: "snd g \<le> off" if "g \<in> set (takeWhile ?P fs)" for g using set_takeWhileD [OF that] by auto
  have "sorted_wrt (\<lambda>f g. snd f \<le> snd g) (takeWhile ?P fs)" "sorted_wrt (\<lambda>f g. snd f \<le> snd g) (dropWhile ?P fs)"
    using s unfolding sorted_frags_def sorted_wrt_append by blast+
  then show ?thesis using before after order_trans [OF before after]
    by (auto simp: sorted_frags_def sorted_wrt_append)
qed

lemma AddFragment_ok:
  assumes "frags_ok D fs" and "piece D (q, off)" and "mf = (unat off + length q < length D)"
  shows "frags_ok D (AddFragment q off mf fs)"
proof -
  let ?P = "\<lambda>f. \<not> snd f > off"
  have "piece D f" if "f \<in> set (m_fragments (AddFragment q off mf fs))" for f
    using that assms(1,2) by (auto simp: AddFragment_set frags_ok_def)
  moreover have "sorted_frags (m_fragments (AddFragment q off mf fs))"
    using sorted_insert_frag [of "m_fragments fs" off q] assms(1) by (simp add: AddFragment_def Let_def frags_ok_def)
  moreover have "m_moreFragment (AddFragment q off mf fs) =
      (unat (snd (last (m_fragments (AddFragment q off mf fs)))) + length (fst (last (m_fragments (AddFragment q off mf fs)))) < length D)"
  proof (cases "dropWhile ?P (m_fragments fs) = []")
    case True
    then show ?thesis using assms(3) by (simp add: AddFragment_def Let_def)
  next
    case False
    then have "last (dropWhile ?P (m_fragments fs)) = last (m_fragments fs)"
      by (metis last_appendR takeWhile_dropWhile_id)
    moreover have "m_fragments fs \<noteq> []" using False by auto
    ultimately show ?thesis using assms(1) False by (auto simp: AddFragment_def Let_def frags_ok_def)
  qed
  ultimately show ?thesis by (simp add: frags_ok_def)
qed

text \<open>An entire object holds every byte, and its packet is the datagram.\<close>

lemma entire_packet:
  assumes "frags_ok D fs" and "IsEntire fs" and "length D < 65536"
  shows "GetPacket fs = Some D" and "\<forall>j<length D. \<exists>f\<in>set (m_fragments fs). covers f j"
proof -
  let ?xs = "m_fragments fs"
  have ok: "\<forall>f\<in>set ?xs. piece D f" "sorted_frags ?xs" and ne: "?xs \<noteq> []" and gap: "no_gap 0 ?xs"
    and lst: "\<not> unat (snd (last ?xs)) + length (fst (last ?xs)) < length D"
    using assms(1,2) by (auto simp: frags_ok_def IsEntire_def)
  have "unat (snd (last ?xs)) + length (fst (last ?xs)) \<le> reach 0 ?xs" using ne by (intro reach_mem) simp
  with lst reach_le [OF _ ok(1), of 0 "length D"] have r: "reach 0 ?xs = length D" by simp
  from no_gap_iff [OF assms(3) ok, of 0] gap r
  show "\<forall>j<length D. \<exists>f\<in>set (m_fragments fs). covers f j" by simp
  obtain q off rest where xs: "?xs = (q, off) # rest" using ne by (metis list.exhaust prod.exhaust)
  have pc: "piece D (q, off)" using ok(1) xs by simp
  have "off = 0" using gap xs by (auto simp: not_less split: if_splits)
  then have q: "q = take (length q) D" using pc by (simp add: piece_def)
  note k = fragment_end [OF pc assms(3)]
  let ?e = "ucast (packet_GetSize q) :: 16 word"
  have ue: "unat ?e = length q" using k(1) \<open>off = 0\<close> by simp
  have g: "no_gap ?e rest" using gap \<open>off = 0\<close> by (simp add: xs Let_def)
  have "length q \<le> length D" using pc by (simp add: piece_def)
  from append_fragments_ok [OF assms(3) _ g] this ok(1) have
    "append_fragments (take (length q) D) ?e rest = Some (take (reach (length q) rest) D)" by (simp add: ue xs)
  moreover have "reach (length q) rest = length D" using r \<open>off = 0\<close> by (simp add: xs)
  ultimately show "GetPacket fs = Some D" using q by (simp add: GetPacket_def xs)
qed

subsection \<open>All fragments of a fragmentation\<close>

definition frag_of :: "datagram \<Rightarrow> octet list \<times> 16 word" where
  "frag_of f = (fst f, m_fragmentOffset (snd f))"

lemma fragmentation_member:
  assumes "fragmentation h off mf p fs" and "f \<in> set fs"
  shows "same_datagram h (snd f) \<and> Ipv4Header_valid (snd f) \<and> fst f \<noteq> [] \<and> unat (m_payloadSize (snd f)) = length (fst f) \<and>
    (\<exists>i. unat (m_fragmentOffset (snd f)) = off + i \<and> i + length (fst f) \<le> length p \<and> fst f = take (length (fst f)) (drop i p) \<and>
      IsLastFragment (snd f) = (\<not> mf \<and> i + length (fst f) = length p))"
  using assms
proof (induction rule: fragmentation.induct)
  case (fragmentation_last off mf p g)
  then show ?case by (auto simp: is_fragment_def)
next
  case (fragmentation_more off q g mf p fs)
  show ?case
  proof (cases "f = (q, g)")
    case True
    moreover have "p \<noteq> []" using fragmentation_concat [OF fragmentation_more(2)] by simp
    ultimately show ?thesis using fragmentation_more(1) by (auto simp: is_fragment_def)
  next
    case False
    then have "f \<in> set fs" using fragmentation_more.prems by auto
    note IH = fragmentation_more.IH [OF this]
    then obtain i where i: "unat (m_fragmentOffset (snd f)) = off + length q + i" "i + length (fst f) \<le> length p"
      "fst f = take (length (fst f)) (drop i p)" "IsLastFragment (snd f) = (\<not> mf \<and> i + length (fst f) = length p)" by blast
    have "fst f = take (length (fst f)) (drop (length q + i) (q @ p))" using i(3) by simp
    then show ?thesis using IH i by (intro conjI exI [of _ "length q + i"]) simp_all
  qed
qed

lemma fragmentation_covers:
  "fragmentation h off mf p fs \<Longrightarrow> j < length p \<Longrightarrow> \<exists>f\<in>set fs. covers (frag_of f) (off + j)"
proof (induction arbitrary: j rule: fragmentation.induct)
  case (fragmentation_last off mf p g)
  then show ?case by (simp add: covers_def frag_of_def is_fragment_def)
next
  case (fragmentation_more off q g mf p fs)
  show ?case
  proof (cases "j < length q")
    case True
    then have "covers (frag_of (q, g)) (off + j)" using fragmentation_more(1) by (simp add: covers_def frag_of_def is_fragment_def)
    then show ?thesis by auto
  next
    case False
    then have "j - length q < length p" using fragmentation_more.prems by simp
    from fragmentation_more.IH [OF this] False show ?thesis by auto
  qed
qed

lemma fragmentation_disjoint:
  assumes "fragmentation h off mf p fs" and "f \<in> set fs" and "f' \<in> set fs" and "covers (frag_of f) j" and "covers (frag_of f') j"
  shows "frag_of f = frag_of f'"
  using assms
proof (induction rule: fragmentation.induct)
  case (fragmentation_more off q g mf p fs)
  have first: "j < off + length q" if "covers (frag_of (q, g)) j"
    using that fragmentation_more(1) by (simp add: covers_def frag_of_def is_fragment_def)
  have rest: "off + length q \<le> j" if "x \<in> set fs" "covers (frag_of x) j" for x
    using fragmentation_member [OF fragmentation_more(2) that(1)] that(2) by (auto simp: covers_def frag_of_def)
  show ?case using fragmentation_more.prems fragmentation_more.IH first rest by fastforce
qed auto

lemma fragmentation_piece:
  assumes "fragmentation h 0 False D fs" and "f \<in> set fs"
  shows "piece D (frag_of f)" and "IsLastFragment (snd f) = (\<not> unat (m_fragmentOffset (snd f)) + length (fst f) < length D)"
  using fragmentation_member [OF assms] by (auto simp: piece_def frag_of_def)

text \<open>The object is entire exactly when it holds all fragments.\<close>

lemma entire_iff:
  assumes fr: "fragmentation h 0 False D fs" and D: "length D < 65536" and ok: "frags_ok D x"
    and sub: "set (m_fragments x) \<subseteq> frag_of ` set fs"
  shows "IsEntire x \<longleftrightarrow> frag_of ` set fs \<subseteq> set (m_fragments x)"
proof
  assume e: "IsEntire x"
  show "frag_of ` set fs \<subseteq> set (m_fragments x)"
  proof
    fix g assume "g \<in> frag_of ` set fs"
    then obtain f where f: "f \<in> set fs" "g = frag_of f" by blast
    have pf: "piece D (frag_of f)" by (rule fragmentation_piece(1) [OF fr f(1)])
    note c = piece_start(2) [OF pf, unfolded frag_of_def snd_conv, folded frag_of_def] piece_start(1) [OF pf, unfolded frag_of_def snd_conv]
    from entire_packet(2) [OF ok e D] c(2) obtain y where y: "y \<in> set (m_fragments x)" "covers y (unat (m_fragmentOffset (snd f)))" by blast
    then obtain f' where f': "f' \<in> set fs" "y = frag_of f'" using sub by blast
    from fragmentation_disjoint [OF fr f(1) f'(1) c(1)] y f' f show "g \<in> set (m_fragments x)" by simp
  qed
next
  assume all: "frag_of ` set fs \<subseteq> set (m_fragments x)"
  let ?xs = "m_fragments x"
  have pieces: "\<forall>f\<in>set ?xs. piece D f" "sorted_frags ?xs" using ok by (simp_all add: frags_ok_def)
  have D0: "D \<noteq> []" and fs: "fs \<noteq> []" using fragmentation_concat [OF fr] by auto
  then have ne: "?xs \<noteq> []" using all by (cases fs) auto
  have cov: "\<exists>f\<in>set ?xs. covers f j" if "j < length D" for j using fragmentation_covers [OF fr that] all by auto
  have gap: "no_gap 0 ?xs" using no_gap_iff [OF D pieces, of 0] reach_le [OF _ pieces(1), of 0 "length D"] cov by auto
  have lD: "length D - 1 < length D" using D0 by simp
  from fragmentation_covers [OF fr lD] obtain l where l: "l \<in> set fs" "covers (frag_of l) (length D - 1)" by auto
  have pl: "piece D (frag_of l)" by (rule fragmentation_piece(1) [OF fr l(1)])
  have l_end: "unat (snd (frag_of l)) + length (fst (frag_of l)) = length D" using l(2) pl by (auto simp: covers_def piece_def)
  obtain f where f: "f \<in> set fs" "last ?xs = frag_of f" using sub ne by (metis (no_types, lifting) imageE last_in_set subsetD)
  have "frag_of l \<in> set ?xs" using all l(1) by blast
  then have "snd (frag_of l) \<le> snd (last ?xs)" using pieces(2) ne
    by (cases ?xs rule: rev_cases) (auto simp: sorted_frags_def sorted_wrt_append)
  then have le: "unat (snd (frag_of l)) \<le> unat (snd (frag_of f))" by (simp add: f(2) word_le_nat_alt)
  have pf: "piece D (frag_of f)" by (rule fragmentation_piece(1) [OF fr f(1)])
  have "covers (frag_of l) (unat (snd (frag_of f)))" using le l_end piece_start(1) [OF pf] by (simp add: covers_def)
  from fragmentation_disjoint [OF fr f(1) l(1) piece_start(2) [OF pf] this] have "last ?xs = frag_of l" by (simp add: f(2))
  then have "\<not> m_moreFragment x" using ok ne l_end by (simp add: frags_ok_def)
  with ne gap show "IsEntire x" by (simp add: IsEntire_def)
qed

end
