(* ===== verification/Ipv4_L3_Inv.thy ===== *)
theory Ipv4_L3_Inv
  imports Ipv4_Reassembly
begin

text \<open>
  The tables of \<open>Ipv4L3Protocol\<close> over time: every set of fragments has exactly one entry in the list of
  timeouts, the list is in the order of expiry, and an event is pending that fires no later than the
  first entry expires.
\<close>

subsection \<open>The fragments and the timeouts\<close>

text \<open>\<open>x\<close> is the expiration timeout, \<open>nid\<close> the next identifier of an iterator.\<close>

definition book :: "int \<Rightarrow> int \<Rightarrow> nat \<Rightarrow> timeout_entry list \<Rightarrow> (fragment_key \<times> fragments) list \<Rightarrow> bool" where
  "book now x nid es m \<longleftrightarrow> sorted_by fst m \<and> distinct (map iter es) \<and> (\<forall>e\<in>set es. iter e < nid) \<and>
     distinct (map t_key es) \<and> t_key ` set es = fst ` set m \<and>
     (\<forall>e\<in>set es. \<exists>fs. map_of m (t_key e) = Some fs \<and> m_timeoutIter fs = iter e) \<and>
     sorted (map t_expires es) \<and> (\<forall>e\<in>set es. now \<le> t_expires e \<and> t_expires e \<le> now + x)"

lemma map_of_dom: "k \<in> fst ` set m \<longleftrightarrow> (\<exists>v. map_of m k = Some v)"
  by (metis map_of_eq_None_iff not_None_eq)

lemma book_new:
  assumes "book now x nid es m" and "map_of m k = None" and "m_timeoutIter fs = nid" and "0 \<le> x"
  shows "book now x (nid + 1) (es @ [\<lparr>iter = nid, t_expires = now + x, t_key = k, t_header = h, t_iif = i\<rparr>])
    (fst (smap_insert (<) k fs m))"
proof -
  note b = assms(1) [unfolded book_def]
  have k: "k \<notin> fst ` set m" using assms(2) by (simp add: map_of_eq_None_iff)
  have srt: "sorted_by fst m" using b by simp
  note ins = smap_keys_insert [OF srt k, of fs]
  have nk: "k \<notin> t_key ` set es" using b k by simp
  have "iter e \<noteq> nid" if "e \<in> set es" for e using b that by auto
  then have "nid \<notin> iter ` set es" by auto
  moreover have "\<exists>fs'. ((map_of m)(k \<mapsto> fs)) (t_key e) = Some fs' \<and> m_timeoutIter fs' = iter e" if "e \<in> set es" for e
    using b that nk by auto
  ultimately show ?thesis using b nk assms(3,4)
    by (auto simp: book_def ins sorted_append less_Suc_eq)
qed

lemma book_assign:
  assumes "book now x nid es m" and "map_of m k = Some fs0" and "m_timeoutIter fs = m_timeoutIter fs0"
  shows "book now x nid es (smap_assign (<) k fs m)"
proof -
  note b = assms(1) [unfolded book_def]
  have srt: "sorted_by fst m" using b by simp
  note a = smap_sorted_keys [OF srt, of k fs]
  have "k \<in> fst ` set m" using assms(2) by (auto simp: map_of_dom)
  then have "insert k (fst ` set m) = fst ` set m" by blast
  moreover have "\<exists>fs'. ((map_of m)(k \<mapsto> fs)) (t_key e) = Some fs' \<and> m_timeoutIter fs' = iter e" if "e \<in> set es" for e
    using b that assms(2,3) by fastforce
  ultimately show ?thesis using b by (simp add: book_def a)
qed

lemma book_drop:
  assumes "book now x nid es m" and "map_of m k = Some fs"
  shows "m_timeoutIter fs \<in> iter ` set es" and "filter (\<lambda>e. iter e \<noteq> m_timeoutIter fs) es = filter (\<lambda>e. t_key e \<noteq> k) es"
    and "book now x nid (filter (\<lambda>e. t_key e \<noteq> k) es) (smap_erase (<) k m)"
proof -
  note b = assms(1) [unfolded book_def]
  have "k \<in> fst ` set m" using assms(2) by (auto simp: map_of_dom)
  then have "k \<in> t_key ` set es" using b by simp
  then obtain e where e: "e \<in> set es" "t_key e = k" by blast
  then have ie: "iter e = m_timeoutIter fs" using b assms(2) by fastforce
  with e show "m_timeoutIter fs \<in> iter ` set es" by force
  have inj: "inj_on iter (set es)" "inj_on t_key (set es)" using b by (simp_all add: distinct_map)
  have "iter e' = m_timeoutIter fs \<longleftrightarrow> t_key e' = k" if "e' \<in> set es" for e'
  proof
    assume "iter e' = m_timeoutIter fs"
    then have "e' = e" using inj_onD [OF inj(1) _ that e(1)] ie by simp
    then show "t_key e' = k" using e(2) by simp
  next
    assume "t_key e' = k"
    then have "e' = e" using inj_onD [OF inj(2) _ that e(1)] e(2) by simp
    then show "iter e' = m_timeoutIter fs" using ie by simp
  qed
  then show "filter (\<lambda>e. iter e \<noteq> m_timeoutIter fs) es = filter (\<lambda>e. t_key e \<noteq> k) es"
    by (intro filter_cong) auto
  have srt: "sorted_by fst m" using b by simp
  note er = smap_keys_erase [OF srt, of k]
  have keys: "t_key ` set (filter (\<lambda>e. t_key e \<noteq> k) es) = t_key ` set es - {k}" by auto
  have "distinct (map iter (filter (\<lambda>e. t_key e \<noteq> k) es))" "distinct (map t_key (filter (\<lambda>e. t_key e \<noteq> k) es))"
    "sorted (map t_expires (filter (\<lambda>e. t_key e \<noteq> k) es))"
    using b by (simp_all add: distinct_map_filter sorted_filter)
  moreover have "\<forall>e\<in>set (filter (\<lambda>e. t_key e \<noteq> k) es). \<exists>fs. map_of (smap_erase (<) k m) (t_key e) = Some fs \<and> m_timeoutIter fs = iter e"
    using b by (simp add: er)
  ultimately show "book now x nid (filter (\<lambda>e. t_key e \<noteq> k) es) (smap_erase (<) k m)"
    using b keys by (simp add: book_def er)
qed

lemma book_front:
  assumes "book now x nid (e # es) m"
  obtains fs where "map_of m (t_key e) = Some fs" and "book now x nid es (smap_erase (<) (t_key e) m)"
proof -
  obtain fs where fs: "map_of m (t_key e) = Some fs" using assms by (auto simp: book_def)
  have "distinct (map t_key (e # es))" using assms by (simp only: book_def)
  then have "t_key e \<notin> t_key ` set es" by simp
  then have "\<forall>e'\<in>set es. t_key e' \<noteq> t_key e" by (metis image_eqI)
  then have "filter (\<lambda>e'. t_key e' \<noteq> t_key e) (e # es) = es" by (simp add: filter_id_conv)
  with book_drop(3) [OF assms fs] fs that show thesis by simp
qed

lemma book_later: "book now x nid es m \<Longrightarrow> now \<le> now' \<Longrightarrow> \<forall>e\<in>set es. now' \<le> t_expires e \<Longrightarrow> book now' x nid es m"
  by (fastforce simp: book_def)

subsection \<open>The state\<close>

definition event_before :: "int list \<Rightarrow> timeout_entry list \<Rightarrow> bool" where
  "event_before evs es \<longleftrightarrow> (es \<noteq> [] \<longrightarrow> (\<exists>n\<in>set evs. n \<le> t_expires (hd es)))"

definition l3_ok :: "int \<Rightarrow> ipv4_l3 \<Rightarrow> bool" where
  "l3_ok now st \<longleftrightarrow>
     book now (m_fragmentExpirationTimeout st) (next_iter st) (m_timeoutEventList st) (l3_fragments st) \<and>
     (\<forall>k fs. map_of (l3_fragments st) k = Some fs \<longrightarrow> m_fragments fs \<noteq> []) \<and>
     event_before (timeout_events st) (m_timeoutEventList st) \<and> (\<forall>n\<in>set (timeout_events st). now \<le> n) \<and>
     0 \<le> m_fragmentExpirationTimeout st"

lemma event_before_filter:
  assumes "event_before evs es" and "sorted (map t_expires es)"
  shows "event_before evs (filter P es)"
proof (cases "filter P es")
  case (Cons e es')
  then have "e \<in> set (filter P es)" by simp
  then have "e \<in> set es" by simp
  then have "t_expires (hd es) \<le> t_expires e" using assms(2) by (cases es) auto
  moreover have "es \<noteq> []" using \<open>e \<in> set es\<close> by auto
  ultimately show ?thesis using assms(1) Cons unfolding event_before_def by (auto intro: order_trans)
qed (simp add: event_before_def)

lemma l3_ok_nonempty: "l3_ok now st \<Longrightarrow> map_of (l3_fragments st) k = Some fs \<Longrightarrow> m_fragments fs \<noteq> []"
  unfolding l3_ok_def by blast

lemma l3_ok_init: "0 \<le> x \<Longrightarrow> l3_ok now (ipv4_l3_init x)"
  by (simp add: l3_ok_def ipv4_l3_init_def book_def event_before_def)

text \<open>Time passes up to the next event.\<close>

lemma l3_ok_later:
  assumes ok: "l3_ok now st" and "now \<le> now'" and evs: "\<forall>n\<in>set (timeout_events st). now' \<le> n"
  shows "l3_ok now' st"
proof -
  have b: "book now (m_fragmentExpirationTimeout st) (next_iter st) (m_timeoutEventList st) (l3_fragments st)"
    and ev: "event_before (timeout_events st) (m_timeoutEventList st)"
    using ok by (simp_all add: l3_ok_def)
  have "now' \<le> t_expires e" if "e \<in> set (m_timeoutEventList st)" for e
  proof -
    have "t_expires (hd (m_timeoutEventList st)) \<le> t_expires e"
      using b that by (cases "m_timeoutEventList st") (auto simp: book_def)
    moreover have "m_timeoutEventList st \<noteq> []" using that by auto
    with ev obtain n where "n \<in> set (timeout_events st)" "n \<le> t_expires (hd (m_timeoutEventList st))"
      unfolding event_before_def by blast
    ultimately show ?thesis using evs by force
  qed
  then show ?thesis using ok book_later [OF b assms(2)] evs by (auto simp: l3_ok_def)
qed

subsection \<open>A packet arrives\<close>

lemma append_fragments_total: "\<exists>q. append_fragments p e fs = Some q"
proof (induction fs arbitrary: p e)
  case (Cons f fs)
  obtain q off where f: "f = (q, off)" by (cases f)
  from Packet_CreateFragment_total [of "ucast e - ucast off" q] obtain t where
    "Packet_CreateFragment (ucast e - ucast off) (packet_GetSize q - (ucast e - ucast off)) q = Some t" by blast
  then show ?case using Cons.IH by (simp add: f Let_def)
qed simp

lemma append_partial_total: "\<exists>q. append_partial p e fs = Some q"
proof (induction fs arbitrary: p e)
  case (Cons f fs)
  obtain q off where f: "f = (q, off)" by (cases f)
  from Packet_CreateFragment_total [of "ucast e - ucast off" q] obtain t where
    "Packet_CreateFragment (ucast e - ucast off) (packet_GetSize q - (ucast e - ucast off)) q = Some t" by blast
  then show ?case using Cons.IH by (simp add: f Let_def)
qed simp

lemma packets_total:
  assumes "m_fragments fs \<noteq> []"
  shows "\<exists>p. GetPacket fs = Some p" and "\<exists>p. GetPartialPacket fs = Some p"
  using assms append_fragments_total append_partial_total
  by (auto simp: GetPacket_def GetPartialPacket_def split: list.splits)

text \<open>The fragments that are stored for a key; a new object where there are none.\<close>

definition stored :: "ipv4_l3 \<Rightarrow> fragment_key \<Rightarrow> fragments" where
  "stored st k =
     (case map_of (l3_fragments st) k of
        None \<Rightarrow> \<lparr>m_moreFragment = False, m_fragments = [], m_timeoutIter = next_iter st\<rparr>
      | Some fs \<Rightarrow> fs)"

text \<open>What every operation may do to the list of timeouts.\<close>

definition timeouts_kept :: "int \<Rightarrow> fragment_key \<Rightarrow> ipv4_l3 \<Rightarrow> ipv4_l3 \<Rightarrow> bool" where
  "timeouts_kept now k st st' \<longleftrightarrow>
     (\<forall>e\<in>set (m_timeoutEventList st'). e \<in> set (m_timeoutEventList st) \<or>
        t_key e = k \<and> t_expires e = now + m_fragmentExpirationTimeout st) \<and>
     m_fragmentExpirationTimeout st' = m_fragmentExpirationTimeout st"

lemma find_or_create_ok:
  assumes ok: "l3_ok now st"
  obtains st1 where "find_or_create now k h i st = (stored st k, st1)"
    and "book now (m_fragmentExpirationTimeout st1) (next_iter st1) (m_timeoutEventList st1) (l3_fragments st1)"
    and "map_of (l3_fragments st1) = (map_of (l3_fragments st))(k \<mapsto> stored st k)"
    and "event_before (timeout_events st1) (m_timeoutEventList st1)" and "\<forall>n\<in>set (timeout_events st1). now \<le> n"
    and "timeouts_kept now k st st1"
proof (cases "map_of (l3_fragments st) k")
  case (Some fs)
  then have "find_or_create now k h i st = (stored st k, st)"
    by (simp add: find_or_create_def smap_keys_map_of stored_def)
  moreover have "(map_of (l3_fragments st))(k \<mapsto> stored st k) = map_of (l3_fragments st)"
    using Some by (auto simp: stored_def)
  ultimately show thesis using ok that [of st] by (simp add: l3_ok_def timeouts_kept_def)
next
  case None
  note b = ok [unfolded l3_ok_def]
  let ?x = "m_fragmentExpirationTimeout st"
  let ?e = "\<lparr>iter = next_iter st, t_expires = now + ?x, t_key = k, t_header = h, t_iif = i\<rparr>"
  define evs where "evs = (if m_timeoutEventList st = [] then timeout_events st @ [now + ?x] else timeout_events st)"
  define st1 where "st1 = st\<lparr>timeout_events := evs, m_timeoutEventList := m_timeoutEventList st @ [?e],
    next_iter := next_iter st + 1, l3_fragments := fst (smap_insert (<) k (stored st k) (l3_fragments st))\<rparr>"
  have "find_or_create now k h i st = (stored st k, st1)"
    using None by (simp add: find_or_create_def smap_keys_map_of stored_def SetTimeout_def Let_def st1_def evs_def)
  moreover have "book now ?x (next_iter st1) (m_timeoutEventList st1) (l3_fragments st1)"
    using b None book_new [OF _ None, of now ?x "next_iter st" "m_timeoutEventList st" "stored st k" h i]
    by (simp add: st1_def stored_def)
  moreover have "map_of (l3_fragments st1) = (map_of (l3_fragments st))(k \<mapsto> stored st k)"
  proof -
    have "sorted_by fst (l3_fragments st)" using b by (simp add: book_def)
    moreover have "k \<notin> fst ` set (l3_fragments st)" using None by (simp add: map_of_eq_None_iff)
    ultimately show ?thesis by (simp add: st1_def smap_keys_insert)
  qed
  moreover have "event_before (timeout_events st1) (m_timeoutEventList st1)"
    using b by (cases "m_timeoutEventList st") (auto simp: st1_def evs_def event_before_def)
  moreover have "\<forall>n\<in>set (timeout_events st1). now \<le> n" using b by (auto simp: st1_def evs_def)
  ultimately show thesis using that [of st1] by (auto simp: st1_def timeouts_kept_def)
qed

definition is_whole :: "Ipv4Header \<Rightarrow> bool" where
  "is_whole h \<longleftrightarrow> IsLastFragment h \<and> m_fragmentOffset h = 0"

definition added :: "octet list \<Rightarrow> Ipv4Header \<Rightarrow> ipv4_l3 \<Rightarrow> fragments" where
  "added p h st = AddFragment p (m_fragmentOffset h) (\<not> IsLastFragment h) (stored st (fragment_key_of h))"

definition delivered :: "octet list \<Rightarrow> Ipv4Header \<Rightarrow> datagram" where
  "delivered p h = (p, SetPayloadSize (ucast (packet_GetSize p)) (h\<lparr>m_fragmentOffset := 0\<rparr>))"

lemma LocalDeliver_ok:
  assumes ok: "l3_ok now st"
  obtains out st' where "LocalDeliver now p h i st = Some (out, st')" and "l3_ok now st'"
    and "timeouts_kept now (fragment_key_of h) st st'"
    and "\<And>k. k \<noteq> fragment_key_of h \<Longrightarrow> map_of (l3_fragments st') k = map_of (l3_fragments st) k"
    and "is_whole h \<Longrightarrow> st' = st \<and> out = Some (p, h)"
    and "\<not> is_whole h \<Longrightarrow> IsEntire (added p h st) \<Longrightarrow>
      map_of (l3_fragments st') (fragment_key_of h) = None \<and> (\<exists>q. GetPacket (added p h st) = Some q \<and> out = Some (delivered q h))"
    and "\<not> is_whole h \<Longrightarrow> \<not> IsEntire (added p h st) \<Longrightarrow>
      map_of (l3_fragments st') (fragment_key_of h) = Some (added p h st) \<and> out = None"
proof (cases "is_whole h")
  case True
  then show thesis using ok that [of "Some (p, h)" st] by (simp add: LocalDeliver_def is_whole_def timeouts_kept_def)
next
  case False
  let ?k = "fragment_key_of h"
  from find_or_create_ok [OF ok, of ?k h i] obtain st1 where st1: "find_or_create now ?k h i st = (stored st ?k, st1)"
    "book now (m_fragmentExpirationTimeout st1) (next_iter st1) (m_timeoutEventList st1) (l3_fragments st1)"
    "map_of (l3_fragments st1) = (map_of (l3_fragments st))(?k \<mapsto> stored st ?k)"
    "event_before (timeout_events st1) (m_timeoutEventList st1)" "\<forall>n\<in>set (timeout_events st1). now \<le> n"
    "timeouts_kept now ?k st st1" .
  have x: "0 \<le> m_fragmentExpirationTimeout st1" using ok st1(6) by (simp add: l3_ok_def timeouts_kept_def)
  let ?fs = "added p h st"
  define st2 where "st2 = st1\<lparr>l3_fragments := smap_assign (<) ?k ?fs (l3_fragments st1)\<rparr>"
  have "sorted_by fst (l3_fragments st1)" using st1(2) by (simp add: book_def)
  note asg = smap_sorted_keys [OF this, of ?k ?fs]
  have m2: "map_of (l3_fragments st2) = (map_of (l3_fragments st))(?k \<mapsto> ?fs)" by (simp add: st2_def asg st1(3))
  have b2: "book now (m_fragmentExpirationTimeout st1) (next_iter st1) (m_timeoutEventList st1) (l3_fragments st2)"
    unfolding st2_def using st1(3) by (simp, intro book_assign [OF st1(2), of ?k "stored st ?k"])
      (simp_all add: added_def AddFragment_set)
  have ne: "m_fragments fs' \<noteq> []" if "map_of (l3_fragments st2) k = Some fs'" for k fs'
    using that l3_ok_nonempty [OF ok, of k fs'] unfolding m2 by (cases "k = ?k") (auto simp: added_def AddFragment_set)
  have ok2: "l3_ok now st2" unfolding l3_ok_def using b2 ne st1(4,5) x by (auto simp: st2_def)
  have nf: "\<not> IsLastFragment h \<or> m_fragmentOffset h \<noteq> 0" using False by (simp add: is_whole_def)
  show thesis
  proof (cases "IsEntire ?fs")
    case e: False
    have "LocalDeliver now p h i st = Some (None, st2)"
      using nf e st1(1) by (simp add: LocalDeliver_def ProcessFragment_def Let_def st2_def flip: added_def)
    moreover have "timeouts_kept now ?k st st2" using st1(6) by (simp add: timeouts_kept_def st2_def)
    ultimately show thesis using ok2 e False by (intro that [of None st2]) (simp_all add: m2)
  next
    case e: True
    have "m_fragments ?fs \<noteq> []" by (simp add: added_def AddFragment_set)
    from packets_total(1) [OF this] obtain q where q: "GetPacket ?fs = Some q" by blast
    have mk: "map_of (l3_fragments st2) ?k = Some ?fs" by (simp add: m2)
    note dr = book_drop [OF b2 mk]
    define st3 where "st3 = st2\<lparr>m_timeoutEventList := filter (\<lambda>e. t_key e \<noteq> ?k) (m_timeoutEventList st1),
      l3_fragments := smap_erase (<) ?k (l3_fragments st2)\<rparr>"
    have er: "erase_timeout (m_timeoutIter ?fs) (m_timeoutEventList st2) = Some (filter (\<lambda>e. t_key e \<noteq> ?k) (m_timeoutEventList st1))"
      using dr(1,2) by (simp add: erase_timeout_def st2_def)
    have "ProcessFragment now p h i st = Some (Some q, st3)"
      using e st1(1) q er unfolding st3_def st2_def by (simp add: ProcessFragment_def Let_def flip: added_def)
    then have "LocalDeliver now p h i st = Some (Some (delivered q h), st3)"
      using nf by (simp add: LocalDeliver_def SetFragmentOffset_def delivered_def)
    moreover have "sorted_by fst (l3_fragments st2)" using b2 by (simp add: book_def)
    then have m3: "map_of (l3_fragments st3) = (map_of (l3_fragments st2))(?k := None)" by (simp add: st3_def smap_keys_erase)
    moreover have "l3_ok now st3"
    proof -
      have "sorted (map t_expires (m_timeoutEventList st1))" using st1(2) by (simp add: book_def)
      from event_before_filter [OF st1(4) this] have "event_before (timeout_events st3) (m_timeoutEventList st3)"
        by (simp add: st3_def st2_def)
      moreover have "m_fragments fs' \<noteq> []" if "map_of (l3_fragments st3) k = Some fs'" for k fs'
        using that ne [of k fs'] unfolding m3 by (cases "k = ?k") auto
      ultimately show ?thesis unfolding l3_ok_def using dr(3) x st1(5) by (auto simp: st3_def st2_def)
    qed
    moreover have "timeouts_kept now ?k st st3" using st1(6) by (auto simp: timeouts_kept_def st3_def st2_def)
    ultimately show thesis using e False q by (intro that [of "Some (delivered q h)" st3]) (simp_all add: m2)
  qed
qed

lemma LocalDeliverD:
  assumes ok: "l3_ok now st" and run: "LocalDeliver now p h i st = Some (out, st')"
  shows "l3_ok now st'" and "timeouts_kept now (fragment_key_of h) st st'"
    and "k \<noteq> fragment_key_of h \<Longrightarrow> map_of (l3_fragments st') k = map_of (l3_fragments st) k"
    and "is_whole h \<Longrightarrow> st' = st \<and> out = Some (p, h)"
    and "\<not> is_whole h \<Longrightarrow> IsEntire (added p h st) \<Longrightarrow> \<exists>q. GetPacket (added p h st) = Some q \<and> out = Some (delivered q h)"
    and "\<not> is_whole h \<Longrightarrow> \<not> IsEntire (added p h st) \<Longrightarrow>
      map_of (l3_fragments st') (fragment_key_of h) = Some (added p h st) \<and> out = None"
    and "\<not> is_whole h \<Longrightarrow> IsEntire (added p h st) \<Longrightarrow> map_of (l3_fragments st') (fragment_key_of h) = None"
proof -
  from LocalDeliver_ok [OF ok, where i = i and h = h and p = p] obtain o2 s2 where
    r: "LocalDeliver now p h i st = Some (o2, s2)" "l3_ok now s2" "timeouts_kept now (fragment_key_of h) st s2"
      "\<And>k. k \<noteq> fragment_key_of h \<Longrightarrow> map_of (l3_fragments s2) k = map_of (l3_fragments st) k"
      "is_whole h \<Longrightarrow> s2 = st \<and> o2 = Some (p, h)"
      "\<not> is_whole h \<Longrightarrow> IsEntire (added p h st) \<Longrightarrow>
        map_of (l3_fragments s2) (fragment_key_of h) = None \<and> (\<exists>q. GetPacket (added p h st) = Some q \<and> o2 = Some (delivered q h))"
      "\<not> is_whole h \<Longrightarrow> \<not> IsEntire (added p h st) \<Longrightarrow>
        map_of (l3_fragments s2) (fragment_key_of h) = Some (added p h st) \<and> o2 = None" by blast
  have "o2 = out" "s2 = st'" using r(1) run by simp_all
  note r = r [unfolded this]
  show "l3_ok now st'" "timeouts_kept now (fragment_key_of h) st st'" by (fact r)+
  show "k \<noteq> fragment_key_of h \<Longrightarrow> map_of (l3_fragments st') k = map_of (l3_fragments st) k" by (rule r)
  show "is_whole h \<Longrightarrow> st' = st \<and> out = Some (p, h)" by (rule r)
  show "\<not> is_whole h \<Longrightarrow> IsEntire (added p h st) \<Longrightarrow> \<exists>q. GetPacket (added p h st) = Some q \<and> out = Some (delivered q h)"
    using r(6) by blast
  show "\<not> is_whole h \<Longrightarrow> \<not> IsEntire (added p h st) \<Longrightarrow>
      map_of (l3_fragments st') (fragment_key_of h) = Some (added p h st) \<and> out = None" by (rule r)
  show "\<not> is_whole h \<Longrightarrow> IsEntire (added p h st) \<Longrightarrow> map_of (l3_fragments st') (fragment_key_of h) = None"
    using r(6) by blast
qed

subsection \<open>The timeout\<close>

lemma timeout_loop_ok:
  assumes "book now x nid es (l3_fragments st)" and "\<forall>k fs. map_of (l3_fragments st) k = Some fs \<longrightarrow> m_fragments fs \<noteq> []"
  shows "\<exists>ds m. timeout_loop now es st =
      Some (ds, st\<lparr>l3_fragments := m, m_timeoutEventList := dropWhile (\<lambda>e. t_expires e = now) es\<rparr>) \<and>
    book now x nid (dropWhile (\<lambda>e. t_expires e = now) es) m \<and>
    (\<forall>k. map_of m k = (if k \<in> t_key ` set (takeWhile (\<lambda>e. t_expires e = now) es) then None else map_of (l3_fragments st) k))"
  using assms
proof (induction es arbitrary: st)
  case Nil
  then show ?case by (intro exI [of _ "[]"] exI [of _ "l3_fragments st"]) simp
next
  case (Cons e es)
  show ?case
  proof (cases "t_expires e = now")
    case False
    then show ?thesis using Cons.prems(1) by (intro exI [of _ "[]"] exI [of _ "l3_fragments st"]) simp
  next
    case True
    obtain fs where fs: "map_of (l3_fragments st) (t_key e) = Some fs"
      "book now x nid es (smap_erase (<) (t_key e) (l3_fragments st))"
      by (rule book_front [OF Cons.prems(1)])
    from packets_total(2) [OF Cons.prems(2) [rule_format, OF fs(1)]] obtain p where p: "GetPartialPacket fs = Some p" by blast
    let ?st = "st\<lparr>l3_fragments := smap_erase (<) (t_key e) (l3_fragments st)\<rparr>"
    have h: "HandleFragmentsTimeout (t_key e) (t_header e) st = Some (((p, t_header e), packet_GetSize p > 8), ?st)"
      using fs(1) p by (simp add: HandleFragmentsTimeout_def smap_keys_map_of)
    have "sorted_by fst (l3_fragments st)" using Cons.prems(1) by (simp add: book_def)
    then have m: "map_of (l3_fragments ?st) = (map_of (l3_fragments st))(t_key e := None)" by (simp add: smap_keys_erase)
    have ne: "\<forall>k fs'. map_of (l3_fragments ?st) k = Some fs' \<longrightarrow> m_fragments fs' \<noteq> []"
    proof (intro allI impI)
      fix k fs' assume "map_of (l3_fragments ?st) k = Some fs'"
      then show "m_fragments fs' \<noteq> []" using Cons.prems(2) unfolding m by (cases "k = t_key e") (simp, metis fun_upd_other)
    qed
    have "book now x nid es (l3_fragments ?st)" using fs(2) by simp
    from Cons.IH [OF this ne] obtain ds m' where IH:
      "timeout_loop now es ?st = Some (ds, ?st\<lparr>l3_fragments := m', m_timeoutEventList := dropWhile (\<lambda>e. t_expires e = now) es\<rparr>)"
      "book now x nid (dropWhile (\<lambda>e. t_expires e = now) es) m'"
      "\<forall>k. map_of m' k = (if k \<in> t_key ` set (takeWhile (\<lambda>e. t_expires e = now) es) then None else map_of (l3_fragments ?st) k)"
      by blast
    have run: "timeout_loop now (e # es) st = Some ((((p, t_header e), packet_GetSize p > 8)) # ds,
        st\<lparr>l3_fragments := m', m_timeoutEventList := dropWhile (\<lambda>e. t_expires e = now) es\<rparr>)"
      using True h IH(1) by simp
    have mm: "map_of m' k = (if k \<in> t_key ` set (takeWhile (\<lambda>e. t_expires e = now) (e # es)) then None else map_of (l3_fragments st) k)" for k
      using spec [OF IH(3), of k] True unfolding m by (cases "k = t_key e") auto
    have dw: "dropWhile (\<lambda>e. t_expires e = now) (e # es) = dropWhile (\<lambda>e. t_expires e = now) es" using True by simp
    show ?thesis unfolding dw using run IH(2) mm by blast
  qed
qed

lemma HandleTimeout_ok:
  assumes ok: "l3_ok now st" and now: "now \<in> set (timeout_events st)"
  obtains ds st' where "HandleTimeout now (st\<lparr>timeout_events := remove1 now (timeout_events st)\<rparr>) = Some (ds, st')"
    and "l3_ok now st'" and "timeouts_kept now k st st'" and "\<forall>e\<in>set (m_timeoutEventList st'). now < t_expires e"
    and "\<And>k. (\<forall>e\<in>set (m_timeoutEventList st). t_key e = k \<longrightarrow> now < t_expires e) \<Longrightarrow> map_of (l3_fragments st') k = map_of (l3_fragments st) k"
    and "\<And>k. (\<exists>e\<in>set (m_timeoutEventList st). t_key e = k \<and> t_expires e = now) \<Longrightarrow> map_of (l3_fragments st') k = None"
proof -
  let ?x = "m_fragmentExpirationTimeout st" and ?es = "m_timeoutEventList st"
  let ?st = "st\<lparr>timeout_events := remove1 now (timeout_events st)\<rparr>"
  let ?due = "\<lambda>e. t_expires e = now"
  have b: "book now ?x (next_iter st) ?es (l3_fragments ?st)" using ok by (simp add: l3_ok_def)
  have "\<forall>k fs. map_of (l3_fragments ?st) k = Some fs \<longrightarrow> m_fragments fs \<noteq> []"
    using l3_ok_nonempty [OF ok] by simp
  from timeout_loop_ok [OF b this] obtain ds m where
    "timeout_loop now ?es ?st = Some (ds, ?st\<lparr>l3_fragments := m, m_timeoutEventList := dropWhile ?due ?es\<rparr>) \<and>
      book now ?x (next_iter st) (dropWhile ?due ?es) m \<and>
      (\<forall>k. map_of m k = (if k \<in> t_key ` set (takeWhile ?due ?es) then None else map_of (l3_fragments ?st) k))" by blast
  then have r: "timeout_loop now ?es ?st = Some (ds, ?st\<lparr>l3_fragments := m, m_timeoutEventList := dropWhile ?due ?es\<rparr>)"
      "book now ?x (next_iter st) (dropWhile ?due ?es) m"
      "\<forall>k. map_of m k = (if k \<in> t_key ` set (takeWhile ?due ?es) then None else map_of (l3_fragments st) k)" by auto
  have rest: "now < t_expires e" if "e \<in> set (dropWhile ?due ?es)" for e
  proof -
    have ne: "dropWhile ?due ?es \<noteq> []" using that by (metis empty_iff list.set(1))
    have srt: "sorted (map t_expires (dropWhile ?due ?es))" "\<forall>e\<in>set (dropWhile ?due ?es). now \<le> t_expires e"
      using r(2) by (simp_all add: book_def)
    have "t_expires (hd (dropWhile ?due ?es)) \<noteq> now" using hd_dropWhile [OF ne] by simp
    then have "now < t_expires (hd (dropWhile ?due ?es))" using srt(2) ne by (metis hd_in_set order_le_less)
    moreover have "t_expires (hd (dropWhile ?due ?es)) \<le> t_expires e"
      using srt(1) that by (cases "dropWhile ?due ?es") auto
    ultimately show ?thesis by simp
  qed
  have due: "e \<in> set (takeWhile ?due ?es) \<longleftrightarrow> t_expires e = now" if "e \<in> set ?es" for e
  proof
    assume "t_expires e = now"
    then have "e \<notin> set (dropWhile ?due ?es)" using rest [of e] by auto
    moreover have "e \<in> set (takeWhile ?due ?es @ dropWhile ?due ?es)" using that by simp
    ultimately show "e \<in> set (takeWhile ?due ?es)" by (simp only: set_append Un_iff) blast
  qed (auto dest: set_takeWhileD)
  define evs where "evs = (case dropWhile ?due ?es of [] \<Rightarrow> remove1 now (timeout_events st)
    | e # _ \<Rightarrow> remove1 now (timeout_events st) @ [t_expires e])"
  define st' where "st' = st\<lparr>l3_fragments := m, m_timeoutEventList := dropWhile ?due ?es, timeout_events := evs\<rparr>"
  have run: "HandleTimeout now ?st = Some (ds, st')"
    using r(1) unfolding HandleTimeout_def st'_def evs_def
    by (cases st) (auto split: list.split simp del: dropWhile_eq_Nil_conv)
  have ne: "m_fragments fs \<noteq> []" if "map_of m k = Some fs" for k fs
    using that r(3) l3_ok_nonempty [OF ok] by (metis option.distinct(1))
  have "event_before evs (dropWhile ?due ?es)"
    by (cases "dropWhile ?due ?es") (auto simp: event_before_def evs_def)
  moreover have "\<forall>n\<in>set evs. now \<le> n"
  proof -
    have "\<forall>n\<in>set (remove1 now (timeout_events st)). now \<le> n"
      using ok notin_set_remove1 [of _ "timeout_events st" now] by (auto simp: l3_ok_def)
    then show ?thesis using rest unfolding evs_def
      by (cases "dropWhile ?due ?es") (auto simp: less_imp_le simp del: dropWhile_eq_Nil_conv)
  qed
  ultimately have "l3_ok now st'" using r(2) ne ok unfolding l3_ok_def st'_def by auto
  moreover have "timeouts_kept now k st st'" using set_dropWhileD [of _ ?due ?es] by (auto simp: timeouts_kept_def st'_def)
  moreover have "map_of (l3_fragments st') k = map_of (l3_fragments st) k"
    if "\<forall>e\<in>set ?es. t_key e = k \<longrightarrow> now < t_expires e" for k
  proof -
    have "k \<notin> t_key ` set (takeWhile ?due ?es)" using that by (force dest: set_takeWhileD)
    then show ?thesis using spec [OF r(3), of k] by (simp add: st'_def)
  qed
  moreover have "map_of (l3_fragments st') k = None" if "\<exists>e\<in>set ?es. t_key e = k \<and> t_expires e = now" for k
  proof -
    have "k \<in> t_key ` set (takeWhile ?due ?es)" using that due by force
    then show ?thesis using spec [OF r(3), of k] by (simp add: st'_def)
  qed
  ultimately show thesis using run rest by (intro that [of ds st']) (simp_all add: st'_def)
qed

lemma HandleTimeoutD:
  assumes ok: "l3_ok now st" and now: "now \<in> set (timeout_events st)"
    and run: "HandleTimeout now (st\<lparr>timeout_events := remove1 now (timeout_events st)\<rparr>) = Some (ds, st')"
  shows "l3_ok now st'" and "timeouts_kept now k st st'" and "\<forall>e\<in>set (m_timeoutEventList st'). now < t_expires e"
    and "\<forall>e\<in>set (m_timeoutEventList st). t_key e = k \<longrightarrow> now < t_expires e \<Longrightarrow> map_of (l3_fragments st') k = map_of (l3_fragments st) k"
    and "\<exists>e\<in>set (m_timeoutEventList st). t_key e = k \<and> t_expires e = now \<Longrightarrow> map_of (l3_fragments st') k = None"
proof -
  from HandleTimeout_ok [OF ok now, where k = k] obtain d2 s2 where
    r: "HandleTimeout now (st\<lparr>timeout_events := remove1 now (timeout_events st)\<rparr>) = Some (d2, s2)" "l3_ok now s2"
      "timeouts_kept now k st s2" "\<forall>e\<in>set (m_timeoutEventList s2). now < t_expires e"
      "\<And>k. (\<forall>e\<in>set (m_timeoutEventList st). t_key e = k \<longrightarrow> now < t_expires e) \<Longrightarrow> map_of (l3_fragments s2) k = map_of (l3_fragments st) k"
      "\<And>k. (\<exists>e\<in>set (m_timeoutEventList st). t_key e = k \<and> t_expires e = now) \<Longrightarrow> map_of (l3_fragments s2) k = None" by blast
  have "s2 = st'" using r(1) run by simp
  note r = r [unfolded this]
  show "l3_ok now st'" "timeouts_kept now k st st'" "\<forall>e\<in>set (m_timeoutEventList st'). now < t_expires e" by (fact r)+
  show "\<forall>e\<in>set (m_timeoutEventList st). t_key e = k \<longrightarrow> now < t_expires e \<Longrightarrow> map_of (l3_fragments st') k = map_of (l3_fragments st) k"
    by (rule r)
  show "\<exists>e\<in>set (m_timeoutEventList st). t_key e = k \<and> t_expires e = now \<Longrightarrow> map_of (l3_fragments st') k = None" by (rule r)
qed

end
