(* ===== verification/Ipv4_Fragments_Props.thy ===== *)
theory Ipv4_Fragments_Props
  imports Ipv4_L3_Inv
begin

text \<open>
  Datagrams that are fragmented on their way and put together by the receiver.
\<close>

subsection \<open>The way of a datagram\<close>

text \<open>\<open>SetUp\<close> of the protocol brings an interface up only if the MTU of its device is at least 68.\<close>

definition mtu_allows_up :: "16 word \<Rightarrow> bool" where
  "mtu_allows_up mtu \<longleftrightarrow> mtu \<ge> 68"

text \<open>The header that \<open>Receive\<close> takes from a packet.\<close>

definition rx_header :: "bool \<Rightarrow> Ipv4Header \<Rightarrow> Ipv4Header" where
  "rx_header checksums h = Ipv4Header_received (if checksums then EnableChecksum Ipv4Header_init else Ipv4Header_init) h"

text \<open>One router: it receives a fragment in a frame with padding and forwards it over an interface.\<close>

definition hop :: "bool \<Rightarrow> 16 word \<Rightarrow> octet list \<Rightarrow> datagram \<Rightarrow> datagram list option option" where
  "hop checksums mtu padding f =
     (case receive_datagram (fst f @ padding) (rx_header checksums (snd f)) of
        None \<Rightarrow> Some (Some [])
      | Some (p, h) \<Rightarrow> IpForward checksums mtu p h)"

text \<open>
  A fragment arrives as it is, or a router forwards it, perhaps in pieces, and each of the pieces goes on
  its own way. No piece is lost: the time to live is sufficient.
\<close>

inductive travels :: "bool \<Rightarrow> datagram \<Rightarrow> datagram list \<Rightarrow> bool" for checksums where
  travels_arrived: "travels checksums f [f]"
| travels_forwarded: "hop checksums mtu padding f = Some (Some gs) \<Longrightarrow> gs \<noteq> [] \<Longrightarrow> mtu_allows_up mtu \<Longrightarrow>
    length padding < 65536 \<Longrightarrow> list_all2 (travels checksums) gs hss \<Longrightarrow> travels checksums f (concat hss)"

text \<open>A fragment as the protocol makes it.\<close>

definition sound :: "bool \<Rightarrow> datagram \<Rightarrow> bool" where
  "sound checksums f \<longleftrightarrow> Ipv4Header_valid (snd f) \<and> fst f \<noteq> [] \<and> unat (m_payloadSize (snd f)) = length (fst f) \<and>
     unat (m_fragmentOffset (snd f)) + length (fst f) < 65536 \<and> m_calcChecksum (snd f) = checksums"

lemma mtu_68: "mtu_allows_up mtu \<Longrightarrow> 68 \<le> unat (ucast mtu :: 32 word) \<and> unat (ucast mtu :: 32 word) = unat mtu \<and> unat mtu < 65536"
  by (simp add: mtu_allows_up_def ucast_16_32 unat_16 word_le_nat_alt)

lemma SendRealOut_ok:
  assumes "sound checksums (p, h)" and "mtu_allows_up mtu"
  obtains gs where "SendRealOut checksums mtu p h = Some (Some gs)"
    and "fragmentation h (unat (m_fragmentOffset h)) (\<not> IsLastFragment h) p gs"
    and "\<forall>(q, g)\<in>set gs. length q + 20 \<le> unat mtu"
    and "length gs = (if length p + 20 > unat mtu then Suc ((length p - 1) div ((unat mtu - 20) div 8 * 8)) else 1)"
proof -
  note s = assms(1) [unfolded sound_def fst_conv snd_conv] and m = mtu_68 [OF assms(2)]
  have lp: "unat (packet_GetSize p) = length p" "length p < 65536" using s by (simp_all add: packet_GetSize_small)
  have sz: "Ipv4Header_GetSerializedSize h = 20" using s by (simp add: Ipv4Header_GetSerializedSize_def Ipv4Header_valid_def)
  have "unat (packet_GetSize p + 20) = length p + 20" using lp by (subst unat_plus) simp_all
  then have big: "packet_GetSize p + Ipv4Header_GetSerializedSize h > ucast mtu \<longleftrightarrow> length p + 20 > unat mtu"
    using m by (simp add: sz word_less_nat_alt)
  show thesis
  proof (cases "length p + 20 > unat mtu")
    case True
    have "p \<noteq> []" "unat (m_fragmentOffset h) + length p < 65536" "Ipv4Header_valid h" "28 \<le> unat (ucast mtu :: 32 word)"
      "unat (ucast mtu :: 32 word) < 65536" "checksums \<longrightarrow> m_calcChecksum h" using s m by auto
    from DoFragmentation_ok [OF this] obtain gs where gs: "DoFragmentation checksums p h (ucast mtu) = Some (Some gs)"
      "fragmentation h (unat (m_fragmentOffset h)) (\<not> IsLastFragment h) p gs"
      "\<forall>(q, g)\<in>set gs. length q + 20 \<le> unat (ucast mtu :: 32 word)"
      "length gs = Suc ((length p - 1) div ((unat (ucast mtu :: 32 word) - 20) div 8 * 8))" by metis
    show thesis using gs(1,2) True big gs(3,4) m by (intro that [of gs]) (simp_all add: SendRealOut_def)
  next
    case False
    have "is_fragment h (unat (m_fragmentOffset h)) (\<not> IsLastFragment h) p h"
      using s by (simp add: is_fragment_def same_datagram_def)
    from fragmentation_last [OF this] show thesis using False big by (intro that [of "[(p, h)]"]) (simp_all add: SendRealOut_def)
  qed
qed

lemma fragmentation_sound:
  assumes "fragmentation h (unat (m_fragmentOffset h)) mf p gs" and "sound checksums (p, h)" and "f \<in> set gs"
  shows "sound checksums f"
  using fragmentation_member [OF assms(1,3)] assms(2) by (auto simp: sound_def same_datagram_def)

lemma rx_header_ok:
  assumes "Ipv4Header_valid g" and "m_calcChecksum g = checksums"
  shows "same_datagram g (rx_header checksums g)" "m_fragmentOffset (rx_header checksums g) = m_fragmentOffset g"
    "IsLastFragment (rx_header checksums g) = IsLastFragment g" "m_payloadSize (rx_header checksums g) = m_payloadSize g"
    "Ipv4Header_valid (rx_header checksums g)" "m_goodChecksum (rx_header checksums g)"
proof -
  show "m_goodChecksum (rx_header checksums g)"
    using checksum_verifies [of g] assms(2) by (simp add: rx_header_def Ipv4Header_received_def EnableChecksum_def Ipv4Header_init_def Let_def)
qed (use assms in \<open>simp_all add: rx_header_def Ipv4Header_received_def EnableChecksum_def Ipv4Header_init_def same_datagram_def
    IsLastFragment_def Ipv4Header_valid_def Let_def\<close>)

lemma receive_ok:
  assumes "sound checksums f" and "length padding < 65536"
  shows "receive_datagram (fst f @ padding) (rx_header checksums (snd f)) = Some (fst f, rx_header checksums (snd f))"
proof -
  note s = assms(1) [unfolded sound_def]
  have r: "m_goodChecksum (rx_header checksums (snd f))" "m_payloadSize (rx_header checksums (snd f)) = m_payloadSize (snd f)"
    using s by (simp_all add: rx_header_ok)
  have l: "unat (packet_GetSize (fst f @ padding)) = length (fst f) + length padding"
    using s assms(2) by (simp add: packet_GetSize_small)
  have u: "unat (ucast (m_payloadSize (snd f)) :: 32 word) = length (fst f)" using s by (simp add: ucast_16_32)
  have "unat (packet_GetSize (fst f @ padding) - ucast (m_payloadSize (snd f))) = length padding"
    using u l by (subst unat_minus) simp_all
  moreover have "ucast (m_payloadSize (snd f)) < packet_GetSize (fst f @ padding) \<longleftrightarrow> padding \<noteq> []"
    unfolding word_less_nat_alt l u by simp
  ultimately show ?thesis using r by (simp add: receive_datagram_def trim_padding_def)
qed

lemma travels_fragmentation:
  "travels checksums f hs \<Longrightarrow> sound checksums f \<Longrightarrow>
     fragmentation (snd f) (unat (m_fragmentOffset (snd f))) (\<not> IsLastFragment (snd f)) (fst f) hs"
proof (induction rule: travels.induct)
  case (travels_arrived f)
  then show ?case
    using fragmentation_last [of "snd f" _ _ "fst f" "snd f"] by (auto simp: is_fragment_def same_datagram_def sound_def)
next
  case (travels_forwarded mtu padding f gs hss)
  let ?g = "rx_header checksums (snd f)"
  let ?h = "SetTtl (m_ttl ?g - 1) ?g"
  note s = travels_forwarded.prems [unfolded sound_def]
  note rx = rx_header_ok [of "snd f" checksums]
  have hd: "same_datagram (snd f) ?h" "m_fragmentOffset ?h = m_fragmentOffset (snd f)" "IsLastFragment ?h = IsLastFragment (snd f)"
    "m_payloadSize ?h = m_payloadSize (snd f)" "Ipv4Header_valid ?h"
    using s rx by (simp_all add: SetTtl_def same_datagram_def IsLastFragment_def Ipv4Header_valid_def)
  have sh: "sound checksums (fst f, ?h)" using s hd by (simp add: sound_def same_datagram_def)
  from SendRealOut_ok [OF this travels_forwarded.hyps(3)] obtain gs' where gs': "SendRealOut checksums mtu (fst f) ?h = Some (Some gs')"
    "fragmentation ?h (unat (m_fragmentOffset ?h)) (\<not> IsLastFragment ?h) (fst f) gs'" by blast
  have "hop checksums mtu padding f = (if m_ttl ?h = 0 then Some (Some []) else SendRealOut checksums mtu (fst f) ?h)"
    using receive_ok [OF travels_forwarded.prems travels_forwarded.hyps(4)] by (simp add: hop_def IpForward_def Let_def)
  then have "gs = gs'" using travels_forwarded.hyps(1,2) gs'(1) by (auto split: if_splits)
  with fragmentation_same [OF gs'(2) hd(1)]
  have fr: "fragmentation (snd f) (unat (m_fragmentOffset (snd f))) (\<not> IsLastFragment (snd f)) (fst f) gs"
    by (simp only: hd)
  have "list_all2 (\<lambda>(q, g) gs. fragmentation g (unat (m_fragmentOffset g)) (\<not> IsLastFragment g) q gs) gs hss"
    using travels_forwarded.IH fragmentation_sound [OF fr, of checksums] travels_forwarded.prems
    by (auto simp: list_all2_conv_all_nth split: prod.splits)
  from fragmentation_refine [OF fr this] show ?case .
qed

subsection \<open>The receiver over time\<close>

datatype l3_event = Arrives "octet list" Ipv4Header "32 word" | Expires

fun l3_next :: "int \<Rightarrow> l3_event \<Rightarrow> ipv4_l3 \<Rightarrow> (datagram option \<times> ipv4_l3) option" where
  "l3_next now (Arrives p h iif) st =
     (case receive_datagram p h of
        None \<Rightarrow> Some (None, st)
      | Some (p, h) \<Rightarrow> LocalDeliver now p h iif st)"
| "l3_next now Expires st =
     map_option (\<lambda>(ds, st). (None, st)) (HandleTimeout now (st\<lparr>timeout_events := remove1 now (timeout_events st)\<rparr>))"

text \<open>What may happen next: the simulator never skips a pending event.\<close>

definition l3_due :: "int \<Rightarrow> ipv4_l3 \<Rightarrow> int \<Rightarrow> l3_event \<Rightarrow> bool" where
  "l3_due t st now ev \<longleftrightarrow> t \<le> now \<and> (\<forall>n\<in>set (timeout_events st). now \<le> n) \<and> (ev = Expires \<longrightarrow> now \<in> set (timeout_events st))"

inductive l3_run :: "ipv4_l3 \<Rightarrow> int \<Rightarrow> (int \<times> l3_event \<times> datagram option) list \<Rightarrow> ipv4_l3 \<Rightarrow> int \<Rightarrow> bool" for st0 t0 where
  l3_run_start: "l3_run st0 t0 [] st0 t0"
| l3_run_next: "l3_run st0 t0 es st t \<Longrightarrow> l3_due t st now ev \<Longrightarrow> l3_next now ev st = Some (out, st') \<Longrightarrow>
    l3_run st0 t0 (es @ [(now, ev, out)]) st' now"

lemma l3_due_ok: "l3_ok t st \<Longrightarrow> l3_due t st now ev \<Longrightarrow> l3_ok now st"
  by (rule l3_ok_later) (auto simp: l3_due_def)

lemma l3_next_ok:
  assumes "l3_ok t st" and "l3_due t st now ev"
  obtains out st' where "l3_next now ev st = Some (out, st')" and "l3_ok now st'"
    and "m_fragmentExpirationTimeout st' = m_fragmentExpirationTimeout st"
proof (cases ev)
  case (Arrives p h i)
  note ok = l3_due_ok [OF assms]
  show thesis
  proof (cases "receive_datagram p h")
    case None
    then show thesis using ok that Arrives by simp
  next
    case (Some x)
    from LocalDeliver_ok [OF ok, where i = i and h = "snd x" and p = "fst x"] obtain out st' where
      "LocalDeliver now (fst x) (snd x) i st = Some (out, st')" "l3_ok now st'" "timeouts_kept now (fragment_key_of (snd x)) st st'" by metis
    then show thesis using that Some Arrives by (cases x) (simp add: timeouts_kept_def)
  qed
next
  case Expires
  then have "now \<in> set (timeout_events st)" using assms(2) by (simp add: l3_due_def)
  from HandleTimeout_ok [OF l3_due_ok [OF assms] this] obtain ds st' where
    "HandleTimeout now (st\<lparr>timeout_events := remove1 now (timeout_events st)\<rparr>) = Some (ds, st')" "l3_ok now st'"
    "timeouts_kept now undefined st st'" by metis
  then show thesis using that Expires by (simp add: timeouts_kept_def)
qed

lemma l3_run_ok: "l3_run st0 t0 es st t \<Longrightarrow> l3_ok t0 st0 \<Longrightarrow>
    l3_ok t st \<and> t0 \<le> t \<and> m_fragmentExpirationTimeout st = m_fragmentExpirationTimeout st0"
proof (induction rule: l3_run.induct)
  case (l3_run_next es st t now ev out st')
  then have ok: "l3_ok t st" by simp
  from l3_next_ok [OF ok l3_run_next.hyps(2)] l3_run_next.hyps(3) have
    "l3_ok now st'" "m_fragmentExpirationTimeout st' = m_fragmentExpirationTimeout st" by auto
  then show ?case using l3_run_next by (simp add: l3_due_def)
qed simp

subsection \<open>One datagram among others\<close>

text \<open>The fragments \<open>arr\<close> of the datagram \<open>D\<close> of \<open>h\<close> have arrived, and they are not all of \<open>fs\<close>.\<close>

definition waiting ::
  "Ipv4Header \<Rightarrow> octet list \<Rightarrow> datagram list \<Rightarrow> (octet list \<times> 16 word) set \<Rightarrow> ipv4_l3 \<Rightarrow> bool" where
  "waiting h D fs arr st \<longleftrightarrow> arr \<subseteq> frag_of ` set fs \<and> arr \<noteq> frag_of ` set fs \<and>
     (if arr = {} then map_of (l3_fragments st) (fragment_key_of h) = None
      else \<exists>x. map_of (l3_fragments st) (fragment_key_of h) = Some x \<and> frags_ok D x \<and> set (m_fragments x) = arr)"

lemma same_key: "same_datagram h g \<Longrightarrow> fragment_key_of g = fragment_key_of h"
  by (simp add: same_datagram_def fragment_key_of_def)

lemma whole_alone:
  assumes "fragmentation h 0 False D fs" and "f \<in> set fs" and "is_whole (snd f)"
  shows "frag_of ` set fs = {frag_of f}" and "fst f = D"
proof -
  have e: "unat (m_fragmentOffset (snd f)) = 0" "\<not> length (fst f) < length D"
    using fragmentation_piece(2) [OF assms(1,2)] assms(3) by (auto simp: is_whole_def)
  have "piece D (frag_of f)" by (rule fragmentation_piece(1) [OF assms(1,2)])
  with e have c: "covers (frag_of f) j" "fst f = D" if "j < length D" for j
    using that by (auto simp: covers_def frag_of_def piece_def)
  have D: "D \<noteq> []" using fragmentation_concat [OF assms(1)] by simp
  then show "fst f = D" using c(2) [of 0] by simp
  have "frag_of g = frag_of f" if g: "g \<in> set fs" for g
  proof -
    note p = piece_start [OF fragmentation_piece(1) [OF assms(1) g]]
    from fragmentation_disjoint [OF assms(1) g assms(2) p(2) c(1) [OF p(1)]] show ?thesis .
  qed
  then show "frag_of ` set fs = {frag_of f}" using assms(2) by blast
qed

text \<open>One more of its fragments.\<close>

lemma fragment_arrives:
  assumes ok: "l3_ok now st" and fr: "fragmentation h 0 False D fs" and D: "length D < 65536"
    and w: "waiting h D fs arr st" and f: "f \<in> set fs"
    and g: "same_datagram (snd f) g" "m_fragmentOffset g = m_fragmentOffset (snd f)" "IsLastFragment g = IsLastFragment (snd f)"
      "m_payloadSize g = m_payloadSize (snd f)"
    and run: "LocalDeliver now (fst f) g i st = Some (out, st')"
  shows "if insert (frag_of f) arr = frag_of ` set fs
    then (\<exists>g'. out = Some (D, g') \<and> same_datagram h g' \<and> m_fragmentOffset g' = 0 \<and> m_payloadSize g' = of_nat (length D)) \<and>
      map_of (l3_fragments st') (fragment_key_of h) = None
    else out = None \<and> waiting h D fs (insert (frag_of f) arr) st'"
proof -
  note mem = fragmentation_member [OF fr f]
  have hg: "same_datagram h g" using mem g(1) by (simp add: same_datagram_def)
  note k = same_key [OF hg]
  note eff = LocalDeliverD(4-7) [OF ok run]
  have sub: "insert (frag_of f) arr \<subseteq> frag_of ` set fs" using w f by (simp add: waiting_def)
  show ?thesis
  proof (cases "is_whole g")
    case True
    then have wf: "is_whole (snd f)" using g by (simp add: is_whole_def)
    note a = whole_alone [OF fr f wf]
    have "unat (m_payloadSize g) = length D" using mem g(4) a(2) by simp
    then have "of_nat (unat (m_payloadSize g)) = (of_nat (length D) :: 16 word)" by (rule arg_cong)
    then have "m_payloadSize g = of_nat (length D)" by simp
    moreover have "arr = {}" using w unfolding waiting_def a(1) by (metis subset_singletonD)
    then have "map_of (l3_fragments st) (fragment_key_of h) = None" using w by (simp add: waiting_def)
    ultimately show ?thesis using eff(1) True a hg sub by (auto simp: is_whole_def)
  next
    case False
    let ?x = "stored st (fragment_key_of g)" and ?y = "added (fst f) g st"
    have x: "frags_ok D ?x" "set (m_fragments ?x) = arr"
      using w unfolding waiting_def k stored_def by (auto simp: frags_ok_def sorted_frags_def split: if_splits)
    note pc = fragmentation_piece [OF fr f]
    have y: "frags_ok D ?y" unfolding added_def using AddFragment_ok [OF x(1)] pc g(2,3) by (simp add: frag_of_def)
    have sy: "set (m_fragments ?y) = insert (frag_of f) arr" using x(2) g(2) by (simp add: added_def AddFragment_set frag_of_def)
    note e = entire_iff [OF fr D y, unfolded sy, OF sub]
    show ?thesis
    proof (cases "insert (frag_of f) arr = frag_of ` set fs")
      case True
      then have en: "IsEntire ?y" using e by simp
      from eff(2) [OF False en] entire_packet(1) [OF y en D] have "out = Some (delivered D g)" by simp
      moreover have "unat (ucast (packet_GetSize D) :: 16 word) = unat (of_nat (length D) :: 16 word)"
        using D by (simp add: ucast_32_16 packet_GetSize_small unsigned_of_nat take_bit_nat_eq_self)
      then have "(ucast (packet_GetSize D) :: 16 word) = of_nat (length D)" by (simp only: word_unat_eq_iff)
      ultimately show ?thesis using True hg eff(4) [OF False en] k by (simp add: delivered_def same_datagram_def SetPayloadSize_def)
    next
      case ne: False
      then have "\<not> IsEntire ?y" using e sub by blast
      from eff(3) [OF False this] ne y sy sub k show ?thesis by (simp add: waiting_def)
    qed
  qed
qed

text \<open>The fragments of a key that arrive in a run, without padding.\<close>

definition arrived :: "fragment_key \<Rightarrow> (int \<times> l3_event \<times> datagram option) list \<Rightarrow> (octet list \<times> 16 word) set" where
  "arrived k es = {(trim_padding q g, m_fragmentOffset g) | n q g i out.
     (n, Arrives q g i, out) \<in> set es \<and> fragment_key_of g = k}"

text \<open>With that key arrive only the fragments \<open>fs\<close>, in frames with any padding and in any order.\<close>

definition only_fragments ::
  "bool \<Rightarrow> Ipv4Header \<Rightarrow> datagram list \<Rightarrow> (int \<times> l3_event \<times> datagram option) list \<Rightarrow> bool" where
  "only_fragments checksums h fs es \<longleftrightarrow>
     (\<forall>n q g i out. (n, Arrives q g i, out) \<in> set es \<and> fragment_key_of g = fragment_key_of h \<longrightarrow>
        (\<exists>f\<in>set fs. \<exists>padding. length padding < 65536 \<and> q = fst f @ padding \<and> g = rx_header checksums (snd f)))"

definition not_delivered :: "fragment_key \<Rightarrow> (int \<times> l3_event \<times> datagram option) list \<Rightarrow> bool" where
  "not_delivered k es \<longleftrightarrow> (\<forall>n ev d g. (n, ev, Some (d, g)) \<in> set es \<longrightarrow> fragment_key_of g \<noteq> k)"

lemma arrived_simps:
  "arrived k [] = {}"
  "arrived k (es @ [(n, Expires, out)]) = arrived k es"
  "fragment_key_of g = k \<Longrightarrow> arrived k (es @ [(n, Arrives q g i, out)]) = insert (trim_padding q g, m_fragmentOffset g) (arrived k es)"
  "fragment_key_of g \<noteq> k \<Longrightarrow> arrived k (es @ [(n, Arrives q g i, out)]) = arrived k es"
  by (fastforce simp: arrived_def)+

lemma receive_header: "receive_datagram q g = Some (p, h) \<Longrightarrow> h = g \<and> p = trim_padding q g"
  by (auto simp: receive_datagram_def split: if_splits)

lemma delivered_key:
  assumes "l3_ok now st" and "LocalDeliver now p h i st = Some (Some (d, g), st')"
  shows "fragment_key_of g = fragment_key_of h"
proof -
  note r = LocalDeliverD [OF assms]
  show ?thesis
  proof (cases "is_whole h")
    case True
    then show ?thesis using r(4) by simp
  next
    case False
    then have "IsEntire (added p h st)" using r(6) by fastforce
    with r(5) False show ?thesis by (auto simp: delivered_def fragment_key_of_def SetPayloadSize_def)
  qed
qed

lemma run_waiting:
  assumes run: "l3_run st0 t0 es st t" and ok: "l3_ok t0 st0" and new: "map_of (l3_fragments st0) (fragment_key_of h) = None"
    and fr: "fragmentation h 0 False D fs" and D: "length D < 65536" and sd: "\<forall>f\<in>set fs. sound checksums f"
    and soon: "t < t0 + m_fragmentExpirationTimeout st0" and only: "only_fragments checksums h fs es"
    and some: "arrived (fragment_key_of h) es \<noteq> frag_of ` set fs"
  shows "waiting h D fs (arrived (fragment_key_of h) es) st \<and> not_delivered (fragment_key_of h) es \<and>
    (\<forall>e\<in>set (m_timeoutEventList st). t_key e = fragment_key_of h \<longrightarrow> t0 + m_fragmentExpirationTimeout st0 \<le> t_expires e)"
  using run soon only some
proof (induction rule: l3_run.induct)
  case l3_run_start
  have "t_key e \<noteq> fragment_key_of h" if "e \<in> set (m_timeoutEventList st0)" for e
    using ok that new unfolding l3_ok_def book_def by (metis option.distinct(1))
  then show ?case using new l3_run_start.prems
    by (auto simp: waiting_def arrived_simps not_delivered_def)
next
  case (l3_run_next es st t now ev out st')
  let ?k = "fragment_key_of h" and ?x = "m_fragmentExpirationTimeout st0" and ?F = "frag_of ` set fs"
  note okt = l3_run_ok [OF l3_run_next.hyps(1) ok]
  have oks: "l3_ok now st" using l3_due_ok [OF _ l3_run_next.hyps(2)] okt by blast
  have due: "t \<le> now" using l3_run_next.hyps(2) by (simp add: l3_due_def)
  have only: "only_fragments checksums h fs es" using l3_run_next.prems(2) unfolding only_fragments_def set_append by blast
  have old: "arrived ?k es \<noteq> ?F \<Longrightarrow> waiting h D fs (arrived ?k es) st \<and> not_delivered ?k es \<and>
      (\<forall>e\<in>set (m_timeoutEventList st). t_key e = ?k \<longrightarrow> t0 + ?x \<le> t_expires e)"
    using l3_run_next.IH only due l3_run_next.prems(1) by simp
  have keep: "t0 + ?x \<le> t_expires e"
    if "timeouts_kept now k st st'" "e \<in> set (m_timeoutEventList st')" "t_key e = ?k"
      "\<forall>e\<in>set (m_timeoutEventList st). t_key e = ?k \<longrightarrow> t0 + ?x \<le> t_expires e" for k e
    using that okt due unfolding timeouts_kept_def by fastforce
  show ?case
  proof (cases ev)
    case Expires
    then have arr: "arrived ?k (es @ [(now, ev, out)]) = arrived ?k es" by (simp add: arrived_simps)
    note o = old [folded arr, OF l3_run_next.prems(3)]
    have "now \<in> set (timeout_events st)" using l3_run_next.hyps(2) Expires by (simp add: l3_due_def)
    obtain ds where "HandleTimeout now (st\<lparr>timeout_events := remove1 now (timeout_events st)\<rparr>) = Some (ds, st')"
      and out: "out = None" using l3_run_next.hyps(3) Expires by auto
    note h = HandleTimeoutD [OF oks \<open>now \<in> set (timeout_events st)\<close>
        \<open>HandleTimeout now (st\<lparr>timeout_events := remove1 now (timeout_events st)\<rparr>) = Some (ds, st')\<close>]
    have "map_of (l3_fragments st') ?k = map_of (l3_fragments st) ?k"
      using o l3_run_next.prems(1) by (intro h(4)) fastforce
    then show ?thesis using o keep [OF h(2)] out unfolding arr by (auto simp: waiting_def not_delivered_def)
  next
    case (Arrives q g i)
    show ?thesis
    proof (cases "fragment_key_of g = ?k")
      case False
      then have arr: "arrived ?k (es @ [(now, ev, out)]) = arrived ?k es" by (simp add: arrived_simps Arrives)
      note o = old [folded arr, OF l3_run_next.prems(3)]
      show ?thesis
      proof (cases "receive_datagram q g")
        case None
        then show ?thesis using o l3_run_next.hyps(3) unfolding arr by (auto simp: Arrives not_delivered_def)
      next
        case (Some y)
        then obtain p where p: "receive_datagram q g = Some (p, g)" using receive_header by (cases y) metis
        have run: "LocalDeliver now p g i st = Some (out, st')" using l3_run_next.hyps(3) p by (simp add: Arrives)
        note h = LocalDeliverD(2) [OF oks run] LocalDeliverD(3) [OF oks run, OF False [symmetric]]
        have "fragment_key_of g' \<noteq> ?k" if "out = Some (d, g')" for d g'
          using delivered_key [OF oks, of p g i d g' st'] run that False by simp
        then show ?thesis using o keep [OF h(1)] h(2) unfolding arr by (auto simp: waiting_def not_delivered_def)
      qed
    next
      case True
      have "(now, Arrives q g i, out) \<in> set (es @ [(now, ev, out)])" by (simp add: Arrives)
      with l3_run_next.prems(2) True obtain f padding where f: "f \<in> set fs" "length padding < 65536" "q = fst f @ padding"
        "g = rx_header checksums (snd f)" unfolding only_fragments_def by blast
      have sf: "sound checksums f" using sd f(1) by blast
      then have rx: "Ipv4Header_valid (snd f)" "m_calcChecksum (snd f) = checksums" by (simp_all add: sound_def)
      note g = rx_header_ok [OF rx, folded f(4)]
      have rc: "receive_datagram q g = Some (fst f, g)" using receive_ok [OF sf f(2)] f(3,4) by simp
      then have tp: "trim_padding q g = fst f" using receive_header by metis
      have arr: "arrived ?k (es @ [(now, ev, out)]) = insert (frag_of f) (arrived ?k es)"
        using True tp g(2) by (simp add: Arrives arrived_simps frag_of_def)
      have sub: "arrived ?k es \<noteq> ?F" using l3_run_next.prems(3) f(1) unfolding arr by blast
      note o = old [OF sub]
      have run: "LocalDeliver now (fst f) g i st = Some (out, st')" using l3_run_next.hyps(3) rc by (simp add: Arrives)
      from fragment_arrives [OF oks fr D _ f(1) g(1-4) run, of "arrived ?k es"] o l3_run_next.prems(3) have
        w: "out = None" "waiting h D fs (insert (frag_of f) (arrived ?k es)) st'" unfolding arr by (simp_all split: if_splits)
      note keep = keep [OF LocalDeliverD(2) [OF oks run]]
      show ?thesis using o keep w unfolding arr by (auto simp: not_delivered_def)
    qed
  qed
qed

inductive_cases l3_run_snocE: "l3_run st0 t0 (es @ [(now, ev, out)]) st t"

text \<open>C36: A datagram that is sent over interfaces of any MTU that is allowed, fragmented on the way and fragmented again by
  routers, is put together by the receiver. From a time \<open>t0\<close> at which the receiver holds nothing of it, let its fragments
  come in whatever order, some of them repeatedly, between whatever other packets, fragments and timeouts, but all before
  the fragment timeout \<open>x\<close> counted from \<open>t0\<close>: as long as one of the fragments is missing nothing of it is delivered, and
  the one that completes it delivers exactly the payload that was sent under a header of the same datagram. Nothing of it is
  kept then, so that the statement applies anew to what comes later: if all fragments come again, it is delivered again.\<close>

theorem fragments_reassembled:
  assumes sent: "sound checksums (p, h)" "m_fragmentOffset h = 0" "IsLastFragment h" "mtu_allows_up mtu"
      "SendRealOut checksums mtu p h = Some (Some xs)" "list_all2 (travels checksums) xs fss"
    and before: "l3_run (ipv4_l3_init x) 0 es0 st0 t0" "0 \<le> x" "fragment_key_of h \<notin> fst ` set (l3_fragments st0)"
    and run: "l3_run st0 t0 (es @ [(now, Arrives q g i, out)]) st now" "now < t0 + x"
    and only: "only_fragments checksums h (concat fss) (es @ [(now, Arrives q g i, out)])" "fragment_key_of g = fragment_key_of h"
    and missing: "arrived (fragment_key_of h) es \<noteq> frag_of ` set (concat fss)"
  shows "not_delivered (fragment_key_of h) es \<and>
    (if arrived (fragment_key_of h) (es @ [(now, Arrives q g i, out)]) = frag_of ` set (concat fss)
     then (\<exists>g'. out = Some (p, g') \<and> same_datagram h g' \<and> m_fragmentOffset g' = 0 \<and> m_payloadSize g' = of_nat (length p)) \<and>
       fragment_key_of h \<notin> fst ` set (l3_fragments st)
     else out = None)"
proof -
  from SendRealOut_ok [OF sent(1,4)] sent(2,3,5) have f1: "fragmentation h 0 False p xs" by auto
  have snd1: "sound checksums f" if "f \<in> set xs" for f using fragmentation_sound [OF _ sent(1) that, of False] f1 sent(2) by simp
  have "list_all2 (\<lambda>(q, g) gs. fragmentation g (unat (m_fragmentOffset g)) (\<not> IsLastFragment g) q gs) xs fss"
    by (rule list.rel_mono_strong [OF sent(6)]) (use travels_fragmentation snd1 in auto)
  from fragmentation_refine [OF f1 this] have fr: "fragmentation h 0 False p (concat fss)" .
  have sd: "\<forall>f\<in>set (concat fss). sound checksums f"
    using fragmentation_sound [OF _ sent(1), of False "concat fss"] fr sent(2) by auto
  have D: "length p < 65536" using sent(1) by (simp add: sound_def)
  have ok0: "l3_ok t0 st0" and x: "m_fragmentExpirationTimeout st0 = x"
    using l3_run_ok [OF before(1) l3_ok_init [OF before(2)]] by (simp_all add: ipv4_l3_init_def)
  have new: "map_of (l3_fragments st0) (fragment_key_of h) = None" using before(3) by (simp add: map_of_eq_None_iff)
  from run(1) obtain s t where s: "l3_run st0 t0 es s t" "l3_due t s now (Arrives q g i)" "l3_next now (Arrives q g i) s = Some (out, st)"
    by (rule l3_run_snocE) auto
  have le: "t \<le> now" using s(2) by (simp add: l3_due_def)
  have oe: "only_fragments checksums h (concat fss) es" using only(1) unfolding only_fragments_def set_append by blast
  have w: "waiting h p (concat fss) (arrived (fragment_key_of h) es) s" "not_delivered (fragment_key_of h) es"
    using run_waiting [OF s(1) ok0 new fr D sd _ oe missing] run(2) le x by auto
  have okt: "l3_ok now s" using l3_run_ok [OF s(1) ok0] l3_due_ok s(2) by blast
  have "(now, Arrives q g i, out) \<in> set (es @ [(now, Arrives q g i, out)])" by simp
  with only obtain f padding where f: "f \<in> set (concat fss)" "length padding < 65536" "q = fst f @ padding" "g = rx_header checksums (snd f)"
    unfolding only_fragments_def by blast
  have sf: "sound checksums f" using sd f(1) by blast
  then have rx: "Ipv4Header_valid (snd f)" "m_calcChecksum (snd f) = checksums" by (simp_all add: sound_def)
  note gh = rx_header_ok [OF rx, folded f(4)]
  have rc: "receive_datagram q g = Some (fst f, g)" using receive_ok [OF sf f(2)] f(3,4) by simp
  then have "trim_padding q g = fst f" using receive_header by metis
  then have arr: "arrived (fragment_key_of h) (es @ [(now, Arrives q g i, out)]) = insert (frag_of f) (arrived (fragment_key_of h) es)"
    using only(2) gh(2) by (simp add: arrived_simps frag_of_def)
  have "LocalDeliver now (fst f) g i s = Some (out, st)" using s(3) rc by simp
  from fragment_arrives [OF okt fr D w(1) f(1) gh(1-4) this] w(2) show ?thesis unfolding arr
    by (simp add: map_of_eq_None_iff split: if_splits)
qed

text \<open>Fifty bytes over an MTU of 68: two fragments, the second of which arrives first.\<close>

definition sent_header :: Ipv4Header where
  "sent_header = Ipv4Header_init\<lparr>m_payloadSize := 50, m_identification := 3, m_protocol := 17, m_source := 1, m_destination := 2\<rparr>"

definition fragment_1 :: datagram where
  "fragment_1 = (replicate 48 7, sent_header\<lparr>m_payloadSize := 48, m_flags := 2\<rparr>)"

definition fragment_2 :: datagram where
  "fragment_2 = (replicate 2 7, sent_header\<lparr>m_payloadSize := 2, m_fragmentOffset := 48\<rparr>)"

definition first_arrived :: ipv4_l3 where
  "first_arrived = (case l3_next 5 (Arrives (fst fragment_2 @ [0, 0, 0]) (rx_header False (snd fragment_2)) 1) (ipv4_l3_init 30) of
     Some (_, st) \<Rightarrow> st | None \<Rightarrow> ipv4_l3_init 30)"

lemma fragment_2_waits:
  "l3_next 5 (Arrives (fst fragment_2 @ [0, 0, 0]) (rx_header False (snd fragment_2)) 1) (ipv4_l3_init 30) = Some (None, first_arrived)"
  "timeout_events first_arrived = [35]"
  by code_simp+

lemma sent_in_two: "SendRealOut False 68 (replicate 50 7) sent_header = Some (Some [fragment_1, fragment_2])"
  by code_simp

lemma fragments_reassembled_witness:
  "\<exists>g st. l3_run (ipv4_l3_init 30) 0
     [(5, Arrives (fst fragment_2 @ [0, 0, 0]) (rx_header False (snd fragment_2)) 1, None),
      (9, Arrives (fst fragment_1) (rx_header False (snd fragment_1)) 1, Some (replicate 50 7, g))] st 9"
proof -
  let ?i = "ipv4_l3_init 30" and ?e2 = "Arrives (fst fragment_2 @ [0, 0, 0]) (rx_header False (snd fragment_2)) 1"
  let ?e1 = "Arrives (fst fragment_1) (rx_header False (snd fragment_1)) 1"
  have d2: "l3_due 0 ?i 5 ?e2" by (simp add: l3_due_def ipv4_l3_init_def)
  from l3_run_next [OF l3_run_start d2 fragment_2_waits(1)] have r2: "l3_run ?i 0 [(5, ?e2, None)] first_arrived 5" by simp
  have d1: "l3_due 5 first_arrived 9 ?e1" by (simp add: l3_due_def fragment_2_waits)
  have "l3_ok 5 first_arrived" using l3_run_ok [OF r2 l3_ok_init] by simp
  from l3_next_ok [OF this d1] obtain out st where n1: "l3_next 9 ?e1 first_arrived = Some (out, st)" by blast
  note r1 = l3_run_next [OF r2 d1 n1]
  have f: "fst fragment_1 = replicate 48 7" "fst fragment_2 = replicate 2 7" "frag_of fragment_1 \<noteq> frag_of fragment_2"
    by (simp_all add: fragment_1_def fragment_2_def frag_of_def numeral_eq_Suc)
  have k: "fragment_key_of (rx_header False (snd f)) = fragment_key_of sent_header" "trim_padding (fst fragment_1) (rx_header False (snd fragment_1)) = fst fragment_1"
    "trim_padding (fst fragment_2 @ [0, 0, 0]) (rx_header False (snd fragment_2)) = fst fragment_2"
    "m_fragmentOffset (rx_header False (snd f)) = m_fragmentOffset (snd f)" if "f = fragment_1 \<or> f = fragment_2" for f
    using that by (auto simp: rx_header_def Ipv4Header_received_def Ipv4Header_init_def Let_def fragment_key_of_def fragment_1_def
        fragment_2_def sent_header_def trim_padding_def packet_GetSize_def)
  have sound: "sound False (replicate 50 7, sent_header)" "m_fragmentOffset sent_header = 0" "IsLastFragment sent_header" "mtu_allows_up 68"
    by (simp_all add: sound_def sent_header_def Ipv4Header_init_def Ipv4Header_valid_def IsLastFragment_def mtu_allows_up_def)
  have way: "list_all2 (travels False) [fragment_1, fragment_2] [[fragment_1], [fragment_2]]"
    by (simp add: travels_arrived)
  have a2: "arrived (fragment_key_of sent_header) [(5, ?e2, None)] = {frag_of fragment_2}"
    using arrived_simps(3) [of "rx_header False (snd fragment_2)" "fragment_key_of sent_header" "[]"] k [of fragment_2]
    by (simp add: arrived_simps frag_of_def)
  have a1: "arrived (fragment_key_of sent_header) ([(5, ?e2, None)] @ [(9, ?e1, out)]) = {frag_of fragment_1, frag_of fragment_2}"
    using k [of fragment_1] by (subst arrived_simps(3)) (simp_all add: a2 frag_of_def)
  have only: "only_fragments False sent_header (concat [[fragment_1], [fragment_2]]) ([(5, ?e2, None)] @ [(9, ?e1, out)])"
    unfolding only_fragments_def by (auto intro: exI [of _ "[0, 0, 0]"] exI [of _ "[]"])
  have new: "fragment_key_of sent_header \<notin> fst ` set (l3_fragments ?i)" by (simp add: ipv4_l3_init_def)
  have "arrived (fragment_key_of sent_header) [(5, ?e2, None)] \<noteq> frag_of ` set (concat [[fragment_1], [fragment_2]])"
    unfolding a2 using f(3) by auto
  from fragments_reassembled [OF sound sent_in_two way l3_run_start _ new r1 _ only _ this] k(1) [of fragment_1] a1
  obtain g where "out = Some (replicate 50 7, g)" by auto
  then show ?thesis using r1 by auto
qed

text \<open>The header that is delivered is that of the fragment that came last: it may still say that more fragments follow.\<close>

lemma delivered_header_says_more:
  "map_option (map_option (\<lambda>(p, g). IsLastFragment g) \<circ> fst)
     (l3_next 9 (Arrives (fst fragment_1) (rx_header False (snd fragment_1)) 1) first_arrived) = Some (Some False)"
  by code_simp

text \<open>What one event of \<open>HandleTimeout\<close> drops.\<close>

lemma expiry_drops:
  assumes ok: "l3_ok t st" and due: "l3_due t st now Expires" and n: "l3_next now Expires st = Some (out, st')"
  shows "map_of (l3_fragments st') k =
      (if \<exists>e\<in>set (m_timeoutEventList st). t_key e = k \<and> t_expires e = now then None else map_of (l3_fragments st) k)"
    and "\<forall>e\<in>set (m_timeoutEventList st'). now < t_expires e"
proof -
  have now: "now \<in> set (timeout_events st)" using due by (simp add: l3_due_def)
  have okn: "l3_ok now st" by (rule l3_due_ok [OF ok due])
  obtain ds where "HandleTimeout now (st\<lparr>timeout_events := remove1 now (timeout_events st)\<rparr>) = Some (ds, st')" using n by auto
  note h = HandleTimeoutD [OF okn now this]
  show "\<forall>e\<in>set (m_timeoutEventList st'). now < t_expires e" using h(3) by blast
  show "map_of (l3_fragments st') k =
      (if \<exists>e\<in>set (m_timeoutEventList st). t_key e = k \<and> t_expires e = now then None else map_of (l3_fragments st) k)"
  proof (cases "\<exists>e\<in>set (m_timeoutEventList st). t_key e = k \<and> t_expires e = now")
    case True
    then show ?thesis using h(5) [OF True] by simp
  next
    case False
    moreover have "\<forall>e\<in>set (m_timeoutEventList st). now \<le> t_expires e" using okn by (simp add: l3_ok_def book_def)
    ultimately have "\<forall>e\<in>set (m_timeoutEventList st). t_key e = k \<longrightarrow> now < t_expires e" by fastforce
    from h(4) [OF this] False show ?thesis by (simp only: if_False)
  qed
qed

text \<open>C37: At any time every set of fragments that waits for more has an entry in the list of timeouts that expires within
  the timeout from now and not in the past, and an event of \<open>HandleTimeout\<close> is pending that comes no later; no arrival and no
  such event fails; and when an event fires exactly the sets that expire at that moment are dropped.\<close>

theorem fragments_expire:
  assumes run: "l3_run (ipv4_l3_init x) 0 es st t" and x: "0 \<le> x"
  shows "(\<forall>k\<in>fst ` set (l3_fragments st). \<exists>e\<in>set (m_timeoutEventList st). t_key e = k \<and>
      t \<le> t_expires e \<and> t_expires e \<le> t + x \<and> (\<exists>n\<in>set (timeout_events st). n \<le> t_expires e)) \<and>
    (\<forall>now ev. l3_due t st now ev \<longrightarrow> l3_next now ev st \<noteq> None) \<and>
    (\<forall>now out st' k. l3_due t st now Expires \<and> l3_next now Expires st = Some (out, st') \<longrightarrow>
       map_of (l3_fragments st') k =
         (if \<exists>e\<in>set (m_timeoutEventList st). t_key e = k \<and> t_expires e = now then None else map_of (l3_fragments st) k) \<and>
       (\<forall>e\<in>set (m_timeoutEventList st'). now < t_expires e))"
proof (intro conjI allI impI ballI; (elim conjE)?)
  have ok: "l3_ok t st" and x': "m_fragmentExpirationTimeout st = x"
    using l3_run_ok [OF run l3_ok_init [OF x]] by (simp_all add: ipv4_l3_init_def)
  then have b: "book t x (next_iter st) (m_timeoutEventList st) (l3_fragments st)"
    and ev: "event_before (timeout_events st) (m_timeoutEventList st)" by (simp_all add: l3_ok_def)
  {
    fix k assume "k \<in> fst ` set (l3_fragments st)"
    then obtain e where e: "e \<in> set (m_timeoutEventList st)" "t_key e = k" using b unfolding book_def by (metis imageE)
    moreover have "t_expires (hd (m_timeoutEventList st)) \<le> t_expires e"
      using b e(1) by (cases "m_timeoutEventList st") (auto simp: book_def)
    moreover have "m_timeoutEventList st \<noteq> []" using e(1) by auto
    ultimately show "\<exists>e\<in>set (m_timeoutEventList st). t_key e = k \<and> t \<le> t_expires e \<and> t_expires e \<le> t + x \<and>
        (\<exists>n\<in>set (timeout_events st). n \<le> t_expires e)"
      using b ev unfolding book_def event_before_def by (metis order_trans)
  next
    fix now ev assume "l3_due t st now ev"
    from l3_next_ok [OF ok this] obtain out st' where "l3_next now ev st = Some (out, st')" .
    then show "l3_next now ev st \<noteq> None" by simp
  next
    fix now out st' k assume "l3_due t st now Expires" "l3_next now Expires st = Some (out, st')"
    from expiry_drops(1) [OF ok this] show "map_of (l3_fragments st') k =
        (if \<exists>e\<in>set (m_timeoutEventList st). t_key e = k \<and> t_expires e = now then None else map_of (l3_fragments st) k)" .
  next
    fix now out st' e assume "l3_due t st now Expires" "l3_next now Expires st = Some (out, st')"
      and e: "e \<in> set (m_timeoutEventList st')"
    from expiry_drops(2) [OF ok this(1,2)] e show "now < t_expires e" by blast
  }
qed

lemma fragments_expire_witness:
  "\<exists>out st'. l3_next 35 Expires first_arrived = Some (out, st') \<and> map_of (l3_fragments st') (fragment_key_of sent_header) = None"
proof -
  have "l3_due 0 (ipv4_l3_init 30) 5 (Arrives (fst fragment_2 @ [0, 0, 0]) (rx_header False (snd fragment_2)) 1)"
    by (simp add: l3_due_def ipv4_l3_init_def)
  note run = l3_run_next [OF l3_run_start this fragment_2_waits(1)]
  have "(0 :: int) \<le> 30" by simp
  note e = fragments_expire [OF run this, THEN conjunct2]
  have due: "l3_due 5 first_arrived 35 Expires" by (simp add: l3_due_def fragment_2_waits)
  from e [THEN conjunct1, rule_format, OF due] obtain out st' where n: "l3_next 35 Expires first_arrived = Some (out, st')" by auto
  have "map t_expires (m_timeoutEventList first_arrived) = [35]"
    "map t_key (m_timeoutEventList first_arrived) = [fragment_key_of sent_header]" by code_simp+
  then have "\<exists>e\<in>set (m_timeoutEventList first_arrived). t_key e = fragment_key_of sent_header \<and> t_expires e = 35"
    by (cases "m_timeoutEventList first_arrived") auto
  with e [THEN conjunct2, rule_format, OF conjI [OF due n]] have "map_of (l3_fragments st') (fragment_key_of sent_header) = None"
    by (simp only: if_True)
  with n show ?thesis by blast
qed

text \<open>However a payload is divided into pieces that fit, all but the last a multiple of eight bytes, cutting it into
  the largest multiples of eight takes at most one piece more.\<close>

lemma pieces_bound:
  assumes "\<forall>l\<in>set ls. l \<le> (B :: nat)" and "\<forall>l\<in>set (butlast ls). 8 dvd l" and "ls \<noteq> []"
  shows "sum_list ls \<le> (length ls - 1) * (B div 8 * 8) + B"
  using assms
proof (induction ls)
  case (Cons l ls)
  show ?case
  proof (cases "ls = []")
    case False
    then have "8 dvd l" "l \<le> B" "\<forall>l\<in>set (butlast ls). 8 dvd l" using Cons.prems by simp_all
    then have "l \<le> B div 8 * 8" by (metis div_le_mono dvd_div_mult_self mult_le_mono1)
    moreover have "(length ls - 1) * (B div 8 * 8) + B div 8 * 8 = length ls * (B div 8 * 8)"
      using False by (cases ls) simp_all
    moreover have "sum_list ls \<le> (length ls - 1) * (B div 8 * 8) + B" using Cons False by simp
    ultimately show ?thesis by simp
  qed (use Cons in simp)
qed simp

lemma one_more_piece:
  assumes "\<forall>l\<in>set ls. l \<le> B" and "\<forall>l\<in>set (butlast ls). 8 dvd l" and "sum_list ls = n" and "0 < n" and "8 \<le> (B :: nat)"
  shows "Suc ((n - 1) div (B div 8 * 8)) \<le> length ls + 1"
proof -
  let ?K = "B div 8 * 8"
  have ne: "ls \<noteq> []" using assms(3,4) by auto
  have K: "B < ?K + 8" "8 \<le> ?K" using assms(5) by presburger+
  have "n \<le> (length ls - 1) * ?K + B" using pieces_bound [OF assms(1,2) ne] assms(3) by simp
  moreover have "(length ls - 1) * ?K + ?K = length ls * ?K" using ne by (cases ls) simp_all
  ultimately have "n - 1 < length ls * ?K + ?K" using K assms(4) by linarith
  then have "n - 1 < (length ls + 1) * ?K" by simp
  from less_mult_imp_div_less [OF this] show ?thesis by simp
qed

text \<open>C38: Sending a datagram over an interface that may be up ends: it is cut into fragments that fit the MTU, that together
  are the payload, each with a header that is ready to be sent. They are as many as pieces of the largest multiple of eight bytes
  that fits, which is at most one fragment more than in any division of the payload into fragments that fit: 98 bytes over an MTU
  of 70 take three fragments, although 48 and 50 bytes would do. With an MTU between 20 and 27 the loop never ends.\<close>

theorem fragmentation_terminates:
  assumes s: "sound checksums (p, h)"
  shows "(mtu_allows_up mtu \<longrightarrow>
      (\<exists>gs. SendRealOut checksums mtu p h = Some (Some gs) \<and> concat (map fst gs) = p \<and>
        (\<forall>f\<in>set gs. length (fst f) + 20 \<le> unat mtu \<and> sound checksums f) \<and>
        length gs = (if length p + 20 > unat mtu then Suc ((length p - 1) div ((unat mtu - 20) div 8 * 8)) else 1) \<and>
        (\<forall>ls. (\<forall>l\<in>set ls. l + 20 \<le> unat mtu) \<and> (\<forall>l\<in>set (butlast ls). 8 dvd l) \<and> sum_list ls = length p \<longrightarrow>
           length gs \<le> length ls + 1))) \<and>
    (20 \<le> unat mtu \<and> unat mtu < 28 \<and> unat mtu < length p + 20 \<longrightarrow> SendRealOut checksums mtu p h = None)"
proof (intro conjI impI)
  assume "mtu_allows_up mtu"
  from SendRealOut_ok [OF s this] obtain gs where gs: "SendRealOut checksums mtu p h = Some (Some gs)"
    "fragmentation h (unat (m_fragmentOffset h)) (\<not> IsLastFragment h) p gs" "\<forall>(q, g)\<in>set gs. length q + 20 \<le> unat mtu"
    "length gs = (if length p + 20 > unat mtu then Suc ((length p - 1) div ((unat mtu - 20) div 8 * 8)) else 1)" .
  have "length (fst f) + 20 \<le> unat mtu \<and> sound checksums f" if "f \<in> set gs" for f
    using gs(3) that fragmentation_sound [OF gs(2) s that] by auto
  moreover have "length gs \<le> length ls + 1"
    if "(\<forall>l\<in>set ls. l + 20 \<le> unat mtu) \<and> (\<forall>l\<in>set (butlast ls). 8 dvd l) \<and> sum_list ls = length p" for ls
  proof -
    have "p \<noteq> []" using fragmentation_concat [OF gs(2)] by simp
    moreover have "68 \<le> unat mtu" using mtu_68 [OF \<open>mtu_allows_up mtu\<close>] by simp
    moreover have "\<forall>l\<in>set ls. l \<le> unat mtu - 20" using that by auto
    ultimately show ?thesis using one_more_piece [of ls "unat mtu - 20" "length p"] that gs(4) by (auto split: if_splits)
  qed
  ultimately show "\<exists>gs. SendRealOut checksums mtu p h = Some (Some gs) \<and> concat (map fst gs) = p \<and>
        (\<forall>f\<in>set gs. length (fst f) + 20 \<le> unat mtu \<and> sound checksums f) \<and>
        length gs = (if length p + 20 > unat mtu then Suc ((length p - 1) div ((unat mtu - 20) div 8 * 8)) else 1) \<and>
        (\<forall>ls. (\<forall>l\<in>set ls. l + 20 \<le> unat mtu) \<and> (\<forall>l\<in>set (butlast ls). 8 dvd l) \<and> sum_list ls = length p \<longrightarrow>
           length gs \<le> length ls + 1)"
    using gs(1,4) fragmentation_concat [OF gs(2)] by blast
next
  assume mtu: "20 \<le> unat mtu \<and> unat mtu < 28 \<and> unat mtu < length p + 20"
  note v = s [unfolded sound_def fst_conv snd_conv]
  have um: "unat (ucast mtu :: 32 word) = unat mtu" by (simp add: ucast_16_32)
  have sz: "Ipv4Header_GetSerializedSize h = 20" using v by (simp add: Ipv4Header_GetSerializedSize_def Ipv4Header_valid_def)
  have "unat (packet_GetSize p + 20) = length p + 20" using v by (subst unat_plus) (simp_all add: packet_GetSize_small)
  then have big: "packet_GetSize p + Ipv4Header_GetSerializedSize h > ucast mtu" using mtu um by (simp add: sz word_less_nat_alt)
  have "unat mtu - 20 < 8" using mtu by linarith
  then have less: "(unat mtu - 20) div 8 = 0" by (rule div_less)
  have "unat (fragment_size h (ucast mtu)) = 0"
    using fragment_size_ok [of h "ucast mtu"] v mtu um less by simp
  then have fs: "fragment_size h (ucast mtu) = 0" by (simp only: unat_eq_0)
  have "fragment_loop checksums h 0 p 0 [] = None"
    using v by (intro fragment_loop_stuck) (simp_all add: Ipv4Header_valid_def)
  then show "SendRealOut checksums mtu p h = None" using big sz fs by (simp add: SendRealOut_def DoFragmentation_def)
qed

lemma fragmentation_terminates_witness:
  "SendRealOut False 27 (replicate 50 7) sent_header = None \<and>
   (\<exists>gs. SendRealOut False 68 (replicate 50 7) sent_header = Some (Some gs) \<and> length gs = 2) \<and>
   (\<exists>gs. SendRealOut False 70 (replicate 98 7) (sent_header\<lparr>m_payloadSize := 98\<rparr>) = Some (Some gs) \<and> length gs = 3 \<and>
      length gs \<le> length [48, 50 :: nat] + 1)"
proof -
  have "sound False (replicate 50 7, sent_header)" "sound False (replicate 98 7, sent_header\<lparr>m_payloadSize := 98\<rparr>)"
    by (simp_all add: sound_def sent_header_def Ipv4Header_init_def Ipv4Header_valid_def)
  note t = fragmentation_terminates [OF this(1), of 68] fragmentation_terminates [OF this(1), of 27]
    fragmentation_terminates [OF this(2), of 70]
  have "mtu_allows_up 68" "mtu_allows_up 70" by (simp_all add: mtu_allows_up_def)
  moreover obtain gs where "SendRealOut False 70 (replicate 98 7) (sent_header\<lparr>m_payloadSize := 98\<rparr>) = Some (Some gs)" "length gs = 3"
      "(\<forall>l\<in>set [48, 50]. l + 20 \<le> unat (70 :: 16 word)) \<and> (\<forall>l\<in>set (butlast [48, 50]). 8 dvd l) \<and>
        sum_list [48, 50] = length (replicate 98 (7 :: octet)) \<longrightarrow> length gs \<le> length [48, 50 :: nat] + 1"
    using t(3) calculation by auto
  moreover obtain gs2 where "SendRealOut False 68 (replicate 50 7) sent_header = Some (Some gs2)" "length gs2 = 2"
    using t(1) calculation(1) by auto
  moreover have "SendRealOut False 27 (replicate 50 7) sent_header = None" using t(2) by simp
  ultimately show ?thesis by simp
qed

text \<open>
  Fragments of the same datagram that were cut differently: when the last fragment is stored and a shorter
  one that begins at the same place comes after it, \<open>m_moreFragment\<close> says that more is to come although every
  byte is there.
\<close>

lemma all_bytes_but_not_entire:
  "let D = replicate 30 7;
       x = AddFragment (replicate 8 7) 16 True (AddFragment (replicate 14 7) 16 False (AddFragment (replicate 16 7) 0 True
             \<lparr>m_moreFragment = False, m_fragments = [], m_timeoutIter = 0\<rparr>))
   in \<not> IsEntire x \<and> GetPacket x = Some D"
  by code_simp

end
