(* ===== verification/Wifi_Mac_Middle.thy ===== *)
theory Wifi_Mac_Middle
  imports Wifi_Mac_Header Packets "HOL-Library.Monad_Syntax"
begin

text \<open>
  Fragmentation of Wi-Fi frames: sequence numbers (\<open>wifi/model/mac-tx-middle.cc\<close>), the fragments that
  \<open>frame-exchange-manager.cc\<close> and \<open>wifi-remote-station-manager.cc\<close> make of a frame, and the receiver that
  filters duplicates and puts the fragments together (\<open>mac-rx-middle.cc\<close>). A \<open>WifiMpdu\<close> is its packet,
  a list of bytes, and its header; a failed assertion is \<open>None\<close>.
\<close>

type_synonym wifi_frame = "octet list \<times> WifiMacHeader"

definition IsGroup :: "mac48 \<Rightarrow> bool" where
  "IsGroup a \<longleftrightarrow> a ! 0 AND 0x01 = 0x01"

subsection \<open>Members of the header\<close>

definition SetSequenceNumber :: "16 word \<Rightarrow> WifiMacHeader \<Rightarrow> WifiMacHeader" where
  "SetSequenceNumber sq h = h\<lparr>m_seqSeq := sq\<rparr>"

definition SetFragmentNumber :: "octet \<Rightarrow> WifiMacHeader \<Rightarrow> WifiMacHeader" where
  "SetFragmentNumber frag h = h\<lparr>m_seqFrag := frag\<rparr>"

definition WifiMacHeader_SetNoMoreFragments :: "WifiMacHeader \<Rightarrow> WifiMacHeader" where
  "WifiMacHeader_SetNoMoreFragments h = h\<lparr>m_ctrlMoreFrag := 0\<rparr>"

definition WifiMacHeader_SetMoreFragments :: "WifiMacHeader \<Rightarrow> WifiMacHeader" where
  "WifiMacHeader_SetMoreFragments h = h\<lparr>m_ctrlMoreFrag := 1\<rparr>"

subsection \<open>MacTxMiddle\<close>

record mac_tx_middle =
  m_sequence :: "16 word"
  m_qosSequences :: "mac48 \<rightharpoonup> 16 word list"

definition mac_tx_middle_init :: mac_tx_middle where
  "mac_tx_middle_init = \<lparr>m_sequence = 0, m_qosSequences = Map.empty\<rparr>"

definition GetNextSequenceNumberFor :: "WifiMacHeader \<Rightarrow> mac_tx_middle \<Rightarrow> (16 word \<times> mac_tx_middle) option" where
  "GetNextSequenceNumberFor hdr t =
     (if IsQosData hdr \<and> \<not> IsGroup (m_addr1 hdr)
      then do {
        tid \<leftarrow> GetQosTid hdr;
        if tid < 16
        then (case m_qosSequences t (m_addr1 hdr) of
                Some sqs \<Rightarrow>
                  let retval = sqs ! unat tid
                  in Some (retval, t\<lparr>m_qosSequences := (m_qosSequences t)(m_addr1 hdr \<mapsto>
                       sqs[unat tid := (sqs ! unat tid + 1) mod 4096])\<rparr>)
              | None \<Rightarrow>
                  Some (0, t\<lparr>m_qosSequences := (m_qosSequences t)(m_addr1 hdr \<mapsto>
                       (replicate 16 0)[unat tid := 0 + 1])\<rparr>))
        else None
      }
      else Some (m_sequence t, t\<lparr>m_sequence := (m_sequence t + 1) mod 4096\<rparr>))"

definition PeekNextSequenceNumberFor :: "WifiMacHeader \<Rightarrow> mac_tx_middle \<Rightarrow> 16 word option" where
  "PeekNextSequenceNumberFor hdr t =
     (if IsQosData hdr \<and> \<not> IsGroup (m_addr1 hdr)
      then do {
        tid \<leftarrow> GetQosTid hdr;
        if tid < 16
        then Some (case m_qosSequences t (m_addr1 hdr) of Some sqs \<Rightarrow> sqs ! unat tid | None \<Rightarrow> 0)
        else None
      }
      else Some (m_sequence t))"

definition GetNextSeqNumberByTidAndAddress :: "octet \<Rightarrow> mac48 \<Rightarrow> mac_tx_middle \<Rightarrow> 16 word option" where
  "GetNextSeqNumberByTidAndAddress tid addr t =
     (if tid < 16
      then Some (case m_qosSequences t addr of Some sqs \<Rightarrow> sqs ! unat tid | None \<Rightarrow> 0)
      else None)"

definition SetSequenceNumberFor :: "WifiMacHeader \<Rightarrow> mac_tx_middle \<Rightarrow> mac_tx_middle option" where
  "SetSequenceNumberFor hdr t =
     (if IsQosData hdr \<and> \<not> IsGroup (m_addr1 hdr)
      then do {
        tid \<leftarrow> GetQosTid hdr;
        if tid < 16
        then map_option (\<lambda>sqs. t\<lparr>m_qosSequences := (m_qosSequences t)(m_addr1 hdr \<mapsto> sqs[unat tid := m_seqSeq hdr])\<rparr>)
               (m_qosSequences t (m_addr1 hdr))
        else None
      }
      else Some (t\<lparr>m_sequence := m_seqSeq hdr\<rparr>))"

subsection \<open>Making fragments\<close>

definition WIFI_MAC_FCS_LENGTH :: "16 word" where "WIFI_MAC_FCS_LENGTH = 4"

definition WifiMpdu_GetSize :: "wifi_frame \<Rightarrow> 32 word" where
  "WifiMpdu_GetSize m = packet_GetSize (fst m) + WifiMacHeader_GetSize (snd m) + ucast WIFI_MAC_FCS_LENGTH"

definition IsFragment :: "wifi_frame \<Rightarrow> bool" where
  "IsFragment m \<longleftrightarrow> IsMoreFragments (snd m) \<or> m_seqFrag (snd m) > 0"

definition DoSetFragmentationThreshold :: "32 word \<Rightarrow> 32 word" where
  "DoSetFragmentationThreshold threshold =
     (if threshold < 256 then 256 else if threshold mod 2 \<noteq> 0 then threshold - 1 else threshold)"

definition NeedFragmentation :: "32 word \<Rightarrow> wifi_frame \<Rightarrow> bool" where
  "NeedFragmentation threshold m \<longleftrightarrow> \<not> IsGroup (m_addr1 (snd m)) \<and> WifiMpdu_GetSize m > threshold"

text \<open>The number of bytes of all fragments but the last.\<close>

definition wifi_fragment_size :: "32 word \<Rightarrow> wifi_frame \<Rightarrow> 32 word" where
  "wifi_fragment_size threshold m = threshold - WifiMacHeader_GetSize (snd m) - ucast WIFI_MAC_FCS_LENGTH"

definition GetNFragments :: "32 word \<Rightarrow> wifi_frame \<Rightarrow> 32 word" where
  "GetNFragments threshold m =
     (let nFragments = packet_GetSize (fst m) div wifi_fragment_size threshold m
      in if packet_GetSize (fst m) mod wifi_fragment_size threshold m > 0 then nFragments + 1 else nFragments)"

definition GetFragmentSize :: "32 word \<Rightarrow> wifi_frame \<Rightarrow> 32 word \<Rightarrow> 32 word option" where
  "GetFragmentSize threshold m fragmentNumber =
     (if IsGroup (m_addr1 (snd m)) then None
      else let nFragment = GetNFragments threshold m in
        if fragmentNumber \<ge> nFragment then Some 0
        else if fragmentNumber = nFragment - 1
        then Some (packet_GetSize (fst m) - fragmentNumber * wifi_fragment_size threshold m)
        else Some (wifi_fragment_size threshold m))"

definition GetFragmentOffset :: "32 word \<Rightarrow> wifi_frame \<Rightarrow> 32 word \<Rightarrow> 32 word option" where
  "GetFragmentOffset threshold m fragmentNumber =
     (if \<not> IsGroup (m_addr1 (snd m)) \<and> fragmentNumber < GetNFragments threshold m
      then Some (fragmentNumber * wifi_fragment_size threshold m)
      else None)"

definition wifi_IsLastFragment :: "32 word \<Rightarrow> wifi_frame \<Rightarrow> 32 word \<Rightarrow> bool option" where
  "wifi_IsLastFragment threshold m fragmentNumber =
     (if IsGroup (m_addr1 (snd m)) then None else Some (fragmentNumber = GetNFragments threshold m - 1))"

text \<open>\<open>m_fragmentedPacket\<close> is the packet that is being fragmented.\<close>

definition GetFirstFragmentIfNeeded ::
  "32 word \<Rightarrow> wifi_frame \<Rightarrow> octet list option \<Rightarrow> (wifi_frame \<times> octet list option) option" where
  "GetFirstFragmentIfNeeded threshold mpdu m_fragmentedPacket =
     (if IsFragment mpdu
      then (if m_fragmentedPacket = None then None else Some (mpdu, m_fragmentedPacket))
      else if NeedFragmentation threshold mpdu
      then do {
        size \<leftarrow> GetFragmentSize threshold mpdu 0;
        fragment \<leftarrow> Packet_CreateFragment 0 size (fst mpdu);
        Some ((fragment, WifiMacHeader_SetMoreFragments (snd mpdu)), Some (fst mpdu))
      }
      else Some (mpdu, m_fragmentedPacket))"

definition GetNextFragment :: "octet list option \<Rightarrow> wifi_frame \<Rightarrow> wifi_frame option" where
  "GetNextFragment m_fragmentedPacket mpdu =
     (if IsMoreFragments (snd mpdu)
      then do {
        full \<leftarrow> m_fragmentedPacket;
        let hdr = SetFragmentNumber (m_seqFrag (snd mpdu) + 1) (snd mpdu);
        let startOffset = ucast (m_seqFrag hdr) * packet_GetSize (fst mpdu);
        let size = packet_GetSize full - startOffset;
        let (size, hdr) = (if size > packet_GetSize (fst mpdu)
                           then (packet_GetSize (fst mpdu), WifiMacHeader_SetMoreFragments hdr)
                           else (size, WifiMacHeader_SetNoMoreFragments hdr));
        fragment \<leftarrow> Packet_CreateFragment startOffset size full;
        Some (fragment, hdr)
      }
      else None)"

subsection \<open>MacRxMiddle\<close>

record originator_rx_status =
  m_defragmenting :: bool
  m_lastSequenceControl :: "16 word"
  rx_fragments :: "octet list list"

definition OriginatorRxStatus :: originator_rx_status where
  "OriginatorRxStatus = \<lparr>m_defragmenting = False, m_lastSequenceControl = 0xffff, rx_fragments = []\<rparr>"

definition AccumulateFirstFragment :: "octet list \<Rightarrow> originator_rx_status \<Rightarrow> originator_rx_status option" where
  "AccumulateFirstFragment packet s =
     (if m_defragmenting s then None
      else Some (s\<lparr>m_defragmenting := True, rx_fragments := rx_fragments s @ [packet]\<rparr>))"

definition AccumulateLastFragment :: "octet list \<Rightarrow> originator_rx_status \<Rightarrow> (octet list \<times> originator_rx_status) option" where
  "AccumulateLastFragment packet s =
     (if m_defragmenting s
      then let full = concat (rx_fragments s @ [packet])
           in Some (full, s\<lparr>m_defragmenting := False, rx_fragments := []\<rparr>)
      else None)"

definition AccumulateFragment :: "octet list \<Rightarrow> originator_rx_status \<Rightarrow> originator_rx_status option" where
  "AccumulateFragment packet s =
     (if m_defragmenting s then Some (s\<lparr>rx_fragments := rx_fragments s @ [packet]\<rparr>) else None)"

text \<open>The additions are on \<open>int\<close>: fragment 15 has no successor.\<close>

definition IsNextFragment :: "16 word \<Rightarrow> originator_rx_status \<Rightarrow> bool" where
  "IsNextFragment sequenceControl s \<longleftrightarrow>
     drop_bit 4 sequenceControl = drop_bit 4 (m_lastSequenceControl s) \<and>
     uint (sequenceControl AND 0x0f) = uint (m_lastSequenceControl s AND 0x0f) + 1"

definition SetLastSequenceControl :: "16 word \<Rightarrow> originator_rx_status \<Rightarrow> originator_rx_status" where
  "SetLastSequenceControl sequenceControl s = s\<lparr>m_lastSequenceControl := sequenceControl\<rparr>"

datatype rx_key = Plain mac48 | Qos mac48 octet

record mac_rx_middle =
  m_originatorStatus :: "mac48 \<rightharpoonup> originator_rx_status"
  m_qosOriginatorStatus :: "mac48 \<times> octet \<rightharpoonup> originator_rx_status"

definition mac_rx_middle_init :: mac_rx_middle where
  "mac_rx_middle_init = \<lparr>m_originatorStatus = Map.empty, m_qosOriginatorStatus = Map.empty\<rparr>"

text \<open>
  \<open>Lookup\<close> returns a pointer to the status; here it returns the key under which the status is kept, and
  \<open>status\<close> and \<open>set_status\<close> read and write through it.
\<close>

fun status :: "rx_key \<Rightarrow> mac_rx_middle \<Rightarrow> originator_rx_status option" where
  "status (Plain a) r = m_originatorStatus r a"
| "status (Qos a tid) r = m_qosOriginatorStatus r (a, tid)"

fun set_status :: "rx_key \<Rightarrow> originator_rx_status \<Rightarrow> mac_rx_middle \<Rightarrow> mac_rx_middle" where
  "set_status (Plain a) s r = r\<lparr>m_originatorStatus := (m_originatorStatus r)(a \<mapsto> s)\<rparr>"
| "set_status (Qos a tid) s r = r\<lparr>m_qosOriginatorStatus := (m_qosOriginatorStatus r)((a, tid) \<mapsto> s)\<rparr>"

definition rx_key_of :: "WifiMacHeader \<Rightarrow> rx_key" where
  "rx_key_of hdr = (if IsQosData hdr \<and> \<not> IsGroup (m_addr2 hdr) then Qos (m_addr2 hdr) (m_qosTid hdr) else Plain (m_addr2 hdr))"

definition Lookup :: "WifiMacHeader \<Rightarrow> mac_rx_middle \<Rightarrow> rx_key \<times> originator_rx_status \<times> mac_rx_middle" where
  "Lookup hdr r =
     (let k = rx_key_of hdr in
      case status k r of
        Some s \<Rightarrow> (k, s, r)
      | None \<Rightarrow> (k, OriginatorRxStatus, set_status k OriginatorRxStatus r))"

definition IsDuplicate :: "WifiMacHeader \<Rightarrow> originator_rx_status \<Rightarrow> bool" where
  "IsDuplicate hdr s \<longleftrightarrow> IsRetry hdr \<and> m_lastSequenceControl s = GetSequenceControl hdr"

definition HandleFragments ::
  "octet list \<Rightarrow> WifiMacHeader \<Rightarrow> originator_rx_status \<Rightarrow> (octet list option \<times> originator_rx_status) option" where
  "HandleFragments packet hdr s =
     (if m_defragmenting s
      then if IsMoreFragments hdr
        then if IsNextFragment (GetSequenceControl hdr) s
          then do {
            s \<leftarrow> AccumulateFragment packet s;
            Some (None, SetLastSequenceControl (GetSequenceControl hdr) s)
          }
          else Some (None, s)
        else if IsNextFragment (GetSequenceControl hdr) s
          then do {
            (p, s) \<leftarrow> AccumulateLastFragment packet s;
            Some (Some p, SetLastSequenceControl (GetSequenceControl hdr) s)
          }
          else Some (None, s)
      else if IsMoreFragments hdr
        then do {
          s \<leftarrow> AccumulateFirstFragment packet s;
          Some (None, SetLastSequenceControl (GetSequenceControl hdr) s)
        }
        else Some (Some packet, s))"

text \<open>The frame that is forwarded, if any.\<close>

definition MacRxMiddle_Receive :: "wifi_frame \<Rightarrow> mac_rx_middle \<Rightarrow> (wifi_frame option \<times> mac_rx_middle) option" where
  "MacRxMiddle_Receive mpdu r =
     (let hdr = snd mpdu in
      if IsData hdr \<or> IsMgt hdr
      then let (k, s, r) = Lookup hdr r in
        if IsDuplicate hdr s then Some (None, r)
        else do {
          (aggregate, s) \<leftarrow> HandleFragments (fst mpdu) hdr s;
          case aggregate of
            None \<Rightarrow> Some (None, set_status k s r)
          | Some p \<Rightarrow>
              let s = (if IsGroup (m_addr1 hdr) then s else SetLastSequenceControl (GetSequenceControl hdr) s)
              in Some (Some (p, hdr), set_status k s r)
        }
      else None)"

end
