(* ===== verification/Wifi_Middle_Inv.thy ===== *)
theory Wifi_Middle_Inv
  imports Wifi_Mac_Middle
begin

text \<open>
  The fragments that a sender makes of a frame, and what the receiver's status of one originator does
  with them.
\<close>

subsection \<open>Sequence control\<close>

lemma sequence_control_parts:
  assumes "m_seqSeq h < 4096" and "m_seqFrag h < 16"
  shows "drop_bit 4 (GetSequenceControl h) = m_seqSeq h" and "GetSequenceControl h AND 0x0f = ucast (m_seqFrag h)"
proof -
  have sq: "\<not> bit (m_seqSeq h) n" if "12 \<le> n" for n
    using that assms(1) no_high_bits [of "m_seqSeq h" 12] by (simp add: word_less_nat_alt)
  have fr: "\<not> bit (m_seqFrag h) n" if "4 \<le> n" for n using octet_high(1) [OF assms(2) that] .
  show "drop_bit 4 (GetSequenceControl h) = m_seqSeq h"
  proof (rule bit_word_eqI)
    fix n assume "n < LENGTH(16)"
    then show "bit (drop_bit 4 (GetSequenceControl h)) n = bit (m_seqSeq h) n"
      using sq [of n] fr [of "4 + n"] by (cases "12 \<le> n") (auto simp: GetSequenceControl_def bit_simps)
  qed
  have m: "(0x0f :: 16 word) = mask 4" by (simp add: mask_eq_exp_minus_1)
  show "GetSequenceControl h AND 0x0f = ucast (m_seqFrag h)"
    unfolding m
  proof (rule bit_word_eqI)
    fix n assume "n < LENGTH(16)"
    then show "bit (GetSequenceControl h AND mask 4) n = bit (ucast (m_seqFrag h) :: 16 word) n"
      using fr [of n] by (cases "4 \<le> n") (auto simp: GetSequenceControl_def bit_simps)
  qed
qed

text \<open>The sequence control determines its two parts.\<close>

lemma sequence_control_eq:
  assumes "m_seqSeq h < 4096" "m_seqFrag h < 16" "m_seqSeq g < 4096" "m_seqFrag g < 16"
  shows "GetSequenceControl h = GetSequenceControl g \<longleftrightarrow> m_seqSeq h = m_seqSeq g \<and> m_seqFrag h = m_seqFrag g"
proof
  assume e: "GetSequenceControl h = GetSequenceControl g"
  then have "m_seqSeq h = m_seqSeq g" using sequence_control_parts(1) [OF assms(1,2)] sequence_control_parts(1) [OF assms(3,4)] by simp
  moreover have "ucast (m_seqFrag h) = (ucast (m_seqFrag g) :: 16 word)"
    using e sequence_control_parts(2) [OF assms(1,2)] sequence_control_parts(2) [OF assms(3,4)] by simp
  then have "m_seqFrag h = m_seqFrag g"
    using unsigned_less [of "m_seqFrag h", where 'a = nat] unsigned_less [of "m_seqFrag g", where 'a = nat]
    by (simp add: word_unat_eq_iff unsigned_ucast_eq take_bit_nat_eq_self)
  ultimately show "m_seqSeq h = m_seqSeq g \<and> m_seqFrag h = m_seqFrag g" by simp
qed (simp add: GetSequenceControl_def)

subsection \<open>The fragments of a frame\<close>

lemma header_size: "unat (WifiMacHeader_GetSize h) \<le> 32"
  by (simp add: WifiMacHeader_GetSize_def)

text \<open>The fragments that are sent one after the other, each when the one before has been acknowledged; \<open>None\<close> when the fuel is used up.\<close>

fun next_fragments :: "nat \<Rightarrow> octet list option \<Rightarrow> wifi_frame \<Rightarrow> wifi_frame list option" where
  "next_fragments 0 full m = None"
| "next_fragments (Suc n) full m =
     (if IsMoreFragments (snd m)
      then do {
        m' \<leftarrow> GetNextFragment full m;
        ms \<leftarrow> next_fragments n full m';
        Some (m # ms)
      }
      else Some [m])"

definition transmitted :: "nat \<Rightarrow> 32 word \<Rightarrow> wifi_frame \<Rightarrow> wifi_frame list option" where
  "transmitted fuel threshold m =
     do {
       (f, full) \<leftarrow> GetFirstFragmentIfNeeded threshold m None;
       next_fragments fuel full f
     }"

text \<open>A data or management frame to one station, not yet fragmented, that fits into sixteen fragments.\<close>

definition payload_size :: "32 word \<Rightarrow> wifi_frame \<Rightarrow> nat" where
  "payload_size threshold m = unat threshold - unat (WifiMacHeader_GetSize (snd m)) - 4"

definition sendable :: "32 word \<Rightarrow> wifi_frame \<Rightarrow> bool" where
  "sendable threshold m \<longleftrightarrow> (IsData (snd m) \<or> IsMgt (snd m)) \<and> \<not> IsGroup (m_addr1 (snd m)) \<and> \<not> IsFragment m \<and>
     m_ctrlMoreFrag (snd m) = 0 \<and> m_seqSeq (snd m) < 4096 \<and> 256 \<le> unat threshold \<and>
     length (fst m) < 65536 \<and> length (fst m) \<le> 16 * payload_size threshold m"

definition nth_fragment :: "32 word \<Rightarrow> wifi_frame \<Rightarrow> nat \<Rightarrow> wifi_frame" where
  "nth_fragment threshold m i =
     (let k = payload_size threshold m in
      (take k (drop (i * k) (fst m)),
       (snd m)\<lparr>m_seqFrag := of_nat i, m_ctrlMoreFrag := (if Suc i * k < length (fst m) then 1 else 0)\<rparr>))"

definition number_of_fragments :: "32 word \<Rightarrow> wifi_frame \<Rightarrow> nat" where
  "number_of_fragments threshold m =
     max 1 ((length (fst m) + payload_size threshold m - 1) div payload_size threshold m)"

lemma payload_size_ok:
  assumes "256 \<le> unat threshold"
  shows "220 \<le> payload_size threshold m" and "unat (wifi_fragment_size threshold m) = payload_size threshold m"
proof -
  show "220 \<le> payload_size threshold m" using header_size [of "snd m"] assms by (simp add: payload_size_def)
  have "unat (threshold - WifiMacHeader_GetSize (snd m)) = unat threshold - unat (WifiMacHeader_GetSize (snd m))"
    using header_size [of "snd m"] assms by (intro unat_minus) linarith
  moreover have "unat (ucast WIFI_MAC_FCS_LENGTH :: 32 word) = 4" by (simp add: WIFI_MAC_FCS_LENGTH_def)
  ultimately show "unat (wifi_fragment_size threshold m) = payload_size threshold m"
    unfolding wifi_fragment_size_def payload_size_def using header_size [of "snd m"] assms by (subst unat_minus) linarith+
qed

lemma NeedFragmentation_iff:
  assumes "sendable threshold m"
  shows "NeedFragmentation threshold m \<longleftrightarrow> payload_size threshold m < length (fst m)"
proof -
  note s = assms [unfolded sendable_def]
  have l: "unat (packet_GetSize (fst m)) = length (fst m)" using s by (simp add: packet_GetSize_small)
  have "unat (packet_GetSize (fst m) + WifiMacHeader_GetSize (snd m)) = length (fst m) + unat (WifiMacHeader_GetSize (snd m))"
    using s header_size [of "snd m"] by (subst unat_plus) (simp_all add: l)
  then have "unat (WifiMpdu_GetSize m) = length (fst m) + unat (WifiMacHeader_GetSize (snd m)) + 4"
    using s header_size [of "snd m"] unfolding WifiMpdu_GetSize_def
    by (subst unat_plus) (simp_all add: WIFI_MAC_FCS_LENGTH_def)
  moreover have "unat (WifiMacHeader_GetSize (snd m)) + 4 \<le> unat threshold" using s header_size [of "snd m"] by linarith
  ultimately show ?thesis using s by (auto simp: NeedFragmentation_def word_less_nat_alt payload_size_def)
qed

lemma first_fragment:
  assumes s: "sendable threshold m" and big: "payload_size threshold m < length (fst m)"
  shows "GetFirstFragmentIfNeeded threshold m None = Some (nth_fragment threshold m 0, Some (fst m))"
proof -
  note sd = s [unfolded sendable_def]
  let ?k = "payload_size threshold m" and ?w = "wifi_fragment_size threshold m" and ?L = "length (fst m)"
  have k: "0 < ?k" "unat ?w = ?k" using payload_size_ok [of threshold m] sd by simp_all
  have l: "unat (packet_GetSize (fst m)) = ?L" using sd by (simp add: packet_GetSize_small)
  have q: "unat (packet_GetSize (fst m) div ?w) = ?L div ?k" "unat (packet_GetSize (fst m) mod ?w) = ?L mod ?k"
    by (simp_all add: unat_div_distrib unat_mod_distrib l k(2))
  have dk: "?L div ?k < 65536" using sd div_le_dividend [of ?L ?k] by linarith
  have n: "unat (GetNFragments threshold m) = ?L div ?k + (if ?L mod ?k > 0 then 1 else 0)"
  proof -
    have "unat (packet_GetSize (fst m) div ?w + 1) = ?L div ?k + 1" using dk by (subst unat_plus) (simp_all add: q(1))
    then show ?thesis using q by (simp add: GetNFragments_def Let_def word_less_nat_alt)
  qed
  have one: "1 \<le> ?L div ?k" using big k(1) div_le_mono [of ?k ?L ?k] by simp
  have "2 \<le> unat (GetNFragments threshold m)"
  proof (cases "?L mod ?k > 0")
    case True
    then show ?thesis using n one by simp
  next
    case False
    then have "?L = ?L div ?k * ?k" using div_mult_mod_eq [of ?L ?k] by simp
    with big have "?L div ?k \<noteq> 1" by auto
    with False n one show ?thesis by simp
  qed
  moreover from this have "unat (GetNFragments threshold m - 1) = unat (GetNFragments threshold m) - 1"
    by (subst unat_minus) simp_all
  ultimately have "GetFragmentSize threshold m 0 = Some ?w"
    using sd by (auto simp: GetFragmentSize_def Let_def word_le_nat_alt simp flip: unat_eq_0)
  moreover have "Packet_CreateFragment 0 ?w (fst m) = Some (take ?k (fst m))"
    using Packet_CreateFragment_ok [of 0 ?w "fst m"] big sd k(2) by simp
  moreover have "WifiMacHeader_SetMoreFragments (snd m) = snd (nth_fragment threshold m 0)"
  proof -
    have "m_seqFrag (snd m) = 0" using sd by (auto simp: IsFragment_def word_less_nat_alt simp flip: unat_eq_0)
    then show ?thesis using big by (cases "snd m") (simp add: WifiMacHeader_SetMoreFragments_def nth_fragment_def Let_def)
  qed
  ultimately show ?thesis using sd NeedFragmentation_iff [OF s] big
    by (simp add: GetFirstFragmentIfNeeded_def nth_fragment_def Let_def)
qed

lemma next_fragment:
  assumes s: "sendable threshold m" and i: "Suc i * payload_size threshold m < length (fst m)"
  shows "GetNextFragment (Some (fst m)) (nth_fragment threshold m i) = Some (nth_fragment threshold m (Suc i))"
proof -
  note sd = s [unfolded sendable_def]
  let ?k = "payload_size threshold m" and ?L = "length (fst m)" and ?f = "nth_fragment threshold m i"
  have k: "0 < ?k" using payload_size_ok(1) [of threshold m] sd by simp
  have i15: "Suc i < 16"
  proof (rule ccontr)
    assume "\<not> Suc i < 16"
    then have "16 * ?k \<le> Suc i * ?k" by (intro mult_le_mono1) simp
    with i sd show False by linarith
  qed
  have more: "IsMoreFragments (snd ?f)" using i by (simp add: nth_fragment_def Let_def IsMoreFragments_def)
  have "i * ?k + ?k \<le> ?L" using i by simp
  then have lf: "length (fst ?f) = ?k" by (simp add: nth_fragment_def Let_def)
  then have pf: "packet_GetSize (fst ?f) = of_nat ?k" by (simp add: packet_GetSize_def)
  have kl: "?k < 65536" using i sd by simp
  define n :: octet where "n = of_nat i + 1"
  have n: "unat n = Suc i" using i15 by (simp add: n_def unat_word_ariths unsigned_of_nat take_bit_nat_eq_self)
  have "of_nat (unat n) = n" by simp
  then have no: "n = of_nat (Suc i)" unfolding n by (rule sym)
  have so: "unat (ucast n * packet_GetSize (fst ?f) :: 32 word) = Suc i * ?k"
  proof -
    have "unat (ucast n :: 32 word) = Suc i" using n i15 by (simp add: unsigned_ucast_eq take_bit_nat_eq_self)
    moreover have "unat (packet_GetSize (fst ?f)) = ?k" using kl lf by (simp add: packet_GetSize_small)
    moreover have "Suc i * ?k < 65536" using sd less_trans [OF i, of 65536] by simp
    ultimately show ?thesis by (simp add: unat_word_ariths)
  qed
  let ?o = "ucast n * packet_GetSize (fst ?f) :: 32 word"
  let ?z = "packet_GetSize (fst m) - ?o"
  have l: "unat (packet_GetSize (fst m)) = ?L" using sd by (simp add: packet_GetSize_small)
  have z: "unat ?z = ?L - Suc i * ?k" using i by (subst unat_minus) (simp_all only: l so)
  have big: "?z > packet_GetSize (fst ?f) \<longleftrightarrow> Suc (Suc i) * ?k < ?L"
    using kl lf i by (auto simp: word_less_nat_alt z packet_GetSize_small)
  have hdr: "SetFragmentNumber (m_seqFrag (snd ?f) + 1) (snd ?f) = (snd ?f)\<lparr>m_seqFrag := n\<rparr>"
    by (simp add: SetFragmentNumber_def n_def nth_fragment_def Let_def)
  have p: "packet_GetSize (fst ?f) = of_nat ?k" by (rule pf)
  show ?thesis
  proof (cases "Suc (Suc i) * ?k < ?L")
    case True
    have "Packet_CreateFragment ?o (packet_GetSize (fst ?f)) (fst m) = Some (take ?k (drop (Suc i * ?k) (fst m)))"
      using True kl lf sd by (subst Packet_CreateFragment_ok) (simp_all add: so packet_GetSize_small)
    moreover have "WifiMacHeader_SetMoreFragments ((snd ?f)\<lparr>m_seqFrag := n\<rparr>) = snd (nth_fragment threshold m (Suc i))"
      using True by (cases "snd m") (simp add: WifiMacHeader_SetMoreFragments_def nth_fragment_def Let_def no)
    ultimately show ?thesis using more big True
      by (simp add: GetNextFragment_def hdr Let_def) (simp add: nth_fragment_def Let_def)
  next
    case False
    have "Packet_CreateFragment ?o ?z (fst m) = Some (drop (Suc i * ?k) (fst m))"
      using i sd by (subst Packet_CreateFragment_rest) (simp_all add: so)
    moreover have "drop (Suc i * ?k) (fst m) = take ?k (drop (Suc i * ?k) (fst m))" using False by simp
    moreover have "WifiMacHeader_SetNoMoreFragments ((snd ?f)\<lparr>m_seqFrag := n\<rparr>) = snd (nth_fragment threshold m (Suc i))"
      using False by (cases "snd m") (simp add: WifiMacHeader_SetNoMoreFragments_def nth_fragment_def Let_def no)
    ultimately show ?thesis using more big False
      by (simp add: GetNextFragment_def hdr Let_def) (simp add: nth_fragment_def Let_def)
  qed
qed

lemma less_number_of_fragments:
  assumes "256 \<le> unat threshold"
  shows "i < number_of_fragments threshold m \<longleftrightarrow> i = 0 \<or> i * payload_size threshold m < length (fst m)"
proof -
  let ?k = "payload_size threshold m" and ?L = "length (fst m)"
  have k: "0 < ?k" using payload_size_ok(1) [OF assms, of m] by simp
  have "i < (?L + ?k - 1) div ?k \<longleftrightarrow> Suc i * ?k \<le> ?L + ?k - 1"
    using less_eq_div_iff_mult_less_eq [OF k, of "Suc i"] by (simp only: Suc_le_eq)
  also have "\<dots> \<longleftrightarrow> i * ?k < ?L" using k by (auto simp: algebra_simps)
  finally show ?thesis by (auto simp: number_of_fragments_def less_max_iff_disj)
qed

lemma number_of_fragments_16:
  assumes "sendable threshold m"
  shows "number_of_fragments threshold m \<le> 16"
  using assms less_number_of_fragments [of threshold 16 m] by (fastforce simp: sendable_def not_less)

lemma next_fragments_all:
  assumes s: "sendable threshold m"
  shows "\<lbrakk>i < number_of_fragments threshold m; number_of_fragments threshold m \<le> n + i\<rbrakk> \<Longrightarrow>
    next_fragments n (Some (fst m)) (nth_fragment threshold m i) =
      Some (map (nth_fragment threshold m) [i..<number_of_fragments threshold m])"
proof (induction n arbitrary: i)
  case (Suc n)
  have t: "256 \<le> unat threshold" using s by (simp add: sendable_def)
  have more: "IsMoreFragments (snd (nth_fragment threshold m i)) \<longleftrightarrow> Suc i < number_of_fragments threshold m"
    by (simp add: less_number_of_fragments [OF t] nth_fragment_def Let_def IsMoreFragments_def)
  show ?case
  proof (cases "Suc i < number_of_fragments threshold m")
    case True
    then have "Suc i * payload_size threshold m < length (fst m)" using less_number_of_fragments [OF t, of "Suc i" m] by simp
    with True show ?thesis using Suc.IH [of "Suc i"] Suc.prems more next_fragment [OF s]
      by (simp add: upt_conv_Cons)
  next
    case False
    then have "[i..<number_of_fragments threshold m] = [i]" using Suc.prems by (simp add: upt_conv_Cons)
    with False more show ?thesis by simp
  qed
qed simp

lemma only_fragment:
  assumes s: "sendable threshold m" and small: "length (fst m) \<le> payload_size threshold m"
  shows "nth_fragment threshold m 0 = m"
proof -
  have "m_seqFrag (snd m) = 0" "m_ctrlMoreFrag (snd m) = 0"
    using s by (auto simp: sendable_def IsFragment_def word_less_nat_alt simp flip: unat_eq_0)
  then show ?thesis using small by (cases m) (simp add: nth_fragment_def Let_def)
qed

text \<open>A frame is sent as its fragments, in order.\<close>

lemma transmitted_fragments:
  assumes s: "sendable threshold m"
  shows "transmitted 16 threshold m = Some (map (nth_fragment threshold m) [0..<number_of_fragments threshold m])"
proof -
  have t: "256 \<le> unat threshold" using s by (simp add: sendable_def)
  have pos: "0 < number_of_fragments threshold m" by (simp add: number_of_fragments_def)
  show ?thesis
  proof (cases "payload_size threshold m < length (fst m)")
    case True
    then show ?thesis using next_fragments_all [OF s pos, of 16] number_of_fragments_16 [OF s] first_fragment [OF s]
      by (simp add: transmitted_def)
  next
    case False
    have "\<not> Suc 0 < number_of_fragments threshold m" using False less_number_of_fragments [OF t, of "Suc 0" m] by simp
    then have "number_of_fragments threshold m = 1" using pos by linarith
    moreover have "GetFirstFragmentIfNeeded threshold m None = Some (m, None)"
      using s False NeedFragmentation_iff [OF s] by (simp add: GetFirstFragmentIfNeeded_def sendable_def)
    moreover have "\<not> IsMoreFragments (snd m)" using s by (simp add: sendable_def IsMoreFragments_def)
    ultimately show ?thesis using only_fragment [OF s] False
      by (simp add: transmitted_def eval_nat_numeral)
  qed
qed

lemma fragments_concat:
  assumes "256 \<le> unat threshold"
  shows "concat (map (\<lambda>i. fst (nth_fragment threshold m i)) [0..<n]) = take (n * payload_size threshold m) (fst m)"
  by (induction n) (simp_all add: nth_fragment_def Let_def add.commute flip: take_add)

lemma fragments_concat_all:
  assumes "256 \<le> unat threshold"
  shows "concat (map (\<lambda>i. fst (nth_fragment threshold m i)) [0..<number_of_fragments threshold m]) = fst m"
proof -
  have "length (fst m) \<le> number_of_fragments threshold m * payload_size threshold m"
    using less_number_of_fragments [OF assms, of "number_of_fragments threshold m" m] by simp
  then show ?thesis by (simp add: fragments_concat [OF assms])
qed

end
