(* ===== verification/Wifi_Middle_Rx.thy ===== *)
theory Wifi_Middle_Rx
  imports Wifi_Middle_Inv
begin

text \<open>
  The receiver: a frame changes the status of its own key only, the status follows the fragments of a
  frame, and copies of a frame that was heard are dropped.
\<close>

subsection \<open>One status at a time\<close>

definition rx_status :: "rx_key \<Rightarrow> mac_rx_middle \<Rightarrow> originator_rx_status" where
  "rx_status k r = (case status k r of Some s \<Rightarrow> s | None \<Rightarrow> OriginatorRxStatus)"

text \<open>What \<open>Receive\<close> does with the status that \<open>Lookup\<close> has found.\<close>

definition status_step :: "wifi_frame \<Rightarrow> originator_rx_status \<Rightarrow> (octet list option \<times> originator_rx_status) option" where
  "status_step m s =
     (if IsDuplicate (snd m) s then Some (None, s)
      else do {
        (aggregate, s) \<leftarrow> HandleFragments (fst m) (snd m) s;
        Some (aggregate,
          if aggregate \<noteq> None \<and> \<not> IsGroup (m_addr1 (snd m))
          then SetLastSequenceControl (GetSequenceControl (snd m)) s else s)
      })"

definition receivable :: "wifi_frame \<Rightarrow> bool" where
  "receivable m \<longleftrightarrow> IsData (snd m) \<or> IsMgt (snd m)"

lemma status_set_status [simp]: "status k' (set_status k s r) = (if k' = k then Some s else status k' r)"
  by (cases k; cases k') auto

lemma set_status_twice [simp]: "set_status k s (set_status k s' r) = set_status k s r"
  by (cases k) simp_all

lemma set_status_same: "status k r = Some s \<Longrightarrow> set_status k s r = r"
  by (cases k) (simp_all add: fun_upd_idem)

lemma rx_status_set_status [simp]: "rx_status k' (set_status k s r) = (if k' = k then s else rx_status k' r)"
  by (simp add: rx_status_def)

lemma Lookup_status:
  "Lookup h r = (rx_key_of h, rx_status (rx_key_of h) r, set_status (rx_key_of h) (rx_status (rx_key_of h) r) r)"
  by (auto simp: Lookup_def rx_status_def Let_def set_status_same split: option.split)

lemma HandleFragments_total: "HandleFragments p h s \<noteq> None"
  by (simp add: HandleFragments_def AccumulateFragment_def AccumulateLastFragment_def AccumulateFirstFragment_def Let_def)

lemma Receive_status:
  assumes "receivable m"
  shows "\<exists>a s. status_step m (rx_status (rx_key_of (snd m)) r) = Some (a, s) \<and>
    MacRxMiddle_Receive m r = Some (map_option (\<lambda>p. (p, snd m)) a, set_status (rx_key_of (snd m)) s r)"
proof -
  obtain a s where h: "HandleFragments (fst m) (snd m) (rx_status (rx_key_of (snd m)) r) = Some (a, s)"
    using HandleFragments_total [of "fst m" "snd m"] by fastforce
  show ?thesis
    using assms h by (cases a) (auto simp: receivable_def MacRxMiddle_Receive_def status_step_def Lookup_status Let_def)
qed

subsection \<open>Sequences of frames\<close>

fun receive_all :: "wifi_frame list \<Rightarrow> mac_rx_middle \<Rightarrow> (wifi_frame list \<times> mac_rx_middle) option" where
  "receive_all [] r = Some ([], r)"
| "receive_all (m # ms) r =
     do {
       (forwarded, r) \<leftarrow> MacRxMiddle_Receive m r;
       (out, r) \<leftarrow> receive_all ms r;
       Some (case forwarded of None \<Rightarrow> out | Some p \<Rightarrow> p # out, r)
     }"

fun status_steps :: "wifi_frame list \<Rightarrow> originator_rx_status \<Rightarrow> (octet list list \<times> originator_rx_status) option" where
  "status_steps [] s = Some ([], s)"
| "status_steps (m # ms) s =
     do {
       (a, s) \<leftarrow> status_step m s;
       (out, s) \<leftarrow> status_steps ms s;
       Some (case a of None \<Rightarrow> out | Some p \<Rightarrow> p # out, s)
     }"

lemma status_steps_append:
  "\<lbrakk>status_steps xs s = Some (a, s1); status_steps ys s1 = Some (b, s2)\<rbrakk> \<Longrightarrow> status_steps (xs @ ys) s = Some (a @ b, s2)"
  by (induction xs arbitrary: s a) (fastforce simp: bind_eq_Some_conv split: option.splits)+

text \<open>The frames with one key, and their payloads.\<close>

abbreviation with_key :: "rx_key \<Rightarrow> wifi_frame list \<Rightarrow> wifi_frame list" where
  "with_key k ms \<equiv> filter (\<lambda>m. rx_key_of (snd m) = k) ms"

lemma receive_all_status:
  assumes "\<forall>m\<in>set ms. receivable m"
  shows "\<exists>out r'. receive_all ms r = Some (out, r') \<and>
    (\<forall>k. status_steps (with_key k ms) (rx_status k r) = Some (map fst (with_key k out), rx_status k r'))"
  using assms
proof (induction ms arbitrary: r)
  case (Cons m ms)
  let ?k = "rx_key_of (snd m)"
  obtain a s where a: "status_step m (rx_status ?k r) = Some (a, s)"
    and r: "MacRxMiddle_Receive m r = Some (map_option (\<lambda>p. (p, snd m)) a, set_status ?k s r)"
    using Receive_status [of m r] Cons.prems by auto
  obtain out r' where o: "receive_all ms (set_status ?k s r) = Some (out, r')"
    and all: "\<forall>k. status_steps (with_key k ms) (rx_status k (set_status ?k s r)) = Some (map fst (with_key k out), rx_status k r')"
    using Cons.IH [of "set_status ?k s r"] Cons.prems by auto
  let ?out = "(case map_option (\<lambda>p. (p, snd m)) a of None \<Rightarrow> out | Some p \<Rightarrow> p # out)"
  have "status_steps (with_key k (m # ms)) (rx_status k r) = Some (map fst (with_key k ?out), rx_status k r')" for k
    using a spec [OF all, of k] by (cases "k = ?k"; cases a) auto
  then show ?case using r o by auto
qed simp

subsection \<open>What is heard of the frames that are sent\<close>

text \<open>Copies of a frame differ in the retry bit and the duration.\<close>

definition copy_of :: "wifi_frame \<Rightarrow> wifi_frame \<Rightarrow> bool" where
  "copy_of f g \<longleftrightarrow> fst g = fst f \<and> (snd g)\<lparr>m_ctrlRetry := 0, m_duration := 0\<rparr> = (snd f)\<lparr>m_ctrlRetry := 0, m_duration := 0\<rparr>"

text \<open>Each frame is heard at least once; what is heard after the first copy is a retry.\<close>

inductive heard :: "wifi_frame list \<Rightarrow> wifi_frame list \<Rightarrow> bool" where
  heard_nil: "heard [] []"
| heard_cons: "\<lbrakk>copy_of f g; \<forall>c\<in>set cs. copy_of f c \<and> IsRetry (snd c); heard fs gs\<rbrakk> \<Longrightarrow> heard (f # fs) (g # cs @ gs)"

inductive_cases heard_nilE: "heard [] gs"
inductive_cases heard_consE: "heard (f # fs) gs"

lemma heard_append: "heard (xs @ ys) gs \<Longrightarrow> \<exists>ga gb. gs = ga @ gb \<and> heard xs ga \<and> heard ys gb"
proof (induction xs arbitrary: gs)
  case Nil
  then show ?case using heard_nil by fastforce
next
  case (Cons x xs)
  then obtain g cs gs' where g: "gs = g # cs @ gs'" "copy_of x g" "\<forall>c\<in>set cs. copy_of x c \<and> IsRetry (snd c)" "heard (xs @ ys) gs'"
    by (auto elim: heard_consE)
  obtain ga gb where "gs' = ga @ gb" "heard xs ga" "heard ys gb" using Cons.IH [OF g(4)] by blast
  then have "gs = (g # cs @ ga) @ gb" "heard (x # xs) (g # cs @ ga)" "heard ys gb"
    using g heard_cons [of x g cs xs ga] by auto
  then show ?case by blast
qed

lemma copy_of_header:
  assumes "copy_of f g"
  shows "fst g = fst f" "GetSequenceControl (snd g) = GetSequenceControl (snd f)" "m_addr1 (snd g) = m_addr1 (snd f)"
    "IsMoreFragments (snd g) = IsMoreFragments (snd f)" "rx_key_of (snd g) = rx_key_of (snd f)" "receivable g = receivable f"
proof -
  have p: "fst g = fst f" and e: "(snd g)\<lparr>m_ctrlRetry := 0, m_duration := 0\<rparr> = (snd f)\<lparr>m_ctrlRetry := 0, m_duration := 0\<rparr>"
    using assms by (simp_all add: copy_of_def)
  show "fst g = fst f" by (rule p)
  obtain pf hf pg hg where fg: "f = (pf, hf)" "g = (pg, hg)" by (cases f; cases g)
  have "\<exists>x y. hg = hf\<lparr>m_ctrlRetry := x, m_duration := y\<rparr>"
    using e unfolding fg by (cases hf; cases hg) auto
  then obtain x y where "snd g = (snd f)\<lparr>m_ctrlRetry := x, m_duration := y\<rparr>" unfolding fg by auto
  then show "GetSequenceControl (snd g) = GetSequenceControl (snd f)" "m_addr1 (snd g) = m_addr1 (snd f)"
    "IsMoreFragments (snd g) = IsMoreFragments (snd f)" "rx_key_of (snd g) = rx_key_of (snd f)" "receivable g = receivable f"
    by (simp_all add: GetSequenceControl_def IsMoreFragments_def rx_key_of_def receivable_def IsQosData_def IsData_def IsMgt_def)
qed

end
