(* ===== verification/Wifi_Middle_Run.thy ===== *)
theory Wifi_Middle_Run
  imports Wifi_Middle_Rx
begin

text \<open>
  The receiver's status along the fragments of one frame, along several frames, and the numbers that the
  sender gives to consecutive frames.
\<close>

subsection \<open>The fragments of one frame\<close>

text \<open>The status after fragment \<open>i\<close>.\<close>

definition after_fragment :: "32 word \<Rightarrow> wifi_frame \<Rightarrow> nat \<Rightarrow> originator_rx_status" where
  "after_fragment threshold m i =
     (let more = (Suc i < number_of_fragments threshold m)
      in \<lparr>m_defragmenting = more,
          m_lastSequenceControl = GetSequenceControl (snd (nth_fragment threshold m i)),
          rx_fragments = (if more then map (\<lambda>j. fst (nth_fragment threshold m j)) [0..<Suc i] else [])\<rparr>)"

definition ready :: "originator_rx_status \<Rightarrow> bool" where
  "ready s \<longleftrightarrow> \<not> m_defragmenting s \<and> rx_fragments s = []"

lemma fragment_header:
  "m_seqSeq (snd (nth_fragment threshold m i)) = m_seqSeq (snd m)"
  "m_seqFrag (snd (nth_fragment threshold m i)) = of_nat i"
  "m_addr1 (snd (nth_fragment threshold m i)) = m_addr1 (snd m)"
  "rx_key_of (snd (nth_fragment threshold m i)) = rx_key_of (snd m)"
  "receivable (nth_fragment threshold m i) = receivable m"
  by (simp_all add: nth_fragment_def Let_def rx_key_of_def receivable_def IsQosData_def IsData_def IsMgt_def)

lemma fragment_more:
  assumes "sendable threshold m"
  shows "IsMoreFragments (snd (nth_fragment threshold m i)) \<longleftrightarrow> Suc i < number_of_fragments threshold m"
  using less_number_of_fragments [of threshold "Suc i" m] assms
  by (auto simp: sendable_def nth_fragment_def Let_def IsMoreFragments_def)

lemma fragment_control:
  assumes s: "sendable threshold m" and i: "i < number_of_fragments threshold m"
  defines "sc \<equiv> GetSequenceControl (snd (nth_fragment threshold m i))"
  shows "drop_bit 4 sc = m_seqSeq (snd m)" and "uint (sc AND 0x0f) = int i" and "(of_nat i :: octet) < 16"
proof -
  have i16: "i < 16" using i number_of_fragments_16 [OF s] by simp
  then show f: "(of_nat i :: octet) < 16" by (simp add: word_less_nat_alt unsigned_of_nat take_bit_nat_eq_self)
  have q: "m_seqSeq (snd m) < 4096" using s by (simp add: sendable_def)
  show "drop_bit 4 sc = m_seqSeq (snd m)" unfolding sc_def using sequence_control_parts(1) q f by (simp add: fragment_header)
  have "sc AND 0x0f = ucast (of_nat i :: octet)" unfolding sc_def using sequence_control_parts(2) q f by (simp add: fragment_header)
  then show "uint (sc AND 0x0f) = int i" using i16
    by (simp add: unsigned_ucast_eq unsigned_of_nat take_bit_nat_eq_self take_bit_int_eq_self)
qed

lemma copy_is_duplicate:
  assumes "copy_of (nth_fragment threshold m i) c" "IsRetry (snd c)"
  shows "status_step c (after_fragment threshold m i) = Some (None, after_fragment threshold m i)"
  using assms copy_of_header(2) [OF assms(1)] by (simp add: status_step_def IsDuplicate_def after_fragment_def Let_def)

lemma copies_are_duplicates:
  "\<forall>c\<in>set cs. copy_of (nth_fragment threshold m i) c \<and> IsRetry (snd c) \<Longrightarrow>
    status_steps cs (after_fragment threshold m i) = Some ([], after_fragment threshold m i)"
  by (induction cs) (auto simp: copy_is_duplicate)

text \<open>The first fragment.\<close>

lemma first_fragment_step:
  assumes s: "sendable threshold m" and r: "ready st"
    and new: "m_lastSequenceControl st \<noteq> GetSequenceControl (snd (nth_fragment threshold m 0))"
    and c: "copy_of (nth_fragment threshold m 0) g"
  shows "status_step g st =
    Some (if number_of_fragments threshold m = 1 then Some (fst m) else None, after_fragment threshold m 0)"
proof -
  note h = copy_of_header [OF c]
  have one: "number_of_fragments threshold m = 1 \<longleftrightarrow> \<not> Suc 0 < number_of_fragments threshold m"
    by (auto simp: number_of_fragments_def)
  have "fst (nth_fragment threshold m 0) = fst m" if "number_of_fragments threshold m = 1"
    using fragments_concat_all [of threshold m] s that by (simp add: sendable_def)
  moreover have "\<not> IsGroup (m_addr1 (snd m))" using s by (simp add: sendable_def)
  ultimately show ?thesis using new r one fragment_more [OF s, of 0]
    by (cases st) (auto simp: status_step_def IsDuplicate_def HandleFragments_def h fragment_header ready_def
      AccumulateFirstFragment_def SetLastSequenceControl_def after_fragment_def)
qed

text \<open>A fragment after the one that was heard last.\<close>

lemma next_fragment_step:
  assumes s: "sendable threshold m" and i: "Suc i < number_of_fragments threshold m"
    and c: "copy_of (nth_fragment threshold m (Suc i)) g"
  shows "status_step g (after_fragment threshold m i) =
    Some (if Suc (Suc i) = number_of_fragments threshold m then Some (fst m) else None, after_fragment threshold m (Suc i))"
proof -
  note h = copy_of_header [OF c]
  let ?N = "number_of_fragments threshold m" and ?sc = "\<lambda>i. GetSequenceControl (snd (nth_fragment threshold m i))"
  have i': "i < ?N" using i by simp
  have nx: "IsNextFragment (?sc (Suc i)) (after_fragment threshold m i)"
    using fragment_control [OF s i] fragment_control [OF s i'] by (simp add: IsNextFragment_def after_fragment_def Let_def)
  then have nd: "\<not> IsDuplicate (snd g) (after_fragment threshold m i)"
    by (auto simp: IsDuplicate_def h IsNextFragment_def)
  have df: "m_defragmenting (after_fragment threshold m i)" using i by (simp add: after_fragment_def)
  show ?thesis
  proof (cases "Suc (Suc i) < ?N")
    case True
    have "HandleFragments (fst g) (snd g) (after_fragment threshold m i) = Some (None, after_fragment threshold m (Suc i))"
      using nx df True fragment_more [OF s, of "Suc i"]
      by (simp add: HandleFragments_def h AccumulateFragment_def SetLastSequenceControl_def)
        (simp add: after_fragment_def)
    then show ?thesis using nd True by (simp add: status_step_def)
  next
    case False
    then have N: "?N = Suc (Suc i)" using i by simp
    have "256 \<le> unat threshold" using s by (simp add: sendable_def)
    note full = fragments_concat_all [OF this, of m, unfolded N]
    have "AccumulateLastFragment (fst (nth_fragment threshold m (Suc i))) (after_fragment threshold m i) =
        Some (fst m, (after_fragment threshold m i)\<lparr>m_defragmenting := False, rx_fragments := []\<rparr>)"
      using df full by (simp add: AccumulateLastFragment_def after_fragment_def N)
    then have "HandleFragments (fst g) (snd g) (after_fragment threshold m i) = Some (Some (fst m), after_fragment threshold m (Suc i))"
      using nx df False fragment_more [OF s, of "Suc i"]
      by (simp add: HandleFragments_def h SetLastSequenceControl_def) (simp add: after_fragment_def N)
    moreover have "SetLastSequenceControl (GetSequenceControl (snd g)) (after_fragment threshold m (Suc i)) = after_fragment threshold m (Suc i)"
      by (simp add: h SetLastSequenceControl_def after_fragment_def Let_def)
    ultimately show ?thesis using nd N by (simp add: status_step_def)
  qed
qed

lemma later_fragments:
  assumes s: "sendable threshold m"
  shows "\<lbrakk>n + Suc i = number_of_fragments threshold m;
     heard (map (nth_fragment threshold m) [Suc i..<number_of_fragments threshold m]) gs\<rbrakk> \<Longrightarrow>
   status_steps gs (after_fragment threshold m i) =
     Some (if n = 0 then [] else [fst m], after_fragment threshold m (number_of_fragments threshold m - 1))"
proof (induction n arbitrary: i gs)
  case 0
  then have "number_of_fragments threshold m - 1 = i" "heard [] gs" by simp_all
  moreover from this(2) have "gs = []" by (rule heard_nilE)
  ultimately show ?case by simp
next
  case (Suc n)
  let ?N = "number_of_fragments threshold m"
  have i: "Suc i < ?N" using Suc.prems(1) by simp
  with Suc.prems(2) have "heard (nth_fragment threshold m (Suc i) # map (nth_fragment threshold m) [Suc (Suc i)..<?N]) gs"
    by (simp add: upt_conv_Cons)
  then obtain g cs gs' where gs: "gs = g # cs @ gs'" and g: "copy_of (nth_fragment threshold m (Suc i)) g"
    and cs: "\<forall>c\<in>set cs. copy_of (nth_fragment threshold m (Suc i)) c \<and> IsRetry (snd c)"
    and gs': "heard (map (nth_fragment threshold m) [Suc (Suc i)..<?N]) gs'" by (rule heard_consE)
  have "status_steps gs' (after_fragment threshold m (Suc i)) =
      Some (if n = 0 then [] else [fst m], after_fragment threshold m (?N - 1))"
    using Suc.IH [of "Suc i" gs'] Suc.prems(1) gs' by simp
  then have "status_steps (cs @ gs') (after_fragment threshold m (Suc i)) =
      Some ([] @ (if n = 0 then [] else [fst m]), after_fragment threshold m (?N - 1))"
    by (rule status_steps_append [OF copies_are_duplicates [OF cs]])
  moreover have "Suc (Suc i) = ?N \<longleftrightarrow> n = 0" using Suc.prems(1) by auto
  ultimately show ?case using next_fragment_step [OF s i g] by (simp add: gs)
qed

text \<open>The whole frame: one payload is forwarded.\<close>

lemma heard_frame:
  assumes s: "sendable threshold m" and r: "ready st"
    and new: "m_lastSequenceControl st \<noteq> GetSequenceControl (snd (nth_fragment threshold m 0))"
    and gs: "heard (map (nth_fragment threshold m) [0..<number_of_fragments threshold m]) gs"
  shows "status_steps gs st = Some ([fst m], after_fragment threshold m (number_of_fragments threshold m - 1))"
proof -
  let ?N = "number_of_fragments threshold m"
  have N: "0 < ?N" by (simp add: number_of_fragments_def)
  then have "heard (nth_fragment threshold m 0 # map (nth_fragment threshold m) [Suc 0..<?N]) gs"
    using gs by (simp add: upt_conv_Cons)
  then obtain g cs gs' where e: "gs = g # cs @ gs'" and g: "copy_of (nth_fragment threshold m 0) g"
    and cs: "\<forall>c\<in>set cs. copy_of (nth_fragment threshold m 0) c \<and> IsRetry (snd c)"
    and gs': "heard (map (nth_fragment threshold m) [Suc 0..<?N]) gs'" by (rule heard_consE)
  have "status_steps gs' (after_fragment threshold m 0) =
      Some (if ?N - 1 = 0 then [] else [fst m], after_fragment threshold m (?N - 1))"
    using N gs' by (intro later_fragments [OF s]) simp_all
  then have "status_steps (cs @ gs') (after_fragment threshold m 0) =
      Some ([] @ (if ?N - 1 = 0 then [] else [fst m]), after_fragment threshold m (?N - 1))"
    by (rule status_steps_append [OF copies_are_duplicates [OF cs]])
  moreover have "?N = 1 \<longleftrightarrow> ?N - 1 = 0" using N by auto
  ultimately show ?thesis using first_fragment_step [OF s r new g] by (simp add: e)
qed

lemma ready_after_frame: "ready (after_fragment threshold m (number_of_fragments threshold m - 1))"
  by (simp add: ready_def after_fragment_def Let_def)

subsection \<open>Several frames\<close>

text \<open>The frames are sent one after the other.\<close>

fun transmit_all :: "32 word \<Rightarrow> wifi_frame list \<Rightarrow> wifi_frame list option" where
  "transmit_all threshold [] = Some []"
| "transmit_all threshold (m # ms) =
     do {
       fs \<leftarrow> transmitted 16 threshold m;
       gs \<leftarrow> transmit_all threshold ms;
       Some (fs @ gs)
     }"

lemma transmit_all_fragments:
  assumes "\<forall>m\<in>set ms. sendable threshold m"
  shows "transmit_all threshold ms =
    Some (concat (map (\<lambda>m. map (nth_fragment threshold m) [0..<number_of_fragments threshold m]) ms))"
  using assms by (induction ms) (auto simp: transmitted_fragments)

lemma first_control_differs:
  assumes "sendable threshold m" "sendable threshold m'" "m_seqSeq (snd m) \<noteq> m_seqSeq (snd m')"
  shows "m_lastSequenceControl (after_fragment threshold m (number_of_fragments threshold m - 1)) \<noteq>
    GetSequenceControl (snd (nth_fragment threshold m' 0))"
proof -
  have "number_of_fragments threshold m - 1 < number_of_fragments threshold m" "0 < number_of_fragments threshold m'"
    by (simp_all add: number_of_fragments_def)
  then show ?thesis using fragment_control(1) [OF assms(1)] fragment_control(1) [OF assms(2)] assms(3)
    by (force simp: after_fragment_def Let_def)
qed

lemma heard_frames:
  "\<lbrakk>\<forall>m\<in>set ms. sendable threshold m; successively (\<lambda>a b. m_seqSeq (snd a) \<noteq> m_seqSeq (snd b)) ms; ready st;
    ms \<noteq> [] \<longrightarrow> m_lastSequenceControl st \<noteq> GetSequenceControl (snd (nth_fragment threshold (hd ms) 0));
    transmit_all threshold ms = Some sent; heard sent gs\<rbrakk> \<Longrightarrow>
   \<exists>st'. status_steps gs st = Some (map fst ms, st') \<and> ready st'"
proof (induction ms arbitrary: st gs sent)
  case Nil
  then show ?case by (auto elim: heard_nilE)
next
  case (Cons m ms)
  let ?N = "number_of_fragments threshold m"
  have s: "sendable threshold m" and ss: "\<forall>m\<in>set ms. sendable threshold m" using Cons.prems(1) by simp_all
  obtain rest where t: "transmit_all threshold ms = Some rest" "sent = map (nth_fragment threshold m) [0..<?N] @ rest"
    using Cons.prems(5) transmit_all_fragments [OF ss] by (simp add: transmitted_fragments [OF s])
  then obtain ga gb where g: "gs = ga @ gb" "heard (map (nth_fragment threshold m) [0..<?N]) ga" "heard rest gb"
    using heard_append Cons.prems(6) by blast
  have a: "status_steps ga st = Some ([fst m], after_fragment threshold m (?N - 1))"
    using Cons.prems(4) by (intro heard_frame [OF s Cons.prems(3) _ g(2)]) simp
  have "ms \<noteq> [] \<longrightarrow> m_lastSequenceControl (after_fragment threshold m (?N - 1)) \<noteq>
      GetSequenceControl (snd (nth_fragment threshold (hd ms) 0))"
    using Cons.prems(2) ss by (intro impI first_control_differs [OF s]) (auto simp: successively_Cons)
  then obtain st' where b: "status_steps gb (after_fragment threshold m (?N - 1)) = Some (map fst ms, st')" "ready st'"
    using Cons.IH [OF ss _ ready_after_frame [of threshold m] _ t(1) g(3)] Cons.prems(2) by (auto simp: successively_Cons)
  show ?case using status_steps_append [OF a b(1)] b(2) by (simp add: g(1))
qed

subsection \<open>The numbers of the frames\<close>

text \<open>The sender numbers the frames in the order in which they are sent.\<close>

fun number_frames :: "wifi_frame list \<Rightarrow> mac_tx_middle \<Rightarrow> (wifi_frame list \<times> mac_tx_middle) option" where
  "number_frames [] t = Some ([], t)"
| "number_frames (m # ms) t =
     do {
       (sq, t) \<leftarrow> GetNextSequenceNumberFor (snd m) t;
       (out, t) \<leftarrow> number_frames ms t;
       Some ((fst m, SetSequenceNumber sq (snd m)) # out, t)
     }"

definition tx_ok :: "mac_tx_middle \<Rightarrow> bool" where
  "tx_ok t \<longleftrightarrow> m_sequence t < 4096 \<and>
     (\<forall>a sqs. m_qosSequences t a = Some sqs \<longrightarrow> length sqs = 16 \<and> (\<forall>sq\<in>set sqs. sq < 4096))"

text \<open>Frames with one key and one destination take their numbers from one counter.\<close>

fun unicast_key :: "rx_key \<Rightarrow> bool" where
  "unicast_key (Plain b) \<longleftrightarrow> \<not> IsGroup b"
| "unicast_key (Qos b tid) \<longleftrightarrow> \<not> IsGroup b \<and> tid < 16"

lemma key_QosData:
  assumes "rx_key_of h = k" "unicast_key k"
  shows "IsQosData h = (case k of Plain b \<Rightarrow> False | Qos b tid \<Rightarrow> True)"
    and "IsQosData h \<Longrightarrow> GetQosTid h = Some (m_qosTid h) \<and> m_qosTid h < 16 \<and> (case k of Plain b \<Rightarrow> False | Qos b tid \<Rightarrow> m_qosTid h = tid)"
  using assms by (auto simp: rx_key_of_def GetQosTid_def split: if_splits)

lemma mod_4096: "(x :: 16 word) mod 4096 < 4096"
  by (simp add: word_less_nat_alt unat_mod_distrib)

lemma successor_differs:
  assumes "(x :: 16 word) < 4096"
  shows "(x + 1) mod 4096 \<noteq> x"
proof
  assume "(x + 1) mod 4096 = x"
  moreover have u: "unat x < 4096" using assms by (simp add: word_less_nat_alt)
  moreover have "unat ((x + 1) mod 4096) = (unat x + 1) mod 4096"
    using u by (simp add: unat_mod_distrib unat_word_ariths take_bit_nat_eq_self)
  ultimately have "(unat x + 1) mod 4096 = unat x" by simp
  with u show False by (cases "unat x = 4095") simp_all
qed

lemma GetNext_step:
  assumes k: "rx_key_of h = k" "unicast_key k" and t: "tx_ok t" and a: "\<not> IsGroup (m_addr1 h)"
  shows "\<exists>sq t'. GetNextSequenceNumberFor h t = Some (sq, t') \<and> PeekNextSequenceNumberFor h t = Some sq \<and>
    sq < 4096 \<and> tx_ok t' \<and> PeekNextSequenceNumberFor h t' = Some ((sq + 1) mod 4096)"
proof (cases "IsQosData h")
  case False
  then show ?thesis using t by (simp add: GetNextSequenceNumberFor_def PeekNextSequenceNumberFor_def tx_ok_def mod_4096)
next
  case True
  let ?i = "unat (m_qosTid h)"
  note q = key_QosData(2) [OF k True]
  have i: "?i < 16" using q by (simp add: word_less_nat_alt)
  show ?thesis
  proof (cases "m_qosSequences t (m_addr1 h)")
    case None
    have "set ((replicate 16 0)[?i := 1 :: 16 word]) \<subseteq> {0, 1}" using set_update_subset_insert [of "replicate 16 0" ?i 1] by auto
    then have "\<forall>sq\<in>set ((replicate 16 0)[?i := 1 :: 16 word]). sq < 4096" by auto
    moreover have "(1 :: 16 word) mod 4096 = 1" by (simp add: word_mod_def)
    ultimately show ?thesis using True q t None i a
      by (auto simp: GetNextSequenceNumberFor_def PeekNextSequenceNumberFor_def tx_ok_def)
  next
    case (Some sqs)
    have l: "length sqs = 16" "\<forall>sq\<in>set sqs. sq < 4096" using t Some by (auto simp: tx_ok_def)
    have "set (sqs[?i := (sqs ! ?i + 1) mod 4096]) \<subseteq> insert ((sqs ! ?i + 1) mod 4096) (set sqs)" by (rule set_update_subset_insert)
    then have "\<forall>sq\<in>set (sqs[?i := (sqs ! ?i + 1) mod 4096]). sq < 4096" using l(2) mod_4096 by auto
    moreover have "sqs ! ?i < 4096" using l i by simp
    ultimately show ?thesis using True q t Some i a l(1)
      by (auto simp: GetNextSequenceNumberFor_def PeekNextSequenceNumberFor_def tx_ok_def Let_def)
  qed
qed

lemma Peek_same:
  assumes "rx_key_of h = k" "rx_key_of h' = k" "unicast_key k" "m_addr1 h' = m_addr1 h"
  shows "PeekNextSequenceNumberFor h' t = PeekNextSequenceNumberFor h t"
  using assms key_QosData [OF assms(1,3)] key_QosData [OF assms(2,3)]
  by (cases k) (auto simp: PeekNextSequenceNumberFor_def)

lemma numbered [simp]:
  "WifiMacHeader_GetSize (SetSequenceNumber sq h) = WifiMacHeader_GetSize h"
  "IsData (SetSequenceNumber sq h) = IsData h"
  "IsMgt (SetSequenceNumber sq h) = IsMgt h"
  "m_addr1 (SetSequenceNumber sq h) = m_addr1 h"
  "m_seqSeq (SetSequenceNumber sq h) = sq"
  "rx_key_of (SetSequenceNumber sq h) = rx_key_of h"
  by (simp_all add: SetSequenceNumber_def WifiMacHeader_GetSize_def IsData_def IsMgt_def rx_key_of_def IsQosData_def)

lemma sendable_numbered:
  "\<lbrakk>sendable threshold m; sq < 4096\<rbrakk> \<Longrightarrow> sendable threshold (fst m, SetSequenceNumber sq (snd m))"
  by (simp add: sendable_def IsFragment_def IsMoreFragments_def payload_size_def) (simp add: SetSequenceNumber_def)

lemma number_frames_ok:
  assumes "unicast_key k"
  shows "\<lbrakk>\<forall>m\<in>set ms. sendable threshold m \<and> rx_key_of (snd m) = k \<and> m_addr1 (snd m) = a; tx_ok t\<rbrakk> \<Longrightarrow>
    \<exists>out t'. number_frames ms t = Some (out, t') \<and> tx_ok t' \<and> map fst out = map fst ms \<and>
      (\<forall>m\<in>set out. sendable threshold m \<and> rx_key_of (snd m) = k) \<and>
      successively (\<lambda>x y. m_seqSeq (snd x) \<noteq> m_seqSeq (snd y)) out \<and>
      (ms \<noteq> [] \<longrightarrow> Some (m_seqSeq (snd (hd out))) = PeekNextSequenceNumberFor (snd (hd ms)) t)"
proof (induction ms arbitrary: t)
  case (Cons m ms)
  have m: "sendable threshold m" "rx_key_of (snd m) = k" "m_addr1 (snd m) = a"
    and ms: "\<forall>m\<in>set ms. sendable threshold m \<and> rx_key_of (snd m) = k \<and> m_addr1 (snd m) = a"
    using Cons.prems(1) by simp_all
  have ng: "\<not> IsGroup (m_addr1 (snd m))" using m(1) by (simp add: sendable_def)
  obtain sq t1 where g: "GetNextSequenceNumberFor (snd m) t = Some (sq, t1)" "PeekNextSequenceNumberFor (snd m) t = Some sq"
      "sq < 4096" "tx_ok t1" "PeekNextSequenceNumberFor (snd m) t1 = Some ((sq + 1) mod 4096)"
    using GetNext_step [OF m(2) assms Cons.prems(2) ng] by blast
  obtain out t' where o: "number_frames ms t1 = Some (out, t')" "tx_ok t'" "map fst out = map fst ms"
      "\<forall>m\<in>set out. sendable threshold m \<and> rx_key_of (snd m) = k"
      "successively (\<lambda>x y. m_seqSeq (snd x) \<noteq> m_seqSeq (snd y)) out"
      "ms \<noteq> [] \<longrightarrow> Some (m_seqSeq (snd (hd out))) = PeekNextSequenceNumberFor (snd (hd ms)) t1"
    using Cons.IH [OF ms g(4)] by blast
  let ?m = "(fst m, SetSequenceNumber sq (snd m))"
  have "m_seqSeq (snd (hd out)) = (sq + 1) mod 4096" if "ms \<noteq> []"
    using that o(6) g(5) ms m assms Peek_same [of "snd m" k "snd (hd ms)" t1] by simp
  moreover have "(out = []) = (ms = [])" using arg_cong [OF o(3), of length] by auto
  ultimately have "successively (\<lambda>x y. m_seqSeq (snd x) \<noteq> m_seqSeq (snd y)) (?m # out)"
    using o(5) successor_differs [OF g(3)] by (auto simp: successively_Cons)
  then show ?case using g o m sendable_numbered [OF m(1) g(3)] by simp
qed simp

end
