(* ===== verification/Wifi_Middle_Props.thy ===== *)
theory Wifi_Middle_Props
  imports Wifi_Middle_Run
begin

text \<open>
  Fragmented frames from the sender's \<open>MacTxMiddle\<close> to the receiver's \<open>MacRxMiddle\<close>: what is forwarded,
  and what an abandoned frame does.
\<close>

lemma other_sequence_dropped:
  assumes "m_defragmenting s" "drop_bit 4 (GetSequenceControl (snd f)) \<noteq> drop_bit 4 (m_lastSequenceControl s)"
  shows "status_step f s = Some (None, s)"
  using assms by (simp add: status_step_def HandleFragments_def IsNextFragment_def)

lemma other_sequences_dropped:
  "\<lbrakk>m_defragmenting s; \<forall>f\<in>set fs. drop_bit 4 (GetSequenceControl (snd f)) \<noteq> drop_bit 4 (m_lastSequenceControl s)\<rbrakk> \<Longrightarrow>
    status_steps fs s = Some ([], s)"
  by (induction fs) (auto simp: other_sequence_dropped)

text \<open>C39: exactly-once delivery. A sender numbers any sequence of unicast data or management frames of one flow with
  \<open>GetNextSequenceNumberFor\<close> and sends each as the fragments that \<open>GetFirstFragmentIfNeeded\<close> and
  \<open>GetNextFragment\<close> make of it. Whatever else arrives from other flows in between, and however often the
  retries of a fragment are heard, \<open>MacRxMiddle::Receive\<close> forwards the payloads of these frames exactly
  once each, whole and in order, and ends ready for the next frame.
\<close>

theorem fragments_delivered_once:
  assumes "\<forall>m\<in>set ms. sendable threshold m \<and> rx_key_of (snd m) = k \<and> m_addr1 (snd m) = a"
    and "unicast_key k" and "tx_ok t"
  shows "\<exists>numbered t' sent. number_frames ms t = Some (numbered, t') \<and> tx_ok t' \<and> transmit_all threshold numbered = Some sent \<and>
    (\<forall>fs r. (\<forall>f\<in>set fs. receivable f) \<longrightarrow> heard sent (with_key k fs) \<longrightarrow> ready (rx_status k r) \<longrightarrow>
       (sent \<noteq> [] \<longrightarrow> m_lastSequenceControl (rx_status k r) \<noteq> GetSequenceControl (snd (hd sent))) \<longrightarrow>
       (\<exists>out r'. receive_all fs r = Some (out, r') \<and> map fst (with_key k out) = map fst ms \<and> ready (rx_status k r')))"
proof -
  obtain numbered t' where n: "number_frames ms t = Some (numbered, t')" "tx_ok t'" "map fst numbered = map fst ms"
      "\<forall>m\<in>set numbered. sendable threshold m \<and> rx_key_of (snd m) = k"
      "successively (\<lambda>x y. m_seqSeq (snd x) \<noteq> m_seqSeq (snd y)) numbered"
    using number_frames_ok [OF assms(2,1,3)] by blast
  then have sendable: "\<forall>m\<in>set numbered. sendable threshold m" by simp
  obtain sent where sent: "transmit_all threshold numbered = Some sent" using transmit_all_fragments [OF sendable] by blast
  have hd_sent: "sent \<noteq> [] \<and> hd sent = nth_fragment threshold (hd numbered) 0" if "numbered \<noteq> []"
    using that sent transmit_all_fragments [OF sendable]
    by (cases numbered) (auto simp: number_of_fragments_def upt_conv_Cons)
  have "\<exists>out r'. receive_all fs r = Some (out, r') \<and> map fst (with_key k out) = map fst ms \<and> ready (rx_status k r')"
    if f: "\<forall>f\<in>set fs. receivable f" and h: "heard sent (with_key k fs)" and r: "ready (rx_status k r)"
      and new: "sent \<noteq> [] \<longrightarrow> m_lastSequenceControl (rx_status k r) \<noteq> GetSequenceControl (snd (hd sent))" for fs r
  proof -
    have first: "numbered \<noteq> [] \<longrightarrow> m_lastSequenceControl (rx_status k r) \<noteq> GetSequenceControl (snd (nth_fragment threshold (hd numbered) 0))"
      using new hd_sent by metis
    obtain st where st: "status_steps (with_key k fs) (rx_status k r) = Some (map fst numbered, st)" "ready st"
      using heard_frames [OF sendable n(5) r first sent h] by auto
    obtain out r' where o: "receive_all fs r = Some (out, r')"
      and all: "\<forall>k. status_steps (with_key k fs) (rx_status k r) = Some (map fst (with_key k out), rx_status k r')"
      using receive_all_status [OF f] by blast
    show ?thesis using o spec [OF all, of k] st n(3) by simp
  qed
  then show ?thesis using n sent by blast
qed

text \<open>A data frame from station \<open>b\<close>, two frames of 300 and 3 bytes, and what is heard of them.\<close>

definition data_header :: "mac48 \<Rightarrow> WifiMacHeader" where
  "data_header b = \<lparr>m_ctrlType = TYPE_DATA, m_ctrlSubtype = 0, m_ctrlToDs = 0, m_ctrlFromDs = 0, m_ctrlMoreFrag = 0,
     m_ctrlRetry = 0, m_ctrlPowerManagement = 0, m_ctrlMoreData = 0, m_ctrlWep = 0, m_ctrlOrder = 0, m_duration = 0,
     m_addr1 = [0, 0, 0, 0, 0, 9], m_addr2 = b, m_addr3 = b, m_seqFrag = 0, m_seqSeq = 0, m_addr4 = b,
     m_qosTid = 0, m_qosEosp = 0, m_qosAckPolicy = 0, m_amsduPresent = 0, m_qosStuff = 0\<rparr>"

abbreviation "station_1 \<equiv> [0, 0, 0, 0, 0, 1 :: octet]"

definition two_frames :: "wifi_frame list" where
  "two_frames = [(replicate 300 7, data_header station_1), ([1, 2, 3], data_header station_1)]"

definition two_frames_sent :: "wifi_frame list" where
  "two_frames_sent = [(replicate 228 7, (data_header station_1)\<lparr>m_ctrlMoreFrag := 1\<rparr>),
     (replicate 72 7, (data_header station_1)\<lparr>m_seqFrag := 1\<rparr>),
     ([1, 2, 3], (data_header station_1)\<lparr>m_seqSeq := 1\<rparr>)]"

definition two_frames_heard :: "wifi_frame list" where
  "two_frames_heard = [(replicate 228 7, (data_header station_1)\<lparr>m_ctrlMoreFrag := 1\<rparr>),
     ([5], data_header [0, 0, 0, 0, 0, 2]),
     (replicate 228 7, (data_header station_1)\<lparr>m_ctrlMoreFrag := 1, m_ctrlRetry := 1\<rparr>),
     (replicate 72 7, (data_header station_1)\<lparr>m_seqFrag := 1, m_ctrlRetry := 1\<rparr>),
     ([1, 2, 3], (data_header station_1)\<lparr>m_seqSeq := 1\<rparr>)]"

lemma two_frames_run:
  "map_option fst (number_frames two_frames mac_tx_middle_init) = Some (two_frames[1 := ([1, 2, 3], (data_header station_1)\<lparr>m_seqSeq := 1\<rparr>)])"
  "transmit_all 256 (two_frames[1 := ([1, 2, 3], (data_header station_1)\<lparr>m_seqSeq := 1\<rparr>)]) = Some two_frames_sent"
  by code_simp+

lemma two_frames_heard_ok: "heard two_frames_sent (with_key (Plain station_1) two_frames_heard)"
proof -
  have w: "with_key (Plain station_1) two_frames_heard = [two_frames_heard ! 0, two_frames_heard ! 2, two_frames_heard ! 3, two_frames_heard ! 4]"
    by code_simp
  have "heard two_frames_sent (two_frames_heard ! 0 # [two_frames_heard ! 2] @ two_frames_heard ! 3 # [] @ two_frames_heard ! 4 # [] @ [])"
    unfolding two_frames_sent_def
    by (intro heard_cons heard_nil) (simp_all add: two_frames_heard_def copy_of_def data_header_def IsRetry_def)
  then show ?thesis unfolding w by simp
qed

lemma fragments_delivered_once_witness:
  "\<exists>out r'. receive_all two_frames_heard mac_rx_middle_init = Some (out, r') \<and>
     map fst (with_key (Plain station_1) out) = [replicate 300 7, [1, 2, 3]] \<and> ready (rx_status (Plain station_1) r')"
proof -
  have a: "\<forall>m\<in>set two_frames. sendable 256 m \<and> rx_key_of (snd m) = Plain station_1 \<and> m_addr1 (snd m) = [0, 0, 0, 0, 0, 9]"
    by (simp add: two_frames_def data_header_def sendable_def IsData_def IsGroup_def IsFragment_def IsMoreFragments_def
      payload_size_def WifiMacHeader_GetSize_def IsQosData_def rx_key_of_def TYPE_DATA_def TYPE_CTL_def TYPE_MGT_def)
  have k: "unicast_key (Plain station_1)" by code_simp
  have t: "tx_ok mac_tx_middle_init" by (simp add: tx_ok_def mac_tx_middle_init_def)
  obtain numbered t' sent where n: "number_frames two_frames mac_tx_middle_init = Some (numbered, t')"
      "transmit_all 256 numbered = Some sent"
    and all: "\<And>fs r. \<lbrakk>\<forall>f\<in>set fs. receivable f; heard sent (with_key (Plain station_1) fs); ready (rx_status (Plain station_1) r);
       sent \<noteq> [] \<longrightarrow> m_lastSequenceControl (rx_status (Plain station_1) r) \<noteq> GetSequenceControl (snd (hd sent))\<rbrakk> \<Longrightarrow>
       \<exists>out r'. receive_all fs r = Some (out, r') \<and> map fst (with_key (Plain station_1) out) = map fst two_frames \<and>
         ready (rx_status (Plain station_1) r')"
    using fragments_delivered_once [OF a k t] by blast
  have s: "sent = two_frames_sent" using n two_frames_run by simp
  have rc: "\<forall>f\<in>set two_frames_heard. receivable f" by code_simp
  have r: "rx_status (Plain station_1) mac_rx_middle_init = OriginatorRxStatus" by (simp add: rx_status_def mac_rx_middle_init_def)
  have first: "m_lastSequenceControl OriginatorRxStatus \<noteq> GetSequenceControl (snd (hd two_frames_sent))" by code_simp
  have "ready OriginatorRxStatus" by (simp add: ready_def OriginatorRxStatus_def)
  moreover have "map fst two_frames = [replicate 300 7, [1, 2, 3]]" by (simp add: two_frames_def)
  ultimately show ?thesis
    using all [of two_frames_heard mac_rx_middle_init] rc two_frames_heard_ok first unfolding r s by simp
qed

text \<open>C40: a frame whose last fragments never arrive. Once a first fragment has been accepted, every frame of the
  same flow with another sequence number, fragmented or not, is dropped, and the status never changes: nothing
  ends the defragmentation but the fragment that is awaited.\<close>

theorem abandoned_fragments_block:
  assumes "\<forall>f\<in>set fs. receivable f" and "m_defragmenting (rx_status k r)"
    and "\<forall>f\<in>set (with_key k fs). drop_bit 4 (GetSequenceControl (snd f)) \<noteq> drop_bit 4 (m_lastSequenceControl (rx_status k r))"
  shows "\<exists>out r'. receive_all fs r = Some (out, r') \<and> with_key k out = [] \<and> rx_status k r' = rx_status k r"
proof -
  obtain out r' where o: "receive_all fs r = Some (out, r')"
    and all: "\<forall>k. status_steps (with_key k fs) (rx_status k r) = Some (map fst (with_key k out), rx_status k r')"
    using receive_all_status [OF assms(1)] by blast
  show ?thesis using o spec [OF all, of k] other_sequences_dropped [OF assms(2,3)] by simp
qed

lemma abandoned_fragments_block_witness:
  "\<exists>out r'. receive_all [([4, 5], (data_header station_1)\<lparr>m_seqSeq := 8\<rparr>)]
       (set_status (Plain station_1) \<lparr>m_defragmenting = True, m_lastSequenceControl = 0x70, rx_fragments = [[1, 2, 3]]\<rparr> mac_rx_middle_init) =
     Some (out, r') \<and> with_key (Plain station_1) out = [] \<and>
     rx_status (Plain station_1) r' = \<lparr>m_defragmenting = True, m_lastSequenceControl = 0x70, rx_fragments = [[1, 2, 3]]\<rparr>"
proof -
  let ?fs = "[([4, 5], (data_header station_1)\<lparr>m_seqSeq := 8\<rparr>)]"
  let ?s = "\<lparr>m_defragmenting = True, m_lastSequenceControl = 0x70, rx_fragments = [[1, 2, 3]]\<rparr> :: originator_rx_status"
  have s: "rx_status (Plain station_1) (set_status (Plain station_1) ?s mac_rx_middle_init) = ?s"
    by (simp del: set_status.simps)
  have "\<forall>f\<in>set ?fs. receivable f" by code_simp
  moreover have "\<forall>f\<in>set (with_key (Plain station_1) ?fs).
      drop_bit 4 (GetSequenceControl (snd f)) \<noteq> drop_bit 4 (m_lastSequenceControl ?s)" by code_simp
  ultimately show ?thesis
    using abandoned_fragments_block [of ?fs "Plain station_1" "set_status (Plain station_1) ?s mac_rx_middle_init", unfolded s] by simp
qed

end
