(* ===== verification/Spec2Isabelle.thy ===== *)
theory Spec2Isabelle
  imports Simulator_Props Heap_Scheduler Phy_State Twt_Props Block_Ack_Bitmap Calendar_Props Tcp_Rx_Props Queue_Limits
    Header_Props Ipv4_Fragments_Props Wifi_Middle_Props
begin

text \<open>
  \<^bold>\<open>Verification of the core of the ns-3 simulator with the Target Wake Time patch.\<close>

  ns-3 is a discrete-event network simulator. A \<^emph>\<open>scheduler\<close> (\<open>core/model/*-scheduler.cc\<close>) holds
  the pending events, the \<^emph>\<open>simulator\<close> (\<open>core/model/default-simulator-impl.cc\<close>) takes the least
  one, sets the clock to its time stamp and runs its handler, which may schedule and cancel further
  events. The network models are built from such handlers. The patch of this repository adds Target
  Wake Time to the Wi-Fi model: a station and its access point agree on service periods, which are
  pairs of events that wake the PHY and unblock queues, or block them and put the PHY to sleep.
  The development follows this structure from the event queue up to the TWT service periods, and
  beside it models components of the network stack that keep a state of their own.

  All paths below are relative to \<open>src/\<close> of the repository.

  \<^bold>\<open>Conventions.\<close>
  \<^item> Definitions keep the names of the source. A C++ object is a record with the members of the class,
    a method is a function from the old to the new record; members of the class are its selectors.
  \<^item> A failing \<open>NS_ASSERT\<close> or \<open>NS_ABORT\<close> is the value \<open>None\<close> (\<open>Aborted\<close> for the event loop), so every
    theorem that says \<open>\<dots> = Some \<dots>\<close> also says that no assertion fails.
  \<^item> Integers keep the width of the source: \<open>uint16_t\<close> is \<open>16 word\<close> and so on. Where C++ promotes to
    \<open>int\<close> or \<open>size_t\<close> the definitions convert and convert back. Virtual time is \<open>int\<close> or a signed or
    unsigned 64-bit word, as the source reads it.
  \<^item> \<open>std::map\<close> is an association list in the order of its comparator (\<open>smap_insert\<close>,
    \<open>smap_find\<close>, \<open>smap_erase\<close>, \<open>smap_assign\<close> in \<open>Prelude\<close>), \<open>std::list\<close> and \<open>std::vector\<close> are lists.
  \<^item> Outside the section on packets a packet is its list of bytes, or an identifier where its content
    does not matter, and \<open>Packet::AddAtEnd\<close> is the concatenation of lists: in \<open>Extract\<close> (\<open>Tcp_Rx\<close>), \<open>GetPacket\<close> and
    \<open>GetPartialPacket\<close> (\<open>Ipv4_Fragments\<close>) and \<open>AccumulateLastFragment\<close> (\<open>Wifi_Mac_Middle\<close>). This is a convention:
    \<open>buffers_are_byte_lists\<close> proves it of the packet buffer only where the buffer is \<open>appendable\<close>, and
    \<open>append_misplaces_trailer\<close> shows that it fails for a packet that starts with zeros that take no memory and ends with
    bytes, such as a zero-filled payload with a trailer. The theorems on reassembly say nothing about such packets.
  \<^item> Logging and trace sources have no definition; they do not change the state that is modelled.

  \<^bold>\<open>Event schedulers and the simulator.\<close>
  \<^item> \<open>Prelude\<close>: named collections, lists sorted by a strict order, ordered maps, loops that may abort.
  \<^item> \<open>Events\<close>: event keys and their order (\<open>scheduler.h\<close>), the virtual methods of a scheduler as the
    record \<open>scheduler\<close>, the locale \<open>event_queue\<close> (what a client may rely on: the queue stands for a
    strictly sorted list of events) and its extension \<open>removable_event_queue\<close> with \<open>Remove\<close>.
  \<^item> \<open>Schedulers\<close>: the list, map and priority queue schedulers, each an interpretation of
    \<open>removable_event_queue\<close>.
  \<^item> \<open>Heap_Scheduler\<close>: the binary heap. Its loops are partial functions; the invariant shows that they
    end. It is an interpretation of \<open>event_queue\<close> only: \<open>Remove\<close> does not always keep the heap order.
    \<open>Heap_Remove\<close> shows when it does (\<open>heap_Remove_disorders\<close>).
  \<^item> \<open>Calendar_Scheduler\<close>, \<open>Calendar_Inv\<close>: the calendar queue with its resizing. Its search goes
    round the buckets at most once (the recursion is on the number of buckets). It is correct only
    for a client whose time never goes back.
  \<^item> \<open>Monotone_Queue\<close>, \<open>Calendar_Props\<close>: the contract for such a client (locale
    \<open>monotone_event_queue\<close>, implied by \<open>removable_event_queue\<close>), the calendar queue as its
    interpretation, and the theorem that it answers like the map scheduler.
  \<^item> \<open>Simulator\<close>: \<open>DefaultSimulatorImpl\<close> with \<open>EventImpl\<close> and \<open>EventId\<close>: \<open>Schedule\<close>,
    \<open>ScheduleWithContext\<close>, \<open>ScheduleNow\<close>, \<open>ScheduleDestroy\<close>, \<open>Cancel\<close>, \<open>Remove\<close>, \<open>IsExpired\<close>,
    \<open>ProcessOneEvent\<close>, \<open>Run\<close>, \<open>Destroy\<close>. The scheduler and the handler \<open>notify\<close> are arguments.
    Time values are unbounded integers where no wrap-around is at issue (\<open>Phy_State\<close>), and so is
    \<open>m_unscheduledEvents\<close>; the source has 64-bit and \<open>int\<close> members, which differ only on overflow.
    \<open>Run\<close> and \<open>Destroy\<close> take fuel, one unit per event; \<open>OutOfFuel\<close> is a value of its own, so it is
    never taken for a result of the code.
  \<^item> \<open>Simulator_Inv\<close>: the locale \<open>simulation\<close> over any removable event queue and any handler that uses
    the simulator through its operations; the invariant \<open>sim_ok\<close> and the facts about reachable
    states. The predicate \<open>room\<close> (\<open>twt_room\<close> for the TWT handler) says that the 32-bit event
    identifiers and the 64-bit time do not wrap.
  \<^item> \<open>Simulator_Runs\<close>: what becomes of one event along a run: a pending event that is not cancelled is processed when
    the time has come to it; an event that was scheduled for the past stops the simulation.
  \<^item> \<open>Simulator_Props\<close>: the properties, on the map scheduler and the TWT handler.

  \<^bold>\<open>Wi-Fi.\<close>
  \<^item> \<open>Phy_State\<close>: the PHY state machine (\<open>wifi/model/wifi-phy-state-helper.cc\<close>), whose state is not
    stored but computed from the ends of the periods; all transitions, the log of past periods, and
    the invariant that the activities exclude each other.
  \<^item> \<open>Twt\<close>: the agreements (\<open>wifi-twt-agreement.cc\<close>), the manager's \<open>CreateTwtAgreement\<close>,
    \<open>BeginTwtSpNow\<close>, \<open>EndTwtSpNow\<close> and counter (\<open>wifi-remote-station-manager.cc\<close>), \<open>SetTwtSchedule\<close>
    and the blocking of queues (\<open>wifi-mac.cc\<close>, \<open>sta-wifi-mac.cc\<close>), and the bound on a frame exchange
    (\<open>he-frame-exchange-manager.cc\<close>). The rest of the node is part of the node state. The nodes have a single link:
    the assertion of \<open>GetLink(0)\<close> in \<open>SetTwtSchedule\<close> and the station state that the links of a multi-link
    device share are not modelled.
  \<^item> \<open>Twt_Sim\<close>: the TWT node as an event handler of the simulator, interpretation of \<open>simulation\<close>.
  \<^item> \<open>Twt_Inv\<close>, \<open>Twt_Effects\<close>, \<open>Twt_Props\<close>: the invariant of the agreements, the effect of each
    handler, and the properties.
  \<^item> \<open>Block_Ack_Window\<close>: the circular bitmap and its abstraction to the list of its flags.
  \<^item> \<open>Block_Ack\<close>, \<open>Block_Ack_Inv\<close>, \<open>Block_Ack_Props\<close>: the originator's transmit window, the
    recipient's reordering buffer and scoreboard, the responses, over all runs.
  \<^item> \<open>Block_Ack_Bitmap\<close>: the scoreboard written into a response and read back.
  \<^item> \<open>Wifi_Mac_Middle\<close>: sequence numbers (\<open>mac-tx-middle.cc\<close>), the fragments of a frame
    (\<open>frame-exchange-manager.cc\<close>, \<open>wifi-remote-station-manager.cc\<close>), and the receiver that filters
    duplicates and puts fragments together (\<open>mac-rx-middle.cc\<close>). The pointer that \<open>Lookup\<close> returns is
    the key of the status. \<open>Wifi_Middle_Inv\<close>: a frame is sent as the slices of its packet, for frames that
    fit into the sixteen values of a fragment number (\<open>sendable\<close>; the fuel of \<open>transmitted\<close> is sixteen for
    this reason). \<open>Wifi_Middle_Rx\<close>: the statuses of different keys do not interfere; \<open>heard\<close> says which
    copies of the fragments arrive. \<open>Wifi_Middle_Run\<close>: the status along a frame and along several frames,
    and the numbers that the sender gives them. \<open>Wifi_Middle_Props\<close>: what is forwarded. The frame exchange
    around it (channel access, acknowledgments and the decision to retry) is not modelled; \<open>heard\<close> stands
    for its outcome.

  \<^bold>\<open>Packets.\<close>
  \<^item> \<open>Packet_Buffer\<close>: the byte buffer of a packet (\<open>network/model/buffer.cc\<close>). Buffers share blocks of
    memory with a reference count; a part of each buffer may be zeros that take no memory. The memory
    is explicit: a map from addresses to blocks, the free list, and a function for the content of fresh
    memory. Every access is checked against its block, so \<open>None\<close> is also an access outside a block.
  \<^item> \<open>Packet_Buffer_Inv\<close>: the bytes a buffer stands for (\<open>content\<close>), the invariant of the memory
    \<open>mem_ok\<close> (reference counts are exact, no buffer reaches beyond the dirty area of its block) and the
    operations that make and give up room. \<open>Packet_Buffer_Ops\<close>: copies, fragments and writing.
    \<open>Packet_Buffer_Append\<close>: appending another buffer. \<open>Packet_Buffer_Props\<close>: sequences of operations
    on any number of buffers act as on lists of bytes, and where appending does not. Contents are bounded by \<open>MAX_BYTES\<close>, \<open>2 ^ 30\<close>,
    so that no 32-bit offset wraps.
  \<^item> \<open>Buffer_Codec\<close>: the numbers an iterator writes and reads, the Internet checksum, addresses
    (\<open>network/utils/address-utils.cc\<close>), \<open>AddHeader\<close>, \<open>RemoveHeader\<close> and \<open>PeekHeader\<close> of
    \<open>network/model/packet.cc\<close>. \<open>emits w bs\<close> says that a writer puts exactly the bytes \<open>bs\<close> into any
    room that is large enough, \<open>parses r bs v\<close> that a reader takes \<open>bs\<close> and returns \<open>v\<close>. The locale
    \<open>packet_header\<close> is the contract of \<open>Header\<close>: \<open>GetSerializedSize\<close>, \<open>Serialize\<close> and \<open>Deserialize\<close> agree
    on the bytes of a valid header; its lemmas are about adding and removing such a header.
  \<^item> \<open>Wifi_Mac_Header\<close>, \<open>Ipv4_Header\<close>, \<open>Packet_Headers\<close> (LLC/SNAP, Ethernet, PPP, A-MSDU subframe, ARP):
    the headers, each an interpretation of \<open>packet_header\<close>; \<open>received\<close> says which members a reader gets.
    The loop that folds the carries of the checksum has fuel four: for the at most 65536 words it
    adds, three rounds are enough (\<open>fold_carries_ok\<close>).
  \<^item> \<open>Header_Props\<close>: a stack of headers in a packet that may share its memory, and the headers that
    are not read as written. In \<open>ReadFrom_address\<close> an address longer than the array of 20 bytes is \<open>None\<close> at
    once, so that writing outside the array and a packet that is too short are not told apart.

  \<^item> \<open>Packets\<close>: \<open>GetSize\<close> and \<open>CreateFragment\<close> of a packet seen as its bytes, for the theories of
    fragmentation below. \<open>Packet_Buffer_Props\<close> proves that cutting acts on the bytes; for appending
    see the convention above.

  \<^bold>\<open>The network layer.\<close>
  \<^item> \<open>Ipv4_Fragments\<close>: fragmentation, forwarding, reassembly and timeouts of \<open>Ipv4L3Protocol\<close>
    (\<open>internet/model/ipv4-l3-protocol.cc\<close>). The loop of \<open>DoFragmentation\<close> is a partial function whose
    outer \<open>None\<close> is a loop that does not end. Iterators into the list of timeouts are numbers that are
    used once; the pending events of \<open>HandleTimeout\<close> are a list of times.
  \<^item> \<open>Ipv4_Fragments_Inv\<close>: what fragmentation produces (\<open>fragmentation\<close>, closed under fragmenting the
    fragments), and that the loop ends with it. \<open>Ipv4_Reassembly\<close>: a set of fragments is entire exactly
    when it holds all of them, for datagrams of less than 65536 bytes, and its packet is the payload.
    \<open>Ipv4_L3_Inv\<close>: the fragments and the timeouts agree. \<open>Ipv4_Fragments_Props\<close>: a datagram from the
    sender over routers (\<open>travels\<close>) to the receiver, over all runs of arrivals and timeouts (\<open>l3_run\<close>).

  \<^bold>\<open>Transport and queues.\<close>
  \<^item> \<open>Seq_Number\<close>: 32-bit serial numbers (\<open>network/utils/sequence-number.h\<close>).
  \<^item> \<open>Tcp_Rx\<close>, \<open>Tcp_Rx_Inv\<close>, \<open>Tcp_Rx_Props\<close>: the TCP receive buffer with its SACK list. The
    invariant reads the buffer as blocks of the sender's byte stream, for receive buffers up to
    \<open>2 ^ 28\<close> bytes and segments of up to 65535 bytes that are not older than \<open>2 ^ 30\<close> bytes.
  \<^item> \<open>Queue_Limits\<close>: dynamic queue limits. The runs are those of \<open>Queued\<close> and \<open>Completed\<close> from the initial state.
    \<open>Reset\<close> is not part of them: it keeps \<open>m_adjLimit\<close>, so after a \<open>Reset\<close> in the middle of a run \<open>Available\<close> is not
    the limit less what is in flight; nothing in the repository calls it there. \<open>Posdiff\<close> wraps where the
    subtraction of the source would overflow.

  \<^bold>\<open>Not modelled.\<close> Other threads (only their list of events with context is), the real-time and
  distributed simulators, the object and attribute system, everything whose result is floating point
  (propagation, error models, rate control, energy), the serialisation of \<open>Buffer\<close> itself, packet tags
  and metadata, the headers not named above (UDP, TCP, IPv6, management frames), and the protocol models not named above (LTE, WiMAX, mesh and ad hoc routing, traffic
  control, applications and the helpers).
\<close>

end
